(* ===== verification/Kernel_Prelude.thy ===== *)
theory Kernel_Prelude
  imports Main "HOL-Library.Word"
begin

text \<open>
  What every component shares: the names of the C integer types, the result type of
  operations that can stop the kernel, list ends with a default (the head and tail
  pointers of the linked lists), and generic lemmas about lists and words.
\<close>

unbundle bit_operations_syntax

section \<open>C integer types and pointers\<close>

type_synonym u8 = "8 word"
type_synonym u16 = "16 word"
type_synonym u32 = "32 word"
type_synonym u64 = "64 word"

text \<open>A pointer is a 64 bit address; \<open>NULL\<close> is 0.\<close>

type_synonym ptr = u64

abbreviation NULL :: ptr where
  "NULL \<equiv> 0"

section \<open>Operations that can stop the kernel\<close>

text \<open>
  \<open>OutOfMemory\<close> is the \<^verbatim>\<open>panic()\<close> of the frame allocator, the only one in memory management, \<open>DeviceError\<close> that of
  the disk driver; \<open>HaltLoop\<close> is the halt after a page fault or an interrupt that nothing handles; \<open>BadAccess\<close> is
  a read or write outside the object the C code indexes (undefined behaviour); \<open>Diverge\<close> is a loop that
  never ends.
\<close>

datatype halt = OutOfMemory | DeviceError | HaltLoop | BadAccess | Diverge

type_synonym 'a res = "halt + 'a"

definition bind_res :: "'a res \<Rightarrow> ('a \<Rightarrow> 'b res) \<Rightarrow> 'b res" where
  "bind_res r f = (case r of Inl e \<Rightarrow> Inl e | Inr x \<Rightarrow> f x)"

lemma bind_res_simps [simp]:
  "bind_res (Inl e) f = Inl e"
  "bind_res (Inr x) f = f x"
  by (simp_all add: bind_res_def)

named_theorems res_iff \<open>when a sequence of fallible operations returns\<close>

lemma bind_res_Inr [res_iff]: "bind_res r f = Inr y \<longleftrightarrow> (\<exists>x. r = Inr x \<and> f x = Inr y)"
  by (cases r) simp_all

text \<open>
  An operation with a loop that may not end is \<open>None\<close> when it does not, and then a result of the
  kind above.
\<close>

abbreviation bind_ro :: "'a res option \<Rightarrow> ('a \<Rightarrow> 'b res option) \<Rightarrow> 'b res option" where
  "bind_ro r f \<equiv> Option.bind r (\<lambda>x. case x of Inl e \<Rightarrow> Some (Inl e) | Inr y \<Rightarrow> f y)"

lemma bind_ro_Inr: "bind_ro r f = Some (Inr y) \<longleftrightarrow> (\<exists>x. r = Some (Inr x) \<and> f x = Some (Inr y))"
  by (cases r) (auto split: sum.splits)

section \<open>List ends\<close>

text \<open>The first and the last element of a list of pointers, \<open>NULL\<close> when it is empty.\<close>

definition hd0 :: "ptr list \<Rightarrow> ptr" where
  "hd0 xs = (case xs of [] \<Rightarrow> NULL | x # _ \<Rightarrow> x)"

definition last0 :: "ptr list \<Rightarrow> ptr" where
  "last0 xs = (if xs = [] then NULL else last xs)"

lemma hd0_simps [simp]: "hd0 [] = NULL" "hd0 (x # xs) = x"
  by (simp_all add: hd0_def)

lemma last0_simps [simp]: "last0 [] = NULL" "last0 (xs @ [x]) = x"
  "last0 (x # xs) = (if xs = [] then x else last0 xs)"
  by (simp_all add: last0_def)

lemma hd0_append: "hd0 (xs @ ys) = (if xs = [] then hd0 ys else hd0 xs)"
  by (cases xs) simp_all

lemma last0_append: "last0 (xs @ ys) = (if ys = [] then last0 xs else last0 ys)"
  by (simp add: last0_def)

lemma hd0_in_set: "xs \<noteq> [] \<Longrightarrow> hd0 xs \<in> set xs"
  by (cases xs) simp_all

lemma last0_in_set: "xs \<noteq> [] \<Longrightarrow> last0 xs \<in> set xs"
  by (simp add: last0_def)

lemma hd0_eq_NULL: "NULL \<notin> set xs \<Longrightarrow> hd0 xs = NULL \<longleftrightarrow> xs = []"
  by (cases xs) auto

lemma last0_eq_NULL: "NULL \<notin> set xs \<Longrightarrow> last0 xs = NULL \<longleftrightarrow> xs = []"
  by (cases xs rule: rev_cases) auto

lemma hd0_eq_last0:
  assumes "distinct xs" and "xs \<noteq> []"
  shows "hd0 xs = last0 xs \<longleftrightarrow> length xs = 1"
proof (cases xs)
  case (Cons x ys)
  then show ?thesis
    using assms last_in_set [of ys] by (auto simp: last0_def)
qed (use assms in simp)

section \<open>Words\<close>

lemma unat_bound64: "unat (w :: u64) < 2 ^ 64"
  by (rule order_less_le_trans [OF unsigned_less]) simp

lemma unat_ucast_64 [simp]: "unat (ucast (w :: u32) :: u64) = unat w" "unat (ucast (v :: u16) :: u64) = unat v"
proof -
  have "unat w < 2 ^ 64" "unat v < 2 ^ 64" by (rule order_less_le_trans [OF unsigned_less], simp)+
  then show "unat (ucast w :: u64) = unat w" "unat (ucast v :: u64) = unat v"
    by (simp_all add: unsigned_ucast_eq take_bit_nat_eq_self)
qed

lemma ucast_is_of_nat: "(ucast (w :: 'a::len word) :: 'b::len word) = of_nat (unat w)"
  by (simp add: unsigned_of_nat)

lemma word_of_unat: "w = of_nat (unat w)" for w :: "'a::len word"
  by simp

lemma ucast_up_down [simp]: "(ucast (ucast (w :: u32) :: u64) :: u32) = w"
  by (rule bit_word_eqI) (simp add: bit_simps)

lemma scast_small:
  assumes "k < 2 ^ 31"
  shows "(scast (of_nat k :: u32) :: u64) = of_nat k"
proof -
  have "sint (of_nat k :: u32) = int k"
    using assms by (simp add: signed_of_nat signed_take_bit_int_eq_self)
  then show ?thesis by (metis of_int_of_nat_eq of_int_sint)
qed

lemma unat_min_eq: "unat (min a b) = min (unat a) (unat b)" for a b :: u64
  by (auto simp: min_def word_le_nat_alt)

lemma int_of_small: "k < 2 ^ 31 \<Longrightarrow> sint (ucast (of_nat k :: u64) :: u32) = int k"
proof -
  assume k: "k < 2 ^ 31"
  have "(ucast (of_nat k :: u64) :: u32) = of_nat k"
    using k by (simp add: word_unat_eq_iff unsigned_of_nat unsigned_ucast_eq take_bit_nat_eq_self_iff)
  then show ?thesis using k by (simp add: signed_of_nat signed_take_bit_int_eq_self_iff)
qed

end
