(* ===== verification/CString.thy ===== *)
theory CString
  imports Kernel_Prelude "HOL-Library.List_Lexorder"
begin

text \<open>
  Byte addressed memory with little endian access, and the memory and string functions of
  \<^verbatim>\<open>lib/string.c\<close> on it. Loop counters are 64 bit words as in the code; a scan for a
  terminator that may not end is a partial function.
\<close>

section \<open>Byte memory\<close>

type_synonym bmem = "u64 \<Rightarrow> u8"

definition rd16 :: "bmem \<Rightarrow> u64 \<Rightarrow> u16" where
  "rd16 m a = ucast (m a) OR push_bit 8 (ucast (m (a + 1)))"

definition rd32 :: "bmem \<Rightarrow> u64 \<Rightarrow> u32" where
  "rd32 m a = ucast (rd16 m a) OR push_bit 16 (ucast (rd16 m (a + 2)))"

definition rd64 :: "bmem \<Rightarrow> u64 \<Rightarrow> u64" where
  "rd64 m a = ucast (rd32 m a) OR push_bit 32 (ucast (rd32 m (a + 4)))"

definition wr16 :: "u64 \<Rightarrow> u16 \<Rightarrow> bmem \<Rightarrow> bmem" where
  "wr16 a v m = m(a := ucast v, a + 1 := ucast (drop_bit 8 v))"

definition wr32 :: "u64 \<Rightarrow> u32 \<Rightarrow> bmem \<Rightarrow> bmem" where
  "wr32 a v m = wr16 (a + 2) (ucast (drop_bit 16 v)) (wr16 a (ucast v) m)"

definition wr64 :: "u64 \<Rightarrow> u64 \<Rightarrow> bmem \<Rightarrow> bmem" where
  "wr64 a v m = wr32 (a + 4) (ucast (drop_bit 32 v)) (wr32 a (ucast v) m)"

named_theorems bmem_simps \<open>reading memory after writing it\<close>

lemma word_add_self [simp]: "a + k = a \<longleftrightarrow> k = (0 :: u64)" "a = a + k \<longleftrightarrow> k = (0 :: u64)"
  by simp_all

lemma off_less2 [simp]: "(a + 1) - a = (1 :: u64)" "(a + 2) - a = (2 :: u64)"
  by simp_all

text \<open>A write changes the bytes of its range only.\<close>

lemma wr16_other: "\<not> x - a < 2 \<Longrightarrow> wr16 a v m x = m x"
  by (auto simp: wr16_def)

lemma shift_out:
  fixes x a k :: u64
  assumes "\<not> x - a < n + k" and "unat n + unat k < 2 ^ 64"
  shows "\<not> x - a < n" "\<not> x - (a + k) < n"
proof -
  have s: "unat (n + k) = unat n + unat k" using assms(2) by (simp add: unat_word_ariths)
  have ge: "unat n + unat k \<le> unat (x - a)" using assms(1) s by (simp add: word_less_nat_alt)
  then show "\<not> x - a < n" by (simp add: word_less_nat_alt)
  have "x - (a + k) = (x - a) - k" by (simp add: algebra_simps)
  moreover have "unat ((x - a) - k) = unat (x - a) - unat k"
    using ge by (simp add: unat_sub word_le_nat_alt)
  ultimately have "unat (x - (a + k)) = unat (x - a) - unat k" by (simp only:)
  then show "\<not> x - (a + k) < n" using ge unfolding word_less_nat_alt by linarith
qed

lemma wr32_other: "\<not> x - a < 4 \<Longrightarrow> wr32 a v m x = m x"
  using shift_out [of x a 2 2] by (simp add: wr32_def wr16_other)

lemma wr64_other: "\<not> x - a < 8 \<Longrightarrow> wr64 a v m x = m x"
  using shift_out [of x a 4 4] by (simp add: wr64_def wr32_other)

text \<open>Reads depend on the bytes of their range only.\<close>

lemma rd16_cong:
  assumes "\<And>x. x - a < 2 \<Longrightarrow> m x = m' x"
  shows "rd16 m a = rd16 m' a"
proof -
  have "m (a + k) = m' (a + k)" if "k \<in> {0, 1}" for k
    by (rule assms) (use that in auto)
  from this [of 0] this [of 1] show ?thesis by (simp add: rd16_def)
qed

lemma rd32_cong:
  assumes "\<And>x. x - a < 4 \<Longrightarrow> m x = m' x"
  shows "rd32 m a = rd32 m' a"
proof -
  have o: "m (a + k) = m' (a + k)" if "k \<in> {0, 1, 2, 3}" for k
    by (rule assms) (use that in auto)
  from o [of 0] o [of 1] o [of 2] o [of 3] show ?thesis
    by (simp add: rd32_def rd16_def add.assoc)
qed

lemma rd64_cong:
  assumes "\<And>x. x - a < 8 \<Longrightarrow> m x = m' x"
  shows "rd64 m a = rd64 m' a"
proof -
  have o: "m (a + k) = m' (a + k)" if "k \<in> {0, 1, 2, 3, 4, 5, 6, 7}" for k
    by (rule assms) (use that in auto)
  from o [of 0] o [of 1] o [of 2] o [of 3] o [of 4] o [of 5] o [of 6] o [of 7] show ?thesis
    by (simp add: rd64_def rd32_def rd16_def add.assoc)
qed

text \<open>Reading back what was written.\<close>

lemma rd16_wr16 [bmem_simps]: "rd16 (wr16 a v m) a = v"
  by (rule bit_eqI) (auto simp: rd16_def wr16_def bit_simps)

lemma rd32_wr32 [bmem_simps]: "rd32 (wr32 a v m) a = v"
proof -
  have "rd16 (wr32 a v m) a = rd16 (wr16 a (ucast v) m) a"
    by (rule rd16_cong) (auto simp: wr32_def wr16_def)
  moreover have "rd16 (wr32 a v m) (a + 2) = ucast (drop_bit 16 v)"
    by (simp add: wr32_def rd16_wr16)
  ultimately show ?thesis
    by (intro bit_eqI) (auto simp: rd32_def rd16_wr16 bit_simps)
qed

lemma rd64_wr64 [bmem_simps]: "rd64 (wr64 a v m) a = v"
proof -
  have "x \<noteq> a + 4 + k" if "x - a < 4" "k \<in> {0, 1, 2, 3}" for x k
  proof
    assume "x = a + 4 + k"
    then have "x - a = 4 + k" by simp
    with that show False by auto
  qed
  from this [of _ 0] this [of _ 1] this [of _ 2] this [of _ 3]
  have "x - a < 4 \<Longrightarrow> wr64 a v m x = wr32 a (ucast v) m x" for x
    by (simp add: wr64_def wr32_def wr16_def add.assoc)
  then have "rd32 (wr64 a v m) a = rd32 (wr32 a (ucast v) m) a"
    by (rule rd32_cong)
  moreover have "rd32 (wr64 a v m) (a + 4) = ucast (drop_bit 32 v)"
    by (simp add: wr64_def rd32_wr32)
  ultimately show ?thesis
    by (intro bit_eqI) (auto simp: rd64_def rd32_wr32 bit_simps)
qed

text \<open>A read that does not overlap a write.\<close>

lemma range_apart:
  fixes x a b :: u64
  assumes "x - a < n" and "n \<le> b - a" and "k \<le> a - b"
  shows "\<not> x - b < k"
  using assms by uint_arith

lemma rd64_wr64_other:
  assumes "8 \<le> b - a" and "8 \<le> a - b"
  shows "rd64 (wr64 b v m) a = rd64 m a"
  by (rule rd64_cong) (rule wr64_other, rule range_apart [OF _ assms])

section \<open>Operations\<close>

text \<open>The counted loops, from \<open>i\<close> up to \<open>n\<close>.\<close>

lemma unat_Suc_less: "i < n \<Longrightarrow> unat (i + 1) = Suc (unat (i :: u64))"
proof -
  assume "i < n"
  then have "unat i < unat n" by (simp add: word_less_nat_alt)
  with unat_bound64 [of n] show ?thesis by (simp add: unat_word_ariths)
qed

lemma loop_measure: "i < n \<Longrightarrow> unat n - unat (i + 1) < unat n - unat (i :: u64)"
  using unat_Suc_less [of i n] by (simp add: word_less_nat_alt)

function memset_loop :: "u64 \<Rightarrow> u8 \<Rightarrow> u64 \<Rightarrow> u64 \<Rightarrow> bmem \<Rightarrow> bmem" where
  "memset_loop s c n i m =
     (if i < n then memset_loop s c n (i + 1) (m(s + i := c)) else m)"
  by auto
termination
  by (relation "measure (\<lambda>(s, c, n, i, m). unat n - unat i)") (auto intro: loop_measure)

definition memset :: "u64 \<Rightarrow> u8 \<Rightarrow> u64 \<Rightarrow> bmem \<Rightarrow> u64 \<times> bmem" where
  "memset dst c n m = (if dst = NULL then (NULL, m) else (dst, memset_loop dst c n 0 m))"

function memcpy_loop :: "u64 \<Rightarrow> u64 \<Rightarrow> u64 \<Rightarrow> u64 \<Rightarrow> bmem \<Rightarrow> bmem" where
  "memcpy_loop d s n i m =
     (if i < n then memcpy_loop d s n (i + 1) (m(d + i := m (s + i))) else m)"
  by auto
termination
  by (relation "measure (\<lambda>(d, s, n, i, m). unat n - unat i)") (auto intro: loop_measure)

definition memcpy :: "u64 \<Rightarrow> u64 \<Rightarrow> u64 \<Rightarrow> bmem \<Rightarrow> u64 \<times> bmem" where
  "memcpy dest src n m =
     (if dest = NULL then (NULL, m)
      else if src = NULL then (dest, m)
      else (dest, memcpy_loop dest src n 0 m))"

partial_function (option) strlen_loop :: "bmem \<Rightarrow> u64 \<Rightarrow> u64 \<Rightarrow> u64 option" where
  "strlen_loop m s len = (if m (s + len) \<noteq> 0 then strlen_loop m s (len + 1) else Some len)"

definition strlen :: "bmem \<Rightarrow> u64 \<Rightarrow> u64 option" where
  "strlen m s = (if s = NULL then Some 0 else strlen_loop m s 0)"

function strncpy_loop :: "u64 \<Rightarrow> u64 \<Rightarrow> u64 \<Rightarrow> u64 \<Rightarrow> bmem \<Rightarrow> u64 \<times> bmem" where
  "strncpy_loop d s n i m =
     (if i < n \<and> m (s + i) \<noteq> 0 then strncpy_loop d s n (i + 1) (m(d + i := m (s + i))) else (i, m))"
  by auto
termination
  by (relation "measure (\<lambda>(d, s, n, i, m). unat n - unat i)") (auto intro: loop_measure)

definition strncpy :: "u64 \<Rightarrow> u64 \<Rightarrow> u64 \<Rightarrow> bmem \<Rightarrow> u64 \<times> bmem" where
  "strncpy dest src n m =
     (if dest = NULL then (NULL, m)
      else if src = NULL then (dest, m)
      else (let (i, m) = strncpy_loop dest src n 0 m in (dest, memset_loop dest 0 n i m)))"

partial_function (option) strcmp_loop :: "bmem \<Rightarrow> u64 \<Rightarrow> u64 \<Rightarrow> int option" where
  "strcmp_loop m s1 s2 =
     (if m s1 \<noteq> 0 \<and> m s1 = m s2 then strcmp_loop m (s1 + 1) (s2 + 1)
      else Some (uint (m s1) - uint (m s2)))"

definition strcmp :: "bmem \<Rightarrow> u64 \<Rightarrow> u64 \<Rightarrow> int option" where
  "strcmp m s1 s2 = (if s1 = NULL \<or> s2 = NULL then Some (-1) else strcmp_loop m s1 s2)"

function strncmp :: "bmem \<Rightarrow> u64 \<Rightarrow> u64 \<Rightarrow> u64 \<Rightarrow> int" where
  "strncmp m s1 s2 n =
     (if n \<noteq> 0 \<and> m s1 \<noteq> 0 \<and> m s1 = m s2 then strncmp m (s1 + 1) (s2 + 1) (n - 1)
      else if n = 0 then 0
      else uint (m s1) - uint (m s2))"
  by auto
termination
  by (relation "measure (\<lambda>(m, s1, s2, n). unat n)") (auto simp: unat_minus_one unat_gt_0 intro: diff_less)

text \<open>\<^verbatim>\<open>strchr\<close> compares a signed character with an \<^verbatim>\<open>int\<close>.\<close>

partial_function (option) strchr_loop :: "bmem \<Rightarrow> u64 \<Rightarrow> int \<Rightarrow> u64 option" where
  "strchr_loop m s c =
     (if m s \<noteq> 0 then (if sint (m s) = c then Some s else strchr_loop m (s + 1) c) else Some NULL)"

definition strchr :: "bmem \<Rightarrow> u64 \<Rightarrow> int \<Rightarrow> u64 option" where
  "strchr m s c = (if s = NULL then Some NULL else strchr_loop m s c)"

text \<open>The \<^verbatim>\<open>int\<close> indices of \<^verbatim>\<open>strrev\<close>; \<^verbatim>\<open>strlen\<close> is truncated to \<^verbatim>\<open>int\<close> by the assignment.\<close>

definition at :: "u64 \<Rightarrow> int \<Rightarrow> u64" where
  "at s i = s + word_of_int i"

function strrev_loop :: "u64 \<Rightarrow> int \<Rightarrow> int \<Rightarrow> bmem \<Rightarrow> bmem" where
  "strrev_loop str i j m =
     (if i < j then
        let t = m (at str i);
            m = m(at str i := m (at str j));
            m = m(at str j := t)
        in strrev_loop str (i + 1) (j - 1) m
      else m)"
  by auto
termination
  by (relation "measure (\<lambda>(str, i, j, m). nat (j - i))") auto

definition strrev :: "u64 \<Rightarrow> bmem \<Rightarrow> bmem option" where
  "strrev str m =
     (case strlen m str of None \<Rightarrow> None
      | Some len \<Rightarrow> Some (strrev_loop str 0 (sint (ucast len :: u32) - 1) m))"

declare memset_loop.simps [simp del] memcpy_loop.simps [simp del] strncpy_loop.simps [simp del]
  strncmp.simps [simp del] strrev_loop.simps [simp del]

section \<open>What the loops do\<close>

lemma above_Suc: "i < n \<Longrightarrow> (i + 1 \<le> w \<longleftrightarrow> i < (w :: u64))"
  using unat_Suc_less [of i n] by (simp add: word_le_nat_alt word_less_nat_alt Suc_le_eq)

lemma add_cell_iff: "x = s + i \<longleftrightarrow> x - s = (i :: u64)"
  by (auto simp: algebra_simps)

lemma memset_loop_eq:
  "memset_loop s c n i m = (\<lambda>x. if i \<le> x - s \<and> x - s < n then c else m x)"
proof (induction s c n i m rule: memset_loop.induct)
  case (1 s c n i m)
  show ?case
  proof (cases "i < n")
    case True
    have "memset_loop s c n i m =
        (\<lambda>x. if i + 1 \<le> x - s \<and> x - s < n then c else (m(s + i := c)) x)"
      by (subst memset_loop.simps) (simp only: True if_True 1(1) [OF True])
    then show ?thesis
      using True above_Suc [OF True] add_cell_iff by (auto simp: fun_eq_iff)
  next
    case False
    then have "\<not> (i \<le> w \<and> w < n)" for w by auto
    with False show ?thesis by (subst memset_loop.simps) (simp only: if_False)
  qed
qed

lemma memset_eq: "dst \<noteq> NULL \<Longrightarrow> memset dst c n m = (dst, \<lambda>x. if x - dst < n then c else m x)"
  by (simp add: memset_def memset_loop_eq)

text \<open>A forward copy is exact when the source does not start inside the part already written.\<close>

lemma memcpy_loop_eq:
  "unat (s - d) + unat n \<le> 2 ^ 64 \<Longrightarrow>
   memcpy_loop d s n i m = (\<lambda>x. if i \<le> x - d \<and> x - d < n then m (s + (x - d)) else m x)"
proof (induction d s n i m rule: memcpy_loop.induct)
  case (1 d s n i m)
  show ?case
  proof (cases "i < n")
    case True
    have ne: "s + w \<noteq> d + i" if "i < w" "w < n" for w
    proof
      assume "s + w = d + i"
      then have "(s - d) + w = i" by (simp add: algebra_simps)
      moreover have "unat ((s - d) + w) = unat (s - d) + unat w"
        using 1(2) that by (simp add: unat_word_ariths word_less_nat_alt)
      ultimately show False using that by (simp add: word_less_nat_alt)
    qed
    define m' where "m' = m(d + i := m (s + i))"
    have IH: "memcpy_loop d s n i m =
        (\<lambda>x. if i + 1 \<le> x - d \<and> x - d < n then m' (s + (x - d)) else m' x)"
      unfolding m'_def by (subst memcpy_loop.simps) (simp only: True if_True 1(1) [OF True 1(2)])
    have src: "m' (s + w) = m (s + w)" if "i < w" "w < n" for w
      using ne [OF that] by (simp add: m'_def)
    have dst: "m' x = (if x - d = i then m (s + (x - d)) else m x)" for x
      using add_cell_iff [of x d i] by (simp add: m'_def)
    show ?thesis
    proof
      fix x
      consider "x - d = i" | "i < x - d" | "x - d < i" by fastforce
      then show "memcpy_loop d s n i m x = (if i \<le> x - d \<and> x - d < n then m (s + (x - d)) else m x)"
      proof cases
        case 1
        with True show ?thesis by (simp only: IH above_Suc [OF True] dst) simp
      next
        case 2
        then have "x - d \<noteq> i" "i \<le> x - d" by auto
        show ?thesis
        proof (cases "x - d < n")
          case True
          then have "memcpy_loop d s n i m x = m' (s + (x - d))"
            using 2 by (simp only: IH above_Suc [OF \<open>i < n\<close>] simp_thms if_True)
          with src [OF 2 True] True \<open>i \<le> x - d\<close> show ?thesis by simp
        next
          case False
          with \<open>x - d \<noteq> i\<close> show ?thesis by (simp only: IH dst simp_thms if_False)
        qed
      next
        case 3
        then have "x - d \<noteq> i" "\<not> i \<le> x - d" "\<not> i < x - d" by auto
        then show ?thesis by (simp only: IH above_Suc [OF True] dst simp_thms if_False)
      qed
    qed
  next
    case False
    then have "\<not> (i \<le> w \<and> w < n)" for w by auto
    with False show ?thesis by (subst memcpy_loop.simps) (simp only: if_False)
  qed
qed

section \<open>Strings\<close>

text \<open>\<open>cstr m s xs\<close>: the bytes \<open>xs\<close> and a terminating 0 are at \<open>s\<close>.\<close>

fun cstr :: "bmem \<Rightarrow> u64 \<Rightarrow> u8 list \<Rightarrow> bool" where
  "cstr m s [] \<longleftrightarrow> m s = 0"
| "cstr m s (x # xs) \<longleftrightarrow> m s = x \<and> x \<noteq> 0 \<and> cstr m (s + 1) xs"

lemma cstr_iff:
  "cstr m s xs \<longleftrightarrow> (\<forall>i < length xs. m (s + of_nat i) = xs ! i) \<and> 0 \<notin> set xs \<and> m (s + of_nat (length xs)) = 0"
proof (induction xs arbitrary: s)
  case (Cons x xs)
  have "(\<forall>i < length (x # xs). m (s + of_nat i) = (x # xs) ! i) \<longleftrightarrow>
      m s = x \<and> (\<forall>i < length xs. m (s + 1 + of_nat i) = xs ! i)"
    by (auto simp: less_Suc_eq_0_disj add.assoc)
  with Cons show ?case by (auto simp: add.assoc)
qed simp

lemma strlen_loop_cstr:
  "cstr m (s + len) xs \<Longrightarrow> strlen_loop m s len = Some (len + of_nat (length xs))"
proof (induction xs arbitrary: len)
  case Nil
  then show ?case by (subst strlen_loop.simps) simp
next
  case (Cons x xs)
  then show ?case by (subst strlen_loop.simps) (simp add: add.assoc)
qed

lemma strlen_cstr: "cstr m s xs \<Longrightarrow> s \<noteq> NULL \<Longrightarrow> strlen m s = Some (of_nat (length xs))"
  using strlen_loop_cstr [of m s 0 xs] by (simp add: strlen_def)

text \<open>The comparison of two terminated byte lists.\<close>

fun byte_cmp :: "u8 list \<Rightarrow> u8 list \<Rightarrow> int" where
  "byte_cmp [] [] = 0"
| "byte_cmp [] (y # ys) = - uint y"
| "byte_cmp (x # xs) [] = uint x"
| "byte_cmp (x # xs) (y # ys) = (if x = y then byte_cmp xs ys else uint x - uint y)"

lemma strcmp_loop_cstr:
  "cstr m s xs \<Longrightarrow> cstr m t ys \<Longrightarrow> strcmp_loop m s t = Some (byte_cmp xs ys)"
proof (induction xs ys arbitrary: s t rule: byte_cmp.induct)
  case (4 x xs y ys)
  then show ?case by (subst strcmp_loop.simps) auto
qed (subst strcmp_loop.simps, auto)+

lemma word_uint_pos: "x \<noteq> 0 \<Longrightarrow> 0 < uint (x :: u8)"
  by (simp add: word_neq_0_conv word_less_def)

lemma byte_cmp_order:
  "0 \<notin> set xs \<Longrightarrow> 0 \<notin> set ys \<Longrightarrow>
   (byte_cmp xs ys = 0 \<longleftrightarrow> xs = ys) \<and> (byte_cmp xs ys < 0 \<longleftrightarrow> xs < ys)"
proof (induction xs ys rule: byte_cmp.induct)
  case (2 y ys)
  then have "0 < uint y" using word_uint_pos [of y] by auto
  then show ?case by simp
next
  case (3 x xs)
  then have "0 < uint x" using word_uint_pos [of x] by auto
  then show ?case by simp
next
  case (4 x xs y ys)
  then show ?case by (auto simp: word_less_def word_uint_eq_iff)
qed simp

lemma strcmp_null: "strcmp m s t = Some c \<Longrightarrow> s = NULL \<Longrightarrow> c = -1"
  by (simp add: strcmp_def)

lemma at_eq_iff: "0 \<le> i \<Longrightarrow> i < 2 ^ 64 \<Longrightarrow> x = at str i \<longleftrightarrow> uint (x - str) = i"
proof -
  assume i: "0 \<le> i" "i < 2 ^ 64"
  have "x = at str i \<longleftrightarrow> x - str = word_of_int i"
    unfolding at_def by (rule add_cell_iff)
  also have "\<dots> \<longleftrightarrow> uint (x - str) = uint (word_of_int i :: u64)" by (simp add: word_uint_eq_iff)
  also have "uint (word_of_int i :: u64) = i"
    using i by (simp add: uint_word_of_int)
  finally show ?thesis .
qed

lemma strrev_loop_eq:
  "0 \<le> i \<Longrightarrow> j < 2 ^ 63 \<Longrightarrow>
   strrev_loop str i j m =
     (\<lambda>x. if i \<le> uint (x - str) \<and> uint (x - str) \<le> j then m (at str (i + j - uint (x - str))) else m x)"
proof (induction str i j m rule: strrev_loop.induct)
  case (1 str i j m)
  show ?case
  proof (cases "i < j")
    case True
    define m' where "m' = m(at str i := m (at str j), at str j := m (at str i))"
    have b: "0 \<le> i" "i < 2 ^ 64" "0 \<le> j" "j < 2 ^ 64" using 1(2,3) True by simp_all
    have m': "m' x = (if uint (x - str) = j then m (at str i) else if uint (x - str) = i then m (at str j) else m x)"
      for x using at_eq_iff [OF b(1,2), of x str] at_eq_iff [OF b(3,4), of x str] by (simp add: m'_def)
    have at: "uint (at str k - str) = k" if "0 \<le> k" "k < 2 ^ 64" for k
      using at_eq_iff [OF that, of "at str k" str] by simp
    have IH: "strrev_loop str (i + 1) (j - 1) m' =
      (\<lambda>x. if i + 1 \<le> uint (x - str) \<and> uint (x - str) \<le> j - 1
           then m' (at str (i + j - uint (x - str))) else m' x)"
    proof -
      have "0 \<le> i + 1" "j - 1 < 2 ^ 63" using 1(2,3) by simp_all
      note ih = 1(1) [OF True refl refl refl this]
      have "i + 1 + (j - 1) = i + j" by simp
      with ih show ?thesis unfolding m'_def by (simp only:)
    qed
    have "strrev_loop str (i + 1) (j - 1) m' x =
      (if i \<le> uint (x - str) \<and> uint (x - str) \<le> j then m (at str (i + j - uint (x - str))) else m x)" for x
    proof -
      let ?k = "uint (x - str)"
      consider "?k = i" | "?k = j" | "i < ?k" "?k < j" | "?k < i \<or> j < ?k" by linarith
      then show ?thesis
      proof cases
        case 1
        with True m' [of x] show ?thesis by (simp add: IH)
      next
        case 2
        with True m' [of x] show ?thesis by (simp add: IH)
      next
        case 3
        then have "0 \<le> i + j - ?k" "i + j - ?k < 2 ^ 64" using b by linarith+
        with at 3 m' [of "at str (i + j - ?k)"] show ?thesis by (simp add: IH)
      next
        case 4
        with True m' [of x] show ?thesis by (auto simp: IH)
      qed
    qed
    then show ?thesis using True by (subst strrev_loop.simps) (simp add: Let_def fun_eq_iff m'_def)
  next
    case False
    have at: "at str (i + j - uint (x - str)) = x" if "i \<le> uint (x - str)" "uint (x - str) \<le> j" for x
    proof -
      have "i + j - uint (x - str) = uint (x - str)" using that False by linarith
      then show ?thesis by (simp add: at_def)
    qed
    with False show ?thesis by (subst strrev_loop.simps) (auto simp: fun_eq_iff)
  qed
qed

lemma at_off: "0 \<le> k \<Longrightarrow> k < 2 ^ 64 \<Longrightarrow> uint (at str k - str) = k"
  using at_eq_iff [of k "at str k" str] by simp

lemma at_nat: "at str (int i) = str + of_nat i"
  by (simp add: at_def)


lemma strrev_cstr:
  assumes str: "cstr m s xs" "s \<noteq> NULL" and len: "length xs < 2 ^ 31"
  shows "\<exists>m'. strrev s m = Some m' \<and> cstr m' s (rev xs) \<and>
           (\<forall>x. \<not> x - s < of_nat (length xs) \<longrightarrow> m' x = m x)"
proof -
  let ?n = "length xs"
  define m' where "m' = strrev_loop s 0 (int ?n - 1) m"
  have eq: "m' x = (if uint (x - s) \<le> int ?n - 1 then m (at s (int ?n - 1 - uint (x - s))) else m x)" for x
    unfolding m'_def using len by (subst strrev_loop_eq) auto
  have u: "uint (s + of_nat i - s) = int i" if "i < 2 ^ 64" for i
    using at_off [of "int i" s] that by (simp add: at_nat)
  have "m' (s + of_nat i) = rev xs ! i" if i: "i < ?n" for i
  proof -
    have "m' (s + of_nat i) = m (at s (int (?n - 1 - i)))"
      using eq u [of i] i len by (simp add: of_nat_diff diff_diff_eq)
    then have "m' (s + of_nat i) = m (s + of_nat (?n - 1 - i))" by (simp only: at_nat)
    moreover have less: "?n - 1 - i < ?n" using i by linarith
    have "m (s + of_nat (?n - 1 - i)) = xs ! (?n - 1 - i)"
      using str(1) less unfolding cstr_iff by blast
    ultimately show ?thesis using i by (simp add: rev_nth)
  qed
  moreover have "m' (s + of_nat ?n) = 0"
    using eq u [of ?n] len str(1) by (simp add: cstr_iff)
  ultimately have "cstr m' s (rev xs)" using str(1) by (simp add: cstr_iff)
  moreover have "m' x = m x" if "\<not> x - s < of_nat ?n" for x
  proof -
    have "uint (of_nat ?n :: u64) = int ?n" using u [of ?n] len by simp
    with that have "\<not> uint (x - s) \<le> int ?n - 1" by (simp add: word_less_def)
    then show ?thesis by (simp add: eq)
  qed
  moreover have "strrev s m = Some m'"
    using strlen_cstr [OF str] int_of_small [OF len] by (simp add: strrev_def m'_def)
  ultimately show ?thesis by blast
qed

section \<open>Properties\<close>

text \<open>
  \<^verbatim>\<open>strcmp\<close> on two terminated strings ends, returns 0 exactly when they are equal, and
  returns a negative number exactly when the first one comes first in the lexicographic order
  of unsigned bytes.
\<close>

theorem strcmp_orders_strings:
  assumes "cstr m s xs" and "cstr m t ys" and "s \<noteq> NULL" and "t \<noteq> NULL"
  shows "\<exists>c. strcmp m s t = Some c \<and> (c = 0 \<longleftrightarrow> xs = ys) \<and> (c < 0 \<longleftrightarrow> xs < ys)"
proof -
  have "0 \<notin> set xs" "0 \<notin> set ys" using assms by (auto simp: cstr_iff)
  with byte_cmp_order strcmp_loop_cstr [OF assms(1,2)] assms(3,4) show ?thesis
    by (simp add: strcmp_def)
qed

definition string_example :: bmem where
  "string_example = (\<lambda>a. if a = 16 then 97 else if a = 17 then 98 else if a = 32 then 97
     else if a = 33 then 200 else 0)"

theorem strcmp_orders_strings_witness:
  "\<exists>c. strcmp string_example 16 32 = Some c \<and> c < 0"
proof -
  have "cstr string_example 16 [97, 98]" "cstr string_example 32 [97, 200]"
    by (simp_all add: string_example_def)
  from strcmp_orders_strings [OF this] show ?thesis by auto
qed

text \<open>
  \<^verbatim>\<open>memcpy\<close> copies \<open>n\<close> bytes exactly, and changes nothing else, whenever the
  destination does not start inside the source range, in particular for overlapping ranges
  copied downwards, which is how the screen is scrolled.
\<close>

theorem memcpy_copies:
  assumes "dest \<noteq> NULL" and "src \<noteq> NULL" and "unat (src - dest) + unat n \<le> 2 ^ 64"
  shows "memcpy dest src n m = (dest, \<lambda>x. if x - dest < n then m (src + (x - dest)) else m x)"
  using assms by (simp add: memcpy_def memcpy_loop_eq)

theorem memcpy_copies_witness:
  "snd (memcpy 15 16 2 string_example) 16 = 98 \<and> snd (memcpy 15 16 2 string_example) 17 = 98"
  using memcpy_copies [of 15 16 2 string_example] by (simp add: string_example_def)

end
