(* ===== verification/Memdef.thy ===== *)
theory Memdef
  imports Kernel_Prelude
begin

text \<open>
  The address space constants of \<^verbatim>\<open>include/memdef.h\<close> and \<^verbatim>\<open>include/page_table.h\<close>, page alignment,
  and the memory map structure of \<^verbatim>\<open>include/multiboot.h\<close>.
\<close>

section \<open>Constants\<close>

definition PAGE_SIZE :: u64 where "PAGE_SIZE = 4096"
definition STACK_SIZE :: u64 where "STACK_SIZE = PAGE_SIZE * 2"
definition KERNEL_TEXT_START :: u64 where "KERNEL_TEXT_START = 0xffffffff80000000"
definition KERNEL_STACKS_START :: u64 where "KERNEL_STACKS_START = 0xffffff8000000000"
definition KERNEL_HEAP_START :: u64 where "KERNEL_HEAP_START = 0xffff808000000000"
definition KERNEL_MMAP_START :: u64 where "KERNEL_MMAP_START = 0xffff800000000000"
definition USER_STACK_START :: u64 where "USER_STACK_START = 0x40000000"
definition GB :: u64 where "GB = 1073741824"

definition GET_VIRT_ADDR :: "u64 \<Rightarrow> u64" where
  "GET_VIRT_ADDR phys = phys + KERNEL_MMAP_START"

definition GET_PHYS_ADDR :: "u64 \<Rightarrow> u64" where
  "GET_PHYS_ADDR virt = virt - KERNEL_MMAP_START"

lemma GET_PHYS_VIRT [simp]: "GET_PHYS_ADDR (GET_VIRT_ADDR a) = a"
  by (simp add: GET_PHYS_ADDR_def GET_VIRT_ADDR_def)

lemma GET_VIRT_PHYS [simp]: "GET_VIRT_ADDR (GET_PHYS_ADDR a) = a"
  by (simp add: GET_PHYS_ADDR_def GET_VIRT_ADDR_def)

lemma GET_VIRT_inj [simp]: "GET_VIRT_ADDR a = GET_VIRT_ADDR b \<longleftrightarrow> a = b"
  by (simp add: GET_VIRT_ADDR_def)

section \<open>Page alignment\<close>

definition align_page :: "u64 \<Rightarrow> u64" where
  "align_page addr = (addr + PAGE_SIZE - 1) AND NOT (PAGE_SIZE - 1)"

definition page_base :: "u64 \<Rightarrow> u64" where
  "page_base addr = addr AND NOT (PAGE_SIZE - 1)"

definition page_aligned :: "u64 \<Rightarrow> bool" where
  "page_aligned addr \<longleftrightarrow> addr AND (PAGE_SIZE - 1) = 0"

lemma page_mask: "PAGE_SIZE - 1 = mask 12"
  by (simp add: PAGE_SIZE_def mask_eq_exp_minus_1)

lemma and_not_mask: "w AND NOT (mask n) = push_bit n (drop_bit n (w :: u64))"
  by (rule bit_eqI) (auto simp: bit_simps)

lemma take_bit_unat [simp]: "take_bit 64 (unat (w :: u64)) = unat w"
  using unat_bound64 [of w] by (simp add: take_bit_nat_eq_self_iff)

lemma unat_page_base: "unat (page_base w) = unat w div 4096 * 4096"
proof -
  have "unat (page_base w) = take_bit 64 (push_bit 12 (drop_bit 12 (unat w)))"
    by (simp add: page_base_def page_mask and_not_mask unsigned_push_bit_eq unsigned_drop_bit_eq)
  also have "\<dots> = unat w div 4096 * 4096 mod 2 ^ 64"
    by (simp only: take_bit_eq_mod push_bit_eq_mult drop_bit_eq_div) simp
  also have "\<dots> = unat w div 4096 * 4096"
    using unat_bound64 [of w] div_times_less_eq_dividend [of "unat w" 4096]
    by (intro mod_less) (simp)
  finally show ?thesis .
qed

lemma page_aligned_unat: "page_aligned w \<longleftrightarrow> unat w mod 4096 = 0"
proof -
  have "unat (w AND mask 12) = take_bit 12 (unat w)"
    by (simp only: take_bit_eq_mask [symmetric] unsigned_take_bit_eq)
  also have "\<dots> = unat w mod 4096" by (simp add: take_bit_eq_mod)
  finally show ?thesis
    unfolding page_aligned_def page_mask by (simp only: flip: unat_eq_0)
qed

lemma page_base_le: "page_base w \<le> w"
  by (simp add: word_le_nat_alt unat_page_base)

lemma page_base_aligned [simp]: "page_aligned (page_base w)"
  by (simp add: page_aligned_unat unat_page_base)

lemma page_base_id: "page_aligned w \<Longrightarrow> page_base w = w"
  by (simp add: page_aligned_unat unat_page_base word_unat_eq_iff mod_0_imp_dvd)

lemma align_page_base: "align_page w = page_base (w + 4095)"
  by (simp add: align_page_def page_base_def PAGE_SIZE_def add.commute)

lemma align_page_aligned [simp]: "page_aligned (align_page w)"
  by (simp only: align_page_base page_base_aligned)

lemma align_page_ge:
  assumes "unat w + 4096 \<le> 2 ^ 64"
  shows "unat w \<le> unat (align_page w)" "unat (align_page w) < unat w + 4096"
proof -
  have "unat (w + 4095) = unat w + 4095"
    using assms by (simp add: unat_word_ariths)
  then have e: "unat (align_page w) = (unat w + 4095) div 4096 * 4096"
    by (simp only: align_page_base unat_page_base)
  show "unat w \<le> unat (align_page w)" unfolding e by linarith
  show "unat (align_page w) < unat w + 4096" unfolding e by linarith
qed

section \<open>The physical memory map\<close>

definition MAX_REGIONS :: nat where "MAX_REGIONS = 64"

record mem_region =
  rg_start :: u64
  rg_end :: u64

record memory_map =
  mm_kernel :: mem_region
  mm_multiboot :: mem_region
  mm_regions :: "mem_region list"
  mm_num_regions :: u8
  mm_elf_tag :: ptr

text \<open>Reading \<^verbatim>\<open>physical_regions[i]\<close>: the array has \<open>MAX_REGIONS\<close> entries.\<close>

definition region_at :: "memory_map \<Rightarrow> u8 \<Rightarrow> mem_region res" where
  "region_at m i =
     (if unat i < length (mm_regions m) then Inr (mm_regions m ! unat i) else Inl BadAccess)"

definition range_contains_addr :: "u64 \<Rightarrow> u64 \<Rightarrow> u64 \<Rightarrow> bool" where
  "range_contains_addr addr start end = (addr - start < end - start)"

definition in_region :: "u64 \<Rightarrow> mem_region \<Rightarrow> bool" where
  "in_region addr r = range_contains_addr addr (rg_start r) (rg_end r)"

lemma in_region_iff:
  assumes "rg_start r \<le> rg_end r"
  shows "in_region a r \<longleftrightarrow> rg_start r \<le> a \<and> a < rg_end r"
  using assms unfolding in_region_def range_contains_addr_def by uint_arith

end
