(* ===== verification/VGA.thy ===== *)
theory VGA
  imports CString Memdef
begin

text \<open>
  The text screen (\<^verbatim>\<open>dev/vga.c\<close>): 25 lines of 80 cells in byte addressed memory, a cursor and
  the current colours. The operations are refined to a terminal over a list of cells.
\<close>

section \<open>State and operations\<close>

definition VGA_ADDR :: u64 where "VGA_ADDR = 0xB8000"
definition VGA_WIDTH :: u16 where "VGA_WIDTH = 80"
definition VGA_HEIGHT :: u16 where "VGA_HEIGHT = 25"
definition TAB_WIDTH :: u16 where "TAB_WIDTH = 4"

text \<open>\<open>vg_if\<close> is the interrupt flag of the processor.\<close>

record vga_state =
  vg_mem :: bmem
  vg_vga :: u64
  vg_cursor :: u16
  vg_fg :: u8
  vg_bg :: u8
  vg_if :: bool

definition check_int :: "'a vga_state_scheme \<Rightarrow> bool" where
  "check_int s = vg_if s"

definition irq_off :: "bool \<Rightarrow> 'a vga_state_scheme \<Rightarrow> 'a vga_state_scheme" where
  "irq_off int_en s = (if int_en then s\<lparr>vg_if := False\<rparr> else s)"

definition irq_on :: "bool \<Rightarrow> 'a vga_state_scheme \<Rightarrow> 'a vga_state_scheme" where
  "irq_on int_en s = (if int_en then s\<lparr>vg_if := True\<rparr> else s)"

definition LINE :: "u16 \<Rightarrow> u16" where
  "LINE x = x - (x mod VGA_WIDTH)"

text \<open>The blank cell in the current colours, \<^verbatim>\<open>(bg_color << 12) | (fg_color << 8)\<close> cut to 16 bits.\<close>

definition color :: "'a vga_state_scheme \<Rightarrow> u16" where
  "color s = push_bit 12 (ucast (vg_bg s)) OR push_bit 8 (ucast (vg_fg s))"

definition vga_cell :: "'a vga_state_scheme \<Rightarrow> u16 \<Rightarrow> u64" where
  "vga_cell s i = vg_vga s + 2 * ucast i"

definition put_cell :: "u16 \<Rightarrow> u16 \<Rightarrow> 'a vga_state_scheme \<Rightarrow> 'a vga_state_scheme" where
  "put_cell i v s = s\<lparr>vg_mem := wr16 (vga_cell s i) v (vg_mem s)\<rparr>"

definition VGA_remap :: "'a vga_state_scheme \<Rightarrow> 'a vga_state_scheme" where
  "VGA_remap s = s\<lparr>vg_vga := VGA_ADDR + KERNEL_MMAP_START\<rparr>"

definition VGA_clear :: "'a vga_state_scheme \<Rightarrow> 'a vga_state_scheme" where
  "VGA_clear s =
     (let int_en = check_int s;
          s = irq_off int_en s;
          s = s\<lparr>vg_mem := snd (memset (vg_vga s) 0 (ucast (VGA_WIDTH * VGA_HEIGHT * 2)) (vg_mem s))\<rparr>;
          s = s\<lparr>vg_cursor := 0\<rparr>
      in irq_on int_en s)"

fun paint_loop :: "nat \<Rightarrow> u16 \<Rightarrow> u16 \<Rightarrow> 'a vga_state_scheme \<Rightarrow> 'a vga_state_scheme" where
  "paint_loop 0 i c s = s"
| "paint_loop (Suc n) i c s = paint_loop n (i + 1) c (put_cell i c s)"

definition VGA_paint :: "'a vga_state_scheme \<Rightarrow> 'a vga_state_scheme" where
  "VGA_paint s =
     (let int_en = check_int s;
          s = irq_off int_en s;
          s = paint_loop (unat (VGA_WIDTH * VGA_HEIGHT)) 0 (color s) s;
          s = s\<lparr>vg_cursor := 0\<rparr>
      in irq_on int_en s)"

definition scroll :: "'a vga_state_scheme \<Rightarrow> 'a vga_state_scheme" where
  "scroll s =
     (let m = snd (memcpy (vg_vga s) (vga_cell s VGA_WIDTH) (ucast ((VGA_HEIGHT - 1) * VGA_WIDTH * 2)) (vg_mem s));
          m = snd (memset (vga_cell s ((VGA_HEIGHT - 1) * VGA_WIDTH)) 0 (ucast (VGA_WIDTH * 2)) m)
      in s\<lparr>vg_mem := m, vg_cursor := (VGA_HEIGHT - 1) * VGA_WIDTH\<rparr>)"

text \<open>The switch on the character; a character is sign extended before it is joined to the colours.\<close>

definition display_switch :: "u8 \<Rightarrow> 'a vga_state_scheme \<Rightarrow> 'a vga_state_scheme" where
  "display_switch c s =
     (if c = 10 then s\<lparr>vg_cursor := LINE (vg_cursor s) + VGA_WIDTH\<rparr>
      else if c = 8 then
        (if vg_cursor s = 0 then s
         else let s = s\<lparr>vg_cursor := vg_cursor s - 1\<rparr>
              in put_cell (vg_cursor s) (color s) s)
      else if c = 9 then s\<lparr>vg_cursor := vg_cursor s + TAB_WIDTH\<rparr>
      else
        let s' = put_cell (vg_cursor s) (color s OR scast c) s
        in s'\<lparr>vg_cursor := vg_cursor s + 1\<rparr>)"

definition VGA_display_char :: "u8 \<Rightarrow> 'a vga_state_scheme \<Rightarrow> 'a vga_state_scheme" where
  "VGA_display_char c s =
     (let int_en = check_int s;
          s = irq_off int_en s;
          s = display_switch c s;
          s = (if vg_cursor s \<ge> VGA_WIDTH * VGA_HEIGHT then scroll s else s)
      in irq_on int_en s)"

function display_loop :: "u64 \<Rightarrow> int \<Rightarrow> int \<Rightarrow> 'a vga_state_scheme \<Rightarrow> 'a vga_state_scheme" where
  "display_loop str i len s =
     (if vg_mem s (at str i) \<noteq> 0 \<and> i < len
      then display_loop str (i + 1) len (VGA_display_char (vg_mem s (at str i)) s) else s)"
  by auto
termination
  by (relation "measure (\<lambda>(str, i, len, s). nat (len - i))") auto

declare display_loop.simps [simp del]

definition VGA_display_str :: "u64 \<Rightarrow> int \<Rightarrow> 'a vga_state_scheme \<Rightarrow> 'a vga_state_scheme" where
  "VGA_display_str str len s = (if str = NULL then s else display_loop str 0 len s)"

definition VGA_set_bg_color :: "u8 \<Rightarrow> 'a vga_state_scheme \<Rightarrow> 'a vga_state_scheme" where
  "VGA_set_bg_color bg s = s\<lparr>vg_bg := bg\<rparr>"

definition VGA_set_fg_color :: "u8 \<Rightarrow> 'a vga_state_scheme \<Rightarrow> 'a vga_state_scheme" where
  "VGA_set_fg_color fg s = s\<lparr>vg_fg := fg\<rparr>"

definition VGA_row_count :: int where "VGA_row_count = uint VGA_HEIGHT"
definition VGA_col_count :: int where "VGA_col_count = uint VGA_WIDTH"

definition VGA_display_attr_char ::
    "int \<Rightarrow> int \<Rightarrow> u8 \<Rightarrow> int \<Rightarrow> int \<Rightarrow> 'a vga_state_scheme \<Rightarrow> 'a vga_state_scheme" where
  "VGA_display_attr_char x y c fg bg s =
     (let out = push_bit 12 (word_of_int bg) OR push_bit 8 (word_of_int fg) OR scast c;
          pos = y * uint VGA_WIDTH + x
      in s\<lparr>vg_mem := wr16 (vg_vga s + 2 * word_of_int pos) out (vg_mem s)\<rparr>)"

section \<open>The terminal the screen implements\<close>

type_synonym terminal = "u16 list \<times> nat"

text \<open>What one character does to 25 lines of 80 cells and a cursor.\<close>

definition term_put :: "u16 \<Rightarrow> u8 \<Rightarrow> terminal \<Rightarrow> terminal" where
  "term_put blank c t =
     (let (cells, cur) =
        (if c = 10 then (fst t, (snd t div 80 + 1) * 80)
         else if c = 8 then (if snd t = 0 then t else ((fst t)[snd t - 1 := blank], snd t - 1))
         else if c = 9 then (fst t, snd t + 4)
         else ((fst t)[snd t := blank OR scast c], snd t + 1))
      in if 2000 \<le> cur then (drop 80 cells @ replicate 80 0, 1920) else (cells, cur))"

definition cell :: "bmem \<Rightarrow> u64 \<Rightarrow> nat \<Rightarrow> u16" where
  "cell m b i = rd16 m (b + of_nat (2 * i))"

definition screen :: "'a vga_state_scheme \<Rightarrow> u16 list" where
  "screen s = map (cell (vg_mem s) (vg_vga s)) [0..<2000]"

definition terminal_of :: "'a vga_state_scheme \<Rightarrow> terminal" where
  "terminal_of s = (screen s, unat (vg_cursor s))"

definition vga_ok :: "'a vga_state_scheme \<Rightarrow> bool" where
  "vga_ok s \<longleftrightarrow> vg_vga s \<noteq> NULL \<and> unat (vg_vga s) + 4000 \<le> 2 ^ 64 \<and> unat (vg_cursor s) < 2000"

text \<open>The bytes of the screen.\<close>

definition on_screen :: "'a vga_state_scheme \<Rightarrow> u64 \<Rightarrow> bool" where
  "on_screen s x \<longleftrightarrow> x - vg_vga s < 4000"

section \<open>Cells\<close>

lemma unat_of_nat64 [simp]: "k < 2 ^ 64 \<Longrightarrow> unat (of_nat k :: u64) = k"
  by (simp add: unsigned_of_nat take_bit_nat_eq_self)

lemma cell_bytes:
  "cell m b i = ucast (m (b + of_nat (2 * i))) OR push_bit 8 (ucast (m (b + of_nat (2 * i + 1))))"
  by (simp add: cell_def rd16_def add.assoc add.commute [of 1])

lemma byte_at: "k < 2 ^ 64 \<Longrightarrow> unat (b + of_nat k - b) = (k :: nat)" for b :: u64
  by simp

lemma screen_nth: "i < 2000 \<Longrightarrow> screen s ! i = cell (vg_mem s) (vg_vga s) i"
  and length_screen [simp]: "length (screen s) = 2000"
  by (simp_all add: screen_def)

lemma screen_eqI:
  "length xs = 2000 \<Longrightarrow> (\<And>i. i < 2000 \<Longrightarrow> cell (vg_mem s) (vg_vga s) i = xs ! i) \<Longrightarrow> screen s = xs"
  by (rule nth_equalityI) (simp_all add: screen_nth)

text \<open>Memory described by the offset from the start of the screen.\<close>

lemma cell_offset:
  assumes "\<And>x. m' x = (let k = unat (x - b) in if k < 4000 then f k else m x)" and "i < 2000"
  shows "cell m' b i = ucast (f (2 * i)) OR push_bit 8 (ucast (f (2 * i + 1)))"
proof -
  have "m' (b + of_nat k) = f k" if "k < 4000" for k
    using that unat_of_nat64 [of k] by (simp add: assms(1) Let_def)
  from this [of "2 * i"] this [of "2 * i + 1"] show ?thesis
    unfolding cell_bytes using assms(2) by simp
qed

lemma in_cell:
  fixes a y :: u64
  assumes "unat a < 4000" and "y - a < 2"
  shows "unat y = unat a \<or> unat y = unat a + 1"
proof -
  define k where "k = y - a"
  have k: "unat k < 2" using assms(2) by (simp add: k_def word_less_nat_alt)
  have "unat (a + k) = unat a + unat k"
    using assms(1) k by (simp add: unat_word_ariths)
  moreover have "y = a + k" by (simp add: k_def)
  ultimately show ?thesis using k by auto
qed

lemma cell_wr16:
  assumes "i < 2000" and "j < 2000"
  shows "cell (wr16 (b + of_nat (2 * j)) v m) b i = (if i = j then v else cell m b i)"
proof (cases "i = j")
  case False
  have "\<not> x - (b + of_nat (2 * j)) < 2" if "x - (b + of_nat (2 * i)) < 2" for x
  proof -
    define y where "y = x - b"
    have x: "x - (b + of_nat (2 * i)) = y - of_nat (2 * i)" "x - (b + of_nat (2 * j)) = y - of_nat (2 * j)"
      by (simp_all add: y_def algebra_simps)
    have u: "unat (of_nat (2 * i) :: u64) = 2 * i" "unat (of_nat (2 * j) :: u64) = 2 * j"
      using assms by (auto intro!: unat_of_nat64 simp del: of_nat_mult)
    have "unat (of_nat (2 * i) :: u64) < 4000" "unat (of_nat (2 * j) :: u64) < 4000"
      using u assms by linarith+
    from in_cell [OF this(1), of y] in_cell [OF this(2), of y] that False u show ?thesis
      unfolding x by linarith
  qed
  then show ?thesis using False unfolding cell_def by (auto intro!: rd16_cong wr16_other)
qed (simp add: cell_def rd16_wr16)

lemma cell_put:
  assumes "unat i < 2000" and "j < 2000"
  shows "cell (vg_mem (put_cell i v s)) (vg_vga s) j = (if j = unat i then v else cell (vg_mem s) (vg_vga s) j)"
proof -
  have "2 * ucast i = (of_nat (2 * unat i) :: u64)" by (simp add: unsigned_ucast_eq)
  then show ?thesis
    using cell_wr16 [OF assms(2,1), of "vg_vga s" v "vg_mem s"] by (simp add: put_cell_def vga_cell_def)
qed

lemma put_cell_fields [simp]:
  "vg_vga (put_cell i v s) = vg_vga s" "vg_cursor (put_cell i v s) = vg_cursor s"
  "vg_fg (put_cell i v s) = vg_fg s" "vg_bg (put_cell i v s) = vg_bg s" "vg_if (put_cell i v s) = vg_if s"
  "color (put_cell i v s) = color s"
  by (simp_all add: put_cell_def color_def)

lemma screen_put: "unat i < 2000 \<Longrightarrow> screen (put_cell i v s) = (screen s)[unat i := v]"
  by (rule screen_eqI) (simp_all add: cell_put screen_nth nth_list_update)

lemma put_cell_outside:
  assumes "unat i < 2000" and "\<not> on_screen s x"
  shows "vg_mem (put_cell i v s) x = vg_mem s x"
proof -
  have u: "unat (2 * ucast i :: u64) = 2 * unat i"
    using assms(1) by (simp add: unat_word_ariths unsigned_ucast_eq take_bit_nat_eq_self)
  define y where "y = x - vg_vga s"
  have e: "x - (vg_vga s + 2 * ucast i) = y - 2 * ucast i" by (simp add: y_def algebra_simps)
  have "\<not> y - 2 * ucast i < 2"
    using in_cell [of "2 * ucast i" y] u assms unfolding on_screen_def y_def [symmetric] word_less_nat_alt
    by auto
  then have "\<not> x - (vg_vga s + 2 * ucast i) < 2" by (simp only: e simp_thms)
  from wr16_other [OF this] show ?thesis by (simp add: put_cell_def vga_cell_def)
qed

lemma offset_range: "y - 3840 < 160 \<longleftrightarrow> 3840 \<le> unat y \<and> unat y < 4000" for y :: u64
proof
  define k where "k = y - 3840"
  assume "y - 3840 < 160"
  then have k: "unat k < 160" by (simp add: k_def word_less_nat_alt)
  then have "unat (k + 3840) = unat k + 3840" by (simp add: unat_word_ariths)
  then show "3840 \<le> unat y \<and> unat y < 4000" using k by (simp add: k_def)
next
  assume y: "3840 \<le> unat y \<and> unat y < 4000"
  then have "unat (y - 3840) = unat y - 3840" by (simp add: unat_sub word_le_nat_alt)
  with y have "unat (y - 3840) < 160" by linarith
  then show "y - 3840 < 160" by (simp add: word_less_nat_alt)
qed

lemma scroll_mem:
  assumes "vg_vga s \<noteq> NULL" and "unat (vg_vga s) + 4000 \<le> 2 ^ 64"
  shows "vg_mem (scroll s) x = (let k = unat (x - vg_vga s) in if k < 4000 then
           (if k < 3840 then vg_mem s (vg_vga s + of_nat (k + 160)) else 0) else vg_mem s x)"
proof -
  let ?b = "vg_vga s" and ?m = "vg_mem s"
  have nz: "?b + c \<noteq> 0" if "unat c < 4000" for c
  proof
    assume "?b + c = 0"
    then have "unat (?b + c) = 0" by simp
    moreover have "unat (?b + c) = unat ?b + unat c" using assms(2) that by (simp add: unat_word_ariths)
    ultimately show False using assms(1) by (simp add: unat_eq_zero)
  qed
  have src: "vga_cell s VGA_WIDTH = ?b + 160" "vga_cell s ((VGA_HEIGHT - 1) * VGA_WIDTH) = ?b + 3840"
    by (simp_all add: vga_cell_def VGA_WIDTH_def VGA_HEIGHT_def)
  have len: "ucast ((VGA_HEIGHT - 1) * VGA_WIDTH * 2) = (3840 :: u64)" "ucast (VGA_WIDTH * 2) = (160 :: u64)"
    by (simp_all add: VGA_WIDTH_def VGA_HEIGHT_def)
  have cp: "memcpy ?b (?b + 160) 3840 ?m =
      (?b, \<lambda>x. if x - ?b < 3840 then ?m (?b + 160 + (x - ?b)) else ?m x)"
    using assms(1) nz [of 160] by (simp add: memcpy_def memcpy_loop_eq)
  have y: "x - (?b + 3840) = (x - ?b) - 3840" by (simp add: algebra_simps)
  have "vg_mem (scroll s) x = (if (x - ?b) - 3840 < 160 then 0
      else if x - ?b < 3840 then ?m (?b + 160 + (x - ?b)) else ?m x)"
    using nz [of 3840] unfolding scroll_def Let_def src len cp by (simp add: memset_eq y)
  moreover have "?b + 160 + (x - ?b) = ?b + of_nat (unat (x - ?b) + 160)" by (simp add: add.commute)
  moreover have "x - ?b < 3840 \<longleftrightarrow> unat (x - ?b) < 3840" by (simp add: word_less_nat_alt)
  ultimately show ?thesis by (simp add: offset_range Let_def add.commute)
qed

lemma scroll_screen:
  assumes "vg_vga s \<noteq> NULL" and "unat (vg_vga s) + 4000 \<le> 2 ^ 64"
  shows "screen (scroll s) = drop 80 (screen s) @ replicate 80 0"
proof (rule screen_eqI)
  fix i :: nat assume i: "i < 2000"
  let ?m = "vg_mem s" and ?b = "vg_vga s"
  have v: "vg_vga (scroll s) = ?b" by (simp add: scroll_def Let_def)
  have c: "cell (vg_mem (scroll s)) ?b i =
      ucast (if 2 * i < 3840 then ?m (?b + of_nat (2 * i + 160)) else 0) OR
      push_bit 8 (ucast (if 2 * i + 1 < 3840 then ?m (?b + of_nat (2 * i + 1 + 160)) else 0))"
    by (rule cell_offset [OF scroll_mem [OF assms] i])
  show "cell (vg_mem (scroll s)) (vg_vga (scroll s)) i = (drop 80 (screen s) @ replicate 80 0) ! i"
  proof (cases "i < 1920")
    case True
    then have "(drop 80 (screen s) @ replicate 80 0) ! i = cell ?m ?b (80 + i)"
      by (simp add: nth_append screen_nth)
    also have "\<dots> = ucast (?m (?b + of_nat (2 * i + 160))) OR push_bit 8 (ucast (?m (?b + of_nat (2 * i + 1 + 160))))"
      by (simp add: cell_bytes algebra_simps)
    finally show ?thesis using c True by (simp add: v)
  next
    case False
    then show ?thesis using c i by (simp add: v nth_append)
  qed
qed simp

lemma scroll_fields [simp]:
  "vg_vga (scroll s) = vg_vga s" "vg_fg (scroll s) = vg_fg s" "vg_bg (scroll s) = vg_bg s"
  "vg_if (scroll s) = vg_if s" "unat (vg_cursor (scroll s)) = 1920" "color (scroll s) = color s"
  by (simp_all add: scroll_def Let_def color_def VGA_HEIGHT_def VGA_WIDTH_def)

lemma scroll_outside:
  assumes "vg_vga s \<noteq> NULL" and "unat (vg_vga s) + 4000 \<le> 2 ^ 64" and "\<not> on_screen s x"
  shows "vg_mem (scroll s) x = vg_mem s x"
  using assms(3) unfolding scroll_mem [OF assms(1,2)] on_screen_def by (simp add: Let_def word_less_nat_alt)

section \<open>A character on the screen\<close>

lemma display_switch_spec:
  fixes c :: u8
  assumes ok: "vga_ok s"
  defines "s' \<equiv> display_switch c s"
  shows "(screen s', unat (vg_cursor s')) =
      (if c = 10 then (screen s, (unat (vg_cursor s) div 80 + 1) * 80)
       else if c = 8 then (if unat (vg_cursor s) = 0 then terminal_of s
          else ((screen s)[unat (vg_cursor s) - 1 := color s], unat (vg_cursor s) - 1))
       else if c = 9 then (screen s, unat (vg_cursor s) + 4)
       else ((screen s)[unat (vg_cursor s) := color s OR scast c], unat (vg_cursor s) + 1))"
    and "vg_vga s' = vg_vga s" "vg_fg s' = vg_fg s" "vg_bg s' = vg_bg s" "vg_if s' = vg_if s"
    and "\<not> on_screen s x \<Longrightarrow> vg_mem s' x = vg_mem s x"
proof -
  let ?c = "vg_cursor s"
  have lt: "unat ?c < 2000" using ok by (simp add: vga_ok_def)
  have add: "unat (?c + k) = unat ?c + unat k" if "unat k < 1000" for k
    using lt that by (simp add: unat_word_ariths)
  have screen_cursor: "screen (t\<lparr>vg_cursor := k\<rparr>) = screen t" for t :: "'a vga_state_scheme" and k
    by (simp add: screen_def)
  have line: "unat (LINE ?c + VGA_WIDTH) = (unat ?c div 80 + 1) * 80"
  proof -
    have m: "unat (?c mod 80) = unat ?c mod 80" by (simp add: unat_mod)
    have "?c mod 80 \<le> ?c" by (simp add: word_le_nat_alt m)
    then have "unat (?c - ?c mod 80) = unat ?c - unat ?c mod 80" by (simp add: unat_sub m)
    also have "\<dots> = unat ?c div 80 * 80" by (simp add: minus_mod_eq_div_mult)
    finally have l: "unat (?c - ?c mod 80) = unat ?c div 80 * 80" .
    have "unat ?c div 80 * 80 \<le> unat ?c" by simp
    then have "unat (?c - ?c mod 80 + 80) = unat ?c div 80 * 80 + 80"
      using l lt by (simp add: unat_word_ariths)
    then show ?thesis by (simp add: LINE_def VGA_WIDTH_def)
  qed
  have prev: "unat (?c - 1) = unat ?c - 1" if "?c \<noteq> 0"
    using that by (simp add: unat_minus_one)
  have put: "screen (put_cell (?c - 1) v (s\<lparr>vg_cursor := ?c - 1\<rparr>)) = (screen s)[unat ?c - 1 := v]" if "?c \<noteq> 0" for v
    using screen_put [of "?c - 1" v "s\<lparr>vg_cursor := ?c - 1\<rparr>"] prev [OF that] lt by (simp add: screen_cursor)
  have col: "color (s\<lparr>vg_cursor := k\<rparr>) = color s" for k by (simp add: color_def)
  show "(screen s', unat (vg_cursor s')) =
      (if c = 10 then (screen s, (unat (vg_cursor s) div 80 + 1) * 80)
       else if c = 8 then (if unat (vg_cursor s) = 0 then terminal_of s
          else ((screen s)[unat (vg_cursor s) - 1 := color s], unat (vg_cursor s) - 1))
       else if c = 9 then (screen s, unat (vg_cursor s) + 4)
       else ((screen s)[unat (vg_cursor s) := color s OR scast c], unat (vg_cursor s) + 1))"
    using line put prev add [of 1] add [of 4] screen_put [OF lt, of "color s OR scast c" s]
    by (simp add: s'_def display_switch_def Let_def screen_cursor terminal_of_def TAB_WIDTH_def col unat_eq_zero)
  show "vg_vga s' = vg_vga s" "vg_fg s' = vg_fg s" "vg_bg s' = vg_bg s" "vg_if s' = vg_if s"
    by (simp_all add: s'_def display_switch_def Let_def)
  show "vg_mem s' x = vg_mem s x" if "\<not> on_screen s x"
  proof -
    have "vg_mem (put_cell (?c - 1) v (s\<lparr>vg_cursor := ?c - 1\<rparr>)) x = vg_mem s x" if "?c \<noteq> 0" for v
      using put_cell_outside [of "?c - 1" "s\<lparr>vg_cursor := ?c - 1\<rparr>" x v] prev [OF that] lt \<open>\<not> on_screen s x\<close>
      by (simp add: on_screen_def)
    with put_cell_outside [OF lt that] show ?thesis
      by (simp add: s'_def display_switch_def Let_def)
  qed
qed

lemma display_char_spec:
  fixes c :: u8
  assumes ok: "vga_ok s"
  defines "s' \<equiv> VGA_display_char c s"
  shows "terminal_of s' = term_put (color s) c (terminal_of s)" "vga_ok s'"
    and "vg_vga s' = vg_vga s" "color s' = color s" "vg_if s' = vg_if s"
    and "\<not> on_screen s x \<Longrightarrow> vg_mem s' x = vg_mem s x"
proof -
  define s1 where "s1 = irq_off (check_int s) s"
  define s2 where "s2 = display_switch c s1"
  define s3 where "s3 = (if vg_cursor s2 \<ge> VGA_WIDTH * VGA_HEIGHT then scroll s2 else s2)"
  have s': "s' = irq_on (check_int s) s3"
    by (simp add: s'_def VGA_display_char_def s3_def s2_def s1_def Let_def)
  have s1: "vga_ok s1" "terminal_of s1 = terminal_of s" "color s1 = color s" "vg_vga s1 = vg_vga s"
    "vg_mem s1 = vg_mem s" "vg_cursor s1 = vg_cursor s" "screen s1 = screen s" "vg_if s1 = False"
    using ok by (auto simp: s1_def irq_off_def vga_ok_def terminal_of_def screen_def color_def check_int_def)
  note d = display_switch_spec [OF s1(1), where c = c, folded s2_def]
  have big: "vg_cursor s2 \<ge> VGA_WIDTH * VGA_HEIGHT \<longleftrightarrow> 2000 \<le> unat (vg_cursor s2)"
    by (simp add: VGA_WIDTH_def VGA_HEIGHT_def word_le_nat_alt)
  have base: "vg_vga s2 \<noteq> NULL" "unat (vg_vga s2) + 4000 \<le> 2 ^ 64"
    using s1(1) by (simp_all add: d(2) vga_ok_def)
  note sc = scroll_screen [OF base] scroll_outside [OF base]
  have t3: "(screen s3, unat (vg_cursor s3)) = term_put (color s) c (terminal_of s)"
    unfolding term_put_def s3_def big using d(1) sc(1)
    by (auto simp: s1 terminal_of_def Let_def split: if_splits)
  have col: "color s3 = color s"
    using d(3,4) s1(3) by (simp add: s3_def color_def)
  have f3: "vg_vga s3 = vg_vga s" "vg_if s3 = False" "unat (vg_cursor s3) < 2000"
    using d(2,5) s1 by (auto simp: s3_def big)
  show "terminal_of s' = term_put (color s) c (terminal_of s)"
    using t3 by (simp add: s' irq_on_def terminal_of_def screen_def)
  show "vga_ok s'" "vg_vga s' = vg_vga s" "vg_if s' = vg_if s"
    using f3 ok by (simp_all add: s' irq_on_def vga_ok_def check_int_def)
  show "color s' = color s" using col by (simp add: s' irq_on_def color_def)
  show "vg_mem s' x = vg_mem s x" if "\<not> on_screen s x"
    using that d(6) [of x] sc(2) [of x] s1(4,5) d(2) by (simp add: s' irq_on_def s3_def on_screen_def)
qed

section \<open>Strings on the screen\<close>

text \<open>The characters a string shows: up to the terminator, at most \<open>len\<close>.\<close>

definition shown :: "bmem \<Rightarrow> u64 \<Rightarrow> nat \<Rightarrow> nat \<Rightarrow> u8 list" where
  "shown m str i len = takeWhile (\<lambda>c. c \<noteq> 0) (map (\<lambda>k. m (str + of_nat k)) [i..<len])"

lemma shown_step:
  "i < len \<Longrightarrow> shown m str i len =
     (if m (str + of_nat i) \<noteq> 0 then m (str + of_nat i) # shown m str (Suc i) len else [])"
  by (simp add: shown_def upt_conv_Cons)

lemma shown_cong:
  "(\<And>k. i \<le> k \<Longrightarrow> k < len \<Longrightarrow> m' (str + of_nat k) = m (str + of_nat k)) \<Longrightarrow> shown m' str i len = shown m str i len"
  unfolding shown_def by (rule arg_cong [where f = "takeWhile _"]) (rule map_cong, auto)

lemma shown_cstr: "cstr m str xs \<Longrightarrow> shown m str 0 len = take len xs"
proof (induction xs arbitrary: str len)
  case Nil
  then show ?case by (cases "0 < len") (simp_all add: shown_step, simp add: shown_def)
next
  case (Cons x xs)
  show ?case
  proof (cases len)
    case (Suc n)
    have "map (\<lambda>k. m (str + of_nat k)) [Suc 0..<Suc n] = map (\<lambda>k. m (str + 1 + of_nat k)) [0..<n]"
      by (simp add: map_Suc_upt [symmetric] comp_def add.assoc del: upt_Suc)
    then have "shown m str 1 (Suc n) = shown m (str + 1) 0 n" by (simp add: shown_def del: upt_Suc)
    with Cons Suc show ?thesis by (simp add: shown_step)
  qed (simp add: shown_def)
qed

lemma display_loop_spec:
  "vga_ok s \<Longrightarrow> 0 \<le> i \<Longrightarrow> (\<And>k. k < nat len \<Longrightarrow> \<not> on_screen s (str + of_nat k)) \<Longrightarrow>
   terminal_of (display_loop str i len s) =
     fold (term_put (color s)) (shown (vg_mem s) str (nat i) (nat len)) (terminal_of s) \<and>
   vga_ok (display_loop str i len s) \<and> vg_if (display_loop str i len s) = vg_if s \<and>
   color (display_loop str i len s) = color s \<and> vg_vga (display_loop str i len s) = vg_vga s \<and>
   (\<forall>x. \<not> on_screen s x \<longrightarrow> vg_mem (display_loop str i len s) x = vg_mem s x)"
proof (induction str i len s rule: display_loop.induct)
  case (1 str i len s)
  let ?c = "vg_mem s (at str i)"
  have at: "at str i = str + of_nat (nat i)" using 1(3) by (simp add: at_def)
  show ?case
  proof (cases "?c \<noteq> 0 \<and> i < len")
    case True
    define s' where "s' = VGA_display_char ?c s"
    note d = display_char_spec [OF 1(2), where c = ?c, folded s'_def]
    have on: "on_screen s' x \<longleftrightarrow> on_screen s x" for x by (simp add: on_screen_def d(3))
    have ok: "\<And>k. k < nat len \<Longrightarrow> \<not> on_screen s' (str + of_nat k)" using 1(4) on by blast
    have "0 \<le> i + 1" using 1(3) by simp
    note ih = 1(1) [OF True, folded s'_def, OF d(2) this ok]
    have "nat (i + 1) = Suc (nat i)" using 1(3) by simp
    moreover have "shown (vg_mem s') str (Suc (nat i)) (nat len) = shown (vg_mem s) str (Suc (nat i)) (nat len)"
      by (rule shown_cong) (use d(6) 1(4) in blast)
    moreover have "shown (vg_mem s) str (nat i) (nat len) = ?c # shown (vg_mem s) str (Suc (nat i)) (nat len)"
      using True 1(3) by (simp add: shown_step at_def)
    moreover have "display_loop str i len s = display_loop str (i + 1) len s'"
      using True by (subst display_loop.simps) (simp add: s'_def)
    ultimately show ?thesis using ih d on by simp
  next
    case False
    then have e: "display_loop str i len s = s" by (subst display_loop.simps) auto
    have "shown (vg_mem s) str (nat i) (nat len) = []"
    proof (cases "i < len")
      case True
      with False 1(3) show ?thesis by (simp add: shown_step at)
    qed (simp add: shown_def)
    with e 1(2) show ?thesis by simp
  qed
qed

lemma display_str_spec:
  assumes "vga_ok s" and "str \<noteq> NULL" and "\<And>k. k < nat len \<Longrightarrow> \<not> on_screen s (str + of_nat k)"
  shows "terminal_of (VGA_display_str str len s) =
     fold (term_put (color s)) (shown (vg_mem s) str 0 (nat len)) (terminal_of s)"
    and "vga_ok (VGA_display_str str len s)" "vg_if (VGA_display_str str len s) = vg_if s"
    and "color (VGA_display_str str len s) = color s" "vg_vga (VGA_display_str str len s) = vg_vga s"
    and "\<not> on_screen s x \<Longrightarrow> vg_mem (VGA_display_str str len s) x = vg_mem s x"
  using display_loop_spec [OF assms(1) _ assms(3), of 0] assms(2) by (simp_all add: VGA_display_str_def)

lemma clear_spec:
  assumes "vga_ok s"
  shows "terminal_of (VGA_clear s) = (replicate 2000 0, 0)" "vga_ok (VGA_clear s)" "vg_if (VGA_clear s) = vg_if s"
proof -
  have n: "ucast (VGA_WIDTH * VGA_HEIGHT * 2) = (4000 :: u64)" by (simp add: VGA_WIDTH_def VGA_HEIGHT_def)
  have f: "vg_vga (irq_off b s) = vg_vga s" "vg_mem (irq_off b s) = vg_mem s" for b by (simp_all add: irq_off_def)
  have b: "vg_vga s \<noteq> NULL" using assms by (simp add: vga_ok_def)
  have m: "vg_mem (VGA_clear s) x = (let k = unat (x - vg_vga s) in if k < 4000 then 0 else vg_mem s x)" for x
    by (simp add: VGA_clear_def Let_def irq_on_def f n memset_eq [OF b] word_less_nat_alt)
  have v: "vg_vga (VGA_clear s) = vg_vga s" by (simp add: VGA_clear_def Let_def irq_on_def f)
  have "screen (VGA_clear s) = replicate 2000 0"
    by (rule screen_eqI) (use cell_offset [OF m] v in simp_all)
  then show "terminal_of (VGA_clear s) = (replicate 2000 0, 0)"
    by (simp add: terminal_of_def VGA_clear_def Let_def irq_on_def)
  show "vga_ok (VGA_clear s)" "vg_if (VGA_clear s) = vg_if s"
    using assms v by (simp_all add: vga_ok_def VGA_clear_def Let_def irq_on_def irq_off_def check_int_def)
qed

section \<open>Properties\<close>

text \<open>
  C14: Showing a string acts on the screen exactly like the terminal of 25 lines of 80 cells fed
  with its characters one after the other, newline, backspace, tab and scrolling included; the
  cursor stays on the screen, no byte outside the screen changes, and the interrupt flag is
  what it was.
\<close>

theorem VGA_display_str_is_terminal:
  assumes "vga_ok s" and "cstr (vg_mem s) str xs" and "str \<noteq> NULL"
    and "\<forall>k < nat len. \<not> on_screen s (str + of_nat k)"
  shows "terminal_of (VGA_display_str str len s) =
           fold (term_put (color s)) (take (nat len) xs) (terminal_of s) \<and>
     vga_ok (VGA_display_str str len s) \<and> vg_if (VGA_display_str str len s) = vg_if s \<and>
     (\<forall>x. \<not> on_screen s x \<longrightarrow> vg_mem (VGA_display_str str len s) x = vg_mem s x)"
  using display_str_spec [OF assms(1,3)] assms(4) by (simp add: shown_cstr [OF assms(2)])

lemma below_screen: "unat x < 0xB8000 \<Longrightarrow> \<not> x - 0xB8000 < (4000 :: u64)"
proof
  define k where "k = x - 0xB8000"
  assume x: "unat x < 0xB8000" and "x - 0xB8000 < 4000"
  then have "unat k < 4000" by (simp add: k_def word_less_nat_alt)
  then have "unat (k + 0xB8000) = unat k + 0xB8000" by (simp add: unat_word_ariths)
  with x show False by (simp add: k_def)
qed

definition vga_example :: vga_state where
  "vga_example = \<lparr>vg_mem = (\<lambda>a. if a = 16 then 72 else if a = 17 then 10 else if a = 18 then 105 else 0),
     vg_vga = VGA_ADDR, vg_cursor = 1999, vg_fg = 15, vg_bg = 0, vg_if = True\<rparr>"

theorem VGA_display_str_is_terminal_witness:
  "snd (terminal_of (VGA_display_str 16 20 vga_example)) = 1921 \<and>
   vg_if (VGA_display_str 16 20 vga_example)"
proof -
  have ok: "vga_ok vga_example" by (simp add: vga_ok_def vga_example_def VGA_ADDR_def)
  have str: "cstr (vg_mem vga_example) 16 [72, 10, 105]" by (simp add: vga_example_def)
  have off: "\<forall>k < nat 20. \<not> on_screen vga_example (16 + of_nat k)"
  proof (intro allI impI)
    fix k assume "k < nat 20"
    then have "unat (of_nat (16 + k) :: u64) = 16 + k" by (intro unat_of_nat64) simp
    then have "unat (16 + of_nat k :: u64) < 0xB8000" using \<open>k < nat 20\<close> by simp
    then show "\<not> on_screen vga_example (16 + of_nat k)"
      using below_screen [of "16 + of_nat k"] by (simp add: on_screen_def vga_example_def VGA_ADDR_def)
  qed
  have t: "terminal_of vga_example = (screen vga_example, 1999)"
    by (simp add: terminal_of_def vga_example_def)
  from VGA_display_str_is_terminal [OF ok str _ off] show ?thesis
    unfolding t by (simp add: term_put_def Let_def) (simp add: vga_example_def)
qed

text \<open>
  Clearing the screen blanks all 2000 cells and puts the cursor at the start, and leaves the
  interrupt flag as it was.
\<close>

theorem VGA_clear_blanks:
  assumes "vga_ok s"
  shows "terminal_of (VGA_clear s) = (replicate 2000 0, 0) \<and> vga_ok (VGA_clear s) \<and>
    vg_if (VGA_clear s) = vg_if s"
  using clear_spec [OF assms] by simp

theorem VGA_clear_blanks_witness:
  "snd (terminal_of (VGA_clear vga_example)) = 0 \<and> vg_if (VGA_clear vga_example)"
proof -
  have "vga_ok vga_example" by (simp add: vga_ok_def vga_example_def VGA_ADDR_def)
  from VGA_clear_blanks [OF this] show ?thesis by (simp add: vga_example_def)
qed

end
