(* ===== verification/Printk.thy ===== *)
theory Printk
  imports VGA
begin

text \<open>
  Formatted printing (\<^verbatim>\<open>lib/printk.c\<close>) onto the screen, in the build without the serial copy
  (\<^verbatim>\<open>SERIAL_OUT\<close> undefined). A local buffer lives at the stack address \<open>st\<close>; the variable
  arguments are a list of 64 bit slots, of which each \<^verbatim>\<open>va_arg\<close> takes the next one.
\<close>

section \<open>Operations\<close>

definition FORMAT_BUFF :: int where "FORMAT_BUFF = 20"

record format_info =
  fi_length :: u8
  fi_length_spec :: u8
  fi_format_spec :: u8

definition digit_char :: "int \<Rightarrow> bool \<Rightarrow> u8" where
  "digit_char r caps =
     (if r < 10 then word_of_int (r + 48) else word_of_int (r - 10 + (if caps then 65 else 97)))"

text \<open>
  The digit loop of \<^verbatim>\<open>itoa\<close> and \<^verbatim>\<open>uitoa\<close>. The bases are 10 and 16; the second test only makes
  the recursion evidently finite.
\<close>

function digit_loop :: "int \<Rightarrow> int \<Rightarrow> bool \<Rightarrow> u64 \<Rightarrow> int \<Rightarrow> bmem \<Rightarrow> int \<times> bmem" where
  "digit_loop num base caps buffer i m =
     (if num > 0 \<and> base > 1 then
        let rem = num mod base
        in digit_loop (num div base) base caps buffer (i + 1) (m(at buffer i := digit_char rem caps))
      else (i, m))"
  by auto
termination
  by (relation "measure (\<lambda>(num, base, caps, buffer, i, m). nat num)") (auto simp: int_div_less_self)

declare digit_loop.simps [simp del]

definition reversed :: "u64 \<Rightarrow> bmem \<Rightarrow> bmem res" where
  "reversed buffer m = (case strrev buffer m of None \<Rightarrow> Inl Diverge | Some m \<Rightarrow> Inr m)"

definition itoa :: "u64 \<Rightarrow> u64 \<Rightarrow> int \<Rightarrow> bool \<Rightarrow> bmem \<Rightarrow> bmem res" where
  "itoa num buffer base caps m =
     (if buffer = NULL then Inr m
      else if num = 0 then Inr (m(at buffer 0 := 48, at buffer 1 := 0))
      else
        let negative = (base = 10 \<and> sint num < 0);
            num = (if negative then num * (- 1) else num);
            (i, m) = digit_loop (sint num) base caps buffer 0 m;
            (i, m) = (if negative then (i + 1, m(at buffer i := 45)) else (i, m));
            m = m(at buffer i := 0)
        in reversed buffer m)"

definition uitoa :: "u64 \<Rightarrow> u64 \<Rightarrow> int \<Rightarrow> bool \<Rightarrow> bmem \<Rightarrow> bmem res" where
  "uitoa num buffer base caps m =
     (if buffer = NULL then Inr m
      else if num = 0 then Inr (m(at buffer 0 := 48, at buffer 1 := 0))
      else
        let (i, m) = digit_loop (uint num) base caps buffer 0 m;
            m = m(at buffer i := 0)
        in reversed buffer m)"

definition print :: "u64 \<Rightarrow> int \<Rightarrow> 'a vga_state_scheme \<Rightarrow> 'a vga_state_scheme" where
  "print buff len s = VGA_display_str buff len s"

definition print_char :: "u64 \<Rightarrow> u8 \<Rightarrow> 'a vga_state_scheme \<Rightarrow> 'a vga_state_scheme" where
  "print_char st c s = print st 1 (s\<lparr>vg_mem := (vg_mem s)(st := c)\<rparr>)"

definition print_str :: "u64 \<Rightarrow> 'a vga_state_scheme \<Rightarrow> 'a vga_state_scheme res" where
  "print_str str s =
     (case strlen (vg_mem s) str of None \<Rightarrow> Inl Diverge
      | Some len \<Rightarrow> Inr (print str (sint (ucast len :: u32)) s))"

definition print_strn :: "u64 \<Rightarrow> int \<Rightarrow> 'a vga_state_scheme \<Rightarrow> 'a vga_state_scheme" where
  "print_strn str len s = print str len s"

definition print_int :: "u64 \<Rightarrow> u64 \<Rightarrow> 'a vga_state_scheme \<Rightarrow> 'a vga_state_scheme res" where
  "print_int st i s =
     bind_res (itoa i st 10 False (vg_mem s)) (\<lambda>m. Inr (print st FORMAT_BUFF (s\<lparr>vg_mem := m\<rparr>)))"

definition print_uint :: "u64 \<Rightarrow> u64 \<Rightarrow> 'a vga_state_scheme \<Rightarrow> 'a vga_state_scheme res" where
  "print_uint st u s =
     bind_res (uitoa u st 10 False (vg_mem s)) (\<lambda>m. Inr (print st FORMAT_BUFF (s\<lparr>vg_mem := m\<rparr>)))"

definition print_hex :: "u64 \<Rightarrow> u64 \<Rightarrow> bool \<Rightarrow> 'a vga_state_scheme \<Rightarrow> 'a vga_state_scheme res" where
  "print_hex st h caps s =
     bind_res (uitoa h st 16 caps (vg_mem s)) (\<lambda>m. Inr (print st FORMAT_BUFF (s\<lparr>vg_mem := m\<rparr>)))"

definition print_pointer :: "u64 \<Rightarrow> u64 \<Rightarrow> 'a vga_state_scheme \<Rightarrow> 'a vga_state_scheme res" where
  "print_pointer st p s =
     bind_res (uitoa p (st + 2) 16 False ((vg_mem s)(st := 48, st + 1 := 120)))
       (\<lambda>m. Inr (print st FORMAT_BUFF (s\<lparr>vg_mem := m\<rparr>)))"

text \<open>The characters \<^verbatim>\<open>h l q\<close>, \<^verbatim>\<open>d u x X\<close> and \<^verbatim>\<open>% d u x X c p s\<close>.\<close>

definition length_chars :: "u8 list" where "length_chars = [104, 108, 113]"
definition long_chars :: "u8 list" where "long_chars = [100, 117, 120, 88]"
definition format_chars :: "u8 list" where "format_chars = [37, 100, 117, 120, 88, 99, 112, 115]"

definition check_format_spec :: "bmem \<Rightarrow> u64 \<Rightarrow> format_info \<Rightarrow> bool \<times> format_info" where
  "check_format_spec m fmt info =
     (if m fmt \<noteq> 37 then (False, info)
      else
        let (fmt, info) =
          (if m (fmt + 1) \<in> set length_chars
           then (fmt + 1, info\<lparr>fi_length_spec := m (fmt + 1)\<rparr>) else (fmt, info))
        in if fi_length_spec info \<noteq> 0 then
             (if m (fmt + 1) \<in> set long_chars
              then (True, info\<lparr>fi_length := 3, fi_format_spec := m (fmt + 1)\<rparr>) else (False, info))
           else
             (if m (fmt + 1) \<in> set format_chars
              then (True, info\<lparr>fi_length := 2, fi_format_spec := m (fmt + 1)\<rparr>) else (False, info)))"

text \<open>The conversions of \<^verbatim>\<open>va_arg\<close> under a length specifier.\<close>

definition signed_arg :: "u8 \<Rightarrow> u64 \<Rightarrow> u64" where
  "signed_arg l a =
     (if l = 104 then scast (ucast a :: u16) else if l = 108 then a else if l = 113 then a
      else scast (ucast a :: u32))"

definition unsigned_arg :: "u8 \<Rightarrow> u64 \<Rightarrow> u64" where
  "unsigned_arg l a =
     (if l = 104 then ucast (ucast a :: u16) else if l = 108 then a else if l = 113 then a
      else ucast (ucast a :: u32))"

text \<open>The switch on the format specifier; \<^verbatim>\<open>%%\<close> takes no argument.\<close>

definition print_arg ::
    "u64 \<Rightarrow> format_info \<Rightarrow> u64 list \<Rightarrow> 'a vga_state_scheme \<Rightarrow> (u64 list \<times> 'a vga_state_scheme) res" where
  "print_arg st info valist s =
     (let f = fi_format_spec info; l = fi_length_spec info
      in if f = 37 then Inr (valist, print_char st 37 s)
         else case valist of [] \<Rightarrow> Inl BadAccess
         | a # valist \<Rightarrow>
             bind_res
               (if f = 100 then print_int st (signed_arg l a) s
                else if f = 117 then print_uint st (unsigned_arg l a) s
                else if f = 120 then print_hex st (unsigned_arg l a) False s
                else if f = 88 then print_hex st (unsigned_arg l a) True s
                else if f = 99 then Inr (print_char st (ucast a) s)
                else if f = 112 then print_pointer st a s
                else print_str a s)
               (\<lambda>s. Inr (valist, s)))"

partial_function (option) print_loop ::
    "u64 \<Rightarrow> u64 \<Rightarrow> int \<Rightarrow> int \<Rightarrow> u64 list \<Rightarrow> 'a vga_state_scheme \<Rightarrow>
     (u64 list \<times> 'a vga_state_scheme) res option" where
  "print_loop st fmt start fin valist s =
     (let info = \<lparr>fi_length = 0, fi_length_spec = 0, fi_format_spec = 0\<rparr>;
          end_flag = (vg_mem s (at fmt fin) = 0);
          (format_flag, info) = check_format_spec (vg_mem s) (at fmt fin) info;
          s = (if end_flag \<or> format_flag then print_strn (at fmt start) (fin - start) s else s);
          step = (if format_flag then
              bind_res (print_arg st info valist s) (\<lambda>(valist, s).
                let fin = fin + uint (fi_length info)
                in Inr (fin, fin - 1, valist, s))
            else Inr (start, fin, valist, s))
      in case step of Inl e \<Rightarrow> Some (Inl e)
         | Inr (start, fin, valist, s) \<Rightarrow>
             if vg_mem s (at fmt fin) \<noteq> 0 then print_loop st fmt start (fin + 1) valist s
             else Some (Inr (valist, s)))"

definition print_backend ::
    "u64 \<Rightarrow> u64 \<Rightarrow> u64 list \<Rightarrow> 'a vga_state_scheme \<Rightarrow> (int \<times> 'a vga_state_scheme) res" where
  "print_backend st fmt valist s =
     (if fmt = NULL then Inr (-1, s)
      else case print_loop st fmt 0 0 valist s of None \<Rightarrow> Inl Diverge
        | Some (Inl e) \<Rightarrow> Inl e
        | Some (Inr (valist, s)) \<Rightarrow> Inr (1, s))"

definition printk :: "u64 \<Rightarrow> u64 \<Rightarrow> u64 list \<Rightarrow> 'a vga_state_scheme \<Rightarrow> (int \<times> 'a vga_state_scheme) res" where
  "printk st fmt valist s = print_backend st fmt valist s"

section \<open>The text of a number\<close>

function digits :: "nat \<Rightarrow> nat \<Rightarrow> nat list" where
  "digits b n = (if n = 0 \<or> b < 2 then [] else n mod b # digits b (n div b))"
  by auto
termination by (relation "measure (\<lambda>(b, n). n)") auto

declare digits.simps [simp del]

lemma digits_0 [simp]: "digits b 0 = []"
  by (simp add: digits.simps)

definition num_text :: "nat \<Rightarrow> bool \<Rightarrow> nat \<Rightarrow> u8 list" where
  "num_text b caps n =
     (if n = 0 then [48] else map (\<lambda>d. digit_char (int d) caps) (rev (digits b n)))"

text \<open>The number a text denotes.\<close>

definition char_digit :: "u8 \<Rightarrow> nat" where
  "char_digit c = (if unat c < 58 then unat c - 48 else if unat c < 91 then unat c - 55 else unat c - 87)"

definition num_value :: "nat \<Rightarrow> u8 list \<Rightarrow> nat" where
  "num_value b cs = foldl (\<lambda>v c. b * v + char_digit c) 0 cs"

lemma below_16:
  "d < 16 \<Longrightarrow> d \<in> {0, 1, 2, 3, 4, 5, 6, 7, 8, 9, 10, 11, 12, 13, 14, 15 :: nat}"
  unfolding insert_iff empty_iff by presburger

lemma char_digit_char: "d < 16 \<Longrightarrow> char_digit (digit_char (int d) caps) = d"
  by (drule below_16) (auto simp: char_digit_def digit_char_def)

lemma digit_char_nonzero: "d < 16 \<Longrightarrow> digit_char (int d) caps \<noteq> 0"
  by (drule below_16) (auto simp: digit_char_def)

lemma digits_less: "d \<in> set (digits b n) \<Longrightarrow> d < b"
  by (induction b n rule: digits.induct) (subst (asm) (2) digits.simps, auto split: if_splits)

lemma digits_value: "2 \<le> b \<Longrightarrow> foldr (\<lambda>d v. b * v + d) (digits b n) 0 = n"
proof (induction b n rule: digits.induct)
  case (1 b n)
  then show ?case by (subst digits.simps) auto
qed

lemma num_value_text: "2 \<le> b \<Longrightarrow> b \<le> 16 \<Longrightarrow> num_value b (num_text b caps n) = n"
proof -
  assume b: "2 \<le> b" "b \<le> 16"
  have "foldr (\<lambda>d v. b * v + char_digit (digit_char (int d) caps)) (digits b n) 0 =
      foldr (\<lambda>d v. b * v + d) (digits b n) 0"
  proof (rule foldr_cong)
    fix d v assume "d \<in> set (digits b n)"
    with digits_less b(2) have "d < 16" by fastforce
    then show "b * v + char_digit (digit_char (int d) caps) = b * v + d" by (simp add: char_digit_char)
  qed simp_all
  with digits_value [OF b(1)] have v: "foldr (\<lambda>d v. b * v + char_digit (digit_char (int d) caps)) (digits b n) 0 = n"
    by simp
  show ?thesis
  proof (cases "n = 0")
    case True
    then show ?thesis by (simp add: num_value_def num_text_def char_digit_def)
  next
    case False
    with v show ?thesis
      by (simp add: num_value_def num_text_def foldl_conv_foldr rev_map foldr_map comp_def)
  qed
qed

lemma length_digits: "2 \<le> b \<Longrightarrow> n < b ^ k \<Longrightarrow> length (digits b n) \<le> k"
proof (induction k arbitrary: n)
  case 0
  then show ?case by (simp add: digits.simps)
next
  case (Suc k)
  have "n div b < b ^ k" using Suc.prems by (simp add: less_mult_imp_div_less mult.commute)
  with Suc show ?case by (subst digits.simps) auto
qed

section \<open>What the conversions write\<close>

lemma digit_loop_eq:
  "2 \<le> b \<Longrightarrow> 0 \<le> i \<Longrightarrow> i + int (length (digits b n)) < 2 ^ 31 \<Longrightarrow>
   digit_loop (int n) (int b) caps buf i m =
     (i + int (length (digits b n)),
      \<lambda>x. if i \<le> uint (x - buf) \<and> uint (x - buf) < i + int (length (digits b n))
          then digit_char (int (digits b n ! nat (uint (x - buf) - i))) caps else m x)"
proof (induction b n arbitrary: i m rule: digits.induct)
  case (1 b n)
  show ?case
  proof (cases "n = 0")
    case True
    then show ?thesis by (subst digit_loop.simps) (auto simp: digits.simps fun_eq_iff)
  next
    case False
    define ds where "ds = digits b (n div b)"
    have dg: "digits b n = n mod b # ds"
      using False 1(2) by (subst digits.simps) (simp add: ds_def)
    define m1 where "m1 = m(at buf i := digit_char (int (n mod b)) caps)"
    have bound: "i + 1 + int (length ds) < 2 ^ 31" "0 \<le> i + 1" using 1(3,4) by (simp_all add: dg)
    have ih: "digit_loop (int (n div b)) (int b) caps buf (i + 1) m1 =
      (i + 1 + int (length ds),
       \<lambda>x. if i + 1 \<le> uint (x - buf) \<and> uint (x - buf) < i + 1 + int (length ds)
          then digit_char (int (ds ! nat (uint (x - buf) - (i + 1)))) caps else m1 x)"
      unfolding ds_def by (rule 1(1)) (use False 1(2) bound in \<open>simp_all add: ds_def\<close>)
    have step: "digit_loop (int n) (int b) caps buf i m = digit_loop (int (n div b)) (int b) caps buf (i + 1) m1"
      using False 1(2) by (subst digit_loop.simps) (simp add: Let_def m1_def zdiv_int zmod_int)
    have m1: "m1 x = (if uint (x - buf) = i then digit_char (int (n mod b)) caps else m x)" for x
      using at_eq_iff [of i x buf] 1(3) bound by (simp add: m1_def)
    have nth: "nat (k - (i + 1)) = nat (k - i) - Suc 0" for k by arith
    show ?thesis
      unfolding step ih dg
      by (rule prod_eqI) (auto simp: fun_eq_iff m1 nth not_le)
  qed
qed

lemma digit_text_cstr:
  assumes b: "2 \<le> b" "b \<le> 16" and len: "length (digits b n) < 2 ^ 20" and ls: "length ls < 2 ^ 20" "0 \<notin> set ls"
    and nn: "buf \<noteq> NULL"
    and m': "m' = (\<lambda>x. if uint (x - buf) < int (length (digits b n))
          then digit_char (int (digits b n ! nat (uint (x - buf)))) caps else m x)"
    and m2: "m2 = (\<lambda>x. if unat (x - buf) < length (digits b n) then m' x
          else if unat (x - buf) < length (digits b n) + length ls then ls ! (unat (x - buf) - length (digits b n))
          else if unat (x - buf) = length (digits b n) + length ls then 0 else m x)"
  shows "\<exists>m3. reversed buf m2 = Inr m3 \<and>
     cstr m3 buf (rev ls @ map (\<lambda>d. digit_char (int d) caps) (rev (digits b n))) \<and>
     (\<forall>x. length (digits b n) + length ls < unat (x - buf) \<longrightarrow> m3 x = m x)"
proof -
  let ?ds = "digits b n"
  let ?xs = "map (\<lambda>d. digit_char (int d) caps) ?ds @ ls"
  have u: "unat (buf + of_nat k - buf) = k" if "k < 2 ^ 60" for k
    using that by simp
  have m'': "m' x = (if unat (x - buf) < length ?ds then digit_char (int (?ds ! unat (x - buf))) caps else m x)" for x
  proof -
    have "uint (x - buf) = int (unat (x - buf))" by simp
    then show ?thesis by (simp only: m' of_nat_less_iff nat_int)
  qed
  have "cstr m2 buf ?xs"
    unfolding cstr_iff
  proof (intro conjI allI impI)
    fix k assume k: "k < length ?xs"
    then have "k < 2 ^ 60" using len ls(1) by simp
    from u [OF this] k show "m2 (buf + of_nat k) = ?xs ! k"
      unfolding m2 m'' by (simp add: nth_append)
  next
    show "0 \<notin> set ?xs"
      using digit_char_nonzero digits_less [of _ b n] b(2) ls(2) by (force simp: image_iff)
    have "length ?xs < 2 ^ 60" using len ls(1) by simp
    from u [OF this] show "m2 (buf + of_nat (length ?xs)) = 0" unfolding m2 by simp
  qed
  moreover have l31: "length ?xs < 2 ^ 31" using len ls(1) by simp
  ultimately obtain m3 where m3: "strrev buf m2 = Some m3" "cstr m3 buf (rev ?xs)"
    "\<forall>x. \<not> x - buf < of_nat (length ?xs) \<longrightarrow> m3 x = m2 x" using strrev_cstr [OF _ nn] by blast
  have "m3 x = m x" if "length ?ds + length ls < unat (x - buf)" for x
  proof -
    have "unat (of_nat (length ?xs) :: u64) = length ?xs" using l31 by (intro unat_of_nat64) simp
    then have "\<not> x - buf < of_nat (length ?xs)" using that by (simp add: word_less_nat_alt)
    with m3(3) that show ?thesis by (simp add: m2)
  qed
  with m3 show ?thesis by (simp add: reversed_def rev_map)
qed

text \<open>The bytes a local buffer may take up.\<close>

definition buffer_only :: "u64 \<Rightarrow> nat \<Rightarrow> bmem \<Rightarrow> bmem \<Rightarrow> bool" where
  "buffer_only st k m m' \<longleftrightarrow> (\<forall>x. k < unat (x - st) \<longrightarrow> m' x = m x)"

definition int_text :: "u64 \<Rightarrow> u8 list" where
  "int_text i =
     (if sint i < 0 then 45 # num_text 10 False (nat (- sint i)) else num_text 10 False (nat (sint i)))"

lemma digits_lengths: "length (digits 10 (unat (u :: u64))) \<le> 20" "length (digits 16 (unat (u :: u64))) \<le> 16"
  using unat_bound64 [of u] by (auto intro!: length_digits)

lemma length_num_text: "2 \<le> b \<Longrightarrow> length (num_text b caps n) = max 1 (length (digits b n))"
  by (cases "n = 0") (auto simp: num_text_def digits.simps [of b n])

lemma zero_text: "buf \<noteq> NULL \<Longrightarrow> cstr (m(at buf 0 := 48, at buf 1 := 0)) buf [48]"
  by (simp add: at_def)

lemma uitoa_spec:
  assumes b: "2 \<le> b" "b \<le> 16" and nn: "buf \<noteq> NULL" and len: "length (digits b (unat num)) \<le> 20"
  shows "\<exists>m'. uitoa num buf (int b) caps m = Inr m' \<and> cstr m' buf (num_text b caps (unat num)) \<and>
     buffer_only buf (length (num_text b caps (unat num))) m m'"
proof (cases "num = 0")
  case True
  have "1 < unat (x - buf) \<Longrightarrow> (m(at buf 0 := 48, at buf 1 := 0)) x = m x" for x
    by (auto simp: at_def)
  with True nn zero_text [OF nn] show ?thesis
    by (auto simp: uitoa_def num_text_def buffer_only_def)
next
  case False
  then have n0: "unat num \<noteq> 0" by (simp add: unat_eq_zero)
  let ?ds = "digits b (unat num)"
  define m' where "m' = (\<lambda>x. if uint (x - buf) < int (length ?ds)
          then digit_char (int (?ds ! nat (uint (x - buf)))) caps else m x)"
  have loop: "digit_loop (uint num) (int b) caps buf 0 m = (int (length ?ds), m')"
    using digit_loop_eq [of b 0 "unat num" caps buf m] b len by (simp add: m'_def cong: if_cong)
  have m2: "m'(at buf (int (length ?ds)) := 0) = (\<lambda>x. if unat (x - buf) < length ?ds then m' x
          else if unat (x - buf) < length ?ds + length ([] :: u8 list) then [] ! (unat (x - buf) - length ?ds)
          else if unat (x - buf) = length ?ds + length ([] :: u8 list) then 0 else m x)"
  proof
    fix x
    have u: "uint (x - buf) = int (unat (x - buf))" by simp
    have ul: "uint (x - buf) < int k \<longleftrightarrow> unat (x - buf) < k" for k by (simp only: u of_nat_less_iff)
    have "x = at buf (int (length ?ds)) \<longleftrightarrow> unat (x - buf) = length ?ds"
      using at_eq_iff [of "int (length ?ds)" x buf] len unfolding u by (simp del: of_nat_unat)
    then show "(m'(at buf (int (length ?ds)) := 0)) x = (if unat (x - buf) < length ?ds then m' x
          else if unat (x - buf) < length ?ds + length ([] :: u8 list) then [] ! (unat (x - buf) - length ?ds)
          else if unat (x - buf) = length ?ds + length ([] :: u8 list) then 0 else m x)"
      by (auto simp: m'_def ul)
  qed
  have lt: "length ?ds < 2 ^ 20" using len by simp
  from digit_text_cstr [OF b lt _ _ nn m'_def m2] obtain m3 where
    m3: "reversed buf (m'(at buf (int (length ?ds)) := 0)) = Inr m3"
      "cstr m3 buf (map (\<lambda>d. digit_char (int d) caps) (rev ?ds))"
      "\<forall>x. length ?ds < unat (x - buf) \<longrightarrow> m3 x = m x" by auto
  from m3 show ?thesis
    using False nn n0 loop by (auto simp: uitoa_def num_text_def buffer_only_def Let_def)
qed

lemma sint_neg: "sint (w :: u64) \<noteq> - (2 ^ 63) \<Longrightarrow> sint (- w) = - sint w"
proof -
  assume w: "sint w \<noteq> - (2 ^ 63)"
  have r: "- (2 ^ 63) \<le> sint w" "sint w < 2 ^ 63"
    using sint_greater_eq [of w] sint_lt [of w] by simp_all
  have "sint (- w) = sint (word_of_int (- sint w) :: u64)" by simp
  also have "\<dots> = signed_take_bit 63 (- sint w)" by (simp only: signed_of_int) simp
  also have "\<dots> = - sint w" using w r by (simp add: signed_take_bit_int_eq_self_iff)
  finally show ?thesis .
qed

lemma itoa_spec:
  assumes nn: "buf \<noteq> NULL" and min: "sint num \<noteq> - (2 ^ 63)"
  shows "\<exists>m'. itoa num buf 10 False m = Inr m' \<and> cstr m' buf (int_text num) \<and> length (int_text num) \<le> 20 \<and>
     buffer_only buf (length (int_text num)) m m'"
proof (cases "num = 0")
  case True
  have "1 < unat (x - buf) \<Longrightarrow> (m(at buf 0 := 48, at buf 1 := 0)) x = m x" for x
    by (auto simp: at_def)
  with True nn zero_text [OF nn] show ?thesis
    by (auto simp: itoa_def num_text_def int_text_def buffer_only_def)
next
  case False
  define neg where "neg \<longleftrightarrow> sint num < 0"
  define n where "n = nat \<bar>sint num\<bar>"
  define ls :: "u8 list" where "ls = (if neg then [45] else [])"
  let ?ds = "digits 10 n"
  have "sint num \<noteq> 0" using False by (metis signed_eq_0_iff)
  then have n0: "n \<noteq> 0" by (simp add: n_def)
  have "sint num < 2 ^ 63" "- (2 ^ 63) \<le> sint num"
    using sint_lt [of num] sint_greater_eq [of num] by simp_all
  then have "n < 10 ^ 19" by (simp add: n_def)
  then have len: "length ?ds \<le> 19" by (intro length_digits) simp_all
  have abs: "sint (if neg then num * (- 1) else num) = int n"
    using sint_neg [OF min] by (simp add: neg_def n_def)
  define m' where "m' = (\<lambda>x. if uint (x - buf) < int (length ?ds)
          then digit_char (int (?ds ! nat (uint (x - buf)))) False else m x)"
  have loop: "digit_loop (sint (if neg then num * (- 1) else num)) 10 False buf 0 m = (int (length ?ds), m')"
    unfolding abs using digit_loop_eq [of 10 0 n False buf m] len by (simp add: m'_def cong: if_cong)
  define m1 where "m1 = (if neg then m'(at buf (int (length ?ds)) := 45) else m')"
  have m2: "m1(at buf (int (length ?ds + length ls)) := 0) = (\<lambda>x. if unat (x - buf) < length ?ds then m' x
          else if unat (x - buf) < length ?ds + length ls then ls ! (unat (x - buf) - length ?ds)
          else if unat (x - buf) = length ?ds + length ls then 0 else m x)"
  proof
    fix x
    have u: "uint (x - buf) = int (unat (x - buf))" by simp
    have ul: "uint (x - buf) < int k \<longleftrightarrow> unat (x - buf) < k" for k by (simp only: u of_nat_less_iff)
    have "x = at buf (int k) \<longleftrightarrow> unat (x - buf) = k" if "k < 100" for k
      using at_eq_iff [of "int k" x buf] that unfolding u by (simp del: of_nat_unat)
    from this [of "length ?ds"] this [of "length ?ds + length ls"] len
    show "(m1(at buf (int (length ?ds + length ls)) := 0)) x = (if unat (x - buf) < length ?ds then m' x
          else if unat (x - buf) < length ?ds + length ls then ls ! (unat (x - buf) - length ?ds)
          else if unat (x - buf) = length ?ds + length ls then 0 else m x)"
      by (auto simp: m1_def m'_def ls_def ul)
  qed
  have lt: "length ?ds < 2 ^ 20" using len by simp
  have ls: "length ls < 2 ^ 20" "0 \<notin> set ls" by (simp_all add: ls_def)
  from digit_text_cstr [OF _ _ lt ls nn m'_def m2] obtain m3 where
    m3: "reversed buf (m1(at buf (int (length ?ds + length ls)) := 0)) = Inr m3"
      "cstr m3 buf (rev ls @ map (\<lambda>d. digit_char (int d) False) (rev ?ds))"
      "\<forall>x. length ?ds + length ls < unat (x - buf) \<longrightarrow> m3 x = m x" by auto
  have text': "int_text num = rev ls @ map (\<lambda>d. digit_char (int d) False) (rev ?ds)"
    using n0 by (auto simp: int_text_def num_text_def ls_def neg_def n_def)
  have "itoa num buf 10 False m = Inr m3"
    using False nn loop m3(1) by (auto simp: itoa_def Let_def neg_def [symmetric] m1_def ls_def)
  moreover have "length (int_text num) = length ?ds + length ls" unfolding text' by simp
  ultimately show ?thesis
    using m3(2,3) len unfolding text' by (auto simp: buffer_only_def ls_def)
qed

section \<open>Saying something\<close>

text \<open>
  \<open>says st s out s'\<close>: from \<open>s\<close> to \<open>s'\<close> the characters \<open>out\<close> went to the screen, and nothing else
  changed but the 24 bytes at \<open>st\<close>, where the local buffers live.
\<close>

definition says :: "u64 \<Rightarrow> 'a vga_state_scheme \<Rightarrow> u8 list \<Rightarrow> 'a vga_state_scheme \<Rightarrow> bool" where
  "says st s out s' \<longleftrightarrow>
     terminal_of s' = fold (term_put (color s)) out (terminal_of s) \<and> vga_ok s' \<and>
     color s' = color s \<and> vg_if s' = vg_if s \<and> vg_vga s' = vg_vga s \<and>
     (\<forall>x. \<not> on_screen s x \<longrightarrow> 24 \<le> unat (x - st) \<longrightarrow> vg_mem s' x = vg_mem s x)"

lemma says_refl: "vga_ok s \<Longrightarrow> says st s [] s"
  by (simp add: says_def)

lemma says_trans: "says st s xs s1 \<Longrightarrow> says st s1 ys s2 \<Longrightarrow> says st s (xs @ ys) s2"
  by (auto simp: says_def on_screen_def)

text \<open>The stack frame is apart from the screen.\<close>

definition frame_ok :: "u64 \<Rightarrow> 'a vga_state_scheme \<Rightarrow> bool" where
  "frame_ok st s \<longleftrightarrow> st \<noteq> NULL \<and> st + 2 \<noteq> NULL \<and> (\<forall>x. unat (x - st) < 24 \<longrightarrow> \<not> on_screen s x)"

lemma frame_ok_says: "says st s out s' \<Longrightarrow> frame_ok st s' = frame_ok st s"
  by (simp add: frame_ok_def says_def on_screen_def)

lemma says_ok: "says st s out s' \<Longrightarrow> vga_ok s'"
  by (simp add: says_def)

lemma in_frame: "k < 24 \<Longrightarrow> unat (st + of_nat k - st) < 24" for st :: u64
  using unat_of_nat64 [of k] by simp

text \<open>A write to the stack frame is not seen on the screen.\<close>

lemma frame_write:
  assumes ok: "vga_ok s" and fr: "frame_ok st s" and only: "buffer_only st 23 (vg_mem s) m'"
  shows "terminal_of (s\<lparr>vg_mem := m'\<rparr>) = terminal_of s" "color (s\<lparr>vg_mem := m'\<rparr>) = color s"
    "vga_ok (s\<lparr>vg_mem := m'\<rparr>)" "on_screen (s\<lparr>vg_mem := m'\<rparr>) = on_screen s"
proof -
  have scr: "cell m' (vg_vga s) i = cell (vg_mem s) (vg_vga s) i" if i: "i < 2000" for i
  proof -
    have "m' (vg_vga s + of_nat k) = vg_mem s (vg_vga s + of_nat k)" if k: "k < 4000" for k
    proof -
      have "unat (of_nat k :: u64) = k" using k by (intro unat_of_nat64) simp
      then have "on_screen s (vg_vga s + of_nat k)" using k by (simp add: on_screen_def word_less_nat_alt)
      then have "\<not> unat (vg_vga s + of_nat k - st) < 24" using fr by (auto simp: frame_ok_def)
      then show ?thesis using only by (simp add: buffer_only_def)
    qed
    from this [of "2 * i"] this [of "2 * i + 1"] i show ?thesis unfolding cell_bytes by simp
  qed
  then show "terminal_of (s\<lparr>vg_mem := m'\<rparr>) = terminal_of s" "color (s\<lparr>vg_mem := m'\<rparr>) = color s"
    "vga_ok (s\<lparr>vg_mem := m'\<rparr>)" "on_screen (s\<lparr>vg_mem := m'\<rparr>) = on_screen s"
    using ok by (simp_all add: terminal_of_def screen_def color_def vga_ok_def on_screen_def fun_eq_iff)
qed

lemma print_buffer:
  assumes ok: "vga_ok s" and fr: "frame_ok st s" and str: "cstr m' st xs"
    and only: "buffer_only st 23 (vg_mem s) m'"
  shows "says st s (take 20 xs) (print st FORMAT_BUFF (s\<lparr>vg_mem := m'\<rparr>))"
proof -
  let ?s = "s\<lparr>vg_mem := m'\<rparr>"
  note t = frame_write [OF ok fr only]
  have n: "nat FORMAT_BUFF = 20" by (simp add: FORMAT_BUFF_def)
  have off: "\<And>k. k < nat FORMAT_BUFF \<Longrightarrow> \<not> on_screen ?s (st + of_nat k)"
    using fr in_frame by (auto simp: t frame_ok_def n)
  have nn: "st \<noteq> NULL" using fr by (simp add: frame_ok_def)
  note d = display_str_spec [where len = FORMAT_BUFF, OF t(3) nn off]
  have m: "vg_mem (print st FORMAT_BUFF ?s) x = vg_mem s x" if "\<not> on_screen s x" "24 \<le> unat (x - st)" for x
    using d(6) [where x = x] that only by (simp add: print_def t buffer_only_def)
  show ?thesis
    unfolding says_def using d(1-5) m shown_cstr [OF str] by (simp add: print_def t n)
qed

lemma print_char_says:
  assumes "vga_ok s" and "frame_ok st s"
  shows "says st s (if c = 0 then [] else [c]) (print_char st c s)"
proof -
  let ?s = "s\<lparr>vg_mem := (vg_mem s)(st := c)\<rparr>"
  have b: "buffer_only st 23 (vg_mem s) ((vg_mem s)(st := c))" by (simp add: buffer_only_def)
  note t = frame_write [OF assms b]
  have nn: "st \<noteq> NULL" using assms(2) by (simp add: frame_ok_def)
  have off: "\<And>k. k < nat 1 \<Longrightarrow> \<not> on_screen ?s (st + of_nat k)"
    using assms(2) in_frame [of 0] by (auto simp: t frame_ok_def)
  note d = display_str_spec [where len = 1, OF t(3) nn off]
  have m: "vg_mem (print st 1 ?s) x = vg_mem s x" if "\<not> on_screen s x" "24 \<le> unat (x - st)" for x
    using d(6) [where x = x] that by (auto simp: print_def t)
  have "shown (vg_mem ?s) st 0 1 = (if c = 0 then [] else [c])" by (simp add: shown_def)
  then show ?thesis
    unfolding says_def print_char_def using d(1-5) m by (simp add: print_def t)
qed

text \<open>A string in memory that printing does not touch.\<close>

definition fixed_str :: "u64 \<Rightarrow> 'a vga_state_scheme \<Rightarrow> u64 \<Rightarrow> u8 list \<Rightarrow> bool" where
  "fixed_str st s p xs \<longleftrightarrow> cstr (vg_mem s) p xs \<and> length xs < 2 ^ 31 \<and>
     (\<forall>k \<le> length xs. p + of_nat k \<noteq> NULL \<and> \<not> on_screen s (p + of_nat k) \<and> 24 \<le> unat (p + of_nat k - st))"

lemma fixed_str_says: "says st s out s' \<Longrightarrow> fixed_str st s p xs \<Longrightarrow> fixed_str st s' p xs"
  by (auto simp: fixed_str_def says_def on_screen_def cstr_iff)

lemma fixed_strD:
  assumes "fixed_str st s p xs" and "k \<le> length xs"
  shows "cstr (vg_mem s) (p + of_nat k) (drop k xs)" "p + of_nat k \<noteq> NULL"
    and "\<not> on_screen s (p + of_nat k)" "vg_mem s (p + of_nat k) = (if k < length xs then xs ! k else 0)"
  using assms
  by (auto simp: fixed_str_def cstr_iff add.assoc simp flip: of_nat_add dest: in_set_dropD)

lemma print_part_says:
  assumes "vga_ok s" and str: "fixed_str st s p xs" and k: "k \<le> e" "e \<le> length xs"
  shows "says st s (drop k (take e xs)) (print (p + of_nat k) (int e - int k) s)"
proof -
  note f = fixed_strD [OF str]
  have kl: "k \<le> length xs" using k by simp
  have n: "nat (int e - int k) = e - k" by simp
  have off: "\<not> on_screen s (p + of_nat k + of_nat j)" if "j < nat (int e - int k)" for j
    using f(3) [of "k + j"] that k by (simp add: n add.assoc)
  note d = display_str_spec [where len = "int e - int k", OF assms(1) f(2) [OF kl] off]
  have "take (e - k) (drop k xs) = drop k (take e xs)" by (simp add: drop_take)
  then show ?thesis
    unfolding says_def using d shown_cstr [OF f(1) [OF kl]] by (simp add: print_def n)
qed

section \<open>The arguments\<close>

text \<open>What a conversion shows; \<open>strs\<close> gives the strings that pointers stand for.\<close>

definition arg_out :: "(u64 \<Rightarrow> u8 list option) \<Rightarrow> u8 \<Rightarrow> u8 \<Rightarrow> u64 \<Rightarrow> u8 list option" where
  "arg_out strs l f a =
     (if f = 100 then
        (if sint (signed_arg l a) = - (2 ^ 63) then None else Some (int_text (signed_arg l a)))
      else if f = 117 then Some (num_text 10 False (unat (unsigned_arg l a)))
      else if f = 120 then Some (num_text 16 False (unat (unsigned_arg l a)))
      else if f = 88 then Some (num_text 16 True (unat (unsigned_arg l a)))
      else if f = 99 then Some (if ucast a = (0 :: u8) then [] else [ucast a])
      else if f = 112 then Some (48 # 120 # num_text 16 False (unat a))
      else if a = NULL then Some [] else strs a)"

lemma buffer_only_mono: "buffer_only st k m m' \<Longrightarrow> k \<le> j \<Longrightarrow> buffer_only st j m m'"
  by (simp add: buffer_only_def)

lemma print_int_says:
  assumes "vga_ok s" and "frame_ok st s" and "sint i \<noteq> - (2 ^ 63)"
  shows "\<exists>s'. print_int st i s = Inr s' \<and> says st s (int_text i) s'"
proof -
  from itoa_spec [OF _ assms(3), of st "vg_mem s"] assms(2) obtain m' where
    m: "itoa i st 10 False (vg_mem s) = Inr m'" "cstr m' st (int_text i)" "length (int_text i) \<le> 20"
      "buffer_only st (length (int_text i)) (vg_mem s) m'" by (auto simp: frame_ok_def)
  from print_buffer [OF assms(1,2) m(2) buffer_only_mono [OF m(4)]] m(1,3) show ?thesis
    by (simp add: print_int_def)
qed

lemma print_unsigned_says:
  assumes "vga_ok s" and "frame_ok st s" and b: "b = 10 \<or> b = 16"
  shows "\<exists>m'. uitoa u st (int b) caps (vg_mem s) = Inr m' \<and>
     says st s (num_text b caps (unat u)) (print st FORMAT_BUFF (s\<lparr>vg_mem := m'\<rparr>))"
proof -
  have len: "length (digits b (unat u)) \<le> 20" "2 \<le> b" "b \<le> 16" using b digits_lengths [of u] by auto
  then have tl: "length (num_text b caps (unat u)) \<le> 20" by (simp add: length_num_text)
  from uitoa_spec [OF len(2,3) _ len(1), of st caps "vg_mem s"] assms(2) obtain m' where
    m: "uitoa u st (int b) caps (vg_mem s) = Inr m'" "cstr m' st (num_text b caps (unat u))"
      "buffer_only st (length (num_text b caps (unat u))) (vg_mem s) m'" by (auto simp: frame_ok_def)
  from print_buffer [OF assms(1,2) m(2) buffer_only_mono [OF m(3)]] m(1) tl show ?thesis by simp
qed

lemma print_pointer_says:
  assumes "vga_ok s" and "frame_ok st s"
  shows "\<exists>s'. print_pointer st p s = Inr s' \<and> says st s (48 # 120 # num_text 16 False (unat p)) s'"
proof -
  let ?t = "num_text 16 False (unat p)"
  let ?m = "(vg_mem s)(st := 48, st + 1 := 120)"
  have len: "length (digits 16 (unat p)) \<le> 20" and tl: "length ?t \<le> 16"
    using digits_lengths(2) [of p] by (simp_all add: length_num_text)
  from uitoa_spec [OF _ _ _ len, of "st + 2" False ?m] assms(2) obtain m' where
    m: "uitoa p (st + 2) 16 False ?m = Inr m'" "cstr m' (st + 2) ?t" "buffer_only (st + 2) (length ?t) ?m m'"
    by (auto simp: frame_ok_def)
  have far: "x - (st + 2) = (x - st) - 2" for x by simp
  have "st - (st + 2) = 0xFFFFFFFFFFFFFFFE" "st + 1 - (st + 2) = 0xFFFFFFFFFFFFFFFF" by simp_all
  then have "unat (st - (st + 2)) = 2 ^ 64 - 2" "unat (st + 1 - (st + 2)) = 2 ^ 64 - 1" by (simp_all only:) simp_all
  then have "m' st = ?m st" "m' (st + 1) = ?m (st + 1)"
    using m(3) tl unfolding buffer_only_def by (auto simp del: fun_upd_apply)
  then have "cstr m' st (48 # 120 # ?t)" using m(2) by (simp add: add.assoc)
  moreover have "buffer_only st 23 (vg_mem s) m'"
    unfolding buffer_only_def
  proof (intro allI impI)
    fix x assume x: "23 < unat (x - st)"
    have "2 \<le> x - st" using x by (simp add: word_le_nat_alt)
    then have "unat (x - (st + 2)) = unat (x - st) - 2" unfolding far by (simp add: unat_sub)
    then have "length ?t < unat (x - (st + 2))" using x tl by linarith
    then have "m' x = ?m x" using m(3) by (simp add: buffer_only_def)
    then show "m' x = vg_mem s x" using x by auto
  qed
  ultimately have "says st s (take 20 (48 # 120 # ?t)) (print st FORMAT_BUFF (s\<lparr>vg_mem := m'\<rparr>))"
    by (intro print_buffer assms)
  then show ?thesis using m(1) tl by (simp add: print_pointer_def)
qed

lemma print_str_says:
  assumes "vga_ok s" and "a = NULL \<and> xs = [] \<or> fixed_str st s a xs"
  shows "\<exists>s'. print_str a s = Inr s' \<and> says st s xs s'"
proof (cases "a = NULL")
  case True
  then have "xs = []" using assms(2) fixed_strD(2) [of st s a xs 0] by auto
  with True assms(1) show ?thesis
    by (simp add: print_str_def print_def VGA_display_str_def strlen_def says_refl)
next
  case False
  then have f: "fixed_str st s a xs" using assms(2) by simp
  have "strlen (vg_mem s) a = Some (of_nat (length xs))"
    using fixed_strD(1) [OF f, of 0] False by (intro strlen_cstr) simp_all
  moreover have "sint (ucast (of_nat (length xs) :: u64) :: u32) = int (length xs)"
    using f by (intro int_of_small) (simp add: fixed_str_def)
  ultimately show ?thesis
    using print_part_says [OF assms(1) f, of 0 "length xs"] by (simp add: print_str_def)
qed

lemma print_arg_says:
  assumes "vga_ok s" and "frame_ok st s" and "arg_out strs l f a = Some xs" and "f \<noteq> 37"
    and "\<And>p ys. strs p = Some ys \<Longrightarrow> fixed_str st s p ys"
  shows "\<exists>s'. print_arg st \<lparr>fi_length = n, fi_length_spec = l, fi_format_spec = f\<rparr> (a # as) s = Inr (as, s') \<and>
    says st s xs s'"
proof -
  note simps = print_arg_def arg_out_def Let_def
  consider "f = 100" | "f = 117" | "f = 120" | "f = 88" | "f = 99" | "f = 112"
    | "f \<notin> {37, 100, 117, 120, 88, 99, 112}" using assms(4) by auto
  then show ?thesis
  proof cases
    case 1
    with assms(3) print_int_says [OF assms(1,2), of "signed_arg l a"] show ?thesis
      by (auto simp: simps split: if_splits)
  next
    case 2
    with assms(3) print_unsigned_says [OF assms(1,2), of 10 "unsigned_arg l a" False] show ?thesis
      by (auto simp: simps print_uint_def)
  next
    case 3
    with assms(3) print_unsigned_says [OF assms(1,2), of 16 "unsigned_arg l a" False] show ?thesis
      by (auto simp: simps print_hex_def)
  next
    case 4
    with assms(3) print_unsigned_says [OF assms(1,2), of 16 "unsigned_arg l a" True] show ?thesis
      by (auto simp: simps print_hex_def)
  next
    case 5
    with assms(3) print_char_says [OF assms(1,2), of "ucast a"] show ?thesis
      by (auto simp: simps)
  next
    case 6
    with assms(3) print_pointer_says [OF assms(1,2), of a] show ?thesis
      by (auto simp: simps)
  next
    case 7
    then have "a = NULL \<and> xs = [] \<or> fixed_str st s a xs"
      using assms(3,5) by (auto simp: arg_out_def split: if_splits)
    from print_str_says [OF assms(1) this] 7 show ?thesis by (auto simp: simps)
  qed
qed

section \<open>The format string\<close>

text \<open>
  What a format string says: \<open>conv\<close> reads the conversion after a percent sign (its length, its
  length character and its conversion character), and \<open>fmt_out\<close> the characters that go to the
  screen, undefined where an argument is missing or names no string.
\<close>

definition conv :: "u8 list \<Rightarrow> (nat \<times> u8 \<times> u8) option" where
  "conv cs =
     (case cs of [] \<Rightarrow> None
      | c # cs' \<Rightarrow>
          if c \<in> set length_chars then
            (case cs' of [] \<Rightarrow> None | f # _ \<Rightarrow> if f \<in> set long_chars then Some (3, c, f) else None)
          else if c \<in> set format_chars then Some (2, 0, c) else None)"

function fmt_out :: "(u64 \<Rightarrow> u8 list option) \<Rightarrow> u8 list \<Rightarrow> u64 list \<Rightarrow> u8 list option" where
  "fmt_out strs [] as = Some []"
| "fmt_out strs (c # cs) as =
     (case (if c = 37 then conv cs else None) of
        None \<Rightarrow> map_option ((#) c) (fmt_out strs cs as)
      | Some (n, l, f) \<Rightarrow>
          if f = 37 then map_option ((#) 37) (fmt_out strs (drop (n - 1) cs) as)
          else (case as of [] \<Rightarrow> None
            | a # as' \<Rightarrow> (case arg_out strs l f a of None \<Rightarrow> None
                | Some xs \<Rightarrow> map_option ((@) xs) (fmt_out strs (drop (n - 1) cs) as'))))"
  by pat_completeness auto
termination by (relation "measure (\<lambda>(strs, cs, as). length cs)") auto

declare fmt_out.simps(2) [simp del]

lemma conv_bounds: "conv cs = Some (n, l, f) \<Longrightarrow> (n = 2 \<or> n = 3) \<and> n - 1 \<le> length cs"
  by (auto simp: conv_def split: list.splits if_splits)

lemma check_conv:
  assumes c: "cstr m p (c # cs)"
  shows "check_format_spec m p \<lparr>fi_length = 0, fi_length_spec = 0, fi_format_spec = 0\<rparr> = r \<Longrightarrow>
    (case (if c = 37 then conv cs else None) of
       None \<Rightarrow> \<not> fst r
     | Some (n, l, f) \<Rightarrow>
         r = (True, \<lparr>fi_length = of_nat n, fi_length_spec = l, fi_format_spec = f\<rparr>))"
proof -
  assume r: "check_format_spec m p \<lparr>fi_length = 0, fi_length_spec = 0, fi_format_spec = 0\<rparr> = r"
  have lc: "x \<in> set length_chars \<Longrightarrow> x \<noteq> 0" for x by (auto simp: length_chars_def)
  have z: "(0 :: u8) \<notin> set length_chars" "(0 :: u8) \<notin> set long_chars" "(0 :: u8) \<notin> set format_chars"
    by (simp_all add: length_chars_def long_chars_def format_chars_def)
  show ?thesis
  proof (cases "c = 37")
    case True
    show ?thesis
    proof (cases cs)
      case Nil
      with c True r z show ?thesis by (auto simp: check_format_spec_def conv_def)
    next
      case (Cons d ds)
      show ?thesis
      proof (cases "d \<in> set length_chars")
        case d: True
        show ?thesis
        proof (cases ds)
          case Nil
          with c True r z Cons d lc [OF d] show ?thesis by (auto simp: check_format_spec_def conv_def add.assoc)
        next
          case (Cons e es)
          with c True r z \<open>cs = d # ds\<close> d lc [OF d] show ?thesis
            by (auto simp: check_format_spec_def conv_def add.assoc)
        qed
      next
        case False
        with c True r z Cons show ?thesis by (auto simp: check_format_spec_def conv_def)
      qed
    qed
  next
    case False
    with c r show ?thesis by (auto simp: check_format_spec_def)
  qed
qed

lemma print_loop_says:
  assumes "vga_ok s" and "frame_ok st s" and "fixed_str st s fmt xs"
    and "\<And>p ys. strs p = Some ys \<Longrightarrow> fixed_str st s p ys"
    and "k \<le> e" and "e \<le> length xs" and "fmt_out strs (drop e xs) as = Some out"
  shows "\<exists>as' s'. print_loop st fmt (int k) (int e) as s = Some (Inr (as', s')) \<and>
     says st s (drop k (take e xs) @ out) s'"
  using assms
proof (induction "length xs - e" arbitrary: k e as s out rule: less_induct)
  case less
  note ok = less.prems(1) and fr = less.prems(2) and str = less.prems(3) and strs = less.prems(4)
  note f = fixed_strD [OF str]
  let ?i = "\<lparr>fi_length = 0, fi_length_spec = 0, fi_format_spec = 0\<rparr>"
  define r where "r = check_format_spec (vg_mem s) (fmt + of_nat e) ?i"
  define s1 where "s1 = print_strn (fmt + of_nat k) (int e - int k) s"
  have s1: "says st s (drop k (take e xs)) s1"
    unfolding s1_def print_strn_def by (rule print_part_says [OF ok str less.prems(5,6)])
  show ?case
  proof (cases "e = length xs")
    case True
    then have z: "vg_mem s (fmt + of_nat e) = 0" using f(4) [of e] by simp
    then have r: "fst r = False" by (simp add: r_def check_format_spec_def)
    have z1: "vg_mem s1 (fmt + of_nat e) = 0"
      using fixed_strD(4) [OF fixed_str_says [OF s1 str], of e] True by simp
    have "print_loop st fmt (int k) (int e) as s = Some (Inr (as, s1))"
      using z r z1 by (subst print_loop.simps) (simp add: at_nat Let_def r_def [symmetric] s1_def split_beta)
    moreover have "out = []" using less.prems(7) True by simp
    ultimately show ?thesis using s1 by auto
  next
    case False
    then have e: "e < length xs" using less.prems(6) by simp
    define c where "c = xs ! e"
    define cs where "cs = drop (Suc e) xs"
    have dr: "drop e xs = c # cs" using e by (simp add: c_def cs_def Cons_nth_drop_Suc)
    have cc: "cstr (vg_mem s) (fmt + of_nat e) (c # cs)" using f(1) [of e] e by (simp add: dr)
    then have c0: "vg_mem s (fmt + of_nat e) \<noteq> 0" by auto
    note ck = check_conv [OF cc, of r, OF r_def [symmetric]]
    show ?thesis
    proof (cases "if c = 37 then conv cs else None")
      case None
      with ck have r: "fst r = False" by simp
      have l: "print_loop st fmt (int k) (int e) as s = print_loop st fmt (int k) (int (Suc e)) as s"
        using c0 r by (subst print_loop.simps) (simp add: at_nat Let_def r_def [symmetric] split_beta add.commute)
      obtain out' where o': "fmt_out strs (drop (Suc e) xs) as = Some out'" "out = c # out'"
        using less.prems(7) None unfolding dr fmt_out.simps(2) by (auto simp: cs_def)
      have "drop k (take (Suc e) xs) = drop k (take e xs) @ [c]"
        using e less.prems(5) by (simp add: take_Suc_conv_app_nth c_def)
      with less.hyps [of "Suc e" s k as out'] ok fr str strs less.prems(5) e o' l show ?thesis by auto
    next
      case (Some nlf)
      then obtain n l g where cv: "c = 37" "conv cs = Some (n, l, g)" by (cases nlf) (auto split: if_splits)
      have n: "n = 2 \<or> n = 3" "n - 1 \<le> length cs" using conv_bounds [OF cv(2)] by auto
      have r: "r = (True, \<lparr>fi_length = of_nat n, fi_length_spec = l, fi_format_spec = g\<rparr>)"
        using ck cv by simp
      have dn: "drop (n - Suc 0) cs = drop (e + n) xs" "e + n \<le> length xs" "e < e + n"
        using n e by (auto simp: cs_def add.commute eval_nat_numeral)
      have ok1: "vga_ok s1" "frame_ok st s1" using says_ok [OF s1] frame_ok_says [OF s1] fr by auto
      have strs1: "strs p = Some ys \<Longrightarrow> fixed_str st s1 p ys" for p ys
        using fixed_str_says [OF s1 strs] .
      have "\<exists>as1 s2 xs2 out2. print_arg st (snd r) as s1 = Inr (as1, s2) \<and> says st s1 xs2 s2 \<and>
          fmt_out strs (drop (e + n) xs) as1 = Some out2 \<and> out = xs2 @ out2"
      proof (cases "g = 37")
        case True
        have "print_arg st (snd r) as s1 = Inr (as, print_char st 37 s1)"
          using True by (simp add: r print_arg_def Let_def)
        moreover obtain out2 where "fmt_out strs (drop (e + n) xs) as = Some out2" "out = 37 # out2"
          using less.prems(7) cv True unfolding dr fmt_out.simps(2) by (auto simp: dn)
        ultimately show ?thesis
          using print_char_says [OF ok1, of 37]
          by (intro exI [of _ as] exI [of _ "print_char st 37 s1"] exI [of _ "[37]"] exI [of _ out2]) simp
      next
        case False
        with less.prems(7) cv obtain a as1 xs2 out2 where
          a: "as = a # as1" "arg_out strs l g a = Some xs2" "fmt_out strs (drop (e + n) xs) as1 = Some out2"
            "out = xs2 @ out2"
          unfolding dr fmt_out.simps(2) by (auto simp: dn split: list.splits option.splits)
        from print_arg_says [OF ok1 a(2) False strs1, of "of_nat n" as1] a show ?thesis
          unfolding r by auto
      qed
      then obtain as1 s2 xs2 out2 where
        p: "print_arg st (snd r) as s1 = Inr (as1, s2)" and s2: "says st s1 xs2 s2"
        and o2: "fmt_out strs (drop (e + n) xs) as1 = Some out2" "out = xs2 @ out2" by blast
      note s12 = says_trans [OF s1 s2]
      have ok2: "vga_ok s2" "frame_ok st s2" using says_ok [OF s12] frame_ok_says [OF s12] fr by auto
      have str2: "fixed_str st s2 fmt xs" by (rule fixed_str_says [OF s12 str])
      have strs2: "strs p = Some ys \<Longrightarrow> fixed_str st s2 p ys" for p ys
        using fixed_str_says [OF s12 strs] .
      have un: "uint (of_nat n :: u8) = int n" using n(1) by auto
      have nz: "vg_mem s2 (fmt + of_nat (e + n - 1)) \<noteq> 0"
      proof -
        have "e + n - 1 < length xs" using dn n(1) by auto
        with fixed_strD(1,4) [OF str2, of "e + n - 1"] str2 show ?thesis
          by (auto simp: fixed_str_def cstr_iff in_set_conv_nth)
      qed
      have idx: "int e + int n - 1 = int (e + n - Suc 0)" "int (e + n - Suc 0) + 1 = int (e + n)"
        "int e + int n = int (e + n)" "int (e + n) - 1 = int (e + n - Suc 0)" using n(1) by auto
      have "print_loop st fmt (int k) (int e) as s = print_loop st fmt (int (e + n)) (int (e + n)) as1 s2"
        using c0 nz p n(1) r un
        by (subst print_loop.simps)
          (simp add: at_nat Let_def r_def [symmetric] s1_def [symmetric] split_beta idx del: of_nat_add of_nat_diff)
      moreover have "length xs - (e + n) < length xs - e" using dn(2,3) by linarith
      then obtain as' s' where
        "print_loop st fmt (int (e + n)) (int (e + n)) as1 s2 = Some (Inr (as', s'))"
        "says st s2 (drop (e + n) (take (e + n) xs) @ out2) s'"
        using less.hyps [of "e + n" s2 "e + n" as1 out2] ok2 str2 strs2 dn e o2(1) by auto
      ultimately show ?thesis using says_trans [OF s12, of out2 s'] o2(2) by auto
    qed
  qed
qed

section \<open>Properties\<close>

text \<open>
  C15: Printing a format string ends and shows exactly the text it stands for: the literal
  characters, and each conversion's argument, in order; apart from the screen and the stack
  frame of the call no byte changes, the cursor stays on the screen and the interrupt flag is
  what it was.
\<close>

theorem printk_shows_format:
  assumes "vga_ok s" and "frame_ok st s" and "fixed_str st s fmt xs"
    and "\<forall>p ys. strs p = Some ys \<longrightarrow> fixed_str st s p ys" and "fmt_out strs xs valist = Some out"
  shows "\<exists>s'. printk st fmt valist s = Inr (1, s') \<and>
     terminal_of s' = fold (term_put (color s)) out (terminal_of s) \<and> vga_ok s' \<and> vg_if s' = vg_if s \<and>
     (\<forall>x. \<not> on_screen s x \<longrightarrow> 24 \<le> unat (x - st) \<longrightarrow> vg_mem s' x = vg_mem s x)"
proof -
  have "strs p = Some ys \<Longrightarrow> fixed_str st s p ys" for p ys using assms(4) by blast
  from print_loop_says [where strs = strs and k = 0 and e = 0 and as = valist and out = out, OF assms(1-3) this] assms(5) obtain as' s' where
    "print_loop st fmt 0 0 valist s = Some (Inr (as', s'))" "says st s out s'" by auto
  moreover have "fmt \<noteq> NULL" using fixed_strD(2) [OF assms(3), of 0] by simp
  ultimately show ?thesis by (auto simp: printk_def print_backend_def says_def)
qed

text \<open>The format \<^verbatim>\<open>a%ux\<close> at address 16, a stack frame at 4096 and the screen at its address.\<close>

definition printk_example :: vga_state where
  "printk_example = vga_example\<lparr>vg_cursor := 5, vg_mem := (\<lambda>a. if a = 16 then 97 else if a = 17 then 37
     else if a = 18 then 117 else if a = 19 then 120 else 0)\<rparr>"

lemma printk_example_fixed: "fixed_str 4096 printk_example 16 [97, 37, 117, 120]"
proof -
  have "16 + of_nat k \<noteq> (0 :: u64) \<and> \<not> on_screen printk_example (16 + of_nat k) \<and> 24 \<le> unat (16 + of_nat k - 4096 :: u64)"
    if "k \<le> 4" for k
  proof -
    from that have "k = 0 \<or> k = 1 \<or> k = 2 \<or> k = 3 \<or> k = 4" by linarith
    then show ?thesis
      by (auto simp: on_screen_def printk_example_def vga_example_def VGA_ADDR_def)
  qed
  then show ?thesis by (simp add: fixed_str_def) (simp add: printk_example_def)
qed

lemma printk_example_frame: "vga_ok printk_example" "frame_ok 4096 printk_example"
proof -
  show "vga_ok printk_example"
    by (simp add: vga_ok_def printk_example_def vga_example_def VGA_ADDR_def)
  have "\<not> on_screen printk_example x" if "unat (x - 4096) < 24" for x
  proof -
    have "unat (4096 + (x - 4096)) = unat (4096 :: u64) + unat (x - 4096)"
      using that by (subst unat_word_ariths) simp
    then have "unat x < 0xB8000" using that by simp
    then show ?thesis
      using below_screen [of x] by (simp add: on_screen_def printk_example_def vga_example_def VGA_ADDR_def)
  qed
  then show "frame_ok 4096 printk_example" by (simp add: frame_ok_def)
qed

theorem printk_shows_format_witness:
  "\<exists>s'. printk 4096 16 [1234] printk_example = Inr (1, s') \<and> snd (terminal_of s') = 11"
proof -
  have d: "digits 10 1234 = [4, 3, 2, 1]" by (simp add: digits.simps)
  have out: "fmt_out (\<lambda>_. None) [97, 37, 117, 120] [1234] = Some [97, 49, 50, 51, 52, 120]"
    by (simp add: fmt_out.simps(2) conv_def length_chars_def format_chars_def arg_out_def unsigned_arg_def
        num_text_def d digit_char_def)
  have t: "terminal_of printk_example = (screen printk_example, 5)"
    by (simp add: terminal_of_def printk_example_def)
  from printk_shows_format [OF printk_example_frame printk_example_fixed _ out] show ?thesis
    unfolding t by (auto simp: term_put_def Let_def)
qed

text \<open>
  The text \<^verbatim>\<open>uitoa\<close> writes is terminated and denotes the number again, in every base from 2
  to 16 for which it fits: reading the digits back gives the number that was converted. Nothing
  outside the text and its terminator changes.
\<close>

theorem uitoa_value:
  assumes "2 \<le> b" and "b \<le> 16" and "buf \<noteq> NULL" and "unat num < b ^ 20"
  shows "\<exists>m' cs. uitoa num buf (int b) caps m = Inr m' \<and> cstr m' buf cs \<and> num_value b cs = unat num \<and>
     length cs \<le> 20 \<and> (\<forall>x. length cs < unat (x - buf) \<longrightarrow> m' x = m x)"
proof -
  have len: "length (digits b (unat num)) \<le> 20" using assms by (intro length_digits)
  have "length (num_text b caps (unat num)) \<le> 20" using len assms(1) by (simp add: length_num_text)
  with uitoa_spec [OF assms(1-3) len, of caps m] num_value_text [OF assms(1,2), of caps "unat num"]
  show ?thesis unfolding buffer_only_def by blast
qed

theorem uitoa_value_witness:
  "\<exists>m' cs. uitoa 0xFFFFFFFFFFFFFFFF 4096 10 False (\<lambda>_. 0) = Inr m' \<and> cstr m' 4096 cs \<and>
     num_value 10 cs = 18446744073709551615"
  using uitoa_value [of 10 4096 "0xFFFFFFFFFFFFFFFF" False "\<lambda>_. 0"] by auto

end
