(* ===== verification/Proc_Queue.thy ===== *)
theory Proc_Queue
  imports Kernel_Prelude
begin

text \<open>
  Processes (\<^verbatim>\<open>include/proc.h\<close>) and the intrusive doubly linked queues of
  \<^verbatim>\<open>proc/proc_queue.c\<close>. The process structures live in a store from addresses to
  \<open>process\<close> records; a queue is the pair of its head and tail pointers. The queue operations
  take the store and return the updated one, so the aliasing between queues that share the
  store is visible.
\<close>

section \<open>Processes and the process store\<close>

record regfile =
  rf_rax :: u64  rf_rbx :: u64  rf_rcx :: u64  rf_rdx :: u64
  rf_rdi :: u64  rf_rsi :: u64  rf_r8 :: u64  rf_r9 :: u64
  rf_r10 :: u64  rf_r11 :: u64  rf_r12 :: u64  rf_r13 :: u64
  rf_r14 :: u64  rf_r15 :: u64
  rf_cs :: u16  rf_ss :: u16  rf_ds :: u16  rf_es :: u16  rf_fs :: u16  rf_gs :: u16
  rf_rbp :: u64  rf_rsp :: u64  rf_rip :: u64  rf_rflags :: u64

record process =
  p_regfile :: regfile
  p_pid :: u32
  p_stack_top :: u64
  p_next :: ptr
  p_prev :: ptr

type_synonym proc_heap = "ptr \<Rightarrow> process"

record proc_queue =
  q_head :: ptr
  q_tail :: ptr

definition set_next :: "ptr \<Rightarrow> ptr \<Rightarrow> proc_heap \<Rightarrow> proc_heap" where
  "set_next p v h = h(p := (h p)\<lparr>p_next := v\<rparr>)"

definition set_prev :: "ptr \<Rightarrow> ptr \<Rightarrow> proc_heap \<Rightarrow> proc_heap" where
  "set_prev p v h = h(p := (h p)\<lparr>p_prev := v\<rparr>)"

section \<open>Operations\<close>

definition PROC_init_queue :: "proc_queue \<Rightarrow> proc_queue" where
  "PROC_init_queue q = q\<lparr>q_head := NULL, q_tail := NULL\<rparr>"

definition remove_proc :: "ptr \<Rightarrow> proc_queue \<Rightarrow> proc_heap \<Rightarrow> proc_heap \<times> proc_queue" where
  "remove_proc proc queue h =
     (let prev = p_prev (h proc);
          nxt = p_next (h proc);
          h = (if prev \<noteq> NULL then set_next prev nxt h else h);
          h = (if nxt \<noteq> NULL then set_prev nxt prev h else h);
          queue = (if q_head queue = proc then queue\<lparr>q_head := nxt\<rparr> else queue);
          queue = (if q_tail queue = proc then queue\<lparr>q_tail := prev\<rparr> else queue);
          h = set_next proc NULL h;
          h = set_prev proc NULL h
      in (h, queue))"

definition append_proc :: "ptr \<Rightarrow> proc_queue \<Rightarrow> proc_heap \<Rightarrow> proc_heap \<times> proc_queue" where
  "append_proc proc queue h =
     (if q_head queue = NULL then (h, queue\<lparr>q_head := proc, q_tail := proc\<rparr>)
      else
        let h = set_next (q_tail queue) proc h;
            h = set_prev proc (q_tail queue) h
        in (h, queue\<lparr>q_tail := proc\<rparr>))"

definition pop_proc :: "proc_queue \<Rightarrow> proc_heap \<Rightarrow> ptr \<times> proc_heap \<times> proc_queue" where
  "pop_proc queue h =
     (if q_head queue = NULL then (NULL, h, queue)
      else
        let temp = q_head queue;
            (h, queue) =
              (if q_head queue = q_tail queue
               then (h, queue\<lparr>q_tail := NULL, q_head := NULL\<rparr>)
               else
                 let queue = queue\<lparr>q_head := p_next (h temp)\<rparr>
                 in (set_prev (q_head queue) NULL h, queue));
            h = set_next temp NULL h;
            h = set_prev temp NULL h
        in (temp, h, queue))"

section \<open>Doubly linked segments\<close>

text \<open>
  \<open>dseg h p xs n\<close>: the processes \<open>xs\<close> are linked in this order, the first one points back to
  \<open>p\<close> and the last one on to \<open>n\<close>.
\<close>

fun dseg :: "proc_heap \<Rightarrow> ptr \<Rightarrow> ptr list \<Rightarrow> ptr \<Rightarrow> bool" where
  "dseg h p [] n = True"
| "dseg h p (x # xs) n \<longleftrightarrow>
     p_prev (h x) = p \<and> p_next (h x) = (if xs = [] then n else hd xs) \<and> dseg h x xs n"

definition queue_repr :: "proc_heap \<Rightarrow> proc_queue \<Rightarrow> ptr list \<Rightarrow> bool" where
  "queue_repr h q xs \<longleftrightarrow>
     distinct xs \<and> NULL \<notin> set xs \<and> q_head q = hd0 xs \<and> q_tail q = last0 xs \<and> dseg h NULL xs NULL"

definition unlinked :: "proc_heap \<Rightarrow> ptr \<Rightarrow> bool" where
  "unlinked h p \<longleftrightarrow> p_next (h p) = NULL \<and> p_prev (h p) = NULL"

text \<open>The store changes only at the addresses in \<open>S\<close>, and there only in the two link fields.\<close>

definition links_only :: "proc_heap \<Rightarrow> proc_heap \<Rightarrow> ptr set \<Rightarrow> bool" where
  "links_only h h' S \<longleftrightarrow>
     (\<forall>z. z \<notin> S \<longrightarrow> h' z = h z) \<and>
     (\<forall>z. p_regfile (h' z) = p_regfile (h z) \<and> p_pid (h' z) = p_pid (h z) \<and>
          p_stack_top (h' z) = p_stack_top (h z))"

lemma set_next_simps [simp]:
  "p_next (set_next p v h z) = (if z = p then v else p_next (h z))"
  "p_prev (set_next p v h z) = p_prev (h z)"
  by (simp_all add: set_next_def)

lemma set_prev_simps [simp]:
  "p_prev (set_prev p v h z) = (if z = p then v else p_prev (h z))"
  "p_next (set_prev p v h z) = p_next (h z)"
  by (simp_all add: set_prev_def)

lemma links_only_set [simp]:
  "p \<in> S \<Longrightarrow> links_only h (set_next p v h) S" "p \<in> S \<Longrightarrow> links_only h (set_prev p v h) S"
  "links_only h h S"
  by (auto simp: links_only_def set_next_def set_prev_def)

lemma links_only_trans: "links_only h h1 S \<Longrightarrow> links_only h1 h2 T \<Longrightarrow> links_only h h2 (S \<union> T)"
  by (simp add: links_only_def)

lemma links_only_trans_same: "links_only h h1 S \<Longrightarrow> links_only h1 h2 S \<Longrightarrow> links_only h h2 S"
  by (simp add: links_only_def)

lemma links_only_mono: "links_only h h' S \<Longrightarrow> S \<subseteq> T \<Longrightarrow> links_only h h' T"
  by (auto simp: links_only_def)

lemma dseg_cong:
  "(\<And>x. x \<in> set xs \<Longrightarrow> p_next (h' x) = p_next (h x) \<and> p_prev (h' x) = p_prev (h x)) \<Longrightarrow>
   dseg h' p xs n = dseg h p xs n"
  by (induction xs arbitrary: p) auto

lemma dseg_append:
  "dseg h p (xs @ ys) n \<longleftrightarrow>
     dseg h p xs (if ys = [] then n else hd ys) \<and> dseg h (if xs = [] then p else last xs) ys n"
  by (induction xs arbitrary: p) auto

lemma dseg_set_next_last:
  "xs \<noteq> [] \<Longrightarrow> distinct xs \<Longrightarrow> dseg h p xs n \<Longrightarrow> dseg (set_next (last xs) m h) p xs m"
proof (induction xs arbitrary: p)
  case (Cons x xs)
  then show ?case by (cases xs) auto
qed simp

lemma dseg_set_prev_hd:
  assumes "distinct xs" and "dseg h p xs n" and "xs \<noteq> []"
  shows "dseg (set_prev (hd xs) q h) q xs n"
proof (cases xs)
  case (Cons x ys)
  with assms have "dseg (set_prev x q h) x ys n"
    by (subst dseg_cong [where h = h]) auto
  with Cons assms show ?thesis by auto
qed (use assms in simp)

lemma dseg_set_other [simp]:
  "z \<notin> set xs \<Longrightarrow> dseg (set_next z v h) p xs n = dseg h p xs n"
  "z \<notin> set xs \<Longrightarrow> dseg (set_prev z v h) p xs n = dseg h p xs n"
  by (rule dseg_cong, force)+

lemma queue_repr_frame:
  "links_only h h' S \<Longrightarrow> set xs \<inter> S = {} \<Longrightarrow> queue_repr h q xs \<Longrightarrow> queue_repr h' q xs"
proof -
  assume l: "links_only h h' S" and d: "set xs \<inter> S = {}" and q: "queue_repr h q xs"
  have "dseg h' NULL xs NULL = dseg h NULL xs NULL"
    using l d by (intro dseg_cong) (auto simp: links_only_def disjoint_iff)
  with q show ?thesis by (simp add: queue_repr_def)
qed

lemma unlinked_frame: "links_only h h' S \<Longrightarrow> z \<notin> S \<Longrightarrow> unlinked h z \<Longrightarrow> unlinked h' z"
  by (simp add: links_only_def unlinked_def)

section \<open>Functional behaviour of the operations\<close>

lemma queue_repr_Nil [simp]: "queue_repr h q [] \<longleftrightarrow> q_head q = NULL \<and> q_tail q = NULL"
  by (auto simp: queue_repr_def)

lemma queue_repr_members: "queue_repr h q xs \<Longrightarrow> distinct xs \<and> NULL \<notin> set xs"
  by (simp add: queue_repr_def)

lemma PROC_init_queue_repr: "queue_repr h (PROC_init_queue q) []"
  by (simp add: PROC_init_queue_def)

lemma queue_repr_head: "queue_repr h q xs \<Longrightarrow> q_head q = hd0 xs"
  by (simp add: queue_repr_def)

lemma queue_repr_tail: "queue_repr h q xs \<Longrightarrow> q_tail q = last0 xs"
  by (simp add: queue_repr_def)

lemma append_proc_repr:
  assumes q: "queue_repr h q xs" and p: "p \<notin> set xs" "p \<noteq> NULL" "unlinked h p"
    and r: "append_proc p q h = (h', q')"
  shows "queue_repr h' q' (xs @ [p]) \<and> links_only h h' (insert p (set xs))"
proof (cases "xs = []")
  case True
  with q p r show ?thesis
    by (auto simp: append_proc_def queue_repr_def unlinked_def links_only_def)
next
  case False
  let ?t = "last xs"
  have t: "q_tail q = ?t" "?t \<in> set xs" and hd: "q_head q = hd0 xs" "q_head q \<noteq> NULL"
    using q False hd0_in_set [OF False] by (auto simp: queue_repr_def last0_def)
  have h': "h' = set_prev p ?t (set_next ?t p h)" and q': "q' = q\<lparr>q_tail := p\<rparr>"
    using r t hd by (auto simp: append_proc_def Let_def)
  have "dseg h' NULL xs p"
    using q False p dseg_set_next_last [of xs h NULL NULL p] by (simp add: h' queue_repr_def)
  moreover have "dseg h' ?t [p] NULL"
    using p t by (auto simp: h' unlinked_def)
  ultimately have "dseg h' NULL (xs @ [p]) NULL"
    using False by (simp add: dseg_append)
  then have "queue_repr h' q' (xs @ [p])"
    using q p False hd by (auto simp: queue_repr_def q' hd0_append)
  moreover have "links_only h h' (insert p (set xs))"
    unfolding h' using t by (intro links_only_trans_same [OF links_only_set(1) links_only_set(2)]) auto
  ultimately show ?thesis ..
qed

lemma pop_proc_Nil: "queue_repr h q [] \<Longrightarrow> pop_proc q h = (NULL, h, q)"
  by (simp add: pop_proc_def)

lemma pop_proc_repr:
  assumes q: "queue_repr h q (x # xs)" and r: "pop_proc q h = (p, h', q')"
  shows "p = x \<and> queue_repr h' q' xs \<and> unlinked h' x \<and> links_only h h' (insert x (set xs))"
proof (cases "xs = []")
  case True
  with q r show ?thesis
    by (auto simp: pop_proc_def queue_repr_def unlinked_def links_only_def set_next_def set_prev_def)
next
  case False
  have d: "distinct (x # xs)" "NULL \<notin> set (x # xs)" and hd: "q_head q = x"
    and tl: "q_tail q = last xs" and seg: "dseg h x xs NULL" "p_next (h x) = hd xs"
    using q False by (auto simp: queue_repr_def last0_def)
  have ne: "x \<noteq> last xs" "x \<noteq> NULL" "hd xs \<in> set xs" using d False by auto
  have h': "h' = set_prev x NULL (set_next x NULL (set_prev (hd xs) NULL h))"
    and q': "q' = q\<lparr>q_head := hd xs\<rparr>" and p: "p = x"
    using r hd tl seg ne by (auto simp: pop_proc_def Let_def)
  have "dseg h' NULL xs NULL"
    using d seg(1) False dseg_set_prev_hd [of xs h x NULL NULL] by (simp add: h')
  then have "queue_repr h' q' xs"
    using q d False tl by (auto simp: queue_repr_def q' hd0_def last0_def split: list.splits)
  moreover have "links_only h h' (insert x (set xs))"
    unfolding h' using ne
    by (intro links_only_trans_same [OF links_only_trans_same [OF links_only_set(2) links_only_set(1)]
          links_only_set(2)]) auto
  ultimately show ?thesis by (simp add: p unlinked_def h')
qed

lemma remove_proc_repr:
  assumes q: "queue_repr h q (as @ x # bs)" and r: "remove_proc x q h = (h', q')"
  shows "queue_repr h' q' (as @ bs) \<and> unlinked h' x \<and> links_only h h' (set (as @ x # bs))"
proof -
  let ?pr = "last0 as" and ?nx = "hd0 bs"
  have d: "distinct (as @ x # bs)" "NULL \<notin> set (as @ x # bs)"
    and hd: "q_head q = hd0 (as @ [x])" and tl: "q_tail q = last0 (x # bs)"
    and sa: "dseg h NULL as x" and sb: "dseg h x bs NULL"
    and px: "p_prev (h x) = ?pr" and nx: "p_next (h x) = ?nx"
    using q by (cases as; cases bs; auto simp: queue_repr_def dseg_append last0_def)+
  have nul: "?pr = NULL \<longleftrightarrow> as = []" "?nx = NULL \<longleftrightarrow> bs = []"
    using d by (auto simp: hd0_eq_NULL last0_eq_NULL)
  define h1 where "h1 = (if as = [] then h else set_next ?pr ?nx h)"
  define h2 where "h2 = (if bs = [] then h1 else set_prev ?nx ?pr h1)"
  have h': "h' = set_prev x NULL (set_next x NULL h2)"
    using r nul by (cases "as = []"; cases "bs = []")
      (auto simp: remove_proc_def Let_def px nx h1_def h2_def)
  have a1: "dseg h1 NULL as ?nx"
    using d sa dseg_set_next_last [of as h NULL x ?nx] by (auto simp: h1_def last0_def)
  have "as \<noteq> [] \<Longrightarrow> last as \<notin> set bs"
    using d(1) last_in_set [of as] by (auto simp: disjoint_iff)
  then have b1: "dseg h1 x bs NULL"
    using sb by (simp add: h1_def last0_def)
  have a2: "dseg h2 NULL as ?nx"
    using a1 d hd_in_set [of bs] by (auto simp: h2_def hd0_def split: list.splits)
  have b2: "dseg h2 ?pr bs NULL"
    using b1 d dseg_set_prev_hd [of bs h1 x NULL ?pr] by (cases bs) (auto simp: h2_def)
  have seg: "dseg h' NULL (as @ bs) NULL"
    using a2 b2 d by (cases as; cases bs) (auto simp: h' dseg_append last0_def)
  have q': "q_head q' = hd0 (as @ bs)" "q_tail q' = last0 (as @ bs)"
    using r hd tl d nul hd0_in_set [of as] last0_in_set [of bs]
    by (auto simp: remove_proc_def Let_def px nx hd0_append last0_append)
  have "queue_repr h' q' (as @ bs)"
    using seg q' d by (auto simp: queue_repr_def)
  moreover have "links_only h h' (set (as @ x # bs))"
  proof -
    have "links_only h h1 (set (as @ x # bs))" "links_only h1 h2 (set (as @ x # bs))"
      using last0_in_set [of as] hd0_in_set [of bs] by (auto simp: h1_def h2_def)
    then have "links_only h h2 (set (as @ x # bs))" by (rule links_only_trans_same)
    then show ?thesis
      unfolding h' by (elim links_only_trans_same)
        (rule links_only_trans_same [OF links_only_set(1) links_only_set(2)]; simp)
  qed
  ultimately show ?thesis by (simp add: h' unlinked_def)
qed

text \<open>Removing a process that is linked nowhere changes nothing.\<close>

lemma remove_proc_unlinked:
  assumes "queue_repr h q xs" and "p \<notin> set xs" and "p \<noteq> NULL" and "unlinked h p"
  shows "remove_proc p q h = (h, q)"
proof -
  have "q_head q \<noteq> p" "q_tail q \<noteq> p"
    using assms(1-3) hd0_in_set [of xs] last0_in_set [of xs]
    by (cases "xs = []"; auto simp: queue_repr_def)+
  moreover have "(h p)\<lparr>p_next := NULL, p_prev := NULL\<rparr> = h p"
    using assms(4) by (cases "h p") (simp add: unlinked_def)
  then have "set_prev p NULL (set_next p NULL h) = h"
    by (simp add: set_prev_def set_next_def fun_upd_idem_iff)
  ultimately show ?thesis
    using assms(4) by (simp add: remove_proc_def Let_def unlinked_def)
qed

section \<open>The queue interface\<close>

text \<open>
  What the scheduler and the blocking operations rely on. The queues share one store \<open>'h\<close>;
  \<open>touch h h' S\<close> says that the store changed at the members \<open>S\<close> only.
\<close>

locale linked_queue =
  fixes app :: "'p \<Rightarrow> 'q \<Rightarrow> 'h \<Rightarrow> 'h \<times> 'q"
    and pop :: "'q \<Rightarrow> 'h \<Rightarrow> 'p \<times> 'h \<times> 'q"
    and rem :: "'p \<Rightarrow> 'q \<Rightarrow> 'h \<Rightarrow> 'h \<times> 'q"
    and repr :: "'h \<Rightarrow> 'q \<Rightarrow> 'p list \<Rightarrow> bool"
    and loose :: "'h \<Rightarrow> 'p \<Rightarrow> bool"
    and touch :: "'h \<Rightarrow> 'h \<Rightarrow> 'p set \<Rightarrow> bool"
    and null :: 'p
  assumes app: "repr h q xs \<Longrightarrow> p \<notin> set xs \<Longrightarrow> p \<noteq> null \<Longrightarrow> loose h p \<Longrightarrow> app p q h = (h', q') \<Longrightarrow>
                  repr h' q' (xs @ [p]) \<and> touch h h' (insert p (set xs))"
    and pop_Nil: "repr h q [] \<Longrightarrow> pop q h = (null, h, q)"
    and pop_Cons: "repr h q (x # xs) \<Longrightarrow> pop q h = (p, h', q') \<Longrightarrow>
                  p = x \<and> repr h' q' xs \<and> loose h' x \<and> touch h h' (insert x (set xs))"
    and rem: "repr h q xs \<Longrightarrow> x \<in> set xs \<Longrightarrow> rem x q h = (h', q') \<Longrightarrow>
                  repr h' q' (remove1 x xs) \<and> loose h' x \<and> touch h h' (set xs)"
    and rem_loose: "repr h q xs \<Longrightarrow> x \<notin> set xs \<Longrightarrow> x \<noteq> null \<Longrightarrow> loose h x \<Longrightarrow> rem x q h = (h, q)"
    and members: "repr h q xs \<Longrightarrow> distinct xs \<and> null \<notin> set xs"
    and frame: "touch h h' S \<Longrightarrow> set xs \<inter> S = {} \<Longrightarrow> repr h q xs \<Longrightarrow> repr h' q xs"
    and loose_frame: "touch h h' S \<Longrightarrow> p \<notin> S \<Longrightarrow> loose h p \<Longrightarrow> loose h' p"
    and touch_trans: "touch h h1 S \<Longrightarrow> touch h1 h2 T \<Longrightarrow> touch h h2 (S \<union> T)"
    and touch_refl: "touch h h S"

text \<open>
  Popping everything from one queue and appending it to another, the loop of
  \<^verbatim>\<open>PROC_unblock_all\<close>. \<open>None\<close>: the loop does not end.
\<close>

partial_function (option) transfer_all ::
  "('q \<Rightarrow> 'h \<Rightarrow> 'p \<times> 'h \<times> 'q) \<Rightarrow> ('p \<Rightarrow> 'q \<Rightarrow> 'h \<Rightarrow> 'h \<times> 'q) \<Rightarrow> 'p \<Rightarrow> 'q \<Rightarrow> 'q \<Rightarrow> 'h \<Rightarrow>
   ('h \<times> 'q \<times> 'q) option" where
  "transfer_all pop app null r q h =
     (case pop r h of (p, h, r) \<Rightarrow>
        if p = null then Some (h, r, q)
        else (case app p q h of (h, q) \<Rightarrow> transfer_all pop app null r q h))"

context linked_queue begin

lemma transfer_all_ends:
  assumes "repr h r ys" and "repr h q xs" and "set xs \<inter> set ys = {}"
  shows "\<exists>h' r' q'. transfer_all pop app null r q h = Some (h', r', q') \<and>
           repr h' r' [] \<and> repr h' q' (xs @ ys) \<and> touch h h' (set xs \<union> set ys)"
  using assms
proof (induction ys arbitrary: h r q xs)
  case Nil
  then show ?case
    by (subst transfer_all.simps) (simp add: pop_Nil touch_refl)
next
  case (Cons y ys)
  obtain p h1 r1 where pop1: "pop r h = (p, h1, r1)" by (cases "pop r h") auto
  with pop_Cons [OF Cons.prems(1)] have p: "p = y" and r1: "repr h1 r1 ys" and y: "loose h1 y"
    and t1: "touch h h1 (insert y (set ys))" by blast+
  from members [OF Cons.prems(1)] have y': "y \<noteq> null" "y \<notin> set ys" by auto
  have q1: "repr h1 q xs"
    using frame [OF t1 _ Cons.prems(2)] Cons.prems(3) by auto
  obtain h2 q2 where app2: "app y q h1 = (h2, q2)" by (cases "app y q h1")
  with app [OF q1 _ y'(1) y] Cons.prems(3)
  have q2: "repr h2 q2 (xs @ [y])" and t2: "touch h1 h2 (insert y (set xs))" by auto
  have r2: "repr h2 r1 ys"
    using frame [OF t2 _ r1] Cons.prems(3) y'(2) by auto
  have "set (xs @ [y]) \<inter> set ys = {}" using Cons.prems(3) y'(2) by auto
  from Cons.IH [OF r2 q2 this] obtain h' r' q' where
    step: "transfer_all pop app null r1 q2 h2 = Some (h', r', q')"
    and res: "repr h' r' []" "repr h' q' ((xs @ [y]) @ ys)"
    and t3: "touch h2 h' (set (xs @ [y]) \<union> set ys)" by blast
  have "touch h h' ((insert y (set ys) \<union> insert y (set xs)) \<union> (set (xs @ [y]) \<union> set ys))"
    using touch_trans [OF touch_trans [OF t1 t2] t3] .
  moreover have "(insert y (set ys) \<union> insert y (set xs)) \<union> (set (xs @ [y]) \<union> set ys) =
      set xs \<union> set (y # ys)" by auto
  ultimately have "touch h h' (set xs \<union> set (y # ys))" by simp
  moreover have "transfer_all pop app null r q h = Some (h', r', q')"
    using step y'(1) by (subst transfer_all.simps) (simp add: pop1 p app2)
  ultimately show ?case using res by auto
qed

text \<open>Two queues stay separate when a member moves from the first to the second.\<close>

lemma rem_then_app:
  assumes a: "repr h q xs" and b: "repr h r ys" and x: "x \<in> set xs" and d: "set xs \<inter> set ys = {}"
    and r: "rem x q h = (h1, q1)" and w: "app x r h1 = (h2, r2)"
  shows "repr h2 q1 (remove1 x xs) \<and> repr h2 r2 (ys @ [x]) \<and> touch h h2 (set xs \<union> set ys)"
proof -
  from rem [OF a x r] have q1: "repr h1 q1 (remove1 x xs)" and l: "loose h1 x"
    and t1: "touch h h1 (set xs)" by auto
  have x': "x \<noteq> null" "x \<notin> set ys" "distinct xs" using members [OF a] x d by auto
  have "repr h1 r ys" using frame [OF t1 _ b] d by auto
  from app [OF this x'(2,1) l w] have r2: "repr h2 r2 (ys @ [x])"
    and t2: "touch h1 h2 (insert x (set ys))" by auto
  have "set (remove1 x xs) \<inter> insert x (set ys) = {}"
    using d x'(3) by auto
  from frame [OF t2 this q1] have "repr h2 q1 (remove1 x xs)" .
  moreover have "set xs \<union> insert x (set ys) = set xs \<union> set ys" using x by auto
  ultimately show ?thesis using r2 touch_trans [OF t1 t2] by simp
qed

end

interpretation pq: linked_queue append_proc pop_proc remove_proc queue_repr unlinked links_only NULL
proof unfold_locales
  fix h q xs x h' q'
  assume q: "queue_repr h q xs" and x: "x \<in> set xs" and r: "remove_proc x q h = (h', q')"
  obtain as bs where xs: "xs = as @ x # bs" using split_list [OF x] by blast
  with q have "remove1 x xs = as @ bs" by (simp add: queue_repr_def remove1_append)
  with remove_proc_repr [of h q as x bs h' q'] q r xs
  show "queue_repr h' q' (remove1 x xs) \<and> unlinked h' x \<and> links_only h h' (set xs)" by simp
qed (rule append_proc_repr pop_proc_Nil pop_proc_repr remove_proc_unlinked queue_repr_members
      queue_repr_frame unlinked_frame links_only_trans links_only_set(3); assumption)+

end
