(* ===== verification/Scheduler.thy ===== *)
theory Scheduler
  imports Proc_Queue
begin

text \<open>
  The round robin scheduler of \<^verbatim>\<open>proc/scheduler.c\<close>: the queue of ready threads and the cursor
  \<^verbatim>\<open>current\<close> into it.
\<close>

section \<open>State and operations\<close>

record sched =
  sc_procs :: proc_heap
  sc_queue :: proc_queue
  sc_current :: ptr

definition sched_admit :: "ptr \<Rightarrow> 'a sched_scheme \<Rightarrow> 'a sched_scheme" where
  "sched_admit thread s =
     (let (h, q) = append_proc thread (sc_queue s) (sc_procs s)
      in s\<lparr>sc_procs := h, sc_queue := q\<rparr>)"

definition rr_next :: "'a sched_scheme \<Rightarrow> ptr \<times> 'a sched_scheme" where
  "rr_next s =
     (let cur = (if sc_current s = NULL \<or> sc_current s = q_tail (sc_queue s)
                 then q_head (sc_queue s)
                 else p_next (sc_procs s (sc_current s)))
      in (cur, s\<lparr>sc_current := cur\<rparr>))"

definition fifo_next :: "'a sched_scheme \<Rightarrow> ptr \<times> 'a sched_scheme" where
  "fifo_next s =
     (let cur = (if sc_current s = NULL then q_head (sc_queue s) else sc_current s)
      in (cur, s\<lparr>sc_current := cur\<rparr>))"

definition lifo_next :: "'a sched_scheme \<Rightarrow> ptr \<times> 'a sched_scheme" where
  "lifo_next s =
     (let cur = (if sc_current s = NULL then q_tail (sc_queue s) else sc_current s)
      in (cur, s\<lparr>sc_current := cur\<rparr>))"

definition sched_remove :: "ptr \<Rightarrow> 'a sched_scheme \<Rightarrow> 'a sched_scheme" where
  "sched_remove thread s =
     (let s = (if thread = sc_current s
               then s\<lparr>sc_current := p_prev (sc_procs s thread)\<rparr> else s);
          (h, q) = remove_proc thread (sc_queue s) (sc_procs s)
      in s\<lparr>sc_procs := h, sc_queue := q\<rparr>)"

definition are_procs_scheduled :: "'a sched_scheme \<Rightarrow> bool" where
  "are_procs_scheduled s \<longleftrightarrow> q_head (sc_queue s) \<noteq> NULL"

text \<open>\<open>n\<close> selections in a row.\<close>

fun rr_run :: "nat \<Rightarrow> 'a sched_scheme \<Rightarrow> ptr list \<times> 'a sched_scheme" where
  "rr_run 0 s = ([], s)"
| "rr_run (Suc n) s =
     (let (c, s) = rr_next s; (cs, s) = rr_run n s in (c # cs, s))"

section \<open>Invariant\<close>

definition sched_inv :: "'a sched_scheme \<Rightarrow> ptr list \<Rightarrow> bool" where
  "sched_inv s xs \<longleftrightarrow>
     queue_repr (sc_procs s) (sc_queue s) xs \<and> (sc_current s = NULL \<or> sc_current s \<in> set xs)"

text \<open>\<open>rr_pos s xs k\<close>: the next selection is the thread at place \<open>k\<close>, counted around the ring.\<close>

definition rr_pos :: "'a sched_scheme \<Rightarrow> ptr list \<Rightarrow> nat \<Rightarrow> bool" where
  "rr_pos s xs k \<longleftrightarrow>
     (sc_current s = NULL \<and> k = 0) \<or> (\<exists>i < length xs. sc_current s = xs ! i \<and> k = Suc i)"

lemma rr_pos_exists: "sched_inv s xs \<Longrightarrow> \<exists>k. rr_pos s xs k"
  unfolding sched_inv_def rr_pos_def in_set_conv_nth by metis

lemma dseg_nth:
  "dseg h p xs n \<Longrightarrow> i < length xs \<Longrightarrow>
     p_next (h (xs ! i)) = (if Suc i < length xs then xs ! Suc i else n) \<and>
     p_prev (h (xs ! i)) = (if i = 0 then p else xs ! (i - 1))"
proof (induction xs arbitrary: p i)
  case (Cons x xs)
  then show ?case
    by (cases i; cases xs) (fastforce simp: nth_Cons')+
qed simp

lemma rr_next_pos:
  assumes inv: "sched_inv s xs" and ne: "xs \<noteq> []" and pos: "rr_pos s xs k"
  defines "c \<equiv> xs ! (k mod length xs)"
  shows "rr_next s = (c, s\<lparr>sc_current := c\<rparr>)"
    and "rr_pos (s\<lparr>sc_current := c\<rparr>) xs (Suc (k mod length xs))"
    and "sched_inv (s\<lparr>sc_current := c\<rparr>) xs"
proof -
  have q: "distinct xs" "NULL \<notin> set xs" "q_head (sc_queue s) = xs ! 0"
    "q_tail (sc_queue s) = xs ! (length xs - 1)" "dseg (sc_procs s) NULL xs NULL"
    using inv ne by (auto simp: sched_inv_def queue_repr_def hd0_def last0_def hd_conv_nth
        last_conv_nth split: list.splits)
  have lt: "k mod length xs < length xs" using ne by simp
  show "rr_next s = (c, s\<lparr>sc_current := c\<rparr>)"
  proof (cases "sc_current s = NULL")
    case True
    with pos q(2) have "k = 0" by (auto simp: rr_pos_def dest: nth_mem)
    with True q show ?thesis by (simp add: rr_next_def c_def Let_def)
  next
    case False
    with pos obtain i where i: "i < length xs" "sc_current s = xs ! i" "k = Suc i"
      by (auto simp: rr_pos_def)
    have "sc_current s = q_tail (sc_queue s) \<longleftrightarrow> Suc i = length xs"
      using i q(1,4) ne by (auto simp: nth_eq_iff_index_eq)
    with i False q(3) dseg_nth [OF q(5) i(1)] show ?thesis
      by (auto simp: rr_next_def c_def Let_def mod_if)
  qed
  show "rr_pos (s\<lparr>sc_current := c\<rparr>) xs (Suc (k mod length xs))"
    using lt by (auto simp: rr_pos_def c_def)
  show "sched_inv (s\<lparr>sc_current := c\<rparr>) xs"
    using inv lt by (simp add: sched_inv_def c_def)
qed

text \<open>The selection depends on the queue's contents and the cursor only.\<close>

lemma rr_next_cong:
  assumes "sched_inv s xs" and "sched_inv t xs" and "xs \<noteq> []" and "sc_current t = sc_current s"
  shows "fst (rr_next t) = fst (rr_next s)"
proof -
  obtain k where k: "rr_pos s xs k" using rr_pos_exists [OF assms(1)] by blast
  with assms(4) have "rr_pos t xs k" by (simp add: rr_pos_def)
  with k assms(1-3) show ?thesis by (simp add: rr_next_pos(1))
qed

lemma rr_run_nth:
  assumes "sched_inv s xs" and "xs \<noteq> []" and "rr_pos s xs k" and "rr_run n s = (cs, s')"
  shows "length cs = n \<and> (\<forall>j < n. cs ! j = xs ! ((k + j) mod length xs)) \<and> sched_inv s' xs"
  using assms
proof (induction n arbitrary: s k cs)
  case 0
  then show ?case by simp
next
  case (Suc n)
  let ?c = "xs ! (k mod length xs)"
  let ?s = "s\<lparr>sc_current := ?c\<rparr>"
  obtain ds where r: "rr_run n ?s = (ds, s')" and cs: "cs = ?c # ds"
    using Suc.prems(4) rr_next_pos(1) [OF Suc.prems(1-3)] by (auto split: prod.splits)
  from Suc.IH [OF rr_next_pos(3) [OF Suc.prems(1-3)] Suc.prems(2) rr_next_pos(2) [OF Suc.prems(1-3)] r]
  have len: "length ds = n" and inv: "sched_inv s' xs"
    and nth: "\<forall>j<n. ds ! j = xs ! ((Suc (k mod length xs) + j) mod length xs)" by auto
  have "cs ! j = xs ! ((k + j) mod length xs)" if "j < Suc n" for j
  proof (cases j)
    case (Suc i)
    have "(Suc (k mod length xs) + i) mod length xs = (k + j) mod length xs"
      using mod_add_left_eq [of k "length xs" "Suc i"] by (simp add: Suc)
    with Suc that nth cs show ?thesis by simp
  qed (simp add: cs)
  with len inv cs show ?case by simp
qed

lemma rr_next_empty:
  "sched_inv s [] \<Longrightarrow> rr_next s = (NULL, s)"
  by (auto simp: sched_inv_def rr_next_def Let_def)

section \<open>Admission and removal\<close>

lemma sched_admit_inv:
  assumes "sched_inv s xs" and "p \<notin> set xs" and "p \<noteq> NULL" and "unlinked (sc_procs s) p"
  shows "sched_inv (sched_admit p s) (xs @ [p])"
    and "links_only (sc_procs s) (sc_procs (sched_admit p s)) (insert p (set xs))"
    and "sc_current (sched_admit p s) = sc_current s"
proof -
  obtain h q where r: "append_proc p (sc_queue s) (sc_procs s) = (h, q)" by fastforce
  with assms have "queue_repr h q (xs @ [p]) \<and> links_only (sc_procs s) h (insert p (set xs))"
    by (intro pq.app) (auto simp: sched_inv_def)
  with r assms(1) show "sched_inv (sched_admit p s) (xs @ [p])"
    "links_only (sc_procs s) (sc_procs (sched_admit p s)) (insert p (set xs))"
    "sc_current (sched_admit p s) = sc_current s"
    by (auto simp: sched_admit_def sched_inv_def)
qed

lemma sched_remove_inv:
  assumes inv: "sched_inv s (as @ x # bs)"
  defines "s' \<equiv> sched_remove x s"
  shows "sched_inv s' (as @ bs)"
    and "unlinked (sc_procs s') x"
    and "links_only (sc_procs s) (sc_procs s') (set (as @ x # bs))"
    and "sc_current s' = (if sc_current s = x then last0 as else sc_current s)"
proof -
  obtain h q where r: "remove_proc x (sc_queue s) (sc_procs s) = (h, q)" by fastforce
  from inv have qr: "queue_repr (sc_procs s) (sc_queue s) (as @ x # bs)"
    by (simp add: sched_inv_def)
  from remove_proc_repr [OF qr r]
  have h: "queue_repr h q (as @ bs)" "unlinked h x" "links_only (sc_procs s) h (set (as @ x # bs))"
    by blast+
  have pr: "p_prev (sc_procs s x) = last0 as"
    using qr by (auto simp: queue_repr_def dseg_append last0_def)
  have s': "s' = s\<lparr>sc_procs := h, sc_queue := q,
      sc_current := (if sc_current s = x then last0 as else sc_current s)\<rparr>"
    using r pr by (auto simp: s'_def sched_remove_def Let_def split: prod.splits)
  show "unlinked (sc_procs s') x" "links_only (sc_procs s) (sc_procs s') (set (as @ x # bs))"
    "sc_current s' = (if sc_current s = x then last0 as else sc_current s)"
    using h by (simp_all add: s')
  show "sched_inv s' (as @ bs)"
    using h(1) inv last0_in_set [of as] by (cases "as = []") (auto simp: s' sched_inv_def)
qed

lemma rr_pos_current:
  assumes inv: "sched_inv s (as @ bs)" and cur: "sc_current s = last0 as"
  shows "rr_pos s (as @ bs) (length as)"
proof (cases "as = []")
  case False
  then have "last0 as = (as @ bs) ! (length as - 1)" "length as - 1 < length (as @ bs)"
    by (cases as rule: rev_cases; simp add: nth_append)+
  with False cur show ?thesis by (auto simp: rr_pos_def intro!: exI [of _ "length as - 1"])
qed (use cur in \<open>simp add: rr_pos_def\<close>)

lemma rr_next_after_remove:
  assumes inv: "sched_inv s (as @ x # bs)" and cur: "sc_current s = x"
  shows "fst (rr_next (sched_remove x s)) = hd0 (bs @ as)"
proof -
  let ?s = "sched_remove x s"
  have inv': "sched_inv ?s (as @ bs)" and cur': "sc_current ?s = last0 as"
    using sched_remove_inv(1,4) [OF inv] cur by simp_all
  show ?thesis
  proof (cases "as @ bs = []")
    case True
    with inv' rr_next_empty [of ?s] show ?thesis by simp
  next
    case False
    have "rr_next ?s = ((as @ bs) ! (length as mod length (as @ bs)), ?s\<lparr>sc_current :=
        (as @ bs) ! (length as mod length (as @ bs))\<rparr>)"
      by (rule rr_next_pos(1) [OF inv' False rr_pos_current [OF inv' cur']])
    moreover have "(as @ bs) ! (length as mod length (as @ bs)) = hd0 (bs @ as)"
      using False by (cases bs; cases as) (auto simp: nth_append)
    ultimately show ?thesis by simp
  qed
qed

section \<open>Properties\<close>

text \<open>
  C4: The round robin scheduler is fair: as many selections in a row as there are ready
  threads choose every ready thread exactly once, in queue order, starting with the thread
  after the one chosen last, or with the head when none was chosen.
\<close>

theorem rr_round_is_rotation:
  assumes "sched_inv s xs" and "xs \<noteq> []" and "rr_pos s xs k"
  shows "fst (rr_run (length xs) s) = rotate k xs \<and> sched_inv (snd (rr_run (length xs) s)) xs"
proof -
  obtain cs s' where r: "rr_run (length xs) s = (cs, s')" by fastforce
  from rr_run_nth [OF assms r] show ?thesis
    by (simp add: r list_eq_iff_nth_eq nth_rotate add.commute)
qed

definition ring_procs :: proc_heap where
  "ring_procs = (\<lambda>p. \<lparr>p_regfile = undefined, p_pid = 0, p_stack_top = 0,
     p_next = (if p = 16 then 32 else if p = 32 then 48 else NULL),
     p_prev = (if p = 32 then 16 else if p = 48 then 32 else NULL)\<rparr>)"

theorem rr_round_is_rotation_witness:
  "fst (rr_run 3 \<lparr>sc_procs = ring_procs, sc_queue = \<lparr>q_head = 16, q_tail = 48\<rparr>, sc_current = 32\<rparr>)
   = [48, 16, 32]"
proof -
  let ?s = "\<lparr>sc_procs = ring_procs, sc_queue = \<lparr>q_head = 16, q_tail = 48\<rparr>, sc_current = 32\<rparr>"
  have i: "sched_inv ?s [16, 32, 48]"
    by (simp add: sched_inv_def queue_repr_def ring_procs_def)
  have p: "rr_pos ?s [16, 32, 48] 2"
    by (auto simp: rr_pos_def intro!: exI [of _ 1])
  show ?thesis
    using rr_round_is_rotation [OF i _ p] by (simp add: numeral_2_eq_2 numeral_3_eq_3)
qed

text \<open>
  When the thread that runs leaves the ready queue, by blocking or by exiting, the next
  selection is the thread that followed it, around the ring, and \<open>NULL\<close> when it was the only
  one: nobody loses a turn.
\<close>

theorem rr_next_after_leaving:
  assumes "sched_inv s (as @ x # bs)" and "sc_current s = x"
  shows "fst (rr_next (sched_remove x s)) = hd0 (bs @ as) \<and>
         sched_inv (sched_remove x s) (as @ bs)"
  using rr_next_after_remove [OF assms] sched_remove_inv(1) [OF assms(1)] by simp

theorem rr_next_after_leaving_witness:
  "fst (rr_next (sched_remove 48
     \<lparr>sc_procs = ring_procs, sc_queue = \<lparr>q_head = 16, q_tail = 48\<rparr>, sc_current = 48\<rparr>)) = 16"
proof -
  have "sched_inv \<lparr>sc_procs = ring_procs, sc_queue = \<lparr>q_head = 16, q_tail = 48\<rparr>, sc_current = 48\<rparr>
      ([16, 32] @ 48 # [])"
    by (simp add: sched_inv_def queue_repr_def ring_procs_def)
  from rr_next_after_leaving [OF this] show ?thesis by simp
qed

end
