(* ===== verification/Proc.thy ===== *)
theory Proc
  imports Scheduler
begin

text \<open>
  Threads (\<^verbatim>\<open>proc/proc.c\<close>, the \<^verbatim>\<open>CONTEXT_SWITCH\<close> macro of \<^verbatim>\<open>irq/isr_wrapper.asm\<close> and the \<^verbatim>\<open>yield\<close>
  stub of \<^verbatim>\<open>syscall.asm\<close>). The state adds to the scheduler the two pointers \<^verbatim>\<open>curr_proc\<close> and
  \<^verbatim>\<open>next_proc\<close>, the pid counter, the address of the static \<^verbatim>\<open>orig_proc\<close>, the wait queues of
  the drivers (by their address) and the registers of the interrupted context. Creation and
  exit of a thread also use the heap and the stack allocator; their scheduling part is here,
  and the theory \<open>Threads\<close> composes the whole operations.
\<close>

section \<open>State\<close>

definition IE_FLAG :: u64 where "IE_FLAG = 0x200"
definition RES_FLAG :: u64 where "RES_FLAG = 0x2"
definition KERNEL_CODE_SELECTOR :: u16 where "KERNEL_CODE_SELECTOR = 0x8"

record proc_state = sched +
  pr_curr :: ptr
  pr_next :: ptr
  pr_pid :: u32
  pr_orig :: ptr
  pr_waitq :: "ptr \<Rightarrow> proc_queue"
  pr_cpu :: regfile

definition zero_regfile :: regfile where
  "zero_regfile =
     \<lparr>rf_rax = 0, rf_rbx = 0, rf_rcx = 0, rf_rdx = 0, rf_rdi = 0, rf_rsi = 0, rf_r8 = 0, rf_r9 = 0,
      rf_r10 = 0, rf_r11 = 0, rf_r12 = 0, rf_r13 = 0, rf_r14 = 0, rf_r15 = 0,
      rf_cs = 0, rf_ss = 0, rf_ds = 0, rf_es = 0, rf_fs = 0, rf_gs = 0,
      rf_rbp = 0, rf_rsp = 0, rf_rip = 0, rf_rflags = 0\<rparr>"

text \<open>A process structure as \<^verbatim>\<open>kcalloc\<close> returns it.\<close>

definition zero_process :: process where
  "zero_process =
     \<lparr>p_regfile = zero_regfile, p_pid = 0, p_stack_top = 0, p_next = NULL, p_prev = NULL\<rparr>"

section \<open>Operations\<close>

definition CLI :: "'a proc_state_scheme \<Rightarrow> 'a proc_state_scheme" where
  "CLI s = s\<lparr>pr_cpu := (pr_cpu s)\<lparr>rf_rflags := rf_rflags (pr_cpu s) AND NOT IE_FLAG\<rparr>\<rparr>"

definition STI :: "'a proc_state_scheme \<Rightarrow> 'a proc_state_scheme" where
  "STI s = s\<lparr>pr_cpu := (pr_cpu s)\<lparr>rf_rflags := rf_rflags (pr_cpu s) OR IE_FLAG\<rparr>\<rparr>"

definition PROC_reschedule :: "'a proc_state_scheme \<Rightarrow> 'a proc_state_scheme" where
  "PROC_reschedule s =
     (let (c, s) = rr_next s; s = s\<lparr>pr_next := c\<rparr>
      in if pr_next s = NULL then s\<lparr>pr_next := pr_orig s\<rparr> else s)"

text \<open>
  \<^verbatim>\<open>CONTEXT_SWITCH\<close> saves the interrupted context into the current process and loads that of
  the next one. It stores and loads every register of the file but \<^verbatim>\<open>rbp\<close>.
\<close>

definition CONTEXT_SWITCH :: "'a proc_state_scheme \<Rightarrow> 'a proc_state_scheme" where
  "CONTEXT_SWITCH s =
     (if pr_curr s = pr_next s then s
      else
        let c = pr_curr s;
            old = sc_procs s c;
            saved = (pr_cpu s)\<lparr>rf_rbp := rf_rbp (p_regfile old)\<rparr>;
            s = s\<lparr>sc_procs := (sc_procs s)(c := old\<lparr>p_regfile := saved\<rparr>), pr_curr := pr_next s\<rparr>;
            loaded = p_regfile (sc_procs s (pr_curr s))
        in s\<lparr>pr_cpu := loaded\<lparr>rf_rbp := rf_rbp (pr_cpu s)\<rparr>\<rparr>)"

text \<open>
  The yield system call. Its handler brackets the scheduler with \<^verbatim>\<open>CLI\<close> and \<^verbatim>\<open>STI\<close>; the flags
  of the interrupted context come back from the stack frame, so they do not show in \<open>pr_cpu\<close>.
\<close>

definition yield_sys_call :: "'a proc_state_scheme \<Rightarrow> 'a proc_state_scheme" where
  "yield_sys_call s = PROC_reschedule s"

definition yield :: "'a proc_state_scheme \<Rightarrow> 'a proc_state_scheme" where
  "yield s = CONTEXT_SWITCH (yield_sys_call s)"

definition PROC_run :: "'a proc_state_scheme \<Rightarrow> 'a proc_state_scheme" where
  "PROC_run s =
     (let s = s\<lparr>pr_curr := pr_orig s, pr_next := pr_orig s\<rparr>
      in if \<not> are_procs_scheduled s then s else yield s)"

text \<open>
  The part of \<^verbatim>\<open>PROC_create_kthread\<close> after its two allocations: \<open>context\<close> is the zeroed
  structure from \<^verbatim>\<open>kcalloc\<close>, \<open>stack_top\<close> the stack from \<^verbatim>\<open>MMU_alloc_stack\<close> and \<open>wrapper\<close> the
  address of \<^verbatim>\<open>kthread_wrapper\<close>.
\<close>

definition setup_kthread ::
  "u64 \<Rightarrow> ptr \<Rightarrow> u64 \<Rightarrow> u64 \<Rightarrow> u64 \<Rightarrow> 'a proc_state_scheme \<Rightarrow> 'a proc_state_scheme" where
  "setup_kthread wrapper context stack_top entry_point arg s =
     (let p = zero_process\<lparr>p_stack_top := stack_top, p_pid := pr_pid s\<rparr>;
          r = (p_regfile p)
            \<lparr>rf_rbp := p_stack_top p, rf_rsp := p_stack_top p, rf_rip := wrapper,
             rf_rdi := entry_point, rf_rsi := arg, rf_cs := KERNEL_CODE_SELECTOR, rf_ss := 0\<rparr>;
          r = r\<lparr>rf_rflags := rf_rflags r OR (IE_FLAG OR RES_FLAG)\<rparr>;
          s = s\<lparr>sc_procs := (sc_procs s)(context := p\<lparr>p_regfile := r\<rparr>), pr_pid := pr_pid s + 1\<rparr>
      in sched_admit context s)"

text \<open>
  The scheduling part of \<^verbatim>\<open>kexit_isr\<close>, which runs between freeing the stack and freeing the
  structure, then picks another thread; the interrupt return switches to it.
\<close>

definition exit_kthread :: "'a proc_state_scheme \<Rightarrow> 'a proc_state_scheme" where
  "exit_kthread s = CONTEXT_SWITCH (PROC_reschedule (sched_remove (pr_curr s) s))"

definition PROC_block_on :: "ptr \<Rightarrow> bool \<Rightarrow> 'a proc_state_scheme \<Rightarrow> 'a proc_state_scheme" where
  "PROC_block_on queue enable_ints s =
     (if queue = NULL then s
      else
        let s = sched_remove (pr_curr s) s;
            (h, q) = append_proc (pr_curr s) (pr_waitq s queue) (sc_procs s);
            s = s\<lparr>sc_procs := h, pr_waitq := (pr_waitq s)(queue := q)\<rparr>;
            s = (if enable_ints then STI s else s)
        in yield s)"

definition PROC_unblock_all :: "ptr \<Rightarrow> 'a proc_state_scheme \<Rightarrow> 'a proc_state_scheme option" where
  "PROC_unblock_all queue s =
     (if queue = NULL then Some s
      else
        map_option (\<lambda>(h, q, r). s\<lparr>sc_procs := h, pr_waitq := (pr_waitq s)(queue := q), sc_queue := r\<rparr>)
          (transfer_all pop_proc append_proc NULL (pr_waitq s queue) (sc_queue s) (sc_procs s)))"

definition PROC_unblock_head :: "ptr \<Rightarrow> 'a proc_state_scheme \<Rightarrow> 'a proc_state_scheme" where
  "PROC_unblock_head queue s =
     (if queue = NULL then s
      else
        let (c, h, q) = pop_proc (pr_waitq s queue) (sc_procs s);
            s = s\<lparr>sc_procs := h, pr_waitq := (pr_waitq s)(queue := q)\<rparr>
        in if c \<noteq> NULL then sched_admit c s else s)"

definition init_wait_queue :: "ptr \<Rightarrow> 'a proc_state_scheme \<Rightarrow> 'a proc_state_scheme" where
  "init_wait_queue queue s =
     s\<lparr>pr_waitq := (pr_waitq s)(queue := PROC_init_queue (pr_waitq s queue))\<rparr>"

text \<open>
  The macro \<^verbatim>\<open>wait_event_interruptable\<close>. \<open>resume\<close> is everything that happens between the block and
  the moment this thread runs again: the other threads and the interrupts.
\<close>

partial_function (option) wait_loop ::
    "('s \<Rightarrow> 's) \<Rightarrow> ('s \<Rightarrow> 's) \<Rightarrow> ('s \<Rightarrow> bool) \<Rightarrow> 's \<Rightarrow> 's option" where
  "wait_loop resume block condition s =
     (if condition s then wait_loop resume block condition (resume (block s)) else Some s)"

definition wait_event_interruptable ::
    "('a proc_state_scheme \<Rightarrow> 'a proc_state_scheme) \<Rightarrow> ptr \<Rightarrow> ('a proc_state_scheme \<Rightarrow> bool) \<Rightarrow>
     'a proc_state_scheme \<Rightarrow> 'a proc_state_scheme option" where
  "wait_event_interruptable resume wait_queue condition s =
     map_option STI (wait_loop (\<lambda>s. CLI (resume s)) (PROC_block_on wait_queue True) condition (CLI s))"

lemma wait_loop_keeps:
  assumes "wait_loop resume block condition s = Some s'"
    and step: "\<And>t. condition t \<Longrightarrow> I t \<Longrightarrow> I (resume (block t))" and "I s"
  shows "I s' \<and> \<not> condition s'"
proof -
  let ?P = "\<lambda>r b c s s'. r = resume \<longrightarrow> b = block \<longrightarrow> c = condition \<longrightarrow> I s \<longrightarrow> I s' \<and> \<not> condition s'"
  have "?P resume block condition s s'"
  proof (rule wait_loop.raw_induct [where P = ?P, OF _ assms(1)])
    fix rec r b c s s'
    assume IH: "\<And>r b c s s'. rec r b c s = Some s' \<Longrightarrow> ?P r b c s s'"
      and r: "(if c s then rec r b c (r (b s)) else Some s) = Some s'"
    show "?P r b c s s'"
    proof (cases "c s")
      case True
      with r have "rec r b c (r (b s)) = Some s'" by simp
      from IH [OF this] step [of s] True show ?thesis by auto
    qed (use r in auto)
  qed
  with assms(3) show ?thesis by simp
qed

lemma wait_event_done:
  "\<not> condition (CLI s) \<Longrightarrow> wait_event_interruptable resume wait_queue condition s = Some (STI (CLI s))"
  by (simp add: wait_event_interruptable_def wait_loop.simps)

section \<open>The thread invariant\<close>

text \<open>
  \<open>proc_inv s xs W\<close>: the ready queue holds the threads \<open>xs\<close>, the wait queue at \<open>q\<close> holds
  \<open>W q\<close>, no thread is in two queues, the idle context \<open>pr_orig\<close> is in none, and the running
  context is the idle one or the thread the scheduler's cursor points at.
\<close>

definition proc_inv :: "'a proc_state_scheme \<Rightarrow> ptr list \<Rightarrow> (ptr \<Rightarrow> ptr list) \<Rightarrow> bool" where
  "proc_inv s xs W \<longleftrightarrow>
     sched_inv s xs \<and>
     (\<forall>q. q \<noteq> NULL \<longrightarrow> queue_repr (sc_procs s) (pr_waitq s q) (W q) \<and> set (W q) \<inter> set xs = {} \<and>
          pr_orig s \<notin> set (W q)) \<and>
     (\<forall>q r. q \<noteq> NULL \<longrightarrow> r \<noteq> NULL \<longrightarrow> q \<noteq> r \<longrightarrow> set (W q) \<inter> set (W r) = {}) \<and>
     pr_orig s \<noteq> NULL \<and> pr_orig s \<notin> set xs \<and>
     (pr_curr s = pr_orig s \<or> (pr_curr s = sc_current s \<and> pr_curr s \<in> set xs))"

text \<open>Every thread that exists: ready or blocked.\<close>

definition threads :: "ptr list \<Rightarrow> (ptr \<Rightarrow> ptr list) \<Rightarrow> ptr set" where
  "threads xs W = set xs \<union> (\<Union>q \<in> {q. q \<noteq> NULL}. set (W q))"

subsection \<open>Switching\<close>

lemma queue_repr_regfile:
  "queue_repr (h(c := (h c)\<lparr>p_regfile := r\<rparr>)) q xs = queue_repr h q xs"
proof -
  have "dseg (h(c := (h c)\<lparr>p_regfile := r\<rparr>)) NULL xs NULL = dseg h NULL xs NULL"
    by (rule dseg_cong) simp
  then show ?thesis by (simp add: queue_repr_def)
qed

lemma CONTEXT_SWITCH_simps [simp]:
  "sc_queue (CONTEXT_SWITCH s) = sc_queue s" "sc_current (CONTEXT_SWITCH s) = sc_current s"
  "pr_waitq (CONTEXT_SWITCH s) = pr_waitq s" "pr_orig (CONTEXT_SWITCH s) = pr_orig s"
  "pr_curr (CONTEXT_SWITCH s) = pr_next s" "pr_next (CONTEXT_SWITCH s) = pr_next s"
  "queue_repr (sc_procs (CONTEXT_SWITCH s)) q xs = queue_repr (sc_procs s) q xs"
  by (simp_all add: CONTEXT_SWITCH_def Let_def queue_repr_regfile)

lemma STI_CLI_simps [simp]:
  "sc_procs (STI s) = sc_procs s" "sc_queue (STI s) = sc_queue s" "sc_current (STI s) = sc_current s"
  "pr_waitq (STI s) = pr_waitq s" "pr_orig (STI s) = pr_orig s" "pr_curr (STI s) = pr_curr s"
  "sc_procs (CLI s) = sc_procs s" "sc_queue (CLI s) = sc_queue s" "sc_current (CLI s) = sc_current s"
  "pr_waitq (CLI s) = pr_waitq s" "pr_orig (CLI s) = pr_orig s" "pr_curr (CLI s) = pr_curr s"
  by (simp_all add: STI_def CLI_def)

text \<open>What a rescheduling needs of the state: the invariant but for the running context.\<close>

definition queues_inv :: "'a proc_state_scheme \<Rightarrow> ptr list \<Rightarrow> (ptr \<Rightarrow> ptr list) \<Rightarrow> bool" where
  "queues_inv s xs W \<longleftrightarrow>
     sched_inv s xs \<and>
     (\<forall>q. q \<noteq> NULL \<longrightarrow> queue_repr (sc_procs s) (pr_waitq s q) (W q) \<and> set (W q) \<inter> set xs = {} \<and>
          pr_orig s \<notin> set (W q)) \<and>
     (\<forall>q r. q \<noteq> NULL \<longrightarrow> r \<noteq> NULL \<longrightarrow> q \<noteq> r \<longrightarrow> set (W q) \<inter> set (W r) = {}) \<and>
     pr_orig s \<noteq> NULL \<and> pr_orig s \<notin> set xs"

lemma proc_inv_queues:
  "proc_inv s xs W \<longleftrightarrow> queues_inv s xs W \<and>
     (pr_curr s = pr_orig s \<or> (pr_curr s = sc_current s \<and> pr_curr s \<in> set xs))"
  by (auto simp: proc_inv_def queues_inv_def)

lemma proc_inv_ready: "proc_inv s xs W \<Longrightarrow> queue_repr (sc_procs s) (sc_queue s) xs"
  by (simp add: proc_inv_def sched_inv_def)

lemma switch_inv:
  assumes "queues_inv s xs W"
  shows "proc_inv (CONTEXT_SWITCH (PROC_reschedule s)) xs W"
    and "pr_curr (CONTEXT_SWITCH (PROC_reschedule s)) =
           (if xs = [] then pr_orig s else fst (rr_next s))"
proof -
  have inv: "sched_inv s xs" using assms by (simp add: queues_inv_def)
  show "proc_inv (CONTEXT_SWITCH (PROC_reschedule s)) xs W"
  proof (cases "xs = []")
    case True
    with inv rr_next_empty [of s] assms show ?thesis
      by (auto simp: PROC_reschedule_def Let_def proc_inv_def queues_inv_def sched_inv_def)
  next
    case False
    obtain k where "rr_pos s xs k" using rr_pos_exists [OF inv] by blast
    from rr_next_pos [OF inv False this] obtain c where
      r: "rr_next s = (c, s\<lparr>sc_current := c\<rparr>)" and i: "sched_inv (s\<lparr>sc_current := c\<rparr>) xs"
      and c: "c \<in> set xs" using False by auto
    have "c \<noteq> NULL" using inv c by (auto simp: sched_inv_def queue_repr_def)
    with r i c assms show ?thesis
      by (auto simp: PROC_reschedule_def Let_def proc_inv_def queues_inv_def sched_inv_def)
  qed
  show "pr_curr (CONTEXT_SWITCH (PROC_reschedule s)) =
           (if xs = [] then pr_orig s else fst (rr_next s))"
  proof (cases "xs = []")
    case True
    with inv rr_next_empty [of s] show ?thesis
      by (simp add: PROC_reschedule_def Let_def)
  next
    case False
    obtain k where "rr_pos s xs k" using rr_pos_exists [OF inv] by blast
    from rr_next_pos(1) [OF inv False this]
    have r: "rr_next s = (xs ! (k mod length xs), s\<lparr>sc_current := xs ! (k mod length xs)\<rparr>)" .
    have "xs ! (k mod length xs) \<in> set xs" using False by simp
    moreover have "NULL \<notin> set xs" using inv by (simp add: sched_inv_def queue_repr_def)
    ultimately have "xs ! (k mod length xs) \<noteq> NULL" by metis
    with r False show ?thesis by (simp add: PROC_reschedule_def Let_def)
  qed
qed

lemma yield_inv: "proc_inv s xs W \<Longrightarrow> proc_inv (yield s) xs W"
  unfolding yield_def yield_sys_call_def by (rule switch_inv) (simp add: proc_inv_queues)

lemma PROC_run_inv:
  assumes "queues_inv s xs W"
  shows "proc_inv (PROC_run s) xs W"
proof -
  let ?s = "s\<lparr>pr_curr := pr_orig s, pr_next := pr_orig s\<rparr>"
  have q: "queues_inv ?s xs W" using assms by (simp add: queues_inv_def sched_inv_def)
  show ?thesis
  proof (cases "are_procs_scheduled ?s")
    case True
    with switch_inv(1) [OF q] show ?thesis
      by (simp add: PROC_run_def Let_def yield_def yield_sys_call_def)
  next
    case False
    with q show ?thesis by (simp add: PROC_run_def Let_def proc_inv_queues)
  qed
qed

subsection \<open>Moving threads between queues\<close>

lemma sched_admit_more [simp]:
  "pr_waitq (sched_admit p s) = pr_waitq s" "pr_orig (sched_admit p s) = pr_orig s"
  "pr_curr (sched_admit p s) = pr_curr s" "pr_pid (sched_admit p s) = pr_pid s"
  "pr_cpu (sched_admit p s) = pr_cpu s"
  by (simp_all add: sched_admit_def split: prod.split)

lemma sched_remove_more [simp]:
  "pr_waitq (sched_remove p s) = pr_waitq s" "pr_orig (sched_remove p s) = pr_orig s"
  "pr_curr (sched_remove p s) = pr_curr s" "pr_pid (sched_remove p s) = pr_pid s"
  "pr_cpu (sched_remove p s) = pr_cpu s"
  by (simp_all add: sched_remove_def Let_def split: prod.split)

text \<open>No operation on threads touches the state of the drivers.\<close>

lemma proc_more [simp]:
  "proc_state.more (sched_admit p s) = proc_state.more s"
  "proc_state.more (sched_remove p s) = proc_state.more s"
  "proc_state.more (CLI s) = proc_state.more s" "proc_state.more (STI s) = proc_state.more s"
  "proc_state.more (CONTEXT_SWITCH s) = proc_state.more s"
  "proc_state.more (PROC_reschedule s) = proc_state.more s"
  "proc_state.more (init_wait_queue q s) = proc_state.more s"
  by (simp_all add: rr_next_def sched_admit_def sched_remove_def CLI_def STI_def CONTEXT_SWITCH_def Let_def
      PROC_reschedule_def init_wait_queue_def split: prod.split)

lemma proc_more_queues [simp]:
  "proc_state.more (yield s) = proc_state.more s"
  "proc_state.more (PROC_block_on q e s) = proc_state.more s"
  "proc_state.more (PROC_unblock_head q s) = proc_state.more s"
  by (simp_all add: yield_def yield_sys_call_def PROC_block_on_def PROC_unblock_head_def Let_def split: prod.split)

text \<open>A thread that is in no queue.\<close>

definition outside :: "'a proc_state_scheme \<Rightarrow> ptr list \<Rightarrow> (ptr \<Rightarrow> ptr list) \<Rightarrow> ptr \<Rightarrow> bool" where
  "outside s xs W p \<longleftrightarrow> p \<noteq> NULL \<and> p \<noteq> pr_orig s \<and> p \<notin> threads xs W \<and> unlinked (sc_procs s) p"

lemma outsideD:
  assumes "outside s xs W p"
  shows "p \<noteq> NULL" "p \<noteq> pr_orig s" "p \<notin> set xs" "unlinked (sc_procs s) p"
    and "q \<noteq> NULL \<Longrightarrow> p \<notin> set (W q)"
  using assms by (auto simp: outside_def threads_def)

lemma queues_invD:
  assumes "queues_inv s xs W"
  shows "sched_inv s xs" "pr_orig s \<noteq> NULL" "pr_orig s \<notin> set xs"
    and "q \<noteq> NULL \<Longrightarrow> queue_repr (sc_procs s) (pr_waitq s q) (W q)"
    and "q \<noteq> NULL \<Longrightarrow> set (W q) \<inter> set xs = {}" and "q \<noteq> NULL \<Longrightarrow> pr_orig s \<notin> set (W q)"
    and "q \<noteq> NULL \<Longrightarrow> r \<noteq> NULL \<Longrightarrow> q \<noteq> r \<Longrightarrow> set (W q) \<inter> set (W r) = {}"
  using assms by (auto simp: queues_inv_def)

lemma admit_queues:
  assumes inv: "queues_inv s xs W" and p: "outside s xs W p"
  shows "queues_inv (sched_admit p s) (xs @ [p]) W"
proof -
  note i = queues_invD [OF inv] and o = outsideD [OF p]
  note a = sched_admit_inv [OF i(1) o(3,1,4)]
  have "queue_repr (sc_procs (sched_admit p s)) (pr_waitq s q) (W q)" if "q \<noteq> NULL" for q
    using queue_repr_frame [OF a(2) _ i(4) [OF that]] i(5) [OF that] o(5) [OF that] by auto
  with i o a(1) show ?thesis by (auto simp: queues_inv_def)
qed

lemma remove_queues:
  assumes inv: "queues_inv s xs W" and x: "x \<in> set xs"
  shows "queues_inv (sched_remove x s) (remove1 x xs) W"
    and "outside (sched_remove x s) (remove1 x xs) W x"
proof -
  note i = queues_invD [OF inv]
  obtain as bs where xs: "xs = as @ x # bs" using split_list [OF x] by blast
  have d: "distinct xs" "NULL \<notin> set xs" using i(1) by (auto simp: sched_inv_def queue_repr_def)
  then have r1: "remove1 x xs = as @ bs" by (simp add: xs remove1_append)
  note r = sched_remove_inv [OF i(1) [unfolded xs]]
  have w: "queue_repr (sc_procs (sched_remove x s)) (pr_waitq s q) (W q)" if "q \<noteq> NULL" for q
    using queue_repr_frame [OF r(3) _ i(4) [OF that]] i(5) [OF that] xs by auto
  show "queues_inv (sched_remove x s) (remove1 x xs) W"
    using i(2,3,5-7) w r(1) xs unfolding r1 queues_inv_def by auto
  show "outside (sched_remove x s) (remove1 x xs) W x"
    using i(3,5) d r(2) xs unfolding r1 outside_def threads_def by auto
qed

lemma wait_queues:
  assumes inv: "queues_inv s xs W" and p: "outside s xs W p" and q: "queue \<noteq> NULL"
    and r: "append_proc p (pr_waitq s queue) (sc_procs s) = (h, w)"
  shows "queues_inv (s\<lparr>sc_procs := h, pr_waitq := (pr_waitq s)(queue := w)\<rparr>) xs
           (W(queue := W queue @ [p]))"
proof -
  note i = queues_invD [OF inv] and o = outsideD [OF p]
  have a: "queue_repr h w (W queue @ [p])" "links_only (sc_procs s) h (insert p (set (W queue)))"
    using pq.app [OF i(4) [OF q] o(5) [OF q] o(1,4) r] by blast+
  have other: "queue_repr h (pr_waitq s q') (W q')" if "q' \<noteq> NULL" "q' \<noteq> queue" for q'
    using queue_repr_frame [OF a(2) _ i(4) [OF that(1)]] i(7) [OF that(1) q that(2)] o(5) [OF that(1)]
    by auto
  have ready: "queue_repr h (sc_queue s) xs"
    using queue_repr_frame [OF a(2), of xs] i(1,5) q o(3) by (auto simp: sched_inv_def)
  show ?thesis
    using i(1-3,5-7) o a(1) other ready q by (auto simp: queues_inv_def sched_inv_def)
qed

lemma wake_queues:
  assumes inv: "queues_inv s xs W" and q: "queue \<noteq> NULL" and W: "W queue = p # ps"
    and r: "pop_proc (pr_waitq s queue) (sc_procs s) = (c, h, w)"
  defines "s' \<equiv> s\<lparr>sc_procs := h, pr_waitq := (pr_waitq s)(queue := w)\<rparr>"
  shows "c = p \<and> queues_inv s' xs (W(queue := ps)) \<and> outside s' xs (W(queue := ps)) p"
proof -
  note i = queues_invD [OF inv]
  have a: "c = p" "queue_repr h w ps" "unlinked h p" "links_only (sc_procs s) h (insert p (set ps))"
    using pq.pop_Cons [OF i(4) [OF q, unfolded W] r] by blast+
  have p: "p \<noteq> NULL" "p \<notin> set ps" "p \<notin> set xs" "p \<noteq> pr_orig s"
    using pq.members [OF i(4) [OF q]] i(5,6) [OF q] W by auto
  have pW: "p \<notin> set (W q')" if "q' \<noteq> NULL" "q' \<noteq> queue" for q'
    using i(7) [OF that(1) q that(2)] W by auto
  have other: "queue_repr h (pr_waitq s q') (W q')" if "q' \<noteq> NULL" "q' \<noteq> queue" for q'
    using queue_repr_frame [OF a(4) _ i(4) [OF that(1)]] i(7) [OF that(1) q that(2)] W by auto
  have ready: "queue_repr h (sc_queue s) xs"
    using queue_repr_frame [OF a(4), of xs] i(1) i(5) [OF q] W by (auto simp: sched_inv_def)
  have disj: "set ps \<inter> set xs = {}" "pr_orig s \<notin> set ps"
    using i(5,6) [OF q] W by auto
  have disjW: "set ps \<inter> set (W q') = {}" if "q' \<noteq> NULL" "q' \<noteq> queue" for q'
    using i(7) [OF that(1) q that(2)] W by auto
  have "queues_inv s' xs (W(queue := ps))"
    using i(1-3,5-7) a(2) other ready disj disjW
    by (auto simp: queues_inv_def sched_inv_def s'_def Int_commute)
  moreover have "outside s' xs (W(queue := ps)) p"
    using p pW a(3) by (auto simp: outside_def threads_def s'_def)
  ultimately show ?thesis using a(1) by blast
qed

subsection \<open>The whole operations\<close>

lemma PROC_block_on_eq:
  "queue \<noteq> NULL \<Longrightarrow>
   append_proc (pr_curr s) (pr_waitq s queue) (sc_procs (sched_remove (pr_curr s) s)) = (h, q) \<Longrightarrow>
   PROC_block_on queue e s =
     (let s1 = (sched_remove (pr_curr s) s)\<lparr>sc_procs := h, pr_waitq := (pr_waitq s)(queue := q)\<rparr>
      in yield (if e then STI s1 else s1))"
  by (simp add: PROC_block_on_def Let_def)

lemma STI_queues: "queues_inv (STI s) xs W = queues_inv s xs W"
  by (simp add: queues_inv_def sched_inv_def)

lemma rr_next_STI: "fst (rr_next (STI s)) = fst (rr_next s)"
  by (simp add: rr_next_def Let_def)

lemma PROC_block_on_inv:
  assumes inv: "proc_inv s xs W" and c: "pr_curr s \<noteq> pr_orig s" and q: "queue \<noteq> NULL"
  shows "proc_inv (PROC_block_on queue e s) (remove1 (pr_curr s) xs)
           (W(queue := W queue @ [pr_curr s]))"
proof -
  let ?c = "pr_curr s" and ?s1 = "sched_remove (pr_curr s) s"
  have cx: "?c \<in> set xs" and qi: "queues_inv s xs W" using inv c by (auto simp: proc_inv_queues)
  obtain h w where r: "append_proc ?c (pr_waitq ?s1 queue) (sc_procs ?s1) = (h, w)" by fastforce
  note rq = remove_queues [OF qi cx]
  note wq = wait_queues [OF rq q r]
  have "queues_inv (if e then STI (?s1\<lparr>sc_procs := h, pr_waitq := (pr_waitq ?s1)(queue := w)\<rparr>)
      else ?s1\<lparr>sc_procs := h, pr_waitq := (pr_waitq ?s1)(queue := w)\<rparr>)
      (remove1 ?c xs) (W(queue := W queue @ [?c]))"
    using wq by (simp add: STI_queues)
  from switch_inv(1) [OF this] show ?thesis
    using PROC_block_on_eq [OF q, of s h w e] r
    by (cases e) (simp_all add: Let_def yield_def yield_sys_call_def)
qed

lemma PROC_block_on_next:
  assumes inv: "proc_inv s xs W" and c: "pr_curr s \<noteq> pr_orig s" and q: "queue \<noteq> NULL"
  shows "pr_curr (PROC_block_on queue e s) =
     (if remove1 (pr_curr s) xs = [] then pr_orig s
      else fst (rr_next (sched_remove (pr_curr s) s)))"
proof -
  let ?c = "pr_curr s" and ?s1 = "sched_remove (pr_curr s) s"
  have cx: "?c \<in> set xs" and qi: "queues_inv s xs W" using inv c by (auto simp: proc_inv_queues)
  obtain h w where r: "append_proc ?c (pr_waitq ?s1 queue) (sc_procs ?s1) = (h, w)" by fastforce
  note rq = remove_queues [OF qi cx]
  let ?s2 = "?s1\<lparr>sc_procs := h, pr_waitq := (pr_waitq ?s1)(queue := w)\<rparr>"
  note wq = wait_queues [OF rq q r]
  have qs: "queues_inv (if e then STI ?s2 else ?s2) (remove1 ?c xs) (W(queue := W queue @ [?c]))"
    using wq by (simp add: STI_queues)
  have eq: "PROC_block_on queue e s = CONTEXT_SWITCH (PROC_reschedule (if e then STI ?s2 else ?s2))"
    using PROC_block_on_eq [OF q, of s h w e] r
    by (cases e) (simp_all add: Let_def yield_def yield_sys_call_def)
  have "sched_inv ?s1 (remove1 ?c xs)" using rq(1) by (rule queues_invD(1))
  moreover have "queue_repr h (sc_queue ?s1) (remove1 ?c xs)"
    using queues_invD(1) [OF wq] by (simp add: sched_inv_def)
  ultimately have "fst (rr_next ?s2) = fst (rr_next ?s1)" if "remove1 ?c xs \<noteq> []"
    using rr_next_cong [of ?s1 "remove1 ?c xs" ?s2] that by (simp add: sched_inv_def)
  then show ?thesis
    unfolding eq using switch_inv(2) [OF qs] by (cases e) (simp_all add: rr_next_STI)
qed

lemma exit_kthread_inv:
  assumes inv: "proc_inv s xs W" and c: "pr_curr s \<noteq> pr_orig s"
  shows "proc_inv (exit_kthread s) (remove1 (pr_curr s) xs) W"
proof -
  have cx: "pr_curr s \<in> set xs" and qi: "queues_inv s xs W" using inv c by (auto simp: proc_inv_queues)
  from switch_inv(1) [OF remove_queues(1) [OF qi cx]] show ?thesis
    by (simp add: exit_kthread_def)
qed

lemma sched_admit_current [simp]: "sc_current (sched_admit p s) = sc_current s"
  by (simp add: sched_admit_def split: prod.split)

lemma admit_proc_inv:
  assumes "queues_inv s xs W" and "outside s xs W p"
    and "pr_curr s = pr_orig s \<or> (pr_curr s = sc_current s \<and> pr_curr s \<in> set xs)"
  shows "proc_inv (sched_admit p s) (xs @ [p]) W"
  using assms admit_queues [OF assms(1,2)] by (auto simp: proc_inv_queues)

lemma PROC_unblock_head_inv:
  assumes inv: "proc_inv s xs W" and q: "queue \<noteq> NULL"
  shows "proc_inv (PROC_unblock_head queue s)
           (xs @ (case W queue of [] \<Rightarrow> [] | p # _ \<Rightarrow> [p])) (W(queue := tl (W queue)))"
proof -
  have qi: "queues_inv s xs W"
    and cur: "pr_curr s = pr_orig s \<or> (pr_curr s = sc_current s \<and> pr_curr s \<in> set xs)"
    using inv by (auto simp: proc_inv_queues)
  show ?thesis
  proof (cases "W queue")
    case Nil
    have "pop_proc (pr_waitq s queue) (sc_procs s) = (NULL, sc_procs s, pr_waitq s queue)"
      using queues_invD(4) [OF qi q] Nil by (intro pq.pop_Nil) simp
    then show ?thesis using inv q Nil by (simp add: PROC_unblock_head_def Let_def fun_upd_idem)
  next
    case (Cons p ps)
    obtain c h w where r: "pop_proc (pr_waitq s queue) (sc_procs s) = (c, h, w)"
      by (cases "pop_proc (pr_waitq s queue) (sc_procs s)") auto
    note wk = wake_queues [OF qi q Cons r]
    have "c \<noteq> NULL" using wk by (simp add: outside_def)
    with wk cur r q Cons show ?thesis
      by (simp add: PROC_unblock_head_def Let_def admit_proc_inv)
  qed
qed

lemma PROC_unblock_all_inv:
  assumes inv: "proc_inv s xs W" and q: "queue \<noteq> NULL"
  shows "\<exists>s'. PROC_unblock_all queue s = Some s' \<and>
           proc_inv s' (xs @ W queue) (W(queue := [])) \<and> pr_curr s' = pr_curr s"
proof -
  have qi: "queues_inv s xs W"
    and cur: "pr_curr s = pr_orig s \<or> (pr_curr s = sc_current s \<and> pr_curr s \<in> set xs)"
    using inv by (auto simp: proc_inv_queues)
  note i = queues_invD [OF qi]
  have rq: "queue_repr (sc_procs s) (sc_queue s) xs" and d: "set xs \<inter> set (W queue) = {}"
    using i(1) i(5) [OF q] by (auto simp: sched_inv_def)
  from pq.transfer_all_ends [OF i(4) [OF q] rq d] obtain h r' q' where
    t: "transfer_all pop_proc append_proc NULL (pr_waitq s queue) (sc_queue s) (sc_procs s) =
        Some (h, r', q')"
    and r': "queue_repr h r' []" and q': "queue_repr h q' (xs @ W queue)"
    and l: "links_only (sc_procs s) h (set xs \<union> set (W queue))" by blast
  let ?s = "s\<lparr>sc_procs := h, pr_waitq := (pr_waitq s)(queue := r'), sc_queue := q'\<rparr>"
  have other: "queue_repr h (pr_waitq s z) (W z)" if "z \<noteq> NULL" "z \<noteq> queue" for z
    using queue_repr_frame [OF l _ i(4) [OF that(1)]] i(5) [OF that(1)] i(7) [OF that(1) q that(2)]
    by auto
  have disjW: "x \<notin> set (W queue)" if "x \<in> set (W z)" "z \<noteq> NULL" "z \<noteq> queue" for x z
    using i(7) [OF that(2) q that(3)] that(1) by blast
  have "queues_inv ?s (xs @ W queue) (W(queue := []))"
    using i(1-3) i(5,6) q i(7) r' q' other by (auto simp: queues_inv_def sched_inv_def dest: disjW)
  then have "proc_inv ?s (xs @ W queue) (W(queue := []))"
    using cur by (auto simp: proc_inv_queues)
  with t q show ?thesis by (simp add: PROC_unblock_all_def)
qed

lemma setup_kthread_queues:
  assumes qi: "queues_inv s xs W" and p: "p \<noteq> NULL" "p \<noteq> pr_orig s" "p \<notin> threads xs W"
  shows "queues_inv (setup_kthread wrapper p stk entry arg s) (xs @ [p]) W"
proof -
  define pr where "pr = zero_process\<lparr>p_stack_top := stk, p_pid := pr_pid s,
    p_regfile := zero_regfile\<lparr>rf_rbp := stk, rf_rsp := stk, rf_rip := wrapper, rf_rdi := entry,
      rf_rsi := arg, rf_cs := KERNEL_CODE_SELECTOR, rf_ss := 0, rf_rflags := IE_FLAG OR RES_FLAG\<rparr>\<rparr>"
  let ?s = "s\<lparr>sc_procs := (sc_procs s)(p := pr), pr_pid := pr_pid s + 1\<rparr>"
  have eq: "setup_kthread wrapper p stk entry arg s = sched_admit p ?s"
    by (simp add: setup_kthread_def pr_def Let_def zero_process_def zero_regfile_def)
  have frame: "queue_repr ((sc_procs s)(p := pr)) q ys = queue_repr (sc_procs s) q ys"
    if "p \<notin> set ys" for q ys
  proof -
    have "dseg ((sc_procs s)(p := pr)) NULL ys NULL = dseg (sc_procs s) NULL ys NULL"
      using that by (intro dseg_cong) auto
    then show ?thesis by (simp add: queue_repr_def)
  qed
  note i = queues_invD [OF qi]
  have "queues_inv ?s xs W"
    using i(1-3,5-7) i(4) frame p(3) by (auto simp: queues_inv_def sched_inv_def threads_def)
  moreover have "outside ?s xs W p"
    using p by (simp add: outside_def unlinked_def pr_def zero_process_def)
  ultimately show ?thesis by (simp add: eq admit_queues)
qed

lemma setup_kthread_inv:
  assumes inv: "proc_inv s xs W" and p: "p \<noteq> NULL" "p \<noteq> pr_orig s" "p \<notin> threads xs W"
  shows "proc_inv (setup_kthread wrapper p stk entry arg s) (xs @ [p]) W"
proof -
  have "pr_orig (setup_kthread wrapper p stk entry arg s) = pr_orig s" "pr_curr (setup_kthread wrapper p stk entry arg s) = pr_curr s"
    "sc_current (setup_kthread wrapper p stk entry arg s) = sc_current s"
    by (simp_all add: setup_kthread_def sched_admit_def Let_def split_def)
  with inv setup_kthread_queues [OF _ p] show ?thesis by (auto simp: proc_inv_queues)
qed

section \<open>Runs of the thread system\<close>

text \<open>
  One step is one of the operations the kernel runs on the threads. A new thread's structure
  is memory no existing thread occupies; blocking and exiting are done by a running thread.
\<close>

inductive thread_step :: "proc_state \<Rightarrow> ptr list \<Rightarrow> (ptr \<Rightarrow> ptr list) \<Rightarrow> proc_state \<Rightarrow> ptr list \<Rightarrow>
    (ptr \<Rightarrow> ptr list) \<Rightarrow> bool" where
  yielding: "thread_step s xs W (yield s) xs W"
| blocking: "pr_curr s \<noteq> pr_orig s \<Longrightarrow> q \<noteq> NULL \<Longrightarrow>
    thread_step s xs W (PROC_block_on q e s) (remove1 (pr_curr s) xs) (W(q := W q @ [pr_curr s]))"
| waking_head: "q \<noteq> NULL \<Longrightarrow>
    thread_step s xs W (PROC_unblock_head q s)
      (xs @ (case W q of [] \<Rightarrow> [] | p # _ \<Rightarrow> [p])) (W(q := tl (W q)))"
| waking_all: "q \<noteq> NULL \<Longrightarrow> PROC_unblock_all q s = Some s' \<Longrightarrow>
    thread_step s xs W s' (xs @ W q) (W(q := []))"
| creating: "p \<noteq> NULL \<Longrightarrow> p \<noteq> pr_orig s \<Longrightarrow> p \<notin> threads xs W \<Longrightarrow>
    thread_step s xs W (setup_kthread wr p stk entry arg s) (xs @ [p]) W"
| exiting: "pr_curr s \<noteq> pr_orig s \<Longrightarrow>
    thread_step s xs W (exit_kthread s) (remove1 (pr_curr s) xs) W"

inductive_cases thread_stepE: "thread_step s xs W s' xs' W'"

text \<open>The state after \<^verbatim>\<open>PROC_run\<close> with no thread admitted and all wait queues initialised.\<close>

definition boot_state :: "ptr \<Rightarrow> proc_state \<Rightarrow> bool" where
  "boot_state orig s \<longleftrightarrow>
     orig \<noteq> NULL \<and> pr_orig s = orig \<and> pr_curr s = orig \<and> sc_current s = NULL \<and>
     sc_queue s = PROC_init_queue (sc_queue s) \<and>
     (\<forall>q. pr_waitq s q = PROC_init_queue (pr_waitq s q))"

inductive thread_reach :: "ptr \<Rightarrow> proc_state \<Rightarrow> ptr list \<Rightarrow> (ptr \<Rightarrow> ptr list) \<Rightarrow> bool" for orig where
  boot: "boot_state orig s \<Longrightarrow> thread_reach orig s [] (\<lambda>_. [])"
| step: "thread_reach orig s xs W \<Longrightarrow> thread_step s xs W s' xs' W' \<Longrightarrow> thread_reach orig s' xs' W'"

lemma PROC_init_queue_fixed: "q = PROC_init_queue q \<longleftrightarrow> q_head q = NULL \<and> q_tail q = NULL"
  by (cases q) (auto simp: PROC_init_queue_def)

lemma boot_inv: "boot_state orig s \<Longrightarrow> proc_inv s [] (\<lambda>_. [])"
  by (simp add: boot_state_def proc_inv_def sched_inv_def PROC_init_queue_fixed)

lemma thread_step_inv: "thread_step s xs W s' xs' W' \<Longrightarrow> proc_inv s xs W \<Longrightarrow> proc_inv s' xs' W'"
proof (induction rule: thread_step.induct)
  case (waking_all q s s' xs W)
  from PROC_unblock_all_inv [OF waking_all(3,1)] waking_all(2) show ?case by (auto simp del: fun_upd_apply)
qed (simp_all add: yield_inv PROC_block_on_inv PROC_unblock_head_inv setup_kthread_inv exit_kthread_inv)

lemma thread_reach_inv: "thread_reach orig s xs W \<Longrightarrow> proc_inv s xs W"
  by (induction rule: thread_reach.induct) (auto intro: boot_inv thread_step_inv)

section \<open>Properties\<close>

text \<open>
  C5: In every state the thread system reaches from boot by yielding, blocking, waking,
  creating and exiting, the ready queue and every wait queue are well-formed doubly linked
  lists, no thread is in two of them, the idle context is in none, and the processor runs the
  idle context or a thread of the ready queue.
\<close>

theorem thread_system_safe:
  assumes "thread_reach orig s xs W"
  shows "queue_repr (sc_procs s) (sc_queue s) xs \<and>
         (\<forall>q. q \<noteq> NULL \<longrightarrow> queue_repr (sc_procs s) (pr_waitq s q) (W q) \<and> set (W q) \<inter> set xs = {}) \<and>
         (\<forall>q r. q \<noteq> NULL \<longrightarrow> r \<noteq> NULL \<longrightarrow> q \<noteq> r \<longrightarrow> set (W q) \<inter> set (W r) = {}) \<and>
         pr_orig s \<notin> threads xs W \<and> (pr_curr s = pr_orig s \<or> pr_curr s \<in> set xs)"
  using thread_reach_inv [OF assms] by (auto simp: proc_inv_def sched_inv_def threads_def)

definition boot_example :: proc_state where
  "boot_example = \<lparr>sc_procs = (\<lambda>_. zero_process), sc_queue = \<lparr>q_head = NULL, q_tail = NULL\<rparr>,
     sc_current = NULL, pr_curr = 8, pr_next = 8, pr_pid = 1, pr_orig = 8,
     pr_waitq = (\<lambda>_. \<lparr>q_head = NULL, q_tail = NULL\<rparr>), pr_cpu = zero_regfile\<rparr>"

theorem thread_system_safe_witness:
  "queue_repr (sc_procs (yield (setup_kthread 4096 16 8192 1 2 boot_example)))
     (sc_queue (yield (setup_kthread 4096 16 8192 1 2 boot_example))) [16]"
proof -
  have "thread_reach 8 boot_example [] (\<lambda>_. [])"
    by (rule thread_reach.boot)
      (simp add: boot_state_def boot_example_def PROC_init_queue_def)
  moreover have "thread_step boot_example [] (\<lambda>_. []) (setup_kthread 4096 16 8192 1 2 boot_example)
      ([] @ [16]) (\<lambda>_. [])"
    by (rule thread_step.creating) (simp_all add: boot_example_def threads_def)
  ultimately have "thread_reach 8 (setup_kthread 4096 16 8192 1 2 boot_example) ([] @ [16]) (\<lambda>_. [])"
    by (rule thread_reach.step)
  from thread_system_safe [OF thread_reach.step [OF this thread_step.yielding]] show ?thesis by simp
qed

text \<open>
  C8: Blocking the running thread moves it from the ready queue to the end of the wait queue
  and keeps every other queue; the processor goes on with the thread that followed it in the
  ready queue, around the ring, or with the idle context when it was the only ready one.
\<close>

theorem PROC_block_on_moves_running:
  assumes inv: "proc_inv s (as @ pr_curr s # bs) W" and c: "pr_curr s \<noteq> pr_orig s" and q: "queue \<noteq> NULL"
  shows "proc_inv (PROC_block_on queue e s) (as @ bs) (W(queue := W queue @ [pr_curr s])) \<and>
         pr_curr (PROC_block_on queue e s) = (if as @ bs = [] then pr_orig s else hd0 (bs @ as))"
proof -
  have sched: "sched_inv s (as @ pr_curr s # bs)" and cur: "sc_current s = pr_curr s"
    using inv c by (auto simp: proc_inv_def)
  have d: "pr_curr s \<notin> set as" using sched by (auto simp: sched_inv_def queue_repr_def)
  have r1: "remove1 (pr_curr s) (as @ pr_curr s # bs) = as @ bs" using d by (simp add: remove1_append)
  from PROC_block_on_next [OF inv c q] rr_next_after_remove [OF sched cur]
  show ?thesis using PROC_block_on_inv [OF inv c q] r1 by simp
qed

theorem PROC_block_on_moves_running_witness:
  "pr_curr (PROC_block_on 4096 True (yield (setup_kthread 4096 16 8192 1 2 boot_example))) = 8"
proof -
  let ?s = "yield (setup_kthread 4096 16 8192 1 2 boot_example)"
  have b: "proc_inv boot_example [] (\<lambda>_. [])"
    by (rule boot_inv [of 8]) (simp add: boot_state_def boot_example_def PROC_init_queue_def)
  have i: "proc_inv ?s [16] (\<lambda>_. [])"
    using yield_inv [OF setup_kthread_inv [OF b, of 16 4096 8192 1 2]]
    by (simp add: boot_example_def threads_def)
  have c: "pr_curr ?s = 16" and o: "pr_orig ?s = 8"
    by (simp_all add: yield_def yield_sys_call_def PROC_reschedule_def rr_next_def setup_kthread_def
        sched_admit_def append_proc_def boot_example_def Let_def CONTEXT_SWITCH_def)
  have "proc_inv ?s ([] @ pr_curr ?s # []) (\<lambda>_. [])" using i by (simp add: c)
  from PROC_block_on_moves_running [OF this, of 4096 True] c o show ?thesis by simp
qed

text \<open>
  C9: \<^verbatim>\<open>PROC_unblock_all\<close> ends, empties the wait queue, appends the threads that waited to the
  ready queue in the order in which they blocked, and does not switch threads.
\<close>

theorem PROC_unblock_all_wakes_in_order:
  assumes "proc_inv s xs W" and "queue \<noteq> NULL"
  shows "\<exists>s'. PROC_unblock_all queue s = Some s' \<and> proc_inv s' (xs @ W queue) (W(queue := [])) \<and>
           queue_repr (sc_procs s') (sc_queue s') (xs @ W queue) \<and> pr_curr s' = pr_curr s"
  using PROC_unblock_all_inv [OF assms] proc_inv_ready by blast

theorem PROC_unblock_all_wakes_in_order_witness:
  "\<exists>s'. PROC_unblock_all 4096
      (PROC_block_on 4096 True (yield (setup_kthread 4096 16 8192 1 2 boot_example))) = Some s' \<and>
    queue_repr (sc_procs s') (sc_queue s') [16]"
proof -
  let ?s = "yield (setup_kthread 4096 16 8192 1 2 boot_example)"
  have b: "proc_inv boot_example [] (\<lambda>_. [])"
    by (rule boot_inv [of 8]) (simp add: boot_state_def boot_example_def PROC_init_queue_def)
  have i: "proc_inv ?s [16] (\<lambda>_. [])"
    using yield_inv [OF setup_kthread_inv [OF b, of 16 4096 8192 1 2]]
    by (simp add: boot_example_def threads_def)
  have c: "pr_curr ?s = 16" and o: "pr_orig ?s = 8"
    by (simp_all add: yield_def yield_sys_call_def PROC_reschedule_def rr_next_def setup_kthread_def
        sched_admit_def append_proc_def boot_example_def Let_def CONTEXT_SWITCH_def)
  have "proc_inv (PROC_block_on 4096 True ?s) [] ((\<lambda>_. [])(4096 := [16]))"
    using PROC_block_on_inv [OF i, of 4096 True] by (simp add: c o)
  from PROC_unblock_all_wakes_in_order [OF this, of 4096] show ?thesis by auto
qed

text \<open>
  C11: Switching from one thread to another and back restores every register of the first
  thread but \<open>rbp\<close>, which keeps the value the other thread had, whatever that thread did to
  the processor in between.
\<close>

theorem context_switch_back_restores:
  assumes "pr_curr s \<noteq> pr_next s"
    and "back = CONTEXT_SWITCH ((CONTEXT_SWITCH s)\<lparr>pr_cpu := r, pr_next := pr_curr s\<rparr>)"
  shows "pr_cpu back = (pr_cpu s)\<lparr>rf_rbp := rf_rbp r\<rparr> \<and> pr_curr back = pr_curr s \<and>
         p_regfile (sc_procs back (pr_next s)) =
           r\<lparr>rf_rbp := rf_rbp (p_regfile (sc_procs s (pr_next s)))\<rparr>"
  using assms by (simp add: CONTEXT_SWITCH_def Let_def)

theorem context_switch_back_restores_witness:
  "rf_rax (pr_cpu (CONTEXT_SWITCH ((CONTEXT_SWITCH
      (boot_example\<lparr>pr_next := 16, pr_cpu := zero_regfile\<lparr>rf_rax := 7\<rparr>\<rparr>))
      \<lparr>pr_cpu := zero_regfile\<lparr>rf_rbp := 9\<rparr>, pr_next := 8\<rparr>))) = 7"
proof -
  have ne: "pr_curr (boot_example\<lparr>pr_next := 16, pr_cpu := zero_regfile\<lparr>rf_rax := 7\<rparr>\<rparr>) \<noteq>
      pr_next (boot_example\<lparr>pr_next := 16, pr_cpu := zero_regfile\<lparr>rf_rax := 7\<rparr>\<rparr>)"
    by (simp add: boot_example_def)
  from context_switch_back_restores [OF ne refl, of "zero_regfile\<lparr>rf_rbp := 9\<rparr>"]
  show ?thesis by (simp add: boot_example_def)
qed

end
