(* ===== verification/Port_IO.thy ===== *)
theory Port_IO
  imports Proc
begin

text \<open>
  Port input and output (\<^verbatim>\<open>include/ioport.h\<close>). What is behind the ports is not in the repository:
  the behaviour of the hardware is the parameter \<open>P\<close>, four functions on the state of the
  devices, and the drivers are modelled for every such behaviour.
\<close>

record 'd ports =
  port_inb :: "u16 \<Rightarrow> 'd \<Rightarrow> u8 \<times> 'd"
  port_inw :: "u16 \<Rightarrow> 'd \<Rightarrow> u16 \<times> 'd"
  port_outb :: "u16 \<Rightarrow> u8 \<Rightarrow> 'd \<Rightarrow> 'd"
  port_outw :: "u16 \<Rightarrow> u16 \<Rightarrow> 'd \<Rightarrow> 'd"

record 'd dev_state = proc_state +
  dev :: 'd

definition inb :: "'d ports \<Rightarrow> u16 \<Rightarrow> ('d, 'a) dev_state_scheme \<Rightarrow> u8 \<times> ('d, 'a) dev_state_scheme" where
  "inb P port s = (let (v, d) = port_inb P port (dev s) in (v, s\<lparr>dev := d\<rparr>))"

definition inw :: "'d ports \<Rightarrow> u16 \<Rightarrow> ('d, 'a) dev_state_scheme \<Rightarrow> u16 \<times> ('d, 'a) dev_state_scheme" where
  "inw P port s = (let (v, d) = port_inw P port (dev s) in (v, s\<lparr>dev := d\<rparr>))"

definition outb :: "'d ports \<Rightarrow> u16 \<Rightarrow> u8 \<Rightarrow> ('d, 'a) dev_state_scheme \<Rightarrow> ('d, 'a) dev_state_scheme" where
  "outb P port byte s = s\<lparr>dev := port_outb P port byte (dev s)\<rparr>"

definition outw :: "'d ports \<Rightarrow> u16 \<Rightarrow> u16 \<Rightarrow> ('d, 'a) dev_state_scheme \<Rightarrow> ('d, 'a) dev_state_scheme" where
  "outw P port w s = s\<lparr>dev := port_outw P port w (dev s)\<rparr>"

definition io_wait :: "'d ports \<Rightarrow> ('d, 'a) dev_state_scheme \<Rightarrow> ('d, 'a) dev_state_scheme" where
  "io_wait P s = outb P 0x80 0 s"

text \<open>Port accesses change the devices only.\<close>

lemma port_only:
  "snd (inb P port s) = s\<lparr>dev := snd (port_inb P port (dev s))\<rparr>"
  "snd (inw P port s) = s\<lparr>dev := snd (port_inw P port (dev s))\<rparr>"
  "fst (inb P port s) = fst (port_inb P port (dev s))"
  "fst (inw P port s) = fst (port_inw P port (dev s))"
  by (simp_all add: inb_def inw_def split_beta)

text \<open>What a run of port accesses does to the state.\<close>

definition dev_only :: "('d, 'a) dev_state_scheme \<Rightarrow> ('d, 'a) dev_state_scheme \<Rightarrow> bool" where
  "dev_only s s' \<longleftrightarrow> (\<exists>d. s' = s\<lparr>dev := d\<rparr>)"

lemma dev_only_refl [simp]: "dev_only s s"
  unfolding dev_only_def by (rule exI [of _ "dev s"]) simp

lemma dev_only_trans: "dev_only s t \<Longrightarrow> dev_only t u \<Longrightarrow> dev_only s u"
  by (auto simp: dev_only_def)

lemma dev_only_port [simp]:
  "dev_only s (outb P p b t) = dev_only s t" "dev_only s (snd (inb P p t)) = dev_only s t" "dev_only s (snd (inw P p t)) = dev_only s t"
proof -
  have *: "dev_only s (t\<lparr>dev := d\<rparr>) = dev_only s t" for d
  proof
    assume "dev_only s (t\<lparr>dev := d\<rparr>)"
    then obtain e where e: "t\<lparr>dev := d\<rparr> = s\<lparr>dev := e\<rparr>" by (auto simp: dev_only_def)
    have "t = t\<lparr>dev := d\<rparr>\<lparr>dev := dev t\<rparr>" by simp
    also have "\<dots> = s\<lparr>dev := dev t\<rparr>" unfolding e by simp
    finally show "dev_only s t" by (auto simp: dev_only_def)
  qed (auto simp: dev_only_def)
  show "dev_only s (outb P p b t) = dev_only s t" "dev_only s (snd (inb P p t)) = dev_only s t" "dev_only s (snd (inw P p t)) = dev_only s t"
    by (simp_all add: outb_def port_only *)
qed

lemma dev_only_after: "dev_only (snd (inb P p s)) t \<Longrightarrow> dev_only s t"
  by (rule dev_only_trans [of s "snd (inb P p s)"]) simp_all

end
