(* ===== verification/Block_Dev.thy ===== *)
theory Block_Dev
  imports Port_IO
begin

text \<open>
  Block devices (\<^verbatim>\<open>include/block.h\<close>, \<^verbatim>\<open>fs/block.c\<close>) and the ATA disk driver (\<^verbatim>\<open>dev/ata.c\<close>). A read
  returns the bytes it stores at its destination, and its result. Which driver reads a device is
  the function pointer \<^verbatim>\<open>read_block\<close>, here one of the two functions of the kernel that are
  assigned to it. Printed messages are left out.
\<close>

section \<open>Devices\<close>

datatype block_dev_type = MASS_STORAGE | PARTITION

datatype read_block_f = ATA_reader | part_reader

record block_dev =
  tot_len :: u64
  read_block :: read_block_f
  blk_size :: u32
  bd_type :: block_dev_type
  bd_name :: "u8 list"

record ata_block_dev = block_dev +
  ata_base :: u16
  ata_slave :: u8

text \<open>
  The list of registered devices, linked through their \<^verbatim>\<open>next\<close> fields (\<open>ll_next\<close>, by address), and
  the macro \<^verbatim>\<open>LL_APPEND\<close>.
\<close>

record ll =
  ll_head :: ptr
  ll_tail :: ptr
  ll_next :: "ptr \<Rightarrow> ptr"

definition LL_APPEND :: "ptr \<Rightarrow> ll \<Rightarrow> ll" where
  "LL_APPEND node l =
     (if ll_head l = NULL then l\<lparr>ll_head := node, ll_tail := node\<rparr>
      else l\<lparr>ll_next := (ll_next l)(ll_tail l := node), ll_tail := node\<rparr>)"

definition BLK_register :: "ptr \<Rightarrow> ll \<Rightarrow> int \<times> ll" where
  "BLK_register node l = (1, LL_APPEND node l)"

section \<open>The ATA driver\<close>

definition DATA_REG :: "u16 \<Rightarrow> u16" where "DATA_REG base = base + 0"
definition ERROR_REG :: "u16 \<Rightarrow> u16" where "ERROR_REG base = base + 1"
definition SEC_CNT_REG :: "u16 \<Rightarrow> u16" where "SEC_CNT_REG base = base + 2"
definition SEC_NUM_REG :: "u16 \<Rightarrow> u16" where "SEC_NUM_REG base = base + 3"
definition CYL_LOW_REG :: "u16 \<Rightarrow> u16" where "CYL_LOW_REG base = base + 4"
definition CYL_HIGH_REG :: "u16 \<Rightarrow> u16" where "CYL_HIGH_REG base = base + 5"
definition DRIVE_HEAD_REG :: "u16 \<Rightarrow> u16" where "DRIVE_HEAD_REG base = base + 6"
definition STAT_REG :: "u16 \<Rightarrow> u16" where "STAT_REG base = base + 7"
definition CMD_REG :: "u16 \<Rightarrow> u16" where "CMD_REG base = base + 7"
definition ALT_STAT_REG :: "u16 \<Rightarrow> u16" where "ALT_STAT_REG base = base + 0x206"
definition DEV_CTRL_REG :: "u16 \<Rightarrow> u16" where "DEV_CTRL_REG base = base + 0x206"

definition STAT_DRQ :: u8 where "STAT_DRQ = 0x08"
definition STAT_BSY :: u8 where "STAT_BSY = 0x80"
definition STAT_ERR :: u8 where "STAT_ERR = 0x01"
definition FLOATING_BUS :: u8 where "FLOATING_BUS = 0xFF"
definition CMD_SELECT_MASTER :: u8 where "CMD_SELECT_MASTER = 0xA0"
definition CMD_SELECT_SLAVE :: u8 where "CMD_SELECT_SLAVE = 0xB0"
definition CMD_IDENTIFY :: u8 where "CMD_IDENTIFY = 0xEC"
definition CMD_READ_SECTORS_EXT :: u8 where "CMD_READ_SECTORS_EXT = 0x24"

text \<open>The two retry loops of \<^verbatim>\<open>ATA_poll\<close>; an error bit seen by the second one is a panic.\<close>

partial_function (option) ATA_poll_busy ::
    "'d ports \<Rightarrow> u16 \<Rightarrow> ('d, 'a) dev_state_scheme \<Rightarrow> ('d, 'a) dev_state_scheme option" where
  "ATA_poll_busy ports base s =
     (let (status, s) = inb ports (ALT_STAT_REG base) s
      in if status AND STAT_BSY \<noteq> 0 then ATA_poll_busy ports base s else Some s)"

partial_function (option) ATA_poll_data ::
    "'d ports \<Rightarrow> u16 \<Rightarrow> ('d, 'a) dev_state_scheme \<Rightarrow> ('d, 'a) dev_state_scheme res option" where
  "ATA_poll_data ports base s =
     (let (status, s) = inb ports (ALT_STAT_REG base) s
      in if status AND STAT_ERR \<noteq> 0 then Some (Inl DeviceError)
         else if status AND STAT_DRQ = 0 then ATA_poll_data ports base s else Some (Inr s))"

definition ATA_poll :: "'d ports \<Rightarrow> u16 \<Rightarrow> ('d, 'a) dev_state_scheme \<Rightarrow> ('d, 'a) dev_state_scheme res option" where
  "ATA_poll P base s =
     (let delay = (\<lambda>s. snd (inb P (ALT_STAT_REG base) s))
      in Option.bind (ATA_poll_busy P base ((delay ^^ 4) s)) (ATA_poll_data P base))"

fun read_words :: "'d ports \<Rightarrow> u16 \<Rightarrow> nat \<Rightarrow> ('d, 'a) dev_state_scheme \<Rightarrow> u16 list \<times> ('d, 'a) dev_state_scheme" where
  "read_words P port 0 s = ([], s)"
| "read_words P port (Suc n) s =
     (let (w, s) = inw P port s; (ws, s) = read_words P port n s in (w # ws, s))"

definition bytes_of :: "u16 list \<Rightarrow> u8 list" where
  "bytes_of ws = concat (map (\<lambda>w. [ucast w, ucast (drop_bit 8 w)]) ws)"

text \<open>\<open>lba_n n i\<close> is byte \<open>i\<close> of the little endian block number.\<close>

definition lba_n :: "u64 \<Rightarrow> nat \<Rightarrow> u8" where
  "lba_n blk_num i = ucast (drop_bit (8 * i) blk_num)"

definition ATA_select_block ::
    "'d ports \<Rightarrow> 'x ata_block_dev_scheme \<Rightarrow> u64 \<Rightarrow> ('d, 'a) dev_state_scheme \<Rightarrow> ('d, 'a) dev_state_scheme" where
  "ATA_select_block P d blk_num s =
     (let base = ata_base d;
          s = outb P (DRIVE_HEAD_REG base) (0x40 OR push_bit 4 (ata_slave d)) s;
          s = outb P (SEC_CNT_REG base) 0 s;
          s = outb P (SEC_NUM_REG base) (lba_n blk_num 3) s;
          s = outb P (CYL_LOW_REG base) (lba_n blk_num 4) s;
          s = outb P (CYL_HIGH_REG base) (lba_n blk_num 5) s;
          s = outb P (SEC_CNT_REG base) 1 s;
          s = outb P (SEC_NUM_REG base) (lba_n blk_num 0) s;
          s = outb P (CYL_LOW_REG base) (lba_n blk_num 1) s
      in outb P (CYL_HIGH_REG base) (lba_n blk_num 2) s)"

definition ATA_read_block ::
    "'d ports \<Rightarrow> 'x ata_block_dev_scheme \<Rightarrow> u64 \<Rightarrow> ('d, 'a) dev_state_scheme \<Rightarrow>
     ((int \<times> u8 list) \<times> ('d, 'a) dev_state_scheme) res option" where
  "ATA_read_block P d blk_num s =
     (if blk_num \<ge> tot_len d then Some (Inr ((- 1, []), s))
      else
        let base = ata_base d;
            s = ATA_select_block P d blk_num s;
            s = outb P (CMD_REG base) CMD_READ_SECTORS_EXT s
        in bind_ro (ATA_poll P base s) (\<lambda>s.
             let (ws, s) = read_words P (DATA_REG base) 256 s;
                 (status, s) = inb P (ALT_STAT_REG base) s
             in if status AND STAT_BSY \<noteq> 0 \<or> status AND STAT_DRQ \<noteq> 0 \<or> status AND STAT_ERR \<noteq> 0
                then Some (Inr ((- 1, bytes_of ws), s)) else Some (Inr ((1, bytes_of ws), s))))"

text \<open>The two status loops of \<^verbatim>\<open>ATA_probe\<close>.\<close>

partial_function (option) ATA_status_loop ::
    "'d ports \<Rightarrow> (u8 \<Rightarrow> bool) \<Rightarrow> u16 \<Rightarrow> ('d, 'a) dev_state_scheme \<Rightarrow> ('d, 'a) dev_state_scheme option" where
  "ATA_status_loop ports again base s =
     (let (status, s) = inb ports (STAT_REG base) s
      in if again status then ATA_status_loop ports again base s else Some s)"

definition sectors_of :: "u16 list \<Rightarrow> u64" where
  "sectors_of data =
     ucast (data ! 100) OR push_bit 16 (ucast (data ! 101)) OR push_bit 32 (ucast (data ! 102)) OR
     push_bit 48 (ucast (data ! 103))"

text \<open>\<open>node\<close> is the address \<^verbatim>\<open>kmalloc\<close> gives for the device; the drive found is returned by value.\<close>

definition ATA_probe ::
    "'d ports \<Rightarrow> ptr \<Rightarrow> u16 \<Rightarrow> u8 \<Rightarrow> u8 list \<Rightarrow> ll \<Rightarrow> ('d, 'a) dev_state_scheme \<Rightarrow>
     (ata_block_dev option \<times> ll \<times> ('d, 'a) dev_state_scheme) option" where
  "ATA_probe P node base slave name l s =
     (let s = outb P (DEV_CTRL_REG base) 0x2 s;
          (status, s) = inb P (STAT_REG base) s
      in if status = FLOATING_BUS then Some (None, l, s)
      else
        let s = outb P (DRIVE_HEAD_REG base) (if slave \<noteq> 0 then CMD_SELECT_SLAVE else CMD_SELECT_MASTER) s;
            s = outb P (SEC_CNT_REG base) 0 s;
            s = outb P (SEC_NUM_REG base) 0 s;
            s = outb P (CYL_LOW_REG base) 0 s;
            s = outb P (CYL_HIGH_REG base) 0 s;
            s = outb P (CMD_REG base) CMD_IDENTIFY s;
            (status, s) = inb P (STAT_REG base) s
        in if status = 0 then Some (None, l, s)
      else Option.bind (ATA_status_loop P (\<lambda>st. st AND STAT_BSY \<noteq> 0) base s) (\<lambda>s.
        let (lo, s) = inb P (CYL_LOW_REG base) s
        in if lo \<noteq> 0 then Some (None, l, s)
      else
        let (hi, s) = inb P (CYL_HIGH_REG base) s
        in if hi \<noteq> 0 then Some (None, l, s)
      else Option.bind (ATA_status_loop P (\<lambda>st. st AND STAT_DRQ \<noteq> 0 \<and> st AND STAT_ERR \<noteq> 0) base s) (\<lambda>s.
        let (e, s) = inb P (ERROR_REG base) s
        in if e \<noteq> 0 then Some (None, l, s)
      else
        let (data, s) = read_words P (DATA_REG base) 256 s
        in if data ! 83 AND 0x400 = 0 then Some (None, l, s)
      else
        let d = \<lparr>tot_len = sectors_of data, read_block = ATA_reader, blk_size = 512, bd_type = MASS_STORAGE,
                 bd_name = name, ata_base = base, ata_slave = slave\<rparr>;
            (_, l) = BLK_register node (l\<lparr>ll_next := (ll_next l)(node := NULL)\<rparr>)
        in Some (Some d, l, s))))"

section \<open>What a drive does\<close>

text \<open>
  The registers of an ATA drive as its specification describes them: each of the count and address
  registers keeps the last two bytes written, the busy bit stays set for some number of status
  reads after a command, and the data of a sector is read word by word.
\<close>

record ata_regs =
  ar_head :: u8
  ar_cnt :: "u8 \<times> u8"
  ar_low :: "u8 \<times> u8"
  ar_mid :: "u8 \<times> u8"
  ar_high :: "u8 \<times> u8"
  ar_busy :: nat
  ar_data :: "u16 list"

definition lba48 :: "ata_regs \<Rightarrow> u64" where
  "lba48 r =
     ucast (fst (ar_low r)) OR push_bit 8 (ucast (fst (ar_mid r))) OR push_bit 16 (ucast (fst (ar_high r))) OR
     push_bit 24 (ucast (snd (ar_low r))) OR push_bit 32 (ucast (snd (ar_mid r))) OR push_bit 40 (ucast (snd (ar_high r)))"

text \<open>\<open>view\<close> reads the registers off the state of the devices; \<open>disk\<close> gives the contents of the sectors.\<close>

definition ata_writes :: "'d ports \<Rightarrow> u16 \<Rightarrow> ('d \<Rightarrow> ata_regs) \<Rightarrow> bool" where
  "ata_writes P base view \<longleftrightarrow>
     (\<forall>d v. view (port_outb P (DRIVE_HEAD_REG base) v d) = (view d)\<lparr>ar_head := v\<rparr> \<and>
        view (port_outb P (SEC_CNT_REG base) v d) = (view d)\<lparr>ar_cnt := (v, fst (ar_cnt (view d)))\<rparr> \<and>
        view (port_outb P (SEC_NUM_REG base) v d) = (view d)\<lparr>ar_low := (v, fst (ar_low (view d)))\<rparr> \<and>
        view (port_outb P (CYL_LOW_REG base) v d) = (view d)\<lparr>ar_mid := (v, fst (ar_mid (view d)))\<rparr> \<and>
        view (port_outb P (CYL_HIGH_REG base) v d) = (view d)\<lparr>ar_high := (v, fst (ar_high (view d)))\<rparr>)"

definition ata_commands :: "'d ports \<Rightarrow> u16 \<Rightarrow> u8 \<Rightarrow> (u64 \<Rightarrow> u16 list) \<Rightarrow> ('d \<Rightarrow> ata_regs) \<Rightarrow> bool" where
  "ata_commands P base slave disk view \<longleftrightarrow>
     (\<forall>d. ar_head (view d) = 0x40 OR push_bit 4 slave \<longrightarrow> ar_cnt (view d) = (1, 0) \<longrightarrow>
        (\<exists>k. view (port_outb P (CMD_REG base) CMD_READ_SECTORS_EXT d) =
          (view d)\<lparr>ar_busy := k, ar_data := disk (lba48 (view d))\<rparr>))"

definition ata_reads :: "'d ports \<Rightarrow> u16 \<Rightarrow> ('d \<Rightarrow> ata_regs) \<Rightarrow> bool" where
  "ata_reads P base view \<longleftrightarrow>
     (\<forall>d st d'. port_inb P (ALT_STAT_REG base) d = (st, d') \<longrightarrow>
        view d' = (view d)\<lparr>ar_busy := ar_busy (view d) - 1\<rparr> \<and>
        (st AND STAT_BSY \<noteq> 0 \<longleftrightarrow> 0 < ar_busy (view d)) \<and>
        (ar_busy (view d) = 0 \<longrightarrow> st AND STAT_ERR = 0 \<and> (st AND STAT_DRQ \<noteq> 0 \<longleftrightarrow> ar_data (view d) \<noteq> []))) \<and>
     (\<forall>d w ws. ar_busy (view d) = 0 \<longrightarrow> ar_data (view d) = w # ws \<longrightarrow>
        fst (port_inw P (DATA_REG base) d) = w \<and> view (snd (port_inw P (DATA_REG base) d)) = (view d)\<lparr>ar_data := ws\<rparr>)"

definition ata_drive :: "'d ports \<Rightarrow> 'x ata_block_dev_scheme \<Rightarrow> (u64 \<Rightarrow> u16 list) \<Rightarrow> ('d \<Rightarrow> ata_regs) \<Rightarrow> bool" where
  "ata_drive P d disk view \<longleftrightarrow>
     ata_writes P (ata_base d) view \<and> ata_commands P (ata_base d) (ata_slave d) disk view \<and>
     ata_reads P (ata_base d) view \<and> (\<forall>n. length (disk n) = 256) \<and> unat (tot_len d) \<le> 2 ^ 48"

lemma lba_bytes:
  assumes "unat n < 2 ^ 48"
  shows "ucast (lba_n n 0) OR push_bit 8 (ucast (lba_n n 1)) OR push_bit 16 (ucast (lba_n n 2)) OR
     push_bit 24 (ucast (lba_n n 3)) OR push_bit 32 (ucast (lba_n n 4)) OR push_bit 40 (ucast (lba_n n 5)) = (n :: u64)"
proof (rule bit_word_eqI)
  fix k assume k: "k < LENGTH(64)"
  have hi: "\<not> bit n k" if "48 \<le> k"
  proof -
    have "unat n < 2 ^ k" using assms that by (meson order_less_le_trans power_increasing one_le_numeral)
    then have "\<not> bit (unat n) k" by (simp add: bit_iff_odd)
    then show ?thesis by (simp add: bit_unsigned_iff)
  qed
  consider "k < 8" | "8 \<le> k \<and> k < 16" | "16 \<le> k \<and> k < 24" | "24 \<le> k \<and> k < 32" | "32 \<le> k \<and> k < 40" | "40 \<le> k \<and> k < 48" | "48 \<le> k"
    by linarith
  then show "bit (ucast (lba_n n 0) OR push_bit 8 (ucast (lba_n n 1)) OR push_bit 16 (ucast (lba_n n 2)) OR
     push_bit 24 (ucast (lba_n n 3)) OR push_bit 32 (ucast (lba_n n 4)) OR push_bit 40 (ucast (lba_n n 5)) :: u64) k = bit n k"
    using k hi by cases (auto simp: lba_n_def bit_simps)
qed

lemma alt_status:
  assumes "ata_reads P base view"
  shows "view (dev (snd (inb P (ALT_STAT_REG base) s))) = (view (dev s))\<lparr>ar_busy := ar_busy (view (dev s)) - 1\<rparr>"
    and "fst (inb P (ALT_STAT_REG base) s) AND STAT_BSY \<noteq> 0 \<longleftrightarrow> 0 < ar_busy (view (dev s))"
    and "ar_busy (view (dev s)) = 0 \<Longrightarrow> fst (inb P (ALT_STAT_REG base) s) AND STAT_ERR = 0"
    and "ar_busy (view (dev s)) = 0 \<Longrightarrow> fst (inb P (ALT_STAT_REG base) s) AND STAT_DRQ \<noteq> 0 \<longleftrightarrow> ar_data (view (dev s)) \<noteq> []"
proof -
  have "port_inb P (ALT_STAT_REG base) (dev s) =
      (fst (port_inb P (ALT_STAT_REG base) (dev s)), snd (port_inb P (ALT_STAT_REG base) (dev s)))" by simp
  note r = conjunct1 [OF assms [unfolded ata_reads_def], rule_format, OF this]
  from r show "view (dev (snd (inb P (ALT_STAT_REG base) s))) = (view (dev s))\<lparr>ar_busy := ar_busy (view (dev s)) - 1\<rparr>"
    "fst (inb P (ALT_STAT_REG base) s) AND STAT_BSY \<noteq> 0 \<longleftrightarrow> 0 < ar_busy (view (dev s))"
    by (simp_all add: port_only)
  from r show "fst (inb P (ALT_STAT_REG base) s) AND STAT_ERR = 0"
    "fst (inb P (ALT_STAT_REG base) s) AND STAT_DRQ \<noteq> 0 \<longleftrightarrow> ar_data (view (dev s)) \<noteq> []"
    if "ar_busy (view (dev s)) = 0" using that by (simp_all add: port_only)
qed

lemma poll_busy_ends:
  assumes "ata_reads P base view"
  shows "\<exists>s'. ATA_poll_busy P base s = Some s' \<and> view (dev s') = (view (dev s))\<lparr>ar_busy := 0\<rparr>"
proof (induction "ar_busy (view (dev s))" arbitrary: s rule: less_induct)
  case less
  obtain st d' where r: "port_inb P (ALT_STAT_REG base) (dev s) = (st, d')" by fastforce
  let ?s = "s\<lparr>dev := d'\<rparr>"
  have v: "view d' = (view (dev s))\<lparr>ar_busy := ar_busy (view (dev s)) - 1\<rparr>"
    "st AND STAT_BSY \<noteq> 0 \<longleftrightarrow> 0 < ar_busy (view (dev s))"
    using assms r unfolding ata_reads_def by blast+
  show ?case
  proof (cases "0 < ar_busy (view (dev s))")
    case True
    with less.hyps [of ?s] v(1) obtain s' where "ATA_poll_busy P base ?s = Some s'" "view (dev s') = (view (dev s))\<lparr>ar_busy := 0\<rparr>"
      by auto
    with v(2) r True show ?thesis by (subst ATA_poll_busy.simps) (simp add: inb_def)
  next
    case False
    with v r show ?thesis by (subst ATA_poll_busy.simps) (simp add: inb_def)
  qed
qed

lemma read_words_all:
  assumes "ata_reads P base view"
  shows "ar_busy (view (dev s)) = 0 \<Longrightarrow> ar_data (view (dev s)) = ws \<Longrightarrow> read_words P (DATA_REG base) (length ws) s = (us, s') \<Longrightarrow>
     us = ws \<and> view (dev s') = (view (dev s))\<lparr>ar_data := []\<rparr>"
proof (induction ws arbitrary: s us s')
  case Nil
  then show ?case by auto
next
  case (Cons w ws)
  let ?s = "snd (inw P (DATA_REG base) s)"
  have w: "fst (port_inw P (DATA_REG base) (dev s)) = w" "view (snd (port_inw P (DATA_REG base) (dev s))) = (view (dev s))\<lparr>ar_data := ws\<rparr>"
    using assms Cons.prems(1,2) unfolding ata_reads_def by blast+
  obtain vs t where r: "read_words P (DATA_REG base) (length ws) ?s = (vs, t)" by fastforce
  have "us = w # vs \<and> s' = t" using Cons.prems(3) r by (simp add: split_beta port_only w Let_def)
  with Cons.IH [OF _ _ r] w(2) Cons.prems(1) show ?case by (simp add: port_only)
qed

section \<open>A store of blocks\<close>

text \<open>
  What a file system relies on: reading a block inside the device succeeds with the contents of the
  block, 512 bytes that do not change, and leaves the device readable.
\<close>

locale block_store =
  fixes rd :: "u64 \<Rightarrow> 's \<Rightarrow> ((int \<times> u8 list) \<times> 's) res option"
    and sector :: "u64 \<Rightarrow> u8 list"
    and extent :: u64
    and inv :: "'s \<Rightarrow> bool"
  assumes read_ok: "inv s \<Longrightarrow> n < extent \<Longrightarrow> \<exists>s'. rd n s = Some (Inr ((1, sector n), s')) \<and> inv s'"
    and read_past: "inv s \<Longrightarrow> extent \<le> n \<Longrightarrow> rd n s = Some (Inr ((- 1, []), s))"
    and sector_length: "inv s \<Longrightarrow> length (sector n) = 512"

text \<open>Reading blocks one after another.\<close>

fun read_blocks :: "(u64 \<Rightarrow> 's \<Rightarrow> ((int \<times> u8 list) \<times> 's) res option) \<Rightarrow> u64 list \<Rightarrow> 's \<Rightarrow> (u8 list \<times> 's) res option" where
  "read_blocks rd [] s = Some (Inr ([], s))"
| "read_blocks rd (n # ns) s =
     bind_ro (rd n s) (\<lambda>((r, b), s). bind_ro (read_blocks rd ns s) (\<lambda>(bs, s). Some (Inr (b @ bs, s))))"

context block_store begin

lemma read_blocks_ok:
  "inv s \<Longrightarrow> \<forall>n \<in> set ns. n < extent \<Longrightarrow>
     \<exists>s'. read_blocks rd ns s = Some (Inr (concat (map sector ns), s')) \<and> inv s'"
proof (induction ns arbitrary: s)
  case (Cons n ns)
  obtain s1 where "rd n s = Some (Inr ((1, sector n), s1))" "inv s1"
    using read_ok [of s n] Cons.prems by auto
  with Cons.IH [of s1] Cons.prems(2) show ?case by auto
qed simp

end

lemma length_bytes_of: "length (bytes_of ws) = 2 * length ws"
  by (induction ws) (simp_all add: bytes_of_def)

lemma select_block_view:
  assumes "ata_drive P d disk view"
  shows "view (dev (ATA_select_block P d n s)) = (view (dev s))
     \<lparr>ar_head := 0x40 OR push_bit 4 (ata_slave d), ar_cnt := (1, 0), ar_low := (lba_n n 0, lba_n n 3),
      ar_mid := (lba_n n 1, lba_n n 4), ar_high := (lba_n n 2, lba_n n 5)\<rparr>"
  using assms by (simp add: ATA_select_block_def outb_def Let_def ata_drive_def ata_writes_def)

lemma ATA_read_block_ok:
  assumes D: "ata_drive P d disk view" and n: "n < tot_len d" and idle: "ar_data (view (dev s)) = []"
  shows "\<exists>s'. ATA_read_block P d n s = Some (Inr ((1, bytes_of (disk n)), s')) \<and> ar_data (view (dev s')) = []"
proof -
  let ?base = "ata_base d" and ?s = "ATA_select_block P d n s"
  let ?t = "outb P (CMD_REG ?base) CMD_READ_SECTORS_EXT ?s"
  note v = select_block_view [OF D, of n s]
  have R: "ata_reads P ?base view" and l: "length (disk n) = 256" and tl: "unat (tot_len d) \<le> 2 ^ 48"
    using D by (simp_all add: ata_drive_def)
  have "unat n < 2 ^ 48" using n tl by (simp add: word_less_nat_alt)
  then have lba: "lba48 (view (dev ?s)) = n" using lba_bytes [of n] by (simp add: lba48_def v)
  have hd: "ar_head (view (dev ?s)) = 0x40 OR push_bit 4 (ata_slave d)" "ar_cnt (view (dev ?s)) = (1, 0)"
    by (simp_all add: v)
  have C: "ata_commands P ?base (ata_slave d) disk view" using D by (simp add: ata_drive_def)
  obtain k where t: "view (dev ?t) = (view (dev ?s))\<lparr>ar_busy := k, ar_data := disk n\<rparr>"
    using C [unfolded ata_commands_def, rule_format, OF hd] lba by (auto simp: outb_def)
  let ?delay = "\<lambda>s. snd (inb P (ALT_STAT_REG ?base) s)"
  have dl: "\<exists>k. view (dev ((?delay ^^ j) ?t)) = (view (dev ?s))\<lparr>ar_busy := k, ar_data := disk n\<rparr>" for j
  proof (induction j)
    case (Suc j)
    then obtain k where "view (dev ((?delay ^^ j) ?t)) = (view (dev ?s))\<lparr>ar_busy := k, ar_data := disk n\<rparr>" by blast
    then show ?case by (intro exI [of _ "k - 1"]) (simp add: alt_status(1) [OF R])
  qed (use t in auto)
  then obtain k4 where d4: "view (dev ((?delay ^^ 4) ?t)) = (view (dev ?s))\<lparr>ar_busy := k4, ar_data := disk n\<rparr>" by blast
  obtain u where u: "ATA_poll_busy P ?base ((?delay ^^ 4) ?t) = Some u"
    and vu: "view (dev u) = (view (dev ?s))\<lparr>ar_busy := 0, ar_data := disk n\<rparr>"
    using poll_busy_ends [OF R, of "(?delay ^^ 4) ?t"] d4 by auto
  let ?w = "?delay u"
  have w: "view (dev ?w) = (view (dev ?s))\<lparr>ar_busy := 0, ar_data := disk n\<rparr>"
    by (simp add: alt_status(1) [OF R] vu)
  have "disk n \<noteq> []" using l by force
  then have pd: "ATA_poll_data P ?base u = Some (Inr ?w)"
    using alt_status(3,4) [OF R, of u] vu by (subst ATA_poll_data.simps) (simp add: split_beta)
  obtain us x where r: "read_words P (DATA_REG ?base) 256 ?w = (us, x)" by fastforce
  have us: "us = disk n" "view (dev x) = (view (dev ?s))\<lparr>ar_busy := 0, ar_data := []\<rparr>"
    using read_words_all [OF R, of ?w "disk n" us x] w r l by simp_all
  let ?st = "fst (inb P (ALT_STAT_REG ?base) x)"
  have st: "?st AND STAT_BSY = 0" "?st AND STAT_DRQ = 0" "?st AND STAT_ERR = 0"
    using alt_status(2-4) [OF R, of x] us(2) by simp_all
  have "ATA_read_block P d n s = Some (Inr ((1, bytes_of (disk n)), ?delay x))"
    using n u pd r us(1) st by (simp add: ATA_read_block_def ATA_poll_def split_beta Let_def)
  moreover have "ar_data (view (dev (?delay x))) = []" by (simp add: alt_status(1) [OF R] us(2))
  ultimately show ?thesis by blast
qed

text \<open>Whatever the drive does, a read changes nothing but the devices.\<close>

lemma poll_busy_dev: "ATA_poll_busy P base s = Some s' \<Longrightarrow> dev_only s s'"
  by (erule ATA_poll_busy.raw_induct [where P = "\<lambda>P base s s'. dev_only s s'", rotated])
    (auto simp: split_beta Let_def split: if_splits, metis dev_only_after)

lemma poll_data_dev: "ATA_poll_data P base s = Some r \<Longrightarrow> \<forall>s'. r = Inr s' \<longrightarrow> dev_only s s'"
  by (erule ATA_poll_data.raw_induct [where P = "\<lambda>P base s r. \<forall>s'. r = Inr s' \<longrightarrow> dev_only s s'", rotated])
    (auto simp: split_beta Let_def split: if_splits, metis dev_only_after)

lemma status_loop_dev: "ATA_status_loop P again base s = Some s' \<Longrightarrow> dev_only s s'"
  by (erule ATA_status_loop.raw_induct [where P = "\<lambda>P again base s s'. dev_only s s'", rotated])
    (auto simp: split_beta Let_def split: if_splits, metis dev_only_after)

lemma read_words_dev: "read_words P port n s = (ws, s') \<Longrightarrow> dev_only s s'"
proof (induction n arbitrary: s ws s')
  case (Suc n)
  obtain vs t where r: "read_words P port n (snd (inw P port s)) = (vs, t)" by fastforce
  with Suc.prems have "s' = t" by (simp add: split_beta Let_def)
  with Suc.IH [OF r] dev_only_trans [of s "snd (inw P port s)"] show ?case by simp
qed simp

lemma select_block_dev: "dev_only s (ATA_select_block P d n s)"
  unfolding ATA_select_block_def Let_def by simp

lemma ATA_read_block_dev:
  assumes "ATA_read_block P d n s = Some (Inr (r, s'))"
  shows "dev_only s s'"
proof (cases "tot_len d \<le> n")
  case False
  let ?b = "ata_base d"
  let ?s = "outb P (CMD_REG ?b) CMD_READ_SECTORS_EXT (ATA_select_block P d n s)"
  let ?delay = "\<lambda>s. snd (inb P (ALT_STAT_REG ?b) s)"
  have dl: "dev_only s ((?delay ^^ j) ?s)" for j by (induction j) (simp_all add: select_block_dev)
  from assms False obtain u where p: "ATA_poll P ?b ?s = Some (Inr u)" and s': "s' = ?delay (snd (read_words P (DATA_REG ?b) 256 u))"
    by (auto simp: ATA_read_block_def Let_def split_beta bind_ro_Inr split: if_splits)
  then obtain t where t: "ATA_poll_busy P ?b ((?delay ^^ 4) ?s) = Some t" and u: "ATA_poll_data P ?b t = Some (Inr u)"
    by (auto simp: ATA_poll_def bind_eq_Some_conv)
  have "dev_only s t" using dev_only_trans [OF dl poll_busy_dev [OF t]] .
  moreover have "dev_only t u" using poll_data_dev [OF u] by simp
  moreover have "dev_only u (snd (read_words P (DATA_REG ?b) 256 u))" by (rule read_words_dev [OF prod.collapse [symmetric]])
  ultimately have "dev_only s (snd (read_words P (DATA_REG ?b) 256 u))" using dev_only_trans by blast
  then show ?thesis by (simp add: s')
qed (use assms in \<open>simp add: ATA_read_block_def\<close>)

text \<open>Blocks of a drive: what a read through the driver returns.\<close>

definition ata_idle :: "'d ports \<Rightarrow> 'x ata_block_dev_scheme \<Rightarrow> (u64 \<Rightarrow> u16 list) \<Rightarrow> ('d \<Rightarrow> ata_regs) \<Rightarrow> ('d, 'a) dev_state_scheme \<Rightarrow> bool" where
  "ata_idle P d disk view s \<longleftrightarrow> ata_drive P d disk view \<and> ar_data (view (dev s)) = []"

interpretation ata: block_store "ATA_read_block P d" "\<lambda>n. bytes_of (disk n)" "tot_len d" "ata_idle P d disk view"
  for P d disk view
proof unfold_locales
  fix s :: "('a, 'c) dev_state_scheme" and n
  assume i: "ata_idle P d disk view s"
  then have D: "ata_drive P d disk view" "ar_data (view (dev s)) = []" by (simp_all add: ata_idle_def)
  show "n < tot_len d \<Longrightarrow> \<exists>s'. ATA_read_block P d n s = Some (Inr ((1, bytes_of (disk n)), s')) \<and> ata_idle P d disk view s'"
    using ATA_read_block_ok [OF D(1) _ D(2)] D(1) by (auto simp: ata_idle_def)
  show "tot_len d \<le> n \<Longrightarrow> ATA_read_block P d n s = Some (Inr ((- 1, []), s))"
    by (simp add: ATA_read_block_def)
  show "length (bytes_of (disk n)) = 512" using D(1) by (simp add: length_bytes_of ata_drive_def)
qed

subsection \<open>Finding a drive\<close>

text \<open>
  A drive that is there answers \<^verbatim>\<open>IDENTIFY\<close> with the words \<open>idw\<close>. The status register shows no error and is
  neither zero nor floating; the cylinder registers keep what is written, as those of a packet device do not.
\<close>

definition ata_answers :: "'d ports \<Rightarrow> u16 \<Rightarrow> u8 \<Rightarrow> u16 list \<Rightarrow> ('d \<Rightarrow> ata_regs) \<Rightarrow> bool" where
  "ata_answers P base slave idw view \<longleftrightarrow> length idw = 256 \<and>
     (\<forall>d. view (port_outb P (DEV_CTRL_REG base) 0x2 d) = view d) \<and>
     (\<forall>d. ar_head (view d) = (if slave \<noteq> 0 then CMD_SELECT_SLAVE else CMD_SELECT_MASTER) \<longrightarrow>
        fst (ar_cnt (view d)) = 0 \<and> fst (ar_low (view d)) = 0 \<and> fst (ar_mid (view d)) = 0 \<and> fst (ar_high (view d)) = 0 \<longrightarrow>
        (\<exists>k. view (port_outb P (CMD_REG base) CMD_IDENTIFY d) = (view d)\<lparr>ar_busy := k, ar_data := idw\<rparr>)) \<and>
     (\<forall>d st d'. port_inb P (STAT_REG base) d = (st, d') \<longrightarrow>
        view d' = (view d)\<lparr>ar_busy := ar_busy (view d) - 1\<rparr> \<and> st \<noteq> 0 \<and> st \<noteq> FLOATING_BUS \<and> st AND STAT_ERR = 0 \<and>
        (st AND STAT_BSY \<noteq> 0 \<longleftrightarrow> 0 < ar_busy (view d))) \<and>
     (\<forall>d. fst (port_inb P (CYL_LOW_REG base) d) = fst (ar_mid (view d)) \<and> view (snd (port_inb P (CYL_LOW_REG base) d)) = view d) \<and>
     (\<forall>d. fst (port_inb P (CYL_HIGH_REG base) d) = fst (ar_high (view d)) \<and> view (snd (port_inb P (CYL_HIGH_REG base) d)) = view d) \<and>
     (\<forall>d. fst (port_inb P (ERROR_REG base) d) = 0 \<and> view (snd (port_inb P (ERROR_REG base) d)) = view d)"

lemma ata_status:
  assumes "ata_answers P base slave idw view"
  shows "view (dev (snd (inb P (STAT_REG base) s))) = (view (dev s))\<lparr>ar_busy := ar_busy (view (dev s)) - 1\<rparr>"
    and "fst (inb P (STAT_REG base) s) \<noteq> 0" and "fst (inb P (STAT_REG base) s) \<noteq> FLOATING_BUS"
    and "fst (inb P (STAT_REG base) s) AND STAT_ERR = 0"
    and "fst (inb P (STAT_REG base) s) AND STAT_BSY \<noteq> 0 \<longleftrightarrow> 0 < ar_busy (view (dev s))"
proof -
  have e: "port_inb P (STAT_REG base) (dev s) = (fst (port_inb P (STAT_REG base) (dev s)), snd (port_inb P (STAT_REG base) (dev s)))" by simp
  from assms have "\<forall>d st d'. port_inb P (STAT_REG base) d = (st, d') \<longrightarrow>
        view d' = (view d)\<lparr>ar_busy := ar_busy (view d) - 1\<rparr> \<and> st \<noteq> 0 \<and> st \<noteq> FLOATING_BUS \<and> st AND STAT_ERR = 0 \<and>
        (st AND STAT_BSY \<noteq> 0 \<longleftrightarrow> 0 < ar_busy (view d))" by (simp add: ata_answers_def)
  from this [rule_format, OF e] show "view (dev (snd (inb P (STAT_REG base) s))) = (view (dev s))\<lparr>ar_busy := ar_busy (view (dev s)) - 1\<rparr>"
    "fst (inb P (STAT_REG base) s) \<noteq> 0" "fst (inb P (STAT_REG base) s) \<noteq> FLOATING_BUS"
    "fst (inb P (STAT_REG base) s) AND STAT_ERR = 0"
    "fst (inb P (STAT_REG base) s) AND STAT_BSY \<noteq> 0 \<longleftrightarrow> 0 < ar_busy (view (dev s))"
    by (simp_all add: port_only)
qed

lemma ata_identify_regs:
  assumes "ata_answers P base slave idw view"
  shows "view (dev (outb P (DEV_CTRL_REG base) 0x2 s)) = view (dev s)"
    and "fst (inb P (CYL_LOW_REG base) s) = fst (ar_mid (view (dev s)))" "view (dev (snd (inb P (CYL_LOW_REG base) s))) = view (dev s)"
    and "fst (inb P (CYL_HIGH_REG base) s) = fst (ar_high (view (dev s)))" "view (dev (snd (inb P (CYL_HIGH_REG base) s))) = view (dev s)"
    and "fst (inb P (ERROR_REG base) s) = 0" "view (dev (snd (inb P (ERROR_REG base) s))) = view (dev s)"
proof -
  note a = assms [unfolded ata_answers_def]
  show "view (dev (outb P (DEV_CTRL_REG base) 0x2 s)) = view (dev s)"
    "fst (inb P (CYL_LOW_REG base) s) = fst (ar_mid (view (dev s)))" "view (dev (snd (inb P (CYL_LOW_REG base) s))) = view (dev s)"
    "fst (inb P (CYL_HIGH_REG base) s) = fst (ar_high (view (dev s)))" "view (dev (snd (inb P (CYL_HIGH_REG base) s))) = view (dev s)"
    "fst (inb P (ERROR_REG base) s) = 0" "view (dev (snd (inb P (ERROR_REG base) s))) = view (dev s)"
    using a by (simp_all add: outb_def port_only)
qed

lemma status_loop_busy:
  assumes "ata_answers P base slave idw view"
  shows "\<exists>s'. ATA_status_loop P (\<lambda>st. st AND STAT_BSY \<noteq> 0) base s = Some s' \<and> view (dev s') = (view (dev s))\<lparr>ar_busy := 0\<rparr>"
proof (induction "ar_busy (view (dev s))" arbitrary: s rule: less_induct)
  case less
  note a = ata_status [OF assms, of s]
  let ?s = "snd (inb P (STAT_REG base) s)"
  show ?case
  proof (cases "0 < ar_busy (view (dev s))")
    case True
    with less.hyps [of ?s] a(1) obtain s' where "ATA_status_loop P (\<lambda>st. st AND STAT_BSY \<noteq> 0) base ?s = Some s'"
      "view (dev s') = (view (dev s))\<lparr>ar_busy := 0\<rparr>" by auto
    with a(5) True show ?thesis by (subst ATA_status_loop.simps) (simp add: split_beta)
  next
    case False
    with a(1,5) show ?thesis by (subst ATA_status_loop.simps) (simp add: split_beta)
  qed
qed

definition drive_of :: "u16 \<Rightarrow> u8 \<Rightarrow> u8 list \<Rightarrow> u16 list \<Rightarrow> ata_block_dev" where
  "drive_of base slave name idw = \<lparr>tot_len = sectors_of idw, read_block = ATA_reader, blk_size = 512, bd_type = MASS_STORAGE,
     bd_name = name, ata_base = base, ata_slave = slave\<rparr>"

lemma ATA_probe_finds:
  assumes a: "ata_answers P base slave idw view" and D: "ata_drive P (drive_of base slave name idw) disk view" and l48: "idw ! 83 AND 0x400 \<noteq> 0"
  shows "\<exists>s'. ATA_probe P node base slave name l s =
       Some (Some (drive_of base slave name idw), LL_APPEND node (l\<lparr>ll_next := (ll_next l)(node := NULL)\<rparr>), s') \<and>
     ata_idle P (drive_of base slave name idw) disk view s' \<and> dev_only s s'"
proof -
  have W: "ata_writes P base view" and R: "ata_reads P base view" using D by (simp_all add: ata_drive_def drive_of_def)
  note st = ata_status [OF a] and rg = ata_identify_regs [OF a]
  let ?sel = "if slave \<noteq> 0 then CMD_SELECT_SLAVE else CMD_SELECT_MASTER"
  let ?s1 = "snd (inb P (STAT_REG base) (outb P (DEV_CTRL_REG base) 0x2 s))"
  let ?s2 = "outb P (CYL_HIGH_REG base) 0 (outb P (CYL_LOW_REG base) 0 (outb P (SEC_NUM_REG base) 0 (outb P (SEC_CNT_REG base) 0
     (outb P (DRIVE_HEAD_REG base) ?sel ?s1))))"
  have v2: "ar_head (view (dev ?s2)) = ?sel" "fst (ar_cnt (view (dev ?s2))) = 0" "fst (ar_low (view (dev ?s2))) = 0"
    "fst (ar_mid (view (dev ?s2))) = 0" "fst (ar_high (view (dev ?s2))) = 0"
    using W by (simp_all add: ata_writes_def outb_def)
  from a have id: "\<forall>d. ar_head (view d) = ?sel \<longrightarrow>
        fst (ar_cnt (view d)) = 0 \<and> fst (ar_low (view d)) = 0 \<and> fst (ar_mid (view d)) = 0 \<and> fst (ar_high (view d)) = 0 \<longrightarrow>
        (\<exists>k. view (port_outb P (CMD_REG base) CMD_IDENTIFY d) = (view d)\<lparr>ar_busy := k, ar_data := idw\<rparr>)" by (simp add: ata_answers_def)
  let ?s3 = "outb P (CMD_REG base) CMD_IDENTIFY ?s2"
  obtain k where v3: "view (dev ?s3) = (view (dev ?s2))\<lparr>ar_busy := k, ar_data := idw\<rparr>"
    using id [rule_format, of "dev ?s2"] v2 by (auto simp: outb_def)
  let ?s4 = "snd (inb P (STAT_REG base) ?s3)"
  obtain s5 where l5: "ATA_status_loop P (\<lambda>st. st AND STAT_BSY \<noteq> 0) base ?s4 = Some s5"
    and v5: "view (dev s5) = (view (dev ?s4))\<lparr>ar_busy := 0\<rparr>" using status_loop_busy [OF a] by blast
  let ?s6 = "snd (inb P (CYL_HIGH_REG base) (snd (inb P (CYL_LOW_REG base) s5)))"
  have z: "fst (inb P (CYL_LOW_REG base) s5) = 0" "fst (inb P (CYL_HIGH_REG base) (snd (inb P (CYL_LOW_REG base) s5))) = 0"
    using v2 by (simp_all add: rg v5 st(1) v3)
  let ?s7 = "snd (inb P (STAT_REG base) ?s6)"
  have l7: "ATA_status_loop P (\<lambda>st. st AND STAT_DRQ \<noteq> 0 \<and> st AND STAT_ERR \<noteq> 0) base ?s6 = Some ?s7"
    using st(4) [of ?s6] by (subst ATA_status_loop.simps) (simp add: split_beta)
  let ?s8 = "snd (inb P (ERROR_REG base) ?s7)"
  have v8: "view (dev ?s8) = (view (dev ?s2))\<lparr>ar_busy := 0, ar_data := idw\<rparr>"
    by (simp add: rg v5 st(1) v3)
  obtain ws s9 where w: "read_words P (DATA_REG base) 256 ?s8 = (ws, s9)" by fastforce
  have li: "length idw = 256" using a by (simp add: ata_answers_def)
  from read_words_all [OF R, of ?s8 idw ws s9] v8 w li have ws: "ws = idw" "ar_data (view (dev s9)) = []" by auto
  let ?l = "LL_APPEND node (l\<lparr>ll_next := (ll_next l)(node := NULL)\<rparr>)"
  have run: "ATA_probe P node base slave name l s = Some (Some (drive_of base slave name idw), ?l, s9)"
    using l5 l7 w z ws(1) l48
    by (simp add: ATA_probe_def Let_def split_beta BLK_register_def drive_of_def st(2,3) rg(6) split del: if_split)
  have "dev_only s ?s4" "dev_only ?s4 s5" "dev_only s5 ?s8" "dev_only ?s8 s9"
    using status_loop_dev [OF l5] read_words_dev [OF w] by simp_all
  then have "dev_only s s9" using dev_only_trans by blast
  with run D ws(2) show ?thesis by (auto simp: ata_idle_def)
qed

section \<open>Properties\<close>

text \<open>
  C21: On a drive that behaves as the ATA specification says, with any number of busy polls,
  \<^verbatim>\<open>ATA_read_block\<close> ends, returns the 512 bytes of exactly the block asked for, whatever 48 bit
  block number it is, and leaves the drive ready for the next read; a block number past the end
  is refused.
\<close>

theorem ATA_read_block_reads_sector:
  assumes "ata_idle P d disk view s"
  shows "\<exists>s'. ATA_read_block P d n s = Some (Inr (if n < tot_len d then (1, bytes_of (disk n)) else (- 1, []), s')) \<and>
     length (bytes_of (disk n)) = 512 \<and> ata_idle P d disk view s'"
proof (cases "n < tot_len d")
  case True
  with ata.read_ok [OF assms True] ata.sector_length [OF assms] show ?thesis by auto
next
  case False
  with ata.read_past [OF assms, of n] ata.sector_length [OF assms] assms show ?thesis by (auto simp: not_less)
qed

definition drive_ports :: "u16 \<Rightarrow> (u64 \<Rightarrow> u16 list) \<Rightarrow> ata_regs ports" where
  "drive_ports b disk = \<lparr>
     port_inb = \<lambda>p r. if p = ALT_STAT_REG b then
         (if 0 < ar_busy r then STAT_BSY else if ar_data r \<noteq> [] then STAT_DRQ else 0, r\<lparr>ar_busy := ar_busy r - 1\<rparr>)
       else (0, r),
     port_inw = \<lambda>p r. if p = DATA_REG b \<and> ar_data r \<noteq> [] then (hd (ar_data r), r\<lparr>ar_data := tl (ar_data r)\<rparr>) else (0, r),
     port_outb = \<lambda>p v r. if p = DRIVE_HEAD_REG b then r\<lparr>ar_head := v\<rparr>
       else if p = SEC_CNT_REG b then r\<lparr>ar_cnt := (v, fst (ar_cnt r))\<rparr>
       else if p = SEC_NUM_REG b then r\<lparr>ar_low := (v, fst (ar_low r))\<rparr>
       else if p = CYL_LOW_REG b then r\<lparr>ar_mid := (v, fst (ar_mid r))\<rparr>
       else if p = CYL_HIGH_REG b then r\<lparr>ar_high := (v, fst (ar_high r))\<rparr>
       else if p = CMD_REG b \<and> v = CMD_READ_SECTORS_EXT then r\<lparr>ar_busy := 9, ar_data := disk (lba48 r)\<rparr>
       else r,
     port_outw = \<lambda>_ _ r. r\<rparr>"

definition sda :: ata_block_dev where
  "sda = \<lparr>tot_len = 1000, read_block = ATA_reader, blk_size = 512, bd_type = MASS_STORAGE,
     bd_name = [115, 100, 97], ata_base = 0x1F0, ata_slave = 0\<rparr>"

definition blk_example :: "'d \<Rightarrow> 'd dev_state" where
  "blk_example d = \<lparr>sc_procs = (\<lambda>_. zero_process), sc_queue = \<lparr>q_head = NULL, q_tail = NULL\<rparr>,
     sc_current = NULL, pr_curr = NULL, pr_next = NULL, pr_pid = 0, pr_orig = 64, pr_waitq = (\<lambda>_. \<lparr>q_head = NULL, q_tail = NULL\<rparr>),
     pr_cpu = zero_regfile, dev = d\<rparr>"

definition idle_regs :: ata_regs where
  "idle_regs = \<lparr>ar_head = 0, ar_cnt = (0, 0), ar_low = (0, 0), ar_mid = (0, 0), ar_high = (0, 0), ar_busy = 0, ar_data = []\<rparr>"

lemma drive_ports_ok:
  assumes "\<And>n. length (disk n) = 256"
  shows "ata_idle (drive_ports 0x1F0 disk) sda disk (\<lambda>r. r) (blk_example idle_regs)"
proof -
  note regs = DATA_REG_def DRIVE_HEAD_REG_def SEC_CNT_REG_def SEC_NUM_REG_def CYL_LOW_REG_def CYL_HIGH_REG_def
    CMD_REG_def ALT_STAT_REG_def
  have "ata_writes (drive_ports 0x1F0 disk) 0x1F0 (\<lambda>r. r)"
    by (simp add: ata_writes_def drive_ports_def regs)
  moreover have "ata_commands (drive_ports 0x1F0 disk) 0x1F0 0 disk (\<lambda>r. r)"
    by (auto simp: ata_commands_def drive_ports_def regs intro!: exI [of _ 9])
  moreover have "ata_reads (drive_ports 0x1F0 disk) 0x1F0 (\<lambda>r. r)"
    by (auto simp: ata_reads_def drive_ports_def regs STAT_BSY_def STAT_DRQ_def STAT_ERR_def)
  ultimately show ?thesis
    using assms by (simp add: ata_idle_def ata_drive_def sda_def blk_example_def idle_regs_def)
qed

theorem ATA_read_block_reads_sector_witness:
  "\<exists>s'. ATA_read_block (drive_ports 0x1F0 (\<lambda>n. replicate 256 (ucast n))) sda 777 (blk_example idle_regs) =
     Some (Inr ((1, bytes_of (replicate 256 777)), s'))"
proof -
  have "ata_idle (drive_ports 0x1F0 (\<lambda>n. replicate 256 (ucast n))) sda (\<lambda>n. replicate 256 (ucast n)) (\<lambda>r. r) (blk_example idle_regs)"
    by (rule drive_ports_ok) simp
  from ATA_read_block_reads_sector [OF this, of 777] show ?thesis by (auto simp: sda_def)
qed

end
