(* ===== verification/Partition.thy ===== *)
theory Partition
  imports Block_Dev
begin

text \<open>
  Disk partitions (\<^verbatim>\<open>fs/part.c\<close>): the master boot record of a drive and the block devices for its
  FAT32 partitions, which read through the drive at an offset.
\<close>

section \<open>State and operations\<close>

definition BLOCK_SIZE :: nat where "BLOCK_SIZE = 512"
definition FAT32_LBA_TYPE :: u8 where "FAT32_LBA_TYPE = 0xC"

record part_block_dev = ata_block_dev +
  lba_offset :: u32
  num_sectors :: u32

record part_entry =
  pe_type :: u8
  pe_lba_addr :: u32
  pe_num_sectors :: u32

definition le16 :: "u8 list \<Rightarrow> nat \<Rightarrow> u16" where
  "le16 b i = ucast (b ! i) OR push_bit 8 (ucast (b ! Suc i))"

definition le32 :: "u8 list \<Rightarrow> nat \<Rightarrow> u32" where
  "le32 b i = ucast (le16 b i) OR push_bit 16 (ucast (le16 b (i + 2)))"

text \<open>Entry \<open>i\<close> of the partition table in the boot block.\<close>

definition part_entry_at :: "u8 list \<Rightarrow> nat \<Rightarrow> part_entry" where
  "part_entry_at block i =
     (let p = 446 + 16 * i
      in \<lparr>pe_type = block ! (p + 4), pe_lba_addr = le32 block (p + 8), pe_num_sectors = le32 block (p + 12)\<rparr>)"

definition part_read_block ::
    "'d ports \<Rightarrow> 'x part_block_dev_scheme \<Rightarrow> u64 \<Rightarrow> ('d, 'a) dev_state_scheme \<Rightarrow>
     ((int \<times> u8 list) \<times> ('d, 'a) dev_state_scheme) res option" where
  "part_read_block P part blk_num s =
     (if blk_num \<ge> ucast (num_sectors part) then Some (Inr ((- 1, []), s))
      else ATA_read_block P part (blk_num + ucast (lba_offset part)) s)"

text \<open>
  One round of the loop: \<open>drive_node\<close> is the address of the drive and \<open>node\<close> the one \<^verbatim>\<open>kmalloc\<close> gives
  for the partition. Copying the drive's structure copies its \<^verbatim>\<open>next\<close> pointer as well.
\<close>

definition add_partition ::
    "ptr \<Rightarrow> ptr \<Rightarrow> ata_block_dev \<Rightarrow> u8 list \<Rightarrow> nat \<Rightarrow> ll \<Rightarrow> part_block_dev option \<times> ll" where
  "add_partition drive_node node drive block i l =
     (let part = part_entry_at block i
      in if pe_type part \<noteq> FAT32_LBA_TYPE then (None, l)
         else
           let d = \<lparr>tot_len = tot_len drive, read_block = part_reader, blk_size = blk_size drive,
                    bd_type = PARTITION, bd_name = bd_name drive @ [48 + of_nat i],
                    ata_base = ata_base drive, ata_slave = ata_slave drive,
                    lba_offset = pe_lba_addr part, num_sectors = pe_num_sectors part\<rparr>;
               l = l\<lparr>ll_next := (ll_next l)(node := ll_next l drive_node)\<rparr>
           in (Some d, snd (BLK_register node l)))"

fun add_partitions ::
    "ptr \<Rightarrow> (nat \<Rightarrow> ptr) \<Rightarrow> ata_block_dev \<Rightarrow> u8 list \<Rightarrow> nat list \<Rightarrow> ll \<Rightarrow> part_block_dev option list \<times> ll" where
  "add_partitions drive_node nodes drive block [] l = ([], l)"
| "add_partitions drive_node nodes drive block (i # is) l =
     (let (p, l) = add_partition drive_node (nodes i) drive block i l;
          (ps, l) = add_partitions drive_node nodes drive block is l
      in (p # ps, l))"

text \<open>
  \<open>block0\<close> is what the uninitialised local \<^verbatim>\<open>block\<close> holds; the result of the read is not looked at.
\<close>

definition parse_MBR ::
    "'d ports \<Rightarrow> u8 list \<Rightarrow> ptr \<Rightarrow> (nat \<Rightarrow> ptr) \<Rightarrow> ata_block_dev \<Rightarrow> ll \<Rightarrow> ('d, 'a) dev_state_scheme \<Rightarrow>
     ((int \<times> part_block_dev option list \<times> ll) \<times> ('d, 'a) dev_state_scheme) res option" where
  "parse_MBR P block0 drive_node nodes drive l s =
     bind_ro (ATA_read_block P drive 0 s) (\<lambda>((_, bs), s).
       let block = bs @ drop (length bs) block0
       in if block ! 510 \<noteq> 0x55 \<or> block ! 511 \<noteq> 0xAA then Some (Inr ((- 1, [], l), s))
          else
            let (ps, l) = add_partitions drive_node nodes drive block [0..<4] l
            in Some (Inr ((1, ps, l), s)))"

section \<open>A partition is a store of blocks\<close>

definition part_idle :: "'d ports \<Rightarrow> 'x part_block_dev_scheme \<Rightarrow> (u64 \<Rightarrow> u16 list) \<Rightarrow> ('d \<Rightarrow> ata_regs) \<Rightarrow> ('d, 'a) dev_state_scheme \<Rightarrow> bool" where
  "part_idle P p disk view s \<longleftrightarrow>
     ata_idle P p disk view s \<and> unat (lba_offset p) + unat (num_sectors p) \<le> unat (tot_len p)"

definition part_sector :: "'x part_block_dev_scheme \<Rightarrow> (u64 \<Rightarrow> u16 list) \<Rightarrow> u64 \<Rightarrow> u8 list" where
  "part_sector p disk n = bytes_of (disk (n + ucast (lba_offset p)))"

lemma part_block_in_drive:
  assumes "unat (lba_offset p) + unat (num_sectors p) \<le> unat (tot_len p)" and "n < ucast (num_sectors p)"
  shows "n + ucast (lba_offset p) < tot_len p" and "unat (n + ucast (lba_offset p)) = unat n + unat (lba_offset p)"
proof -
  have n: "unat n < unat (num_sectors p)" using assms(2) by (simp add: word_less_nat_alt)
  have lo: "unat (ucast (lba_offset p) :: u64) = unat (lba_offset p)" by simp
  have "unat n + unat (lba_offset p) < 2 ^ 64"
    using n assms(1) unat_bound64 [of "tot_len p"] by linarith
  then show u: "unat (n + ucast (lba_offset p)) = unat n + unat (lba_offset p)"
    using unat_add_lem [of n "ucast (lba_offset p)"] lo by simp
  show "n + ucast (lba_offset p) < tot_len p" using u n assms(1) by (simp add: word_less_nat_alt)
qed

interpretation part: block_store "part_read_block P p" "part_sector p disk" "ucast (num_sectors p)" "part_idle P p disk view"
  for P p disk view
proof unfold_locales
  fix s :: "('a, 'c) dev_state_scheme" and n
  assume i: "part_idle P p disk view s"
  then have A: "ata_idle P p disk view s" and b: "unat (lba_offset p) + unat (num_sectors p) \<le> unat (tot_len p)"
    by (simp_all add: part_idle_def)
  show "\<exists>s'. part_read_block P p n s = Some (Inr ((1, part_sector p disk n), s')) \<and> part_idle P p disk view s'"
    if "n < ucast (num_sectors p)"
    using ata.read_ok [OF A part_block_in_drive(1) [OF b that]] that b
    by (auto simp: part_read_block_def part_sector_def part_idle_def)
  show "ucast (num_sectors p) \<le> n \<Longrightarrow> part_read_block P p n s = Some (Inr ((- 1, []), s))"
    by (simp add: part_read_block_def)
  show "length (part_sector p disk n) = 512" using ata.sector_length [OF A] by (simp add: part_sector_def)
qed

lemma part_read_block_dev: "part_read_block P p n s = Some (Inr (r, s')) \<Longrightarrow> dev_only s s'"
  by (auto simp: part_read_block_def split: if_splits dest: ATA_read_block_dev)

text \<open>The same store with the rest of the state held fixed, for clients that keep more than the devices in it.\<close>

interpretation part_dev: block_store "part_read_block P p" "part_sector p disk" "ucast (num_sectors p)"
    "\<lambda>s. part_idle P p disk view s \<and> dev_only s0 s"
  for P p disk view s0
proof unfold_locales
  fix s :: "('a, 'c) dev_state_scheme" and n
  assume i: "part_idle P p disk view s \<and> dev_only s0 s"
  show "\<exists>s'. part_read_block P p n s = Some (Inr ((1, part_sector p disk n), s')) \<and> part_idle P p disk view s' \<and> dev_only s0 s'"
    if "n < ucast (num_sectors p)"
    using part.read_ok [OF conjunct1 [OF i] that] part_read_block_dev dev_only_trans i by blast
  show "ucast (num_sectors p) \<le> n \<Longrightarrow> part_read_block P p n s = Some (Inr ((- 1, []), s))"
    using part.read_past i by blast
  show "length (part_sector p disk n) = 512" using part.sector_length i by blast
qed

section \<open>The boot record\<close>

text \<open>What the loop makes of the entries.\<close>

definition partition_of :: "ata_block_dev \<Rightarrow> u8 list \<Rightarrow> nat \<Rightarrow> part_block_dev option" where
  "partition_of drive block i =
     (let e = part_entry_at block i
      in if pe_type e = FAT32_LBA_TYPE then
           Some \<lparr>tot_len = tot_len drive, read_block = part_reader, blk_size = blk_size drive,
             bd_type = PARTITION, bd_name = bd_name drive @ [48 + of_nat i],
             ata_base = ata_base drive, ata_slave = ata_slave drive,
             lba_offset = pe_lba_addr e, num_sectors = pe_num_sectors e\<rparr>
         else None)"

lemma add_partitions_of: "fst (add_partitions dn nodes drive block is l) = map (partition_of drive block) is"
proof (induction "is" arbitrary: l)
  case (Cons i "is")
  have "fst (add_partition dn (nodes i) drive block i l) = partition_of drive block i"
    by (simp add: add_partition_def partition_of_def Let_def)
  with Cons show ?case by (simp add: split_beta Let_def)
qed simp

lemma parse_MBR_eq:
  assumes A: "ata_idle P drive disk view s" and "0 < tot_len drive" and "block = bytes_of (disk 0)"
  shows "\<exists>s'. ata_idle P drive disk view s' \<and>
     parse_MBR P block0 dn nodes drive l s =
       Some (Inr (if block ! 510 = 0x55 \<and> block ! 511 = 0xAA
         then (1, map (partition_of drive block) [0..<4], snd (add_partitions dn nodes drive block [0..<4] l))
         else (- 1, [], l), s'))"
proof -
  obtain s' where r: "ATA_read_block P drive 0 s = Some (Inr ((1, block), s'))" and i: "ata_idle P drive disk view s'"
    using ata.read_ok [OF A assms(2)] assms(3) by auto
  have "length block = 512" using ata.sector_length [OF A] assms(3) by simp
  then have b: "(block @ drop 512 block0) ! 510 = block ! 510" "(block @ drop 512 block0) ! 511 = block ! 511"
    by (simp_all add: nth_append)
  have p: "part_entry_at (block @ drop 512 block0) i = part_entry_at block i" if "i < 4" for i
    using that \<open>length block = 512\<close> by (simp add: part_entry_at_def le32_def le16_def nth_append Let_def)
  have ap: "add_partitions dn nodes drive (block @ drop 512 block0) is l = add_partitions dn nodes drive block is l"
    if "set is \<subseteq> {..<4}" for "is" l
    using that
  proof (induction "is" arbitrary: l)
    case (Cons i "is")
    then have "add_partition dn (nodes i) drive (block @ drop 512 block0) i l = add_partition dn (nodes i) drive block i l"
      by (simp add: add_partition_def p)
    with Cons show ?case by simp
  qed simp
  have "add_partitions dn nodes drive (block @ drop 512 block0) [0..<4] l = add_partitions dn nodes drive block [0..<4] l"
    by (rule ap) auto
  with r i b \<open>length block = 512\<close> show ?thesis
    using prod_eqI [of "add_partitions dn nodes drive block [0..<4] l" "(map (partition_of drive block) [0..<4],
        snd (add_partitions dn nodes drive block [0..<4] l))"] add_partitions_of [of dn nodes drive block "[0..<4]" l]
    by (auto simp: parse_MBR_def Let_def split: prod.splits)
qed

lemma parse_MBR_dev: "parse_MBR P block0 dn nodes drive l s = Some (Inr (r, s')) \<Longrightarrow> dev_only s s'"
  by (auto simp: parse_MBR_def bind_ro_Inr Let_def split_beta split: if_splits dest!: ATA_read_block_dev)

section \<open>Properties\<close>

text \<open>
  C22: Reading a block of a partition that lies on its drive returns the block of the drive at the
  partition's offset, never one outside the partition, and a block number past its end is refused.
\<close>

theorem part_read_stays_inside:
  assumes "part_idle P p disk view s"
  shows "\<exists>s'. part_read_block P p n s =
       Some (Inr (if n < ucast (num_sectors p) then (1, bytes_of (disk (n + ucast (lba_offset p)))) else (- 1, []), s')) \<and>
     part_idle P p disk view s' \<and>
     (n < ucast (num_sectors p) \<longrightarrow> unat (lba_offset p) \<le> unat (n + ucast (lba_offset p)) \<and>
        unat (n + ucast (lba_offset p)) < unat (lba_offset p) + unat (num_sectors p))"
proof (cases "n < ucast (num_sectors p)")
  case True
  have "unat (lba_offset p) + unat (num_sectors p) \<le> unat (tot_len p)" using assms by (simp add: part_idle_def)
  from part_block_in_drive(2) [OF this True] True part.read_ok [OF assms True] show ?thesis
    by (auto simp: part_sector_def word_less_nat_alt)
next
  case False
  with part.read_past [OF assms, of n] assms show ?thesis by (auto simp: not_less)
qed

definition sda0 :: part_block_dev where
  "sda0 = \<lparr>tot_len = 1000, read_block = part_reader, blk_size = 512, bd_type = PARTITION,
     bd_name = [115, 100, 97, 48], ata_base = 0x1F0, ata_slave = 0, lba_offset = 100, num_sectors = 50\<rparr>"

theorem part_read_stays_inside_witness:
  "\<exists>s'. part_read_block (drive_ports 0x1F0 (\<lambda>n. replicate 256 (ucast n))) sda0 7 (blk_example idle_regs) =
     Some (Inr ((1, bytes_of (replicate 256 107)), s'))"
proof -
  have "ata_idle (drive_ports 0x1F0 (\<lambda>n. replicate 256 (ucast n))) sda (\<lambda>n. replicate 256 (ucast n)) (\<lambda>r. r) (blk_example idle_regs)"
    by (rule drive_ports_ok) simp
  then have "part_idle (drive_ports 0x1F0 (\<lambda>n. replicate 256 (ucast n))) sda0 (\<lambda>n. replicate 256 (ucast n)) (\<lambda>r. r) (blk_example idle_regs)"
    by (simp add: part_idle_def sda0_def sda_def ata_idle_def ata_drive_def)
  from part_read_stays_inside [OF this, of 7] show ?thesis by (auto simp: sda0_def)
qed

text \<open>
  C23: From a readable drive with a valid boot signature \<^verbatim>\<open>parse_MBR\<close> makes a device for exactly the
  entries of type FAT32 LBA, with the offset and size of the entry, and each of them that lies on
  the drive can be read as a store of the drive's sectors from that offset on; without the
  signature it fails.
\<close>

theorem parse_MBR_finds_partitions:
  assumes "ata_idle P drive disk view s" and "0 < tot_len drive" and "block = bytes_of (disk 0)"
  shows "\<exists>r ps l' s'. parse_MBR P block0 dn nodes drive l s = Some (Inr ((r, ps, l'), s')) \<and>
     r = (if block ! 510 = 0x55 \<and> block ! 511 = 0xAA then 1 else - 1) \<and>
     (r = 1 \<longrightarrow> length ps = 4 \<and> (\<forall>i < 4.
        case ps ! i of
          None \<Rightarrow> pe_type (part_entry_at block i) \<noteq> FAT32_LBA_TYPE
        | Some p \<Rightarrow> pe_type (part_entry_at block i) = FAT32_LBA_TYPE \<and>
            lba_offset p = pe_lba_addr (part_entry_at block i) \<and> num_sectors p = pe_num_sectors (part_entry_at block i) \<and>
            (unat (lba_offset p) + unat (num_sectors p) \<le> unat (tot_len drive) \<longrightarrow> part_idle P p disk view s')))"
proof -
  obtain s' where i: "ata_idle P drive disk view s'" and m: "parse_MBR P block0 dn nodes drive l s =
       Some (Inr (if block ! 510 = 0x55 \<and> block ! 511 = 0xAA
         then (1, map (partition_of drive block) [0..<4], snd (add_partitions dn nodes drive block [0..<4] l))
         else (- 1, [], l), s'))"
    using parse_MBR_eq [OF assms] by blast
  have p: "case partition_of drive block k of
          None \<Rightarrow> pe_type (part_entry_at block k) \<noteq> FAT32_LBA_TYPE
        | Some p \<Rightarrow> pe_type (part_entry_at block k) = FAT32_LBA_TYPE \<and>
            lba_offset p = pe_lba_addr (part_entry_at block k) \<and> num_sectors p = pe_num_sectors (part_entry_at block k) \<and>
            (unat (lba_offset p) + unat (num_sectors p) \<le> unat (tot_len drive) \<longrightarrow> part_idle P p disk view s')" for k
    using i by (simp add: partition_of_def Let_def part_idle_def ata_idle_def ata_drive_def)
  show ?thesis
  proof (cases "block ! 510 = 0x55 \<and> block ! 511 = 0xAA")
    case True
    have n: "map (partition_of drive block) [0..<4] ! k = partition_of drive block k" if "k < 4" for k
      using that by simp
    from m True p show ?thesis by (auto simp del: upt_Suc simp: n)
  next
    case False
    with m show ?thesis by auto
  qed
qed

definition mbr_disk :: "u64 \<Rightarrow> u16 list" where
  "mbr_disk n = (replicate 256 0)[225 := 0x0C, 227 := 100, 229 := 50, 255 := 0xAA55]"

lemma bytes_of_nth: "i < 2 * length ws \<Longrightarrow>
    bytes_of ws ! i = (if even i then ucast (ws ! (i div 2)) else ucast (drop_bit 8 (ws ! (i div 2))))"
proof (induction ws arbitrary: i)
  case (Cons w ws)
  show ?case
  proof (cases "i < 2")
    case True
    then show ?thesis by (cases i) (auto simp: bytes_of_def)
  next
    case False
    then obtain j where j: "i = Suc (Suc j)" by (metis add_2_eq_Suc le_Suc_ex not_less)
    have "bytes_of (w # ws) ! i = bytes_of ws ! j" by (simp add: bytes_of_def j)
    with Cons.IH [of j] Cons.prems j show ?thesis by simp
  qed
qed simp

lemma bytes_of_read: "length ws = 256 \<Longrightarrow> k < 256 \<Longrightarrow> le16 (bytes_of ws) (2 * k) = ws ! k"
  "length ws = 256 \<Longrightarrow> k < 256 \<Longrightarrow> bytes_of ws ! (2 * k) = ucast (ws ! k)"
  "length ws = 256 \<Longrightarrow> k < 256 \<Longrightarrow> bytes_of ws ! Suc (2 * k) = ucast (drop_bit 8 (ws ! k))"
proof -
  assume l: "length ws = 256" and k: "k < 256"
  show e: "bytes_of ws ! (2 * k) = ucast (ws ! k)" and o: "bytes_of ws ! Suc (2 * k) = ucast (drop_bit 8 (ws ! k))"
    using l k by (simp_all add: bytes_of_nth)
  show "le16 (bytes_of ws) (2 * k) = ws ! k"
    unfolding le16_def e o by (rule bit_word_eqI) (auto simp: bit_simps)
qed

lemma mbr_entry: "part_entry_at (bytes_of (mbr_disk 0)) 0 = \<lparr>pe_type = 0x0C, pe_lba_addr = 100, pe_num_sectors = 50\<rparr>"
    "bytes_of (mbr_disk 0) ! 510 = 0x55" "bytes_of (mbr_disk 0) ! 511 = 0xAA"
proof -
  have l: "length (mbr_disk 0) = 256" by (simp add: mbr_disk_def)
  note b = bytes_of_read [OF l]
  have w: "mbr_disk 0 ! 225 = 0x0C" "mbr_disk 0 ! 227 = 100" "mbr_disk 0 ! 228 = 0" "mbr_disk 0 ! 229 = 50"
    "mbr_disk 0 ! 230 = 0" "mbr_disk 0 ! 255 = 0xAA55" by (simp_all add: mbr_disk_def)
  show "part_entry_at (bytes_of (mbr_disk 0)) 0 = \<lparr>pe_type = 0x0C, pe_lba_addr = 100, pe_num_sectors = 50\<rparr>"
    using b(2) [of 225] b(1) [of 227] b(1) [of 228] b(1) [of 229] b(1) [of 230]
    by (simp add: part_entry_at_def le32_def w)
  show "bytes_of (mbr_disk 0) ! 510 = 0x55" "bytes_of (mbr_disk 0) ! 511 = 0xAA"
    using b(2) [of 255] b(3) [of 255] by (simp_all add: w)
qed

theorem parse_MBR_finds_partitions_witness:
  "\<exists>ps l' s'. parse_MBR (drive_ports 0x1F0 mbr_disk) [] 16 (\<lambda>i. of_nat (32 + i)) sda
       \<lparr>ll_head = 16, ll_tail = 16, ll_next = \<lambda>_. NULL\<rparr> (blk_example idle_regs) = Some (Inr ((1, ps, l'), s')) \<and>
     (\<exists>p. ps ! 0 = Some p \<and> lba_offset p = 100 \<and> num_sectors p = 50)"
proof -
  have A: "ata_idle (drive_ports 0x1F0 mbr_disk) sda mbr_disk (\<lambda>r. r) (blk_example idle_regs)"
    by (rule drive_ports_ok) (simp add: mbr_disk_def)
  have z: "0 < tot_len sda" by (simp add: sda_def)
  show ?thesis
    using parse_MBR_finds_partitions [OF A z refl, of "[]" 16 "\<lambda>i. of_nat (32 + i)" "\<lparr>ll_head = 16, ll_tail = 16, ll_next = \<lambda>_. NULL\<rparr>"]
  proof (elim exE conjE, goal_cases)
    case (1 r ps l' s')
    from 1(2) have r: "r = 1" by (simp add: mbr_entry)
    from 1(3) [THEN mp, OF r, THEN conjunct2, rule_format, of 0]
    have "\<exists>p. ps ! 0 = Some p \<and> lba_offset p = 100 \<and> num_sectors p = 50"
      by (auto simp: mbr_entry FAT32_LBA_TYPE_def split: option.splits)
    with 1(1) r show ?case by blast
  qed
qed

end
