(* ===== verification/Fat.thy ===== *)
theory Fat
  imports Partition
begin

text \<open>
  The FAT32 file system (\<^verbatim>\<open>fs/fat.c\<close>, with the structures of \<^verbatim>\<open>include/vfs.h\<close>). The block device is
  read through its function pointer, the argument \<open>rd\<close>; the section on files and directories is
  stated for every store of blocks and rests on partitions at the end. Arrays on the stack or in
  the heap are byte lists, and what an uninitialised one holds is an argument. The structures for
  inodes and open files are passed by value: their allocation, and the parent pointer that nothing
  reads, are left out.
\<close>

section \<open>Structures\<close>

definition FAT_ATTR_LFN :: u8 where "FAT_ATTR_LFN = 0x0F"
definition FAT_ATTR_DIRECTORY :: u8 where "FAT_ATTR_DIRECTORY = 0x10"
definition MAX_DE_LEN :: nat where "MAX_DE_LEN = 11"
definition MAX_LDE_LEN :: nat where "MAX_LDE_LEN = 255"
definition TABLE_VAL_MAX :: u64 where "TABLE_VAL_MAX = 0x0FFFFFF8"
definition S_IFDIR :: u64 where "S_IFDIR = 0x4000"

record fat32 =
  bytes_per_sector :: u16
  sectors_per_cluster :: u8
  reserved_sectors :: u16
  num_fats :: u8
  sectors_per_fat :: u32
  root_cluster_number :: u32
  signature :: u8
  fat_label :: "u8 list"

text \<open>The fields of the packed structure in the first block of the device.\<close>

definition fat32_of :: "u8 list \<Rightarrow> fat32" where
  "fat32_of b =
     \<lparr>bytes_per_sector = le16 b 11, sectors_per_cluster = b ! 13, reserved_sectors = le16 b 14, num_fats = b ! 16,
      sectors_per_fat = le32 b 36, root_cluster_number = le32 b 44, signature = b ! 66,
      fat_label = take 11 (drop 71 b)\<rparr>"

record inode =
  st_ino :: u64
  st_mode :: u64
  st_size :: u64

record fat_superblock =
  sb_fat32 :: fat32
  sb_root :: inode

record file_t =
  f_inode :: inode
  f_cursor :: u64
  f_first_cluster :: u64

record fat_dir_ent =
  de_name :: "u8 list"
  de_attr :: u8
  de_cluster_hi :: u16
  de_cluster_lo :: u16
  de_size :: u32

definition dir_ent_at :: "u8 list \<Rightarrow> nat \<Rightarrow> fat_dir_ent" where
  "dir_ent_at data i =
     (let e = drop (32 * i) data
      in \<lparr>de_name = take 11 e, de_attr = e ! 11, de_cluster_hi = le16 e 20, de_cluster_lo = le16 e 26, de_size = le32 e 28\<rparr>)"

record fat_long_dir_ent =
  lde_order :: u8
  lde_first :: "u16 list"
  lde_middle :: "u16 list"
  lde_last :: "u16 list"

definition long_dir_ent_at :: "u8 list \<Rightarrow> nat \<Rightarrow> fat_long_dir_ent" where
  "long_dir_ent_at data i =
     (let e = drop (32 * i) data
      in \<lparr>lde_order = e ! 0, lde_first = map (\<lambda>k. le16 e (1 + 2 * k)) [0..<5],
          lde_middle = map (\<lambda>k. le16 e (14 + 2 * k)) [0..<6], lde_last = map (\<lambda>k. le16 e (28 + 2 * k)) [0..<2]\<rparr>)"

text \<open>The static cache of \<^verbatim>\<open>get_FAT\<close> and the state behind the block device.\<close>

record 's fat_state =
  cached_FAT :: "u8 list"
  cached_sector :: u32
  io :: 's

type_synonym 's reader = "u64 \<Rightarrow> 's \<Rightarrow> ((int \<times> u8 list) \<times> 's) res option"

section \<open>Operations\<close>

definition cluster_to_sector :: "fat32 \<Rightarrow> u32 \<Rightarrow> u32" where
  "cluster_to_sector f cluster_num =
     (let sector_offset = ucast (reserved_sectors f) + sectors_per_fat f * ucast (num_fats f)
      in sector_offset + (cluster_num - 2))"

text \<open>The sector is an \<^verbatim>\<open>int\<close> that is sign extended for the device. \<open>-1\<close> when the read fails.\<close>

definition FAT_read_cluster ::
    "'s reader \<Rightarrow> fat_superblock \<Rightarrow> u64 \<Rightarrow> ('s, 'a) fat_state_scheme \<Rightarrow> ((int \<times> u8 list) \<times> ('s, 'a) fat_state_scheme) res option" where
  "FAT_read_cluster rd sb cluster_num st =
     (let sector_num = cluster_to_sector (sb_fat32 sb) (ucast cluster_num)
      in bind_ro (rd (scast sector_num) (io st)) (\<lambda>((r, bs), s).
           Some (Inr ((if r = - 1 then - 1 else 1, bs), st\<lparr>io := s\<rparr>))))"

definition get_FAT ::
    "'s reader \<Rightarrow> u32 \<Rightarrow> ('s, 'a) fat_state_scheme \<Rightarrow> (u8 list \<times> ('s, 'a) fat_state_scheme) res option" where
  "get_FAT rd fat_sector st =
     (if cached_sector st \<noteq> fat_sector then
        bind_ro (rd (ucast fat_sector) (io st)) (\<lambda>((_, bs), s).
          let st = st\<lparr>io := s, cached_FAT := bs @ drop (length bs) (cached_FAT st), cached_sector := fat_sector\<rparr>
          in Some (Inr (cached_FAT st, st)))
      else Some (Inr (cached_FAT st, st)))"

definition get_next_cluster_num ::
    "'s reader \<Rightarrow> fat_superblock \<Rightarrow> u32 \<Rightarrow> ('s, 'a) fat_state_scheme \<Rightarrow> (u32 \<times> ('s, 'a) fat_state_scheme) res option" where
  "get_next_cluster_num rd sb current_cluster_num st =
     (let first_fat = ucast (reserved_sectors (sb_fat32 sb));
          fat_offset = current_cluster_num * 4;
          fat_sector = first_fat + fat_offset div 512;
          ent_offset = fat_offset mod 512
      in bind_ro (get_FAT rd fat_sector st) (\<lambda>(tbl, st).
           Some (Inr (le32 tbl (unat ent_offset) AND 0x0FFFFFFF, st))))"

text \<open>The loop that finds the first cluster of a read; \<open>None\<close> past the end of the chain.\<close>

fun skip_clusters ::
    "'s reader \<Rightarrow> fat_superblock \<Rightarrow> nat \<Rightarrow> u64 \<Rightarrow> ('s, 'a) fat_state_scheme \<Rightarrow> (u64 option \<times> ('s, 'a) fat_state_scheme) res option" where
  "skip_clusters rd sb 0 cluster_num st = Some (Inr (Some cluster_num, st))"
| "skip_clusters rd sb (Suc n) cluster_num st =
     (if cluster_num \<ge> TABLE_VAL_MAX then Some (Inr (None, st))
      else bind_ro (get_next_cluster_num rd sb (ucast cluster_num) st) (\<lambda>(c, st). skip_clusters rd sb n (ucast c) st))"

text \<open>
  The reading loop; \<open>out\<close> are the bytes already stored at \<^verbatim>\<open>dst\<close>, their number being \<^verbatim>\<open>bytes_read\<close>.
  The minimum is at most 512, so its conversion to \<^verbatim>\<open>int\<close> keeps it.
\<close>

partial_function (option) file_read_loop ::
    "'s reader \<Rightarrow> fat_superblock \<Rightarrow> u64 \<Rightarrow> int \<Rightarrow> u64 \<Rightarrow> u64 \<Rightarrow> u8 list \<Rightarrow> u8 list \<Rightarrow> ('s, 'a) fat_state_scheme \<Rightarrow>
     (u8 list \<times> u64 \<times> ('s, 'a) fat_state_scheme) res option" where
  "file_read_loop rd sb sz len cluster_num cursor out data st =
     (if cluster_num < TABLE_VAL_MAX \<and> int (length out) < len then
        bind_ro (FAT_read_cluster rd sb cluster_num st) (\<lambda>rs.
          let bs = snd (fst rs);
              data = bs @ drop (length bs) data;
              off = unat (cursor mod 512);
              n = min (word_of_int (len - int (length out))) (min (of_nat (512 - off)) (sz - cursor));
              out = out @ take (unat n) (drop off data);
              cursor = cursor + n
          in bind_ro (get_next_cluster_num rd sb (ucast cluster_num) (snd rs)) (\<lambda>cs.
               file_read_loop rd sb sz len (ucast (fst cs)) cursor out data (snd cs)))
      else Some (Inr (out, cursor, st)))"

definition FAT_file_read ::
    "'s reader \<Rightarrow> fat_superblock \<Rightarrow> u8 list \<Rightarrow> file_t \<Rightarrow> int \<Rightarrow> ('s, 'a) fat_state_scheme \<Rightarrow>
     (u8 list \<times> file_t \<times> ('s, 'a) fat_state_scheme) res option" where
  "FAT_file_read rd sb data0 f len st =
     (let cluster_offset = sint (ucast (f_cursor f div 512) :: u32)
      in bind_ro (skip_clusters rd sb (nat cluster_offset) (f_first_cluster f) st) (\<lambda>(c, st).
           case c of
             None \<Rightarrow> Some (Inr ([], f, st))
           | Some c \<Rightarrow>
               bind_ro (file_read_loop rd sb (st_size (f_inode f)) len c (f_cursor f) [] data0 st) (\<lambda>(out, cursor, st).
                 Some (Inr (out, f\<lparr>f_cursor := cursor\<rparr>, st)))))"

definition FAT_file_lseek :: "file_t \<Rightarrow> u64 \<Rightarrow> int \<times> file_t" where
  "FAT_file_lseek f offset = (1, f\<lparr>f_cursor := offset\<rparr>)"

text \<open>The size is passed as the \<^verbatim>\<open>int\<close> length of the read.\<close>

definition FAT_file_mmap ::
    "'s reader \<Rightarrow> fat_superblock \<Rightarrow> u8 list \<Rightarrow> file_t \<Rightarrow> ('s, 'a) fat_state_scheme \<Rightarrow>
     (u8 list \<times> file_t \<times> ('s, 'a) fat_state_scheme) res option" where
  "FAT_file_mmap rd sb data0 f st =
     (let orig_cursor = f_cursor f;
          (_, f) = FAT_file_lseek f 0
      in bind_ro (FAT_file_read rd sb data0 f (sint (ucast (st_size (f_inode f)) :: u32)) st) (\<lambda>(out, f, st).
           Some (Inr (out, snd (FAT_file_lseek f orig_cursor), st))))"

definition FAT_file_open :: "inode \<Rightarrow> file_t" where
  "FAT_file_open i = \<lparr>f_inode = i, f_cursor = 0, f_first_cluster = st_ino i\<rparr>"

definition FAT_init_inode :: "u64 \<Rightarrow> inode" where
  "FAT_init_inode cluster_num = \<lparr>st_ino = cluster_num, st_mode = 0, st_size = 0\<rparr>"

text \<open>The inode and the bytes of its first cluster, or nothing when the read fails.\<close>

definition FAT_read_inode ::
    "'s reader \<Rightarrow> fat_superblock \<Rightarrow> u64 \<Rightarrow> ('s, 'a) fat_state_scheme \<Rightarrow> ((inode \<times> u8 list) option \<times> ('s, 'a) fat_state_scheme) res option" where
  "FAT_read_inode rd sb cluster_num st =
     bind_ro (FAT_read_cluster rd sb cluster_num st) (\<lambda>((r, bs), st).
       Some (Inr (if r = - 1 then None else Some (FAT_init_inode cluster_num, bs), st)))"

definition FAT_detect ::
    "'s reader \<Rightarrow> u8 list \<Rightarrow> ('s, 'a) fat_state_scheme \<Rightarrow> (fat_superblock option \<times> ('s, 'a) fat_state_scheme) res option" where
  "FAT_detect rd junk st =
     bind_ro (rd 0 (io st)) (\<lambda>((_, bs), s).
       let f = fat32_of (bs @ drop (length bs) junk); st = st\<lparr>io := s\<rparr>
       in if signature f \<noteq> 0x28 \<and> signature f \<noteq> 0x29 then Some (Inr (None, st))
          else
            let root = FAT_init_inode (ucast (root_cluster_number f))
            in Some (Inr (Some \<lparr>sb_fat32 = f, sb_root = root\<lparr>st_mode := st_mode root OR S_IFDIR\<rparr>\<rparr>, st)))"

subsection \<open>Directories\<close>

text \<open>
  \<^verbatim>\<open>strncpy\<close> of a byte array: up to \<open>n\<close> bytes, then zeros. \<^verbatim>\<open>get_dir_ent_name\<close> copies one byte more
  than the name has, which is the attribute byte.
\<close>

definition strncpy_bytes :: "nat \<Rightarrow> u8 list \<Rightarrow> u8 list" where
  "strncpy_bytes n src = (let w = takeWhile (\<lambda>c. c \<noteq> 0) (take n src) in w @ replicate (n - length w) 0)"

definition get_dir_ent_name :: "fat_dir_ent \<Rightarrow> u8 list \<Rightarrow> u8 list" where
  "get_dir_ent_name e buffer =
     strncpy_bytes (MAX_DE_LEN + 1) (de_name e @ [de_attr e]) @ drop (MAX_DE_LEN + 1) buffer"

text \<open>Part \<open>num\<close> of a long name; writing outside of the buffer is \<open>None\<close>.\<close>

definition get_long_dir_ent_name :: "fat_long_dir_ent \<Rightarrow> u8 list \<Rightarrow> u8 list option" where
  "get_long_dir_ent_name e buffer =
     (let num = uint (lde_order e AND 0x3F) - 1;
          p = num * 13;
          chars = map ucast (lde_first e @ lde_middle e @ lde_last e)
      in if 0 \<le> p \<and> p + 13 \<le> int (length buffer)
         then Some (take (nat p) buffer @ chars @ drop (nat p + 13) buffer) else None)"

text \<open>The inode made for an entry. The cluster number is computed in \<^verbatim>\<open>int\<close> and sign extended.\<close>

definition dir_ent_inode :: "fat_dir_ent \<Rightarrow> inode" where
  "dir_ent_inode e =
     (let ent_cluster_num = scast (push_bit 16 (ucast (de_cluster_hi e)) OR ucast (de_cluster_lo e) :: u32);
          i = (FAT_init_inode ent_cluster_num)\<lparr>st_size := ucast (de_size e)\<rparr>
      in if de_attr e = FAT_ATTR_DIRECTORY then i\<lparr>st_mode := st_mode i OR S_IFDIR\<rparr> else i)"

definition c_string :: "u8 list \<Rightarrow> u8 list" where
  "c_string b = takeWhile (\<lambda>c. c \<noteq> 0) b"

text \<open>
  The loop over the entries of a cluster, \<open>n\<close> of the 16 being left. \<open>name\<close> and \<open>valid\<close> are the locals
  \<^verbatim>\<open>name\<close> and \<^verbatim>\<open>valid_classic_entry\<close>, which live through the whole walk.
\<close>

fun dir_loop ::
    "(u8 list \<Rightarrow> inode \<Rightarrow> 'st \<Rightarrow> 'st res option) \<Rightarrow> u8 list \<Rightarrow> nat \<Rightarrow> nat \<Rightarrow> u8 list \<Rightarrow> bool \<Rightarrow> 'st \<Rightarrow>
     (u8 list \<times> bool \<times> 'st) res option" where
  "dir_loop cb data 0 i name valid st = Some (Inr (name, valid, st))"
| "dir_loop cb data (Suc n) i name valid st =
     (let e = dir_ent_at data i
      in if data ! (32 * i) = 0 then Some (Inr (name, valid, st))
         else if de_attr e = FAT_ATTR_LFN then
           (case get_long_dir_ent_name (long_dir_ent_at data i) name of
              None \<Rightarrow> Some (Inl BadAccess)
            | Some name \<Rightarrow> dir_loop cb data n (Suc i) name False st)
         else
           let name = (if valid then get_dir_ent_name e name else name)
           in if name ! 0 \<noteq> 46
              then if 0 \<in> set name then bind_ro (cb (c_string name) (dir_ent_inode e) st) (dir_loop cb data n (Suc i) name True)
                   else Some (Inl BadAccess)
              else dir_loop cb data n (Suc i) name True st)"

partial_function (option) readdir_loop ::
    "'s reader \<Rightarrow> fat_superblock \<Rightarrow> (u8 list \<Rightarrow> inode \<Rightarrow> ('s, 'a) fat_state_scheme \<Rightarrow> ('s, 'a) fat_state_scheme res option) \<Rightarrow>
     u64 \<Rightarrow> u8 list \<Rightarrow> u8 list \<Rightarrow> bool \<Rightarrow> ('s, 'a) fat_state_scheme \<Rightarrow> ('s, 'a) fat_state_scheme res option" where
  "readdir_loop rd sb cb cluster_num data name valid st =
     (if cluster_num < TABLE_VAL_MAX then
        bind_ro (FAT_read_cluster rd sb cluster_num st) (\<lambda>rs.
          let data = snd (fst rs) @ drop (length (snd (fst rs))) data
          in bind_ro (dir_loop cb data 16 0 name valid (snd rs)) (\<lambda>nvs.
               bind_ro (get_next_cluster_num rd sb (ucast cluster_num) (snd (snd nvs))) (\<lambda>cs.
                 readdir_loop rd sb cb (ucast (fst cs)) data (fst nvs) (fst (snd nvs)) (snd cs))))
      else Some (Inr st))"

definition FAT_readdir ::
    "'s reader \<Rightarrow> fat_superblock \<Rightarrow> u8 list \<Rightarrow> u8 list \<Rightarrow> inode \<Rightarrow>
     (u8 list \<Rightarrow> inode \<Rightarrow> ('s, 'a) fat_state_scheme \<Rightarrow> ('s, 'a) fat_state_scheme res option) \<Rightarrow>
     ('s, 'a) fat_state_scheme \<Rightarrow> (int \<times> ('s, 'a) fat_state_scheme) res option" where
  "FAT_readdir rd sb data0 name0 i cb st =
     (if st_mode i AND S_IFDIR = 0 then Some (Inr (- 1, st))
      else bind_ro (readdir_loop rd sb cb (st_ino i) data0 name0 True st) (\<lambda>st. Some (Inr (1, st))))"

section \<open>The volume\<close>

text \<open>
  The volume the functions walk, in plain numbers: the sector a cluster is in, the sector and the
  place of a cluster's entry in the table, and the successor of a cluster.
\<close>

definition data_start :: "fat32 \<Rightarrow> nat" where
  "data_start f = unat (reserved_sectors f) + unat (sectors_per_fat f) * unat (num_fats f)"

text \<open>
  The code takes every cluster for one sector: its formula is that of the file system for volumes made so.
\<close>

definition layout_ok :: "fat32 \<Rightarrow> bool" where
  "layout_ok f \<longleftrightarrow> 0 < unat (reserved_sectors f) \<and> data_start f < 2 ^ 30"

definition cluster_sector :: "fat32 \<Rightarrow> u32 \<Rightarrow> u64" where
  "cluster_sector f c = of_nat (data_start f + unat c - 2)"

lemma one_sector_clusters:
  assumes "sectors_per_cluster f = 1" and "2 \<le> unat c"
  shows "cluster_sector f c = of_nat (data_start f + (unat c - 2) * unat (sectors_per_cluster f))"
  using assms by (simp add: cluster_sector_def)

definition next_cluster :: "(u64 \<Rightarrow> u8 list) \<Rightarrow> fat32 \<Rightarrow> u32 \<Rightarrow> u32" where
  "next_cluster sector f c =
     le32 (sector (of_nat (unat (reserved_sectors f) + unat c div 128))) (4 * (unat c mod 128)) AND 0x0FFFFFFF"

text \<open>A cluster whose data and whose entry in the table are inside the device.\<close>

definition cluster_ok :: "u64 \<Rightarrow> fat32 \<Rightarrow> u32 \<Rightarrow> bool" where
  "cluster_ok extent f c \<longleftrightarrow>
     2 \<le> unat c \<and> unat c < 0x0FFFFFF8 \<and> cluster_sector f c < extent \<and>
     of_nat (unat (reserved_sectors f) + unat c div 128) < extent"

fun chain :: "(u32 \<Rightarrow> u32) \<Rightarrow> u32 \<Rightarrow> u32 list \<Rightarrow> bool" where
  "chain nx c [] \<longleftrightarrow> TABLE_VAL_MAX \<le> ucast c"
| "chain nx c (x # xs) \<longleftrightarrow> x = c \<and> chain nx (nx c) xs"

lemma table_place:
  assumes "unat (c :: u32) < 2 ^ 30"
  shows "c * 4 div 512 = of_nat (unat c div 128)" and "unat (c * 4 mod 512) = 4 * (unat c mod 128)"
proof -
  have u: "unat (c * 4) = unat c * 4" using assms unat_mult_lem [of c 4] by simp
  have d: "unat c * 4 div 512 = unat c div 128" "unat c * 4 mod 512 = 4 * (unat c mod 128)"
    using div_mult_mult2 [of 4 "unat c" 128] mod_mult_mult2 [of "unat c" 4 128] by simp_all
  have 5: "unat (512 :: u32) = 512" by simp
  have "unat (c * 4 div 512) = unat c div 128" by (simp only: unat_div u 5 d)
  then show "c * 4 div 512 = of_nat (unat c div 128)" using word_of_unat [of "c * 4 div 512"] by simp
  show "unat (c * 4 mod 512) = 4 * (unat c mod 128)"
    by (simp only: unat_mod u 5 d)
qed

lemma table_sector_small:
  fixes r :: u16
  assumes "unat (c :: u32) < 2 ^ 30"
  shows "unat r + unat c div 128 < 2 ^ 32"
proof -
  have "unat r < 2 ^ 16" by (rule order_less_le_trans [OF unsigned_less]) simp
  moreover have "unat c div 128 \<le> unat c" by (rule div_le_dividend)
  ultimately show ?thesis using assms by simp
qed

lemma cluster_to_sector_eq:
  assumes "layout_ok f" and "cluster_ok extent f c"
  shows "(scast (cluster_to_sector f c) :: u64) = cluster_sector f c"
proof -
  have c: "2 \<le> unat c" "unat c < 0x0FFFFFF8" using assms(2) by (simp_all add: cluster_ok_def)
  have c2: "c - 2 = of_nat (unat c - 2)" using c(1) by (simp add: of_nat_diff)
  have "sectors_per_fat f = of_nat (unat (sectors_per_fat f))" by simp
  then have "cluster_to_sector f c = of_nat (data_start f + (unat c - 2))"
    unfolding cluster_to_sector_def Let_def c2 ucast_is_of_nat data_start_def of_nat_add of_nat_mult by simp
  moreover have "data_start f + (unat c - 2) < 2 ^ 31"
  proof -
    have "data_start f < 1073741824" using assms(1) by (simp add: layout_ok_def)
    then have "data_start f + (unat c - 2) < 2147483648" using c(2) by linarith
    then show ?thesis by simp
  qed
  moreover have "data_start f + unat c - 2 = data_start f + (unat c - 2)" using c(1) by simp
  ultimately show ?thesis by (simp only: cluster_sector_def scast_small)
qed

text \<open>
  A state of the file system over a store of blocks: the device can be read and the cache holds the
  sector it names. A chain of clusters that are all inside the device, and the bytes in them.
\<close>

definition fat_ok :: "('s \<Rightarrow> bool) \<Rightarrow> (u64 \<Rightarrow> u8 list) \<Rightarrow> ('s, 'z) fat_state_scheme \<Rightarrow> bool" where
  "fat_ok dev_ok sector st \<longleftrightarrow> dev_ok (io st) \<and> length (cached_FAT st) = 512 \<and>
     (cached_sector st \<noteq> 0 \<longrightarrow> cached_FAT st = sector (ucast (cached_sector st)))"

definition chain_ok :: "(u64 \<Rightarrow> u8 list) \<Rightarrow> u64 \<Rightarrow> fat32 \<Rightarrow> u32 \<Rightarrow> u32 list \<Rightarrow> bool" where
  "chain_ok sector extent f c cs \<longleftrightarrow> chain (next_cluster sector f) c cs \<and> (\<forall>x \<in> set cs. cluster_ok extent f x)"

definition chain_data :: "(u64 \<Rightarrow> u8 list) \<Rightarrow> fat32 \<Rightarrow> u32 list \<Rightarrow> u8 list" where
  "chain_data sector f cs = concat (map (\<lambda>c. sector (cluster_sector f c)) cs)"

context block_store begin

lemma read_cluster_ok:
  assumes "fat_ok inv sector st" and "layout_ok (sb_fat32 sb)" and "cluster_ok extent (sb_fat32 sb) c"
  shows "\<exists>st'. FAT_read_cluster rd sb (ucast c) st = Some (Inr ((1, sector (cluster_sector (sb_fat32 sb) c)), st')) \<and> fat_ok inv sector st'"
proof -
  have i: "inv (io st)" using assms(1) by (simp add: fat_ok_def)
  have "cluster_sector (sb_fat32 sb) c < extent" using assms(3) by (simp add: cluster_ok_def)
  from read_ok [OF i this] obtain s' where
    "rd (cluster_sector (sb_fat32 sb) c) (io st) = Some (Inr ((1, sector (cluster_sector (sb_fat32 sb) c)), s'))" "inv s'" by blast
  with cluster_to_sector_eq [OF assms(2,3)] assms(1) show ?thesis
    by (intro exI [of _ "st\<lparr>io := s'\<rparr>"]) (simp add: FAT_read_cluster_def Let_def fat_ok_def)
qed

lemma next_cluster_ok:
  assumes ok: "fat_ok inv sector st" and l: "layout_ok (sb_fat32 sb)" and c: "cluster_ok extent (sb_fat32 sb) c"
  shows "\<exists>st'. get_next_cluster_num rd sb c st = Some (Inr (next_cluster sector (sb_fat32 sb) c, st')) \<and> fat_ok inv sector st'"
proof -
  let ?r = "reserved_sectors (sb_fat32 sb)"
  let ?fs = "ucast ?r + c * 4 div 512 :: u32"
  have c30: "unat c < 2 ^ 30" using c by (simp add: cluster_ok_def)
  note d = table_place [OF c30]
  have fsn: "?fs = of_nat (unat ?r + unat c div 128)" by (simp only: d(1) ucast_is_of_nat of_nat_add)
  have small: "unat ?r + unat c div 128 < 2 ^ 32" by (rule table_sector_small [OF c30])
  have fs: "unat ?fs = unat ?r + unat c div 128" unfolding fsn unsigned_of_nat using small by (simp add: take_bit_nat_eq_self)
  have nz: "?fs \<noteq> 0" using fs l by (auto simp: layout_ok_def)
  have fs64: "(ucast ?fs :: u64) = of_nat (unat ?r + unat c div 128)"
    by (metis fs ucast_is_of_nat)
  have lt: "ucast ?fs < extent" using c fs64 by (simp add: cluster_ok_def)
  have i: "inv (io st)" using ok by (simp add: fat_ok_def)
  have "\<exists>st'. get_FAT rd ?fs st = Some (Inr (sector (ucast ?fs), st')) \<and> fat_ok inv sector st'"
  proof (cases "cached_sector st = ?fs")
    case True
    then show ?thesis using ok nz by (auto simp: get_FAT_def fat_ok_def)
  next
    case False
    from read_ok [OF i lt] obtain s' where r: "rd (ucast ?fs) (io st) = Some (Inr ((1, sector (ucast ?fs)), s'))" "inv s'" by blast
    have "length (sector (ucast ?fs)) = 512" using sector_length [OF i] .
    with r False ok show ?thesis by (simp add: get_FAT_def Let_def fat_ok_def)
  qed
  then show ?thesis using d(2) fs64 by (auto simp: get_next_cluster_num_def Let_def next_cluster_def)
qed

lemma chain_ok_Cons:
  "chain_ok sector extent f c (x # xs) \<longleftrightarrow> x = c \<and> cluster_ok extent f c \<and> chain_ok sector extent f (next_cluster sector f c) xs"
  by (auto simp: chain_ok_def)

lemma chain_ok_Nil: "chain_ok sector extent f c [] \<longleftrightarrow> TABLE_VAL_MAX \<le> ucast c"
  by (simp add: chain_ok_def)

lemma cluster_below_max: "cluster_ok extent f c \<Longrightarrow> ucast c < TABLE_VAL_MAX"
  by (simp add: cluster_ok_def TABLE_VAL_MAX_def word_less_nat_alt)

lemma skip_clusters_ok:
  assumes l: "layout_ok (sb_fat32 sb)"
  shows "fat_ok inv sector st \<Longrightarrow> chain_ok sector extent (sb_fat32 sb) c cs \<Longrightarrow> k \<le> length cs \<Longrightarrow>
     \<exists>c' st'. skip_clusters rd sb k (ucast c) st = Some (Inr (Some (ucast c'), st')) \<and> fat_ok inv sector st' \<and>
        chain_ok sector extent (sb_fat32 sb) c' (drop k cs)"
proof (induction k arbitrary: c cs st)
  case 0
  then show ?case by auto
next
  case (Suc k)
  then obtain xs where cs: "cs = c # xs" by (cases cs) (auto simp: chain_ok_Cons)
  with Suc.prems have c: "cluster_ok extent (sb_fat32 sb) c" "chain_ok sector extent (sb_fat32 sb) (next_cluster sector (sb_fat32 sb) c) xs"
    by (simp_all add: chain_ok_Cons)
  obtain st1 where r: "get_next_cluster_num rd sb c st = Some (Inr (next_cluster sector (sb_fat32 sb) c, st1))" "fat_ok inv sector st1"
    using next_cluster_ok [OF Suc.prems(1) l c(1)] by blast
  from Suc.IH [OF r(2) c(2)] Suc.prems(3) cs show ?case
    using r(1) cluster_below_max [OF c(1)] by (auto simp: not_le [symmetric])
qed

lemma slice_in_first:
  assumes "off + n \<le> length b" and "n = min k (m - off)"
  shows "take k (drop off (take m (b @ d))) = take n (drop off b)"
proof -
  have "take k (drop off (take m (b @ d))) = take n (drop off (b @ d))" 
    by (simp only: drop_take take_take assms(2))
  also have "\<dots> = take n (drop off b)" using assms(1) by simp
  finally show ?thesis .
qed

text \<open>At the end of the file the rest of the chain is walked, but nothing is stored.\<close>

lemma file_read_done:
  assumes l: "layout_ok (sb_fat32 sb)"
  shows "fat_ok inv sector st \<Longrightarrow> chain_ok sector extent (sb_fat32 sb) c cs \<Longrightarrow>
     \<exists>st'. file_read_loop rd sb cur len (ucast c) cur out data st = Some (Inr (out, cur, st')) \<and> fat_ok inv sector st'"
proof (induction cs arbitrary: c st data)
  case Nil
  then show ?case by (subst file_read_loop.simps) (auto simp: chain_ok_Nil not_less [symmetric])
next
  case (Cons x xs)
  then have c: "cluster_ok extent (sb_fat32 sb) c" "chain_ok sector extent (sb_fat32 sb) (next_cluster sector (sb_fat32 sb) c) xs"
    by (simp_all add: chain_ok_Cons)
  let ?b = "sector (cluster_sector (sb_fat32 sb) c)"
  obtain st1 where r: "FAT_read_cluster rd sb (ucast c) st = Some (Inr ((1, ?b), st1))" "fat_ok inv sector st1"
    using read_cluster_ok [OF Cons.prems(1) l c(1)] by blast
  obtain st2 where n: "get_next_cluster_num rd sb c st1 = Some (Inr (next_cluster sector (sb_fat32 sb) c, st2))" "fat_ok inv sector st2"
    using next_cluster_ok [OF r(2) l c(1)] by blast
  show ?case
  proof (cases "int (length out) < len")
    case True
    obtain st' where "file_read_loop rd sb cur len (ucast (next_cluster sector (sb_fat32 sb) c)) cur out (?b @ drop (length ?b) data) st2 =
        Some (Inr (out, cur, st'))" "fat_ok inv sector st'"
      using Cons.IH [OF n(2) c(2)] by blast
    with True r n cluster_below_max [OF c(1)] show ?thesis
      by (subst file_read_loop.simps) simp
  next
    case False
    with Cons.prems(1) show ?thesis by (subst file_read_loop.simps) simp
  qed
qed

lemma file_read_loop_ok:
  assumes l: "layout_ok (sb_fat32 sb)" and len: "len < 2 ^ 31"
  shows "fat_ok inv sector st \<Longrightarrow> chain_ok sector extent (sb_fat32 sb) c cs \<Longrightarrow> base mod 512 = 0 \<Longrightarrow> base \<le> unat cur \<Longrightarrow>
     unat cur < base + 512 \<Longrightarrow> cur \<le> sz \<Longrightarrow> unat sz \<le> base + 512 * length cs \<Longrightarrow>
     \<exists>st'. file_read_loop rd sb sz len (ucast c) cur out data st =
        Some (Inr (out @ take (nat (len - int (length out))) (drop (unat cur - base) (take (unat sz - base) (chain_data sector (sb_fat32 sb) cs))),
          cur + of_nat (min (nat (len - int (length out))) (unat sz - unat cur)), st')) \<and> fat_ok inv sector st'"
proof (induction cs arbitrary: c st cur out data base)
  case Nil
  then have "unat sz = unat cur" by (simp add: word_le_nat_alt)
  then show ?case using Nil by (subst file_read_loop.simps) (auto simp: chain_ok_Nil not_less [symmetric] chain_data_def)
next
  case (Cons x xs)
  let ?f = "sb_fat32 sb"
  have x: "x = c" and c: "cluster_ok extent ?f c" "chain_ok sector extent ?f (next_cluster sector ?f c) xs"
    using Cons.prems(2) by (simp_all add: chain_ok_Cons)
  show ?case
  proof (cases "int (length out) < len")
    case False
    with Cons.prems(1) show ?thesis by (subst file_read_loop.simps) simp
  next
    case True
    let ?b = "sector (cluster_sector ?f c)" and ?D = "chain_data sector ?f xs"
    define off L M where "off = unat cur - base" and "L = nat (len - int (length out))" and "M = unat sz - base"
    define n where "n = min (word_of_int (len - int (length out)) :: u64) (min (of_nat (512 - off)) (sz - cur))"
    obtain st1 where r: "FAT_read_cluster rd sb (ucast c) st = Some (Inr ((1, ?b), st1))" "fat_ok inv sector st1"
      using read_cluster_ok [OF Cons.prems(1) l c(1)] by blast
    obtain st2 where nx: "get_next_cluster_num rd sb c st1 = Some (Inr (next_cluster sector ?f c, st2))" "fat_ok inv sector st2"
      using next_cluster_ok [OF r(2) l c(1)] by blast
    have lb: "length ?b = 512" using sector_length [of "io st"] Cons.prems(1) by (simp add: fat_ok_def)
    have o512: "off < 512" using Cons.prems(4,5) by (simp add: off_def)
    have offm: "unat (cur mod 512) = off"
    proof -
      obtain k where "base = 512 * k" using Cons.prems(3) by (metis dvd_def mod_0_imp_dvd)
      then have "unat cur = off + 512 * k" using Cons.prems(4) by (simp add: off_def)
      then show ?thesis using o512 by (simp add: unat_mod)
    qed
    have cs: "unat cur \<le> unat sz" using Cons.prems(6) by (simp add: word_le_nat_alt)
    have N: "unat n = min L (min (512 - off) (M - off))"
    proof -
      have "unat (word_of_int (len - int (length out)) :: u64) = L"
        unfolding unsigned_of_int L_def using True len by (simp add: take_bit_int_eq_self)
      moreover have "unat (of_nat (512 - off) :: u64) = 512 - off" by (simp add: unsigned_of_nat take_bit_nat_eq_self)
      moreover have "unat (sz - cur) = M - off"
        using Cons.prems(4,6) by (simp add: unat_sub M_def off_def)
      ultimately show ?thesis by (simp add: n_def unat_min_eq)
    qed
    have le_sz: "unat cur + unat n \<le> unat sz"
    proof -
      have "unat n \<le> M - off" using N by linarith
      then show ?thesis using cs Cons.prems(4) by (simp add: M_def off_def)
    qed
    then have "unat cur + unat n < 2 ^ 64" using unat_bound64 [of sz] by linarith
    then have cur': "unat (cur + n) = unat cur + unat n" using unat_add_lem [of cur n] by simp
    have cd: "chain_data sector ?f (x # xs) = ?b @ ?D" by (simp add: chain_data_def x)
    have Mc: "unat sz - unat cur = M - off" using Cons.prems(4) by (simp add: M_def off_def)
    let ?out = "out @ take (unat n) (drop off ?b)"
    have step: "file_read_loop rd sb sz len (ucast c) cur out data st =
        file_read_loop rd sb sz len (ucast (next_cluster sector ?f c)) (cur + n) ?out (?b @ drop 512 data) st2"
    proof -
      have "take (unat n) (drop off (?b @ drop 512 data)) = take (unat n) (drop off ?b)" using N lb o512 by simp
      then show ?thesis
        by (subst file_read_loop.simps)
          (simp only: True cluster_below_max [OF c(1)] simp_thms if_True r(1) nx(1) bind.bind_lunit sum.case Let_def
            fst_conv snd_conv offm n_def [symmetric] lb ucast_up_down)
    qed
    have lout: "length ?out = length out + unat n" using N lb o512 by simp
    consider "unat n = 512 - off" | "unat n < 512 - off" "unat n = L" | "unat n < 512 - off" "unat n = M - off"
      using N by linarith
    then show ?thesis
    proof cases
      case 1
      have b': "unat (cur + n) = base + 512" using 1 cur' Cons.prems(4) o512 by (simp add: off_def)
      have m: "(base + 512) mod 512 = 0" using Cons.prems(3) by simp
      have le: "cur + n \<le> sz" using le_sz by (simp only: word_le_nat_alt cur')
      have sz': "unat sz \<le> base + 512 + 512 * length xs" using Cons.prems(7) by simp
      have b2: "unat (cur + n) < base + 512 + 512" using b' by simp
      note ih = Cons.IH [OF nx(2) c(2) m eq_refl [OF b' [symmetric]] b2 le sz', of ?out "?b @ drop 512 data"]
      have L: "nat (len - int (length ?out)) = L - unat n" unfolding lout L_def by linarith
      have NL: "512 - off \<le> L" "512 - off \<le> M - off" using N 1 by linarith+
      have M512: "512 \<le> M" using NL(2) o512 by linarith
      have Mn: "unat sz - unat (cur + n) = M - off - unat n" "unat sz - (base + 512) = M - 512"
        using Mc by (simp_all add: cur' M_def)
      have mm: "M - off - unat n = M - 512" using 1 o512 by simp
      have bytes: "take L (drop off (take M (?b @ ?D))) = drop off ?b @ take (L - unat n) (take (M - 512) ?D)"
        using NL(1) M512 o512 lb 1 by simp
      have fst: "take (unat n) (drop off ?b) = drop off ?b" using 1 lb by simp
      have "min L (M - off) = unat n + min (L - unat n) (M - off - unat n)" using N by linarith
      then have "of_nat (min L (M - off)) = of_nat (unat n) + (of_nat (min (L - unat n) (M - off - unat n)) :: u64)"
        by (metis of_nat_add)
      then have w: "cur + of_nat (min L (M - off)) = cur + n + of_nat (min (L - unat n) (M - off - unat n))"
        by (simp only: word_of_unat [symmetric] add.assoc)
      show ?thesis
        using ih unfolding step cd L_def [symmetric] M_def [symmetric] off_def [symmetric] Mc bytes w b' L Mn
        by (simp only: fst append_assoc diff_self_eq_0 drop_0 mm)
    next
      case 2
      have d: "int (length ?out) = len" using 2(2) True lout by (simp add: L_def)
      have stop: "file_read_loop rd sb sz len (ucast (next_cluster sector ?f c)) (cur + n) ?out (?b @ drop 512 data) st2 =
          Some (Inr (?out, cur + n, st2))"
        using d by (subst file_read_loop.simps) simp
      have nm: "unat n = min L (M - off)" using 2 N by linarith
      have bytes: "take L (drop off (take M (?b @ ?D))) = take (unat n) (drop off ?b)"
        by (rule slice_in_first [OF _ nm]) (use 2(1) lb in simp)
      have "of_nat (min L (M - off)) = n" using word_of_unat [of n] nm by simp
      then show ?thesis
        unfolding step stop cd L_def [symmetric] M_def [symmetric] off_def [symmetric] Mc bytes
        using nx(2) 2(2) by simp
    next
      case 3
      have e: "cur + n = sz" using cur' 3(2) cs Cons.prems(4) by (simp add: word_unat_eq_iff M_def off_def)
      obtain st' where stop: "file_read_loop rd sb sz len (ucast (next_cluster sector ?f c)) sz ?out (?b @ drop 512 data) st2 =
          Some (Inr (?out, sz, st'))" "fat_ok inv sector st'"
        using file_read_done [OF l nx(2) c(2)] by blast
      have nm: "unat n = min L (M - off)" using 3 N by linarith
      have bytes: "take L (drop off (take M (?b @ ?D))) = take (unat n) (drop off ?b)"
        by (rule slice_in_first [OF _ nm]) (use 3(1) lb in simp)
      have "cur + of_nat (min L (M - off)) = sz" using e word_of_unat [of n] nm by simp
      then show ?thesis
        unfolding step e cd L_def [symmetric] M_def [symmetric] off_def [symmetric] Mc bytes
        using stop by simp
    qed
  qed
qed

lemma chain_data_drop:
  assumes "inv s"
  shows "length (chain_data sector f cs) = 512 * length cs" and "chain_data sector f (drop k cs) = drop (512 * k) (chain_data sector f cs)"
proof -
  have l: "length (sector n) = 512" for n using sector_length [OF assms] .
  show "length (chain_data sector f cs) = 512 * length cs" by (induction cs) (simp_all add: chain_data_def l)
  show "chain_data sector f (drop k cs) = drop (512 * k) (chain_data sector f cs)"
  proof (induction k arbitrary: cs)
    case (Suc k)
    then show ?case by (cases cs) (simp_all add: chain_data_def l)
  qed simp
qed

lemma FAT_file_read_ok:
  assumes ok: "fat_ok inv sector st" and l: "layout_ok (sb_fat32 sb)" and ch: "chain_ok sector extent (sb_fat32 sb) c cs"
    and f: "f_first_cluster f = ucast c" "f_cursor f \<le> st_size (f_inode f)"
    and sz: "unat (st_size (f_inode f)) \<le> 512 * length cs" "unat (st_size (f_inode f)) < 2 ^ 32" and len: "len < 2 ^ 31"
  defines "cur \<equiv> unat (f_cursor f)" and "all \<equiv> take (unat (st_size (f_inode f))) (chain_data sector (sb_fat32 sb) cs)"
  shows "\<exists>st'. FAT_file_read rd sb data0 f len st =
       Some (Inr (take (nat len) (drop cur all), f\<lparr>f_cursor := of_nat (min (cur + nat len) (length all))\<rparr>, st')) \<and>
     fat_ok inv sector st'"
proof -
  let ?k = "cur div 512" and ?sz = "unat (st_size (f_inode f))"
  have i: "inv (io st)" using ok by (simp add: fat_ok_def)
  note cd = chain_data_drop [OF i]
  have cs: "cur \<le> ?sz" using f(2) by (simp add: cur_def word_le_nat_alt)
  have small: "?k < 2 ^ 31" using cs sz(2) by (simp add: div_less_iff_less_mult)
  have "f_cursor f div 512 = of_nat ?k"
    using word_of_unat [of "f_cursor f div 512"] by (simp add: unat_div cur_def)
  then have co: "nat (sint (ucast (f_cursor f div 512) :: u32)) = ?k"
    using small by (simp add: int_of_small)
  have kl: "?k \<le> length cs" using cs sz(1) by simp
  obtain c' st1 where sk: "skip_clusters rd sb ?k (f_first_cluster f) st = Some (Inr (Some (ucast c'), st1))"
    and ok1: "fat_ok inv sector st1" and ch1: "chain_ok sector extent (sb_fat32 sb) c' (drop ?k cs)"
    using skip_clusters_ok [OF l ok ch kl] f(1) by auto
  have m: "512 * ?k mod 512 = (0 :: nat)" by simp
  have b: "512 * ?k \<le> unat (f_cursor f)" "unat (f_cursor f) < 512 * ?k + 512" by (simp_all add: cur_def)
  have s1: "?sz \<le> 512 * ?k + 512 * length (drop ?k cs)" using sz(1) kl by simp
  obtain st' where r: "file_read_loop rd sb (st_size (f_inode f)) len (ucast c') (f_cursor f) [] data0 st1 =
      Some (Inr ([] @ take (nat (len - int (length ([] :: u8 list)))) (drop (cur - 512 * ?k) (take (?sz - 512 * ?k) (chain_data sector (sb_fat32 sb) (drop ?k cs)))),
        f_cursor f + of_nat (min (nat (len - int (length ([] :: u8 list)))) (?sz - cur)), st'))" and ok': "fat_ok inv sector st'"
    using file_read_loop_ok [OF l len ok1 ch1 m b f(2) s1, of "[]" data0] unfolding cur_def by blast
  have bytes: "drop (cur - 512 * ?k) (take (?sz - 512 * ?k) (chain_data sector (sb_fat32 sb) (drop ?k cs))) = drop cur all"
    by (simp add: cd(2) all_def drop_take)
  have la: "length all = ?sz" using sz(1) by (simp add: all_def cd(1))
  have "f_cursor f + of_nat (min (nat len) (?sz - cur)) = of_nat (min (cur + nat len) (length all))"
  proof -
    have "min (cur + nat len) (length all) = cur + min (nat len) (?sz - cur)" using cs la by simp
    then show ?thesis using word_of_unat [of "f_cursor f"] by (simp only: of_nat_add cur_def)
  qed
  with r ok' co sk bytes show ?thesis by (simp add: FAT_file_read_def)
qed

end

section \<open>Properties\<close>

text \<open>
  C24: Reading an open file of a FAT32 partition, from any position inside the file, stores exactly
  the bytes of the file from that position on, at most \<open>len\<close> of them, and moves the position past
  the bytes read; the file being the first \<^verbatim>\<open>st_size\<close> bytes of the chain of clusters that the file
  allocation table gives.
\<close>

theorem FAT_file_read_contents:
  assumes "fat_ok (part_idle P p disk view) (part_sector p disk) st" and "layout_ok (sb_fat32 sb)"
    and "chain_ok (part_sector p disk) (ucast (num_sectors p)) (sb_fat32 sb) c cs"
    and "f_first_cluster f = ucast c" and "f_cursor f \<le> st_size (f_inode f)"
    and "unat (st_size (f_inode f)) \<le> 512 * length cs" and "unat (st_size (f_inode f)) < 2 ^ 32" and "len < 2 ^ 31"
    and "contents = take (unat (st_size (f_inode f))) (chain_data (part_sector p disk) (sb_fat32 sb) cs)"
  shows "\<exists>st'. FAT_file_read (part_read_block P p) sb data0 f len st =
       Some (Inr (take (nat len) (drop (unat (f_cursor f)) contents),
         f\<lparr>f_cursor := of_nat (min (unat (f_cursor f) + nat len) (length contents))\<rparr>, st')) \<and>
     fat_ok (part_idle P p disk view) (part_sector p disk) st'"
  unfolding assms(9) by (rule part.FAT_file_read_ok [OF assms(1-8)])

text \<open>
  A small volume on the partition of the example drive: the table is in block 1 of the partition,
  the root directory in cluster 2, with the volume's label, a file that starts with a small program in the clusters 3 and 4, and
  a directory in cluster 5, which has its two dotted entries, a deleted one and an empty file.
\<close>

definition prog_block :: "u16 list" where
  "prog_block =
     [0x457F, 0x464C, 0x0102, 1, 0, 0, 0, 0, 2, 0x3E, 1, 0, 0, 0x40, 0, 0, 64, 0, 0, 0, 0, 0, 0, 0, 0, 0, 64, 56, 1, 0, 0, 0,
      1, 0, 7, 0, 120, 0, 0, 0, 0, 0x40, 0, 0, 0, 0, 0, 0, 4, 0, 0, 0, 0x1000, 0, 0, 0, 0x1000, 0, 0, 0] @ replicate 196 103"

definition fat_disk :: "u64 \<Rightarrow> u16 list" where
  "fat_disk n =
     (if n = 101 then (replicate 256 0)[4 := 0xFFFF, 5 := 0x0FFF, 6 := 4, 8 := 0xFFFF, 9 := 0x0FFF, 10 := 0xFFFF, 11 := 0x0FFF]
      else if n = 102 then
        [0x4F56, 0x204C, 0x2020, 0x2020, 0x2020, 0x0820, 0, 0, 0, 0, 0, 0, 0, 0, 0, 0,
         0x4141, 0x6200, 0, 0xFF00, 0xFFFF, 0x0FFF, 0] @ replicate 6 0xFFFF @ [0, 0xFFFF, 0xFFFF,
         0x4241, 0x2020, 0x2020, 0x2020, 0x2020, 0x2020, 0, 0, 0, 0, 0, 0, 0, 3, 600, 0,
         0x6441, 0, 0xFF00, 0xFFFF, 0xFFFF, 0x0FFF, 0] @ replicate 6 0xFFFF @ [0, 0xFFFF, 0xFFFF,
         0x2044, 0x2020, 0x2020, 0x2020, 0x2020, 0x1020, 0, 0, 0, 0, 0, 0, 0, 5, 0, 0] @ replicate 176 0
      else if n = 103 then prog_block
      else if n = 105 then
        [0x202E, 0x2020, 0x2020, 0x2020, 0x2020, 0x1020, 0, 0, 0, 0, 0, 0, 0, 5, 0, 0,
         0x2E2E, 0x2020, 0x2020, 0x2020, 0x2020, 0x1020, 0, 0, 0, 0, 0, 0, 0, 0, 0, 0,
         0x58E5, 0x2020, 0x2020, 0x2020, 0x2020, 0x2020, 0, 0, 0, 0, 0, 0, 0, 0, 0, 0,
         0x6641, 0, 0xFF00, 0xFFFF, 0xFFFF, 0x0FFF, 0] @ replicate 6 0xFFFF @ [0, 0xFFFF, 0xFFFF,
         0x2046, 0x2020, 0x2020, 0x2020, 0x2020, 0x2020, 0, 0, 0, 0, 0, 0, 0, 0, 0, 0] @ replicate 176 0
      else replicate 256 (ucast n))"

definition fat_vol :: fat_superblock where
  "fat_vol = \<lparr>sb_fat32 = \<lparr>bytes_per_sector = 512, sectors_per_cluster = 1, reserved_sectors = 1, num_fats = 1,
       sectors_per_fat = 1, root_cluster_number = 2, signature = 0x29, fat_label = []\<rparr>,
     sb_root = \<lparr>st_ino = 2, st_mode = S_IFDIR, st_size = 0\<rparr>\<rparr>"

definition fat_st :: "'d \<Rightarrow> 'd fat_state" where
  "fat_st d = \<lparr>cached_FAT = replicate 512 0, cached_sector = 0, io = d\<rparr>"

abbreviation fat_ports :: "ata_regs ports" where
  "fat_ports \<equiv> drive_ports 0x1F0 fat_disk"

lemma fat_disk_length: "length (fat_disk n) = 256"
  by (simp add: fat_disk_def prog_block_def)

lemma fat_disk_part: "part_idle fat_ports sda0 fat_disk (\<lambda>r. r) (blk_example idle_regs)"
proof -
  have "ata_idle fat_ports sda fat_disk (\<lambda>r. r) (blk_example idle_regs)"
    by (rule drive_ports_ok) (simp add: fat_disk_length)
  then show ?thesis by (simp add: part_idle_def sda0_def sda_def ata_idle_def ata_drive_def)
qed

lemma fat_disk_ok: "fat_ok (part_idle fat_ports sda0 fat_disk (\<lambda>r. r)) (part_sector sda0 fat_disk) (fat_st (blk_example idle_regs))"
  by (simp add: fat_ok_def fat_st_def fat_disk_part)

lemma fat_vol_layout: "layout_ok (sb_fat32 fat_vol)"
  by (simp add: layout_ok_def data_start_def fat_vol_def)

lemma fat_table: "next_cluster (part_sector sda0 fat_disk) (sb_fat32 fat_vol) 2 = 0x0FFFFFFF"
    "next_cluster (part_sector sda0 fat_disk) (sb_fat32 fat_vol) 3 = 4"
    "next_cluster (part_sector sda0 fat_disk) (sb_fat32 fat_vol) 4 = 0x0FFFFFFF"
    "next_cluster (part_sector sda0 fat_disk) (sb_fat32 fat_vol) 5 = 0x0FFFFFFF"
proof -
  have w: "fat_disk 101 ! 4 = 0xFFFF" "fat_disk 101 ! 5 = 0x0FFF" "fat_disk 101 ! 6 = 4" "fat_disk 101 ! 7 = 0"
    "fat_disk 101 ! 8 = 0xFFFF" "fat_disk 101 ! 9 = 0x0FFF" "fat_disk 101 ! 10 = 0xFFFF" "fat_disk 101 ! 11 = 0x0FFF" by (simp_all add: fat_disk_def)
  note b = bytes_of_read(1) [OF fat_disk_length [of 101]]
  show "next_cluster (part_sector sda0 fat_disk) (sb_fat32 fat_vol) 2 = 0x0FFFFFFF"
    "next_cluster (part_sector sda0 fat_disk) (sb_fat32 fat_vol) 3 = 4"
    "next_cluster (part_sector sda0 fat_disk) (sb_fat32 fat_vol) 4 = 0x0FFFFFFF"
    "next_cluster (part_sector sda0 fat_disk) (sb_fat32 fat_vol) 5 = 0x0FFFFFFF"
    using b [of 4] b [of 5] b [of 6] b [of 7] b [of 8] b [of 9] b [of 10] b [of 11]
    by (simp_all add: next_cluster_def fat_vol_def part_sector_def sda0_def le32_def w)
qed

lemma fat_chains: "chain_ok (part_sector sda0 fat_disk) 50 (sb_fat32 fat_vol) 3 [3, 4]"
    "chain_ok (part_sector sda0 fat_disk) 50 (sb_fat32 fat_vol) 2 [2]"
    "chain_ok (part_sector sda0 fat_disk) 50 (sb_fat32 fat_vol) 5 [5]"
  by (simp_all add: chain_ok_def fat_table TABLE_VAL_MAX_def cluster_ok_def cluster_sector_def data_start_def)
    (simp_all add: fat_vol_def word_less_nat_alt)

theorem FAT_file_read_contents_witness:
  "\<exists>st'. FAT_file_read (part_read_block fat_ports sda0) fat_vol [] \<lparr>f_inode = \<lparr>st_ino = 3, st_mode = 0, st_size = 600\<rparr>,
       f_cursor = 510, f_first_cluster = 3\<rparr> 4 (fat_st (blk_example idle_regs)) =
     Some (Inr ([103, 0, 104, 0], \<lparr>f_inode = \<lparr>st_ino = 3, st_mode = 0, st_size = 600\<rparr>,
       f_cursor = 514, f_first_cluster = 3\<rparr>, st'))"
proof -
  let ?f = "\<lparr>f_inode = \<lparr>st_ino = 3, st_mode = 0, st_size = 600\<rparr>, f_cursor = 510, f_first_cluster = 3\<rparr>"
  have ch: "chain_ok (part_sector sda0 fat_disk) (ucast (num_sectors sda0)) (sb_fat32 fat_vol) 3 [3, 4]"
    using fat_chains(1) by (simp add: sda0_def)
  let ?d = "chain_data (part_sector sda0 fat_disk) (sb_fat32 fat_vol) [3, 4]"
  have d: "?d = bytes_of prog_block @ bytes_of (replicate 256 104)"
    by (simp add: chain_data_def cluster_sector_def data_start_def fat_vol_def part_sector_def sda0_def fat_disk_def)
  have r: "bytes_of (replicate n (w :: u16)) = concat (replicate n [ucast w, ucast (drop_bit 8 w)])" for n w
    by (induction n) (simp_all add: bytes_of_def)
  have "take 4 (drop 510 (take 600 ?d)) = [103, 0, 104, 0]" unfolding d r by code_simp
  moreover have "length ?d = 1024" unfolding d r by code_simp
  ultimately show ?thesis
    using FAT_file_read_contents [OF fat_disk_ok fat_vol_layout ch, of ?f 4 _ "[]", OF _ _ _ _ _ refl] by auto
qed

end
