(* ===== verification/Fat_Dir.thy ===== *)
theory Fat_Dir
  imports Fat
begin

text \<open>
  What \<^verbatim>\<open>FAT_readdir\<close> makes of a directory. The directory is given the way the file system lays it
  out on disk: 32 byte entries, a long name in numbered pieces of 13 characters before the entry it
  belongs to. The walk over the clusters is reduced to calls of the callback on a list of names and
  inodes, and that list is read off the layout.
\<close>

section \<open>The entries of a directory\<close>

fun chunks :: "nat \<Rightarrow> u8 list \<Rightarrow> u8 list list" where
  "chunks 0 d = []"
| "chunks (Suc n) d = take 32 d # chunks n (drop 32 d)"

text \<open>What a list of raw entries stands for: the names and inodes in order.\<close>

fun run_entries :: "u8 list list \<Rightarrow> u8 list \<Rightarrow> bool \<Rightarrow> ((u8 list \<times> inode) list \<times> u8 list \<times> bool) option" where
  "run_entries [] name valid = Some ([], name, valid)"
| "run_entries (c # cs) name valid =
     (let e = dir_ent_at c 0
      in if c ! 0 = 0 then Some ([], name, valid)
         else if de_attr e = FAT_ATTR_LFN then
           Option.bind (get_long_dir_ent_name (long_dir_ent_at c 0) name) (\<lambda>name. run_entries cs name False)
         else
           let name = (if valid then get_dir_ent_name e name else name);
               new = (if name ! 0 \<noteq> 46 then [(c_string name, dir_ent_inode e)] else [])
           in if name ! 0 \<noteq> 46 \<and> 0 \<notin> set name then None
              else map_option (\<lambda>(es, nv). (new @ es, nv)) (run_entries cs name True))"

text \<open>The end marker ends a cluster, not the directory.\<close>

fun dir_entries :: "u8 list list \<Rightarrow> u8 list \<Rightarrow> bool \<Rightarrow> (u8 list \<times> inode) list option" where
  "dir_entries [] name valid = Some []"
| "dir_entries (b # bs) name valid =
     Option.bind (run_entries (chunks 16 b) name valid) (\<lambda>(es, name, valid). map_option ((@) es) (dir_entries bs name valid))"

fun call_all :: "(u8 list \<Rightarrow> inode \<Rightarrow> 'st \<Rightarrow> 'st res option) \<Rightarrow> (u8 list \<times> inode) list \<Rightarrow> 'st \<Rightarrow> 'st res option" where
  "call_all cb [] st = Some (Inr st)"
| "call_all cb (e # es) st = bind_ro (cb (fst e) (snd e) st) (call_all cb es)"

lemma chunk_reads:
  assumes "32 * i + 32 \<le> length data" and "c = take 32 (drop (32 * i) data)"
  shows "dir_ent_at data i = dir_ent_at c 0" and "long_dir_ent_at data i = long_dir_ent_at c 0" and "data ! (32 * i) = c ! 0"
  using assms by (simp_all add: dir_ent_at_def long_dir_ent_at_def Let_def le16_def le32_def add.commute take_drop)

lemma dir_loop_calls:
  assumes "length data = 32 * (i + n)" and "run_entries (chunks n (drop (32 * i) data)) name valid = Some (es, name', valid')"
  shows "dir_loop cb data n i name valid st = bind_ro (call_all cb es st) (\<lambda>st. Some (Inr (name', valid', st)))"
  using assms
proof (induction n arbitrary: i name valid es st)
  case (Suc n)
  define c where "c = take 32 (drop (32 * i) data)"
  have r: "dir_ent_at data i = dir_ent_at c 0" "long_dir_ent_at data i = long_dir_ent_at c 0" "data ! (32 * i) = c ! 0"
    using chunk_reads [OF _ c_def] Suc.prems(1) by simp_all
  define cs where "cs = chunks n (drop (32 * Suc i) data)"
  have ch: "chunks (Suc n) (drop (32 * i) data) = c # cs" by (simp add: c_def cs_def)
  have l: "length data = 32 * (Suc i + n)" using Suc.prems(1) by simp
  have ih: "dir_loop cb data n (Suc i) nm v t = bind_ro (call_all cb xs t) (\<lambda>st. Some (Inr (name', valid', st)))"
    if "run_entries cs nm v = Some (xs, name', valid')" for nm v xs t
    by (rule Suc.IH [OF l]) (use that in \<open>simp add: cs_def\<close>)
  have run: "run_entries (c # cs) name valid = Some (es, name', valid')" using Suc.prems(2) unfolding ch .
  show ?case
  proof (cases "c ! 0 = 0 \<or> de_attr (dir_ent_at c 0) = FAT_ATTR_LFN")
    case True
    with run ih show ?thesis by (auto simp: Let_def bind_eq_Some_conv r)
  next
    case False
    define nm where "nm = (if valid then get_dir_ent_name (dir_ent_at c 0) name else name)"
    define e where "e = dir_ent_inode (dir_ent_at c 0)"
    obtain es1 where es1: "run_entries cs nm True = Some (es1, name', valid')"
      and es: "es = (if nm ! 0 \<noteq> 46 then [(c_string nm, e)] else []) @ es1" and z: "nm ! 0 \<noteq> 46 \<longrightarrow> 0 \<in> set nm"
      using run False by (auto simp: Let_def nm_def [symmetric] e_def [symmetric] split: if_splits)
    have step: "dir_loop cb data (Suc n) i name valid st =
        (if nm ! 0 \<noteq> 46 then bind_ro (cb (c_string nm) e st) (dir_loop cb data n (Suc i) nm True)
         else dir_loop cb data n (Suc i) nm True st)"
      using False z by (simp add: Let_def r nm_def [symmetric] e_def [symmetric])
    show ?thesis
      unfolding step es by (cases "cb (c_string nm) e st") (auto simp: ih [OF es1] split: sum.split)
  qed
qed auto

text \<open>
  A callback that returns for the entries \<open>E\<close>, leaves the device and the cache intact, and whose
  effect on what \<open>obs\<close> observes is \<open>g\<close>.
\<close>

definition callback_ok ::
    "(('s, 'a) fat_state_scheme \<Rightarrow> bool) \<Rightarrow> (('s, 'a) fat_state_scheme \<Rightarrow> 'o) \<Rightarrow> (u8 list \<Rightarrow> inode \<Rightarrow> 'o \<Rightarrow> 'o) \<Rightarrow>
     (u8 list \<times> inode) set \<Rightarrow> (u8 list \<Rightarrow> inode \<Rightarrow> ('s, 'a) fat_state_scheme \<Rightarrow> ('s, 'a) fat_state_scheme res option) \<Rightarrow> bool" where
  "callback_ok ok obs g E cb \<longleftrightarrow>
     (\<forall>n i st. (n, i) \<in> E \<longrightarrow> ok st \<longrightarrow> (\<exists>st'. cb n i st = Some (Inr st') \<and> ok st' \<and> obs st' = g n i (obs st)))"

lemma call_all_ok:
  assumes "callback_ok ok obs g E cb"
  shows "ok st \<Longrightarrow> set es \<subseteq> E \<Longrightarrow> \<exists>st'. call_all cb es st = Some (Inr st') \<and> ok st' \<and> obs st' = fold (\<lambda>(n, i). g n i) es (obs st)"
proof (induction es arbitrary: st)
  case (Cons e es)
  obtain st1 where "cb (fst e) (snd e) st = Some (Inr st1)" "ok st1" "obs st1 = g (fst e) (snd e) (obs st)"
    using assms Cons.prems unfolding callback_ok_def by (metis insert_subset list.set(2) prod.collapse)
  with Cons.IH [of st1] Cons.prems(2) show ?case by (auto simp: split_beta)
qed simp

text \<open>The functions of the file system keep all but the device and the cache.\<close>

lemma read_cluster_rest: "FAT_read_cluster rd sb c st = Some (Inr (r, st')) \<Longrightarrow> fat_state.more st' = fat_state.more st"
  by (auto simp: FAT_read_cluster_def Let_def bind_ro_Inr)

lemma next_cluster_rest: "get_next_cluster_num rd sb c st = Some (Inr (r, st')) \<Longrightarrow> fat_state.more st' = fat_state.more st"
  by (auto simp: get_next_cluster_num_def get_FAT_def Let_def bind_ro_Inr split: if_splits)

context block_store begin

lemma readdir_loop_ok:
  assumes l: "layout_ok (sb_fat32 sb)" and cb: "callback_ok (fat_ok inv sector) (\<lambda>st. obs (fat_state.more st)) g E cb"
  shows "fat_ok inv sector st \<Longrightarrow> chain_ok sector extent (sb_fat32 sb) c cs \<Longrightarrow>
     dir_entries (map (\<lambda>c. sector (cluster_sector (sb_fat32 sb) c)) cs) name valid = Some es \<Longrightarrow> set es \<subseteq> E \<Longrightarrow> length data = 512 \<Longrightarrow>
     \<exists>st'. readdir_loop rd sb cb (ucast c) data name valid st = Some (Inr st') \<and> fat_ok inv sector st' \<and>
       obs (fat_state.more st') = fold (\<lambda>(n, i). g n i) es (obs (fat_state.more st))"
proof (induction cs arbitrary: c st data name valid es)
  case Nil
  then show ?case by (subst readdir_loop.simps) (auto simp: chain_ok_Nil not_less [symmetric])
next
  case (Cons x xs)
  let ?f = "sb_fat32 sb" and ?b = "sector (cluster_sector (sb_fat32 sb) c)"
  from Cons.prems have x: "x = c" and c: "cluster_ok extent ?f c" "chain_ok sector extent ?f (next_cluster sector ?f c) xs"
    by (simp_all add: chain_ok_Cons)
  obtain st1 where r: "FAT_read_cluster rd sb (ucast c) st = Some (Inr ((1, ?b), st1))" "fat_ok inv sector st1"
    using read_cluster_ok [OF Cons.prems(1) l c(1)] by blast
  have lb: "length ?b = 512" using sector_length [of "io st"] Cons.prems(1) by (simp add: fat_ok_def)
  from Cons.prems(3) obtain es1 name1 valid1 es2 where run: "run_entries (chunks 16 ?b) name valid = Some (es1, name1, valid1)"
    and rest: "dir_entries (map (\<lambda>c. sector (cluster_sector ?f c)) xs) name1 valid1 = Some es2" and es: "es = es1 @ es2"
    by (auto simp: x bind_eq_Some_conv)
  obtain st2 where ca: "call_all cb es1 st1 = Some (Inr st2)" "fat_ok inv sector st2"
      "obs (fat_state.more st2) = fold (\<lambda>(n, i). g n i) es1 (obs (fat_state.more st1))"
    using call_all_ok [OF cb r(2), of es1] Cons.prems(4) es by auto
  have dl: "dir_loop cb ?b 16 0 name valid st1 = Some (Inr (name1, valid1, st2))"
    using dir_loop_calls [of ?b 0 16 name valid es1 name1 valid1 cb st1] lb run ca(1) by simp
  obtain st3 where n: "get_next_cluster_num rd sb c st2 = Some (Inr (next_cluster sector ?f c, st3))" "fat_ok inv sector st3"
    using next_cluster_ok [OF ca(2) l c(1)] by blast
  obtain st' where ih: "readdir_loop rd sb cb (ucast (next_cluster sector ?f c)) ?b name1 valid1 st3 = Some (Inr st')" "fat_ok inv sector st'"
      "obs (fat_state.more st') = fold (\<lambda>(n, i). g n i) es2 (obs (fat_state.more st3))"
    using Cons.IH [OF n(2) c(2) rest _ lb] Cons.prems(4) es by auto
  have "readdir_loop rd sb cb (ucast c) data name valid st = Some (Inr st')"
    using r(1) dl n(1) ih(1) cluster_below_max [OF c(1)] lb Cons.prems(5)
    by (subst readdir_loop.simps) simp
  with ih ca(3) es read_cluster_rest [OF r(1)] next_cluster_rest [OF n(1)] show ?case by simp
qed

end

section \<open>The layout of a directory\<close>

text \<open>
  An entry with the pieces of its long name: \<open>di_long\<close> are the characters, padded to whole pieces of
  13, empty when the entry has no long name; \<open>di_check\<close> is the checksum in each piece, \<open>di_times\<close>
  and \<open>di_mod\<close> are the bytes nothing reads.
\<close>

record dir_item =
  di_long :: "u16 list"
  di_check :: u8
  di_short :: fat_dir_ent
  di_times :: "u8 list"
  di_mod :: "u8 list"

definition lfn_chunk :: "u8 \<Rightarrow> nat \<Rightarrow> bool \<Rightarrow> u16 list \<Rightarrow> u8 list" where
  "lfn_chunk chk num final cs =
     [of_nat num OR (if final then 0x40 else 0)] @ bytes_of (take 5 cs) @ [FAT_ATTR_LFN, 0, chk] @
     bytes_of (take 6 (drop 5 cs)) @ [0, 0] @ bytes_of (drop 11 cs)"

text \<open>The last piece comes first on the disk.\<close>

fun long_chunks :: "u8 \<Rightarrow> u16 list \<Rightarrow> nat \<Rightarrow> nat \<Rightarrow> u8 list list" where
  "long_chunks chk cs m 0 = []"
| "long_chunks chk cs m (Suc k) = lfn_chunk chk (Suc k) (Suc k = m) (take 13 (drop (13 * k) cs)) # long_chunks chk cs m k"

definition short_chunk :: "dir_item \<Rightarrow> u8 list" where
  "short_chunk it =
     (let e = di_short it
      in de_name e @ [de_attr e] @ di_times it @ bytes_of [de_cluster_hi e] @ di_mod it @ bytes_of [de_cluster_lo e] @
         bytes_of [ucast (de_size e), ucast (drop_bit 16 (de_size e))])"

definition item_chunks :: "dir_item \<Rightarrow> u8 list list" where
  "item_chunks it =
     (let m = length (di_long it) div 13 in long_chunks (di_check it) (di_long it) m m @ [short_chunk it])"

text \<open>
  An entry of the disk: a first byte and an attribute that make it one, and at most 19 pieces of a long name (20 are more
  than the buffer's 256 bytes). The first byte may be the \<open>0xE5\<close> of a deleted entry or the dot of the two entries
  every directory below the root starts with.
\<close>

definition item_ok :: "dir_item \<Rightarrow> bool" where
  "item_ok it \<longleftrightarrow>
     length (de_name (di_short it)) = 11 \<and> length (di_times it) = 8 \<and> length (di_mod it) = 4 \<and>
     de_name (di_short it) ! 0 \<noteq> 0 \<and> de_attr (di_short it) \<noteq> FAT_ATTR_LFN \<and>
     length (di_long it) mod 13 = 0 \<and> length (di_long it) \<le> 13 * 19"

text \<open>
  The characters an entry brings into the name: those of its long name, or its short name, padded with blanks on the disk, and
  the attribute byte behind it. They need not hold a terminator; the name then goes on with what the buffer held there.
\<close>

definition item_chars :: "dir_item \<Rightarrow> u8 list" where
  "item_chars it = (if di_long it = [] then de_name (di_short it) @ [de_attr (di_short it)] else map ucast (di_long it))"

definition item_name :: "dir_item \<Rightarrow> u8 list \<Rightarrow> u8 list" where
  "item_name it buf =
     (if 0 \<in> set (item_chars it) then c_string (item_chars it)
      else item_chars it @ c_string (drop (length (item_chars it)) buf))"

text \<open>What the buffer holds after the entry: a short name fills up with zeros behind its first one.\<close>

definition name_after :: "dir_item \<Rightarrow> u8 list \<Rightarrow> u8 list" where
  "name_after it buf =
     (let w = c_string (item_chars it)
      in (if di_long it = [] then w @ replicate (length (item_chars it) - length w) 0 else item_chars it) @
         drop (length (item_chars it)) buf)"

text \<open>What is listed, starting with a buffer: every entry whose name does not start with a dot.\<close>

definition dotted :: "dir_item \<Rightarrow> bool" where
  "dotted it \<longleftrightarrow> hd (item_chars it) = 46"

fun listing :: "u8 list \<Rightarrow> dir_item list \<Rightarrow> (u8 list \<times> inode) list" where
  "listing buf [] = []"
| "listing buf (it # its) =
     (if dotted it then [] else [(item_name it buf, dir_ent_inode (di_short it))]) @ listing (name_after it buf) its"

text \<open>
  A buffer for names before it is used: its last bytes, which no name reaches, hold a zero, so every name has an end
  inside of it.
\<close>

definition name_buffer :: "u8 list \<Rightarrow> bool" where
  "name_buffer buf \<longleftrightarrow> length buf = 256 \<and> 0 \<in> set (drop 247 buf)"

subsection \<open>Reading the layout\<close>

lemma word_of_bytes: "ucast (ucast w :: u8) OR push_bit 8 (ucast (ucast (drop_bit 8 w) :: u8)) = (w :: u16)"
  "ucast (ucast v :: u16) OR push_bit 16 (ucast (ucast (drop_bit 16 v) :: u16)) = (v :: u32)"
  by (rule bit_word_eqI, auto simp: bit_simps)+

lemma bytes_of_simps: "bytes_of [] = []" "bytes_of (w # ws) = [ucast w, ucast (drop_bit 8 w)] @ bytes_of ws"
  by (simp_all add: bytes_of_def)

lemma short_chunk_reads:
  assumes "item_ok it"
  shows "dir_ent_at (short_chunk it) 0 = di_short it" and "short_chunk it ! 0 = de_name (di_short it) ! 0" and "length (short_chunk it) = 32"
proof -
  have l: "length (de_name (di_short it)) = 11" "length (di_times it) = 8" "length (di_mod it) = 4"
    using assms by (simp_all add: item_ok_def)
  then show "short_chunk it ! 0 = de_name (di_short it) ! 0" "length (short_chunk it) = 32"
    by (simp_all add: short_chunk_def Let_def nth_append bytes_of_simps)
  show "dir_ent_at (short_chunk it) 0 = di_short it"
    using l by (simp add: dir_ent_at_def short_chunk_def Let_def le32_def le16_def nth_append bytes_of_simps word_of_bytes)
qed

lemma lfn_order:
  assumes "num < 64"
  shows "uint ((of_nat num OR (if final then 0x40 else 0) :: u8) AND 0x3F) = int num"
proof -
  have m: "(0x3F :: u8) = mask 6" by (simp add: mask_eq_exp_minus_1)
  have x: "(0x40 :: int) = 2 ^ 6" by simp
  have b: "bit (0x40 :: int) n \<longleftrightarrow> n = 6" for n by (simp only: x bit_exp_iff) auto
  have "(w OR (if final then 0x40 else 0) :: u8) AND mask 6 = take_bit 6 w" for w
    by (rule bit_word_eqI) (auto simp: bit_simps b)
  then have "(of_nat num OR (if final then 0x40 else 0) :: u8) AND mask 6 = take_bit 6 (of_nat num)" .
  moreover have "uint (take_bit 6 (of_nat num :: u8)) = int num"
  proof -
    have "uint (of_nat num :: u8) = int num" using assms by (simp add: unsigned_of_nat take_bit_nat_eq_self)
    moreover have "take_bit 6 (int num) = int num" using assms by (simp add: take_bit_int_eq_self_iff)
    ultimately show ?thesis by (simp only: unsigned_take_bit_eq)
  qed
  ultimately show ?thesis by (simp only: m)
qed

lemma le16_append:
  "n = length xs \<Longrightarrow> le16 (xs @ ys) (n + i) = le16 ys i"
  "Suc i < length xs \<Longrightarrow> le16 (xs @ ys) i = le16 xs i"
  by (simp_all add: le16_def nth_append)

lemma le16_bytes_of: "k < length ws \<Longrightarrow> le16 (bytes_of ws) (2 * k) = ws ! k"
  by (simp add: le16_def bytes_of_nth word_of_bytes)

lemma words_of_bytes:
  assumes "length xs = n" and "length ws = m"
  shows "map (\<lambda>k. le16 (xs @ bytes_of ws @ ys) (n + 2 * k)) [0..<m] = ws"
proof -
  have "le16 (xs @ bytes_of ws @ ys) (n + 2 * k) = ws ! k" if "k < m" for k
    using assms that le16_append(1) [of n xs "bytes_of ws @ ys" "2 * k"] le16_append(2) [of "2 * k" "bytes_of ws" ys]
    by (simp add: length_bytes_of le16_bytes_of)
  then have "map (\<lambda>k. le16 (xs @ bytes_of ws @ ys) (n + 2 * k)) [0..<m] = map ((!) ws) [0..<length ws]"
    using assms(2) by (intro map_cong) auto
  then show ?thesis by (simp only: map_nth)
qed

lemma lfn_chunk_reads:
  assumes "length cs = 13" and "0 < num" and "num < 64"
  shows "de_attr (dir_ent_at (lfn_chunk chk num final cs) 0) = FAT_ATTR_LFN" and "lfn_chunk chk num final cs ! 0 \<noteq> 0"
    and "13 * num \<le> length name \<Longrightarrow> get_long_dir_ent_name (long_dir_ent_at (lfn_chunk chk num final cs) 0) name =
       Some (take (13 * (num - 1)) name @ map ucast cs @ drop (13 * num) name)"
    and "length (lfn_chunk chk num final cs) = 32"
proof -
  obtain a b c d e f g h i j k l m where cs: "cs = [a, b, c, d, e, f, g, h, i, j, k, l, m]"
    using assms(1) by (auto simp: numeral_eq_Suc length_Suc_conv)
  show "de_attr (dir_ent_at (lfn_chunk chk num final cs) 0) = FAT_ATTR_LFN" "length (lfn_chunk chk num final cs) = 32"
    by (simp_all add: dir_ent_at_def lfn_chunk_def cs bytes_of_simps Let_def)
  show "lfn_chunk chk num final cs ! 0 \<noteq> 0"
    using lfn_order [OF assms(3), of final] assms(2) by (auto simp: lfn_chunk_def)
  obtain q where q: "num = Suc q" using assms(2) by (cases num) auto
  define o8 :: u8 where "o8 = of_nat num OR (if final then 0x40 else 0)"
  let ?A = "bytes_of (take 5 cs)" and ?B = "bytes_of (take 6 (drop 5 cs))" and ?C = "bytes_of (drop 11 cs)"
  have ch: "lfn_chunk chk num final cs = [o8] @ ?A @ ([FAT_ATTR_LFN, 0, chk] @ ?B @ [0, 0] @ ?C)"
    "lfn_chunk chk num final cs = ([o8] @ ?A @ [FAT_ATTR_LFN, 0, chk]) @ ?B @ ([0, 0] @ ?C)"
    "lfn_chunk chk num final cs = ([o8] @ ?A @ [FAT_ATTR_LFN, 0, chk] @ ?B @ [0, 0]) @ ?C @ []"
    by (simp_all add: lfn_chunk_def o8_def)
  have "map (\<lambda>k. le16 (lfn_chunk chk num final cs) (1 + 2 * k)) [0..<5] = take 5 cs"
    unfolding ch(1) by (rule words_of_bytes) (simp_all add: cs)
  moreover have "map (\<lambda>k. le16 (lfn_chunk chk num final cs) (14 + 2 * k)) [0..<6] = take 6 (drop 5 cs)"
    unfolding ch(2) by (rule words_of_bytes) (simp_all add: cs length_bytes_of)
  moreover have "map (\<lambda>k. le16 (lfn_chunk chk num final cs) (28 + 2 * k)) [0..<2] = drop 11 cs"
    unfolding ch(3) by (rule words_of_bytes) (simp_all add: cs length_bytes_of)
  moreover have "lfn_chunk chk num final cs ! 0 = o8" by (simp add: ch(1))
  ultimately have "long_dir_ent_at (lfn_chunk chk num final cs) 0 =
      \<lparr>lde_order = o8, lde_first = take 5 cs, lde_middle = take 6 (drop 5 cs), lde_last = drop 11 cs\<rparr>"
    by (simp add: long_dir_ent_at_def Let_def)
  moreover have "uint (o8 AND 0x3F) - 1 = int q" using lfn_order [OF assms(3), of final] q by (simp add: o8_def)
  moreover have "nat (int q * 13) = 13 * q" by simp
  ultimately show "13 * num \<le> length name \<Longrightarrow> get_long_dir_ent_name (long_dir_ent_at (lfn_chunk chk num final cs) 0) name =
       Some (take (13 * (num - 1)) name @ map ucast cs @ drop (13 * num) name)"
    by (simp add: get_long_dir_ent_name_def Let_def cs q add.commute)
qed

lemma run_long_chunks:
  assumes "length cs = 13 * m" and "m < 64"
  shows "k \<le> m \<Longrightarrow> 13 * k \<le> length name \<Longrightarrow>
    run_entries (long_chunks chk cs m k @ rest) name valid =
      run_entries rest (map ucast (take (13 * k) cs) @ drop (13 * k) name) (valid \<and> k = 0)"
proof (induction k arbitrary: name valid)
  case (Suc k)
  let ?part = "take 13 (drop (13 * k) cs)"
  have l: "length ?part = 13" using assms Suc.prems by simp
  have k64: "Suc k < 64" using Suc.prems assms by simp
  note r = lfn_chunk_reads [OF l zero_less_Suc k64, where chk = chk and final = "Suc k = m", unfolded diff_Suc_1]
  have "run_entries (long_chunks chk cs m (Suc k) @ rest) name valid =
      run_entries (long_chunks chk cs m k @ rest) (take (13 * k) name @ map ucast ?part @ drop (13 * Suc k) name) False"
    using r(1,2) r(3) [of name] Suc.prems by (simp add: Let_def)
  also have "\<dots> = run_entries rest (map ucast (take (13 * k) cs) @ map ucast ?part @ drop (13 * Suc k) name) False"
    using Suc.IH [of "take (13 * k) name @ map ucast ?part @ drop (13 * Suc k) name" False] Suc.prems by simp
  also have "\<dots> = run_entries rest (map ucast (take (13 * Suc k) cs) @ drop (13 * Suc k) name) False"
    using take_add [of "13 * k" 13 cs] by (simp add: add.commute)
  finally show ?case by (simp only: nat.simps simp_thms)
qed simp

lemma c_string_append: "0 \<in> set b \<Longrightarrow> c_string (b @ c) = c_string b"
  unfolding c_string_def by (rule takeWhile_append1) auto

lemma takeWhile_shorter: "0 \<in> set xs \<Longrightarrow> length (takeWhile (\<lambda>c. c \<noteq> 0) xs) < length xs"
  by (induction xs) auto

lemma strncpy_length: "length (strncpy_bytes n src) = n"
proof -
  have "length (takeWhile (\<lambda>c. c \<noteq> 0) (take n src)) \<le> n"
    by (rule order_trans [OF length_takeWhile_le]) simp
  then show ?thesis by (simp add: strncpy_bytes_def Let_def)
qed

lemma c_string_strncpy:
  assumes "length src = n" and "0 \<in> set src"
  shows "c_string (strncpy_bytes n src @ r) = c_string src" and "strncpy_bytes n src ! 0 = src ! 0"
proof -
  let ?w = "takeWhile (\<lambda>c. c \<noteq> 0) src"
  have "length ?w < n" using takeWhile_shorter [OF assms(2)] assms(1) by simp
  then obtain m where m: "n - length ?w = Suc m" by (metis Suc_diff_Suc)
  have b: "strncpy_bytes n src = ?w @ replicate (Suc m) 0" using assms by (simp add: strncpy_bytes_def m)
  have "takeWhile (\<lambda>c. c \<noteq> 0) (?w @ 0 # x) = ?w" for x by (induction src) simp_all
  then show "c_string (strncpy_bytes n src @ r) = c_string src" by (simp add: b c_string_def)
  show "strncpy_bytes n src ! 0 = src ! 0"
    using assms unfolding b by (cases src) auto
qed

lemma c_string_head:
  "b \<noteq> [] \<Longrightarrow> (b ! 0 \<noteq> 46) = (take 1 (c_string b) \<noteq> [46])"
  by (cases b) (auto simp: c_string_def)

lemma item_chars_length:
  assumes "item_ok it"
  shows "item_chars it \<noteq> []" "length (item_chars it) \<le> 247" "di_long it = [] \<Longrightarrow> length (item_chars it) = MAX_DE_LEN + 1"
  using assms by (auto simp: item_ok_def item_chars_def MAX_DE_LEN_def)

lemma name_after_buffer:
  assumes it: "item_ok it" and b: "name_buffer buf"
  shows "name_buffer (name_after it buf)"
proof -
  let ?n = "length (item_chars it)"
  define w where "w = (if di_long it = [] then c_string (item_chars it) @ replicate (?n - length (c_string (item_chars it))) 0 else item_chars it)"
  have "length (c_string (item_chars it)) \<le> ?n" by (simp add: c_string_def length_takeWhile_le)
  then have w: "length w = ?n" by (simp add: w_def)
  have n: "?n \<le> 247" using item_chars_length(2) [OF it] .
  have a: "name_after it buf = w @ drop ?n buf" by (simp add: name_after_def w_def Let_def)
  have "drop 247 (w @ drop ?n buf) = drop 247 buf" using w n by simp
  with b w n show ?thesis by (simp add: name_buffer_def a)
qed

lemma listed_name:
  assumes it: "item_ok it" and b: "name_buffer buf"
  defines "nm \<equiv> (if di_long it = [] then get_dir_ent_name (di_short it) buf else map ucast (di_long it) @ drop (length (di_long it)) buf)"
  shows "nm = name_after it buf" "nm ! 0 \<noteq> 46 \<longleftrightarrow> \<not> dotted it" "c_string nm = item_name it buf" "0 \<in> set nm"
proof -
  let ?c = "item_chars it" and ?n = "length (item_chars it)"
  note l = item_chars_length [OF it]
  have s: "get_dir_ent_name (di_short it) buf = strncpy_bytes (MAX_DE_LEN + 1) ?c @ drop ?n buf" if "di_long it = []"
    using that l(3) by (simp add: get_dir_ent_name_def item_chars_def)
  show a: "nm = name_after it buf"
  proof (cases "di_long it = []")
    case True
    then have "nm = strncpy_bytes ?n ?c @ drop ?n buf" using s l(3) by (simp add: nm_def)
    then show ?thesis using True by (simp add: name_after_def strncpy_bytes_def c_string_def Let_def)
  next
    case False
    then show ?thesis by (simp add: nm_def name_after_def item_chars_def Let_def)
  qed
  have z: "0 \<in> set (drop ?n buf)"
  proof -
    have "drop 247 buf = drop (247 - ?n) (drop ?n buf)" using l(2) by simp
    then have "set (drop 247 buf) \<subseteq> set (drop ?n buf)" by (simp only: set_drop_subset)
    then show ?thesis using b by (auto simp: name_buffer_def)
  qed
  show "0 \<in> set nm" using z by (auto simp: a name_after_def Let_def)
  have hd0: "hd ?c \<noteq> 0" if "di_long it = []" using that it by (cases "de_name (di_short it)") (auto simp: item_chars_def item_ok_def)
  have n0: "nm ! 0 = hd ?c"
  proof -
    obtain x xs where c: "?c = x # xs" using l(1) by (cases ?c) auto
    show ?thesis using hd0 by (auto simp: a name_after_def Let_def c c_string_def)
  qed
  then show "nm ! 0 \<noteq> 46 \<longleftrightarrow> \<not> dotted it" by (simp add: dotted_def)
  show "c_string nm = item_name it buf"
  proof (cases "0 \<in> set ?c")
    case True
    show ?thesis
    proof (cases "di_long it = []")
      case True
      then have "nm = strncpy_bytes ?n ?c @ drop ?n buf" using s l(3) by (simp add: nm_def)
      then show ?thesis using c_string_strncpy(1) [OF refl \<open>0 \<in> set ?c\<close>] \<open>0 \<in> set ?c\<close> by (simp add: item_name_def)
    next
      case False
      then show ?thesis using True by (simp add: a name_after_def Let_def c_string_append item_name_def)
    qed
  next
    case False
    then have w: "c_string ?c = ?c" "\<forall>x \<in> set ?c. x \<noteq> 0" by (auto simp: c_string_def takeWhile_eq_all_conv)
    then have "nm = ?c @ drop ?n buf" by (simp add: a name_after_def Let_def)
    then show ?thesis using False w(2) by (simp add: item_name_def c_string_def)
  qed
qed

lemma run_item:
  assumes it: "item_ok it" and n: "name_buffer name"
  shows "run_entries (item_chunks it @ rest) name True =
     map_option (\<lambda>(es, nv). (listing name [it] @ es, nv)) (run_entries rest (name_after it name) True)"
proof -
  let ?cs = "di_long it" and ?m = "length (di_long it) div 13" and ?e = "di_short it"
  have m: "length ?cs = 13 * ?m" "?m < 64" "13 * ?m \<le> length name" using it n by (auto simp: item_ok_def name_buffer_def)
  define nm where "nm = (if ?cs = [] then get_dir_ent_name ?e name else map ucast ?cs @ drop (length ?cs) name)"
  note ln = listed_name [OF it n, folded nm_def]
  have l0: "?m = 0 \<longleftrightarrow> ?cs = []"
  proof -
    have "?m = 0 \<longleftrightarrow> length ?cs = 0" using m(1) by linarith
    then show ?thesis by (simp only: length_0_conv)
  qed
  have step: "run_entries (item_chunks it @ rest) name True = run_entries (short_chunk it # rest) (map ucast ?cs @ drop (length ?cs) name) (?cs = [])"
    using run_long_chunks [OF m(1,2), of ?m name "di_check it" "short_chunk it # rest" True] m(1,3) l0
    by (simp add: item_chunks_def Let_def)
  have nz: "de_name ?e ! 0 \<noteq> 0" "de_attr ?e \<noteq> FAT_ATTR_LFN" using it by (simp_all add: item_ok_def)
  have nm_if: "(if ?cs = [] then get_dir_ent_name ?e (map ucast ?cs @ drop (length ?cs) name) else map ucast ?cs @ drop (length ?cs) name) = nm"
    by (simp add: nm_def)
  have "run_entries (short_chunk it # rest) (map ucast ?cs @ drop (length ?cs) name) (?cs = []) =
      map_option (\<lambda>(es, nv). ((if nm ! 0 \<noteq> 46 then [(c_string nm, dir_ent_inode ?e)] else []) @ es, nv)) (run_entries rest nm True)"
    using nz short_chunk_reads [OF it] ln(4) by (simp only: run_entries.simps Let_def nm_if if_False simp_thms)
  moreover have "(if nm ! 0 \<noteq> 46 then [(c_string nm, dir_ent_inode ?e)] else []) = listing name [it]"
    using ln(2,3) by simp
  ultimately show ?thesis unfolding step by (simp only: ln(1))
qed

lemma run_items:
  assumes "\<forall>it \<in> set its. item_ok it"
  shows "name_buffer name \<Longrightarrow> \<exists>name'. run_entries (concat (map item_chunks its)) name True = Some (listing name its, name', True)"
  using assms
proof (induction its arbitrary: name)
  case (Cons it its)
  then have it: "item_ok it" by simp
  obtain name' where "run_entries (concat (map item_chunks its)) (name_after it name) True = Some (listing (name_after it name) its, name', True)"
    using Cons.IH [OF name_after_buffer [OF it Cons.prems(1)]] Cons.prems by auto
  with run_item [OF it Cons.prems(1)] show ?case by auto
qed simp

lemma item_chunks_lead:
  assumes "item_ok it" and "c \<in> set (item_chunks it)"
  shows "c ! 0 \<noteq> 0"
proof -
  let ?m = "length (di_long it) div 13"
  have m: "length (di_long it) = 13 * ?m" "?m < 64" using assms(1) by (auto simp: item_ok_def)
  have "k \<le> ?m \<Longrightarrow> c \<in> set (long_chunks chk (di_long it) ?m k) \<Longrightarrow> c ! 0 \<noteq> 0" for k chk
  proof (induction k)
    case (Suc k)
    have "length (take 13 (drop (13 * k) (di_long it))) = 13" using m(1) Suc.prems(1) by simp
    from lfn_chunk_reads(2) [OF this, of "Suc k"] Suc m(2) show ?case by auto
  qed simp
  with assms short_chunk_reads(2) [OF assms(1)] show ?thesis by (auto simp: item_chunks_def Let_def item_ok_def)
qed

subsection \<open>Splitting into clusters\<close>

lemma run_entries_append:
  assumes "\<forall>c \<in> set xs. c ! 0 \<noteq> 0"
  shows "run_entries (xs @ ys) n v =
    Option.bind (run_entries xs n v) (\<lambda>(es, n, v). map_option (\<lambda>(es', nv). (es @ es', nv)) (run_entries ys n v))"
  using assms
proof (induction xs arbitrary: n v)
  case Nil
  show ?case by (cases "run_entries ys n v") auto
next
  case (Cons c xs)
  then have c: "c ! 0 \<noteq> 0" and ih: "run_entries (xs @ ys) n v =
      Option.bind (run_entries xs n v) (\<lambda>(es, n, v). map_option (\<lambda>(es', nv). (es @ es', nv)) (run_entries ys n v))" for n v
    by simp_all
  define nm where "nm = (if v then get_dir_ent_name (dir_ent_at c 0) n else n)"
  show ?case
  proof (cases "de_attr (dir_ent_at c 0) = FAT_ATTR_LFN")
    case True
    with c show ?thesis by (cases "get_long_dir_ent_name (long_dir_ent_at c 0) n") (simp_all add: ih)
  next
    case False
    show ?thesis
      by (cases "run_entries xs nm True") (auto simp: c False ih Let_def nm_def [symmetric] option.map_comp o_def split_beta split: if_splits)
  qed
qed

lemma length_chunks [simp]: "length (chunks n d) = n"
  by (induction n arbitrary: d) simp_all

lemma dir_entries_of_clusters:
  assumes "concat (map (chunks 16) bs) = es @ replicate z (replicate 32 0)" and "\<forall>e \<in> set es. e ! 0 \<noteq> 0"
    and "run_entries es name valid = Some (xs, name', valid')"
  shows "dir_entries bs name valid = Some xs"
  using assms
proof (induction bs arbitrary: es z name valid xs)
  case (Cons b bs)
  let ?Z = "replicate 32 0 :: u8 list"
  have ch: "chunks 16 b @ concat (map (chunks 16) bs) = es @ replicate z ?Z" using Cons.prems(1) by simp
  show ?case
  proof (cases "16 \<le> length es")
    case True
    define es' where "es' = drop 16 es"
    have "chunks 16 b = take 16 (es @ replicate z ?Z)" using ch [symmetric] by simp
    then have b: "chunks 16 b = take 16 es" using True by simp
    have "concat (map (chunks 16) bs) = drop 16 (es @ replicate z ?Z)" using ch [symmetric] by simp
    then have rest: "concat (map (chunks 16) bs) = es' @ replicate z ?Z" using True by (simp add: es'_def)
    have es: "es = chunks 16 b @ es'" by (simp add: b es'_def)
    have nz: "\<forall>e \<in> set (chunks 16 b). e ! 0 \<noteq> 0" "\<forall>e \<in> set es'. e ! 0 \<noteq> 0" using Cons.prems(2) unfolding es by auto
    from Cons.prems(3) obtain xs1 n1 v1 xs2 where r: "run_entries (chunks 16 b) name valid = Some (xs1, n1, v1)"
        "run_entries es' n1 v1 = Some (xs2, name', valid')" "xs = xs1 @ xs2"
      unfolding es run_entries_append [OF nz(1)] by (auto simp: bind_eq_Some_conv)
    from Cons.IH [OF rest nz(2) r(2)] r show ?thesis by simp
  next
    case False
    have "chunks 16 b = take 16 (es @ replicate z ?Z)" using ch [symmetric] by simp
    moreover have "16 \<le> length es + z" using arg_cong [OF ch, of length] by simp
    ultimately have b: "chunks 16 b = es @ replicate (16 - length es) ?Z" using False by (simp add: min_def)
    obtain k where k: "16 - length es = Suc k" using False by (metis Suc_diff_Suc not_le)
    have "concat (map (chunks 16) bs) = drop 16 (es @ replicate z ?Z)" using ch [symmetric] by simp
    then have rest: "concat (map (chunks 16) bs) = [] @ replicate (z - (16 - length es)) ?Z" using False by simp
    have "run_entries (?Z # zs) n v = Some ([], n, v)" for zs n v by simp
    then have r: "run_entries (chunks 16 b) name valid = Some (xs, name', valid')"
      unfolding b k replicate_Suc run_entries_append [OF Cons.prems(2)] by (simp add: Cons.prems(3))
    have "dir_entries bs name' valid' = Some []"
      by (rule Cons.IH [OF rest]) simp_all
    with r show ?thesis by simp
  qed
qed auto

text \<open>A directory whose clusters hold the layout of some entries, with zeros after them.\<close>

definition dir_holds :: "(u64 \<Rightarrow> u8 list) \<Rightarrow> fat32 \<Rightarrow> u32 list \<Rightarrow> dir_item list \<Rightarrow> bool" where
  "dir_holds sector f cs its \<longleftrightarrow>
     (\<exists>z. concat (map (\<lambda>c. chunks 16 (sector (cluster_sector f c))) cs) = concat (map item_chunks its) @ replicate z (replicate 32 0)) \<and>
     (\<forall>it \<in> set its. item_ok it)"

context block_store begin

lemma FAT_readdir_ok:
  assumes ok: "fat_ok inv sector st" and l: "layout_ok (sb_fat32 sb)" and ch: "chain_ok sector extent (sb_fat32 sb) c cs"
    and dir: "dir_holds sector (sb_fat32 sb) cs its"
    and i: "st_ino i = ucast c" "st_mode i AND S_IFDIR \<noteq> 0" and bufs: "length data0 = 512" "name_buffer name0"
    and cb: "callback_ok (fat_ok inv sector) (\<lambda>st. obs (fat_state.more st)) g (set (listing name0 its)) cb"
  shows "\<exists>st'. FAT_readdir rd sb data0 name0 i cb st = Some (Inr (1, st')) \<and> fat_ok inv sector st' \<and>
     obs (fat_state.more st') = fold (\<lambda>(n, i). g n i) (listing name0 its) (obs (fat_state.more st))"
proof -
  from dir obtain z where d: "concat (map (chunks 16) (map (\<lambda>c. sector (cluster_sector (sb_fat32 sb) c)) cs)) =
      concat (map item_chunks its) @ replicate z (replicate 32 0)" and its: "\<forall>it \<in> set its. item_ok it"
    by (auto simp: dir_holds_def o_def)
  have nz: "\<forall>e \<in> set (concat (map item_chunks its)). e ! 0 \<noteq> 0" using its item_chunks_lead by auto
  obtain name' where "run_entries (concat (map item_chunks its)) name0 True = Some (listing name0 its, name', True)"
    using run_items [OF its bufs(2)] by blast
  from dir_entries_of_clusters [OF d nz this]
  have "dir_entries (map (\<lambda>c. sector (cluster_sector (sb_fat32 sb) c)) cs) name0 True = Some (listing name0 its)" .
  from readdir_loop_ok [OF l cb ok ch this subset_refl bufs(1)] i show ?thesis
    by (auto simp: FAT_readdir_def)
qed

end

section \<open>Properties\<close>

text \<open>
  C25: Walking a directory of a FAT32 partition calls the callback once for each entry that its clusters hold, in order, with
  the entry's name and an inode made from its short entry: a long name is put together from its pieces wherever the clusters
  end, and the entries whose names start with a dot, as the first two of every directory below the root do, are left out. A
  short name is its 11 bytes as they are on the disk, blanks included, with the attribute behind them, and a name without
  a terminator goes on with what the buffer held from the names before. Deleted entries are listed like all others.
  The walk ends and returns 1.
\<close>

theorem FAT_readdir_lists:
  assumes "fat_ok (part_idle P p disk view) (part_sector p disk) st" and "layout_ok (sb_fat32 sb)"
    and "chain_ok (part_sector p disk) (ucast (num_sectors p)) (sb_fat32 sb) c cs"
    and "dir_holds (part_sector p disk) (sb_fat32 sb) cs its"
    and "st_ino i = ucast c" and "st_mode i AND S_IFDIR \<noteq> 0" and "length data0 = 512" and "name_buffer name0"
    and "callback_ok (fat_ok (part_idle P p disk view) (part_sector p disk)) (\<lambda>st. obs (fat_state.more st)) g (set (listing name0 its)) cb"
  shows "\<exists>st'. FAT_readdir (part_read_block P p) sb data0 name0 i cb st = Some (Inr (1, st')) \<and>
     fat_ok (part_idle P p disk view) (part_sector p disk) st' \<and>
     obs (fat_state.more st') = fold (\<lambda>(n, i). g n i) (listing name0 its) (obs (fat_state.more st))"
  by (rule part.FAT_readdir_ok [OF assms])

text \<open>
  The directories of the example volume: the root with the volume's label, a file and a directory; the directory with the two
  dotted entries, a deleted one and a file.
\<close>

definition short_item :: "u8 list \<Rightarrow> u8 \<Rightarrow> u16 \<Rightarrow> u32 \<Rightarrow> dir_item" where
  "short_item nm attr first sz = \<lparr>di_long = [], di_check = 0,
     di_short = \<lparr>de_name = nm, de_attr = attr, de_cluster_hi = 0, de_cluster_lo = first, de_size = sz\<rparr>,
     di_times = replicate 8 0, di_mod = replicate 4 0\<rparr>"

definition long_item :: "u16 list \<Rightarrow> dir_item \<Rightarrow> dir_item" where
  "long_item nm it = it\<lparr>di_long := nm @ [0] @ replicate (12 - length nm) 0xFFFF\<rparr>"

definition dot_items :: "u16 \<Rightarrow> dir_item list" where
  "dot_items this = [short_item (46 # replicate 10 32) FAT_ATTR_DIRECTORY this 0, short_item (46 # 46 # replicate 9 32) FAT_ATTR_DIRECTORY 0 0]"

definition fat_root_items :: "dir_item list" where
  "fat_root_items =
     [short_item ([86, 79, 76] @ replicate 8 32) 8 0 0,
      long_item [65, 98] (short_item ([65, 66] @ replicate 9 32) 32 3 600),
      long_item [100] (short_item ([68] @ replicate 10 32) FAT_ATTR_DIRECTORY 5 0)]"

definition fat_sub_items :: "dir_item list" where
  "fat_sub_items = dot_items 5 @
     [short_item ([0xE5, 88] @ replicate 9 32) 32 0 0, long_item [102] (short_item ([70] @ replicate 10 32) 32 0 0)]"

lemma fat_root_holds: "dir_holds (part_sector sda0 fat_disk) (sb_fat32 fat_vol) [2] fat_root_items"
proof -
  have s: "part_sector sda0 fat_disk (cluster_sector (sb_fat32 fat_vol) 2) = bytes_of (fat_disk 102)"
    by (simp add: part_sector_def sda0_def cluster_sector_def data_start_def fat_vol_def)
  have "chunks 16 (bytes_of (fat_disk 102)) = concat (map item_chunks fat_root_items) @ replicate 11 (replicate 32 0)" by code_simp
  moreover have "list_all item_ok fat_root_items" by code_simp
  ultimately show ?thesis by (auto simp: dir_holds_def s list_all_iff)
qed

lemma fat_sub_holds: "dir_holds (part_sector sda0 fat_disk) (sb_fat32 fat_vol) [5] fat_sub_items"
proof -
  have s: "part_sector sda0 fat_disk (cluster_sector (sb_fat32 fat_vol) 5) = bytes_of (fat_disk 105)"
    by (simp add: part_sector_def sda0_def cluster_sector_def data_start_def fat_vol_def)
  have "chunks 16 (bytes_of (fat_disk 105)) = concat (map item_chunks fat_sub_items) @ replicate 11 (replicate 32 0)" by code_simp
  moreover have "list_all item_ok fat_sub_items" by code_simp
  ultimately show ?thesis by (auto simp: dir_holds_def s list_all_iff)
qed

definition log_entry :: "u8 list \<Rightarrow> inode \<Rightarrow> ('s, (u8 list \<times> inode) list) fat_state_scheme \<Rightarrow> ('s, (u8 list \<times> inode) list) fat_state_scheme res option" where
  "log_entry n i st = Some (Inr (fat_state.more_update (\<lambda>l. l @ [(n, i)]) st))"

lemma log_entry_ok: "callback_ok (fat_ok dev_ok sector) (\<lambda>st. fat_state.more st) (\<lambda>n i l. l @ [(n, i)]) E log_entry"
  by (simp add: callback_ok_def log_entry_def fat_ok_def)

text \<open>The directory in cluster 5: its dotted entries are left out, the deleted one is not and has its attribute in its name.\<close>

theorem FAT_readdir_lists_witness:
  "\<exists>st'. FAT_readdir (part_read_block fat_ports sda0) fat_vol (replicate 512 0) (replicate 256 0) \<lparr>st_ino = 5, st_mode = S_IFDIR, st_size = 0\<rparr> log_entry
       (fat_state.extend (fat_st (blk_example idle_regs)) []) = Some (Inr (1, st')) \<and>
     fat_state.more st' = [([0xE5, 88, 32, 32, 32, 32, 32, 32, 32, 32, 32, 32], \<lparr>st_ino = 0, st_mode = 0, st_size = 0\<rparr>),
       ([102], \<lparr>st_ino = 0, st_mode = 0, st_size = 0\<rparr>)]"
proof -
  have ch: "chain_ok (part_sector sda0 fat_disk) (ucast (num_sectors sda0)) (sb_fat32 fat_vol) 5 [5]"
    using fat_chains(3) by (simp add: sda0_def)
  have ok: "fat_ok (part_idle fat_ports sda0 fat_disk (\<lambda>r. r)) (part_sector sda0 fat_disk) (fat_state.extend (fat_st (blk_example idle_regs)) [])"
    using fat_disk_ok by (simp add: fat_ok_def fat_st_def fat_state.defs)
  have ls: "listing (replicate 256 0) fat_sub_items =
      [([0xE5, 88, 32, 32, 32, 32, 32, 32, 32, 32, 32, 32], \<lparr>st_ino = 0, st_mode = 0, st_size = 0\<rparr>),
       ([102], \<lparr>st_ino = 0, st_mode = 0, st_size = 0\<rparr>)]" by code_simp
  let ?i = "\<lparr>st_ino = 5, st_mode = S_IFDIR, st_size = 0\<rparr>"
  have i: "st_ino ?i = ucast (5 :: u32)" "st_mode ?i AND S_IFDIR \<noteq> 0" by (simp_all add: S_IFDIR_def)
  have b: "name_buffer (replicate 256 0)" by (simp add: name_buffer_def)
  from FAT_readdir_lists [OF ok fat_vol_layout ch fat_sub_holds i _ b log_entry_ok, of "replicate 512 0"]
  show ?thesis by (auto simp: ls fat_state.defs fat_st_def)
qed

end
