(* ===== verification/Vfs.thy ===== *)
theory Vfs
  imports Fat_Dir
begin

text \<open>
  The virtual file system (\<^verbatim>\<open>fs/vfs.c\<close>) over its one implementation, FAT32: the list of registered
  implementations, the lookup of a path and the printing of a tree and of a file. What the pointer
  \<^verbatim>\<open>p\<close> handed through \<^verbatim>\<open>readdir\<close> points to is the extension of the file system's state.
\<close>

section \<open>Registered implementations\<close>

text \<open>
  \<open>ll_next\<close> of the new structure keeps what the memory held: it is not initialised. \<open>probe\<close> gives the
  function of a structure.
\<close>

definition FS_register :: "ptr \<Rightarrow> 'f \<Rightarrow> ll \<times> (ptr \<Rightarrow> 'f) \<Rightarrow> ll \<times> (ptr \<Rightarrow> 'f)" where
  "FS_register node detect = (\<lambda>(l, probe). (LL_APPEND node l, probe(node := detect)))"

text \<open>The loop of \<^verbatim>\<open>FS_probe\<close>, which stays at the same implementation.\<close>

partial_function (option) probe_loop ::
    "(ptr \<Rightarrow> 'st \<Rightarrow> (fat_superblock option \<times> 'st) res option) \<Rightarrow> ptr \<Rightarrow> 'st \<Rightarrow> (fat_superblock option \<times> 'st) res option" where
  "probe_loop probe impl st =
     (if impl \<noteq> NULL then
        bind_ro (probe impl st) (\<lambda>rs.
          if fst rs \<noteq> None then Some (Inr rs) else probe_loop probe impl (snd rs))
      else Some (Inr (None, st)))"

definition FS_probe ::
    "ll \<Rightarrow> (ptr \<Rightarrow> 'st \<Rightarrow> (fat_superblock option \<times> 'st) res option) \<Rightarrow> 'st \<Rightarrow> (fat_superblock option \<times> 'st) res option" where
  "FS_probe l probe st = probe_loop probe (ll_head l) st"

section \<open>Paths\<close>

text \<open>
  A path is a string without its terminator. The copy of an item goes to an array of 255 characters,
  terminator included.
\<close>

definition copy_path_item :: "u8 list \<Rightarrow> u8 list res" where
  "copy_path_item path =
     (let item = takeWhile (\<lambda>c. c \<noteq> 47) path
      in if length item < 255 then Inr item else Inl BadAccess)"

definition replace_slashes_with_null :: "u8 list \<Rightarrow> u8 list" where
  "replace_slashes_with_null str = map (\<lambda>c. if c = 47 then 0 else c) str"

record path_search =
  ps_name :: "u8 list"
  ps_result :: "inode option"

definition path_cb :: "u8 list \<Rightarrow> inode \<Rightarrow> ('s, path_search) fat_state_scheme \<Rightarrow> ('s, path_search) fat_state_scheme res option" where
  "path_cb ent_name i st =
     Some (Inr (if ent_name = ps_name (fat_state.more st)
                then fat_state.more_update (\<lambda>p. p\<lparr>ps_result := Some i\<rparr>) st else st))"

text \<open>
  The walk. \<open>bufs\<close> is what the uninitialised buffers of \<^verbatim>\<open>FAT_readdir\<close> hold at the rest of the path; the
  local \<^verbatim>\<open>path_search\<close> is not initialised either, and its result is not reset between items.
\<close>

function path_loop ::
    "'s reader \<Rightarrow> fat_superblock \<Rightarrow> (u8 list \<Rightarrow> u8 list \<times> u8 list) \<Rightarrow> u8 list \<Rightarrow> inode \<Rightarrow> ('s, path_search) fat_state_scheme \<Rightarrow>
     (inode option \<times> ('s, path_search) fat_state_scheme) res option" where
  "path_loop rd sb bufs path cwd st =
     (if path = [] then Some (Inr (ps_result (fat_state.more st), st))
      else
        (case copy_path_item path of
           Inl e \<Rightarrow> Some (Inl e)
         | Inr item \<Rightarrow>
             let st = fat_state.more_update (\<lambda>p. p\<lparr>ps_name := item\<rparr>) st
             in if st_mode cwd AND S_IFDIR = 0 then Some (Inr (None, st))
                else
                  bind_ro (FAT_readdir rd sb (fst (bufs path)) (snd (bufs path)) cwd path_cb st) (\<lambda>rs.
                    case ps_result (fat_state.more (snd rs)) of
                      None \<Rightarrow> Some (Inr (None, snd rs))
                    | Some i \<Rightarrow>
                        if drop (length item) path = [] then Some (Inr (Some i, snd rs))
                        else path_loop rd sb bufs (drop (length item + 1) path) i (snd rs))))"
  by pat_completeness auto
termination by (relation "measure (\<lambda>(rd, sb, bufs, path, cwd, st). length path)") auto

declare path_loop.simps [simp del]

definition FS_inode_for_path ::
    "'s reader \<Rightarrow> fat_superblock \<Rightarrow> (u8 list \<Rightarrow> u8 list \<times> u8 list) \<Rightarrow> u8 list \<Rightarrow> inode \<Rightarrow> ('s, path_search) fat_state_scheme \<Rightarrow>
     (inode option \<times> ('s, path_search) fat_state_scheme) res option" where
  "FS_inode_for_path rd sb bufs path cwd st =
     (let (path, cwd) = (if take 1 path = [47] then (drop 1 path, sb_root sb) else (path, cwd))
      in if path = [] then Some (Inr (Some cwd, st)) else path_loop rd sb bufs path cwd st)"

section \<open>Printing\<close>

text \<open>
  The text printed is kept in the extension of the state. The nesting of the directories bounds
  the recursion: \<open>None\<close> when it is deeper than the fuel. \<open>bufs\<close> is what the uninitialised buffers hold at each call. An \<^verbatim>\<open>int\<close> on the stack of each call holds the
  number of tabs of the next.
\<close>

fun readfs_cb ::
    "'s reader \<Rightarrow> fat_superblock \<Rightarrow> (nat \<Rightarrow> inode \<Rightarrow> u8 list \<times> u8 list) \<Rightarrow> nat \<Rightarrow> nat \<Rightarrow> u8 list \<Rightarrow> inode \<Rightarrow>
     ('s, u8 list) fat_state_scheme \<Rightarrow> ('s, u8 list) fat_state_scheme res option" where
  "readfs_cb rd sb bufs 0 n_tabs ent_name i st = None"
| "readfs_cb rd sb bufs (Suc fuel) n_tabs ent_name i st =
     (let tabs = replicate (n_tabs * 4) 32;
          st = fat_state.more_update (\<lambda>out. out @ tabs @ [47] @ ent_name @ [10]) st
      in if st_mode i AND S_IFDIR \<noteq> 0 then
           bind_ro (FAT_readdir rd sb (fst (bufs n_tabs i)) (snd (bufs n_tabs i)) i (readfs_cb rd sb bufs fuel (n_tabs + 1)) st) (\<lambda>rs. Some (Inr (snd rs)))
         else Some (Inr st))"

definition FS_print ::
    "'s reader \<Rightarrow> fat_superblock \<Rightarrow> u8 list \<times> u8 list \<Rightarrow> (nat \<Rightarrow> inode \<Rightarrow> u8 list \<times> u8 list) \<Rightarrow> nat \<Rightarrow>
     ('s, u8 list) fat_state_scheme \<Rightarrow> ('s, u8 list) fat_state_scheme res option" where
  "FS_print rd sb buf bufs fuel st =
     bind_ro (FAT_readdir rd sb (fst buf) (snd buf) (sb_root sb) (readfs_cb rd sb bufs fuel 0) st) (\<lambda>rs. Some (Inr (snd rs)))"

text \<open>
  The loop of \<^verbatim>\<open>FS_print_file\<close>: it prints the buffer of 513 characters up to a zero, whatever number of
  characters was read; the last character stays zero. \<open>text\<close> is what was printed before.
\<close>

partial_function (option) print_file_loop ::
    "'s reader \<Rightarrow> fat_superblock \<Rightarrow> u8 list \<Rightarrow> file_t \<Rightarrow> u8 list \<Rightarrow> u8 list \<Rightarrow> ('s, 'a) fat_state_scheme \<Rightarrow>
     (u8 list \<times> ('s, 'a) fat_state_scheme) res option" where
  "print_file_loop rd sb data0 f buffer out st =
     bind_ro (FAT_file_read rd sb data0 f 512 st) (\<lambda>rs.
       let buffer = fst rs @ drop (length (fst rs)) buffer
       in if fst rs \<noteq> [] then
            print_file_loop rd sb data0 (fst (snd rs)) buffer (out @ c_string (buffer @ [0])) (snd (snd rs))
          else Some (Inr (out, snd (snd rs))))"

text \<open>A path without an inode leads to a call through address 0.\<close>

definition FS_print_file ::
    "'s reader \<Rightarrow> fat_superblock \<Rightarrow> (u8 list \<Rightarrow> u8 list \<times> u8 list) \<Rightarrow> u8 list \<Rightarrow> u8 list \<Rightarrow> u8 list \<Rightarrow>
     ('s, path_search) fat_state_scheme \<Rightarrow> (u8 list \<times> ('s, path_search) fat_state_scheme) res option" where
  "FS_print_file rd sb bufs data0 buffer0 path st =
     bind_ro (FS_inode_for_path rd sb bufs path (sb_root sb) st) (\<lambda>rs.
       case fst rs of
         None \<Rightarrow> Some (Inl BadAccess)
       | Some i \<Rightarrow> print_file_loop rd sb data0 (FAT_file_open i) buffer0 [] (snd rs))"

section \<open>Directory trees\<close>

text \<open>
  The directories of a volume: \<open>dirs\<close> gives the entries of the directory that starts at a cluster. The names a
  directory has for a lookup are those that end within their own entry, whatever the buffer held before. Others begin with
  the characters of their entry: a volume's label or a short name with its attribute, so a name without these at
  its start is none of them.
\<close>

abbreviation is_dir :: "inode \<Rightarrow> bool" where
  "is_dir i \<equiv> st_mode i AND S_IFDIR \<noteq> 0"

definition ends_itself :: "dir_item \<Rightarrow> bool" where
  "ends_itself it \<longleftrightarrow> 0 \<in> set (item_chars it)"

definition entries :: "dir_item list \<Rightarrow> (u8 list \<times> inode) list" where
  "entries its = [(c_string (item_chars it), dir_ent_inode (di_short it)). it \<leftarrow> its, \<not> dotted it \<and> ends_itself it]"

definition clear_of :: "u8 list \<Rightarrow> dir_item list \<Rightarrow> bool" where
  "clear_of n its \<longleftrightarrow> (\<forall>it \<in> set its. \<not> dotted it \<longrightarrow> \<not> ends_itself it \<longrightarrow> take (length (item_chars it)) n \<noteq> item_chars it)"

text \<open>The entry of a name: the last one when there are several.\<close>

definition entry :: "(u64 \<Rightarrow> dir_item list) \<Rightarrow> inode \<Rightarrow> u8 list \<Rightarrow> inode option" where
  "entry dirs i n = map_of (rev (entries (dirs (st_ino i)))) n"

text \<open>
  A directory on the disk. For looking up a path with the names \<open>N\<close>, \<open>D\<close> are the directories on its way. For printing,
  they are all that are listed below the first, deleted ones included.
\<close>

definition dir_at :: "(u64 \<Rightarrow> u8 list) \<Rightarrow> u64 \<Rightarrow> fat32 \<Rightarrow> (u64 \<Rightarrow> dir_item list) \<Rightarrow> inode \<Rightarrow> bool" where
  "dir_at sector extent f dirs i \<longleftrightarrow> is_dir i \<and>
     (\<exists>c cs. st_ino i = ucast c \<and> chain_ok sector extent f c cs \<and> dir_holds sector f cs (dirs (st_ino i)))"

definition path_tree :: "(u64 \<Rightarrow> u8 list) \<Rightarrow> u64 \<Rightarrow> fat32 \<Rightarrow> (u64 \<Rightarrow> dir_item list) \<Rightarrow> inode set \<Rightarrow> u8 list set \<Rightarrow> bool" where
  "path_tree sector extent f dirs D N \<longleftrightarrow>
     (\<forall>i \<in> D. dir_at sector extent f dirs i \<and>
        (\<forall>n \<in> N. clear_of n (dirs (st_ino i)) \<and> (\<forall>j. entry dirs i n = Some j \<longrightarrow> is_dir j \<longrightarrow> j \<in> D)))"

definition item_inodes :: "dir_item list \<Rightarrow> inode list" where
  "item_inodes its = [dir_ent_inode (di_short it). it \<leftarrow> its, \<not> dotted it]"

definition dir_tree :: "(u64 \<Rightarrow> u8 list) \<Rightarrow> u64 \<Rightarrow> fat32 \<Rightarrow> (u64 \<Rightarrow> dir_item list) \<Rightarrow> inode set \<Rightarrow> bool" where
  "dir_tree sector extent f dirs D \<longleftrightarrow>
     (\<forall>i \<in> D. dir_at sector extent f dirs i \<and> (\<forall>j \<in> set (item_inodes (dirs (st_ino i))). is_dir j \<longrightarrow> j \<in> D))"

lemma listing_inodes: "map snd (listing buf its) = item_inodes its"
  by (induction its arbitrary: buf) (simp_all add: item_inodes_def)

lemma listing_filter:
  assumes "clear_of n its"
  shows "filter (\<lambda>e. fst e = n) (listing buf its) = filter (\<lambda>e. fst e = n) (entries its)"
  using assms
proof (induction its arbitrary: buf)
  case (Cons it its)
  have c: "clear_of n its" using Cons.prems by (simp add: clear_of_def)
  have "item_name it buf \<noteq> n" if "\<not> dotted it" "\<not> ends_itself it"
  proof
    assume "item_name it buf = n"
    then have "take (length (item_chars it)) n = item_chars it" using that by (auto simp: item_name_def ends_itself_def)
    with Cons.prems that show False by (simp add: clear_of_def)
  qed
  moreover have "item_name it buf = c_string (item_chars it)" if "ends_itself it" using that by (simp add: item_name_def ends_itself_def)
  ultimately show ?case using Cons.IH [OF c] by (auto simp: entries_def)
qed (simp add: entries_def)

lemma map_of_filter: "map_of xs n = map_of (filter (\<lambda>e. fst e = n) xs) n"
  by (induction xs) auto

lemma listing_entry:
  assumes "clear_of n (dirs (st_ino i))"
  shows "map_of (rev (listing buf (dirs (st_ino i)))) n = entry dirs i n"
  using map_of_filter [of "rev (listing buf (dirs (st_ino i)))" n] map_of_filter [of "rev (entries (dirs (st_ino i)))" n] listing_filter [OF assms, of buf]
  by (simp add: entry_def rev_filter [symmetric])

text \<open>What a path means: the inode of its last item, each item being an entry of the directory before.\<close>

fun resolve :: "(u64 \<Rightarrow> dir_item list) \<Rightarrow> inode \<Rightarrow> u8 list list \<Rightarrow> inode option" where
  "resolve dirs cwd [] = Some cwd"
| "resolve dirs cwd (c # cs) = (if is_dir cwd then Option.bind (entry dirs cwd c) (\<lambda>i. resolve dirs i cs) else None)"

text \<open>What the code makes of it: an item without an entry keeps the inode before it.\<close>

fun walk :: "(u64 \<Rightarrow> dir_item list) \<Rightarrow> inode option \<Rightarrow> inode \<Rightarrow> u8 list list \<Rightarrow> inode option" where
  "walk dirs prev cwd [] = prev"
| "walk dirs prev cwd (c # cs) =
     (if is_dir cwd then
        (case (case entry dirs cwd c of None \<Rightarrow> prev | Some i \<Rightarrow> Some i) of
           None \<Rightarrow> None
         | Some i \<Rightarrow> walk dirs (Some i) i cs)
      else None)"

lemma walk_resolve: "resolve dirs cwd items = Some i \<Longrightarrow> items \<noteq> [] \<or> prev = Some cwd \<Longrightarrow> walk dirs prev cwd items = Some i"
  by (induction items arbitrary: cwd prev) (auto simp: bind_eq_Some_conv split: if_splits)

lemma walk_append: "resolve dirs cwd items = Some d \<Longrightarrow> items \<noteq> [] \<Longrightarrow> walk dirs prev cwd (items @ rest) = walk dirs (Some d) d rest"
proof (induction items arbitrary: cwd prev)
  case (Cons c items)
  then obtain i where "entry dirs cwd c = Some i" "resolve dirs i items = Some d" "is_dir cwd"
    by (auto simp: bind_eq_Some_conv split: if_splits)
  with Cons.IH [of i "Some i"] show ?case by (cases "items = []") auto
qed simp

text \<open>The text of a path, and the items that are in one.\<close>

fun join_path :: "u8 list list \<Rightarrow> u8 list" where
  "join_path [] = []"
| "join_path [c] = c"
| "join_path (c # cs) = c @ [47] @ join_path cs"

definition path_item :: "u8 list \<Rightarrow> bool" where
  "path_item c \<longleftrightarrow> c \<noteq> [] \<and> 47 \<notin> set c \<and> length c < 255"

lemma join_path_Cons: "join_path (c # cs) = c @ (if cs = [] then [] else 47 # join_path cs)"
  by (cases cs) simp_all

lemma copy_path_item_join:
  assumes "path_item c"
  shows "copy_path_item (join_path (c # cs)) = Inr c"
proof -
  have "takeWhile (\<lambda>c. c \<noteq> 47) (join_path (c # cs)) = c"
    using assms by (subst join_path_Cons) (auto simp: path_item_def takeWhile_append takeWhile_eq_all_conv)
  then show ?thesis using assms by (simp add: copy_path_item_def path_item_def)
qed

lemma path_cb_fold:
  "fold (\<lambda>(n, i) p. if n = ps_name p then p\<lparr>ps_result := Some i\<rparr> else p) es p =
     p\<lparr>ps_result := (case map_of (rev es) (ps_name p) of None \<Rightarrow> ps_result p | Some i \<Rightarrow> Some i)\<rparr>"
proof (induction es rule: rev_induct)
  case (snoc e es)
  then show ?case by (cases e) (auto split: option.split)
qed simp

lemma dir_tree_below:
  "dir_tree sector extent f dirs D \<Longrightarrow> i \<in> D \<Longrightarrow> j \<in> set (item_inodes (dirs (st_ino i))) \<Longrightarrow> is_dir j \<Longrightarrow> j \<in> D"
  unfolding dir_tree_def by blast

context block_store begin

lemma readdir_dir:
  assumes "fat_ok inv sector st" and "layout_ok (sb_fat32 sb)" and d: "dir_at sector extent (sb_fat32 sb) dirs i"
    and "length data0 = 512" and "name_buffer name0"
    and "callback_ok (fat_ok inv sector) (\<lambda>st. obs (fat_state.more st)) g (set (listing name0 (dirs (st_ino i)))) cb"
  shows "\<exists>st'. FAT_readdir rd sb data0 name0 i cb st = Some (Inr (1, st')) \<and> fat_ok inv sector st' \<and>
     obs (fat_state.more st') = fold (\<lambda>(n, i). g n i) (listing name0 (dirs (st_ino i))) (obs (fat_state.more st))"
proof -
  obtain c cs where "st_ino i = ucast c" "chain_ok sector extent (sb_fat32 sb) c cs" "dir_holds sector (sb_fat32 sb) cs (dirs (st_ino i))" "is_dir i"
    using d by (auto simp: dir_at_def)
  from FAT_readdir_ok [OF assms(1,2) this(2,3,1,4) assms(4,5,6)] show ?thesis .
qed

lemma path_cb_ok:
  "callback_ok (fat_ok inv sector) (\<lambda>st. (\<lambda>p. p) (fat_state.more st)) (\<lambda>n i p. if n = ps_name p then p\<lparr>ps_result := Some i\<rparr> else p) E path_cb"
  by (simp add: callback_ok_def path_cb_def fat_ok_def)

lemma path_loop_walk:
  assumes l: "layout_ok (sb_fat32 sb)" and tree: "path_tree sector extent (sb_fat32 sb) dirs D N"
    and bufs: "\<forall>p. length (fst (bufs p)) = 512 \<and> name_buffer (snd (bufs p))"
  shows "set items \<subseteq> N \<Longrightarrow> fat_ok inv sector st \<Longrightarrow> (is_dir cwd \<longrightarrow> cwd \<in> D) \<Longrightarrow> \<forall>c \<in> set items. path_item c \<Longrightarrow> items \<noteq> [] \<Longrightarrow>
    entry dirs cwd (hd items) = None \<longrightarrow> ps_result (fat_state.more st) = Some cwd \<Longrightarrow>
    \<exists>st'. path_loop rd sb bufs (join_path items) cwd st = Some (Inr (walk dirs (ps_result (fat_state.more st)) cwd items, st')) \<and> fat_ok inv sector st'"
proof (induction items arbitrary: cwd st)
  case (Cons c cs)
  let ?path = "join_path (c # cs)"
  have c: "path_item c" using Cons.prems by simp
  have ne: "?path \<noteq> []" using c by (simp add: join_path_Cons path_item_def)
  define st0 where "st0 = fat_state.more_update (\<lambda>p. p\<lparr>ps_name := c\<rparr>) st"
  have ok0: "fat_ok inv sector st0" using Cons.prems(2) by (simp add: st0_def fat_ok_def)
  have m0: "fat_state.more st0 = (fat_state.more st)\<lparr>ps_name := c\<rparr>" by (simp add: st0_def)
  define pth where "pth = ?path"
  have cp: "copy_path_item pth = Inr c" unfolding pth_def by (rule copy_path_item_join [OF c])
  have step: "path_loop rd sb bufs pth cwd st =
      (if is_dir cwd then
         bind_ro (FAT_readdir rd sb (fst (bufs pth)) (snd (bufs pth)) cwd path_cb st0) (\<lambda>rs.
           case ps_result (fat_state.more (snd rs)) of
             None \<Rightarrow> Some (Inr (None, snd rs))
           | Some i \<Rightarrow>
               if drop (length c) pth = [] then Some (Inr (Some i, snd rs))
               else path_loop rd sb bufs (drop (length c + 1) pth) i (snd rs))
       else Some (Inr (None, st0)))"
    using ne by (subst path_loop.simps) (simp add: cp st0_def pth_def [symmetric] Let_def)
  show ?case
  proof (cases "is_dir cwd")
    case False
    then show ?thesis using ok0 unfolding pth_def [symmetric] by (simp add: step)
  next
    case True
    then have D: "cwd \<in> D" using Cons.prems(3) by blast
    have d: "dir_at sector extent (sb_fat32 sb) dirs cwd" and cl: "clear_of c (dirs (st_ino cwd))"
      and down: "\<And>j. entry dirs cwd c = Some j \<Longrightarrow> is_dir j \<Longrightarrow> j \<in> D"
      using tree D Cons.prems(1) by (auto simp: path_tree_def)
    obtain st1 where r: "FAT_readdir rd sb (fst (bufs ?path)) (snd (bufs ?path)) cwd path_cb st0 = Some (Inr (1, st1))"
      and ok1: "fat_ok inv sector st1"
      and m: "fat_state.more st1 = (fat_state.more st0)\<lparr>ps_result :=
         (case entry dirs cwd c of None \<Rightarrow> ps_result (fat_state.more st0) | Some i \<Rightarrow> Some i)\<rparr>"
      using readdir_dir [OF ok0 l d _ _ path_cb_ok, of "fst (bufs ?path)" "snd (bufs ?path)"] bufs
      unfolding path_cb_fold by (auto simp: listing_entry [where dirs = dirs and i = cwd, OF cl] m0)
    define r1 where "r1 = (case entry dirs cwd c of None \<Rightarrow> ps_result (fat_state.more st) | Some i \<Rightarrow> Some i)"
    obtain i where i: "r1 = Some i" and iD: "is_dir i \<longrightarrow> i \<in> D"
    proof (cases "entry dirs cwd c")
      case None
      with Cons.prems(6) D that [of cwd] show thesis by (simp add: r1_def)
    next
      case (Some j)
      with down [OF Some] that [of j] show thesis by (simp add: r1_def)
    qed
    have p0: "ps_result (fat_state.more st0) = ps_result (fat_state.more st)" by (simp add: m0)
    have p1: "ps_result (fat_state.more st1) = Some i" using m [unfolded p0, folded r1_def] i by simp
    have w: "walk dirs (ps_result (fat_state.more st)) cwd (c # cs) = walk dirs (Some i) i cs"
      using True i by (simp add: r1_def [symmetric])
    show ?thesis
    proof (cases "cs = []")
      case True
      then have d: "drop (length c) pth = []" by (simp add: join_path_Cons pth_def)
      have "path_loop rd sb bufs pth cwd st = Some (Inr (Some i, st1))"
        unfolding step using \<open>is_dir cwd\<close> r p1 d by (simp add: pth_def)
      then show ?thesis using ok1 w True by (simp add: pth_def)
    next
      case False
      have d: "drop (length c) pth = 47 # join_path cs" "drop (length c + 1) pth = join_path cs"
        using False by (simp_all add: join_path_Cons pth_def)
      obtain st' where ih: "path_loop rd sb bufs (join_path cs) i st1 = Some (Inr (walk dirs (ps_result (fat_state.more st1)) i cs, st'))" "fat_ok inv sector st'"
        using Cons.IH [OF _ ok1 iD _ False] Cons.prems(1,4) p1 by auto
      have "path_loop rd sb bufs pth cwd st = Some (Inr (walk dirs (Some i) i cs, st'))"
        unfolding step d using \<open>is_dir cwd\<close> r [folded pth_def] p1 ih(1) by simp
      then show ?thesis using ih(2) unfolding w pth_def [symmetric] by blast
    qed
  qed
qed simp

lemma FS_inode_for_path_walk:
  assumes l: "layout_ok (sb_fat32 sb)" and tree: "path_tree sector extent (sb_fat32 sb) dirs D (set items)"
    and bufs: "\<forall>p. length (fst (bufs p)) = 512 \<and> name_buffer (snd (bufs p))" and ok: "fat_ok inv sector st"
    and root: "sb_root sb \<in> D" and items: "\<forall>c \<in> set items. path_item c" "items \<noteq> []" and h: "entry dirs (sb_root sb) (hd items) \<noteq> None"
  shows "\<exists>st'. FS_inode_for_path rd sb bufs (47 # join_path items) cwd st =
     Some (Inr (walk dirs (ps_result (fat_state.more st)) (sb_root sb) items, st')) \<and> fat_ok inv sector st'"
proof -
  have "join_path items \<noteq> []" using items by (cases items) (auto simp: join_path_Cons path_item_def)
  with path_loop_walk [OF l tree bufs subset_refl ok _ items] root h show ?thesis by (auto simp: FS_inode_for_path_def)
qed

lemma FS_inode_for_path_found:
  assumes "layout_ok (sb_fat32 sb)" and "path_tree sector extent (sb_fat32 sb) dirs D (set items)"
    and "\<forall>p. length (fst (bufs p)) = 512 \<and> name_buffer (snd (bufs p))" and "fat_ok inv sector st"
    and "sb_root sb \<in> D" and "\<forall>c \<in> set items. path_item c" and r: "resolve dirs (sb_root sb) items = Some i"
  shows "\<exists>st'. FS_inode_for_path rd sb bufs (47 # join_path items) cwd st = Some (Inr (Some i, st')) \<and> fat_ok inv sector st'"
proof (cases items)
  case Nil
  with assms(4) r show ?thesis by (simp add: FS_inode_for_path_def)
next
  case (Cons c cs)
  with r have "entry dirs (sb_root sb) (hd items) \<noteq> None" by (auto simp: bind_eq_Some_conv split: if_splits)
  from FS_inode_for_path_walk [OF assms(1-6) _ this, of cwd] Cons walk_resolve [OF r] show ?thesis by auto
qed

end

section \<open>Printing a tree\<close>

text \<open>
  The lines of an entry and of everything below it, with \<open>N\<close> the buffers for names at each call, and trees that are not
  nested deeper than a bound.
\<close>

fun entry_text :: "(nat \<Rightarrow> inode \<Rightarrow> u8 list) \<Rightarrow> (u64 \<Rightarrow> dir_item list) \<Rightarrow> nat \<Rightarrow> nat \<Rightarrow> u8 list \<times> inode \<Rightarrow> u8 list" where
  "entry_text N dirs 0 tabs e = []"
| "entry_text N dirs (Suc k) tabs e =
     replicate (4 * tabs) 32 @ [47] @ fst e @ [10] @
     (if is_dir (snd e) then concat (map (entry_text N dirs k (tabs + 1)) (listing (N tabs (snd e)) (dirs (st_ino (snd e))))) else [])"

fun nested :: "(u64 \<Rightarrow> dir_item list) \<Rightarrow> nat \<Rightarrow> inode \<Rightarrow> bool" where
  "nested dirs 0 i \<longleftrightarrow> False"
| "nested dirs (Suc k) i \<longleftrightarrow> (is_dir i \<longrightarrow> (\<forall>j \<in> set (item_inodes (dirs (st_ino i))). nested dirs k j))"

lemma nested_below: "nested dirs (Suc k) i \<Longrightarrow> is_dir i \<Longrightarrow> j \<in> set (item_inodes (dirs (st_ino i))) \<Longrightarrow> nested dirs k j"
  by auto

lemma listed_inodes: "snd ` set (listing buf its) = set (item_inodes its)"
  using listing_inodes [of buf its] by (metis list.set_map)

lemma fold_append: "fold (\<lambda>(n, i) out. out @ f (n, i)) es out = out @ concat (map f es)"
  by (induction es arbitrary: out) auto

context block_store begin

lemma readfs_cb_ok:
  assumes l: "layout_ok (sb_fat32 sb)" and tree: "dir_tree sector extent (sb_fat32 sb) dirs D"
    and bufs: "\<forall>n i. length (fst (bufs n i)) = 512 \<and> name_buffer (snd (bufs n i))"
  shows "\<forall>i \<in> snd ` E. nested dirs k i \<and> (is_dir i \<longrightarrow> i \<in> D) \<Longrightarrow>
    callback_ok (fat_ok inv sector) (\<lambda>st. (\<lambda>x. x) (fat_state.more st)) (\<lambda>n i out. out @ entry_text (\<lambda>n i. snd (bufs n i)) dirs k tabs (n, i)) E (readfs_cb rd sb bufs k tabs)"
proof (induction k arbitrary: tabs E)
  case 0
  then show ?case by (auto simp: callback_ok_def)
next
  case (Suc k)
  have b: "length (fst (bufs n i)) = 512" "name_buffer (snd (bufs n i))" for n i using bufs by auto
  have "\<exists>st'. readfs_cb rd sb bufs (Suc k) tabs n i st = Some (Inr st') \<and> fat_ok inv sector st' \<and>
      fat_state.more st' = fat_state.more st @ entry_text (\<lambda>n i. snd (bufs n i)) dirs (Suc k) tabs (n, i)"
    if e: "(n, i) \<in> E" and ok: "fat_ok inv sector st" for n i st
  proof -
    define st0 where "st0 = fat_state.more_update (\<lambda>out. out @ replicate (tabs * 4) 32 @ 47 # n @ [10]) st"
    have ok0: "fat_ok inv sector st0" and m0: "fat_state.more st0 = fat_state.more st @ replicate (tabs * 4) 32 @ [47] @ n @ [10]"
      using ok by (simp_all add: st0_def fat_ok_def)
    have i: "nested dirs (Suc k) i" "is_dir i \<longrightarrow> i \<in> D" using Suc.prems e by force+
    show ?thesis
    proof (cases "is_dir i")
      case False
      then show ?thesis using ok0 m0 by (simp add: Let_def st0_def [symmetric] mult.commute)
    next
      case True
      then have D: "i \<in> D" using i(2) by blast
      have "\<forall>j \<in> snd ` set (listing (snd (bufs tabs i)) (dirs (st_ino i))). nested dirs k j \<and> (is_dir j \<longrightarrow> j \<in> D)"
        unfolding listed_inodes using nested_below [OF i(1) True] dir_tree_below [OF tree D] by blast
      moreover have "dir_at sector extent (sb_fat32 sb) dirs i" using tree D by (simp add: dir_tree_def)
      ultimately have ih: "callback_ok (fat_ok inv sector) (\<lambda>st. (\<lambda>x. x) (fat_state.more st)) (\<lambda>n i out. out @ entry_text (\<lambda>n i. snd (bufs n i)) dirs k (tabs + 1) (n, i))
          (set (listing (snd (bufs tabs i)) (dirs (st_ino i)))) (readfs_cb rd sb bufs k (tabs + 1))" and d: "dir_at sector extent (sb_fat32 sb) dirs i"
        using Suc.IH [of "set (listing (snd (bufs tabs i)) (dirs (st_ino i)))" "tabs + 1"] by blast+
      obtain st1 where "FAT_readdir rd sb (fst (bufs tabs i)) (snd (bufs tabs i)) i (readfs_cb rd sb bufs k (tabs + 1)) st0 = Some (Inr (1, st1))"
        "fat_ok inv sector st1" "fat_state.more st1 = fat_state.more st0 @ concat (map (entry_text (\<lambda>n i. snd (bufs n i)) dirs k (tabs + 1)) (listing (snd (bufs tabs i)) (dirs (st_ino i))))"
        using readdir_dir [where obs = "\<lambda>x. x", OF ok0 l d b ih]
        by (auto simp only: fold_append [of "entry_text (\<lambda>n i. snd (bufs n i)) dirs k (tabs + 1)"])
      then show ?thesis using True m0 by (simp add: Let_def st0_def [symmetric] mult.commute)
    qed
  qed
  then show ?case unfolding callback_ok_def by blast
qed

lemma FS_print_ok:
  assumes l: "layout_ok (sb_fat32 sb)" and tree: "dir_tree sector extent (sb_fat32 sb) dirs D"
    and bufs: "\<forall>n i. length (fst (bufs n i)) = 512 \<and> name_buffer (snd (bufs n i))" "length (fst buf) = 512" "name_buffer (snd buf)"
    and ok: "fat_ok inv sector st" and root: "sb_root sb \<in> D" "nested dirs (Suc k) (sb_root sb)"
  shows "\<exists>st'. FS_print rd sb buf bufs k st = Some (Inr st') \<and> fat_ok inv sector st' \<and>
     fat_state.more st' = fat_state.more st @ concat (map (entry_text (\<lambda>n i. snd (bufs n i)) dirs k 0) (listing (snd buf) (dirs (st_ino (sb_root sb)))))"
proof -
  have at: "dir_at sector extent (sb_fat32 sb) dirs (sb_root sb)" using tree root(1) by (simp add: dir_tree_def)
  then have d: "is_dir (sb_root sb)" by (simp add: dir_at_def)
  have "\<forall>j \<in> snd ` set (listing (snd buf) (dirs (st_ino (sb_root sb)))). nested dirs k j \<and> (is_dir j \<longrightarrow> j \<in> D)"
    unfolding listed_inodes using nested_below [OF root(2) d] dir_tree_below [OF tree root(1)] by blast
  note cb = readfs_cb_ok [OF l tree bufs(1) this, of 0]
  obtain st' where "FAT_readdir rd sb (fst buf) (snd buf) (sb_root sb) (readfs_cb rd sb bufs k 0) st = Some (Inr (1, st'))" "fat_ok inv sector st'"
    "fat_state.more st' = fat_state.more st @ concat (map (entry_text (\<lambda>n i. snd (bufs n i)) dirs k 0) (listing (snd buf) (dirs (st_ino (sb_root sb)))))"
    using readdir_dir [where obs = "\<lambda>x. x", OF ok l at bufs(2,3) cb]
    by (auto simp only: fold_append [of "entry_text (\<lambda>n i. snd (bufs n i)) dirs k 0"])
  then show ?thesis by (simp add: FS_print_def)
qed

text \<open>Detecting the file system on a device that can be read.\<close>

lemma FAT_detect_ok:
  assumes ok: "fat_ok inv sector st" and e: "0 < extent"
  defines "f \<equiv> fat32_of (sector 0)"
  shows "\<exists>st'. FAT_detect rd junk st = Some (Inr
       (if signature f = 0x28 \<or> signature f = 0x29
        then Some \<lparr>sb_fat32 = f, sb_root = \<lparr>st_ino = ucast (root_cluster_number f), st_mode = S_IFDIR, st_size = 0\<rparr>\<rparr> else None, st')) \<and>
     fat_ok inv sector st'"
proof -
  have i: "inv (io st)" using ok by (simp add: fat_ok_def)
  obtain s' where r: "rd 0 (io st) = Some (Inr ((1, sector 0), s'))" "inv s'" using read_ok [OF i e] by blast
  have l: "length (sector 0) = 512" using sector_length [OF i] .
  have f: "fat32_of (sector 0 @ x) = f" for x
    unfolding f_def using l by (simp add: fat32_of_def le16_def le32_def nth_append)
  from r ok show ?thesis
    by (intro exI [of _ "st\<lparr>io := s'\<rparr>"]) (simp add: FAT_detect_def Let_def f FAT_init_inode_def fat_ok_def)
qed

lemma probe_loop_stuck:
  assumes e: "0 < extent" and h: "impl \<noteq> NULL" and p: "probe impl = FAT_detect rd junk"
    and sig: "signature (fat32_of (sector 0)) \<noteq> 0x28" "signature (fat32_of (sector 0)) \<noteq> 0x29"
    and ok: "fat_ok inv sector st"
  shows "probe_loop probe impl st = None"
proof (rule ccontr)
  assume "probe_loop probe impl st \<noteq> None"
  then obtain r where r: "probe_loop probe impl st = Some r" by blast
  have "\<not> (pr = probe \<and> im = impl \<and> fat_ok inv sector s)" if "probe_loop pr im s = Some y" for pr im s y
  proof (rule probe_loop.raw_induct [where P = "\<lambda>pr im s y. \<not> (pr = probe \<and> im = impl \<and> fat_ok inv sector s)", OF _ that])
    fix loop :: "(ptr \<Rightarrow> ('s, 'a) fat_state_scheme \<Rightarrow> (fat_superblock option \<times> ('s, 'a) fat_state_scheme) res option) \<Rightarrow> ptr \<Rightarrow>
        ('s, 'a) fat_state_scheme \<Rightarrow> (fat_superblock option \<times> ('s, 'a) fat_state_scheme) res option" and pr im s y
    assume ih: "\<And>pr im s y. loop pr im s = Some y \<Longrightarrow> \<not> (pr = probe \<and> im = impl \<and> fat_ok inv sector s)"
      and y: "(if im \<noteq> NULL then bind_ro (pr im s) (\<lambda>rs. if fst rs \<noteq> None then Some (Inr rs) else loop pr im (snd rs))
         else Some (Inr (None, s))) = Some y"
    show "\<not> (pr = probe \<and> im = impl \<and> fat_ok inv sector s)"
    proof
      assume a: "pr = probe \<and> im = impl \<and> fat_ok inv sector s"
      then obtain s' where "pr im s = Some (Inr (None, s'))" "fat_ok inv sector s'"
        using FAT_detect_ok [of s junk] e p sig by auto
      with y h a have "loop pr im s' = Some y" by simp
      from ih [OF this] a \<open>fat_ok inv sector s'\<close> show False by blast
    qed
  qed
  from this [OF r] ok show False by blast
qed

lemma probe_loop_finds:
  assumes e: "0 < extent" and h: "impl \<noteq> NULL" and p: "probe impl = FAT_detect rd junk"
    and sig: "signature (fat32_of (sector 0)) = 0x28 \<or> signature (fat32_of (sector 0)) = 0x29"
    and ok: "fat_ok inv sector st"
  shows "\<exists>st'. probe_loop probe impl st = Some (Inr (Some \<lparr>sb_fat32 = fat32_of (sector 0),
      sb_root = \<lparr>st_ino = ucast (root_cluster_number (fat32_of (sector 0))), st_mode = S_IFDIR, st_size = 0\<rparr>\<rparr>, st')) \<and> fat_ok inv sector st'"
  using FAT_detect_ok [OF ok e, of junk] sig h p by (subst probe_loop.simps) auto

end

section \<open>Properties\<close>

text \<open>
  C26: Looking up an absolute path whose items all exist returns the inode that the directories of the volume give for it,
  whatever the current directory is and whatever the uninitialised search structure and buffers hold. The directories may
  hold everything a FAT volume has, dotted, deleted and short entries and labels, with one condition on the items: none starts with
  the characters of an entry whose name has no end of its own.
\<close>

theorem FS_inode_for_path_finds:
  assumes "fat_ok (part_idle P p disk view) (part_sector p disk) st" and "layout_ok (sb_fat32 sb)"
    and "path_tree (part_sector p disk) (ucast (num_sectors p)) (sb_fat32 sb) dirs D (set items)" and "sb_root sb \<in> D"
    and "\<forall>r. length (fst (bufs r)) = 512 \<and> name_buffer (snd (bufs r))"
    and "\<forall>c \<in> set items. path_item c" and "resolve dirs (sb_root sb) items = Some i"
  shows "\<exists>st'. FS_inode_for_path (part_read_block P p) sb bufs (47 # join_path items) cwd st = Some (Inr (Some i, st')) \<and>
     fat_ok (part_idle P p disk view) (part_sector p disk) st'"
  by (rule part.FS_inode_for_path_found [OF assms(2,3,5,1,4,6,7)])



text \<open>
  With FAT32 registered, probing a partition gives its volume, with the root directory of the
  first block, when the block carries the FAT32 signature; without the signature it never returns,
  because the loop over the implementations stays at the first one.
\<close>

theorem FS_probe_result:
  assumes "fat_ok (part_idle P p disk view) (part_sector p disk) st" and "0 < num_sectors p"
    and "ll_head l \<noteq> NULL" and "probe (ll_head l) = FAT_detect (part_read_block P p) junk"
    and "f = fat32_of (part_sector p disk 0)"
  shows "if signature f = 0x28 \<or> signature f = 0x29
     then \<exists>st'. FS_probe l probe st = Some (Inr (Some \<lparr>sb_fat32 = f,
            sb_root = \<lparr>st_ino = ucast (root_cluster_number f), st_mode = S_IFDIR, st_size = 0\<rparr>\<rparr>, st')) \<and>
          fat_ok (part_idle P p disk view) (part_sector p disk) st'
     else FS_probe l probe st = None"
proof -
  have e: "0 < (ucast (num_sectors p) :: u64)" using assms(2) by (simp add: word_less_nat_alt)
  show ?thesis
  proof (cases "signature f = 0x28 \<or> signature f = 0x29")
    case True
    then show ?thesis
      using part.probe_loop_finds [where probe = probe and impl = "ll_head l", OF e assms(3,4) _ assms(1)] assms(5) by (simp add: FS_probe_def)
  next
    case False
    then show ?thesis
      using part.probe_loop_stuck [where probe = probe and impl = "ll_head l", OF e assms(3,4) _ _ assms(1)] assms(5) by (simp add: FS_probe_def)
  qed
qed

subsection \<open>The example volume\<close>

definition fat_dirs :: "u64 \<Rightarrow> dir_item list" where
  "fat_dirs n = (if n = 2 then fat_root_items else if n = 5 then fat_sub_items else [])"

lemma fat_entries:
  "entries (fat_dirs 2) = [([65, 98], \<lparr>st_ino = 3, st_mode = 0, st_size = 600\<rparr>), ([100], \<lparr>st_ino = 5, st_mode = S_IFDIR, st_size = 0\<rparr>)]"
  "entries (fat_dirs 5) = [([102], \<lparr>st_ino = 0, st_mode = 0, st_size = 0\<rparr>)]"
  "item_inodes (fat_dirs 2) = [\<lparr>st_ino = 0, st_mode = 0, st_size = 0\<rparr>, \<lparr>st_ino = 3, st_mode = 0, st_size = 600\<rparr>, \<lparr>st_ino = 5, st_mode = S_IFDIR, st_size = 0\<rparr>]"
  "item_inodes (fat_dirs 5) = [\<lparr>st_ino = 0, st_mode = 0, st_size = 0\<rparr>, \<lparr>st_ino = 0, st_mode = 0, st_size = 0\<rparr>]"
  by code_simp+

abbreviation fat_sub :: inode where
  "fat_sub \<equiv> \<lparr>st_ino = 5, st_mode = S_IFDIR, st_size = 0\<rparr>"

lemma fat_dirs_at:
  "dir_at (part_sector sda0 fat_disk) (ucast (num_sectors sda0)) (sb_fat32 fat_vol) fat_dirs (sb_root fat_vol)"
  "dir_at (part_sector sda0 fat_disk) (ucast (num_sectors sda0)) (sb_fat32 fat_vol) fat_dirs fat_sub"
proof -
  have n: "ucast (num_sectors sda0) = (50 :: u64)" by (simp add: sda0_def)
  have m: "S_IFDIR \<noteq> 0" by (simp add: S_IFDIR_def)
  have h: "dir_holds (part_sector sda0 fat_disk) (sb_fat32 fat_vol) [2] (fat_dirs 2)"
    "dir_holds (part_sector sda0 fat_disk) (sb_fat32 fat_vol) [5] (fat_dirs 5)"
    using fat_root_holds fat_sub_holds by (simp_all add: fat_dirs_def)
  have r: "st_ino (sb_root fat_vol) = 2" "st_mode (sb_root fat_vol) = S_IFDIR" by (simp_all add: fat_vol_def)
  show "dir_at (part_sector sda0 fat_disk) (ucast (num_sectors sda0)) (sb_fat32 fat_vol) fat_dirs (sb_root fat_vol)"
    "dir_at (part_sector sda0 fat_disk) (ucast (num_sectors sda0)) (sb_fat32 fat_vol) fat_dirs fat_sub"
    unfolding dir_at_def n using fat_chains(2,3) h r m
    by (simp, intro exI [of _ "2 :: u32"] exI [of _ "[2 :: u32]"] exI [of _ "5 :: u32"] exI [of _ "[5 :: u32]"]; simp)+
qed

lemma fat_tree: "dir_tree (part_sector sda0 fat_disk) (ucast (num_sectors sda0)) (sb_fat32 fat_vol) fat_dirs {sb_root fat_vol, fat_sub}"
proof -
  have m: "S_IFDIR \<noteq> 0" and r: "st_ino (sb_root fat_vol) = 2" by (simp_all add: S_IFDIR_def fat_vol_def)
  show ?thesis unfolding dir_tree_def using fat_dirs_at by (simp add: r m fat_entries)
qed

lemma fat_paths:
  assumes "\<forall>n \<in> N. clear_of n fat_root_items \<and> clear_of n fat_sub_items"
  shows "path_tree (part_sector sda0 fat_disk) (ucast (num_sectors sda0)) (sb_fat32 fat_vol) fat_dirs {sb_root fat_vol, fat_sub} N"
proof -
  have m: "S_IFDIR \<noteq> 0" and r: "st_ino (sb_root fat_vol) = 2" by (simp_all add: S_IFDIR_def fat_vol_def)
  have "clear_of n (fat_dirs 2)" "clear_of n (fat_dirs 5)" if "n \<in> N" for n using assms that by (simp_all add: fat_dirs_def)
  then show ?thesis unfolding path_tree_def using fat_dirs_at by (simp add: r m entry_def fat_entries)
qed

lemma fat_clear: "\<forall>n \<in> set [[65, 98], [100], [102], [120]]. clear_of n fat_root_items \<and> clear_of n fat_sub_items"
  by code_simp

abbreviation vfs_bufs :: "'x \<Rightarrow> u8 list \<times> u8 list" where
  "vfs_bufs r \<equiv> (replicate 512 0, replicate 256 0)"

lemma vfs_example_ok:
  "fat_ok (part_idle fat_ports sda0 fat_disk (\<lambda>r. r)) (part_sector sda0 fat_disk) (fat_state.extend (fat_st (blk_example idle_regs)) x)"
  using fat_disk_ok by (simp add: fat_ok_def fat_st_def fat_state.defs)

lemma fat_file_path:
  "path_tree (part_sector sda0 fat_disk) (ucast (num_sectors sda0)) (sb_fat32 fat_vol) fat_dirs {sb_root fat_vol, fat_sub} (set [[65, 98]])"
  using fat_paths [of "set [[65, 98]]"] fat_clear by simp

theorem FS_inode_for_path_finds_witness:
  "\<exists>st'. FS_inode_for_path (part_read_block fat_ports sda0) fat_vol vfs_bufs [47, 100, 47, 102] (sb_root fat_vol)
       (fat_state.extend (fat_st (blk_example idle_regs)) \<lparr>ps_name = [], ps_result = None\<rparr>) =
     Some (Inr (Some \<lparr>st_ino = 0, st_mode = 0, st_size = 0\<rparr>, st'))"
proof -
  have r: "resolve fat_dirs (sb_root fat_vol) [[100], [102]] = Some \<lparr>st_ino = 0, st_mode = 0, st_size = 0\<rparr>" by code_simp
  have i: "\<forall>c \<in> set [[100], [102]]. path_item c" by (simp add: path_item_def)
  have t: "path_tree (part_sector sda0 fat_disk) (ucast (num_sectors sda0)) (sb_fat32 fat_vol) fat_dirs {sb_root fat_vol, fat_sub} (set [[100], [102]])"
    using fat_paths [of "set [[100], [102]]"] fat_clear by simp
  show ?thesis
    using FS_inode_for_path_finds [OF vfs_example_ok [of "\<lparr>ps_name = [], ps_result = None\<rparr>"] fat_vol_layout t _ _ i r, where bufs = vfs_bufs and cwd = "sb_root fat_vol"]
    by (auto simp: name_buffer_def)
qed



theorem FS_probe_result_witness:
  "FS_probe \<lparr>ll_head = 16, ll_tail = 16, ll_next = \<lambda>_. NULL\<rparr> (\<lambda>_. FAT_detect (part_read_block fat_ports sda0) []) (fat_st (blk_example idle_regs)) = None"
proof -
  have s: "part_sector sda0 fat_disk 0 = bytes_of (replicate 256 100)" by (simp add: part_sector_def sda0_def fat_disk_def)
  have "signature (fat32_of (bytes_of (replicate 256 100))) = 100" by code_simp
  moreover have "0 < num_sectors sda0" by (simp add: sda0_def)
  ultimately show ?thesis
    using FS_probe_result [OF fat_disk_ok, of "\<lparr>ll_head = 16, ll_tail = 16, ll_next = \<lambda>_. NULL\<rparr>" "\<lambda>_. FAT_detect (part_read_block fat_ports sda0) []" "[]", OF _ _ _ refl]
    by (simp add: s)
qed

end
