(* ===== verification/Pf_Alloc.thy ===== *)
theory Pf_Alloc
  imports Memdef
begin

text \<open>
  The page frame allocator of \<^verbatim>\<open>mem/pf_alloc.c\<close>: a bump pointer that walks the usable
  regions of the memory map and skips the kernel image and the multiboot information, and a
  free pool, a linked list threaded through the freed frames themselves.

  Physical memory is a function from the physical address of a 64 bit cell to its value; the
  code reaches it through the direct map at \<open>KERNEL_MMAP_START\<close>.
\<close>

section \<open>State and operations\<close>

record pf_state =
  pf_mem :: "u64 \<Rightarrow> u64"
  pf_map :: memory_map
  pf_free_pool :: ptr
  pf_current :: u64
  pf_region :: u8

definition dm_read :: "ptr \<Rightarrow> 'a pf_state_scheme \<Rightarrow> u64" where
  "dm_read v s = pf_mem s (GET_PHYS_ADDR v)"

definition dm_write :: "ptr \<Rightarrow> u64 \<Rightarrow> 'a pf_state_scheme \<Rightarrow> 'a pf_state_scheme" where
  "dm_write v x s = s\<lparr>pf_mem := (pf_mem s)(GET_PHYS_ADDR v := x)\<rparr>"

definition push_free_pf :: "u64 \<Rightarrow> 'a pf_state_scheme \<Rightarrow> 'a pf_state_scheme" where
  "push_free_pf pf s =
     (let node = GET_VIRT_ADDR pf;
          s = dm_write node NULL s
      in if pf_free_pool s = NULL then s\<lparr>pf_free_pool := node\<rparr>
         else
           let s = dm_write node (pf_free_pool s) s
           in s\<lparr>pf_free_pool := node\<rparr>)"

definition pop_free_pf :: "'a pf_state_scheme \<Rightarrow> u64 option \<times> 'a pf_state_scheme" where
  "pop_free_pf s =
     (if pf_free_pool s = NULL then (None, s)
      else (Some (GET_PHYS_ADDR (pf_free_pool s)),
            s\<lparr>pf_free_pool := dm_read (pf_free_pool s) s\<rparr>))"

definition MMU_init_pf_alloc :: "'a pf_state_scheme \<Rightarrow> 'a pf_state_scheme res" where
  "MMU_init_pf_alloc s =
     bind_res (region_at (pf_map s) 0) (\<lambda>r.
       Inr (s\<lparr>pf_current := align_page (rg_start r), pf_free_pool := NULL, pf_region := 0\<rparr>))"

text \<open>
  The first test at label \<^verbatim>\<open>check_addr\<close>: when the bump pointer has left the current region, move
  to the next one, and panic when there was none left.
\<close>

definition enter_region :: "'a pf_state_scheme \<Rightarrow> 'a pf_state_scheme res" where
  "enter_region s =
     bind_res (region_at (pf_map s) (pf_region s)) (\<lambda>r.
       if \<not> in_region (pf_current s) r then
         if pf_region s \<ge> mm_num_regions (pf_map s) then Inl OutOfMemory
         else
           let s = s\<lparr>pf_region := pf_region s + 1\<rparr>
           in bind_res (region_at (pf_map s) (pf_region s)) (\<lambda>r'.
                Inr (s\<lparr>pf_current := align_page (rg_start r')\<rparr>))
       else Inr s)"

text \<open>The loop \<^verbatim>\<open>goto check_addr\<close>. \<open>None\<close>: it never leaves the loop.\<close>

partial_function (option) check_addr :: "'a pf_state_scheme \<Rightarrow> (u64 \<times> 'a pf_state_scheme) res option" where
  "check_addr s =
     (case enter_region s of
        Inl e \<Rightarrow> Some (Inl e)
      | Inr s \<Rightarrow>
          if in_region (pf_current s) (mm_multiboot (pf_map s)) then
            check_addr (s\<lparr>pf_current := align_page (rg_end (mm_multiboot (pf_map s)))\<rparr>)
          else if in_region (pf_current s) (mm_kernel (pf_map s)) then
            check_addr (s\<lparr>pf_current := align_page (rg_end (mm_kernel (pf_map s)))\<rparr>)
          else Some (Inr (pf_current s, s\<lparr>pf_current := pf_current s + PAGE_SIZE\<rparr>)))"

definition MMU_pf_alloc :: "'a pf_state_scheme \<Rightarrow> (u64 \<times> 'a pf_state_scheme) res" where
  "MMU_pf_alloc s =
     (case pop_free_pf s of
        (Some addr, s) \<Rightarrow> Inr (addr, s)
      | (None, s) \<Rightarrow> (case check_addr s of None \<Rightarrow> Inl Diverge | Some r \<Rightarrow> r))"

definition MMU_pf_free :: "u64 \<Rightarrow> 'a pf_state_scheme \<Rightarrow> 'a pf_state_scheme" where
  "MMU_pf_free pf s = push_free_pf (pf AND NOT (PAGE_SIZE - 1)) s"

section \<open>Well-formed memory maps\<close>

text \<open>
  What the boot loader gives: at least one usable region, regions in ascending order that do
  not overlap and each hold the start of a page, everything below \<open>2^46\<close>. The last array entry
  stays unused, so walking off the last region reads an entry of the array.
\<close>

definition region_wf :: "mem_region \<Rightarrow> bool" where
  "region_wf r \<longleftrightarrow> rg_start r \<le> rg_end r \<and> unat (rg_end r) \<le> 2 ^ 46"

definition map_wf :: "memory_map \<Rightarrow> bool" where
  "map_wf m \<longleftrightarrow>
     length (mm_regions m) = MAX_REGIONS \<and> 0 < unat (mm_num_regions m) \<and>
     unat (mm_num_regions m) < MAX_REGIONS \<and>
     list_all (\<lambda>r. region_wf r) (mm_regions m) \<and>
     list_all (\<lambda>r. align_page (rg_start r) < rg_end r) (take (unat (mm_num_regions m)) (mm_regions m)) \<and>
     sorted_wrt (\<lambda>r r'. rg_end r \<le> rg_start r') (take (unat (mm_num_regions m)) (mm_regions m)) \<and>
     region_wf (mm_kernel m) \<and> region_wf (mm_multiboot m)"

lemma map_wfD:
  assumes "map_wf m"
  shows "length (mm_regions m) = 64" "0 < unat (mm_num_regions m)" "unat (mm_num_regions m) < 64"
    and "region_wf (mm_kernel m)" "region_wf (mm_multiboot m)"
    and "i < 64 \<Longrightarrow> region_wf (mm_regions m ! i)"
    and "i < unat (mm_num_regions m) \<Longrightarrow> align_page (rg_start (mm_regions m ! i)) < rg_end (mm_regions m ! i)"
    and "i < j \<Longrightarrow> j < unat (mm_num_regions m) \<Longrightarrow> rg_end (mm_regions m ! i) \<le> rg_start (mm_regions m ! j)"
  using assms
  by (auto simp: map_wf_def MAX_REGIONS_def list_all_length sorted_wrt_iff_nth_less)

lemma region_align_bounds:
  assumes "region_wf r"
  shows "rg_start r \<le> align_page (rg_start r)" "rg_end r \<le> align_page (rg_end r)"
    "unat (align_page (rg_start r)) \<le> 2 ^ 46 + 4096" "unat (align_page (rg_end r)) \<le> 2 ^ 46 + 4096"
proof -
  have b: "unat (rg_start r) \<le> 2 ^ 46" "unat (rg_end r) \<le> 2 ^ 46"
    using assms by (auto simp: region_wf_def word_le_nat_alt)
  then have c: "unat (rg_start r) + 4096 \<le> 2 ^ 64" "unat (rg_end r) + 4096 \<le> 2 ^ 64" by simp_all
  show "rg_start r \<le> align_page (rg_start r)" "rg_end r \<le> align_page (rg_end r)"
    using align_page_ge(1) [OF c(1)] align_page_ge(1) [OF c(2)] by (simp_all add: word_le_nat_alt)
  show "unat (align_page (rg_start r)) \<le> 2 ^ 46 + 4096" "unat (align_page (rg_end r)) \<le> 2 ^ 46 + 4096"
    using align_page_ge(2) [OF c(1)] align_page_ge(2) [OF c(2)] b by linarith+
qed

lemma in_region_wf: "region_wf r \<Longrightarrow> in_region a r \<longleftrightarrow> rg_start r \<le> a \<and> a < rg_end r"
  by (simp add: region_wf_def in_region_iff)

section \<open>The allocation loop ends\<close>

definition bump_wf :: "'a pf_state_scheme \<Rightarrow> bool" where
  "bump_wf s \<longleftrightarrow> map_wf (pf_map s) \<and> unat (pf_region s) \<le> unat (mm_num_regions (pf_map s)) \<and>
     page_aligned (pf_current s)"

text \<open>Regions left to enter first, then how many of the two holes lie ahead.\<close>

definition holes_ahead :: "'a pf_state_scheme \<Rightarrow> nat" where
  "holes_ahead s =
     (if pf_current s < rg_end (mm_multiboot (pf_map s)) then 1 else 0) +
     (if pf_current s < rg_end (mm_kernel (pf_map s)) then 1 else 0)"

definition bump_measure :: "'a pf_state_scheme \<Rightarrow> nat" where
  "bump_measure s = 3 * (unat (mm_num_regions (pf_map s)) - unat (pf_region s)) + holes_ahead s"

text \<open>What entering a region leaves alone and what it establishes.\<close>

lemma enter_region_cases:
  assumes wf: "bump_wf s"
  shows "enter_region s = Inl OutOfMemory \<or>
    (enter_region s = Inr s \<and> in_region (pf_current s) (mm_regions (pf_map s) ! unat (pf_region s))) \<or>
    (unat (pf_region s) < unat (mm_num_regions (pf_map s)) \<and>
     enter_region s = Inr (s\<lparr>pf_region := pf_region s + 1,
        pf_current := align_page (rg_start (mm_regions (pf_map s) ! Suc (unat (pf_region s))))\<rparr>) \<and>
     unat (pf_region s + 1) = Suc (unat (pf_region s)))"
proof -
  note m = map_wfD(1-3) [of "pf_map s"]
  have i: "unat (pf_region s) < 64" and len: "length (mm_regions (pf_map s)) = 64"
    using wf m by (auto simp: bump_wf_def)
  have inc: "unat (pf_region s + 1) = Suc (unat (pf_region s))"
    using i by (simp add: unat_word_ariths)
  show ?thesis
    using wf m i len inc
    by (auto simp: enter_region_def region_at_def bump_wf_def Let_def word_le_nat_alt)
qed

lemma enter_region_wf:
  assumes wf: "bump_wf s" and r: "enter_region s = Inr s'"
  shows "bump_wf s' \<and> pf_mem s' = pf_mem s \<and> pf_map s' = pf_map s \<and> pf_free_pool s' = pf_free_pool s \<and>
     bump_measure s' \<le> bump_measure s"
proof (cases "enter_region s = Inr s")
  case True
  with wf r show ?thesis by auto
next
  case False
  with enter_region_cases [OF wf] r have
    lt: "unat (pf_region s) < unat (mm_num_regions (pf_map s))"
    and s': "s' = s\<lparr>pf_region := pf_region s + 1,
        pf_current := align_page (rg_start (mm_regions (pf_map s) ! Suc (unat (pf_region s))))\<rparr>"
    and inc: "unat (pf_region s + 1) = Suc (unat (pf_region s))" by auto
  have "holes_ahead s' \<le> 2" by (simp add: holes_ahead_def)
  then have "bump_measure s' \<le> bump_measure s"
    using lt inc unfolding bump_measure_def by (simp add: s')
  with wf lt inc show ?thesis by (simp add: s' bump_wf_def)
qed

lemma skip_hole:
  assumes wf: "bump_wf s" and h: "h = mm_multiboot (pf_map s) \<or> h = mm_kernel (pf_map s)"
    and inh: "in_region (pf_current s) h"
  defines "s' \<equiv> s\<lparr>pf_current := align_page (rg_end h)\<rparr>"
  shows "bump_wf s'" "bump_measure s' < bump_measure s"
proof -
  have hw: "region_wf h" and "region_wf (mm_kernel (pf_map s))" "region_wf (mm_multiboot (pf_map s))"
    using wf h map_wfD(4,5) [of "pf_map s"] by (auto simp: bump_wf_def)
  from wf show "bump_wf s'" by (simp add: s'_def bump_wf_def)
  have lt: "pf_current s < rg_end h" using inh hw by (simp add: in_region_wf)
  have le: "rg_end h \<le> align_page (rg_end h)" using region_align_bounds [OF hw] by simp
  have "holes_ahead s' < holes_ahead s"
    using h lt le by (auto simp: holes_ahead_def s'_def)
  then show "bump_measure s' < bump_measure s" by (simp add: bump_measure_def s'_def)
qed

text \<open>Induction along the loop.\<close>

lemma check_addr_induct [case_names stop step, consumes 1]:
  assumes wf: "bump_wf s"
    and stop: "\<And>s e. bump_wf s \<Longrightarrow> enter_region s = Inl e \<Longrightarrow> P s"
    and step: "\<And>s s1. bump_wf s \<Longrightarrow> enter_region s = Inr s1 \<Longrightarrow> bump_wf s1 \<Longrightarrow>
      (\<And>h. h = mm_multiboot (pf_map s1) \<or> h = mm_kernel (pf_map s1) \<Longrightarrow> in_region (pf_current s1) h \<Longrightarrow>
         P (s1\<lparr>pf_current := align_page (rg_end h)\<rparr>)) \<Longrightarrow> P s"
  shows "P s"
  using wf
proof (induction "bump_measure s" arbitrary: s rule: less_induct)
  case less
  show ?case
  proof (cases "enter_region s")
    case (Inl e)
    with less.prems show ?thesis by (rule stop)
  next
    case (Inr s1)
    from enter_region_wf [OF less.prems Inr]
    have s1: "bump_wf s1" "bump_measure s1 \<le> bump_measure s" by auto
    show ?thesis
    proof (rule step [OF less.prems Inr s1(1)])
      fix h assume h: "h = mm_multiboot (pf_map s1) \<or> h = mm_kernel (pf_map s1)"
        "in_region (pf_current s1) h"
      from skip_hole [OF s1(1) h] s1(2)
      show "P (s1\<lparr>pf_current := align_page (rg_end h)\<rparr>)" by (intro less.hyps) auto
    qed
  qed
qed

lemma check_addr_ends: "bump_wf s \<Longrightarrow> \<exists>r. check_addr s = Some r"
proof (induction s rule: check_addr_induct)
  case (stop s e)
  then show ?case by (subst check_addr.simps) simp
next
  case (step s s1)
  then show ?case by (subst check_addr.simps) auto
qed

section \<open>What the bump pointer hands out\<close>

definition frame_usable :: "memory_map \<Rightarrow> u64 \<Rightarrow> bool" where
  "frame_usable m f \<longleftrightarrow>
     page_aligned f \<and> \<not> in_region f (mm_kernel m) \<and> \<not> in_region f (mm_multiboot m) \<and>
     list_ex (in_region f) (take (unat (mm_num_regions m)) (mm_regions m))"

text \<open>
  The frames in \<open>U\<close> were handed out before: they lie below the bump pointer and below the end
  of the region it is in.
\<close>

definition bump_used :: "'a pf_state_scheme \<Rightarrow> u64 set \<Rightarrow> bool" where
  "bump_used s U \<longleftrightarrow>
     (\<forall>f \<in> U. f < pf_current s \<and> f < rg_end (mm_regions (pf_map s) ! unat (pf_region s)))"

text \<open>The allocator has not walked off the last region.\<close>

definition has_region :: "'a pf_state_scheme \<Rightarrow> bool" where
  "has_region s \<longleftrightarrow> unat (pf_region s) < unat (mm_num_regions (pf_map s))"

lemma enter_region_used:
  assumes wf: "bump_wf s" and r: "enter_region s = Inr s'" and reg: "has_region s'"
  shows "has_region s \<and> in_region (pf_current s') (mm_regions (pf_map s') ! unat (pf_region s')) \<and>
         (bump_used s U \<longrightarrow> bump_used s' U)"
proof (cases "enter_region s = Inr s")
  case True
  with enter_region_cases [OF wf] have
    "in_region (pf_current s) (mm_regions (pf_map s) ! unat (pf_region s)) \<or>
     (unat (pf_region s + 1) = Suc (unat (pf_region s)) \<and>
      s = s\<lparr>pf_region := pf_region s + 1,
        pf_current := align_page (rg_start (mm_regions (pf_map s) ! Suc (unat (pf_region s))))\<rparr>)"
    by auto
  moreover have False if "unat (pf_region s + 1) = Suc (unat (pf_region s))"
    "s = s\<lparr>pf_region := pf_region s + 1, pf_current := x\<rparr>" for x
  proof -
    from that(2) have "pf_region s = pf_region s + 1"
      by (metis pf_state.select_convs(5) pf_state.surjective pf_state.update_convs(4,5))
    with that(1) show False by simp
  qed
  ultimately show ?thesis using True r reg by auto
next
  case False
  let ?i = "unat (pf_region s)" and ?rs = "mm_regions (pf_map s)"
  from enter_region_cases [OF wf] r False have
    s': "s' = s\<lparr>pf_region := pf_region s + 1, pf_current := align_page (rg_start (?rs ! Suc ?i))\<rparr>"
    and inc: "unat (pf_region s + 1) = Suc ?i" by auto
  have m: "map_wf (pf_map s)" and lt: "Suc ?i < unat (mm_num_regions (pf_map s))"
    using wf reg inc by (auto simp: bump_wf_def has_region_def s')
  note w = map_wfD [OF m]
  have rw: "region_wf (?rs ! Suc ?i)" using w(3,6) lt by auto
  have al: "align_page (rg_start (?rs ! Suc ?i)) < rg_end (?rs ! Suc ?i)" using w(7) [OF lt] .
  have le: "rg_end (?rs ! ?i) \<le> rg_start (?rs ! Suc ?i)" using w(8) [of ?i "Suc ?i"] lt by simp
  have st: "rg_start (?rs ! Suc ?i) \<le> align_page (rg_start (?rs ! Suc ?i))"
    using region_align_bounds(1) [OF rw] .
  have "bump_used s U \<longrightarrow> bump_used s' U"
    using le st al unfolding bump_used_def by (fastforce simp: s' inc)
  moreover have "in_region (pf_current s') (mm_regions (pf_map s') ! unat (pf_region s'))"
    using st al rw by (simp add: s' inc in_region_wf)
  ultimately show ?thesis using lt by (simp add: has_region_def)
qed

lemma bump_used_up:
  "bump_used s U \<Longrightarrow> pf_current s \<le> c \<Longrightarrow> bump_used (s\<lparr>pf_current := c\<rparr>) U"
  unfolding bump_used_def by (fastforce intro: order.strict_trans2)

lemma take_frame:
  assumes wf: "bump_wf s" and used: "bump_used s U" and reg: "has_region s"
    and inr: "in_region (pf_current s) (mm_regions (pf_map s) ! unat (pf_region s))"
    and out: "\<not> in_region (pf_current s) (mm_multiboot (pf_map s))"
      "\<not> in_region (pf_current s) (mm_kernel (pf_map s))"
  defines "s' \<equiv> s\<lparr>pf_current := pf_current s + PAGE_SIZE\<rparr>"
  shows "frame_usable (pf_map s) (pf_current s)" "pf_current s \<notin> U"
    and "bump_used s' (insert (pf_current s) U)" "bump_wf s'"
proof -
  let ?i = "unat (pf_region s)" and ?rs = "mm_regions (pf_map s)"
  note w = map_wfD [of "pf_map s"]
  have m: "map_wf (pf_map s)" and al: "page_aligned (pf_current s)" using wf by (auto simp: bump_wf_def)
  have i: "?i < unat (mm_num_regions (pf_map s))" using reg by (simp add: has_region_def)
  have rw: "region_wf (?rs ! ?i)" using w(3,6) [OF m] i by simp
  have lt: "pf_current s < rg_end (?rs ! ?i)" "unat (rg_end (?rs ! ?i)) \<le> 2 ^ 46"
    using inr rw by (auto simp: in_region_wf region_wf_def)
  have "?rs ! ?i \<in> set (take (unat (mm_num_regions (pf_map s))) ?rs)"
    using i w(1,3) [OF m] by (auto simp: in_set_conv_nth intro!: exI [of _ ?i])
  then show "frame_usable (pf_map s) (pf_current s)"
    using out al inr by (auto simp: frame_usable_def list_ex_iff)
  show "pf_current s \<notin> U" using used by (auto simp: bump_used_def)
  have n: "unat (pf_current s) < 2 ^ 46" using lt by (simp add: word_less_nat_alt)
  then have up: "unat (pf_current s + PAGE_SIZE) = unat (pf_current s) + 4096"
    by (simp add: PAGE_SIZE_def unat_word_ariths)
  then have gt: "pf_current s < pf_current s + PAGE_SIZE" by (simp add: word_less_nat_alt)
  show "bump_used s' (insert (pf_current s) U)"
    using bump_used_up [OF used, of "pf_current s + PAGE_SIZE"] gt lt(1)
    by (auto simp: s'_def bump_used_def)
  show "bump_wf s'" using wf up by (simp add: s'_def bump_wf_def page_aligned_unat)
qed

lemma check_addr_spec:
  assumes "bump_wf s" and "bump_used s U" and "check_addr s = Some (Inr (f, s'))" and "has_region s'"
  shows "has_region s \<and> frame_usable (pf_map s) f \<and> f \<notin> U \<and> bump_used s' (insert f U) \<and> bump_wf s' \<and>
     pf_mem s' = pf_mem s \<and> pf_map s' = pf_map s \<and> pf_free_pool s' = pf_free_pool s"
  using assms
proof (induction s arbitrary: U rule: check_addr_induct)
  case (stop s e)
  from stop.prems(2) stop(2) show ?case by (subst (asm) check_addr.simps) simp
next
  case (step s s1)
  let ?mb = "mm_multiboot (pf_map s1)" and ?k = "mm_kernel (pf_map s1)"
  from enter_region_wf [OF step(1,2)]
  have same: "pf_mem s1 = pf_mem s" "pf_map s1 = pf_map s" "pf_free_pool s1 = pf_free_pool s" by auto
  have jump: ?case if h: "h = ?mb \<or> h = ?k" "in_region (pf_current s1) h"
    and r: "check_addr (s1\<lparr>pf_current := align_page (rg_end h)\<rparr>) = Some (Inr (f, s'))" for h
  proof -
    let ?s2 = "s1\<lparr>pf_current := align_page (rg_end h)\<rparr>"
    have hw: "region_wf h" using h(1) step(3) map_wfD(4,5) by (auto simp: bump_wf_def)
    have "pf_current s1 < rg_end h" using h(2) by (simp add: in_region_wf [OF hw])
    then have up: "pf_current s1 \<le> align_page (rg_end h)"
      using region_align_bounds(2) [OF hw] by simp
    have "has_region ?s2"
      using step(4) [OF h _ r step.prems(3), of "{}"] by (simp add: bump_used_def)
    then have reg: "has_region s1" by (simp add: has_region_def)
    from enter_region_used [OF step(1,2) reg] step.prems(1)
    have s1: "has_region s" "bump_used s1 U" by auto
    from step(4) [OF h bump_used_up [OF s1(2) up] r step.prems(3)] s1(1) same show ?thesis by simp
  qed
  have unfold: "check_addr s =
     (if in_region (pf_current s1) ?mb then check_addr (s1\<lparr>pf_current := align_page (rg_end ?mb)\<rparr>)
      else if in_region (pf_current s1) ?k then check_addr (s1\<lparr>pf_current := align_page (rg_end ?k)\<rparr>)
      else Some (Inr (pf_current s1, s1\<lparr>pf_current := pf_current s1 + PAGE_SIZE\<rparr>)))"
    by (subst check_addr.simps) (simp add: step(2))
  show ?case
  proof (cases "in_region (pf_current s1) ?mb \<or> in_region (pf_current s1) ?k")
    case True
    with step.prems(2) unfold jump [of ?mb] jump [of ?k] show ?thesis by (auto split: if_splits)
  next
    case False
    with step.prems(2) unfold have f: "f = pf_current s1"
      and s': "s' = s1\<lparr>pf_current := pf_current s1 + PAGE_SIZE\<rparr>" by auto
    have reg: "has_region s1" using step.prems(3) by (simp add: s' has_region_def)
    from enter_region_used [OF step(1,2) reg, of U] step.prems(1)
    have s1: "has_region s" "bump_used s1 U"
      "in_region (pf_current s1) (mm_regions (pf_map s1) ! unat (pf_region s1))" by auto
    from take_frame [OF step(3) s1(2) reg s1(3)] False s1(1) same show ?thesis
      by (simp add: f s')
  qed
qed

text \<open>Every result keeps the allocator well-formed and never goes back a region.\<close>

lemma check_addr_wf:
  assumes "bump_wf s" and "check_addr s = Some (Inr (f, s'))"
  shows "bump_wf s' \<and> unat (pf_region s) \<le> unat (pf_region s') \<and> pf_map s' = pf_map s \<and>
     pf_mem s' = pf_mem s \<and> pf_free_pool s' = pf_free_pool s"
  using assms
proof (induction s rule: check_addr_induct)
  case (stop s e)
  from stop.prems stop(2) show ?case by (subst (asm) check_addr.simps) simp
next
  case (step s s1)
  let ?mb = "mm_multiboot (pf_map s1)" and ?k = "mm_kernel (pf_map s1)"
  from enter_region_wf [OF step(1,2)] have s1: "pf_map s1 = pf_map s" "pf_mem s1 = pf_mem s"
    "pf_free_pool s1 = pf_free_pool s" by auto
  have reg: "unat (pf_region s) \<le> unat (pf_region s1)"
    using enter_region_cases [OF step(1)] step(2) by auto
  have unfold: "check_addr s =
     (if in_region (pf_current s1) ?mb then check_addr (s1\<lparr>pf_current := align_page (rg_end ?mb)\<rparr>)
      else if in_region (pf_current s1) ?k then check_addr (s1\<lparr>pf_current := align_page (rg_end ?k)\<rparr>)
      else Some (Inr (pf_current s1, s1\<lparr>pf_current := pf_current s1 + PAGE_SIZE\<rparr>)))"
    by (subst check_addr.simps) (simp add: step(2))
  have "4096 dvd unat (c + PAGE_SIZE)" if "4096 dvd unat c" for c :: u64
    using that by (simp add: PAGE_SIZE_def unat_word_ariths dvd_mod_iff)
  then have "page_aligned (pf_current s1 + PAGE_SIZE)"
    using step(3) by (simp add: bump_wf_def page_aligned_unat dvd_eq_mod_eq_0)
  then have "bump_wf (s1\<lparr>pf_current := pf_current s1 + PAGE_SIZE\<rparr>)"
    using step(3) by (simp add: bump_wf_def)
  with unfold step.prems step(4) [of ?mb] step(4) [of ?k] s1 reg show ?case
    by (auto split: if_splits)
qed

text \<open>The loop touches the bump pointer and the region index only.\<close>

definition bump_frame :: "'a pf_state_scheme \<Rightarrow> 'a pf_state_scheme \<Rightarrow> bool" where
  "bump_frame s s' \<longleftrightarrow> (\<exists>c r. s' = s\<lparr>pf_current := c, pf_region := r\<rparr>)"

lemma bump_frame_refl: "bump_frame s s"
proof -
  have "s = s\<lparr>pf_current := pf_current s, pf_region := pf_region s\<rparr>" by simp
  then show ?thesis unfolding bump_frame_def by blast
qed

lemma bump_frame_current: "bump_frame s s1 \<Longrightarrow> bump_frame s (s1\<lparr>pf_current := c\<rparr>)"
proof -
  assume "bump_frame s s1"
  then obtain d r where "s1 = s\<lparr>pf_current := d, pf_region := r\<rparr>" by (auto simp: bump_frame_def)
  then have "s1\<lparr>pf_current := c\<rparr> = s\<lparr>pf_current := c, pf_region := r\<rparr>" by (cases s) simp
  then show ?thesis unfolding bump_frame_def by blast
qed

lemma bump_frame_trans: "bump_frame s s1 \<Longrightarrow> bump_frame s1 s2 \<Longrightarrow> bump_frame s s2"
proof -
  assume "bump_frame s s1" "bump_frame s1 s2"
  then obtain c r d q where "s1 = s\<lparr>pf_current := c, pf_region := r\<rparr>"
    "s2 = s1\<lparr>pf_current := d, pf_region := q\<rparr>" by (auto simp: bump_frame_def)
  then have "s2 = s\<lparr>pf_current := d, pf_region := q\<rparr>" by (cases s) simp
  then show ?thesis unfolding bump_frame_def by blast
qed

lemma enter_region_frame: "enter_region s = Inr s' \<Longrightarrow> bump_frame s s'"
proof -
  assume "enter_region s = Inr s'"
  then consider "s' = s" | c where "s' = s\<lparr>pf_region := pf_region s + 1, pf_current := c\<rparr>"
    by (auto simp: enter_region_def res_iff Let_def split: if_splits)
  then show ?thesis
  proof cases
    case (2 c)
    then have "s' = s\<lparr>pf_current := c, pf_region := pf_region s + 1\<rparr>" by (cases s) simp
    then show ?thesis unfolding bump_frame_def by blast
  qed (simp add: bump_frame_refl)
qed

lemma check_addr_frame: "bump_wf s \<Longrightarrow> check_addr s = Some (Inr (f, s')) \<Longrightarrow> bump_frame s s'"
proof (induction s rule: check_addr_induct)
  case (stop s e)
  from stop.prems stop(2) show ?case by (subst (asm) check_addr.simps) simp
next
  case (step s s1)
  note s1 = enter_region_frame [OF step(2)]
  let ?mb = "mm_multiboot (pf_map s1)" and ?k = "mm_kernel (pf_map s1)"
  have "check_addr s =
     (if in_region (pf_current s1) ?mb then check_addr (s1\<lparr>pf_current := align_page (rg_end ?mb)\<rparr>)
      else if in_region (pf_current s1) ?k then check_addr (s1\<lparr>pf_current := align_page (rg_end ?k)\<rparr>)
      else Some (Inr (pf_current s1, s1\<lparr>pf_current := pf_current s1 + PAGE_SIZE\<rparr>)))"
    by (subst check_addr.simps) (simp add: step(2))
  with step.prems step(4) [of ?mb] step(4) [of ?k] bump_frame_current [OF s1] show ?case
    by (auto split: if_splits intro: bump_frame_trans)
qed

lemma MMU_pf_alloc_frame:
  assumes "bump_wf s" and "MMU_pf_alloc s = Inr (f, s')"
  shows "\<exists>c r p. s' = s\<lparr>pf_current := c, pf_region := r, pf_free_pool := p\<rparr>"
proof (cases "pf_free_pool s = NULL")
  case True
  with assms(2) have "check_addr s = Some (Inr (f, s'))"
    by (auto simp: MMU_pf_alloc_def pop_free_pf_def split: option.splits)
  from check_addr_frame [OF assms(1) this] obtain c r where
    "s' = s\<lparr>pf_current := c, pf_region := r\<rparr>" by (auto simp: bump_frame_def)
  then have "s' = s\<lparr>pf_current := c, pf_region := r, pf_free_pool := pf_free_pool s\<rparr>" by (cases s) simp
  then show ?thesis by blast
next
  case False
  with assms(2) have "s' = s\<lparr>pf_current := pf_current s, pf_region := pf_region s,
      pf_free_pool := dm_read (pf_free_pool s) s\<rparr>"
    by (auto simp: MMU_pf_alloc_def pop_free_pf_def)
  then show ?thesis by blast
qed

section \<open>The allocator invariant\<close>

text \<open>The free pool: a list of frames, each holding the pointer to the next one in its first cell.\<close>

fun pool_chain :: "(u64 \<Rightarrow> u64) \<Rightarrow> ptr \<Rightarrow> u64 list \<Rightarrow> bool" where
  "pool_chain m p [] \<longleftrightarrow> p = NULL"
| "pool_chain m p (f # fs) \<longleftrightarrow> p = GET_VIRT_ADDR f \<and> p \<noteq> NULL \<and> pool_chain m (m f) fs"

text \<open>
  A frame that can be in use or in the pool: one the bump pointer hands out, or one of the kernel image, which the
  kernel gives back when only the boot code needed it. The bump pointer never reaches a frame of the second kind.
\<close>

definition frame_owned :: "memory_map \<Rightarrow> u64 \<Rightarrow> bool" where
  "frame_owned m f \<longleftrightarrow> frame_usable m f \<or> page_aligned f \<and> in_region f (mm_kernel m)"

lemma usable_owned: "frame_usable m f \<Longrightarrow> frame_owned m f"
  by (simp add: frame_owned_def)

text \<open>\<open>A\<close>: the frames that are handed out; \<open>F\<close>: those in the free pool, in pool order.\<close>

definition pf_inv :: "'a pf_state_scheme \<Rightarrow> u64 set \<Rightarrow> u64 list \<Rightarrow> bool" where
  "pf_inv s A F \<longleftrightarrow>
     bump_wf s \<and> has_region s \<and> bump_used s {f \<in> A \<union> set F. \<not> in_region f (mm_kernel (pf_map s))} \<and>
     (\<forall>f \<in> A \<union> set F. frame_owned (pf_map s) f) \<and>
     A \<inter> set F = {} \<and> distinct F \<and> pool_chain (pf_mem s) (pf_free_pool s) F"

lemma pool_chain_cong: "(\<And>f. f \<in> set F \<Longrightarrow> m' f = m f) \<Longrightarrow> pool_chain m' p F = pool_chain m p F"
  by (induction F arbitrary: p) auto

lemma GET_VIRT_nonnull: "unat f < 2 ^ 46 \<Longrightarrow> GET_VIRT_ADDR f \<noteq> NULL"
proof -
  assume b: "unat f < 2 ^ 46"
  have "unat (f + KERNEL_MMAP_START) = unat f + unat KERNEL_MMAP_START"
    using b by (simp add: unat_word_ariths KERNEL_MMAP_START_def)
  then have "unat (GET_VIRT_ADDR f) \<noteq> 0"
    by (simp only: GET_VIRT_ADDR_def) (simp add: KERNEL_MMAP_START_def)
  then show "GET_VIRT_ADDR f \<noteq> NULL" by (metis unat_0)
qed

lemma owned_bounds:
  assumes wf: "map_wf m" and f: "frame_owned m f"
  shows "unat f < 2 ^ 46" "page_aligned f" "GET_VIRT_ADDR f \<noteq> NULL"
proof -
  note w = map_wfD [OF wf]
  obtain r where r: "region_wf r" "in_region f r"
  proof (cases "frame_usable m f")
    case True
    then obtain i where "i < unat (mm_num_regions m)" "in_region f (mm_regions m ! i)"
      using w(1,3) by (auto simp: frame_usable_def list_ex_iff in_set_conv_nth)
    with w(3,6) show ?thesis by (intro that [of "mm_regions m ! i"]) auto
  next
    case False
    with f w(4) that show ?thesis by (auto simp: frame_owned_def)
  qed
  from r show b: "unat f < 2 ^ 46"
    by (auto simp: in_region_wf region_wf_def word_less_nat_alt)
  show "page_aligned f" using f by (auto simp: frame_owned_def frame_usable_def)
  show "GET_VIRT_ADDR f \<noteq> NULL" using b by (rule GET_VIRT_nonnull)
qed

lemma pf_invD:
  assumes "pf_inv s A F"
  shows "bump_wf s" "has_region s" "bump_used s {f \<in> A \<union> set F. \<not> in_region f (mm_kernel (pf_map s))}" "map_wf (pf_map s)"
    and "f \<in> A \<Longrightarrow> frame_owned (pf_map s) f" "f \<in> set F \<Longrightarrow> frame_owned (pf_map s) f"
    and "A \<inter> set F = {}" "distinct F" "pool_chain (pf_mem s) (pf_free_pool s) F"
  using assms by (auto simp: pf_inv_def bump_wf_def)

lemma MMU_pf_alloc_inv:
  assumes inv: "pf_inv s A F" and r: "MMU_pf_alloc s = Inr (f, s')" and reg: "has_region s'"
  shows "f \<notin> A \<and> pf_inv s' (insert f A) (tl F) \<and> pf_mem s' = pf_mem s \<and> pf_map s' = pf_map s \<and>
    (if F = [] then frame_usable (pf_map s) f else f = hd F)"
proof (cases F)
  case Nil
  note i = pf_invD [OF inv]
  let ?K = "{f \<in> A. \<not> in_region f (mm_kernel (pf_map s))}"
  have "pf_free_pool s = NULL" using i(9) Nil by simp
  with r have c: "check_addr s = Some (Inr (f, s'))"
    by (auto simp: MMU_pf_alloc_def pop_free_pf_def split: option.splits)
  have "bump_used s ?K" using i(3) Nil by simp
  note sp = check_addr_spec [OF i(1) this c reg]
  have nk: "\<not> in_region f (mm_kernel (pf_map s))" using sp by (simp add: frame_usable_def)
  then have "f \<notin> A" using sp by blast
  moreover have "{g \<in> insert f A. \<not> in_region g (mm_kernel (pf_map s))} = insert f ?K" using nk by auto
  ultimately show ?thesis using sp Nil i(5) i(9) reg by (auto simp: pf_inv_def frame_owned_def)
next
  case (Cons g G)
  note i = pf_invD [OF inv]
  have p: "pf_free_pool s = GET_VIRT_ADDR g" "pf_free_pool s \<noteq> NULL"
    "pool_chain (pf_mem s) (pf_mem s g) G"
    using i(9) Cons by auto
  with r have f: "f = g" and s': "s' = s\<lparr>pf_free_pool := pf_mem s g\<rparr>"
    by (auto simp: MMU_pf_alloc_def pop_free_pf_def dm_read_def)
  from inv Cons p(3) show ?thesis
    by (auto simp: f s' pf_inv_def bump_wf_def has_region_def bump_used_def)
qed

lemma MMU_pf_alloc_wf:
  assumes wf: "bump_wf s" and r: "MMU_pf_alloc s = Inr (f, s')"
  shows "bump_wf s' \<and> (has_region s' \<longrightarrow> has_region s)"
proof (cases "pf_free_pool s = NULL")
  case True
  with r have "check_addr s = Some (Inr (f, s'))"
    by (auto simp: MMU_pf_alloc_def pop_free_pf_def split: option.splits)
  from check_addr_wf [OF wf this] show ?thesis by (simp add: has_region_def)
next
  case False
  with r wf show ?thesis
    by (auto simp: MMU_pf_alloc_def pop_free_pf_def has_region_def bump_wf_def)
qed

lemma MMU_pf_free_eq:
  "page_aligned f \<Longrightarrow> MMU_pf_free f s =
     s\<lparr>pf_mem := (pf_mem s)(f := pf_free_pool s), pf_free_pool := GET_VIRT_ADDR f\<rparr>"
  using page_base_id [of f]
  by (simp add: MMU_pf_free_def push_free_pf_def dm_write_def Let_def page_base_def)

text \<open>A frame that is in use can be freed, and so can one of the kernel image that never was given out.\<close>

lemma pf_free_pool:
  assumes inv: "pf_inv s A F" and f: "frame_owned (pf_map s) f" "f \<notin> set F"
    and b: "f \<in> A \<or> in_region f (mm_kernel (pf_map s))"
  shows "pf_inv (MMU_pf_free f s) (A - {f}) (f # F)"
proof -
  note i = pf_invD [OF inv]
  note o = owned_bounds [OF i(4) f(1)]
  have "pool_chain ((pf_mem s)(f := pf_free_pool s)) (pf_free_pool s) F"
    using i(9) f(2) by (subst pool_chain_cong [where m = "pf_mem s"]) auto
  moreover have "{g \<in> (A - {f}) \<union> set (f # F). \<not> in_region g (mm_kernel (pf_map s))} \<subseteq>
      {g \<in> A \<union> set F. \<not> in_region g (mm_kernel (pf_map s))}" using b by auto
  ultimately show ?thesis
    using inv f o by (auto simp: MMU_pf_free_eq pf_inv_def bump_wf_def has_region_def bump_used_def)
qed

lemma MMU_pf_free_inv:
  assumes inv: "pf_inv s A F" and f: "f \<in> A"
  shows "pf_inv (MMU_pf_free f s) (A - {f}) (f # F)"
  using pf_free_pool [OF inv pf_invD(5) [OF inv f]] pf_invD(7) [OF inv] f by blast

lemma MMU_pf_free_kernel:
  assumes inv: "pf_inv s A F" and f: "page_aligned f" "in_region f (mm_kernel (pf_map s))" "f \<notin> A" "f \<notin> set F"
  shows "pf_inv (MMU_pf_free f s) A (f # F)"
  using pf_free_pool [OF inv, of f] f by (simp add: frame_owned_def)

text \<open>The owner of a frame may write to it: only the cells of pooled frames matter.\<close>

lemma pf_inv_write:
  assumes inv: "pf_inv s A F" and m: "\<And>f. f \<in> set F \<Longrightarrow> m f = pf_mem s f"
  shows "pf_inv (s\<lparr>pf_mem := m\<rparr>) A F"
  using inv pool_chain_cong [of F m "pf_mem s" "pf_free_pool s"] m
  by (auto simp: pf_inv_def bump_wf_def has_region_def bump_used_def)

section \<open>The frame allocator interface\<close>

text \<open>
  \<open>inv s A\<close>: the frames \<open>A\<close> are handed out; \<open>live s\<close>: memory is left.
\<close>

locale frame_source =
  fixes alloc :: "'s \<Rightarrow> ('f \<times> 's) res"
    and free :: "'f \<Rightarrow> 's \<Rightarrow> 's"
    and wf :: "'s \<Rightarrow> bool"
    and live :: "'s \<Rightarrow> bool"
    and inv :: "'s \<Rightarrow> 'f set \<Rightarrow> bool"
  assumes inv_wf: "inv s A \<Longrightarrow> wf s"
    and alloc_wf: "wf s \<Longrightarrow> alloc s = Inr (f, s') \<Longrightarrow> wf s' \<and> (live s' \<longrightarrow> live s)"
    and alloc_fresh: "inv s A \<Longrightarrow> alloc s = Inr (f, s') \<Longrightarrow> live s' \<Longrightarrow> f \<notin> A \<and> inv s' (insert f A)"
    and free_inv: "inv s A \<Longrightarrow> f \<in> A \<Longrightarrow> inv (free f s) (A - {f})"

text \<open>\<open>n\<close> allocations in a row.\<close>

fun alloc_run :: "('s \<Rightarrow> ('f \<times> 's) res) \<Rightarrow> nat \<Rightarrow> 's \<Rightarrow> ('f list \<times> 's) res" where
  "alloc_run alloc 0 s = Inr ([], s)"
| "alloc_run alloc (Suc n) s =
     bind_res (alloc s) (\<lambda>(f, s). bind_res (alloc_run alloc n s) (\<lambda>(fs, s). Inr (f # fs, s)))"

context frame_source begin

lemma alloc_run_wf:
  "wf s \<Longrightarrow> alloc_run alloc n s = Inr (fs, s') \<Longrightarrow> wf s' \<and> (live s' \<longrightarrow> live s)"
proof (induction n arbitrary: s fs)
  case (Suc n)
  then obtain f s1 gs where "alloc s = Inr (f, s1)" "alloc_run alloc n s1 = Inr (gs, s')"
    by (auto simp: res_iff)
  with Suc.IH alloc_wf [OF Suc.prems(1)] show ?case by blast
qed simp

lemma alloc_run_fresh:
  "inv s A \<Longrightarrow> alloc_run alloc n s = Inr (fs, s') \<Longrightarrow> live s' \<Longrightarrow>
   distinct fs \<and> set fs \<inter> A = {} \<and> length fs = n \<and> inv s' (A \<union> set fs)"
proof (induction n arbitrary: s fs A)
  case (Suc n)
  then obtain f s1 gs where a: "alloc s = Inr (f, s1)" and r: "alloc_run alloc n s1 = Inr (gs, s')"
    and fs: "fs = f # gs" by (auto simp: res_iff)
  have "wf s1" using alloc_wf [OF inv_wf [OF Suc.prems(1)] a] by simp
  then have "live s1" using alloc_run_wf [OF _ r] Suc.prems(3) by simp
  with alloc_fresh [OF Suc.prems(1) a] have f: "f \<notin> A" "inv s1 (insert f A)" by auto
  from Suc.IH [OF f(2) r Suc.prems(3)] f(1) fs show ?case by auto
qed simp

end

definition frames_inv :: "'a pf_state_scheme \<Rightarrow> u64 set \<Rightarrow> bool" where
  "frames_inv s A \<longleftrightarrow> (\<exists>F. pf_inv s A F)"

interpretation pfa: frame_source MMU_pf_alloc MMU_pf_free bump_wf has_region frames_inv
  by unfold_locales
    (auto simp: frames_inv_def dest: pf_invD(1) MMU_pf_alloc_wf MMU_pf_alloc_inv intro: MMU_pf_free_inv)

section \<open>Outcomes\<close>

lemma check_addr_outcome:
  "bump_wf s \<Longrightarrow> check_addr s = Some (Inl OutOfMemory) \<or> (\<exists>f s'. check_addr s = Some (Inr (f, s')) \<and> page_aligned f)"
proof (induction s rule: check_addr_induct)
  case (stop s e)
  with enter_region_cases [OF stop(1)] have "e = OutOfMemory" by auto
  with stop show ?case by (subst check_addr.simps) simp
next
  case (step s s1)
  have "check_addr s =
     (if in_region (pf_current s1) (mm_multiboot (pf_map s1)) then
        check_addr (s1\<lparr>pf_current := align_page (rg_end (mm_multiboot (pf_map s1)))\<rparr>)
      else if in_region (pf_current s1) (mm_kernel (pf_map s1)) then
        check_addr (s1\<lparr>pf_current := align_page (rg_end (mm_kernel (pf_map s1)))\<rparr>)
      else Some (Inr (pf_current s1, s1\<lparr>pf_current := pf_current s1 + PAGE_SIZE\<rparr>)))"
    by (subst check_addr.simps) (simp add: step(2))
  moreover have "page_aligned (pf_current s1)" using step(3) by (simp add: bump_wf_def)
  ultimately show ?case using step(4) by simp
qed

lemma alloc_run_map:
  assumes "bump_wf s" and "alloc_run MMU_pf_alloc n s = Inr (fs, s')"
  shows "pf_map s' = pf_map s"
  using assms
proof (induction n arbitrary: s fs)
  case (Suc n)
  then obtain f s1 gs where a: "MMU_pf_alloc s = Inr (f, s1)" and r: "alloc_run MMU_pf_alloc n s1 = Inr (gs, s')"
    by (auto simp: res_iff)
  have "pf_map s1 = pf_map s" using MMU_pf_alloc_frame [OF Suc.prems(1) a] by auto
  moreover have "bump_wf s1" using MMU_pf_alloc_wf [OF Suc.prems(1) a] by blast
  ultimately show ?case using Suc.IH r by simp
qed simp

lemma MMU_init_inv:
  assumes "map_wf (pf_map s)"
  shows "\<exists>s'. MMU_init_pf_alloc s = Inr s' \<and> pf_inv s' {} [] \<and> pf_map s' = pf_map s"
  using assms map_wfD(1,2) [OF assms]
  by (auto simp: MMU_init_pf_alloc_def region_at_def pf_inv_def bump_wf_def has_region_def bump_used_def)

section \<open>Properties\<close>

text \<open>The pool is used up before the bump pointer moves, and the bump pointer only hands out usable frames.\<close>

lemma alloc_run_frames:
  assumes "pf_inv s A F" and "alloc_run MMU_pf_alloc n s = Inr (fs, s')" and "has_region s'"
  shows "\<forall>f \<in> set fs. f \<in> set F \<or> frame_usable (pf_map s) f"
  using assms
proof (induction n arbitrary: s fs A F)
  case (Suc n)
  then obtain f s1 gs where a: "MMU_pf_alloc s = Inr (f, s1)" and r: "alloc_run MMU_pf_alloc n s1 = Inr (gs, s')"
    and fs: "fs = f # gs" by (auto simp: res_iff)
  have "bump_wf s1" using MMU_pf_alloc_wf [OF pf_invD(1) [OF Suc.prems(1)] a] by simp
  then have live: "has_region s1" using pfa.alloc_run_wf [OF _ r] Suc.prems(3) by simp
  note i = MMU_pf_alloc_inv [OF Suc.prems(1) a live]
  then have i1: "pf_inv s1 (insert f A) (tl F)" by blast
  from Suc.IH [OF i1 r Suc.prems(3)] i fs show ?case
    by (cases F) (auto split: if_splits)
qed simp

text \<open>
  When the ends of the regions and the starts of the kernel and the boot information are on page boundaries, a usable
  frame is inside its region and apart from them as a whole. Otherwise only its first byte is: the allocator looks
  no further.
\<close>

definition map_on_pages :: "memory_map \<Rightarrow> bool" where
  "map_on_pages m \<longleftrightarrow> page_aligned (rg_start (mm_kernel m)) \<and> page_aligned (rg_start (mm_multiboot m)) \<and>
     (\<forall>i < unat (mm_num_regions m). page_aligned (rg_end (mm_regions m ! i)))"

definition byte_usable :: "memory_map \<Rightarrow> u64 \<Rightarrow> bool" where
  "byte_usable m a \<longleftrightarrow> \<not> in_region a (mm_kernel m) \<and> \<not> in_region a (mm_multiboot m) \<and>
     list_ex (in_region a) (take (unat (mm_num_regions m)) (mm_regions m))"

lemma aligned_above:
  fixes f b x :: nat
  assumes "f mod 4096 = 0" and "b mod 4096 = 0" and "f < b" and "x < 4096"
  shows "f + x < b"
proof -
  obtain i j where "f = 4096 * i" "b = 4096 * j" using assms(1,2) by (metis mod_0_imp_dvd dvdE)
  with assms(3,4) show ?thesis by simp
qed

lemma frame_bytes_usable:
  assumes wf: "map_wf m" and pg: "map_on_pages m" and f: "frame_usable m f" and a: "page_base a = f"
  shows "byte_usable m a"
proof -
  note w = map_wfD [OF wf]
  note o = owned_bounds [OF wf usable_owned [OF f]]
  define x where "x = unat a mod 4096"
  have ua: "unat a = unat f + x" and x: "x < 4096"
    using unat_page_base [of a] a div_mult_mod_eq [of "unat a" 4096] by (simp_all add: x_def)
  have fm: "unat f mod 4096 = 0" using o(2) by (simp add: page_aligned_unat)
  have out: "\<not> in_region a r" if r: "region_wf r" "page_aligned (rg_start r)" "\<not> in_region f r" for r
  proof
    assume "in_region a r"
    then have "unat (rg_start r) \<le> unat f + x" "unat f + x < unat (rg_end r)"
      using r(1) by (simp_all add: in_region_wf word_le_nat_alt word_less_nat_alt ua)
    moreover from r have "unat f < unat (rg_start r) \<or> unat (rg_end r) \<le> unat f"
      by (auto simp: in_region_wf word_le_nat_alt word_less_nat_alt)
    ultimately have "unat f < unat (rg_start r)" "unat (rg_start r) \<le> unat f + x" by linarith+
    with aligned_above [OF fm _ _ x, of "unat (rg_start r)"] r(2) show False by (simp add: page_aligned_unat)
  qed
  from f obtain i where i: "i < unat (mm_num_regions m)" "in_region f (mm_regions m ! i)"
    using w(1,3) by (auto simp: frame_usable_def list_ex_iff in_set_conv_nth)
  have r: "region_wf (mm_regions m ! i)" using w(3,6) i(1) by simp
  have "unat f < unat (rg_end (mm_regions m ! i))" using i(2) r by (simp add: in_region_wf word_less_nat_alt)
  moreover have "unat (rg_end (mm_regions m ! i)) mod 4096 = 0" using pg i(1) by (simp add: map_on_pages_def page_aligned_unat)
  ultimately have "unat a < unat (rg_end (mm_regions m ! i))" using aligned_above [OF fm _ _ x] ua by simp
  then have "in_region a (mm_regions m ! i)"
    using i(2) r ua by (auto simp: in_region_wf word_less_nat_alt word_le_nat_alt)
  then have "list_ex (in_region a) (take (unat (mm_num_regions m)) (mm_regions m))"
    using i(1) w(1,3) by (auto simp: list_ex_iff in_set_conv_nth intro!: bexI [of _ "mm_regions m ! i"] exI [of _ i])
  then show ?thesis
    using out [OF w(4)] out [OF w(5)] pg f by (simp add: byte_usable_def map_on_pages_def frame_usable_def)
qed

text \<open>
  C6: While memory is left, any number of allocations in a row hands out pairwise different frames, none of which was
  in use before. Each was given back before, or it starts on a page boundary in a usable region and outside the
  kernel image and the boot information; and when these ranges are cut at page boundaries, that holds for every byte of
  the frame, not only for the first one, which is the one the allocator looks at.
\<close>

theorem pf_alloc_frames_fresh_and_usable:
  assumes "pf_inv s A F" and "alloc_run MMU_pf_alloc n s = Inr (fs, s')" and "has_region s'"
  shows "length fs = n \<and> distinct fs \<and> set fs \<inter> A = {} \<and> list_all page_aligned fs \<and>
     (\<forall>f \<in> set fs - set F. frame_usable (pf_map s) f \<and>
        (map_on_pages (pf_map s) \<longrightarrow> (\<forall>a. page_base a = f \<longrightarrow> byte_usable (pf_map s) a)))"
proof -
  have inv: "frames_inv s A" using assms(1) by (auto simp: frames_inv_def)
  note fr = pfa.alloc_run_fresh [OF inv assms(2,3)]
  note wf = pf_invD(4) [OF assms(1)]
  have "frame_owned (pf_map s') f" if "f \<in> set fs" for f
    using fr that by (auto simp: frames_inv_def pf_inv_def)
  then have "page_aligned f" if "f \<in> set fs" for f
    using that owned_bounds(2) [OF wf] alloc_run_map [OF pf_invD(1) [OF assms(1)] assms(2)] by metis
  with fr alloc_run_frames [OF assms] frame_bytes_usable [OF wf] show ?thesis
    by (auto simp: list_all_iff)
qed

definition map_example :: memory_map where
  "map_example =
     \<lparr>mm_kernel = \<lparr>rg_start = 0x100000, rg_end = 0x102000\<rparr>,
      mm_multiboot = \<lparr>rg_start = 0x104000, rg_end = 0x104100\<rparr>,
      mm_regions = [\<lparr>rg_start = 0x100000, rg_end = 0x106000\<rparr>] @ replicate 63 \<lparr>rg_start = 0, rg_end = 0\<rparr>,
      mm_num_regions = 1, mm_elf_tag = NULL\<rparr>"

definition pf_example :: "u64 \<Rightarrow> pf_state" where
  "pf_example c = \<lparr>pf_mem = (\<lambda>_. 0), pf_map = map_example, pf_free_pool = NULL, pf_current = c,
     pf_region = 0\<rparr>"

lemma map_example_wf: "map_wf map_example"
  by (simp add: map_wf_def map_example_def region_wf_def MAX_REGIONS_def align_page_def PAGE_SIZE_def
      list_all_iff)

lemma pf_example_inv: "page_aligned c \<Longrightarrow> pf_inv (pf_example c) {} []"
  using map_example_wf
  by (simp add: pf_inv_def bump_wf_def has_region_def bump_used_def pf_example_def map_example_def)

lemmas pf_example_eval = MMU_pf_alloc_def pop_free_pf_def check_addr.simps enter_region_def region_at_def
  in_region_def range_contains_addr_def pf_example_def map_example_def align_page_def PAGE_SIZE_def
  Let_def

theorem pf_alloc_frames_fresh_and_usable_witness:
  "alloc_run MMU_pf_alloc 3 (pf_example 0x100000) =
     Inr ([0x102000, 0x103000, 0x105000], pf_example 0x106000) \<and>
   byte_usable map_example 0x103abc"
proof -
  have r: "alloc_run MMU_pf_alloc 3 (pf_example 0x100000) =
     Inr ([0x102000, 0x103000, 0x105000], pf_example 0x106000)"
    by (simp add: numeral_3_eq_3 pf_example_eval)
  have "pf_inv (pf_example 0x100000) {} []"
    by (rule pf_example_inv) (simp add: page_aligned_def PAGE_SIZE_def)
  note p = pf_alloc_frames_fresh_and_usable [OF this r]
  have "map_on_pages map_example" by (simp add: map_on_pages_def map_example_def page_aligned_def PAGE_SIZE_def)
  moreover have "has_region (pf_example 0x106000)" by (simp add: has_region_def pf_example_def map_example_def)
  moreover have "page_base 0x103abc = 0x103000" by (simp add: page_base_def PAGE_SIZE_def)
  moreover have "pf_map (pf_example c) = map_example" for c by (simp add: pf_example_def)
  ultimately have "byte_usable map_example 0x103abc" using p by auto
  with r show ?thesis by blast
qed

text \<open>
  C7: On a well-formed memory map \<^verbatim>\<open>MMU_pf_alloc\<close> always ends: the jump back to
  \<^verbatim>\<open>check_addr\<close> is taken finitely often, the region array is never read out of bounds, and
  the call returns a page aligned address or panics.
\<close>

theorem MMU_pf_alloc_ends:
  assumes "bump_wf s" and "pf_free_pool s = NULL"
  shows "MMU_pf_alloc s = Inl OutOfMemory \<or> (\<exists>f s'. MMU_pf_alloc s = Inr (f, s') \<and> page_aligned f)"
  using check_addr_outcome [OF assms(1)] assms(2)
  by (auto simp: MMU_pf_alloc_def pop_free_pf_def)

theorem MMU_pf_alloc_ends_witness:
  "MMU_pf_alloc (pf_example 0x104000) \<noteq> Inl Diverge"
proof -
  have "bump_wf (pf_example 0x104000)"
    using pf_example_inv [of "0x104000"] by (simp add: pf_inv_def page_aligned_def PAGE_SIZE_def)
  from MMU_pf_alloc_ends [OF this] show ?thesis by (auto simp: pf_example_def)
qed

text \<open>
  C12: Running out of memory is noticed one frame late: after the last usable region the
  index steps to the unused array entry that follows it, which is zero, and the allocator
  hands out frame 0 although no region holds it; only the call after that panics.
\<close>

theorem pf_alloc_exhausted_returns_zero:
  assumes "bump_wf s" and "pf_free_pool s = NULL"
    and "Suc (unat (pf_region s)) = unat (mm_num_regions (pf_map s))"
    and "\<not> in_region (pf_current s) (mm_regions (pf_map s) ! unat (pf_region s))"
    and "mm_regions (pf_map s) ! Suc (unat (pf_region s)) = \<lparr>rg_start = 0, rg_end = 0\<rparr>"
    and "\<not> in_region 0 (mm_multiboot (pf_map s))" and "\<not> in_region 0 (mm_kernel (pf_map s))"
  shows "\<exists>s'. MMU_pf_alloc s = Inr (0, s') \<and> MMU_pf_alloc s' = Inl OutOfMemory"
proof -
  have lt: "unat (mm_num_regions (pf_map s)) < 64" and len: "length (mm_regions (pf_map s)) = 64"
    using assms(1) map_wfD(1,3) by (auto simp: bump_wf_def)
  let ?s = "s\<lparr>pf_region := pf_region s + 1, pf_current := align_page 0\<rparr>"
  have a0: "align_page 0 = 0" by (simp add: align_page_def PAGE_SIZE_def)
  have i: "unat (pf_region s) < 64" using lt assms(3) by simp
  have inc: "unat (pf_region s + 1) = unat (mm_num_regions (pf_map s))"
    using i assms(3) by (simp add: unat_word_ariths)
  have e: "enter_region s = Inr ?s"
    using assms(3-5) i inc lt
    by (simp add: enter_region_def region_at_def len word_le_nat_alt Let_def)
  have c: "check_addr s = Some (Inr (0, ?s\<lparr>pf_current := PAGE_SIZE\<rparr>))"
    by (subst check_addr.simps) (simp add: e a0 assms(6,7))
  have "enter_region (?s\<lparr>pf_current := PAGE_SIZE\<rparr>) = Inl OutOfMemory"
    using lt inc assms(3,5)
    by (simp add: enter_region_def region_at_def len in_region_def range_contains_addr_def word_le_nat_alt)
  then have "check_addr (?s\<lparr>pf_current := PAGE_SIZE\<rparr>) = Some (Inl OutOfMemory)"
    by (subst check_addr.simps) simp
  with c assms(2) show ?thesis by (auto simp: MMU_pf_alloc_def pop_free_pf_def)
qed

theorem pf_alloc_exhausted_returns_zero_witness:
  "\<exists>s'. MMU_pf_alloc (pf_example 0x106000) = Inr (0, s') \<and> MMU_pf_alloc s' = Inl OutOfMemory"
proof -
  have "bump_wf (pf_example 0x106000)"
    using pf_example_inv [of "0x106000"] by (simp add: pf_inv_def page_aligned_def PAGE_SIZE_def)
  from pf_alloc_exhausted_returns_zero [OF this] show ?thesis
    by (simp add: pf_example_def map_example_def in_region_def range_contains_addr_def)
qed

text \<open>
  Freeing a frame by any address in it and allocating again gives that frame back and
  restores the allocator; only the first cell of the frame has changed.
\<close>

theorem pf_free_then_alloc:
  assumes "pf_inv s A F" and "page_base a \<in> A"
  shows "MMU_pf_alloc (MMU_pf_free a s) =
           Inr (page_base a, s\<lparr>pf_mem := (pf_mem s)(page_base a := pf_free_pool s)\<rparr>)"
proof -
  note i = pf_invD [OF assms(1)]
  have nn: "GET_VIRT_ADDR (page_base a) \<noteq> NULL"
    using owned_bounds(3) [OF i(4) i(5) [OF assms(2)]] .
  have "MMU_pf_free a s = MMU_pf_free (page_base a) s"
    by (simp add: MMU_pf_free_def page_base_def)
  then have "MMU_pf_free a s =
      s\<lparr>pf_mem := (pf_mem s)(page_base a := pf_free_pool s), pf_free_pool := GET_VIRT_ADDR (page_base a)\<rparr>"
    by (simp add: MMU_pf_free_eq)
  with nn show ?thesis by (simp add: MMU_pf_alloc_def pop_free_pf_def dm_read_def)
qed

theorem pf_free_then_alloc_witness:
  "\<exists>s'. MMU_pf_alloc (MMU_pf_free 0x102008 (pf_example 0x103000)) = Inr (0x102000, s')"
proof -
  have "frame_usable map_example 0x102000"
    by (simp add: frame_usable_def map_example_def in_region_def range_contains_addr_def
        page_aligned_def PAGE_SIZE_def)
  then have "pf_inv (pf_example 0x103000) {0x102000} []"
    using pf_example_inv [of "0x103000"]
    by (auto simp: pf_inv_def bump_used_def page_aligned_def PAGE_SIZE_def pf_example_def map_example_def frame_owned_def)
  moreover have "page_base 0x102008 = 0x102000" by (simp add: page_base_def PAGE_SIZE_def)
  ultimately show ?thesis using pf_free_then_alloc [of "pf_example 0x103000" "{0x102000}" "[]" "0x102008"]
    by simp
qed

end
