(* ===== verification/Page_Table.thy ===== *)
theory Page_Table
  imports Pf_Alloc "HOL-Library.Sublist"
begin

text \<open>
  Four level page tables (\<^verbatim>\<open>mem/page_table.c\<close>): mapping a page or a range, looking up an
  entry, demand paging in the page fault handler, and releasing the frame of an address.
  Tables live in physical memory and are reached through the direct map; an entry is the 64
  bit word the hardware sees, and the bit fields of \<^verbatim>\<open>pt_entry_t\<close> are read and written with
  masks.
\<close>

section \<open>Entries\<close>

definition PAGE_PRESENT :: u64 where "PAGE_PRESENT = 0x1"
definition PAGE_WRITABLE :: u64 where "PAGE_WRITABLE = 0x2"
definition PAGE_USER_ACCESS :: u64 where "PAGE_USER_ACCESS = 0x4"
definition PAGE_ALLOCATED :: u64 where "PAGE_ALLOCATED = 0x200"
definition PAGE_NO_EXECUTE :: u64 where "PAGE_NO_EXECUTE = 0x8000000000000000"

text \<open>The fields of \<^verbatim>\<open>pt_entry_t\<close>: single bits, and \<^verbatim>\<open>base_addr\<close>, 40 bits from bit 12 on.\<close>

definition pte_present :: "u64 \<Rightarrow> bool" where "pte_present e = bit e 0"
definition pte_huge :: "u64 \<Rightarrow> bool" where "pte_huge e = bit e 7"
definition pte_allocated :: "u64 \<Rightarrow> bool" where "pte_allocated e = bit e 9"

definition pte_base_addr :: "u64 \<Rightarrow> u64" where
  "pte_base_addr e = drop_bit 12 e AND mask 40"

definition pte_set_base_addr :: "u64 \<Rightarrow> u64 \<Rightarrow> u64" where
  "pte_set_base_addr b e = (e AND NOT (push_bit 12 (mask 40))) OR push_bit 12 (b AND mask 40)"

text \<open>The index fields of \<^verbatim>\<open>pt_index_t\<close>.\<close>

definition pt_index :: "u64 \<Rightarrow> u64" where "pt_index v = drop_bit 12 v AND 0x1FF"
definition pd_index :: "u64 \<Rightarrow> u64" where "pd_index v = drop_bit 21 v AND 0x1FF"
definition pdp_index :: "u64 \<Rightarrow> u64" where "pdp_index v = drop_bit 30 v AND 0x1FF"
definition pml4_index :: "u64 \<Rightarrow> u64" where "pml4_index v = drop_bit 39 v AND 0x1FF"

section \<open>State and operations\<close>

record mmu_state = pf_state +
  mu_pml4 :: ptr

definition entry_ptr :: "ptr \<Rightarrow> u64 \<Rightarrow> ptr" where
  "entry_ptr table i = table + 8 * i"

definition entry_to_table :: "ptr \<Rightarrow> u64 \<Rightarrow> 'a pf_state_scheme \<Rightarrow> ptr" where
  "entry_to_table parent i s =
     GET_VIRT_ADDR (push_bit 12 (pte_base_addr (dm_read (entry_ptr parent i) s)))"

text \<open>\<^verbatim>\<open>memset(p, 0, sizeof(page_table_t))\<close>, which does nothing when \<open>p\<close> is \<open>NULL\<close>.\<close>

definition memset_table :: "ptr \<Rightarrow> 'a pf_state_scheme \<Rightarrow> 'a pf_state_scheme" where
  "memset_table p s =
     (if p = NULL then s
      else s\<lparr>pf_mem := (\<lambda>a. if a - GET_PHYS_ADDR p < PAGE_SIZE then 0 else pf_mem s a)\<rparr>)"

definition allocate_table :: "'a pf_state_scheme \<Rightarrow> (u64 \<times> 'a pf_state_scheme) res" where
  "allocate_table s =
     bind_res (MMU_pf_alloc s) (\<lambda>(table_addr, s).
       Inr (table_addr, memset_table (GET_VIRT_ADDR table_addr) s))"

definition get_or_alloc_table ::
  "ptr \<Rightarrow> u64 \<Rightarrow> u64 \<Rightarrow> 'a pf_state_scheme \<Rightarrow> (ptr \<times> 'a pf_state_scheme) res" where
  "get_or_alloc_table parent i flags s =
     bind_res
       (if \<not> pte_present (dm_read (entry_ptr parent i) s) then
          bind_res (allocate_table s) (\<lambda>(table_addr, s).
            let e = dm_read (entry_ptr parent i) s;
                e = pte_set_base_addr (drop_bit 12 table_addr) e;
                e = set_bit 0 e;
                e = (if flags AND PAGE_WRITABLE \<noteq> 0 then set_bit 1 e else e);
                e = (if flags AND PAGE_USER_ACCESS \<noteq> 0 then set_bit 2 e else e)
            in Inr (dm_write (entry_ptr parent i) e s))
        else Inr s)
       (\<lambda>s. Inr (entry_to_table parent i s, s))"

definition map_page :: "u64 \<Rightarrow> u64 \<Rightarrow> u64 \<Rightarrow> 'a mmu_state_scheme \<Rightarrow> 'a mmu_state_scheme res" where
  "map_page virt_addr phys_addr flags s =
     (if virt_addr = NULL then Inr s
      else
        bind_res (get_or_alloc_table (mu_pml4 s) (pml4_index virt_addr) flags s) (\<lambda>(pdp, s).
        bind_res (get_or_alloc_table pdp (pdp_index virt_addr) flags s) (\<lambda>(pd, s).
        bind_res (get_or_alloc_table pd (pd_index virt_addr) flags s) (\<lambda>(pt, s).
          Inr (dm_write (entry_ptr pt (pt_index virt_addr)) (phys_addr OR flags) s)))))"

text \<open>The loop of \<^verbatim>\<open>map_range\<close> from \<open>vcurrent\<close> on. \<open>None\<close>: the address wraps and it never ends.\<close>

partial_function (option) map_range_loop ::
  "u64 \<Rightarrow> u64 \<Rightarrow> u64 \<Rightarrow> u64 \<Rightarrow> 'a mmu_state_scheme \<Rightarrow> 'a mmu_state_scheme res option" where
  "map_range_loop vend vcurrent pcurrent flags s =
     (if vcurrent < vend then
        (case map_page vcurrent pcurrent flags s of
           Inl e \<Rightarrow> Some (Inl e)
         | Inr s \<Rightarrow> map_range_loop vend (vcurrent + PAGE_SIZE) (pcurrent + PAGE_SIZE) flags s)
      else Some (Inr s))"

definition map_range :: "u64 \<Rightarrow> u64 \<Rightarrow> u64 \<Rightarrow> u64 \<Rightarrow> 'a mmu_state_scheme \<Rightarrow> 'a mmu_state_scheme res" where
  "map_range pstart vstart len flags s =
     (case map_range_loop (vstart + len) vstart pstart flags s of
        None \<Rightarrow> Inl Diverge | Some r \<Rightarrow> r)"

record permission =
  perm_w :: bool
  perm_x :: bool

definition user_allocate_range ::
  "u64 \<Rightarrow> u64 \<Rightarrow> permission \<Rightarrow> 'a mmu_state_scheme \<Rightarrow> 'a mmu_state_scheme res" where
  "user_allocate_range start len perms s =
     (let flags = 0;
          flags = flags OR PAGE_ALLOCATED;
          flags = flags OR PAGE_USER_ACCESS;
          flags = (if perm_w perms then flags OR PAGE_WRITABLE else flags);
          flags = (if \<not> perm_x perms then flags OR PAGE_NO_EXECUTE else flags)
      in map_range 0 start len flags s)"

definition get_page_frame :: "u64 \<Rightarrow> 'a mmu_state_scheme \<Rightarrow> ptr" where
  "get_page_frame addr s =
     (let pdp = entry_to_table (mu_pml4 s) (pml4_index addr) s
      in if pdp = NULL then NULL
         else
           let pd = entry_to_table pdp (pdp_index addr) s
           in if pd = NULL then NULL
              else
                let pt = entry_to_table pd (pd_index addr) s
                in if pt = NULL then NULL else entry_ptr pt (pt_index addr))"

text \<open>
  The page fault handler at the faulting address \<open>page\<close> (\<^verbatim>\<open>cr2\<close>). It halts the machine when the
  entry does not carry the allocated mark.
\<close>

definition page_fault_handler :: "u64 \<Rightarrow> 'a mmu_state_scheme \<Rightarrow> 'a mmu_state_scheme res" where
  "page_fault_handler page s =
     (let entry = get_page_frame page s
      in if entry \<noteq> NULL \<and> pte_allocated (dm_read entry s) then
           bind_res (MMU_pf_alloc s) (\<lambda>(pf, s).
             let e = dm_read entry s;
                 e = pte_set_base_addr (drop_bit 12 pf) e;
                 e = set_bit 0 e;
                 e = unset_bit 9 e
             in Inr (dm_write entry e s))
         else Inl HaltLoop)"

definition free_pf_from_virtual_addr :: "u64 \<Rightarrow> 'a mmu_state_scheme \<Rightarrow> int \<times> 'a mmu_state_scheme" where
  "free_pf_from_virtual_addr addr s =
     (let entry = get_page_frame addr s
      in if entry = NULL then (-1, s)
         else
           let e = dm_read entry s;
               page_frame = push_bit 12 (pte_base_addr e)
           in if pte_present e then
                let s = MMU_pf_free page_frame s
                in (1, dm_write entry (unset_bit 0 (dm_read entry s)) s)
              else (1, dm_write entry (unset_bit 9 e) s))"

text \<open>The flags \<^verbatim>\<open>user_allocate_range\<close> computes.\<close>

definition user_flags :: "permission \<Rightarrow> u64" where
  "user_flags perms =
     (let flags = PAGE_ALLOCATED OR PAGE_USER_ACCESS;
          flags = (if perm_w perms then flags OR PAGE_WRITABLE else flags)
      in if \<not> perm_x perms then flags OR PAGE_NO_EXECUTE else flags)"

section \<open>Entry fields\<close>

lemma mask40_bit: "bit (mask 40 :: u64) n \<longleftrightarrow> n < 40"
  by (auto simp: bit_mask_iff)

lemma pte_base_of_set:
  "pte_base_addr (pte_set_base_addr b e) = b AND mask 40"
  by (rule bit_eqI) (auto simp: pte_base_addr_def pte_set_base_addr_def bit_simps)

lemma pte_set_base_flags:
  "n < 12 \<Longrightarrow> bit (pte_set_base_addr b e) n = bit e n"
  "n \<ge> 52 \<Longrightarrow> n < 64 \<Longrightarrow> bit (pte_set_base_addr b e) n = bit e n"
  by (auto simp: pte_set_base_addr_def bit_simps)

lemma pte_base_set_bit [simp]:
  "n < 12 \<Longrightarrow> pte_base_addr (set_bit n e) = pte_base_addr e"
  "n < 12 \<Longrightarrow> pte_base_addr (unset_bit n e) = pte_base_addr e"
  by (rule bit_eqI; auto simp: pte_base_addr_def bit_simps)+

text \<open>A page aligned address below \<open>2^52\<close> survives being stored in the field.\<close>

lemma frame_roundtrip:
  assumes "page_aligned f" and "unat f < 2 ^ 52"
  shows "push_bit 12 (drop_bit 12 f AND mask 40) = f"
proof -
  have low: "\<not> bit f n" if "n < 12" for n
  proof -
    have "f AND mask 12 = 0" using assms(1) by (simp add: page_aligned_def page_mask)
    then have "\<not> bit (f AND mask 12) n" by simp
    with that show ?thesis by (simp add: bit_simps)
  qed
  have high: "\<not> bit f n" if "n \<ge> 52" for n
  proof -
    have "take_bit 52 f = f"
      using assms(2) by (simp add: word_unat_eq_iff unsigned_take_bit_eq take_bit_nat_eq_self_iff)
    then have "bit f n = bit (take_bit 52 f) n" by simp
    with that show ?thesis by (simp add: bit_take_bit_iff)
  qed
  show ?thesis
  proof (rule bit_eqI)
    fix n
    assume "possible_bit TYPE(64 word) n"
    then have "n < 64" by simp
    with low [of n] high [of n] show "bit (push_bit 12 (drop_bit 12 f AND mask 40)) n = bit f n"
      by (cases "n < 12"; cases "n \<ge> 52") (auto simp: bit_simps)
  qed
qed

lemma flag_bits:
  "flags AND PAGE_WRITABLE \<noteq> 0 \<longleftrightarrow> bit flags 1" "flags AND PAGE_USER_ACCESS \<noteq> 0 \<longleftrightarrow> bit flags 2"
  using and_exp_eq_0_iff_not_bit [of flags 1] and_exp_eq_0_iff_not_bit [of flags 2]
  by (simp_all add: PAGE_WRITABLE_def PAGE_USER_ACCESS_def)

section \<open>The tree of tables\<close>

text \<open>The table an interior entry points to, if it is present and not a huge page.\<close>

definition child :: "u64 \<Rightarrow> u64 option" where
  "child e = (if pte_present e \<and> \<not> pte_huge e then Some (push_bit 12 (pte_base_addr e)) else None)"

text \<open>The physical address of the table at an index path below \<open>t\<close>.\<close>

fun tbl :: "(u64 \<Rightarrow> u64) \<Rightarrow> u64 \<Rightarrow> u64 list \<Rightarrow> u64 option" where
  "tbl m t [] = Some t"
| "tbl m t (i # p) = (case child (m (t + 8 * i)) of None \<Rightarrow> None | Some t' \<Rightarrow> tbl m t' p)"

definition vpath :: "u64 list \<Rightarrow> bool" where
  "vpath p \<longleftrightarrow> length p \<le> 3 \<and> list_all (\<lambda>i. i < 512) p"

lemma tbl_snoc:
  "tbl m t (p @ [i]) = (case tbl m t p of None \<Rightarrow> None | Some t' \<Rightarrow> child (m (t' + 8 * i)))"
  by (induction p arbitrary: t) (auto split: option.splits)

lemma tbl_append:
  "tbl m t (p @ q) = (case tbl m t p of None \<Rightarrow> None | Some t' \<Rightarrow> tbl m t' q)"
  by (induction p arbitrary: t) (auto split: option.splits)

lemma vpath_snoc: "vpath (p @ [i]) \<longleftrightarrow> length p \<le> 2 \<and> vpath p \<and> i < 512"
  by (auto simp: vpath_def)

lemma vpath_Nil [simp]: "vpath []"
  by (simp add: vpath_def)

text \<open>
  The tables are frames that are handed out, no two paths lead to the same table, and no
  entry outside the direct map (index 256 of the top table) marks a huge page.
\<close>

definition pt_ok :: "(u64 \<Rightarrow> u64) \<Rightarrow> u64 \<Rightarrow> u64 set \<Rightarrow> bool" where
  "pt_ok m root A \<longleftrightarrow>
     (\<forall>p t. vpath p \<longrightarrow> tbl m root p = Some t \<longrightarrow> t \<in> A) \<and>
     (\<forall>p q t. vpath p \<longrightarrow> vpath q \<longrightarrow> tbl m root p = Some t \<longrightarrow> tbl m root q = Some t \<longrightarrow> p = q) \<and>
     (\<forall>p t i. vpath (p @ [i]) \<longrightarrow> (p = [] \<or> hd p \<noteq> 256) \<longrightarrow> tbl m root p = Some t \<longrightarrow>
        \<not> pte_huge (m (t + 8 * i)))"

lemma pt_okD:
  assumes "pt_ok m root A"
  shows "vpath p \<Longrightarrow> tbl m root p = Some t \<Longrightarrow> t \<in> A"
    and "vpath p \<Longrightarrow> vpath q \<Longrightarrow> tbl m root p = Some t \<Longrightarrow> tbl m root q = Some t \<Longrightarrow> p = q"
    and "vpath (p @ [i]) \<Longrightarrow> p = [] \<or> hd p \<noteq> 256 \<Longrightarrow> tbl m root p = Some t \<Longrightarrow>
      \<not> pte_huge (m (t + 8 * i))"
  using assms unfolding pt_ok_def by blast+

text \<open>Cells of tables do not overlap.\<close>

definition frame_like :: "u64 \<Rightarrow> bool" where
  "frame_like t \<longleftrightarrow> page_aligned t \<and> unat t < 2 ^ 46"

lemma unat_cell: "frame_like t \<Longrightarrow> i < 512 \<Longrightarrow> unat (t + 8 * i) = unat t + 8 * unat i"
  by (simp add: frame_like_def unat_word_ariths word_less_nat_alt)

lemma cell_arith:
  fixes a b x y :: nat
  assumes "4096 * a + 8 * x = 4096 * b + 8 * y" and "x < 512" and "y < 512"
  shows "a = b \<and> x = y"
proof -
  have "a < b + 1" "b < a + 1" using assms by linarith+
  then have "a = b" by simp
  with assms(1) show ?thesis by simp
qed

lemma cell_inj:
  assumes "frame_like t" and "frame_like t'" and "i < 512" and "j < 512"
  shows "t + 8 * i = t' + 8 * j \<longleftrightarrow> t = t' \<and> i = j"
proof
  assume "t + 8 * i = t' + 8 * j"
  then have eq: "unat t + 8 * unat i = unat t' + 8 * unat j"
    using unat_cell assms by metis
  obtain a b where ab: "unat t = 4096 * a" "unat t' = 4096 * b"
    using assms(1,2) by (metis frame_like_def page_aligned_unat mod_0_imp_dvd dvdE)
  have "unat i < 512" "unat j < 512" using assms(3,4) by (simp_all add: word_less_nat_alt)
  with eq ab have "a = b \<and> unat i = unat j" by (intro cell_arith) simp_all
  with ab show "t = t' \<and> i = j" by (simp add: word_unat_eq_iff)
qed simp

lemma cell_in_page:
  assumes "frame_like t" and "frame_like f" and "i < 512"
  shows "t + 8 * i - f < PAGE_SIZE \<longleftrightarrow> t = f"
proof
  assume lt: "t + 8 * i - f < PAGE_SIZE"
  obtain a b where ab: "unat t = 4096 * a" "unat f = 4096 * b"
    using assms(1,2) by (metis frame_like_def page_aligned_unat mod_0_imp_dvd dvdE)
  have i: "unat i < 512" using assms(3) by (simp add: word_less_nat_alt)
  have le: "unat f \<le> unat (t + 8 * i)"
  proof (rule ccontr)
    assume n: "\<not> ?thesis"
    have "unat (t + 8 * i - f) = unat (t + 8 * i) + 2 ^ 64 - unat f"
      unfolding unat_sub_if_size [of "t + 8 * i" f] word_size by (simp only: n if_False) simp
    moreover have "unat f < 2 ^ 46" using assms(2) by (simp add: frame_like_def)
    ultimately show False using lt by (simp add: word_less_nat_alt PAGE_SIZE_def)
  qed
  then have "unat (t + 8 * i - f) = unat t + 8 * unat i - unat f"
    using unat_cell [OF assms(1,3)] by (simp add: unat_sub word_le_nat_alt)
  then have "unat t + 8 * unat i - unat f < 4096"
    using lt by (simp add: word_less_nat_alt PAGE_SIZE_def)
  then have "unat t + 8 * unat i < 4096 + unat f" "unat f \<le> unat t + 8 * unat i"
    using le unfolding unat_cell [OF assms(1,3)] by simp_all
  with ab i have "a < b + 1" "b < a + 1" by linarith+
  then have "a = b" by simp
  with ab show "t = f" by (simp add: word_unat_eq_iff)
next
  assume "t = f"
  moreover have "unat (8 * i) < 4096" using assms(3) by (simp add: unat_word_ariths word_less_nat_alt)
  ultimately show "t + 8 * i - f < PAGE_SIZE" by (simp add: word_less_nat_alt PAGE_SIZE_def)
qed

text \<open>Memories that agree on the interior cells of the tables have the same tables.\<close>

lemma tbl_agree:
  assumes "vpath q"
    and "\<And>p t i. vpath (p @ [i]) \<Longrightarrow> tbl m root p = Some t \<Longrightarrow> prefix (p @ [i]) q \<Longrightarrow>
      m' (t + 8 * i) = m (t + 8 * i)"
  shows "tbl m' root q = tbl m root q"
  using assms
proof (induction q rule: rev_induct)
  case (snoc i q)
  have "tbl m' root q = tbl m root q"
    using snoc.prems by (intro snoc.IH) (auto simp: vpath_snoc)
  with snoc.prems(2) [of q i] snoc.prems(1) show ?case
    by (auto simp: tbl_snoc split: option.splits)
qed simp

section \<open>The map from pages to entries\<close>

text \<open>
  What the tables say, as a function of the virtual address: the entry of its page, or 0
  when a table on the way is missing. This is the abstract state the operations refine.
\<close>

definition table_path :: "u64 \<Rightarrow> u64 list" where
  "table_path v = [pml4_index v, pdp_index v, pd_index v]"

definition eff_pte :: "(u64 \<Rightarrow> u64) \<Rightarrow> u64 \<Rightarrow> u64 \<Rightarrow> u64" where
  "eff_pte m root v =
     (case tbl m root (table_path v) of None \<Rightarrow> 0 | Some t \<Rightarrow> m (t + 8 * pt_index v))"

definition same_page :: "u64 \<Rightarrow> u64 \<Rightarrow> bool" where
  "same_page v w \<longleftrightarrow> table_path v = table_path w \<and> pt_index v = pt_index w"

definition pt_root :: "'a mmu_state_scheme \<Rightarrow> u64" where
  "pt_root s = GET_PHYS_ADDR (mu_pml4 s)"

definition mmu_inv :: "'a mmu_state_scheme \<Rightarrow> u64 set \<Rightarrow> u64 list \<Rightarrow> bool" where
  "mmu_inv s A F \<longleftrightarrow> pf_inv s A F \<and> pt_ok (pf_mem s) (pt_root s) A"

lemma index_less: "w AND 0x1FF < (512 :: u64)"
proof -
  have "w AND 0x1FF \<le> 0x1FF" by (rule word_and_le1)
  then show ?thesis by (rule order.strict_trans1) simp
qed

lemma index_less_512 [simp]:
  "pt_index v < 512" "pd_index v < 512" "pdp_index v < 512" "pml4_index v < 512"
  by (simp_all add: pt_index_def pd_index_def pdp_index_def pml4_index_def index_less)

lemma vpath_table_path [simp]: "vpath (table_path v)" "length (table_path v) = 3"
  by (simp_all add: vpath_def table_path_def)

lemma mmu_inv_frames:
  assumes "mmu_inv s A F" and "f \<in> A \<union> set F"
  shows "frame_like f"
proof -
  from assms(1) have i: "pf_inv s A F" by (simp add: mmu_inv_def)
  have "frame_owned (pf_map s) f" using pf_invD(5,6) [OF i] assms(2) by blast
  from owned_bounds [OF pf_invD(4) [OF i] this] show ?thesis by (simp add: frame_like_def)
qed

lemma child_zero [simp]: "child 0 = None"
  by (simp add: child_def pte_present_def)

text \<open>The entry \<^verbatim>\<open>get_or_alloc_table\<close> builds for a new table.\<close>

definition table_entry :: "u64 \<Rightarrow> u64 \<Rightarrow> u64 \<Rightarrow> u64" where
  "table_entry f flags e =
     (let e = pte_set_base_addr (drop_bit 12 f) e;
          e = set_bit 0 e;
          e = (if flags AND PAGE_WRITABLE \<noteq> 0 then set_bit 1 e else e)
      in if flags AND PAGE_USER_ACCESS \<noteq> 0 then set_bit 2 e else e)"

lemma table_entry_child:
  assumes "frame_like f" and "\<not> pte_huge e"
  shows "child (table_entry f flags e) = Some f" "\<not> pte_huge (table_entry f flags e)"
proof -
  have "unat f < 2 ^ 52" using assms(1) by (simp add: frame_like_def)
  then have rt: "push_bit 12 (drop_bit 12 f AND mask 40) = f"
    using assms(1) by (intro frame_roundtrip) (simp_all add: frame_like_def)
  have base: "pte_base_addr (table_entry f flags e) = drop_bit 12 f AND mask 40"
    by (simp add: table_entry_def Let_def pte_base_of_set)
  have h: "pte_huge (table_entry f flags e) = pte_huge e"
    by (simp add: table_entry_def Let_def pte_huge_def bit_simps pte_set_base_flags)
  have pr: "pte_present (table_entry f flags e)"
    by (simp add: table_entry_def Let_def pte_present_def bit_simps)
  show "child (table_entry f flags e) = Some f" "\<not> pte_huge (table_entry f flags e)"
    using assms(2) base h pr rt by (simp_all add: child_def)
qed

text \<open>Linking a fresh, zeroed table into a free slot.\<close>

definition link_table :: "(u64 \<Rightarrow> u64) \<Rightarrow> u64 \<Rightarrow> u64 \<Rightarrow> u64 \<Rightarrow> (u64 \<Rightarrow> u64)" where
  "link_table m f x e = (\<lambda>a. if a - f < PAGE_SIZE then 0 else m a)(x := e)"

definition fresh_link ::
  "(u64 \<Rightarrow> u64) \<Rightarrow> u64 \<Rightarrow> u64 set \<Rightarrow> u64 list \<Rightarrow> u64 \<Rightarrow> u64 \<Rightarrow> u64 \<Rightarrow> u64 \<Rightarrow> bool" where
  "fresh_link m root A p i t f e \<longleftrightarrow>
     pt_ok m root A \<and> (\<forall>g \<in> A. frame_like g) \<and> vpath (p @ [i]) \<and> hd (p @ [i]) \<noteq> 256 \<and>
     tbl m root p = Some t \<and> frame_like f \<and> f \<notin> A \<and> child (m (t + 8 * i)) = None \<and>
     child e = Some f \<and> \<not> pte_huge e"

lemma fresh_linkD:
  assumes "fresh_link m root A p i t f e"
  shows "pt_ok m root A" "g \<in> A \<Longrightarrow> frame_like g" "vpath (p @ [i])" "hd (p @ [i]) \<noteq> 256"
    "tbl m root p = Some t" "frame_like f" "f \<notin> A" "child (m (t + 8 * i)) = None"
    "child e = Some f" "\<not> pte_huge e" "t \<in> A" "vpath p" "i < 512" "frame_like t"
proof -
  show *: "pt_ok m root A" "g \<in> A \<Longrightarrow> frame_like g" "vpath (p @ [i])" "hd (p @ [i]) \<noteq> 256"
    "tbl m root p = Some t" "frame_like f" "f \<notin> A" "child (m (t + 8 * i)) = None"
    "child e = Some f" "\<not> pte_huge e"
    using assms by (auto simp: fresh_link_def)
  from *(3) show "vpath p" "i < 512" by (auto simp: vpath_snoc)
  with pt_okD(1) [OF *(1) _ *(5)] show "t \<in> A" by simp
  with assms show "frame_like t" by (simp add: fresh_link_def)
qed

lemma link_old_cell:
  assumes fl: "fresh_link m root A p i t f e"
    and q: "vpath (q @ [j])" "tbl m root q = Some u" and ne: "q @ [j] \<noteq> p @ [i]"
  shows "link_table m f (t + 8 * i) e (u + 8 * j) = m (u + 8 * j)"
proof -
  note d = fresh_linkD [OF fl]
  have u: "u \<in> A" "vpath q" "j < 512" using q pt_okD(1) [OF d(1) _ q(2)] by (auto simp: vpath_snoc)
  have "u + 8 * j \<noteq> t + 8 * i"
  proof
    assume "u + 8 * j = t + 8 * i"
    then have "u = t" "j = i" using cell_inj [OF d(2) [OF u(1)] d(14) u(3) d(13)] by auto
    then have "q = p" using pt_okD(2) [OF d(1) u(2) d(12) q(2)] d(5) by simp
    with ne \<open>j = i\<close> show False by simp
  qed
  moreover have "\<not> u + 8 * j - f < PAGE_SIZE"
    using cell_in_page [OF d(2) [OF u(1)] d(6) u(3)] u(1) d(7) by auto
  ultimately show ?thesis by (simp add: link_table_def)
qed

lemma link_new_cell:
  assumes fl: "fresh_link m root A p i t f e" and j: "j < 512"
  shows "link_table m f (t + 8 * i) e (f + 8 * j) = 0"
proof -
  note d = fresh_linkD [OF fl]
  have "f + 8 * j \<noteq> t + 8 * i"
    using cell_inj [OF d(6,14) j d(13)] d(11) d(7) by auto
  then show ?thesis using cell_in_page [OF d(6,6) j] by (simp add: link_table_def)
qed

lemma link_tbl_other:
  "fresh_link m root A p i t f e \<Longrightarrow> vpath q \<Longrightarrow> \<not> prefix (p @ [i]) q \<Longrightarrow>
   tbl (link_table m f (t + 8 * i) e) root q = tbl m root q"
  by (rule tbl_agree) (auto intro: link_old_cell)

lemma link_tbl_slot:
  assumes fl: "fresh_link m root A p i t f e"
  shows "tbl (link_table m f (t + 8 * i) e) root (p @ [i]) = Some f"
proof -
  note d = fresh_linkD [OF fl]
  have "\<not> prefix (p @ [i]) p" by (metis prefix_length_le length_append_singleton not_less_eq_eq order_refl)
  with link_tbl_other [OF fl d(12)] d(5,9) show ?thesis
    by (simp add: tbl_snoc link_table_def)
qed

lemma link_tbl:
  assumes fl: "fresh_link m root A p i t f e" and q: "vpath q"
  shows "tbl (link_table m f (t + 8 * i) e) root q =
     (if q = p @ [i] then Some f else if prefix (p @ [i]) q then None else tbl m root q)"
proof (cases "strict_prefix (p @ [i]) q")
  case True
  then obtain j r where qj: "q = (p @ [i]) @ j # r"
    by (metis append_Nil2 neq_Nil_conv prefixE strict_prefix_def)
  then have "j < 512" using q by (simp add: vpath_def)
  with link_tbl_slot [OF fl] link_new_cell [OF fl] have
    "tbl (link_table m f (t + 8 * i) e) root q = None"
    unfolding qj tbl_append by simp
  with True show ?thesis by (auto simp: strict_prefix_def)
next
  case False
  with link_tbl_slot [OF fl] link_tbl_other [OF fl q] show ?thesis
    by (auto simp: strict_prefix_def)
qed

lemma link_pt_ok:
  assumes fl: "fresh_link m root A p i t f e"
  shows "pt_ok (link_table m f (t + 8 * i) e) root (insert f A)" (is "pt_ok ?m root _")
  unfolding pt_ok_def
proof (intro conjI allI impI)
  note d = fresh_linkD [OF fl]
  fix q u assume "vpath q" "tbl ?m root q = Some u"
  then show "u \<in> insert f A" using pt_okD(1) [OF d(1)] by (auto simp: link_tbl [OF fl] split: if_splits)
next
  note d = fresh_linkD [OF fl]
  fix q r u assume "vpath q" "vpath r" "tbl ?m root q = Some u" "tbl ?m root r = Some u"
  then show "q = r"
    using pt_okD(1,2) [OF d(1)] d(7) by (auto simp: link_tbl [OF fl] split: if_splits)
next
  note d = fresh_linkD [OF fl]
  fix q u j assume q: "vpath (q @ [j])" "q = [] \<or> hd q \<noteq> 256" and u: "tbl ?m root q = Some u"
  have j: "j < 512" "vpath q" using q by (auto simp: vpath_snoc)
  show "\<not> pte_huge (?m (u + 8 * j))"
  proof (cases "q = p @ [i]")
    case True
    with u j(1) link_tbl_slot [OF fl] link_new_cell [OF fl] show ?thesis by (simp add: pte_huge_def)
  next
    case False
    with u link_tbl [OF fl j(2)] have old: "tbl m root q = Some u" by (auto split: if_splits)
    show ?thesis
    proof (cases "q @ [j] = p @ [i]")
      case True
      with old d(5,10) show ?thesis by (simp add: link_table_def)
    next
      case False
      with link_old_cell [OF fl q(1) old] pt_okD(3) [OF d(1) q old] show ?thesis by simp
    qed
  qed
qed

lemma link_eff_pte:
  assumes fl: "fresh_link m root A p i t f e"
  shows "eff_pte (link_table m f (t + 8 * i) e) root v = eff_pte m root v"
proof (cases "prefix (p @ [i]) (table_path v)")
  case True
  note d = fresh_linkD [OF fl]
  have "tbl m root (table_path v) = None"
    using True d(5,8) by (auto simp: tbl_append prefix_def)
  moreover have "tbl (link_table m f (t + 8 * i) e) root (table_path v) =
      (if table_path v = p @ [i] then Some f else None)"
    using True by (simp add: link_tbl [OF fl])
  ultimately show ?thesis by (simp add: eff_pte_def link_new_cell [OF fl])
next
  case False
  note d = fresh_linkD [OF fl]
  from False have same: "tbl (link_table m f (t + 8 * i) e) root (table_path v) = tbl m root (table_path v)"
    by (simp add: link_tbl_other [OF fl])
  show ?thesis
  proof (cases "tbl m root (table_path v)")
    case (Some u)
    have uA: "u \<in> A" using pt_okD(1) [OF d(1) _ Some] by simp
    have "u \<noteq> t"
      using pt_okD(2) [OF d(1) _ d(12) Some] d(5,3) vpath_table_path(2) [of v] by (auto simp: vpath_snoc)
    then have "u + 8 * pt_index v \<noteq> t + 8 * i"
      using cell_inj [OF d(2) [OF uA] d(14) _ d(13)] by simp
    moreover have "\<not> u + 8 * pt_index v - f < PAGE_SIZE"
      using cell_in_page [OF d(2) [OF uA] d(6)] uA d(7) by auto
    ultimately show ?thesis using Some same by (simp add: eff_pte_def link_table_def)
  qed (use same in \<open>simp add: eff_pte_def\<close>)
qed

section \<open>Access rights\<close>

text \<open>The entries on the way to the last table.\<close>

fun path_entries :: "(u64 \<Rightarrow> u64) \<Rightarrow> u64 \<Rightarrow> u64 list \<Rightarrow> u64 list" where
  "path_entries m t [] = []"
| "path_entries m t (i # p) =
     m (t + 8 * i) # (case child (m (t + 8 * i)) of None \<Rightarrow> [] | Some t' \<Rightarrow> path_entries m t' p)"

text \<open>
  What the processor allows at an address: the page is present and the entries on all four levels agree; a user program
  needs the user bit in each of them, a write the write bit, and code no set no-execute bit.
\<close>

definition grants :: "(u64 \<Rightarrow> bool) \<Rightarrow> (u64 \<Rightarrow> u64) \<Rightarrow> u64 \<Rightarrow> u64 \<Rightarrow> bool" where
  "grants P m root v \<longleftrightarrow> P (eff_pte m root v) \<and> list_all P (path_entries m root (table_path v))"

definition user_can :: "(u64 \<Rightarrow> u64) \<Rightarrow> u64 \<Rightarrow> u64 \<Rightarrow> bool" where
  "user_can m root v \<longleftrightarrow> pte_present (eff_pte m root v) \<and> grants (\<lambda>e. bit e 2) m root v"

definition can_write :: "(u64 \<Rightarrow> u64) \<Rightarrow> u64 \<Rightarrow> u64 \<Rightarrow> bool" where
  "can_write m root v \<longleftrightarrow> pte_present (eff_pte m root v) \<and> grants (\<lambda>e. bit e 1) m root v"

definition can_execute :: "(u64 \<Rightarrow> u64) \<Rightarrow> u64 \<Rightarrow> u64 \<Rightarrow> bool" where
  "can_execute m root v \<longleftrightarrow> pte_present (eff_pte m root v) \<and> grants (\<lambda>e. \<not> bit e 63) m root v"

lemma path_entries_all:
  assumes "\<And>p i u. prefix (p @ [i]) q \<Longrightarrow> tbl m t p = Some u \<Longrightarrow> P (m (u + 8 * i))"
  shows "list_all P (path_entries m t q)"
  using assms
proof (induction q arbitrary: t)
  case (Cons j q)
  have "P (m (t + 8 * j))" using Cons.prems [of "[]" j t] by simp
  moreover have "list_all P (path_entries m t' q)" if c: "child (m (t + 8 * j)) = Some t'" for t'
  proof (rule Cons.IH)
    fix p i u assume "prefix (p @ [i]) q" "tbl m t' p = Some u"
    with Cons.prems [of "j # p" i u] c show "P (m (u + 8 * i))" by simp
  qed
  ultimately show ?case by (simp split: option.splits)
qed simp

text \<open>
  No entry that leads to a table stops execution, and below the kernel's half of the addresses each is open to the user,
  for writing as well.
\<close>

definition open_entry :: "u64 \<Rightarrow> bool" where
  "open_entry e \<longleftrightarrow> bit e 1 \<and> bit e 2"

definition tables_open :: "(u64 \<Rightarrow> u64) \<Rightarrow> u64 \<Rightarrow> bool" where
  "tables_open m root \<longleftrightarrow>
     (\<forall>p i t. vpath (p @ [i]) \<longrightarrow> hd (p @ [i]) \<noteq> 256 \<longrightarrow> tbl m root p = Some t \<longrightarrow>
        \<not> bit (m (t + 8 * i)) 63 \<and> (hd (p @ [i]) < 256 \<longrightarrow> pte_present (m (t + 8 * i)) \<longrightarrow> open_entry (m (t + 8 * i))))"

lemma tables_openD:
  assumes "tables_open m root" and "vpath (p @ [i])" and "hd (p @ [i]) \<noteq> 256" and "tbl m root p = Some t"
  shows "\<not> bit (m (t + 8 * i)) 63" "hd (p @ [i]) < 256 \<Longrightarrow> pte_present (m (t + 8 * i)) \<Longrightarrow> open_entry (m (t + 8 * i))"
  using assms unfolding tables_open_def by blast+

lemma path_step:
  assumes q: "prefix (p @ [i]) (table_path v)" and t: "tbl m root (table_path v) = Some t" and u: "tbl m root p = Some u"
  shows "vpath (p @ [i])" "hd (p @ [i]) = pml4_index v" "pte_present (m (u + 8 * i))"
proof -
  from q obtain r where r: "table_path v = (p @ [i]) @ r" by (auto simp: prefix_def)
  have "length ((p @ [i]) @ r) = 3" "list_all (\<lambda>i. i < 512) ((p @ [i]) @ r)"
    using vpath_table_path [of v] unfolding r by (simp_all add: vpath_def)
  then show "vpath (p @ [i])" by (simp add: vpath_def)
  have "hd (table_path v) = hd (p @ [i])" unfolding r by (cases p) simp_all
  then show "hd (p @ [i]) = pml4_index v" by (simp add: table_path_def)
  have "tbl m root (p @ [i]) \<noteq> None"
  proof
    assume "tbl m root (p @ [i]) = None"
    then have "tbl m root (table_path v) = None" unfolding r tbl_append by simp
    with t show False by simp
  qed
  with u show "pte_present (m (u + 8 * i))" by (auto simp: tbl_snoc child_def split: if_splits)
qed

lemma tables_path_all:
  assumes o: "tables_open m root" and v: "pml4_index v \<noteq> 256" and t: "tbl m root (table_path v) = Some t"
  shows "list_all (\<lambda>e. \<not> bit e 63) (path_entries m root (table_path v))"
    and "pml4_index v < 256 \<Longrightarrow> list_all (\<lambda>e. bit e 1) (path_entries m root (table_path v))"
    and "pml4_index v < 256 \<Longrightarrow> list_all (\<lambda>e. bit e 2) (path_entries m root (table_path v))"
proof -
  have e: "\<not> bit (m (u + 8 * i)) 63 \<and> (pml4_index v < 256 \<longrightarrow> open_entry (m (u + 8 * i)))"
    if p: "prefix (p @ [i]) (table_path v)" and u: "tbl m root p = Some u" for p i u
    using tables_openD [OF o path_step(1) [OF p t u] _ u] path_step(2,3) [OF p t u] v by simp
  show "list_all (\<lambda>e. \<not> bit e 63) (path_entries m root (table_path v))" by (rule path_entries_all) (use e in blast)
  show "list_all (\<lambda>e. bit e 1) (path_entries m root (table_path v))" "list_all (\<lambda>e. bit e 2) (path_entries m root (table_path v))"
    if "pml4_index v < 256" using e that by (auto intro!: path_entries_all simp: open_entry_def)
qed

lemma grants_open:
  assumes "tables_open m root" and "pml4_index v \<noteq> 256" and "tbl m root (table_path v) = Some t"
  shows "grants (\<lambda>e. \<not> bit e 63) m root v \<longleftrightarrow> \<not> bit (eff_pte m root v) 63"
    and "pml4_index v < 256 \<Longrightarrow> grants (\<lambda>e. bit e 1) m root v \<longleftrightarrow> bit (eff_pte m root v) 1"
    and "pml4_index v < 256 \<Longrightarrow> grants (\<lambda>e. bit e 2) m root v \<longleftrightarrow> bit (eff_pte m root v) 2"
  using tables_path_all [OF assms] by (simp_all add: grants_def)

lemma eff_pte_tbl:
  assumes "eff_pte m root v \<noteq> 0"
  shows "\<exists>t. tbl m root (table_path v) = Some t"
  using assms by (auto simp: eff_pte_def split: option.splits)

lemma execute_open:
  assumes o: "tables_open m root" and v: "pml4_index v \<noteq> 256"
  shows "can_execute m root v \<longleftrightarrow> pte_present (eff_pte m root v) \<and> \<not> bit (eff_pte m root v) 63"
proof (cases "pte_present (eff_pte m root v)")
  case True
  then have "eff_pte m root v \<noteq> 0" by (auto simp: pte_present_def)
  with eff_pte_tbl grants_open(1) [OF o v] True show ?thesis by (auto simp: can_execute_def)
qed (simp add: can_execute_def)

lemma can_write_leaf: "can_write m root v \<Longrightarrow> pte_present (eff_pte m root v) \<and> bit (eff_pte m root v) 1"
  by (simp add: can_write_def grants_def)

text \<open>Making tables writes to frames that are in use only, and keeps them open if \<open>ok\<close>.\<close>

definition grows :: "bool \<Rightarrow> u64 set \<Rightarrow> u64 \<Rightarrow> (u64 \<Rightarrow> u64) \<Rightarrow> (u64 \<Rightarrow> u64) \<Rightarrow> bool" where
  "grows ok A root m m' \<longleftrightarrow> (\<forall>x. m' x \<noteq> m x \<longrightarrow> (\<exists>g \<in> A. x - g < PAGE_SIZE)) \<and> (ok \<longrightarrow> tables_open m root \<longrightarrow> tables_open m' root)"

lemma grows_refl [simp]: "grows ok A root m m"
  by (simp add: grows_def)

lemma grows_trans: "grows ok A root m m1 \<Longrightarrow> grows ok B root m1 m2 \<Longrightarrow> A \<subseteq> B \<Longrightarrow> grows ok B root m m2"
  unfolding grows_def by (metis subsetD)

lemma grows_weak: "grows ok A root m m1 \<Longrightarrow> (ok' \<Longrightarrow> ok) \<Longrightarrow> grows ok' A root m m1"
  by (simp add: grows_def)

lemma grows_mono: "grows ok A root m m1 \<Longrightarrow> A \<subseteq> B \<Longrightarrow> grows ok B root m m1"
  by (rule grows_trans [OF _ grows_refl])

lemma table_entry_bits:
  "bit (table_entry f flags e) 63 = bit e 63" "open_entry flags \<Longrightarrow> open_entry (table_entry f flags e)"
  by (simp_all add: open_entry_def table_entry_def Let_def flag_bits bit_simps pte_set_base_flags)

lemma link_grows:
  assumes fl: "fresh_link m root A p i t f e" and e: "\<not> bit (m (t + 8 * i)) 63 \<Longrightarrow> \<not> bit e 63"
    and u: "hd (p @ [i]) < 256 \<Longrightarrow> ok \<Longrightarrow> open_entry e"
  shows "grows ok (insert f A) root m (link_table m f (t + 8 * i) e)" (is "grows _ _ _ _ ?m")
proof -
  note d = fresh_linkD [OF fl]
  have "\<exists>g \<in> insert f A. x - g < PAGE_SIZE" if "?m x \<noteq> m x" for x
  proof (cases "x = t + 8 * i")
    case True
    with cell_in_page [OF d(14,14,13)] d(11) show ?thesis by (intro bexI [of _ t]) simp_all
  next
    case False
    with that show ?thesis by (auto simp: link_table_def split: if_splits)
  qed
  moreover have "tables_open ?m root" if o: "tables_open m root" and ok
    unfolding tables_open_def
  proof (intro allI impI)
    fix q j w assume q: "vpath (q @ [j])" "hd (q @ [j]) \<noteq> 256" and w: "tbl ?m root q = Some w"
    have qv: "vpath q" "j < 512" using q by (auto simp: vpath_snoc)
    show "\<not> bit (?m (w + 8 * j)) 63 \<and> (hd (q @ [j]) < 256 \<longrightarrow> pte_present (?m (w + 8 * j)) \<longrightarrow> open_entry (?m (w + 8 * j)))"
    proof (cases "q = p @ [i]")
      case True
      with w link_tbl_slot [OF fl] link_new_cell [OF fl qv(2)] show ?thesis by (simp add: pte_present_def)
    next
      case False
      with w link_tbl [OF fl qv(1)] have old: "tbl m root q = Some w" by (auto split: if_splits)
      show ?thesis
      proof (cases "q @ [j] = p @ [i]")
        case True
        have "\<not> bit (m (t + 8 * i)) 63" using tables_openD(1) [OF o d(3,4,5)] .
        with True old d(5) e u \<open>ok\<close> show ?thesis by (simp add: link_table_def)
      next
        case False
        with link_old_cell [OF fl q(1) old] tables_openD [OF o q old] show ?thesis by simp
      qed
    qed
  qed
  ultimately show ?thesis by (simp add: grows_def)
qed

section \<open>One level of the walk\<close>

lemma memset_table_eq:
  "frame_like f \<Longrightarrow> memset_table (GET_VIRT_ADDR f) s =
     s\<lparr>pf_mem := (\<lambda>a. if a - f < PAGE_SIZE then 0 else pf_mem s a)\<rparr>"
  using GET_VIRT_nonnull [of f] by (simp add: memset_table_def frame_like_def)

lemma entry_ptr_phys [simp]: "GET_PHYS_ADDR (entry_ptr (GET_VIRT_ADDR t) i) = t + 8 * i"
  by (simp add: entry_ptr_def GET_VIRT_ADDR_def GET_PHYS_ADDR_def)

lemma dm_read_entry [simp]: "dm_read (entry_ptr (GET_VIRT_ADDR t) i) s = pf_mem s (t + 8 * i)"
  by (simp add: dm_read_def)

lemma dm_write_entry:
  "dm_write (entry_ptr (GET_VIRT_ADDR t) i) x s = s\<lparr>pf_mem := (pf_mem s)(t + 8 * i := x)\<rparr>"
  by (simp add: dm_write_def)

lemma mmu_invD:
  assumes "mmu_inv s A F"
  shows "pf_inv s A F" "pt_ok (pf_mem s) (pt_root s) A" "bump_wf s"
    "f \<in> A \<Longrightarrow> frame_like f" "f \<in> set F \<Longrightarrow> frame_like f" "A \<inter> set F = {}"
proof -
  show pf: "pf_inv s A F" and "pt_ok (pf_mem s) (pt_root s) A"
    using assms by (auto simp: mmu_inv_def)
  show "bump_wf s" "A \<inter> set F = {}" using pf_invD(1,7) [OF pf] .
  show "f \<in> A \<Longrightarrow> frame_like f" "f \<in> set F \<Longrightarrow> frame_like f"
    using mmu_inv_frames [OF assms] by auto
qed

text \<open>Writing to a cell of a frame that is handed out keeps the free pool.\<close>

lemma pool_cell_distinct:
  assumes inv: "mmu_inv s A F" and t: "t \<in> A" "i < 512" and g: "g \<in> set F"
  shows "g \<noteq> t + 8 * i"
proof -
  note d = mmu_invD [OF inv]
  have "g + 8 * 0 \<noteq> t + 8 * i"
    using cell_inj [OF d(5) [OF g] d(4) [OF t(1)] _ t(2), of 0] g t(1) d(6) by auto
  then show ?thesis by simp
qed

lemma pf_alloc_mmu:
  assumes inv: "mmu_inv s A F" and r: "MMU_pf_alloc s = Inr (f, s1)" and live: "has_region s1"
  shows "f \<notin> A" "pf_inv s1 (insert f A) (tl F)" "pf_mem s1 = pf_mem s"
    "mu_pml4 s1 = mu_pml4 s" "frame_like f" "pf_map s1 = pf_map s" "f \<in> set F \<or> frame_usable (pf_map s) f"
proof -
  note d = mmu_invD [OF inv]
  from MMU_pf_alloc_inv [OF d(1) r live]
  show "f \<notin> A" "pf_inv s1 (insert f A) (tl F)" "pf_mem s1 = pf_mem s" "pf_map s1 = pf_map s" by auto
  from MMU_pf_alloc_inv [OF d(1) r live] show "f \<in> set F \<or> frame_usable (pf_map s) f" by (cases F) auto
  from MMU_pf_alloc_frame [OF d(3) r] show "mu_pml4 s1 = mu_pml4 s" by auto
  from owned_bounds [OF pf_invD(4) pf_invD(5)] \<open>pf_inv s1 (insert f A) (tl F)\<close>
  show "frame_like f" unfolding frame_like_def by blast
qed

lemma get_or_alloc_step:
  assumes inv: "mmu_inv s A F" and p: "vpath (p @ [i])" "hd (p @ [i]) \<noteq> 256"
    and t: "tbl (pf_mem s) (pt_root s) p = Some t"
    and r: "get_or_alloc_table (GET_VIRT_ADDR t) i flags s = Inr (q, s')" and live: "has_region s'"
  shows "\<exists>t' A' F'. q = GET_VIRT_ADDR t' \<and> tbl (pf_mem s') (pt_root s') (p @ [i]) = Some t' \<and>
     mmu_inv s' A' F' \<and> A \<subseteq> A' \<and> pt_root s' = pt_root s \<and> has_region s \<and>
     (\<forall>v. eff_pte (pf_mem s') (pt_root s) v = eff_pte (pf_mem s) (pt_root s) v) \<and>
     grows (hd (p @ [i]) < 256 \<longrightarrow> open_entry flags) A' (pt_root s) (pf_mem s) (pf_mem s')"
proof -
  note d = mmu_invD [OF inv]
  have tp: "vpath p" "i < 512" using p by (auto simp: vpath_snoc)
  have tA: "t \<in> A" using pt_okD(1) [OF d(2) tp(1) t] .
  have nh: "\<not> pte_huge (pf_mem s (t + 8 * i))"
    using pt_okD(3) [OF d(2) p(1) _ t] p(2) by (cases p) auto
  have hs: "has_region s" using pf_invD(2) [OF d(1)] .
  show ?thesis
  proof (cases "pte_present (pf_mem s (t + 8 * i))")
    case True
    with r have s': "s' = s" and q: "q = GET_VIRT_ADDR (push_bit 12 (pte_base_addr (pf_mem s (t + 8 * i))))"
      by (auto simp: get_or_alloc_table_def entry_to_table_def)
    have "tbl (pf_mem s) (pt_root s) (p @ [i]) = Some (push_bit 12 (pte_base_addr (pf_mem s (t + 8 * i))))"
      using t True nh by (simp add: tbl_snoc child_def)
    with s' q inv hs grows_refl show ?thesis by blast
  next
    case False
    let ?x = "t + 8 * i"
    from r False obtain f s1 where a: "MMU_pf_alloc s = Inr (f, s1)" and
      s': "s' = dm_write (entry_ptr (GET_VIRT_ADDR t) i)
             (table_entry f flags (dm_read (entry_ptr (GET_VIRT_ADDR t) i) (memset_table (GET_VIRT_ADDR f) s1)))
             (memset_table (GET_VIRT_ADDR f) s1)"
      and q: "q = entry_to_table (GET_VIRT_ADDR t) i s'"
      by (auto simp: get_or_alloc_table_def allocate_table_def res_iff table_entry_def Let_def)
    have live1: "has_region s1" using live
      by (simp add: s' has_region_def dm_write_def memset_table_def split: if_splits)
    note al = pf_alloc_mmu [OF inv a live1]
    define e where "e = table_entry f flags (pf_mem s ?x)"
    have "?x - f < PAGE_SIZE \<longleftrightarrow> t = f" by (rule cell_in_page [OF d(4) [OF tA] al(5) tp(2)])
    then have notin: "\<not> ?x - f < PAGE_SIZE" using tA al(1) by auto
    have s'': "s' = s1\<lparr>pf_mem := link_table (pf_mem s) f ?x e\<rparr>"
      using notin by (simp add: s' memset_table_eq [OF al(5)] dm_write_entry al(3) link_table_def e_def
          cong: if_cong)
    have fl: "fresh_link (pf_mem s) (pt_root s) A p i t f e"
      using d(2,4) p t al(1,5) False table_entry_child [OF al(5) nh]
      by (simp add: fresh_link_def child_def e_def)
    have root: "pt_root s' = pt_root s" by (simp add: s'' pt_root_def al(4))
    have "link_table (pf_mem s) f ?x e g = pf_mem s1 g" if g: "g \<in> set (tl F)" for g
    proof -
      have gF: "g \<in> set F" using g by (cases F) auto
      have "g \<noteq> f" using pf_invD(7) [OF al(2)] g by auto
      then have "\<not> g + 8 * 0 - f < PAGE_SIZE" using cell_in_page [OF d(5) [OF gF] al(5), of 0] by simp
      with pool_cell_distinct [OF inv tA tp(2) gF] al(3) show ?thesis by (simp add: link_table_def)
    qed
    from pf_inv_write [OF al(2) this] link_pt_ok [OF fl] root
    have "mmu_inv s' (insert f A) (tl F)" by (simp add: mmu_inv_def s'' pt_root_def)
    moreover have "q = GET_VIRT_ADDR f"
      using table_entry_child(1) [OF al(5) nh, of flags]
      by (simp add: q entry_to_table_def s'' link_table_def e_def child_def split: if_splits)
    moreover have "tbl (pf_mem s') (pt_root s') (p @ [i]) = Some f"
      using link_tbl_slot [OF fl] root by (simp add: s'')
    moreover have "grows (hd (p @ [i]) < 256 \<longrightarrow> open_entry flags) (insert f A) (pt_root s) (pf_mem s) (pf_mem s')"
      using link_grows [OF fl] table_entry_bits by (simp add: s'' e_def)
    ultimately show ?thesis
      using root link_eff_pte [OF fl] hs by (auto simp: s'')
  qed
qed

section \<open>Writing a leaf\<close>

definition leaf_write :: "(u64 \<Rightarrow> u64) \<Rightarrow> u64 \<Rightarrow> u64 \<Rightarrow> u64 \<Rightarrow> (u64 \<Rightarrow> u64)" where
  "leaf_write m t v e = m(t + 8 * pt_index v := e)"

lemma leaf_cell:
  assumes ok: "pt_ok m root A" and fr: "\<And>g. g \<in> A \<Longrightarrow> frame_like g"
    and t: "tbl m root (table_path v) = Some t"
    and q: "vpath (q @ [j])" "tbl m root q = Some u"
  shows "leaf_write m t v e (u + 8 * j) = m (u + 8 * j)"
proof -
  have qv: "vpath q" "j < 512" "length q \<le> 2" using q by (auto simp: vpath_snoc)
  have "u \<noteq> t"
    using pt_okD(2) [OF ok qv(1) vpath_table_path(1) q(2), of v] t qv(3) vpath_table_path(2) [of v]
    by auto
  then show ?thesis
    using cell_inj [OF fr [OF pt_okD(1) [OF ok qv(1) q(2)]] fr [OF pt_okD(1) [OF ok vpath_table_path(1) t]]
        qv(2) index_less_512(1)]
    by (simp add: leaf_write_def)
qed

lemma leaf_tbl:
  assumes "pt_ok m root A" and "\<And>g. g \<in> A \<Longrightarrow> frame_like g"
    and "tbl m root (table_path v) = Some t" and "vpath q"
  shows "tbl (leaf_write m t v e) root q = tbl m root q"
  using assms(4) by (rule tbl_agree) (rule leaf_cell [OF assms(1-3)])

lemma leaf_pt_ok:
  assumes ok: "pt_ok m root A" and fr: "\<And>g. g \<in> A \<Longrightarrow> frame_like g"
    and t: "tbl m root (table_path v) = Some t"
  shows "pt_ok (leaf_write m t v e) root A"
  unfolding pt_ok_def
proof (intro conjI allI impI)
  note same = leaf_tbl [OF ok fr t]
  fix p u i assume p: "vpath (p @ [i])" "p = [] \<or> hd p \<noteq> 256" and u: "tbl (leaf_write m t v e) root p = Some u"
  have "tbl m root p = Some u" using u p same by (simp add: vpath_snoc)
  with pt_okD(3) [OF ok p] leaf_cell [OF ok fr t p(1)] show "\<not> pte_huge (leaf_write m t v e (u + 8 * i))"
    by simp
qed (use leaf_tbl [OF ok fr t] pt_okD(1,2) [OF ok] in auto)

lemma leaf_eff_pte:
  assumes ok: "pt_ok m root A" and fr: "\<And>g. g \<in> A \<Longrightarrow> frame_like g"
    and t: "tbl m root (table_path v) = Some t"
  shows "eff_pte (leaf_write m t v e) root w = (if same_page w v then e else eff_pte m root w)"
proof (cases "tbl m root (table_path w)")
  case None
  with t have "\<not> same_page w v" by (auto simp: same_page_def)
  with None show ?thesis by (simp add: eff_pte_def leaf_tbl [OF ok fr t])
next
  case (Some u)
  have "u + 8 * pt_index w = t + 8 * pt_index v \<longleftrightarrow> u = t \<and> pt_index w = pt_index v"
    using pt_okD(1) [OF ok vpath_table_path(1)] Some t by (intro cell_inj fr) auto
  moreover have "u = t \<longleftrightarrow> table_path w = table_path v"
    using pt_okD(2) [OF ok vpath_table_path(1) vpath_table_path(1) Some, of v] Some t by auto
  moreover have "eff_pte (leaf_write m t v e) root w = leaf_write m t v e (u + 8 * pt_index w)"
    and "eff_pte m root w = m (u + 8 * pt_index w)"
    using Some leaf_tbl [OF ok fr t, of "table_path w" e] by (simp_all add: eff_pte_def)
  ultimately show ?thesis by (simp add: same_page_def leaf_write_def)
qed

lemma leaf_write_inv:
  assumes inv: "mmu_inv s A F" and t: "tbl (pf_mem s) (pt_root s) (table_path v) = Some t"
  shows "mmu_inv (s\<lparr>pf_mem := leaf_write (pf_mem s) t v e\<rparr>) A F"
proof -
  note d = mmu_invD [OF inv]
  have tA: "t \<in> A" using pt_okD(1) [OF d(2) vpath_table_path(1) t] .
  have "leaf_write (pf_mem s) t v e g = pf_mem s g" if "g \<in> set F" for g
    using pool_cell_distinct [OF inv tA _ that, of "pt_index v"] by (simp add: leaf_write_def)
  from pf_inv_write [OF d(1) this] leaf_pt_ok [OF d(2,4) t] show ?thesis
    by (simp add: mmu_inv_def pt_root_def)
qed

lemma leaf_grows:
  assumes ok: "pt_ok m root A" and fr: "\<And>g. g \<in> A \<Longrightarrow> frame_like g" and t: "tbl m root (table_path v) = Some t"
  shows "grows b A root m (leaf_write m t v e)"
proof -
  have tA: "t \<in> A" using pt_okD(1) [OF ok vpath_table_path(1) t] .
  have "\<exists>g \<in> A. x - g < PAGE_SIZE" if "leaf_write m t v e x \<noteq> m x" for x
    using that cell_in_page [OF fr [OF tA] fr [OF tA], of "pt_index v"] tA
    by (intro bexI [of _ t]) (simp_all add: leaf_write_def split: if_splits)
  moreover have "tables_open (leaf_write m t v e) root" if o: "tables_open m root"
    unfolding tables_open_def
  proof (intro allI impI)
    fix q j w assume q: "vpath (q @ [j])" "hd (q @ [j]) \<noteq> 256" and w: "tbl (leaf_write m t v e) root q = Some w"
    have "vpath q" using q by (auto simp: vpath_snoc)
    with w leaf_tbl [OF ok fr t] have old: "tbl m root q = Some w" by simp
    from tables_openD [OF o q old] leaf_cell [OF ok fr t q(1) old]
    show "\<not> bit (leaf_write m t v e (w + 8 * j)) 63 \<and> (hd (q @ [j]) < 256 \<longrightarrow>
        pte_present (leaf_write m t v e (w + 8 * j)) \<longrightarrow> open_entry (leaf_write m t v e (w + 8 * j)))" by simp
  qed
  ultimately show ?thesis by (simp add: grows_def)
qed

section \<open>Mapping a page\<close>

lemma bump_mem [simp]:
  "bump_wf (s\<lparr>pf_mem := m\<rparr>) = bump_wf s" "has_region (s\<lparr>pf_mem := m\<rparr>) = has_region s"
  "bump_wf (dm_write p x s) = bump_wf s" "has_region (dm_write p x s) = has_region s"
  "bump_wf (memset_table p s) = bump_wf s" "has_region (memset_table p s) = has_region s"
  by (simp_all add: bump_wf_def has_region_def dm_write_def memset_table_def)

lemma get_or_alloc_wf:
  assumes "bump_wf s" and "get_or_alloc_table parent i flags s = Inr (q, s')"
  shows "bump_wf s' \<and> (has_region s' \<longrightarrow> has_region s)"
proof (cases "pte_present (dm_read (entry_ptr parent i) s)")
  case False
  with assms(2) obtain f s1 where a: "MMU_pf_alloc s = Inr (f, s1)"
    and b: "bump_wf s' = bump_wf s1" "has_region s' = has_region s1"
    by (auto simp: get_or_alloc_table_def allocate_table_def res_iff Let_def)
  from MMU_pf_alloc_wf [OF assms(1) a] b show ?thesis by simp
qed (use assms in \<open>auto simp: get_or_alloc_table_def\<close>)

lemma root_virt: "GET_VIRT_ADDR (pt_root s) = mu_pml4 s"
  by (simp add: pt_root_def)

text \<open>The walk that creates missing tables, down to the last level.\<close>

lemma walk_step:
  assumes inv: "mmu_inv s A F" and i: "pml4_index v \<noteq> 256"
    and r1: "get_or_alloc_table (mu_pml4 s) (pml4_index v) flags s = Inr (pdp, s1)"
    and r2: "get_or_alloc_table pdp (pdp_index v) flags s1 = Inr (pd, s2)"
    and r3: "get_or_alloc_table pd (pd_index v) flags s2 = Inr (pt, s3)" and live: "has_region s3"
  shows "\<exists>t A' F'. pt = GET_VIRT_ADDR t \<and> tbl (pf_mem s3) (pt_root s3) (table_path v) = Some t \<and>
     mmu_inv s3 A' F' \<and> A \<subseteq> A' \<and> pt_root s3 = pt_root s \<and>
     (\<forall>w. eff_pte (pf_mem s3) (pt_root s) w = eff_pte (pf_mem s) (pt_root s) w) \<and>
     grows (pml4_index v < 256 \<longrightarrow> open_entry flags) A' (pt_root s) (pf_mem s) (pf_mem s3)"
proof -
  let ?ok = "pml4_index v < 256 \<longrightarrow> open_entry flags"
  note w1 = get_or_alloc_wf [OF mmu_invD(3) [OF inv] r1]
  note w2 = get_or_alloc_wf [OF conjunct1 [OF w1] r2]
  note w3 = get_or_alloc_wf [OF conjunct1 [OF w2] r3]
  have l2: "has_region s2" and l1: "has_region s1" using w2 w3 live by auto
  obtain t1 A1 F1 where 1: "pdp = GET_VIRT_ADDR t1"
    "tbl (pf_mem s1) (pt_root s1) [pml4_index v] = Some t1" "mmu_inv s1 A1 F1" "A \<subseteq> A1"
    "pt_root s1 = pt_root s" "\<forall>w. eff_pte (pf_mem s1) (pt_root s) w = eff_pte (pf_mem s) (pt_root s) w"
    "grows ?ok A1 (pt_root s) (pf_mem s) (pf_mem s1)"
    using get_or_alloc_step [OF inv, of "[]" "pml4_index v" "pt_root s" flags pdp s1] r1 l1 i
    by (auto simp: root_virt vpath_def)
  obtain t2 A2 F2 where 2: "pd = GET_VIRT_ADDR t2"
    "tbl (pf_mem s2) (pt_root s2) [pml4_index v, pdp_index v] = Some t2" "mmu_inv s2 A2 F2" "A1 \<subseteq> A2"
    "pt_root s2 = pt_root s1" "\<forall>w. eff_pte (pf_mem s2) (pt_root s1) w = eff_pte (pf_mem s1) (pt_root s1) w"
    "grows ?ok A2 (pt_root s1) (pf_mem s1) (pf_mem s2)"
    using get_or_alloc_step [OF 1(3) _ _ 1(2) r2 [unfolded 1(1)] l2] i
    by (auto simp: vpath_def)
  obtain t3 A3 F3 where 3: "pt = GET_VIRT_ADDR t3"
    "tbl (pf_mem s3) (pt_root s3) [pml4_index v, pdp_index v, pd_index v] = Some t3" "mmu_inv s3 A3 F3"
    "A2 \<subseteq> A3" "pt_root s3 = pt_root s2"
    "\<forall>w. eff_pte (pf_mem s3) (pt_root s2) w = eff_pte (pf_mem s2) (pt_root s2) w"
    "grows ?ok A3 (pt_root s2) (pf_mem s2) (pf_mem s3)"
    using get_or_alloc_step [OF 2(3) _ _ 2(2) r3 [unfolded 2(1)] live] i
    by (auto simp: vpath_def)
  have "grows ?ok A3 (pt_root s) (pf_mem s) (pf_mem s3)"
    by (rule grows_trans [OF grows_trans [OF 1(7) 2(7) [unfolded 1(5)] 2(4)] 3(7) [unfolded 2(5) 1(5)] 3(4)])
  with 1(1-6) 2(1-6) 3(1-6) show ?thesis
    by (intro exI [of _ t3] exI [of _ A3] exI [of _ F3]) (auto simp: table_path_def)
qed

lemma map_page_wf:
  assumes "bump_wf s" and "map_page v p flags s = Inr s'"
  shows "bump_wf s' \<and> (has_region s' \<longrightarrow> has_region s)"
proof (cases "v = NULL")
  case False
  with assms(2) obtain pdp pd pt s1 s2 s3 where
    r1: "get_or_alloc_table (mu_pml4 s) (pml4_index v) flags s = Inr (pdp, s1)"
    and r2: "get_or_alloc_table pdp (pdp_index v) flags s1 = Inr (pd, s2)"
    and r3: "get_or_alloc_table pd (pd_index v) flags s2 = Inr (pt, s3)"
    and s': "s' = dm_write (entry_ptr pt (pt_index v)) (p OR flags) s3"
    by (auto simp: map_page_def res_iff)
  note w1 = get_or_alloc_wf [OF assms(1) r1]
  note w2 = get_or_alloc_wf [OF conjunct1 [OF w1] r2]
  from get_or_alloc_wf [OF conjunct1 [OF w2] r3] w1 w2 s' show ?thesis by simp
qed (use assms in \<open>auto simp: map_page_def\<close>)

lemma map_page_step:
  assumes inv: "mmu_inv s A F" and v: "v \<noteq> NULL" "pml4_index v \<noteq> 256"
    and r: "map_page v p flags s = Inr s'" and live: "has_region s'"
  shows "\<exists>A' F'. mmu_inv s' A' F' \<and> A \<subseteq> A' \<and> pt_root s' = pt_root s \<and>
     (\<forall>w. eff_pte (pf_mem s') (pt_root s) w =
        (if same_page w v then p OR flags else eff_pte (pf_mem s) (pt_root s) w)) \<and>
     grows (pml4_index v < 256 \<longrightarrow> open_entry flags) A' (pt_root s) (pf_mem s) (pf_mem s')"
proof -
  from r v(1) obtain pdp pd pt s1 s2 s3 where
    r1: "get_or_alloc_table (mu_pml4 s) (pml4_index v) flags s = Inr (pdp, s1)"
    and r2: "get_or_alloc_table pdp (pdp_index v) flags s1 = Inr (pd, s2)"
    and r3: "get_or_alloc_table pd (pd_index v) flags s2 = Inr (pt, s3)"
    and s': "s' = dm_write (entry_ptr pt (pt_index v)) (p OR flags) s3"
    by (auto simp: map_page_def res_iff)
  have "has_region s3" using live s' by simp
  from walk_step [OF inv v(2) r1 r2 r3 this] obtain t A' F' where
    pt: "pt = GET_VIRT_ADDR t" and t: "tbl (pf_mem s3) (pt_root s3) (table_path v) = Some t"
    and i3: "mmu_inv s3 A' F'" and sub: "A \<subseteq> A'" and root: "pt_root s3 = pt_root s"
    and eff: "\<forall>w. eff_pte (pf_mem s3) (pt_root s) w = eff_pte (pf_mem s) (pt_root s) w"
    and gr: "grows (pml4_index v < 256 \<longrightarrow> open_entry flags) A' (pt_root s) (pf_mem s) (pf_mem s3)" by blast
  have s'': "s' = s3\<lparr>pf_mem := leaf_write (pf_mem s3) t v (p OR flags)\<rparr>"
    by (simp add: s' pt dm_write_entry leaf_write_def)
  note d = mmu_invD [OF i3]
  have "eff_pte (pf_mem s') (pt_root s) w =
      (if same_page w v then p OR flags else eff_pte (pf_mem s) (pt_root s) w)" for w
    using leaf_eff_pte [OF d(2,4) t, of "p OR flags" w] eff root by (simp add: s'')
  moreover have "mmu_inv s' A' F'" unfolding s'' by (rule leaf_write_inv [OF i3 t])
  moreover have "pt_root s' = pt_root s" using root by (simp add: s'' pt_root_def)
  moreover have "grows (pml4_index v < 256 \<longrightarrow> open_entry flags) A' (pt_root s) (pf_mem s) (pf_mem s')"
    using grows_trans [OF gr leaf_grows [OF d(2,4) t, unfolded root] order_refl] by (simp add: s'')
  ultimately show ?thesis using sub by blast
qed

section \<open>Mapping a range\<close>

lemma index_bit:
  "j < 9 \<Longrightarrow> bit (pt_index v) j = bit v (12 + j)" "j < 9 \<Longrightarrow> bit (pd_index v) j = bit v (21 + j)"
  "j < 9 \<Longrightarrow> bit (pdp_index v) j = bit v (30 + j)" "j < 9 \<Longrightarrow> bit (pml4_index v) j = bit v (39 + j)"
proof -
  have m: "0x1FF = (mask 9 :: u64)" by (simp add: mask_eq_exp_minus_1)
  show "j < 9 \<Longrightarrow> bit (pt_index v) j = bit v (12 + j)" "j < 9 \<Longrightarrow> bit (pd_index v) j = bit v (21 + j)"
    "j < 9 \<Longrightarrow> bit (pdp_index v) j = bit v (30 + j)" "j < 9 \<Longrightarrow> bit (pml4_index v) j = bit v (39 + j)"
    unfolding pt_index_def pd_index_def pdp_index_def pml4_index_def m
    by (simp_all add: bit_simps)
qed

lemma same_page_bits:
  assumes "same_page v w" and "n < 36"
  shows "bit v (12 + n) = bit w (12 + n)"
proof -
  have "pt_index v = pt_index w" "pd_index v = pd_index w" "pdp_index v = pdp_index w"
    "pml4_index v = pml4_index w" using assms(1) by (auto simp: same_page_def table_path_def)
  then have *: "j < 9 \<Longrightarrow> bit v (12 + j) = bit w (12 + j)" "j < 9 \<Longrightarrow> bit v (21 + j) = bit w (21 + j)"
    "j < 9 \<Longrightarrow> bit v (30 + j) = bit w (30 + j)" "j < 9 \<Longrightarrow> bit v (39 + j) = bit w (39 + j)" for j
    using index_bit [of j v] index_bit [of j w] by metis+
  consider "n < 9" | "9 \<le> n" "n < 18" | "18 \<le> n" "n < 27" | "27 \<le> n" by linarith
  then show ?thesis
    using *(1) [of n] *(2) [of "n - 9"] *(3) [of "n - 18"] *(4) [of "n - 27"] assms(2)
    by cases (auto simp: add.commute)
qed

lemma same_page_number:
  assumes "same_page v w"
  shows "unat v div 2 ^ 12 mod 2 ^ 36 = unat w div 2 ^ 12 mod 2 ^ 36"
proof -
  have "take_bit 36 (drop_bit 12 v) = take_bit 36 (drop_bit 12 w)"
    by (rule bit_eqI) (use same_page_bits [OF assms] in \<open>auto simp: bit_simps add.commute\<close>)
  then have "unat (take_bit 36 (drop_bit 12 v)) = unat (take_bit 36 (drop_bit 12 w))" by simp
  then have "take_bit 36 (drop_bit 12 (unat v)) = take_bit 36 (drop_bit 12 (unat w))"
    unfolding unsigned_take_bit_eq unsigned_drop_bit_eq by simp
  then show ?thesis by (simp only: take_bit_eq_mod drop_bit_eq_div)
qed

lemma mod_shift_ne:
  fixes a k n :: nat
  assumes "0 < k" and "k < n"
  shows "(a + k) mod n \<noteq> a mod n"
proof
  assume "(a + k) mod n = a mod n"
  then have "n dvd (a + k) - a" using mod_eq_dvd_iff_nat [of a "a + k" n] by simp
  with assms show False by (auto dest: dvd_imp_le)
qed

text \<open>The pages of the range: page \<open>k\<close> starts at \<open>v + 4096 * k\<close>.\<close>

definition page_at :: "u64 \<Rightarrow> nat \<Rightarrow> u64" where
  "page_at v k = v + of_nat (4096 * k)"

lemma page_at_0 [simp]: "page_at v 0 = v"
  by (simp add: page_at_def)

lemma page_at_Suc: "page_at (v + PAGE_SIZE) k = page_at v (Suc k)"
  by (simp add: page_at_def PAGE_SIZE_def algebra_simps)

lemma unat_page_at:
  assumes "unat v + 4096 * k < 2 ^ 64"
  shows "unat (page_at v k) = unat v + 4096 * k"
proof -
  have "unat (of_nat (4096 * k) :: u64) = 4096 * k"
    using assms unfolding unat_of_nat by (intro mod_less) simp
  then show ?thesis using assms unfolding page_at_def unat_word_ariths by (simp only:) simp
qed

lemma later_page_differs:
  assumes "0 < k" and "k < 2 ^ 36" and "unat v + 4096 * k < 2 ^ 64"
  shows "\<not> same_page v (page_at v k)"
proof
  assume "same_page v (page_at v k)"
  from same_page_number [OF this]
  have "unat v div 4096 mod 2 ^ 36 = (unat v div 4096 + k) mod 2 ^ 36"
    by (simp add: unat_page_at [OF assms(3)] add.commute)
  with mod_shift_ne [OF assms(1,2), of "unat v div 4096"] show False by simp
qed

lemma same_page_trans: "same_page w u \<Longrightarrow> same_page w v \<Longrightarrow> same_page u v"
  by (simp add: same_page_def)

definition range_mapped :: "(u64 \<Rightarrow> u64) \<Rightarrow> (u64 \<Rightarrow> u64) \<Rightarrow> nat \<Rightarrow> u64 \<Rightarrow> u64 \<Rightarrow> u64 \<Rightarrow> bool" where
  "range_mapped old new n v p flags \<longleftrightarrow>
     (\<forall>k w. k < n \<longrightarrow> same_page w (page_at v k) \<longrightarrow> new w = (page_at p k OR flags)) \<and>
     (\<forall>w. (\<forall>k < n. \<not> same_page w (page_at v k)) \<longrightarrow> new w = old w)"

lemma range_mapped_0: "range_mapped e e 0 v p flags"
  by (simp add: range_mapped_def)

lemma range_mapped_Suc:
  assumes one: "\<And>w. mid w = (if same_page w v then p OR flags else old w)"
    and rest: "range_mapped mid new n (v + PAGE_SIZE) (p + PAGE_SIZE) flags"
    and n: "Suc n < 2 ^ 36" "unat v + 4096 * Suc n < 2 ^ 64"
  shows "range_mapped old new (Suc n) v p flags"
  unfolding range_mapped_def
proof (intro conjI allI impI)
  fix k w assume k: "k < Suc n" and w: "same_page w (page_at v k)"
  show "new w = (page_at p k OR flags)"
  proof (cases k)
    case 0
    have "\<not> same_page w (page_at (v + PAGE_SIZE) j)" if "j < n" for j
    proof
      assume "same_page w (page_at (v + PAGE_SIZE) j)"
      then have "same_page w (page_at v (Suc j))" by (simp only: page_at_Suc)
      moreover have "same_page w v" using w 0 by (simp only: page_at_0)
      ultimately have sp: "same_page v (page_at v (Suc j))" by (metis same_page_trans)
      have "Suc j < 2 ^ 36" using that n(1) by linarith
      moreover have "4096 * Suc j \<le> 4096 * Suc n" using that by simp
      then have "unat v + 4096 * Suc j < 2 ^ 64"
        using n(2) by (meson add_left_mono order.strict_trans1)
      ultimately show False using later_page_differs [of "Suc j" v] sp by blast
    qed
    with rest have "new w = mid w" unfolding range_mapped_def by blast
    with one w 0 show ?thesis by simp
  next
    case (Suc j)
    with k w rest show ?thesis
      unfolding range_mapped_def page_at_Suc by auto
  qed
next
  fix w assume w: "\<forall>k < Suc n. \<not> same_page w (page_at v k)"
  have "\<not> same_page w v" using w by (auto dest: spec [of _ 0])
  moreover have "\<forall>k < n. \<not> same_page w (page_at (v + PAGE_SIZE) k)"
    using w unfolding page_at_Suc by auto
  ultimately show "new w = old w" using rest one unfolding range_mapped_def by simp
qed

lemma map_range_loop_ends:
  "unat vend + 4096 \<le> 2 ^ 64 \<Longrightarrow> \<exists>r. map_range_loop vend v p flags s = Some r"
proof (induction "unat vend - unat v" arbitrary: v p s rule: less_induct)
  case less
  show ?case
  proof (cases "v < vend")
    case True
    then have "unat v < unat vend" by (simp add: word_less_nat_alt)
    moreover have "unat (v + PAGE_SIZE) = unat v + 4096"
      using less.prems True by (simp add: word_less_nat_alt unat_word_ariths PAGE_SIZE_def)
    ultimately have "unat vend - unat (v + PAGE_SIZE) < unat vend - unat v" by simp
    from less.hyps [OF this less.prems] show ?thesis
      by (subst map_range_loop.simps) (auto split: sum.splits)
  qed (subst map_range_loop.simps, simp)
qed

text \<open>How many pages the loop visits.\<close>

definition pages_upto :: "u64 \<Rightarrow> u64 \<Rightarrow> nat" where
  "pages_upto v vend = (unat vend - unat v + 4095) div 4096"

lemma pages_upto_less: "k < pages_upto v vend \<longleftrightarrow> unat v + 4096 * k < unat vend"
  unfolding pages_upto_def by (auto simp: less_eq_div_iff_mult_less_eq)

lemma pages_upto_step:
  assumes "v < vend" and "unat vend + 4096 \<le> 2 ^ 64"
  shows "pages_upto v vend = Suc (pages_upto (v + PAGE_SIZE) vend)"
proof -
  have u: "unat (v + PAGE_SIZE) = unat v + 4096"
    using assms by (simp add: word_less_nat_alt unat_word_ariths PAGE_SIZE_def)
  have lt: "unat v < unat vend" using assms(1) by (simp add: word_less_nat_alt)
  show ?thesis
  proof (cases "unat v + 4096 \<le> unat vend")
    case True
    then obtain d where "unat vend = unat v + 4096 + d" using le_Suc_ex by blast
    then show ?thesis by (simp add: pages_upto_def u)
  next
    case False
    with lt obtain d where "unat vend = unat v + Suc d" "Suc d < 4096"
      by (metis add_Suc_right less_iff_Suc_add nat_add_left_cancel_less not_le)
    then show ?thesis by (simp add: pages_upto_def u)
  qed
qed

lemma map_range_loop_live:
  assumes "bump_wf s" and "map_range_loop vend v p flags s = Some (Inr s')"
    and "unat vend + 4096 \<le> 2 ^ 64" and "has_region s'"
  shows "has_region s"
  using assms
proof (induction "pages_upto v vend" arbitrary: v p s)
  case 0
  then have "\<not> v < vend" using pages_upto_step by fastforce
  with 0 show ?case by (subst (asm) map_range_loop.simps) simp
next
  case (Suc n)
  have lt: "v < vend" using Suc.hyps(2) pages_upto_less [of 0 v vend] by (simp add: word_less_nat_alt)
  from Suc.prems(2) lt obtain s1 where m: "map_page v p flags s = Inr s1"
    and l: "map_range_loop vend (v + PAGE_SIZE) (p + PAGE_SIZE) flags s1 = Some (Inr s')"
    by (subst (asm) map_range_loop.simps) (auto split: sum.splits)
  from map_page_wf [OF Suc.prems(1) m] Suc.hyps(1) [OF _ _ l Suc.prems(3,4)]
    pages_upto_step [OF lt Suc.prems(3)] Suc.hyps(2)
  show ?case by simp
qed

text \<open>Mapping only ever stops because the memory is used up.\<close>

lemma get_or_alloc_halt:
  assumes "bump_wf s" and "get_or_alloc_table parent i flags s = Inl e"
  shows "e = OutOfMemory"
proof -
  have "MMU_pf_alloc s = Inl e"
    using assms(2) by (auto simp: get_or_alloc_table_def allocate_table_def bind_res_def Let_def
        split: sum.splits prod.splits if_splits)
  moreover have "pf_free_pool s = NULL"
    using calculation by (auto simp: MMU_pf_alloc_def pop_free_pf_def split: if_splits)
  ultimately show ?thesis
    using check_addr_outcome [OF assms(1)] by (auto simp: MMU_pf_alloc_def pop_free_pf_def)
qed

lemma map_page_halt:
  assumes wf: "bump_wf s" and "map_page v p flags s = Inl e"
  shows "e = OutOfMemory"
proof (cases "v = NULL")
  case False
  show ?thesis
  proof (cases "get_or_alloc_table (mu_pml4 s) (pml4_index v) flags s")
    case (Inl e1)
    with get_or_alloc_halt [OF wf Inl] False assms(2) show ?thesis by (simp add: map_page_def)
  next
    case (Inr x)
    then obtain pdp s1 where r1: "get_or_alloc_table (mu_pml4 s) (pml4_index v) flags s = Inr (pdp, s1)"
      by (cases x) auto
    note w1 = conjunct1 [OF get_or_alloc_wf [OF wf r1]]
    show ?thesis
    proof (cases "get_or_alloc_table pdp (pdp_index v) flags s1")
      case (Inl e1)
      with get_or_alloc_halt [OF w1 Inl] r1 False assms(2) show ?thesis by (simp add: map_page_def)
    next
      case (Inr x)
      then obtain pd s2 where r2: "get_or_alloc_table pdp (pdp_index v) flags s1 = Inr (pd, s2)"
        by (cases x) auto
      note w2 = conjunct1 [OF get_or_alloc_wf [OF w1 r2]]
      have "get_or_alloc_table pd (pd_index v) flags s2 = Inl e"
        using r1 r2 False assms(2) by (auto simp: map_page_def bind_res_def split: sum.splits)
      from get_or_alloc_halt [OF w2 this] show ?thesis .
    qed
  qed
qed (use assms in \<open>simp add: map_page_def\<close>)

lemma map_range_loop_halt:
  assumes "bump_wf s" and "unat vend + 4096 \<le> 2 ^ 64"
    and "map_range_loop vend v p flags s = Some r"
  shows "r = Inl OutOfMemory \<or> (\<exists>s'. r = Inr s')"
  using assms
proof (induction "pages_upto v vend" arbitrary: v p s)
  case 0
  then have "\<not> v < vend" using pages_upto_step by fastforce
  with 0 show ?case by (subst (asm) map_range_loop.simps) auto
next
  case (Suc n)
  have lt: "v < vend" using Suc.hyps(2) pages_upto_less [of 0 v vend] by (simp add: word_less_nat_alt)
  show ?case
  proof (cases "map_page v p flags s")
    case (Inl e)
    with map_page_halt [OF Suc.prems(1) Inl] Suc.prems(3) lt show ?thesis
      by (subst (asm) map_range_loop.simps) auto
  next
    case (Inr s1)
    with Suc.prems(3) lt have l: "map_range_loop vend (v + PAGE_SIZE) (p + PAGE_SIZE) flags s1 = Some r"
      by (subst (asm) map_range_loop.simps) auto
    from Suc.hyps(1) [OF _ _ Suc.prems(2) l] map_page_wf [OF Suc.prems(1) Inr]
      pages_upto_step [OF lt Suc.prems(2)] Suc.hyps(2)
    show ?thesis by simp
  qed
qed

lemma map_range_loop_spec:
  assumes "mmu_inv s A F" and "unat vend + 4096 \<le> 2 ^ 64" and "pages_upto v vend < 2 ^ 36"
    and "\<And>k. k < pages_upto v vend \<Longrightarrow> page_at v k \<noteq> NULL \<and> pml4_index (page_at v k) \<noteq> 256"
    and "map_range_loop vend v p flags s = Some (Inr s')" and "has_region s'"
  shows "\<exists>A' F'. mmu_inv s' A' F' \<and> A \<subseteq> A' \<and> pt_root s' = pt_root s \<and>
     range_mapped (eff_pte (pf_mem s) (pt_root s)) (eff_pte (pf_mem s') (pt_root s))
       (pages_upto v vend) v p flags \<and>
     grows (open_entry flags \<or> (\<forall>k < pages_upto v vend. \<not> pml4_index (page_at v k) < 256)) A' (pt_root s) (pf_mem s) (pf_mem s')"
  using assms
proof (induction "pages_upto v vend" arbitrary: v p s A F)
  case 0
  then have "\<not> v < vend" using pages_upto_step by fastforce
  with 0 have "s' = s" by (subst (asm) map_range_loop.simps) simp
  with 0 range_mapped_0 show ?case by (metis order_refl grows_refl)
next
  case (Suc n)
  have lt: "v < vend" using Suc.hyps(2) pages_upto_less [of 0 v vend] by (simp add: word_less_nat_alt)
  note step = pages_upto_step [OF lt Suc.prems(2)]
  have v0: "v \<noteq> NULL" "pml4_index v \<noteq> 256" using Suc.prems(4) [of 0] Suc.hyps(2) by auto
  from Suc.prems(5) lt obtain s1 where m: "map_page v p flags s = Inr s1"
    and l: "map_range_loop vend (v + PAGE_SIZE) (p + PAGE_SIZE) flags s1 = Some (Inr s')"
    by (subst (asm) map_range_loop.simps) (auto split: sum.splits)
  have "bump_wf s1" using map_page_wf [OF mmu_invD(3) [OF Suc.prems(1)] m] by simp
  then have live: "has_region s1" using map_range_loop_live [OF _ l Suc.prems(2,6)] by simp
  from map_page_step [OF Suc.prems(1) v0 m live] obtain A1 F1 where 1: "mmu_inv s1 A1 F1" "A \<subseteq> A1"
    "pt_root s1 = pt_root s"
    "\<And>w. eff_pte (pf_mem s1) (pt_root s) w = (if same_page w v then p OR flags else eff_pte (pf_mem s) (pt_root s) w)"
    "grows (pml4_index v < 256 \<longrightarrow> open_entry flags) A1 (pt_root s) (pf_mem s) (pf_mem s1)"
    by blast
  have n: "n = pages_upto (v + PAGE_SIZE) vend" using step Suc.hyps(2) by simp
  have pg: "page_at (v + PAGE_SIZE) k \<noteq> NULL \<and> pml4_index (page_at (v + PAGE_SIZE) k) \<noteq> 256"
    if "k < pages_upto (v + PAGE_SIZE) vend" for k
    unfolding page_at_Suc using that step by (intro Suc.prems(4)) simp
  from Suc.hyps(1) [OF n 1(1) Suc.prems(2) _ pg l Suc.prems(6)] step Suc.prems(3) n obtain A' F' where
    2: "mmu_inv s' A' F'" "A1 \<subseteq> A'" "pt_root s' = pt_root s1"
    "range_mapped (eff_pte (pf_mem s1) (pt_root s1)) (eff_pte (pf_mem s') (pt_root s1)) n
       (v + PAGE_SIZE) (p + PAGE_SIZE) flags"
    "grows (open_entry flags \<or> (\<forall>k < n. \<not> pml4_index (page_at (v + PAGE_SIZE) k) < 256)) A' (pt_root s1) (pf_mem s1) (pf_mem s')" by auto
  have b: "unat v + 4096 * Suc n < 2 ^ 64"
    using pages_upto_less [of n v vend] Suc.hyps(2) Suc.prems(2) by simp
  have "range_mapped (eff_pte (pf_mem s) (pt_root s)) (eff_pte (pf_mem s') (pt_root s)) (Suc n) v p flags"
    using 2(4) unfolding 1(3) using Suc.prems(3) Suc.hyps(2) b 1(4) by (intro range_mapped_Suc) auto
  moreover have "grows (open_entry flags \<or> (\<forall>k < Suc n. \<not> pml4_index (page_at v k) < 256)) A' (pt_root s) (pf_mem s) (pf_mem s')"
  proof (rule grows_trans [OF grows_weak [OF 1(5)] grows_weak [OF 2(5) [unfolded 1(3)]] 2(2)])
    assume a: "open_entry flags \<or> (\<forall>k < Suc n. \<not> pml4_index (page_at v k) < 256)"
    then show "pml4_index v < 256 \<longrightarrow> open_entry flags" by (auto dest: spec [of _ 0])
    from a show "open_entry flags \<or> (\<forall>k < n. \<not> pml4_index (page_at (v + PAGE_SIZE) k) < 256)"
      unfolding page_at_Suc by auto
  qed
  moreover have "A \<subseteq> A'" "pt_root s' = pt_root s" using 1(2,3) 2(2,3) by auto
  ultimately show ?case using 2(1) unfolding Suc.hyps(2) [symmetric] by blast
qed

lemma map_range_spec:
  assumes inv: "mmu_inv s A F" and nw: "unat vstart + unat len + 4096 \<le> 2 ^ 64" and sz: "unat len \<le> 2 ^ 47"
    and np: "\<forall>k. 4096 * k < unat len \<longrightarrow> page_at vstart k \<noteq> NULL \<and> pml4_index (page_at vstart k) \<noteq> 256"
    and r: "map_range pstart vstart len flags s = Inr s'" and live: "has_region s'"
  shows "(\<exists>A' F'. mmu_inv s' A' F' \<and> A \<subseteq> A' \<and>
         grows (open_entry flags \<or> (\<forall>k. 4096 * k < unat len \<longrightarrow> \<not> pml4_index (page_at vstart k) < 256)) A' (pt_root s) (pf_mem s) (pf_mem s')) \<and>
       (\<forall>k v. 4096 * k < unat len \<longrightarrow> same_page v (page_at vstart k) \<longrightarrow>
          eff_pte (pf_mem s') (pt_root s') v = (page_at pstart k OR flags)) \<and>
       (\<forall>v. (\<forall>k. 4096 * k < unat len \<longrightarrow> \<not> same_page v (page_at vstart k)) \<longrightarrow>
          eff_pte (pf_mem s') (pt_root s') v = eff_pte (pf_mem s) (pt_root s) v) \<and> pt_root s' = pt_root s"
proof -
  let ?vend = "vstart + len"
  have u: "unat ?vend = unat vstart + unat len" using nw by (simp add: unat_word_ariths)
  have e: "unat ?vend + 4096 \<le> 2 ^ 64" using u nw by simp
  have pg: "k < pages_upto vstart ?vend \<longleftrightarrow> 4096 * k < unat len" for k
    by (simp add: pages_upto_less u)
  have n: "pages_upto vstart ?vend < 2 ^ 36"
    using sz by (simp add: pages_upto_def u less_mult_imp_div_less)
  have np': "page_at vstart k \<noteq> NULL \<and> pml4_index (page_at vstart k) \<noteq> 256"
    if "k < pages_upto vstart ?vend" for k using np that pg by blast
  have l: "map_range_loop ?vend vstart pstart flags s = Some (Inr s')"
    using r by (simp add: map_range_def split: option.splits)
  from map_range_loop_spec [OF inv e n np' l live] obtain A' F' where
    1: "mmu_inv s' A' F'" "A \<subseteq> A'" and root: "pt_root s' = pt_root s"
    and m: "range_mapped (eff_pte (pf_mem s) (pt_root s)) (eff_pte (pf_mem s') (pt_root s))
       (pages_upto vstart ?vend) vstart pstart flags"
    and g: "grows (open_entry flags \<or> (\<forall>k < pages_upto vstart ?vend. \<not> pml4_index (page_at vstart k) < 256)) A' (pt_root s) (pf_mem s) (pf_mem s')" by blast
  from g have g': "grows (open_entry flags \<or> (\<forall>k. 4096 * k < unat len \<longrightarrow> \<not> pml4_index (page_at vstart k) < 256)) A' (pt_root s) (pf_mem s) (pf_mem s')"
    unfolding pg .
  from m have m1: "\<forall>k v. 4096 * k < unat len \<longrightarrow> same_page v (page_at vstart k) \<longrightarrow> eff_pte (pf_mem s') (pt_root s) v = (page_at pstart k OR flags)"
    and m2: "\<forall>v. (\<forall>k. 4096 * k < unat len \<longrightarrow> \<not> same_page v (page_at vstart k)) \<longrightarrow> eff_pte (pf_mem s') (pt_root s) v = eff_pte (pf_mem s) (pt_root s) v"
    unfolding range_mapped_def pg by blast+
  show ?thesis unfolding root by (intro conjI exI [of _ A'] exI [of _ F'] 1 g' m1 m2 refl)
qed

lemma map_range_ends:
  assumes "bump_wf s" and "unat vstart + unat len + 4096 \<le> 2 ^ 64"
  shows "map_range pstart vstart len flags s \<noteq> Inl Diverge"
proof -
  have e: "unat (vstart + len) + 4096 \<le> 2 ^ 64"
    using assms(2) by (simp add: unat_word_ariths)
  obtain r where r: "map_range_loop (vstart + len) vstart pstart flags s = Some r"
    using map_range_loop_ends [OF e] by blast
  from map_range_loop_halt [OF assms(1) e r] r show ?thesis by (auto simp: map_range_def)
qed

section \<open>Looking up an entry\<close>

text \<open>The address translation the tables define; \<open>None\<close> is a page fault.\<close>

definition translate :: "(u64 \<Rightarrow> u64) \<Rightarrow> u64 \<Rightarrow> u64 \<Rightarrow> u64 option" where
  "translate m root v =
     (if pte_present (eff_pte m root v)
      then Some (push_bit 12 (pte_base_addr (eff_pte m root v)) + (v AND 0xFFF)) else None)"

lemma child_Some: "child e = Some t \<Longrightarrow> push_bit 12 (pte_base_addr e) = t"
  by (auto simp: child_def split: if_splits)

lemma frame_base_or_flags:
  assumes "page_aligned f" and "unat f < 2 ^ 52" and "pte_base_addr flags = 0"
  shows "push_bit 12 (pte_base_addr (f OR flags)) = f"
proof -
  have "pte_base_addr (f OR flags) = pte_base_addr f OR pte_base_addr flags"
    by (rule bit_eqI) (auto simp: pte_base_addr_def bit_simps)
  with assms(3) frame_roundtrip [OF assms(1,2)] show ?thesis by (simp add: pte_base_addr_def)
qed

lemma frame_like_room: "frame_like t \<Longrightarrow> i < 512 \<Longrightarrow> unat (t + 8 * i) < 2 ^ 46"
proof -
  assume t: "frame_like t" and i: "i < 512"
  then obtain a where a: "unat t = 4096 * a"
    by (metis frame_like_def page_aligned_unat mod_0_imp_dvd dvdE)
  moreover have "unat t < 2 ^ 46" using t by (simp add: frame_like_def)
  moreover have "unat i < 512" using i by (simp add: word_less_nat_alt)
  moreover from calculation have "4096 * a + 4096 \<le> 2 ^ 46" by simp
  ultimately have "unat t + 8 * unat i < 2 ^ 46" by linarith
  then show ?thesis by (simp only: unat_cell [OF t i])
qed

lemma entry_ptr_virt: "entry_ptr (GET_VIRT_ADDR t) i = GET_VIRT_ADDR (t + 8 * i)"
  by (simp add: entry_ptr_def GET_VIRT_ADDR_def)

lemma get_page_frame_path:
  assumes inv: "mmu_inv s A F" and t: "tbl (pf_mem s) (pt_root s) (table_path v) = Some t"
  shows "get_page_frame v s = entry_ptr (GET_VIRT_ADDR t) (pt_index v)" and "get_page_frame v s \<noteq> NULL"
proof -
  note d = mmu_invD [OF inv]
  from t obtain t1 t2 where 1: "child (pf_mem s (pt_root s + 8 * pml4_index v)) = Some t1"
    and 2: "child (pf_mem s (t1 + 8 * pdp_index v)) = Some t2"
    and 3: "child (pf_mem s (t2 + 8 * pd_index v)) = Some t"
    by (auto simp: table_path_def split: option.splits)
  have p: "tbl (pf_mem s) (pt_root s) [pml4_index v] = Some t1"
    "tbl (pf_mem s) (pt_root s) [pml4_index v, pdp_index v] = Some t2"
    using 1 2 by simp_all
  have fl: "frame_like t1" "frame_like t2" "frame_like t"
    using d(4) [OF pt_okD(1) [OF d(2) _ p(1)]] d(4) [OF pt_okD(1) [OF d(2) _ p(2)]]
      d(4) [OF pt_okD(1) [OF d(2) vpath_table_path(1) t]] by (simp_all add: vpath_def)
  have nn: "GET_VIRT_ADDR t1 \<noteq> NULL" "GET_VIRT_ADDR t2 \<noteq> NULL" "GET_VIRT_ADDR t \<noteq> NULL"
    using fl by (auto intro!: GET_VIRT_nonnull simp: frame_like_def)
  have "entry_to_table (mu_pml4 s) (pml4_index v) s = GET_VIRT_ADDR t1"
    "entry_to_table (GET_VIRT_ADDR t1) (pdp_index v) s = GET_VIRT_ADDR t2"
    "entry_to_table (GET_VIRT_ADDR t2) (pd_index v) s = GET_VIRT_ADDR t"
    using child_Some [OF 1] child_Some [OF 2] child_Some [OF 3]
    by (simp_all add: entry_to_table_def flip: root_virt)
  with nn show eq: "get_page_frame v s = entry_ptr (GET_VIRT_ADDR t) (pt_index v)"
    by (simp add: get_page_frame_def Let_def)
  show "get_page_frame v s \<noteq> NULL"
    unfolding eq entry_ptr_virt by (rule GET_VIRT_nonnull [OF frame_like_room [OF fl(3)]]) simp
qed

section \<open>Demand paging\<close>

definition demand_entry :: "u64 \<Rightarrow> u64 \<Rightarrow> u64" where
  "demand_entry f e = unset_bit 9 (set_bit 0 (pte_set_base_addr (drop_bit 12 f) e))"

lemma demand_entry_fields:
  assumes "frame_like f"
  shows "pte_present (demand_entry f e)" "\<not> pte_allocated (demand_entry f e)"
    "push_bit 12 (pte_base_addr (demand_entry f e)) = f"
    "n < 64 \<Longrightarrow> n < 12 \<or> 52 \<le> n \<Longrightarrow> n \<noteq> 0 \<Longrightarrow> n \<noteq> 9 \<Longrightarrow> bit (demand_entry f e) n = bit e n"
proof -
  show "pte_present (demand_entry f e)" "\<not> pte_allocated (demand_entry f e)"
    by (simp_all add: demand_entry_def pte_present_def pte_allocated_def bit_simps)
  have "unat f < 2 ^ 52" using assms by (simp add: frame_like_def)
  with assms show "push_bit 12 (pte_base_addr (demand_entry f e)) = f"
    using frame_roundtrip [of f] by (simp only: demand_entry_def pte_base_of_set pte_base_set_bit frame_like_def)
  show "n < 64 \<Longrightarrow> n < 12 \<or> 52 \<le> n \<Longrightarrow> n \<noteq> 0 \<Longrightarrow> n \<noteq> 9 \<Longrightarrow> bit (demand_entry f e) n = bit e n"
    by (auto simp: demand_entry_def pte_set_base_flags bit_simps)
qed

lemma pt_ok_mono: "pt_ok m root A \<Longrightarrow> A \<subseteq> B \<Longrightarrow> pt_ok m root B"
  unfolding pt_ok_def by blast

lemma page_fault_step:
  assumes inv: "mmu_inv s A F" and al: "pte_allocated (eff_pte (pf_mem s) (pt_root s) v)"
    and r: "page_fault_handler v s = Inr s'" and live: "has_region s'"
  shows "\<exists>f. f \<notin> A \<and> frame_like f \<and> mmu_inv s' (insert f A) (tl F) \<and> pt_root s' = pt_root s \<and>
     (\<forall>w. eff_pte (pf_mem s') (pt_root s) w =
        (if same_page w v then demand_entry f (eff_pte (pf_mem s) (pt_root s) v)
         else eff_pte (pf_mem s) (pt_root s) w)) \<and>
     (\<forall>q. vpath q \<longrightarrow> tbl (pf_mem s') (pt_root s) q = tbl (pf_mem s) (pt_root s) q) \<and>
     (f \<in> set F \<or> frame_usable (pf_map s) f) \<and> grows True (insert f A) (pt_root s) (pf_mem s) (pf_mem s')"
proof -
  note d = mmu_invD [OF inv]
  from al obtain t where t: "tbl (pf_mem s) (pt_root s) (table_path v) = Some t"
    and e: "eff_pte (pf_mem s) (pt_root s) v = pf_mem s (t + 8 * pt_index v)"
    by (auto simp: eff_pte_def pte_allocated_def split: option.splits)
  note g = get_page_frame_path [OF inv t]
  from r g(2) al obtain f s1 where a: "MMU_pf_alloc s = Inr (f, s1)"
    and s': "s' = dm_write (get_page_frame v s)
       (demand_entry f (dm_read (get_page_frame v s) s1)) s1"
    by (auto simp: page_fault_handler_def Let_def demand_entry_def res_iff split: if_splits)
  have live1: "has_region s1" using live s' by simp
  note al1 = pf_alloc_mmu [OF inv a live1]
  have root: "pt_root s1 = pt_root s" by (simp add: pt_root_def al1(4))
  have i1: "mmu_inv s1 (insert f A) (tl F)"
    using al1(2,3) pt_ok_mono [OF d(2), of "insert f A"] root by (auto simp: mmu_inv_def)
  have s'': "s' = s1\<lparr>pf_mem := leaf_write (pf_mem s1) t v (demand_entry f (eff_pte (pf_mem s) (pt_root s) v))\<rparr>"
    by (simp add: s' g(1) dm_write_entry leaf_write_def e al1(3))
  have t1: "tbl (pf_mem s1) (pt_root s1) (table_path v) = Some t" using t by (simp add: al1(3) root)
  have "eff_pte (pf_mem s') (pt_root s) w =
        (if same_page w v then demand_entry f (eff_pte (pf_mem s) (pt_root s) v)
         else eff_pte (pf_mem s) (pt_root s) w)" for w
    using leaf_eff_pte [OF d(2,4) t] by (simp add: s'' al1(3))
  moreover have "mmu_inv s' (insert f A) (tl F)" unfolding s'' by (rule leaf_write_inv [OF i1 t1])
  moreover have "pt_root s' = pt_root s" using root by (simp add: s'' pt_root_def)
  moreover have "tbl (pf_mem s') (pt_root s) q = tbl (pf_mem s) (pt_root s) q" if "vpath q" for q
    using leaf_tbl [OF d(2,4) t that] by (simp add: s'' al1(3))
  moreover have "grows True (insert f A) (pt_root s) (pf_mem s) (pf_mem s')"
    using grows_mono [OF leaf_grows [OF d(2,4) t], of "insert f A"] by (auto simp: s'' al1(3))
  ultimately show ?thesis using al1(1,5,7) by blast
qed

text \<open>On a reserved page the handler only halts when no frame is left; on every other page it does halt.\<close>

lemma page_fault_outcome:
  assumes inv: "mmu_inv s A F" and al: "pte_allocated (eff_pte (pf_mem s) (pt_root s) v)"
  shows "page_fault_handler v s = Inl OutOfMemory \<or> (\<exists>s'. page_fault_handler v s = Inr s')"
proof -
  note d = mmu_invD [OF inv]
  from al obtain t where t: "tbl (pf_mem s) (pt_root s) (table_path v) = Some t"
    and e: "eff_pte (pf_mem s) (pt_root s) v = pf_mem s (t + 8 * pt_index v)"
    by (auto simp: eff_pte_def pte_allocated_def split: option.splits)
  note g = get_page_frame_path [OF inv t]
  have "MMU_pf_alloc s = Inl OutOfMemory \<or> (\<exists>f s'. MMU_pf_alloc s = Inr (f, s'))"
    using check_addr_outcome [OF d(3)] by (auto simp: MMU_pf_alloc_def pop_free_pf_def split: if_splits)
  with g e al show ?thesis by (auto simp: page_fault_handler_def Let_def)
qed

lemma page_fault_invalid:
  assumes inv: "mmu_inv s A F" and t: "tbl (pf_mem s) (pt_root s) (table_path v) = Some t"
    and na: "\<not> pte_allocated (eff_pte (pf_mem s) (pt_root s) v)"
  shows "page_fault_handler v s = Inl HaltLoop"
  using get_page_frame_path [OF inv t] na t
  by (simp add: page_fault_handler_def eff_pte_def)

section \<open>Releasing the frame of an address\<close>

lemma free_cell_tables:
  assumes ok: "pt_ok m root A" and fr: "\<And>g. g \<in> A \<Longrightarrow> frame_like g" and f: "f \<in> A"
    and nt: "\<And>q. vpath q \<Longrightarrow> tbl m root q \<noteq> Some f"
  shows "vpath q \<Longrightarrow> tbl (m(f := x)) root q = tbl m root q"
    and "pt_ok (m(f := x)) root (A - {f})"
    and "eff_pte (m(f := x)) root v = eff_pte m root v"
proof -
  have cell: "u + 8 * j \<noteq> f" if "vpath p" "tbl m root p = Some u" "j < 512" for p u j
  proof
    assume "u + 8 * j = f"
    then have "u + 8 * j = f + 8 * 0" by simp
    then have "u = f"
      using cell_inj [OF fr [OF pt_okD(1) [OF ok that(1,2)]] fr [OF f] that(3), of 0] by simp
    with nt [OF that(1)] that(2) show False by simp
  qed
  have same: "tbl (m(f := x)) root q = tbl m root q" if "vpath q" for q
    using that by (rule tbl_agree) (auto simp: vpath_snoc dest: cell)
  then show "vpath q \<Longrightarrow> tbl (m(f := x)) root q = tbl m root q" .
  show "pt_ok (m(f := x)) root (A - {f})"
    unfolding pt_ok_def
  proof (intro conjI allI impI)
    fix p u i assume p: "vpath (p @ [i])" "p = [] \<or> hd p \<noteq> 256" and u: "tbl (m(f := x)) root p = Some u"
    have pv: "vpath p" "i < 512" using p by (auto simp: vpath_snoc)
    with pt_okD(3) [OF ok p] cell [OF pv(1) _ pv(2)] same u show "\<not> pte_huge ((m(f := x)) (u + 8 * i))"
      by auto
  qed (use same nt pt_okD(1,2) [OF ok] in auto)
  show "eff_pte (m(f := x)) root v = eff_pte m root v"
    using same [of "table_path v"] cell [OF vpath_table_path(1)] by (simp add: eff_pte_def split: option.splits)
qed

lemma eff_pte_at: "tbl m root (table_path v) = Some t \<Longrightarrow> eff_pte m root v = m (t + 8 * pt_index v)"
  by (simp add: eff_pte_def)

lemma pt_root_free: "pt_root (MMU_pf_free g s) = pt_root s"
  by (simp add: MMU_pf_free_def push_free_pf_def dm_write_def Let_def pt_root_def)

lemma free_pf_present:
  assumes inv: "mmu_inv s A F" and pr: "pte_present (eff_pte (pf_mem s) (pt_root s) v)"
    and f: "push_bit 12 (pte_base_addr (eff_pte (pf_mem s) (pt_root s) v)) \<in> A" (is "?f \<in> A")
    and nt: "\<And>q. vpath q \<Longrightarrow> tbl (pf_mem s) (pt_root s) q \<noteq>
               Some (push_bit 12 (pte_base_addr (eff_pte (pf_mem s) (pt_root s) v)))"
    and r: "free_pf_from_virtual_addr v s = (c, s')"
  shows "c = 1" and "mmu_inv s' (A - {?f}) (?f # F)" and "pt_root s' = pt_root s"
    and "eff_pte (pf_mem s') (pt_root s) w =
       (if same_page w v then unset_bit 0 (eff_pte (pf_mem s) (pt_root s) v)
        else eff_pte (pf_mem s) (pt_root s) w)"
proof -
  note d = mmu_invD [OF inv]
  from pr obtain t where t: "tbl (pf_mem s) (pt_root s) (table_path v) = Some t"
    and e: "eff_pte (pf_mem s) (pt_root s) v = pf_mem s (t + 8 * pt_index v)"
    by (auto simp: eff_pte_def pte_present_def split: option.splits)
  note g = get_page_frame_path [OF inv t]
  have pa: "page_aligned ?f" using d(4) [OF f] by (simp add: frame_like_def)
  let ?s1 = "MMU_pf_free ?f s"
  have m1: "pf_mem ?s1 = (pf_mem s)(?f := pf_free_pool s)"
    using MMU_pf_free_eq [OF pa, of s] by simp
  note root = pt_root_free [of ?f s]
  note fc = free_cell_tables [OF d(2,4) f nt]
  have i1: "mmu_inv ?s1 (A - {?f}) (?f # F)"
    using MMU_pf_free_inv [OF d(1) f] fc(2) by (simp add: mmu_inv_def root m1)
  have t1: "tbl (pf_mem ?s1) (pt_root ?s1) (table_path v) = Some t"
    using fc(1) t by (simp add: root m1)
  have e1: "pf_mem ?s1 (t + 8 * pt_index v) = eff_pte (pf_mem s) (pt_root s) v"
    using eff_pte_at [OF t1] fc(3) [of "pf_free_pool s" v] by (simp only: m1 root)
  let ?e = "unset_bit 0 (eff_pte (pf_mem s) (pt_root s) v)"
  have "free_pf_from_virtual_addr v s = (1, ?s1\<lparr>pf_mem := leaf_write (pf_mem ?s1) t v ?e\<rparr>)"
    using pr g e e1 by (simp add: free_pf_from_virtual_addr_def Let_def dm_write_entry leaf_write_def)
  with r have c: "c = 1" and s': "s' = ?s1\<lparr>pf_mem := leaf_write (pf_mem ?s1) t v ?e\<rparr>" by auto
  show "c = 1" by (rule c)
  show "mmu_inv s' (A - {?f}) (?f # F)" unfolding s' by (rule leaf_write_inv [OF i1 t1])
  show "pt_root s' = pt_root s" using root by (simp add: s' pt_root_def)
  note d1 = mmu_invD [OF i1]
  show "eff_pte (pf_mem s') (pt_root s) w =
       (if same_page w v then ?e else eff_pte (pf_mem s) (pt_root s) w)"
    using leaf_eff_pte [OF d1(2,4) t1] fc(3) by (simp add: s' root m1)
qed

lemma free_keeps_path:
  assumes inv: "mmu_inv s A F" and pr: "pte_present (eff_pte (pf_mem s) (pt_root s) v)"
    and f: "push_bit 12 (pte_base_addr (eff_pte (pf_mem s) (pt_root s) v)) \<in> A" (is "?f \<in> A")
    and nt: "\<And>q. vpath q \<Longrightarrow> tbl (pf_mem s) (pt_root s) q \<noteq>
               Some (push_bit 12 (pte_base_addr (eff_pte (pf_mem s) (pt_root s) v)))"
    and r: "free_pf_from_virtual_addr v s = (c, s')"
  shows "\<exists>t. tbl (pf_mem s') (pt_root s') (table_path v) = Some t"
proof -
  note d = mmu_invD [OF inv]
  from pr obtain t where t: "tbl (pf_mem s) (pt_root s) (table_path v) = Some t"
    and e: "eff_pte (pf_mem s) (pt_root s) v = pf_mem s (t + 8 * pt_index v)"
    by (auto simp: eff_pte_def pte_present_def split: option.splits)
  note g = get_page_frame_path [OF inv t]
  have pa: "page_aligned ?f" using d(4) [OF f] by (simp add: frame_like_def)
  let ?s1 = "MMU_pf_free ?f s"
  have m1: "pf_mem ?s1 = (pf_mem s)(?f := pf_free_pool s)"
    using MMU_pf_free_eq [OF pa, of s] by simp
  note root = pt_root_free [of ?f s] and fc = free_cell_tables [OF d(2,4) f nt]
  have i1: "pt_ok (pf_mem ?s1) (pt_root s) (A - {?f})" using fc(2) by (simp add: m1)
  have t1: "tbl (pf_mem ?s1) (pt_root s) (table_path v) = Some t"
    using fc(1) t by (simp add: m1)
  have "\<exists>x. s' = ?s1\<lparr>pf_mem := leaf_write (pf_mem ?s1) t v x\<rparr>"
    using r pr g e by (auto simp: free_pf_from_virtual_addr_def Let_def dm_write_entry leaf_write_def)
  then show ?thesis
    using leaf_tbl [OF i1 _ t1 vpath_table_path(1) [of v]] d(4) t1 root by (auto simp: pt_root_def)
qed

lemma user_allocate_range_eq:
  "user_allocate_range start len perms s = map_range 0 start len (user_flags perms) s"
  by (cases "perm_w perms"; cases "perm_x perms") (simp_all add: user_allocate_range_def user_flags_def)

lemma user_flags_bits:
  "bit (user_flags perms) 0 = False" "bit (user_flags perms) 9" "bit (user_flags perms) 2"
  "bit (user_flags perms) 1 = perm_w perms" "bit (user_flags perms) 63 = (\<not> perm_x perms)"
  by (simp_all add: user_flags_def PAGE_ALLOCATED_def PAGE_USER_ACCESS_def PAGE_WRITABLE_def
      PAGE_NO_EXECUTE_def)

lemma page_at_0_bits:
  assumes "4096 * k < 2 ^ 47"
  shows "n < 12 \<Longrightarrow> \<not> bit (page_at 0 k) n" "\<not> bit (page_at 0 k) 63"
proof -
  have u: "unat (page_at 0 k) = 4096 * k" using unat_page_at [of 0 k] assms by simp
  have e: "page_at 0 k = push_bit 12 (of_nat k)" by (simp add: page_at_def push_bit_eq_mult)
  show "n < 12 \<Longrightarrow> \<not> bit (page_at 0 k) n" by (simp add: e bit_simps)
  have "take_bit 63 (page_at 0 k) = page_at 0 k"
    using u assms by (simp add: word_unat_eq_iff unsigned_take_bit_eq take_bit_nat_eq_self_iff)
  then show "\<not> bit (page_at 0 k) 63" by (metis bit_take_bit_iff less_irrefl)
qed

section \<open>Enough memory\<close>

text \<open>
  At least \<open>n\<close> more frames can be taken before the bump pointer leaves the memory map, whatever is in the free pool.
\<close>

fun bump_room :: "nat \<Rightarrow> pf_state \<Rightarrow> bool" where
  "bump_room 0 s \<longleftrightarrow> bump_wf s \<and> has_region s"
| "bump_room (Suc n) s \<longleftrightarrow> bump_wf s \<and> has_region s \<and>
     (case check_addr s of Some (Inr (f, s')) \<Rightarrow> bump_room n s' | _ \<Rightarrow> False)"

definition bump_core :: "'a pf_state_scheme \<Rightarrow> pf_state" where
  "bump_core s = \<lparr>pf_mem = \<lambda>_. 0, pf_map = pf_map s, pf_free_pool = NULL, pf_current = pf_current s, pf_region = pf_region s\<rparr>"

definition room :: "nat \<Rightarrow> 'a pf_state_scheme \<Rightarrow> bool" where
  "room n s \<longleftrightarrow> bump_room n (bump_core s)"

lemma bump_core_fields [simp]:
  "pf_map (bump_core s) = pf_map s" "pf_current (bump_core s) = pf_current s" "pf_region (bump_core s) = pf_region s"
  "bump_wf (bump_core s) = bump_wf s" "has_region (bump_core s) = has_region s"
  by (simp_all add: bump_core_def bump_wf_def has_region_def)

lemma room_core:
  assumes "pf_map s' = pf_map s" and "pf_current s' = pf_current s" and "pf_region s' = pf_region s"
  shows "room n s' = room n s"
  using assms by (simp add: room_def bump_core_def)

lemma room_wf: "room n s \<Longrightarrow> bump_wf s"
  by (cases n) (auto simp: room_def)

lemma room_region: "room n s \<Longrightarrow> has_region s"
  by (cases n) (auto simp: room_def)

lemma room_fields [simp]: "room n (s\<lparr>pf_mem := m\<rparr>) = room n s" "room n (s\<lparr>pf_free_pool := p\<rparr>) = room n s"
  by (rule room_core; simp)+

lemma bump_room_mono: "bump_room (Suc n) s \<Longrightarrow> bump_room n s"
proof (induction n arbitrary: s)
  case (Suc n)
  from Suc.prems obtain f s1 where "check_addr s = Some (Inr (f, s1))" "bump_room (Suc n) s1" "bump_wf s" "has_region s"
    by (auto split: option.splits sum.splits)
  with Suc.IH [of s1] show ?case by simp
qed simp

lemma room_mono: "room (Suc n) s \<Longrightarrow> room n s"
  unfolding room_def by (rule bump_room_mono)

lemma room_le: "room n s \<Longrightarrow> k \<le> n \<Longrightarrow> room k s"
  by (induction n) (auto simp: le_Suc_eq dest: room_mono)

text \<open>The loop of the allocator depends on its position and the memory map alone.\<close>

lemma enter_region_core:
  "enter_region (bump_core s) = map_sum id bump_core (enter_region s)"
  by (auto simp: enter_region_def bump_core_def Let_def bind_res_def split: sum.split)

lemma check_addr_core:
  "bump_wf s \<Longrightarrow> check_addr (bump_core s) = map_option (map_sum id (apsnd bump_core)) (check_addr s)"
proof (induction s rule: check_addr_induct)
  case (stop s e)
  then show ?case by (simp add: check_addr.simps [of s] check_addr.simps [of "bump_core s"] enter_region_core)
next
  case (step s s1)
  have c: "(bump_core s1)\<lparr>pf_current := x\<rparr> = bump_core (s1\<lparr>pf_current := x\<rparr>)" for x by (simp add: bump_core_def)
  have e: "enter_region (bump_core s) = Inr (bump_core s1)" by (simp add: enter_region_core step(2))
  show ?case
    unfolding check_addr.simps [of "bump_core s"] check_addr.simps [of s] e step(2)
    using step(4) by (simp add: c)
qed

lemma room_alloc:
  assumes r: "room (Suc n) s"
  shows "\<exists>f s'. MMU_pf_alloc s = Inr (f, s') \<and> room n s'"
proof (cases "pf_free_pool s = NULL")
  case False
  with room_mono [OF r] show ?thesis by (simp add: MMU_pf_alloc_def pop_free_pf_def)
next
  case True
  from r obtain f t where 1: "check_addr (bump_core s) = Some (Inr (f, t))" "bump_room n t"
    by (auto simp: room_def split: option.splits sum.splits)
  with check_addr_core [OF room_wf [OF r]] obtain s' where c: "check_addr s = Some (Inr (f, s'))" and t: "t = bump_core s'"
    by (cases "check_addr s") (auto simp: map_sum_def split: sum.splits)
  with 1(2) True show ?thesis by (simp add: MMU_pf_alloc_def pop_free_pf_def room_def)
qed

lemma room_table:
  assumes "room (Suc n) s"
  shows "\<exists>q s'. get_or_alloc_table parent i flags s = Inr (q, s') \<and> room n s'"
proof -
  obtain f s1 where "MMU_pf_alloc s = Inr (f, s1)" "room n s1" using room_alloc [OF assms] by blast
  with room_mono [OF assms] show ?thesis
    by (simp add: get_or_alloc_table_def allocate_table_def Let_def dm_write_def memset_table_def)
qed

lemma room_map_page:
  assumes "room (Suc (Suc (Suc n))) s"
  shows "\<exists>s'. map_page v p flags s = Inr s' \<and> room n s'"
proof (cases "v = NULL")
  case True
  with room_mono [OF room_mono [OF room_mono [OF assms]]] show ?thesis by (simp add: map_page_def)
next
  case False
  obtain pdp s1 where 1: "get_or_alloc_table (mu_pml4 s) (pml4_index v) flags s = Inr (pdp, s1)"
    "room (Suc (Suc n)) s1" using room_table [OF assms] by blast
  obtain pd s2 where 2: "get_or_alloc_table pdp (pdp_index v) flags s1 = Inr (pd, s2)"
    "room (Suc n) s2" using room_table [OF 1(2)] by blast
  obtain pt s3 where 3: "get_or_alloc_table pd (pd_index v) flags s2 = Inr (pt, s3)"
    "room n s3" using room_table [OF 2(2)] by blast
  from 1 2 3 False show ?thesis by (simp add: map_page_def dm_write_def)
qed

lemma room_fault:
  assumes "mmu_inv s A F" and "pte_allocated (eff_pte (pf_mem s) (pt_root s) v)" and "room (Suc n) s"
  shows "\<exists>s'. page_fault_handler v s = Inr s' \<and> room n s'"
proof -
  from assms(2) obtain t where t: "tbl (pf_mem s) (pt_root s) (table_path v) = Some t"
    and e: "eff_pte (pf_mem s) (pt_root s) v = pf_mem s (t + 8 * pt_index v)"
    by (auto simp: eff_pte_def pte_allocated_def split: option.splits)
  obtain f s1 where "MMU_pf_alloc s = Inr (f, s1)" "room n s1" using room_alloc [OF assms(3)] by blast
  with get_page_frame_path [OF assms(1) t] e assms(2) show ?thesis
    by (simp add: page_fault_handler_def Let_def dm_write_def)
qed

section \<open>Examples\<close>

text \<open>
  A machine whose memory is empty: the top table is the frame at 0x102000, the allocator goes
  on from there.
\<close>

definition mmu_example :: mmu_state where
  "mmu_example = \<lparr>pf_mem = (\<lambda>_. 0), pf_map = map_example, pf_free_pool = NULL, pf_current = 0x103000,
     pf_region = 0, mu_pml4 = GET_VIRT_ADDR 0x102000\<rparr>"

definition big_map_example :: memory_map where
  "big_map_example = map_example
     \<lparr>mm_regions := \<lparr>rg_start = 0x100000, rg_end = 0x200000\<rparr> # replicate 63 \<lparr>rg_start = 0, rg_end = 0\<rparr>\<rparr>"

lemma big_map_wf: "map_wf big_map_example"
  by (simp add: map_wf_def big_map_example_def map_example_def region_wf_def MAX_REGIONS_def
      align_page_def PAGE_SIZE_def list_all_iff)

definition mmu_big_example :: mmu_state where
  "mmu_big_example = mmu_example\<lparr>pf_map := big_map_example, pf_current := 0x180000\<rparr>"

lemma tbl_empty: "tbl (\<lambda>_. 0) root p = (if p = [] then Some root else None)"
  by (cases p) simp_all

lemma mmu_big_example_inv: "mmu_inv mmu_big_example {0x102000} []"
proof -
  have "frame_usable big_map_example 0x102000"
    by (simp add: frame_usable_def big_map_example_def map_example_def in_region_def
        range_contains_addr_def page_aligned_def PAGE_SIZE_def)
  then have "pf_inv mmu_big_example {0x102000} []"
    using big_map_wf
    by (simp add: pf_inv_def bump_wf_def has_region_def bump_used_def page_aligned_def PAGE_SIZE_def
        mmu_big_example_def mmu_example_def usable_owned) (simp add: big_map_example_def map_example_def)
  then show ?thesis
    by (simp add: mmu_inv_def pt_ok_def tbl_empty mmu_big_example_def mmu_example_def pt_root_def
        pte_huge_def)
qed

text \<open>
  The memory map of the examples is one range. There is room when the bump pointer is past the kernel and the boot information.
\<close>

definition one_range :: "memory_map \<Rightarrow> bool" where
  "one_range M \<longleftrightarrow> map_wf M \<and> mm_num_regions M = 1 \<and> mm_regions M ! 0 = \<lparr>rg_start = 0x100000, rg_end = 0x200000\<rparr>"

lemma bump_room_range:
  "one_range (pf_map s) \<Longrightarrow> pf_region s = 0 \<Longrightarrow> page_aligned (pf_current s) \<Longrightarrow> 0x100000 \<le> unat (pf_current s) \<Longrightarrow>
     unat (rg_end (mm_kernel (pf_map s))) \<le> unat (pf_current s) \<Longrightarrow> unat (rg_end (mm_multiboot (pf_map s))) \<le> unat (pf_current s) \<Longrightarrow>
     unat (pf_current s) + 4096 * n \<le> 0x200000 \<Longrightarrow> bump_room n s"
proof (induction n arbitrary: s)
  case (Suc n)
  have wf: "map_wf (pf_map s)" and M: "length (mm_regions (pf_map s)) = 64" "mm_regions (pf_map s) ! 0 = \<lparr>rg_start = 0x100000, rg_end = 0x200000\<rparr>"
    using Suc.prems(1) by (auto simp: one_range_def dest: map_wfD(1))
  have b: "bump_wf s" "has_region s" using Suc.prems(1-3) by (simp_all add: bump_wf_def has_region_def one_range_def)
  have lt: "0x100000 \<le> pf_current s" "pf_current s < 0x200000"
    using Suc.prems(4,7) by (simp_all add: word_le_nat_alt word_less_nat_alt)
  have u: "unat (pf_current s + PAGE_SIZE) = unat (pf_current s) + 4096"
    using lt by (simp add: unat_word_ariths PAGE_SIZE_def word_less_nat_alt)
  have h: "rg_end (mm_multiboot (pf_map s)) \<le> pf_current s" "rg_end (mm_kernel (pf_map s)) \<le> pf_current s"
    using Suc.prems(5,6) by (simp_all add: word_le_nat_alt)
  have "in_region (pf_current s) \<lparr>rg_start = 0x100000, rg_end = 0x200000\<rparr>"
    using lt by (simp add: in_region_iff word_le_nat_alt word_less_nat_alt)
  moreover have "\<not> in_region (pf_current s) (mm_multiboot (pf_map s))" "\<not> in_region (pf_current s) (mm_kernel (pf_map s))"
    using h by (simp_all add: in_region_wf [OF map_wfD(4) [OF wf]] in_region_wf [OF map_wfD(5) [OF wf]] not_less)
  ultimately have "check_addr s = Some (Inr (pf_current s, s\<lparr>pf_current := pf_current s + PAGE_SIZE\<rparr>))"
    using Suc.prems(2) M by (subst check_addr.simps) (simp add: enter_region_def region_at_def)
  moreover have "bump_room n (s\<lparr>pf_current := pf_current s + PAGE_SIZE\<rparr>)"
    by (rule Suc.IH) (use Suc.prems u in \<open>simp_all add: page_aligned_unat\<close>)
  ultimately show ?case using b by simp
qed (simp add: bump_wf_def has_region_def one_range_def)

lemma room_range:
  assumes "one_range (pf_map s)" and "pf_region s = 0" and "page_aligned (pf_current s)" and "0x100000 \<le> unat (pf_current s)"
    and "unat (rg_end (mm_kernel (pf_map s))) \<le> unat (pf_current s)" and "unat (rg_end (mm_multiboot (pf_map s))) \<le> unat (pf_current s)"
    and "unat (pf_current s) + 4096 * n \<le> 0x200000"
  shows "room n s"
  unfolding room_def by (rule bump_room_range) (use assms in simp_all)

lemma big_map_range [simp]: "one_range big_map_example"
  "unat (rg_end (mm_kernel big_map_example)) \<le> 0x180000" "unat (rg_end (mm_multiboot big_map_example)) \<le> 0x180000"
  using big_map_wf by (simp_all add: one_range_def) (simp_all add: big_map_example_def map_example_def)

lemma room_big:
  "pf_map s = big_map_example \<Longrightarrow> pf_region s = 0 \<Longrightarrow> pf_current s = 0x180000 \<Longrightarrow> n \<le> 128 \<Longrightarrow> room n s"
  by (rule room_range) (simp_all add: page_aligned_def PAGE_SIZE_def)

lemma room_example: "room 100 mmu_big_example"
  by (rule room_big) (simp_all add: mmu_big_example_def mmu_example_def)

lemma map_page_example:
  "\<exists>s'. map_page v p flags mmu_big_example = Inr s' \<and> room 97 s'"
  using room_map_page [of 97 mmu_big_example] room_example by simp

lemma map_range_example:
  "\<exists>s'. map_range p 0x400000 0x1000 flags mmu_big_example = Inr s' \<and> room 97 s'"
proof -
  obtain s' where s': "map_page 0x400000 p flags mmu_big_example = Inr s'" "room 97 s'"
    using map_page_example by blast
  have "map_range_loop 0x401000 0x401000 (p + PAGE_SIZE) flags s' = Some (Inr s')"
    by (subst map_range_loop.simps) simp
  then have "map_range_loop 0x401000 0x400000 p flags mmu_big_example = Some (Inr s')"
    using s' by (subst map_range_loop.simps) (simp add: PAGE_SIZE_def)
  with s' show ?thesis by (simp add: map_range_def)
qed

text \<open>One page is reserved at 0x400000 and then touched.\<close>

lemma reserve_example:
  "\<exists>s1 A F. user_allocate_range 0x400000 0x1000 \<lparr>perm_w = True, perm_x = False\<rparr> mmu_big_example = Inr s1 \<and>
     room 97 s1 \<and> mmu_inv s1 A F \<and> pte_allocated (eff_pte (pf_mem s1) (pt_root s1) 0x400123)"
proof -
  let ?fl = "user_flags \<lparr>perm_w = True, perm_x = False\<rparr>"
  obtain s1 where r: "map_range 0 0x400000 0x1000 ?fl mmu_big_example = Inr s1" and rm: "room 97 s1"
    using map_range_example by blast
  have np: "\<forall>k. 4096 * k < unat (0x1000 :: u64) \<longrightarrow>
      page_at 0x400000 k \<noteq> NULL \<and> pml4_index (page_at 0x400000 k) \<noteq> 256"
    by (auto simp: pml4_index_def)
  have sp: "same_page 0x400123 (page_at 0x400000 0)"
    by (simp add: same_page_def table_path_def pt_index_def pd_index_def pdp_index_def pml4_index_def)
  from map_range_spec [OF mmu_big_example_inv _ _ np r room_region [OF rm]] sp
  have "\<exists>A F. mmu_inv s1 A F" and e: "eff_pte (pf_mem s1) (pt_root s1) 0x400123 = page_at 0 0 OR ?fl"
    by (auto dest: spec [of _ 0])
  with r rm show ?thesis
    by (auto simp: user_allocate_range_eq pte_allocated_def e user_flags_bits)
qed

lemma page_at_example: "k < 2 \<Longrightarrow> page_at 0x400000 k \<noteq> NULL \<and> pml4_index (page_at 0x400000 k) \<noteq> 256"
proof -
  assume "k < 2"
  then have "k = 0 \<or> k = 1" by linarith
  then show ?thesis by (auto simp: page_at_def pml4_index_def)
qed

section \<open>Properties\<close>

text \<open>
  C3: Mapping a page makes the tables translate every address of that page to the same offset
  in the given frame, with the given flags in its entry, and changes the entry of no other
  page; the frames the tables were made of stay in use, and the free frames stay free or
  become tables.
\<close>

theorem map_page_maps_one_page:
  assumes "mmu_inv s A F" and "virt \<noteq> NULL" and "pml4_index virt \<noteq> 256"
    and "map_page virt phys flags s = Inr s'" and "has_region s'"
  shows "(\<exists>A' F'. mmu_inv s' A' F' \<and> A \<subseteq> A') \<and>
     (\<forall>v. eff_pte (pf_mem s') (pt_root s') v =
            (if same_page v virt then phys OR flags else eff_pte (pf_mem s) (pt_root s) v)) \<and>
     (page_aligned phys \<longrightarrow> unat phys < 2 ^ 52 \<longrightarrow> bit flags 0 \<longrightarrow> pte_base_addr flags = 0 \<longrightarrow>
        (\<forall>v. same_page v virt \<longrightarrow> translate (pf_mem s') (pt_root s') v = Some (phys + (v AND 0xFFF))))"
proof -
  from map_page_step [OF assms] obtain A' F' where 1: "mmu_inv s' A' F'" "A \<subseteq> A'"
    and root: "pt_root s' = pt_root s"
    and eff: "\<forall>v. eff_pte (pf_mem s') (pt_root s) v =
            (if same_page v virt then phys OR flags else eff_pte (pf_mem s) (pt_root s) v)" by blast
  have "translate (pf_mem s') (pt_root s') v = Some (phys + (v AND 0xFFF))"
    if p: "page_aligned phys" "unat phys < 2 ^ 52" "bit flags 0" "pte_base_addr flags = 0"
      and v: "same_page v virt" for v
    using eff v p(3) frame_base_or_flags [OF p(1,2,4)]
    by (simp add: translate_def root pte_present_def bit_simps)
  with 1 eff root show ?thesis by auto
qed

theorem map_page_maps_one_page_witness:
  "\<exists>s'. map_page 0x400000 0x150000 3 mmu_big_example = Inr s' \<and>
     translate (pf_mem s') (pt_root s') 0x400123 = Some 0x150123"
proof -
  obtain s' where r: "map_page 0x400000 0x150000 3 mmu_big_example = Inr s'" and live: "has_region s'"
    using map_page_example room_region by blast
  have sp: "same_page 0x400123 0x400000"
    by (simp add: same_page_def table_path_def pt_index_def pd_index_def pdp_index_def pml4_index_def)
  from map_page_maps_one_page [OF mmu_big_example_inv _ _ r live] sp r show ?thesis
    by (simp add: pml4_index_def page_aligned_def PAGE_SIZE_def pte_base_addr_def mask_eq_exp_minus_1)
qed

text \<open>
  Mapping a range that does not wrap around ends, and afterwards the entry of every page
  of the range holds the frame at the same distance from the start of the physical range, with
  the given flags; the entries of all other pages are as before.
\<close>

theorem map_range_maps_every_page:
  assumes "mmu_inv s A F" and "unat vstart + unat len + 4096 \<le> 2 ^ 64" and "unat len \<le> 2 ^ 47"
    and "\<forall>k. 4096 * k < unat len \<longrightarrow> page_at vstart k \<noteq> NULL \<and> pml4_index (page_at vstart k) \<noteq> 256"
  shows "map_range pstart vstart len flags s \<noteq> Inl Diverge \<and>
    (\<forall>s'. map_range pstart vstart len flags s = Inr s' \<longrightarrow> has_region s' \<longrightarrow>
       (\<exists>A' F'. mmu_inv s' A' F' \<and> A \<subseteq> A') \<and>
       (\<forall>k v. 4096 * k < unat len \<longrightarrow> same_page v (page_at vstart k) \<longrightarrow>
          eff_pte (pf_mem s') (pt_root s') v = (page_at pstart k OR flags)) \<and>
       (\<forall>v. (\<forall>k. 4096 * k < unat len \<longrightarrow> \<not> same_page v (page_at vstart k)) \<longrightarrow>
          eff_pte (pf_mem s') (pt_root s') v = eff_pte (pf_mem s) (pt_root s) v))"
proof (intro conjI allI impI)
  show "map_range pstart vstart len flags s \<noteq> Inl Diverge" by (rule map_range_ends [OF mmu_invD(3) [OF assms(1)] assms(2)])
  fix s' assume "map_range pstart vstart len flags s = Inr s'" "has_region s'"
  note m = map_range_spec [OF assms this]
  then show "\<exists>A' F'. mmu_inv s' A' F' \<and> A \<subseteq> A'" by blast
  show "eff_pte (pf_mem s') (pt_root s') v = (page_at pstart k OR flags)"
    if "4096 * k < unat len" "same_page v (page_at vstart k)" for k v using m that by blast
  show "eff_pte (pf_mem s') (pt_root s') v = eff_pte (pf_mem s) (pt_root s) v"
    if "\<forall>k. 4096 * k < unat len \<longrightarrow> \<not> same_page v (page_at vstart k)" for v using m that by blast
qed

theorem map_range_maps_every_page_witness:
  "\<exists>s'. map_range 0x150000 0x400000 0x1000 3 mmu_big_example = Inr s' \<and>
     eff_pte (pf_mem s') (pt_root s') 0x400abc = 0x150003"
proof -
  have np: "\<forall>k. 4096 * k < unat (0x1000 :: u64) \<longrightarrow>
      page_at 0x400000 k \<noteq> NULL \<and> pml4_index (page_at 0x400000 k) \<noteq> 256"
    by (auto simp: pml4_index_def)
  have sp: "same_page 0x400abc (page_at 0x400000 0)"
    by (simp add: page_at_def same_page_def table_path_def pt_index_def pd_index_def pdp_index_def
        pml4_index_def)
  have p0: "page_at 0x150000 0 OR 3 = 0x150003" by (simp add: page_at_def)
  obtain s' where r: "map_range 0x150000 0x400000 0x1000 3 mmu_big_example = Inr s'" "has_region s'"
    using map_range_example [of "0x150000" 3] room_region by blast
  from map_range_maps_every_page [OF mmu_big_example_inv _ _ np, of "0x150000" 3] r sp p0
  show ?thesis by (auto dest: spec [of _ 0])
qed

text \<open>
  \<^verbatim>\<open>user_allocate_range\<close> only reserves: afterwards every page of the range has an entry that
  is not present, carries the allocated mark and the user bit, is writable exactly when asked
  for, and not executable exactly when execution was not asked for.
\<close>

theorem user_allocate_range_reserves:
  assumes "mmu_inv s A F" and "unat start + unat len + 4096 \<le> 2 ^ 64" and "unat len \<le> 2 ^ 47"
    and "\<forall>k. 4096 * k < unat len \<longrightarrow> page_at start k \<noteq> NULL \<and> pml4_index (page_at start k) \<noteq> 256"
    and "user_allocate_range start len perms s = Inr s'" and "has_region s'"
    and "4096 * k < unat len" and "same_page v (page_at start k)"
  shows "let e = eff_pte (pf_mem s') (pt_root s') v
         in \<not> pte_present e \<and> pte_allocated e \<and> bit e 2 \<and>
            (bit e 1 \<longleftrightarrow> perm_w perms) \<and> (bit e 63 \<longleftrightarrow> \<not> perm_x perms)"
proof -
  let ?fl = "user_flags perms"
  have r: "map_range 0 start len ?fl s = Inr s'"
    using assms(5) by (simp add: user_allocate_range_eq)
  from map_range_spec [OF assms(1-4) r assms(6)] assms(7,8)
  have e: "eff_pte (pf_mem s') (pt_root s') v = (page_at 0 k OR ?fl)" by blast
  have k: "4096 * k < 2 ^ 47" using assms(3,7) by linarith
  show ?thesis
    unfolding e Let_def pte_present_def pte_allocated_def
    using page_at_0_bits [OF k] by (simp add: bit_or_iff user_flags_bits user_flags_bits(4) [simplified])
qed

theorem user_allocate_range_reserves_witness:
  "\<exists>s1. user_allocate_range 0x400000 0x1000 \<lparr>perm_w = True, perm_x = False\<rparr> mmu_big_example = Inr s1 \<and>
     bit (eff_pte (pf_mem s1) (pt_root s1) 0x400123) 63"
proof -
  obtain s1 where r: "user_allocate_range 0x400000 0x1000 \<lparr>perm_w = True, perm_x = False\<rparr> mmu_big_example = Inr s1"
    and rm: "room 97 s1" using reserve_example by blast
  have np: "\<forall>k. 4096 * k < unat (0x1000 :: u64) \<longrightarrow>
      page_at 0x400000 k \<noteq> NULL \<and> pml4_index (page_at 0x400000 k) \<noteq> 256"
    by (auto simp: pml4_index_def)
  have sp: "same_page 0x400123 (page_at 0x400000 0)"
    by (simp add: same_page_def table_path_def pt_index_def pd_index_def pdp_index_def pml4_index_def)
  from user_allocate_range_reserves [OF mmu_big_example_inv _ _ np r room_region [OF rm] _ sp] r
  show ?thesis by (simp add: Let_def)
qed



text \<open>
  Releasing a mapped page through its address returns its frame to the free pool and
  leaves the page unmapped; no other page changes, and a later access to the page is a fault
  the handler refuses.
\<close>

theorem free_pf_unmaps_and_frees:
  assumes "mmu_inv s A F" and "translate (pf_mem s) (pt_root s) v = Some (f + (v AND 0xFFF))"
    and "f = push_bit 12 (pte_base_addr (eff_pte (pf_mem s) (pt_root s) v))" and "f \<in> A"
    and "\<forall>q. vpath q \<longrightarrow> tbl (pf_mem s) (pt_root s) q \<noteq> Some f"
    and "\<not> pte_allocated (eff_pte (pf_mem s) (pt_root s) v)"
    and "free_pf_from_virtual_addr v s = (c, s')"
  shows "c = 1 \<and> mmu_inv s' (A - {f}) (f # F) \<and>
     translate (pf_mem s') (pt_root s') v = None \<and> page_fault_handler v s' = Inl HaltLoop \<and>
     (\<forall>w. \<not> same_page w v \<longrightarrow>
        eff_pte (pf_mem s') (pt_root s') w = eff_pte (pf_mem s) (pt_root s) w)"
proof -
  have pr: "pte_present (eff_pte (pf_mem s) (pt_root s) v)"
    using assms(2) by (simp add: translate_def split: if_splits)
  have nt: "\<And>q. vpath q \<Longrightarrow> tbl (pf_mem s) (pt_root s) q \<noteq>
       Some (push_bit 12 (pte_base_addr (eff_pte (pf_mem s) (pt_root s) v)))"
    using assms(3,5) by blast
  note st = free_pf_present [OF assms(1) pr assms(4) [unfolded assms(3)] nt assms(7)]
  have refl: "same_page v v" by (simp add: same_page_def)
  have e: "eff_pte (pf_mem s') (pt_root s') v = unset_bit 0 (eff_pte (pf_mem s) (pt_root s) v)"
    using st(4) [of v] refl by (simp add: st(3))
  have np: "\<not> pte_present (eff_pte (pf_mem s') (pt_root s') v)"
    by (simp add: e pte_present_def bit_simps)
  have na: "\<not> pte_allocated (eff_pte (pf_mem s') (pt_root s') v)"
    using assms(6) by (simp add: e pte_allocated_def bit_simps)
  obtain t where "tbl (pf_mem s') (pt_root s') (table_path v) = Some t"
    using free_keeps_path [OF assms(1) pr assms(4) [unfolded assms(3)] nt assms(7)] by blast
  from page_fault_invalid [OF st(2) this na] st np show ?thesis
    by (simp add: translate_def assms(3))
qed

theorem free_pf_unmaps_and_frees_witness:
  "\<exists>s1 s2 s3. user_allocate_range 0x400000 0x1000 \<lparr>perm_w = True, perm_x = False\<rparr> mmu_big_example = Inr s1 \<and>
     page_fault_handler 0x400123 s1 = Inr s2 \<and> free_pf_from_virtual_addr 0x400123 s2 = (1, s3) \<and>
     page_fault_handler 0x400123 s3 = Inl HaltLoop"
proof -
  obtain s1 A F where s1: "user_allocate_range 0x400000 0x1000 \<lparr>perm_w = True, perm_x = False\<rparr> mmu_big_example = Inr s1"
    "room (Suc 96) s1" "mmu_inv s1 A F" "pte_allocated (eff_pte (pf_mem s1) (pt_root s1) 0x400123)"
    using reserve_example by auto
  obtain s2 where s2: "page_fault_handler 0x400123 s1 = Inr s2" "room 96 s2"
    using room_fault [OF s1(3,4,2)] by blast
  have sp: "same_page 0x400123 0x400123" by (simp add: same_page_def)
  from page_fault_step [OF s1(3,4) s2(1) room_region [OF s2(2)]] obtain f where f: "f \<notin> A" "frame_like f"
    and inv: "mmu_inv s2 (insert f A) (tl F)" and root: "pt_root s2 = pt_root s1"
    and e: "eff_pte (pf_mem s2) (pt_root s2) 0x400123 =
       demand_entry f (eff_pte (pf_mem s1) (pt_root s1) 0x400123)"
    and tb: "\<forall>q. vpath q \<longrightarrow> tbl (pf_mem s2) (pt_root s1) q = tbl (pf_mem s1) (pt_root s1) q"
    using sp by auto
  note de = demand_entry_fields [OF f(2)]
  have nt: "\<forall>q. vpath q \<longrightarrow> tbl (pf_mem s2) (pt_root s2) q \<noteq> Some f"
    using tb root f(1) pt_okD(1) [OF mmu_invD(2) [OF s1(3)]] by auto
  obtain c s3 where r: "free_pf_from_virtual_addr 0x400123 s2 = (c, s3)" by fastforce
  have tr: "translate (pf_mem s2) (pt_root s2) 0x400123 = Some (f + (0x400123 AND 0xFFF))"
    using de(1,3) by (simp add: translate_def e)
  from free_pf_unmaps_and_frees [OF inv tr _ _ nt _ r] de(2,3) e r s1(1) s2(1) show ?thesis by auto
qed

end
