(* ===== verification/Heap_Alloc.thy ===== *)
theory Heap_Alloc
  imports Page_Table
begin

text \<open>
  Kernel heap pages (\<^verbatim>\<open>mem/heap_alloc.c\<close>): a break that moves up through the heap part of the
  address space, one reserved page at a time, and the release of the frames behind pages.
\<close>

section \<open>State and operations\<close>

record heap_state = mmu_state +
  hp_brk :: ptr

definition heap_flags :: u64 where
  "heap_flags = (PAGE_ALLOCATED OR PAGE_WRITABLE) OR PAGE_NO_EXECUTE"

definition MMU_alloc_page :: "'a heap_state_scheme \<Rightarrow> (ptr \<times> 'a heap_state_scheme) res" where
  "MMU_alloc_page s =
     (if hp_brk s \<ge> KERNEL_STACKS_START then Inr (NULL, s)
      else
        bind_res (map_page (hp_brk s) 0 heap_flags s) (\<lambda>s.
          let address = hp_brk s
          in Inr (address, s\<lparr>hp_brk := hp_brk s + PAGE_SIZE\<rparr>)))"

text \<open>The loop of \<^verbatim>\<open>MMU_alloc_pages\<close>: \<open>i\<close> pages are done, \<open>n\<close> are left.\<close>

fun alloc_pages_loop :: "nat \<Rightarrow> nat \<Rightarrow> ptr \<Rightarrow> 'a heap_state_scheme \<Rightarrow> (ptr \<times> 'a heap_state_scheme) res" where
  "alloc_pages_loop i 0 start s = Inr (start, s)"
| "alloc_pages_loop i (Suc n) start s =
     bind_res (MMU_alloc_page s) (\<lambda>(temp, s).
       alloc_pages_loop (Suc i) n (if i = 0 then temp else start) s)"

definition MMU_alloc_pages :: "int \<Rightarrow> 'a heap_state_scheme \<Rightarrow> (ptr \<times> 'a heap_state_scheme) res" where
  "MMU_alloc_pages num s = alloc_pages_loop 0 (nat num) NULL s"

definition MMU_free_page :: "ptr \<Rightarrow> 'a heap_state_scheme \<Rightarrow> 'a heap_state_scheme" where
  "MMU_free_page vaddr s =
     (if vaddr < KERNEL_HEAP_START \<or> vaddr \<ge> KERNEL_STACKS_START then s
      else snd (free_pf_from_virtual_addr vaddr s))"

fun free_pages_loop :: "nat \<Rightarrow> ptr \<Rightarrow> 'a heap_state_scheme \<Rightarrow> 'a heap_state_scheme" where
  "free_pages_loop 0 start s = s"
| "free_pages_loop (Suc n) start s = free_pages_loop n (start + PAGE_SIZE) (MMU_free_page start s)"

definition MMU_free_pages :: "ptr \<Rightarrow> int \<Rightarrow> 'a heap_state_scheme \<Rightarrow> 'a heap_state_scheme" where
  "MMU_free_pages start num s = free_pages_loop (nat num) start s"

section \<open>What the memory operations leave alone\<close>

text \<open>Only physical memory and the frame allocator change, so every later field is kept.\<close>

definition pf_only :: "'a pf_state_scheme \<Rightarrow> 'a pf_state_scheme \<Rightarrow> bool" where
  "pf_only s s' \<longleftrightarrow> (\<exists>m c r p. s' = s\<lparr>pf_mem := m, pf_current := c, pf_region := r, pf_free_pool := p\<rparr>)"

lemma pf_onlyI: "s' = s\<lparr>pf_mem := m, pf_current := c, pf_region := r, pf_free_pool := p\<rparr> \<Longrightarrow> pf_only s s'"
  by (auto simp: pf_only_def)

lemma pf_only_refl [simp]: "pf_only s s"
  by (rule pf_onlyI [where m = "pf_mem s" and c = "pf_current s" and r = "pf_region s" and p = "pf_free_pool s"])
    (cases s, simp)

lemma pf_only_trans:
  assumes "pf_only s s1" and "pf_only s1 s2"
  shows "pf_only s s2"
proof -
  from assms obtain m c r p m' c' r' p' where
    "s1 = s\<lparr>pf_mem := m, pf_current := c, pf_region := r, pf_free_pool := p\<rparr>"
    "s2 = s1\<lparr>pf_mem := m', pf_current := c', pf_region := r', pf_free_pool := p'\<rparr>"
    unfolding pf_only_def by blast
  then have "s2 = s\<lparr>pf_mem := m', pf_current := c', pf_region := r', pf_free_pool := p'\<rparr>" by simp
  then show ?thesis by (rule pf_onlyI)
qed

lemma pf_only_mem [simp]: "pf_only s (s\<lparr>pf_mem := m\<rparr>)"
  by (rule pf_onlyI [where m = m and c = "pf_current s" and r = "pf_region s" and p = "pf_free_pool s"])
    (cases s, simp)

lemma pf_only_write [simp]: "pf_only s (dm_write p x s)" "pf_only s (memset_table p s)"
  by (simp_all add: dm_write_def memset_table_def)

lemma pf_only_alloc:
  assumes "bump_wf s" and "MMU_pf_alloc s = Inr (f, s')"
  shows "pf_only s s'"
proof -
  from MMU_pf_alloc_frame [OF assms] obtain c r p where
    "s' = s\<lparr>pf_current := c, pf_region := r, pf_free_pool := p\<rparr>" by blast
  then have "s' = s\<lparr>pf_mem := pf_mem s, pf_current := c, pf_region := r, pf_free_pool := p\<rparr>"
    by (cases s) simp
  then show ?thesis by (rule pf_onlyI)
qed

lemma pf_only_free: "pf_only s (MMU_pf_free f s)"
  by (rule pf_onlyI [where m = "pf_mem (MMU_pf_free f s)" and c = "pf_current s" and r = "pf_region s"
        and p = "pf_free_pool (MMU_pf_free f s)"])
    (cases s, simp add: MMU_pf_free_def push_free_pf_def dm_write_def Let_def)

lemma pf_only_table:
  assumes "bump_wf s" and "get_or_alloc_table parent i flags s = Inr (q, s')"
  shows "pf_only s s'"
proof (cases "pte_present (dm_read (entry_ptr parent i) s)")
  case False
  with assms(2) obtain f s1 x y where a: "MMU_pf_alloc s = Inr (f, s1)"
    and s': "s' = dm_write x y (memset_table (GET_VIRT_ADDR f) s1)"
    by (auto simp: get_or_alloc_table_def allocate_table_def res_iff Let_def)
  have "pf_only s1 s'" unfolding s' by (rule pf_only_trans [OF pf_only_write(2) pf_only_write(1)])
  with pf_only_alloc [OF assms(1) a] show ?thesis by (rule pf_only_trans)
qed (use assms in \<open>auto simp: get_or_alloc_table_def\<close>)

lemma pf_only_map_page:
  assumes "bump_wf s" and "map_page v p flags s = Inr s'"
  shows "pf_only s s'"
proof (cases "v = NULL")
  case False
  with assms(2) obtain pdp pd pt s1 s2 s3 where
    r1: "get_or_alloc_table (mu_pml4 s) (pml4_index v) flags s = Inr (pdp, s1)"
    and r2: "get_or_alloc_table pdp (pdp_index v) flags s1 = Inr (pd, s2)"
    and r3: "get_or_alloc_table pd (pd_index v) flags s2 = Inr (pt, s3)"
    and s': "s' = dm_write (entry_ptr pt (pt_index v)) (p OR flags) s3"
    by (auto simp: map_page_def res_iff)
  note w1 = conjunct1 [OF get_or_alloc_wf [OF assms(1) r1]]
  note w2 = conjunct1 [OF get_or_alloc_wf [OF w1 r2]]
  from pf_only_table [OF assms(1) r1] pf_only_table [OF w1 r2] pf_only_table [OF w2 r3]
  have "pf_only s s3" by (blast intro: pf_only_trans)
  then show ?thesis unfolding s' by (rule pf_only_trans) simp
qed (use assms in \<open>auto simp: map_page_def\<close>)

lemma pf_only_free_virtual: "pf_only s (snd (free_pf_from_virtual_addr a s))"
proof -
  have "pf_only s (dm_write p x (MMU_pf_free f s))" for p x f
    by (rule pf_only_trans [OF pf_only_free pf_only_write(1)])
  then show ?thesis by (simp add: free_pf_from_virtual_addr_def Let_def)
qed

lemma pf_only_brk [simp]: "pf_only (s :: 'a heap_state_scheme) s' \<Longrightarrow> hp_brk s' = hp_brk s"
  by (auto simp: pf_only_def)

lemma bump_wf_free [simp]: "bump_wf (snd (free_pf_from_virtual_addr a s)) = bump_wf s"
  by (simp add: free_pf_from_virtual_addr_def Let_def MMU_pf_free_def push_free_pf_def dm_write_def bump_wf_def)

lemma free_pages_only:
  "pf_only s (free_pages_loop n a s) \<and> bump_wf (free_pages_loop n a s) = bump_wf s"
proof (induction n arbitrary: a s)
  case (Suc n)
  have "pf_only s (MMU_free_page a s)" "bump_wf (MMU_free_page a s) = bump_wf s"
    by (simp_all add: MMU_free_page_def pf_only_free_virtual)
  with Suc [of "MMU_free_page a s" "a + PAGE_SIZE"] show ?case
    by (auto intro: pf_only_trans)
qed simp

section \<open>The heap break\<close>

definition brk_ok :: "'a heap_state_scheme \<Rightarrow> bool" where
  "brk_ok s \<longleftrightarrow> KERNEL_HEAP_START \<le> hp_brk s \<and> hp_brk s \<le> KERNEL_STACKS_START \<and> page_aligned (hp_brk s)"

lemma mod_512_index:
  fixes q :: nat
  assumes "0x1ffff01 \<le> q" and "q < 0x2000000"
  shows "256 < q mod 512"
proof -
  obtain d where d: "q = 0x1ffff01 + d" using le_Suc_ex [OF assms(1)] by blast
  then have "d < 255" using assms(2) by simp
  have "q mod 512 = (257 + d) mod 512" unfolding d by (simp add: mod_add_left_eq [of "0x1ffff01" 512 d, symmetric])
  with \<open>d < 255\<close> show ?thesis by simp
qed

lemma pml4_high:
  assumes "KERNEL_HEAP_START \<le> v"
  shows "pml4_index v \<noteq> 256" "v \<noteq> NULL" and pml4_upper: "\<not> pml4_index v < 256"
proof -
  have "unat (take_bit 9 (drop_bit 39 v)) = take_bit 9 (drop_bit 39 (unat v))"
    by (simp add: unsigned_take_bit_eq unsigned_drop_bit_eq)
  then have "unat (drop_bit 39 v AND mask 9) = take_bit 9 (drop_bit 39 (unat v))"
    by (simp only: take_bit_eq_mask)
  then have "unat (drop_bit 39 v AND mask 9) = unat v div 2 ^ 39 mod 512"
    by (simp only: take_bit_eq_mod drop_bit_eq_div) simp
  moreover have "0x1FF = (mask 9 :: u64)" by (simp add: mask_eq_exp_minus_1)
  ultimately have i: "unat (pml4_index v) = unat v div 2 ^ 39 mod 512"
    by (simp only: pml4_index_def)
  have "0xffff808000000000 \<le> unat v"
    using assms by (simp add: word_le_nat_alt KERNEL_HEAP_START_def)
  then have "0x1ffff01 \<le> unat v div 2 ^ 39"
    using div_le_mono [of "0xffff808000000000" "unat v" "2 ^ 39"] by simp
  moreover have "unat v div 2 ^ 39 < 0x2000000"
    using unat_bound64 [of v] by (simp add: less_mult_imp_div_less)
  ultimately have "256 < unat (pml4_index v)" unfolding i by (rule mod_512_index)
  then show "pml4_index v \<noteq> 256" "\<not> pml4_index v < 256" by (auto simp: word_less_nat_alt)
  show "v \<noteq> NULL" using assms by (auto simp: KERNEL_HEAP_START_def)
qed

lemma brk_step:
  assumes "brk_ok s" and "hp_brk s < KERNEL_STACKS_START"
  shows "unat (hp_brk s + PAGE_SIZE) = unat (hp_brk s) + 4096"
    "unat (hp_brk s) + 4096 \<le> unat KERNEL_STACKS_START"
proof -
  have "unat (hp_brk s) mod 4096 = 0"
    using assms(1) by (simp add: brk_ok_def page_aligned_unat)
  then obtain a where a: "unat (hp_brk s) = 4096 * a" by (metis mod_0_imp_dvd dvdE)
  have "unat (hp_brk s) < 4096 * 0xffffff8000000"
    using assms(2) by (simp add: word_less_nat_alt KERNEL_STACKS_START_def)
  then have "a < 0xffffff8000000" by (simp add: a)
  then show *: "unat (hp_brk s) + 4096 \<le> unat KERNEL_STACKS_START"
    by (simp add: a KERNEL_STACKS_START_def)
  show "unat (hp_brk s + PAGE_SIZE) = unat (hp_brk s) + 4096"
    using * by (simp add: unat_word_ariths PAGE_SIZE_def KERNEL_STACKS_START_def)
qed

text \<open>Reserving pages changes the memory below and the break only.\<close>

definition heap_only :: "'a heap_state_scheme \<Rightarrow> 'a heap_state_scheme \<Rightarrow> bool" where
  "heap_only s s' \<longleftrightarrow> (\<exists>s1. pf_only s s1 \<and> s' = s1\<lparr>hp_brk := hp_brk s'\<rparr>)"

lemma heap_onlyE:
  assumes "heap_only s s'"
  obtains m c r p where
    "s' = s\<lparr>pf_mem := m, pf_current := c, pf_region := r, pf_free_pool := p, hp_brk := hp_brk s'\<rparr>"
  using assms unfolding heap_only_def pf_only_def by blast

lemma heap_onlyI:
  assumes "s' = s\<lparr>pf_mem := m, pf_current := c, pf_region := r, pf_free_pool := p, hp_brk := b\<rparr>"
  shows "heap_only s s'"
proof -
  have "pf_only s (s\<lparr>pf_mem := m, pf_current := c, pf_region := r, pf_free_pool := p\<rparr>)"
    by (rule pf_onlyI) (rule refl)
  moreover have "hp_brk s' = b" by (simp add: assms)
  ultimately show ?thesis unfolding heap_only_def using assms by metis
qed

lemma heap_only_refl [simp]: "heap_only s s"
  unfolding heap_only_def by (rule exI [of _ s]) simp

lemma heap_only_trans:
  assumes "heap_only s s1" and "heap_only s1 s2"
  shows "heap_only s s2"
proof -
  from assms(1) obtain m c r p where 1:
    "s1 = s\<lparr>pf_mem := m, pf_current := c, pf_region := r, pf_free_pool := p, hp_brk := hp_brk s1\<rparr>"
    by (rule heap_onlyE)
  from assms(2) obtain m' c' r' p' where 2:
    "s2 = s1\<lparr>pf_mem := m', pf_current := c', pf_region := r', pf_free_pool := p', hp_brk := hp_brk s2\<rparr>"
    by (rule heap_onlyE)
  define b b' where "b = hp_brk s1" and "b' = hp_brk s2"
  from 1 2 have "s2 = s\<lparr>pf_mem := m, pf_current := c, pf_region := r, pf_free_pool := p, hp_brk := b\<rparr>
      \<lparr>pf_mem := m', pf_current := c', pf_region := r', pf_free_pool := p', hp_brk := b'\<rparr>"
    unfolding b_def b'_def by metis
  then have "s2 = s\<lparr>pf_mem := m', pf_current := c', pf_region := r', pf_free_pool := p', hp_brk := b'\<rparr>"
    by simp
  then show ?thesis by (rule heap_onlyI)
qed

lemma pf_heap_only: "pf_only s s' \<Longrightarrow> heap_only s s'"
  unfolding heap_only_def by (rule exI [of _ s']) simp

lemma MMU_alloc_page_brk:
  assumes wf: "bump_wf s" and b: "brk_ok s" and r: "MMU_alloc_page s = Inr (a, s')"
  shows "bump_wf s'" "brk_ok s'" "heap_only s s'"
    and "hp_brk s < KERNEL_STACKS_START \<Longrightarrow> a = hp_brk s \<and> hp_brk s' = hp_brk s + PAGE_SIZE"
    and "\<not> hp_brk s < KERNEL_STACKS_START \<Longrightarrow> a = NULL \<and> s' = s"
proof -
  have "bump_wf s' \<and> brk_ok s' \<and> heap_only s s' \<and>
    (if hp_brk s < KERNEL_STACKS_START then a = hp_brk s \<and> hp_brk s' = hp_brk s + PAGE_SIZE
     else a = NULL \<and> s' = s)"
  proof (cases "hp_brk s < KERNEL_STACKS_START")
    case True
    with r obtain s1 where m: "map_page (hp_brk s) 0 heap_flags s = Inr s1"
      and a: "a = hp_brk s1" and s': "s' = s1\<lparr>hp_brk := hp_brk s1 + PAGE_SIZE\<rparr>"
      by (auto simp: MMU_alloc_page_def res_iff Let_def simp flip: not_less)
    note p = pf_only_map_page [OF wf m]
    then have brk: "hp_brk s1 = hp_brk s" by simp
    have "bump_wf s1" using map_page_wf [OF wf m] by simp
    then have "bump_wf s'" by (simp add: s' bump_wf_def)
    moreover have "brk_ok s'"
      using b brk_step [OF b True] unfolding brk_ok_def s' brk page_aligned_unat
      by (simp add: word_le_nat_alt)
    moreover have "heap_only s s'"
      unfolding heap_only_def using p by (intro exI [of _ s1]) (simp add: s')
    ultimately show ?thesis using True a s' brk by simp
  next
    case False
    with r have "a = NULL" "s' = s" by (simp_all add: MMU_alloc_page_def not_less)
    with wf b False show ?thesis by simp
  qed
  then show "bump_wf s'" "brk_ok s'" "heap_only s s'"
    "hp_brk s < KERNEL_STACKS_START \<Longrightarrow> a = hp_brk s \<and> hp_brk s' = hp_brk s + PAGE_SIZE"
    "\<not> hp_brk s < KERNEL_STACKS_START \<Longrightarrow> a = NULL \<and> s' = s" by (auto split: if_splits)
qed

lemma alloc_pages_loop_brk:
  "bump_wf s \<Longrightarrow> brk_ok s \<Longrightarrow> unat (hp_brk s) + 4096 * n \<le> unat KERNEL_STACKS_START \<Longrightarrow>
   alloc_pages_loop i n start s = Inr (a, s') \<Longrightarrow>
   bump_wf s' \<and> brk_ok s' \<and> heap_only s s' \<and> unat (hp_brk s') = unat (hp_brk s) + 4096 * n \<and>
   a = (if i = 0 \<and> 0 < n then hp_brk s else start)"
proof (induction n arbitrary: i start s)
  case (Suc n)
  from Suc.prems(4) obtain t s1 where p: "MMU_alloc_page s = Inr (t, s1)"
    and r: "alloc_pages_loop (Suc i) n (if i = 0 then t else start) s1 = Inr (a, s')"
    by (auto simp: res_iff)
  have lt: "hp_brk s < KERNEL_STACKS_START" using Suc.prems(3) by (simp add: word_less_nat_alt)
  note b = MMU_alloc_page_brk [OF Suc.prems(1,2) p]
  have u: "unat (hp_brk s1) = unat (hp_brk s) + 4096"
    using brk_step(1) [OF Suc.prems(2) lt] b(4) [OF lt] by simp
  from Suc.IH [OF b(1,2) _ r] u Suc.prems(3)
  have "bump_wf s'" "brk_ok s'" "heap_only s1 s'" "unat (hp_brk s') = unat (hp_brk s) + 4096 * Suc n"
    "a = (if i = 0 then t else start)" by auto
  with b(3,4) lt show ?case by (auto intro: heap_only_trans)
qed simp

section \<open>Properties\<close>

text \<open>
  Below the end of the heap's address range \<^verbatim>\<open>MMU_alloc_page\<close> hands out the page at the
  break and moves the break up by one page: the page's entry is reserved, writable and not
  executable but not present, so no frame is used yet, and the first access faults and is given
  a frame that was not in use. No other page changes. At the end of the range it returns
  \<open>NULL\<close> and changes nothing.
\<close>

theorem MMU_alloc_page_reserves:
  assumes "mmu_inv s A F" and "brk_ok s" and "MMU_alloc_page s = Inr (p, s')" and "has_region s'"
  shows "if hp_brk s < KERNEL_STACKS_START then
       p = hp_brk s \<and> hp_brk s' = p + PAGE_SIZE \<and> brk_ok s' \<and>
       (\<exists>A' F'. mmu_inv s' A' F' \<and> A \<subseteq> A') \<and>
       (\<forall>v. eff_pte (pf_mem s') (pt_root s') v =
          (if same_page v p then heap_flags else eff_pte (pf_mem s) (pt_root s) v)) \<and>
       \<not> pte_present heap_flags \<and> pte_allocated heap_flags \<and> bit heap_flags 1 \<and> bit heap_flags 63 \<and>
       (\<forall>v s''. same_page v p \<longrightarrow> page_fault_handler v s' = Inr s'' \<longrightarrow> has_region s'' \<longrightarrow>
          (\<exists>f. f \<notin> A \<and> translate (pf_mem s'') (pt_root s'') v = Some (f + (v AND 0xFFF))))
     else p = NULL \<and> s' = s"
proof (cases "hp_brk s < KERNEL_STACKS_START")
  case True
  from True assms(3) obtain s1 where m: "map_page (hp_brk s) 0 heap_flags s = Inr s1"
    and p: "p = hp_brk s1" and s': "s' = s1\<lparr>hp_brk := hp_brk s1 + PAGE_SIZE\<rparr>"
    by (auto simp: MMU_alloc_page_def res_iff Let_def simp flip: not_less)
  have wf: "bump_wf s" using mmu_invD(3) [OF assms(1)] .
  have brk: "hp_brk s1 = hp_brk s" using pf_only_map_page [OF wf m] by simp
  have live: "has_region s1" using assms(4) by (simp add: s' has_region_def)
  have "hp_brk s \<noteq> NULL" "pml4_index (hp_brk s) \<noteq> 256"
    using pml4_high [of "hp_brk s"] assms(2) by (simp_all add: brk_ok_def)
  from map_page_step [OF assms(1) this m live] obtain A' F' where
    1: "mmu_inv s1 A' F'" "A \<subseteq> A'" "pt_root s1 = pt_root s"
    and eff: "\<forall>v. eff_pte (pf_mem s1) (pt_root s) v =
            (if same_page v (hp_brk s) then 0 OR heap_flags else eff_pte (pf_mem s) (pt_root s) v)" by blast
  have inv': "mmu_inv s' A' F'" and same: "pf_mem s' = pf_mem s1" "pt_root s' = pt_root s"
    using 1(1,3) by (simp_all add: s' mmu_inv_def pf_inv_def bump_wf_def has_region_def pt_root_def bump_used_def)
  have fl: "\<not> pte_present heap_flags" "pte_allocated heap_flags" "bit heap_flags 1" "bit heap_flags 63"
    by (simp_all add: heap_flags_def pte_present_def pte_allocated_def PAGE_ALLOCATED_def PAGE_WRITABLE_def
        PAGE_NO_EXECUTE_def)
  have "\<exists>f. f \<notin> A \<and> translate (pf_mem s'') (pt_root s'') v = Some (f + (v AND 0xFFF))"
    if "same_page v p" "page_fault_handler v s' = Inr s''" "has_region s''" for v s''
  proof -
    have "pte_allocated (eff_pte (pf_mem s') (pt_root s') v)"
      using that(1) eff fl(2) by (simp add: same p brk)
    from page_fault_step [OF inv' this that(2,3)] obtain f where f: "f \<notin> A'" "frame_like f"
      "pt_root s'' = pt_root s'"
      and e: "\<forall>w. eff_pte (pf_mem s'') (pt_root s') w =
        (if same_page w v then demand_entry f (eff_pte (pf_mem s') (pt_root s') v)
         else eff_pte (pf_mem s') (pt_root s') w)" by blast
    have "same_page v v" by (simp add: same_page_def)
    with f e demand_entry_fields [OF f(2)] 1(2) show ?thesis by (auto simp: translate_def)
  qed
  moreover have "brk_ok s'" using MMU_alloc_page_brk(2) [OF wf assms(2,3)] .
  ultimately show ?thesis
    using True inv' 1(2) eff fl by (auto simp: p brk same) (auto simp: s' brk)
next
  case False
  with MMU_alloc_page_brk(5) [OF mmu_invD(3) [OF assms(1)] assms(2,3)] show ?thesis by simp
qed

definition heap_example :: heap_state where
  "heap_example = \<lparr>pf_mem = (\<lambda>_. 0), pf_map = big_map_example, pf_free_pool = NULL, pf_current = 0x180000,
     pf_region = 0, mu_pml4 = GET_VIRT_ADDR 0x102000, hp_brk = KERNEL_HEAP_START\<rparr>"

lemma heap_example_inv: "mmu_inv heap_example {0x102000} []" "brk_ok heap_example" "room 100 heap_example"
proof -
  have "mmu_inv heap_example {0x102000} [] = mmu_inv mmu_big_example {0x102000} []"
    by (simp add: mmu_inv_def pf_inv_def bump_wf_def has_region_def pt_root_def bump_used_def
        heap_example_def mmu_big_example_def mmu_example_def)
  then show "mmu_inv heap_example {0x102000} []" using mmu_big_example_inv by simp
  show "room 100 heap_example" by (rule room_big) (simp_all add: heap_example_def)
  show "brk_ok heap_example"
    by (simp_all add: brk_ok_def heap_example_def KERNEL_HEAP_START_def KERNEL_STACKS_START_def
        page_aligned_def PAGE_SIZE_def)
qed

theorem MMU_alloc_page_reserves_witness:
  "\<exists>s'. MMU_alloc_page heap_example = Inr (KERNEL_HEAP_START, s') \<and>
     hp_brk s' = KERNEL_HEAP_START + 0x1000 \<and>
     eff_pte (pf_mem s') (pt_root s') KERNEL_HEAP_START = heap_flags"
proof -
  have b: "hp_brk heap_example = KERNEL_HEAP_START" by (simp add: heap_example_def)
  have lt: "hp_brk heap_example < KERNEL_STACKS_START"
    by (simp add: heap_example_def KERNEL_HEAP_START_def KERNEL_STACKS_START_def)
  from room_map_page [of 97 heap_example "hp_brk heap_example" 0 heap_flags] heap_example_inv(3)
  obtain s1 where "map_page (hp_brk heap_example) 0 heap_flags heap_example = Inr s1" "room 97 s1"
    by auto
  with lt obtain p s' where r: "MMU_alloc_page heap_example = Inr (p, s')" "has_region s'"
    using room_region by (fastforce simp: MMU_alloc_page_def has_region_def simp flip: not_less)
  have sp: "same_page KERNEL_HEAP_START KERNEL_HEAP_START" by (simp add: same_page_def)
  from MMU_alloc_page_reserves [OF heap_example_inv(1,2) r] lt sp r(1) show ?thesis
    by (simp add: b PAGE_SIZE_def)
qed

end
