(* ===== verification/KMalloc.thy ===== *)
theory KMalloc
  imports Heap_Alloc CString
begin

text \<open>
  The kernel heap allocator (\<^verbatim>\<open>lib/kmalloc.c\<close>): seven pools of equal blocks, each with a free
  list threaded through its blocks, and whole pages for larger requests. The heap's memory is
  byte addressed at virtual addresses; that a first access to a reserved page faults and is
  served by the page fault handler is transparent here.
\<close>

section \<open>State and operations\<close>

definition NUM_POOLS :: nat where "NUM_POOLS = 7"

record kmalloc_pool =
  kp_block_size :: u64
  kp_avail :: int
  kp_head :: ptr

text \<open>\<open>km_base\<close> is the address of the static array \<^verbatim>\<open>pools\<close>, 16 bytes per entry.\<close>

record km_state = heap_state +
  km_mem :: bmem
  km_pools :: "kmalloc_pool list"
  km_base :: ptr

definition pool_sizes :: "u64 list" where
  "pool_sizes = [32, 64, 128, 256, 512, 1024, 2048]"

definition initial_pools :: "kmalloc_pool list" where
  "initial_pools = map (\<lambda>b. \<lparr>kp_block_size = b, kp_avail = 0, kp_head = NULL\<rparr>) pool_sizes"

definition HEADER_SIZE :: u64 where "HEADER_SIZE = 16"

definition pool_ptr :: "'a km_state_scheme \<Rightarrow> nat \<Rightarrow> ptr" where
  "pool_ptr s i = km_base s + 16 * of_nat i"

definition num_pages :: "u64 \<Rightarrow> int" where
  "num_pages n = sint (ucast (drop_bit 12 ((n + PAGE_SIZE - 1) AND NOT (PAGE_SIZE - 1))) :: u32)"

text \<open>
  The loop that threads a free list through a fresh page; block sizes are positive, so the
  second test only makes the recursion evidently finite.
\<close>

function link_blocks :: "ptr \<Rightarrow> u64 \<Rightarrow> u64 \<Rightarrow> bmem \<Rightarrow> bmem" where
  "link_blocks page bs i m =
     (if i < PAGE_SIZE \<and> unat i < unat (i + bs) then
        let free_node = page + i;
            m = (if i < PAGE_SIZE - bs then wr64 free_node (page + i + bs) m
                 else wr64 free_node NULL m)
        in link_blocks page bs (i + bs) m
      else m)"
  by auto
termination
  by (relation "measure (\<lambda>(page, bs, i, m). unat PAGE_SIZE - unat i)")
    (auto simp: word_less_nat_alt)

declare link_blocks.simps [simp del]

text \<open>Writing a free node at \<open>NULL\<close>, when the heap is exhausted, is an access to no object.\<close>

definition allocate_blocks :: "nat \<Rightarrow> 'a km_state_scheme \<Rightarrow> 'a km_state_scheme res" where
  "allocate_blocks i s =
     bind_res (MMU_alloc_page s) (\<lambda>(page, s).
       if page = NULL then Inl BadAccess
       else
         let bs = kp_block_size (km_pools s ! i);
             s = s\<lparr>km_mem := link_blocks page bs 0 (km_mem s)\<rparr>;
             p = (km_pools s ! i)\<lparr>kp_head := page, kp_avail := uint (PAGE_SIZE div bs)\<rparr>
         in Inr (s\<lparr>km_pools := (km_pools s)[i := p]\<rparr>))"

definition pop_free_block :: "nat \<Rightarrow> 'a km_state_scheme \<Rightarrow> (ptr \<times> 'a km_state_scheme) res" where
  "pop_free_block i s =
     (let p = km_pools s ! i; block = kp_head p
      in if block = NULL then Inl BadAccess
         else
           let p = p\<lparr>kp_head := rd64 (km_mem s) block, kp_avail := kp_avail p - 1\<rparr>
           in Inr (block, s\<lparr>km_pools := (km_pools s)[i := p]\<rparr>))"

text \<open>Writing a block header, the pool pointer and the size.\<close>

definition set_header :: "ptr \<Rightarrow> ptr \<Rightarrow> u64 \<Rightarrow> 'a km_state_scheme \<Rightarrow> 'a km_state_scheme" where
  "set_header h pool sz s = s\<lparr>km_mem := wr64 (h + 8) sz (wr64 h pool (km_mem s))\<rparr>"

text \<open>The search for a pool, from pool \<open>i\<close> on.\<close>

fun find_pool :: "kmalloc_pool list \<Rightarrow> nat \<Rightarrow> u64 \<Rightarrow> nat option" where
  "find_pool [] i full_size = None"
| "find_pool (p # ps) i full_size =
     (if full_size \<le> kp_block_size p then Some i else find_pool ps (Suc i) full_size)"

definition kmalloc :: "u64 \<Rightarrow> 'a km_state_scheme \<Rightarrow> (ptr \<times> 'a km_state_scheme) res" where
  "kmalloc sz s =
     (let full_size = sz + HEADER_SIZE
      in case find_pool (km_pools s) 0 full_size of
        Some i \<Rightarrow>
          bind_res (if kp_avail (km_pools s ! i) = 0 then allocate_blocks i s else Inr s) (\<lambda>s.
          bind_res (pop_free_block i s) (\<lambda>(header, s).
            Inr (header + HEADER_SIZE, set_header header (pool_ptr s i) full_size s)))
      | None \<Rightarrow>
          bind_res (MMU_alloc_pages (num_pages full_size) s) (\<lambda>(header, s).
            if header = NULL then Inl BadAccess
            else Inr (header + HEADER_SIZE, set_header header NULL full_size s)))"

definition kcalloc :: "u64 \<Rightarrow> u64 \<Rightarrow> 'a km_state_scheme \<Rightarrow> (ptr \<times> 'a km_state_scheme) res" where
  "kcalloc nmemb sz s =
     bind_res (kmalloc (nmemb * sz) s) (\<lambda>(addr, s).
       Inr (addr, s\<lparr>km_mem := snd (memset addr 0 (nmemb * sz) (km_mem s))\<rparr>))"

definition push_free_block :: "nat \<Rightarrow> ptr \<Rightarrow> 'a km_state_scheme \<Rightarrow> 'a km_state_scheme" where
  "push_free_block i node s =
     (let p = km_pools s ! i;
          s = s\<lparr>km_mem := wr64 node (kp_head p) (km_mem s)\<rparr>;
          p = p\<lparr>kp_head := node, kp_avail := kp_avail p + 1\<rparr>
      in s\<lparr>km_pools := (km_pools s)[i := p]\<rparr>)"

text \<open>Which entry of \<^verbatim>\<open>pools\<close> a pool pointer names.\<close>

definition pool_of :: "'a km_state_scheme \<Rightarrow> ptr \<Rightarrow> nat option" where
  "pool_of s p = find (\<lambda>i. pool_ptr s i = p) [0..<NUM_POOLS]"

definition kfree :: "ptr \<Rightarrow> 'a km_state_scheme \<Rightarrow> 'a km_state_scheme res" where
  "kfree addr s =
     (if addr = NULL then Inr s
      else
        let header = addr - HEADER_SIZE;
            pool = rd64 (km_mem s) header
        in if pool \<noteq> NULL then
             (case pool_of s pool of None \<Rightarrow> Inl BadAccess
              | Some i \<Rightarrow> Inr (push_free_block i header s))
           else Inr (MMU_free_pages header (num_pages (rd64 (km_mem s) (header + 8))) s))"

section \<open>The heap invariant\<close>

text \<open>A free list: the blocks in order, each holding the address of the next one.\<close>

fun free_chain :: "bmem \<Rightarrow> ptr \<Rightarrow> ptr list \<Rightarrow> bool" where
  "free_chain m p [] \<longleftrightarrow> p = NULL"
| "free_chain m p (b # bs) \<longleftrightarrow> p = b \<and> b \<noteq> NULL \<and> free_chain m (rd64 m b) bs"

text \<open>A live allocation is a block of a pool or a run of pages.\<close>

datatype owner = Pool nat | Pages nat

fun extent :: "owner \<Rightarrow> nat" where
  "extent (Pool i) = unat (pool_sizes ! i)"
| "extent (Pages k) = 4096 * k"

datatype block_tag = FreeIn nat | Live

text \<open>All blocks: tag, start, length.\<close>

definition blocks :: "(nat \<Rightarrow> ptr list) \<Rightarrow> (ptr \<Rightarrow> owner option) \<Rightarrow> (block_tag \<times> ptr \<times> nat) set" where
  "blocks Fr U =
     {(FreeIn i, b, unat (pool_sizes ! i)) | i b. i < NUM_POOLS \<and> b \<in> set (Fr i)} \<union>
     {(Live, h, extent k) | h k. U h = Some k}"

fun apart :: "block_tag \<times> ptr \<times> nat \<Rightarrow> block_tag \<times> ptr \<times> nat \<Rightarrow> bool" where
  "apart (_, a, n) (_, b, k) \<longleftrightarrow> unat a + n \<le> unat b \<or> unat b + k \<le> unat a"

fun within :: "nat \<Rightarrow> block_tag \<times> ptr \<times> nat \<Rightarrow> bool" where
  "within brk (_, a, n) \<longleftrightarrow> unat KERNEL_HEAP_START \<le> unat a \<and> unat a + n \<le> brk"

text \<open>What the header of a live allocation says.\<close>

definition header_ok :: "'a km_state_scheme \<Rightarrow> ptr \<Rightarrow> owner \<Rightarrow> bool" where
  "header_ok s h k =
     (case k of
        Pool i \<Rightarrow> i < NUM_POOLS \<and> rd64 (km_mem s) h = pool_ptr s i
      | Pages n \<Rightarrow> 0 < n \<and> rd64 (km_mem s) h = NULL \<and> num_pages (rd64 (km_mem s) (h + 8)) = int n)"

definition pools_ok :: "'a km_state_scheme \<Rightarrow> (nat \<Rightarrow> ptr list) \<Rightarrow> bool" where
  "pools_ok s Fr \<longleftrightarrow>
     map kp_block_size (km_pools s) = pool_sizes \<and>
     (\<forall>i < NUM_POOLS. free_chain (km_mem s) (kp_head (km_pools s ! i)) (Fr i) \<and>
        kp_avail (km_pools s ! i) = int (length (Fr i)) \<and> distinct (Fr i))"

definition km_inv :: "'a km_state_scheme \<Rightarrow> (nat \<Rightarrow> ptr list) \<Rightarrow> (ptr \<Rightarrow> owner option) \<Rightarrow> bool" where
  "km_inv s Fr U \<longleftrightarrow>
     bump_wf s \<and> brk_ok s \<and> km_base s \<noteq> NULL \<and> unat (km_base s) + 112 < 2 ^ 64 \<and>
     pools_ok s Fr \<and> (\<forall>h k. U h = Some k \<longrightarrow> header_ok s h k) \<and>
     (\<forall>x \<in> blocks Fr U. within (unat (hp_brk s)) x) \<and>
     (\<forall>x \<in> blocks Fr U. \<forall>y \<in> blocks Fr U. x \<noteq> y \<longrightarrow> apart x y)"

lemma km_invD:
  assumes "km_inv s Fr U"
  shows "bump_wf s" "brk_ok s" "km_base s \<noteq> NULL" "unat (km_base s) + 112 < 2 ^ 64" "pools_ok s Fr"
    and "U h = Some k \<Longrightarrow> header_ok s h k"
    and "x \<in> blocks Fr U \<Longrightarrow> within (unat (hp_brk s)) x"
    and "x \<in> blocks Fr U \<Longrightarrow> y \<in> blocks Fr U \<Longrightarrow> x \<noteq> y \<Longrightarrow> apart x y"
  using assms unfolding km_inv_def by blast+

lemma pool_cases: "i < NUM_POOLS \<Longrightarrow> i = 0 \<or> i = 1 \<or> i = 2 \<or> i = 3 \<or> i = 4 \<or> i = 5 \<or> i = 6"
  by (auto simp: NUM_POOLS_def)

lemma pool_size_cases:
  assumes "i < NUM_POOLS"
  shows "32 \<le> unat (pool_sizes ! i)" "\<exists>n > 0. unat (pool_sizes ! i) * n = 4096 \<and> uint (PAGE_SIZE div pool_sizes ! i) = int n"
proof -
  show "32 \<le> unat (pool_sizes ! i)"
    using pool_cases [OF assms] by (auto simp: pool_sizes_def)
  from pool_cases [OF assms]
  show "\<exists>n > 0. unat (pool_sizes ! i) * n = 4096 \<and> uint (PAGE_SIZE div pool_sizes ! i) = int n"
  proof (elim disjE)
    assume "i = 0" then show ?thesis by (intro exI [of _ 128]) (simp add: pool_sizes_def PAGE_SIZE_def)
  next
    assume "i = 1" then show ?thesis by (intro exI [of _ 64]) (simp add: pool_sizes_def PAGE_SIZE_def)
  next
    assume "i = 2" then show ?thesis by (intro exI [of _ 32]) (simp add: pool_sizes_def PAGE_SIZE_def)
  next
    assume "i = 3" then show ?thesis by (intro exI [of _ 16]) (simp add: pool_sizes_def PAGE_SIZE_def)
  next
    assume "i = 4" then show ?thesis by (intro exI [of _ 8]) (simp add: pool_sizes_def PAGE_SIZE_def)
  next
    assume "i = 5" then show ?thesis by (intro exI [of _ 4]) (simp add: pool_sizes_def PAGE_SIZE_def)
  next
    assume "i = 6" then show ?thesis by (intro exI [of _ 2]) (simp add: pool_sizes_def PAGE_SIZE_def)
  qed
qed

lemma brk_bound: "brk_ok s \<Longrightarrow> unat (hp_brk s) + 4096 * 4096 < 2 ^ 64"
  by (simp add: brk_ok_def word_le_nat_alt KERNEL_STACKS_START_def)

subsection \<open>Memory at natural number addresses\<close>

lemma off_nat:
  fixes b x :: u64
  assumes "unat b + n \<le> 2 ^ 64" and "unat (x - b) < n"
  shows "unat x = unat b + unat (x - b)"
proof -
  have "unat (b + (x - b)) = unat b + unat (x - b)"
    using assms by (subst unat_word_ariths) simp
  then show ?thesis by simp
qed

lemma wr64_nat_other:
  assumes "unat a + 8 \<le> 2 ^ 64" and "unat x < unat a \<or> unat a + 8 \<le> unat x"
  shows "wr64 a v m x = m x"
proof (rule wr64_other)
  show "\<not> x - a < 8"
  proof
    assume "x - a < 8"
    then have "unat (x - a) < 8" by (simp add: word_less_nat_alt)
    with off_nat [OF assms(1) this] assms(2) show False by linarith
  qed
qed

lemma rd64_nat_cong:
  assumes "unat b + 8 \<le> 2 ^ 64" and "\<And>x. unat b \<le> unat x \<Longrightarrow> unat x < unat b + 8 \<Longrightarrow> m' x = m x"
  shows "rd64 m' b = rd64 m b"
proof (rule rd64_cong)
  fix x assume "x - b < 8"
  then have "unat (x - b) < 8" by (simp add: word_less_nat_alt)
  with off_nat [OF assms(1) this] show "m' x = m x" by (intro assms(2)) simp_all
qed

text \<open>Memory is the same on a range of addresses.\<close>

definition same_on :: "bmem \<Rightarrow> bmem \<Rightarrow> nat \<Rightarrow> nat \<Rightarrow> bool" where
  "same_on m m' a n \<longleftrightarrow> (\<forall>x. a \<le> unat x \<longrightarrow> unat x < a + n \<longrightarrow> m' x = m x)"

lemma same_on_rd64: "same_on m m' (unat b) n \<Longrightarrow> 8 \<le> n \<Longrightarrow> unat b + 8 \<le> 2 ^ 64 \<Longrightarrow> rd64 m' b = rd64 m b"
  by (rule rd64_nat_cong) (auto simp: same_on_def)

lemma free_chain_cong:
  "(\<And>b. b \<in> set bs \<Longrightarrow> rd64 m' b = rd64 m b) \<Longrightarrow> free_chain m' p bs = free_chain m p bs"
  by (induction bs arbitrary: p) auto

subsection \<open>Blocks\<close>

lemma blocks_free: "i < NUM_POOLS \<Longrightarrow> b \<in> set (Fr i) \<Longrightarrow> (FreeIn i, b, unat (pool_sizes ! i)) \<in> blocks Fr U"
  and blocks_live: "U h = Some k \<Longrightarrow> (Live, h, extent k) \<in> blocks Fr U"
  by (auto simp: blocks_def)

lemma extent_pos:
  assumes "header_ok s h k"
  shows "32 \<le> extent k"
  using assms pool_size_cases(1) by (cases k) (auto simp: header_ok_def)

lemma block_bounds:
  assumes inv: "km_inv s Fr U" and x: "(t, b, n) \<in> blocks Fr U"
  shows "32 \<le> n" "unat b + n \<le> unat (hp_brk s)" "unat b + n < 2 ^ 64" "unat KERNEL_HEAP_START \<le> unat b" "b \<noteq> NULL"
proof -
  note d = km_invD [OF inv]
  from d(7) [OF x] show *: "unat b + n \<le> unat (hp_brk s)" and h: "unat KERNEL_HEAP_START \<le> unat b" by auto
  with brk_bound [OF d(2)] show "unat b + n < 2 ^ 64" by linarith
  show "32 \<le> n"
    using x pool_size_cases(1) extent_pos [OF d(6)] by (auto simp: blocks_def)
  show "b \<noteq> NULL" using h by (auto simp: KERNEL_HEAP_START_def)
qed

text \<open>The invariant depends on the memory inside the blocks only.\<close>

lemma header_ok_cong:
  assumes "header_ok s h k" and "same_on (km_mem s) (km_mem s') (unat h) (extent k)"
    and "unat h + extent k < 2 ^ 64" and "km_base s' = km_base s"
  shows "header_ok s' h k"
proof -
  have n: "32 \<le> extent k" using extent_pos [OF assms(1)] .
  have "unat (h + 8) = unat h + 8" using n assms(3) by (simp add: unat_word_ariths)
  then have "rd64 (km_mem s') (h + 8) = rd64 (km_mem s) (h + 8)"
    using assms(2,3) n by (intro rd64_nat_cong) (auto simp: same_on_def)
  moreover have "rd64 (km_mem s') h = rd64 (km_mem s) h"
    using assms(2,3) n by (intro same_on_rd64) auto
  ultimately show ?thesis
    using assms(1,4) by (auto simp: header_ok_def pool_ptr_def split: owner.splits)
qed

lemma chain_cong:
  assumes "i < NUM_POOLS" and "\<And>b. b \<in> set bs \<Longrightarrow>
      same_on m m' (unat b) (unat (pool_sizes ! i)) \<and> unat b + unat (pool_sizes ! i) < 2 ^ 64"
  shows "free_chain m' p bs = free_chain m p bs"
proof (rule free_chain_cong)
  fix b assume b: "b \<in> set bs"
  from pool_size_cases(1) [OF assms(1)] assms(2) [OF b] show "rd64 m' b = rd64 m b"
    by (intro same_on_rd64 [where n = "unat (pool_sizes ! i)"]) auto
qed

text \<open>A change inside one range leaves every block that is apart from it alone.\<close>

definition changes_in :: "bmem \<Rightarrow> bmem \<Rightarrow> nat \<Rightarrow> nat \<Rightarrow> bool" where
  "changes_in m m' a n \<longleftrightarrow> (\<forall>x. unat x < a \<or> a + n \<le> unat x \<longrightarrow> m' x = m x)"

lemma changes_in_same_on:
  "changes_in m m' a n \<Longrightarrow> a + n \<le> b \<or> b + k \<le> a \<Longrightarrow> same_on m m' b k"
  by (auto simp: changes_in_def same_on_def)

lemma changes_in_mono: "changes_in m m' a n \<Longrightarrow> n \<le> k \<Longrightarrow> changes_in m m' a k"
  by (auto simp: changes_in_def)

lemma changes_in_wr64: "unat a + 8 \<le> 2 ^ 64 \<Longrightarrow> changes_in m (wr64 a v m) (unat a) 8"
  by (simp add: changes_in_def wr64_nat_other)

lemma set_header_changes:
  assumes "unat h + 16 \<le> 2 ^ 64"
  shows "changes_in (km_mem s) (km_mem (set_header h p n s)) (unat h) 16"
    and "rd64 (km_mem (set_header h p n s)) h = p" "rd64 (km_mem (set_header h p n s)) (h + 8) = n"
proof -
  have u: "unat (h + 8) = unat h + 8" using assms by (simp add: unat_word_ariths)
  show "changes_in (km_mem s) (km_mem (set_header h p n s)) (unat h) 16"
    using assms u wr64_nat_other [of "h + 8"] wr64_nat_other [of h]
    by (auto simp: changes_in_def set_header_def)
  show "rd64 (km_mem (set_header h p n s)) (h + 8) = n"
    by (simp add: set_header_def rd64_wr64)
  have "rd64 (km_mem (set_header h p n s)) h = rd64 (wr64 h p (km_mem s)) h"
    using assms u wr64_nat_other [of "h + 8"] by (intro rd64_nat_cong) (auto simp: set_header_def)
  then show "rd64 (km_mem (set_header h p n s)) h = p" by (simp add: rd64_wr64)
qed

subsection \<open>Threading a fresh page\<close>

text \<open>The address of block \<open>k\<close> of a page.\<close>

definition nth_block :: "ptr \<Rightarrow> u64 \<Rightarrow> nat \<Rightarrow> ptr" where
  "nth_block page bs k = page + of_nat k * bs"

lemma unat_times: "unat bs * k < 2 ^ 64 \<Longrightarrow> unat (of_nat k * bs :: u64) = unat bs * k"
  by (cases "bs = 0")
    (simp_all add: unat_word_ariths unat_of_nat mult.commute mod_mult_right_eq)

lemma unat_nth_block:
  assumes "unat page + 4096 < 2 ^ 64" and "unat bs * k \<le> 4096"
  shows "unat (nth_block page bs k) = unat page + unat bs * k"
proof -
  have "unat bs * k < 2 ^ 64" using assms(2) by simp
  then show ?thesis
    using assms unat_times [of bs k] by (simp add: nth_block_def unat_word_ariths)
qed

lemma link_blocks_from:
  assumes pg: "unat page + 4096 < 2 ^ 64" and n: "unat bs * n = 4096" "32 \<le> unat bs"
  shows "k \<le> n \<Longrightarrow>
    (\<forall>j. k \<le> j \<longrightarrow> j < n \<longrightarrow> rd64 (link_blocks page bs (of_nat k * bs) m) (nth_block page bs j) =
       (if Suc j < n then nth_block page bs (Suc j) else NULL)) \<and>
    changes_in m (link_blocks page bs (of_nat k * bs) m) (unat page + unat bs * k) (4096 - unat bs * k)"
proof (induction "n - k" arbitrary: k m)
  case 0
  then have k: "k = n" by simp
  have "\<not> of_nat k * bs < PAGE_SIZE"
    using unat_times [of bs n] n(1) by (simp add: k word_less_nat_alt PAGE_SIZE_def)
  then have "link_blocks page bs (of_nat k * bs) m = m" by (subst link_blocks.simps) simp
  then show ?case by (simp add: k changes_in_def)
next
  case (Suc d)
  then have kn: "k < n" by simp
  have le: "unat bs * Suc k \<le> 4096" using kn mult_le_mono2 [of "Suc k" n "unat bs"] n(1) by simp
  have ui: "unat (of_nat k * bs :: u64) = unat bs * k" using unat_times [of bs k] le by simp
  have step: "of_nat k * bs + bs = (of_nat (Suc k) * bs :: u64)" by (simp add: algebra_simps)
  have us: "unat (of_nat (Suc k) * bs :: u64) = unat bs * Suc k" using unat_times [of bs "Suc k"] le by simp
  have lt: "of_nat k * bs < PAGE_SIZE" "unat (of_nat k * bs :: u64) < unat (of_nat k * bs + bs :: u64)"
    unfolding step us using le n(2) ui by (simp_all add: word_less_nat_alt PAGE_SIZE_def)
  have bs: "unat bs \<le> 4096" using le by simp
  have ps: "unat (PAGE_SIZE - bs) = 4096 - unat bs"
    using bs by (simp add: PAGE_SIZE_def unat_sub word_le_nat_alt)
  have last: "of_nat k * bs < PAGE_SIZE - bs \<longleftrightarrow> Suc k < n"
  proof -
    have "of_nat k * bs < PAGE_SIZE - bs \<longleftrightarrow> unat bs * Suc k < unat bs * n"
      unfolding word_less_nat_alt ps ui using bs n by auto
    also have "\<dots> \<longleftrightarrow> Suc k < n" using n(2) by (subst nat_mult_less_cancel1) simp_all
    finally show ?thesis .
  qed
  let ?v = "if Suc k < n then nth_block page bs (Suc k) else NULL"
  let ?m = "wr64 (nth_block page bs k) ?v m"
  have eq: "link_blocks page bs (of_nat k * bs) m = link_blocks page bs (of_nat (Suc k) * bs) ?m"
    using lt last by (subst link_blocks.simps)
      (simp add: Let_def nth_block_def algebra_simps)
  have "d = n - Suc k" "Suc k \<le> n" using Suc by auto
  note IH = Suc.hyps(1) [OF this, of ?m]
  have uk: "unat (nth_block page bs k) = unat page + unat bs * k"
    using unat_nth_block [OF pg] le by simp
  let ?r = "link_blocks page bs (of_nat (Suc k) * bs) ?m"
  have ch: "changes_in ?m ?r (unat page + unat bs * Suc k) (4096 - unat bs * Suc k)" using IH by blast
  have b8: "unat (nth_block page bs k) + 8 \<le> 2 ^ 64" using uk le n(2) pg by simp
  have rk: "rd64 ?r (nth_block page bs k) = ?v"
  proof -
    have "rd64 ?r (nth_block page bs k) = rd64 ?m (nth_block page bs k)"
      using ch uk n(2) by (intro rd64_nat_cong b8) (auto simp: changes_in_def)
    then show ?thesis by (simp add: rd64_wr64)
  qed
  have "rd64 ?r (nth_block page bs j) = (if Suc j < n then nth_block page bs (Suc j) else NULL)"
    if "k \<le> j" "j < n" for j
    using rk IH that by (cases "j = k") auto
  moreover have "changes_in m ?r (unat page + unat bs * k) (4096 - unat bs * k)"
    unfolding changes_in_def
  proof (intro allI impI)
    fix x :: u64 assume x: "unat x < unat page + unat bs * k \<or> unat page + unat bs * k + (4096 - unat bs * k) \<le> unat x"
    have "?r x = ?m x" using ch x le n(2) by (auto simp: changes_in_def)
    moreover have "?m x = m x"
      using x uk le n(2) by (intro wr64_nat_other b8) auto
    ultimately show "?r x = m x" by simp
  qed
  ultimately show ?case unfolding eq by blast
qed

lemma link_blocks_chain:
  assumes r: "\<And>j. j < n \<Longrightarrow> rd64 m (nth_block page bs j) = (if Suc j < n then nth_block page bs (Suc j) else NULL)"
    and nn: "\<And>j. j < n \<Longrightarrow> nth_block page bs j \<noteq> NULL"
  shows "k < n \<Longrightarrow> free_chain m (nth_block page bs k) (map (nth_block page bs) [k..<n])"
proof (induction "n - k" arbitrary: k)
  case (Suc d)
  show ?case
  proof (cases "Suc k < n")
    case True
    then have "free_chain m (nth_block page bs (Suc k)) (map (nth_block page bs) [Suc k..<n])"
      using Suc by (intro Suc.hyps(1)) auto
    with True r [of k] nn [of k] show ?thesis by (simp add: upt_conv_Cons)
  next
    case False
    with Suc.prems r [of k] nn [of k] show ?thesis by (simp add: upt_conv_Cons)
  qed
qed simp

subsection \<open>The steps of the allocator\<close>

lemma heap_only_km:
  fixes s s' :: "'a km_state_scheme"
  assumes "heap_only s s'"
  shows "km_mem s' = km_mem s" "km_pools s' = km_pools s" "km_base s' = km_base s"
proof -
  from assms obtain m c r p where
    "s' = s\<lparr>pf_mem := m, pf_current := c, pf_region := r, pf_free_pool := p, hp_brk := hp_brk s'\<rparr>"
    by (rule heap_onlyE)
  then have "km_mem s' = km_mem (s\<lparr>pf_mem := m, pf_current := c, pf_region := r, pf_free_pool := p, hp_brk := hp_brk s'\<rparr>)"
    "km_pools s' = km_pools (s\<lparr>pf_mem := m, pf_current := c, pf_region := r, pf_free_pool := p, hp_brk := hp_brk s'\<rparr>)"
    "km_base s' = km_base (s\<lparr>pf_mem := m, pf_current := c, pf_region := r, pf_free_pool := p, hp_brk := hp_brk s'\<rparr>)"
    by metis+
  then show "km_mem s' = km_mem s" "km_pools s' = km_pools s" "km_base s' = km_base s" by simp_all
qed

lemma pools_okD:
  assumes "pools_ok s Fr"
  shows "length (km_pools s) = NUM_POOLS" "i < NUM_POOLS \<Longrightarrow> kp_block_size (km_pools s ! i) = pool_sizes ! i"
    "i < NUM_POOLS \<Longrightarrow> free_chain (km_mem s) (kp_head (km_pools s ! i)) (Fr i)"
    "i < NUM_POOLS \<Longrightarrow> kp_avail (km_pools s ! i) = int (length (Fr i))" "i < NUM_POOLS \<Longrightarrow> distinct (Fr i)"
proof -
  have m: "map kp_block_size (km_pools s) = pool_sizes" using assms by (simp add: pools_ok_def)
  then have "length (map kp_block_size (km_pools s)) = length pool_sizes" by simp
  then show l: "length (km_pools s) = NUM_POOLS" by (simp add: pool_sizes_def NUM_POOLS_def)
  show "i < NUM_POOLS \<Longrightarrow> kp_block_size (km_pools s ! i) = pool_sizes ! i"
    using m l by (metis nth_map)
qed (use assms in \<open>auto simp: pools_ok_def\<close>)

text \<open>Rebuilding the invariant after one pool and one memory range changed.\<close>

lemma pools_ok_update:
  assumes ok: "pools_ok s Fr" and i: "i < NUM_POOLS"
    and p: "kp_block_size p = pool_sizes ! i" "free_chain m' (kp_head p) L" "kp_avail p = int (length L)" "distinct L"
    and other: "\<And>j b. j < NUM_POOLS \<Longrightarrow> j \<noteq> i \<Longrightarrow> b \<in> set (Fr j) \<Longrightarrow>
        same_on (km_mem s) m' (unat b) (unat (pool_sizes ! j)) \<and> unat b + unat (pool_sizes ! j) < 2 ^ 64"
    and s': "km_mem s' = m'" "km_pools s' = (km_pools s)[i := p]"
  shows "pools_ok s' (Fr(i := L))"
proof -
  note d = pools_okD [OF ok]
  have "map kp_block_size (km_pools s') = pool_sizes"
    using ok p(1) i d(1) by (simp add: s' pools_ok_def map_update list_update_same_conv)
  moreover have "free_chain m' (kp_head (km_pools s ! j)) (Fr j)" if "j < NUM_POOLS" "j \<noteq> i" for j
    using chain_cong [OF that(1), of "Fr j" "km_mem s" m'] other [OF that] d(3) [OF that(1)] by blast
  ultimately show ?thesis
    using i p d by (simp add: pools_ok_def s' nth_list_update)
qed

text \<open>The blocks a fresh page is cut into.\<close>

definition page_blocks :: "ptr \<Rightarrow> u64 \<Rightarrow> nat \<Rightarrow> ptr list" where
  "page_blocks page bs n = map (nth_block page bs) [0..<n]"

lemma page_block_pos:
  assumes pg: "unat page + 4096 < 2 ^ 64" and n: "unat bs * n = 4096" and j: "j < n"
  shows "unat (nth_block page bs j) = unat page + unat bs * j" "unat bs * j + unat bs \<le> 4096"
proof -
  show "unat (nth_block page bs j) = unat page + unat bs * j"
    using unat_nth_block [OF pg, of bs j] mult_le_mono2 [of j n "unat bs"] j n by simp
  show "unat bs * j + unat bs \<le> 4096"
    using mult_le_mono2 [of "Suc j" n "unat bs"] j n by simp
qed

lemma page_blocks_distinct:
  assumes pg: "unat page + 4096 < 2 ^ 64" and n: "unat bs * n = 4096" "32 \<le> unat bs"
  shows "distinct (page_blocks page bs n)"
proof -
  have "j = k" if "j < n" "k < n" "nth_block page bs j = nth_block page bs k" for j k
  proof -
    have "unat bs * j = unat bs * k"
      using page_block_pos(1) [OF pg n(1) that(1)] page_block_pos(1) [OF pg n(1) that(2)] that(3)
      by (metis add_left_cancel)
    moreover have "unat bs \<noteq> 0" using n(2) by linarith
    ultimately show ?thesis by (metis mult_cancel1)
  qed
  then show ?thesis by (auto simp: page_blocks_def distinct_map intro!: inj_onI)
qed

lemma page_blocks_chain:
  assumes pg: "unat page + 4096 < 2 ^ 64" "page \<noteq> NULL" and n: "unat bs * n = 4096" "32 \<le> unat bs" "0 < n"
  shows "free_chain (link_blocks page bs 0 m) page (page_blocks page bs n)"
    and "changes_in m (link_blocks page bs 0 m) (unat page) 4096"
proof -
  have link: "\<And>j. j < n \<Longrightarrow> rd64 (link_blocks page bs 0 m) (nth_block page bs j) =
      (if Suc j < n then nth_block page bs (Suc j) else NULL)"
    and ch: "changes_in m (link_blocks page bs 0 m) (unat page) 4096"
    using link_blocks_from [OF pg(1) n(1,2), of 0 m] by auto
  show "changes_in m (link_blocks page bs 0 m) (unat page) 4096" by (rule ch)
  have "0 < unat page" using pg(2) by (simp add: unat_gt_0)
  then have "nth_block page bs j \<noteq> NULL" if "j < n" for j
    using page_block_pos(1) [OF pg(1) n(1) that] by auto
  from link_blocks_chain [OF link this, of 0] n(3)
  show "free_chain (link_blocks page bs 0 m) page (page_blocks page bs n)"
    by (simp add: page_blocks_def nth_block_def)
qed

lemma page_blocks_fit:
  assumes inv: "km_inv s Fr U" and e: "Fr i = []" and page: "page = hp_brk s"
    and pg: "unat page + 4096 < 2 ^ 64" and n: "unat (pool_sizes ! i) * n = 4096"
  defines "B \<equiv> blocks (Fr(i := page_blocks page (pool_sizes ! i) n)) U"
  shows "x \<in> B \<Longrightarrow> within (unat page + 4096) x"
    and "x \<in> B \<Longrightarrow> y \<in> B \<Longrightarrow> x \<noteq> y \<Longrightarrow> apart x y"
proof -
  note d = km_invD [OF inv]
  let ?bs = "pool_sizes ! i"
  note pos = page_block_pos [OF pg n]
  have blk: "x \<in> blocks Fr U \<or> (\<exists>j < n. x = (FreeIn i, nth_block page ?bs j, unat ?bs))"
    if "x \<in> B" for x
    using that unfolding B_def by (auto simp: blocks_def page_blocks_def split: if_splits)
  have new_within: "within (unat page + 4096) (FreeIn i, nth_block page ?bs j, unat ?bs)" if "j < n" for j
    using pos [OF that] d(2) by (simp add: page brk_ok_def word_le_nat_alt)
  have old_end: "unat a + k \<le> unat page" if "(t, a, k) \<in> blocks Fr U" for t a k
    using d(7) [OF that] by (simp add: page)
  show "within (unat page + 4096) x" if "x \<in> B" for x
    using blk [OF that] new_within d(7) by (cases x) (fastforce simp: page)
  have on: "apart u v \<and> apart v u" if u: "u \<in> blocks Fr U" and j: "j < n"
    and v: "v = (FreeIn i, nth_block page ?bs j, unat ?bs)" for u v j
    using old_end u pos(1) [OF j] by (cases u) (fastforce simp: v)
  have nn: "apart u v" if "j < n" "k < n" "j \<noteq> k" "u = (FreeIn i, nth_block page ?bs j, unat ?bs)"
    "v = (FreeIn i, nth_block page ?bs k, unat ?bs)" for u v j k
  proof -
    have "unat ?bs * Suc j \<le> unat ?bs * k \<or> unat ?bs * Suc k \<le> unat ?bs * j"
      using that(3) by (meson Suc_leI linorder_neqE_nat mult_le_mono2)
    with pos(1) that(1,2) show ?thesis by (auto simp: that(4,5))
  qed
  show "apart x y" if "x \<in> B" "y \<in> B" "x \<noteq> y" for x y
    using blk [OF that(1)] blk [OF that(2)] that(3) d(8) on nn by metis
qed

text \<open>The headers survive a change that is apart from the live blocks.\<close>

lemma headers_kept:
  assumes inv: "km_inv s Fr U" and h: "U h = Some k"
    and ap: "same_on (km_mem s) (km_mem s') (unat h) (extent k)" and b: "km_base s' = km_base s"
  shows "header_ok s' h k"
  by (rule header_ok_cong [OF km_invD(6) [OF inv h] ap block_bounds(3) [OF inv blocks_live [of U h k Fr, OF h]] b])

lemma allocate_blocks_inv:
  assumes inv: "km_inv s Fr U" and i: "i < NUM_POOLS" and e: "Fr i = []"
    and r: "allocate_blocks i s = Inr s'"
  shows "\<exists>L. L \<noteq> [] \<and> km_inv s' (Fr(i := L)) U \<and> km_base s' = km_base s \<and>
     (\<forall>x. unat x < unat (hp_brk s) \<longrightarrow> km_mem s' x = km_mem s x)"
proof -
  note d = km_invD [OF inv]
  note pd = pools_okD [OF d(5)]
  let ?bs = "pool_sizes ! i"
  from r obtain page s1 where a: "MMU_alloc_page s = Inr (page, s1)" and nn: "page \<noteq> NULL"
    by (auto simp: allocate_blocks_def res_iff split: if_splits)
  note b = MMU_alloc_page_brk [OF d(1,2) a]
  have lt: "hp_brk s < KERNEL_STACKS_START" using b(5) nn by blast
  have page: "page = hp_brk s" and brk1: "hp_brk s1 = hp_brk s + PAGE_SIZE" using b(4) [OF lt] by auto
  note km = heap_only_km [OF b(3)]
  have ub: "unat (hp_brk s1) = unat page + 4096" using brk_step(1) [OF d(2) lt] by (simp add: brk1 page)
  have pg: "unat page + 4096 < 2 ^ 64" using brk_bound [OF b(2)] ub by simp
  obtain n where n: "0 < n" "unat ?bs * n = 4096" "uint (PAGE_SIZE div ?bs) = int n"
    using pool_size_cases(2) [OF i] by blast
  note bs = pool_size_cases(1) [OF i]
  define m' where "m' = link_blocks page ?bs 0 (km_mem s)"
  define p where "p = (km_pools s ! i)\<lparr>kp_head := page, kp_avail := int n\<rparr>"
  define L where "L = page_blocks page ?bs n"
  have s': "s' = s1\<lparr>km_mem := m', km_pools := (km_pools s)[i := p]\<rparr>"
    using r a nn pd(2) [OF i] n(3) by (simp add: allocate_blocks_def Let_def km m'_def p_def)
  have ch: "changes_in (km_mem s) m' (unat page) 4096" and chain: "free_chain m' page L"
    using page_blocks_chain [OF pg nn n(2) bs n(1)] by (simp_all add: m'_def L_def)
  have old: "same_on (km_mem s) m' (unat c) k \<and> unat c + k < 2 ^ 64" if "(t, c, k) \<in> blocks Fr U" for t c k
    using changes_in_same_on [OF ch, of "unat c" k] block_bounds [OF inv that] by (simp add: page)
  have "pools_ok s' (Fr(i := L))"
    by (rule pools_ok_update [OF d(5) i, where p = p and m' = m'])
      (use chain pd(2) [OF i] page_blocks_distinct [OF pg n(2) bs] old [OF blocks_free [of _ _ Fr U]] in
        \<open>simp_all add: p_def L_def s' page_blocks_def\<close>)
  moreover have "header_ok s' h k" if "U h = Some k" for h k
    using headers_kept [OF inv that, of s'] old [OF blocks_live [of U h k Fr, OF that]] by (simp add: s' km)
  ultimately have "km_inv s' (Fr(i := L)) U"
    using b(1,2) d(3,4) page_blocks_fit [OF inv e page pg n(2)] unfolding km_inv_def
    by (simp add: s' km bump_wf_def brk_ok_def ub L_def)
  moreover have "L \<noteq> []" using n(1) by (simp add: L_def page_blocks_def)
  moreover have "\<forall>x. unat x < unat (hp_brk s) \<longrightarrow> km_mem s' x = km_mem s x"
    using ch by (simp add: s' changes_in_def page)
  ultimately show ?thesis by (intro exI [of _ L]) (simp add: s' km)
qed

text \<open>Giving blocks a new owner keeps them apart.\<close>

lemma blocks_retag:
  assumes w: "\<forall>x \<in> B. within brk x" and ap: "\<forall>x \<in> B. \<forall>y \<in> B. x \<noteq> y \<longrightarrow> apart x y"
    and f: "\<And>x. x \<in> B' \<Longrightarrow> f x \<in> B \<and> snd (f x) = snd x" and inj: "inj_on f B'"
  shows "\<forall>x \<in> B'. within brk x" "\<forall>x \<in> B'. \<forall>y \<in> B'. x \<noteq> y \<longrightarrow> apart x y"
proof -
  have 1: "within brk x \<longleftrightarrow> within brk y" if "snd x = snd y" for x y
    using that by (cases x; cases y) simp
  have 2: "apart x y \<longleftrightarrow> apart u v" if "snd x = snd u" "snd y = snd v" for x y u v
    using that by (cases x; cases y; cases u; cases v) simp
  show "\<forall>x \<in> B'. within brk x" using w f 1 by metis
  show "\<forall>x \<in> B'. \<forall>y \<in> B'. x \<noteq> y \<longrightarrow> apart x y"
    using ap f inj 2 unfolding inj_on_def by metis
qed

text \<open>Taking the first block of a free list.\<close>

lemma take_block_inv:
  fixes n :: u64
  assumes inv: "km_inv s Fr U" and i: "i < NUM_POOLS" and F: "Fr i = b # bs"
    and r: "pop_free_block i s = Inr (h, s1)"
  defines "s' \<equiv> set_header h (pool_ptr s1 i) n s1"
  shows "h = b \<and> U b = None \<and> km_inv s' (Fr(i := bs)) (U(b \<mapsto> Pool i)) \<and>
    changes_in (km_mem s) (km_mem s') (unat b) (unat (pool_sizes ! i)) \<and> rd64 (km_mem s') (b + 8) = n"
proof -
  note d = km_invD [OF inv]
  note pd = pools_okD [OF d(5)]
  let ?sz = "unat (pool_sizes ! i)"
  have bF: "(FreeIn i, b, ?sz) \<in> blocks Fr U" using blocks_free [OF i, of b Fr U] F by simp
  note bb = block_bounds [OF inv bF]
  define p where "p = (km_pools s ! i)\<lparr>kp_head := rd64 (km_mem s) b, kp_avail := kp_avail (km_pools s ! i) - 1\<rparr>"
  have hd: "kp_head (km_pools s ! i) = b" and ch: "free_chain (km_mem s) (rd64 (km_mem s) b) bs"
    using pd(3) [OF i] F by simp_all
  have h: "h = b" and s1: "s1 = s\<lparr>km_pools := (km_pools s)[i := p]\<rparr>"
    using r hd bb(5) by (auto simp: pop_free_block_def Let_def p_def)
  have s1f: "km_mem s1 = km_mem s" "pool_ptr s1 i = pool_ptr s i" by (simp_all add: s1 pool_ptr_def)
  have b16: "unat b + 16 \<le> 2 ^ 64" using bb by linarith
  note sh = set_header_changes [OF b16, where s = s1 and p = "pool_ptr s1 i" and n = n]
  have ch': "changes_in (km_mem s) (km_mem s') (unat b) ?sz"
    using changes_in_mono [OF sh(1)] bb(1) by (simp add: s'_def h s1f)
  have other: "same_on (km_mem s) (km_mem s') (unat c) k \<and> unat c + k < 2 ^ 64"
    if "(t, c, k) \<in> blocks Fr U" "(t, c, k) \<noteq> (FreeIn i, b, ?sz)" for t c k
    using changes_in_same_on [OF ch'] d(8) [OF bF that(1)] that(2) block_bounds(3) [OF inv that(1)] by auto
  have Ub: "U b = None"
  proof (rule ccontr)
    assume "U b \<noteq> None"
    then obtain k where "U b = Some k" by blast
    from d(8) [OF bF blocks_live [of U b k Fr, OF this]] extent_pos [OF d(6) [OF this]] bb(1) show False by auto
  qed
  have dist: "distinct (b # bs)" using pd(5) [OF i] F by simp
  have chain': "free_chain (km_mem s') (rd64 (km_mem s) b) bs"
  proof -
    have "same_on (km_mem s) (km_mem s') (unat c) ?sz \<and> unat c + ?sz < 2 ^ 64" if "c \<in> set bs" for c
      using other [OF blocks_free [OF i]] that F dist by auto
    from chain_cong [OF i this] ch show ?thesis by blast
  qed
  have "pools_ok s' (Fr(i := bs))"
    by (rule pools_ok_update [OF d(5) i, where p = p and m' = "km_mem s'"])
      (use chain' pd(2,4) [OF i] F dist other [OF blocks_free [of _ _ Fr U]] in
        \<open>auto simp: p_def s'_def s1 set_header_def\<close>)
  moreover have "header_ok s' a k" if "(U(b \<mapsto> Pool i)) a = Some k" for a k
  proof (cases "a = b")
    case True
    with that have k: "k = Pool i" by simp
    from sh(2) i True show ?thesis
      by (simp add: k header_ok_def s'_def h s1f pool_ptr_def set_header_def s1)
  next
    case False
    with that have "U a = Some k" by simp
    from headers_kept [OF inv this, of s'] other [OF blocks_live [of U a k Fr, OF this]] show ?thesis
      by (simp add: s'_def s1 set_header_def)
  qed
  moreover have "\<forall>x \<in> blocks (Fr(i := bs)) (U(b \<mapsto> Pool i)). within (unat (hp_brk s)) x"
    "\<forall>x \<in> blocks (Fr(i := bs)) (U(b \<mapsto> Pool i)). \<forall>y \<in> blocks (Fr(i := bs)) (U(b \<mapsto> Pool i)). x \<noteq> y \<longrightarrow> apart x y"
  proof -
    let ?f = "\<lambda>x. if x = (Live, b, ?sz) then (FreeIn i, b, ?sz) else x"
    have f: "?f x \<in> blocks Fr U \<and> snd (?f x) = snd x" if "x \<in> blocks (Fr(i := bs)) (U(b \<mapsto> Pool i))" for x
      using that i F by (auto simp: blocks_def split: if_splits)
    have "(FreeIn i, b, ?sz) \<notin> blocks (Fr(i := bs)) (U(b \<mapsto> Pool i))"
      using dist by (auto simp: blocks_def)
    then have inj: "inj_on ?f (blocks (Fr(i := bs)) (U(b \<mapsto> Pool i)))"
      by (intro inj_onI) (auto split: if_splits)
    note rt = blocks_retag [of "blocks Fr U" "unat (hp_brk s)", OF _ _ f inj]
    show "\<forall>x \<in> blocks (Fr(i := bs)) (U(b \<mapsto> Pool i)). within (unat (hp_brk s)) x"
      using rt(1) d(7,8) by blast
    show "\<forall>x \<in> blocks (Fr(i := bs)) (U(b \<mapsto> Pool i)). \<forall>y \<in> blocks (Fr(i := bs)) (U(b \<mapsto> Pool i)). x \<noteq> y \<longrightarrow> apart x y"
      using rt(2) d(7,8) by blast
  qed
  ultimately have "km_inv s' (Fr(i := bs)) (U(b \<mapsto> Pool i))"
    using d(1-4) unfolding km_inv_def by (simp add: s'_def s1 set_header_def bump_wf_def brk_ok_def)
  with h Ub ch' sh(3) show ?thesis by (simp add: s'_def)
qed

text \<open>Putting a block back.\<close>

lemma pool_of_ptr:
  assumes "i < NUM_POOLS" and "unat (km_base s) + 112 < 2 ^ 64"
  shows "pool_of s (pool_ptr s i) = Some i" "km_base s \<noteq> NULL \<Longrightarrow> pool_ptr s i \<noteq> NULL"
proof -
  have u: "unat (pool_ptr s j) = unat (km_base s) + 16 * j" if "j < NUM_POOLS" for j
  proof -
    have "unat (16 * of_nat j :: u64) = 16 * j"
      using that by (simp add: unat_word_ariths unat_of_nat NUM_POOLS_def)
    then show ?thesis
      using that assms(2) by (simp add: pool_ptr_def unat_word_ariths NUM_POOLS_def)
  qed
  have "pool_ptr s j \<noteq> pool_ptr s i" if "j < i" for j
    using u [of j] u [of i] that assms(1) by auto
  then show "pool_of s (pool_ptr s i) = Some i"
    using assms(1) by (auto simp: pool_of_def find_Some_iff intro!: exI [of _ i])
  show "pool_ptr s i \<noteq> NULL" if "km_base s \<noteq> NULL"
    using u [OF assms(1)] that by (metis add_is_0 unat_0 unat_eq_0)
qed

lemma push_block_inv:
  assumes inv: "km_inv s Fr U" and h: "U h = Some (Pool i)"
  shows "km_inv (push_free_block i h s) (Fr(i := h # Fr i)) (U(h := None)) \<and>
    changes_in (km_mem s) (km_mem (push_free_block i h s)) (unat h) (unat (pool_sizes ! i))"
proof -
  note d = km_invD [OF inv]
  note pd = pools_okD [OF d(5)]
  let ?sz = "unat (pool_sizes ! i)" and ?s = "push_free_block i h s"
  let ?B = "blocks (Fr(i := h # Fr i)) (U(h := None))"
  have i: "i < NUM_POOLS" using d(6) [OF h] by (simp add: header_ok_def)
  have hL: "(Live, h, ?sz) \<in> blocks Fr U" using blocks_live [of U h "Pool i" Fr, OF h] by simp
  note bb = block_bounds [OF inv hL]
  define p where "p = (km_pools s ! i)\<lparr>kp_head := h, kp_avail := kp_avail (km_pools s ! i) + 1\<rparr>"
  let ?m = "wr64 h (kp_head (km_pools s ! i)) (km_mem s)"
  have s': "?s = s\<lparr>km_mem := ?m, km_pools := (km_pools s)[i := p]\<rparr>"
    by (simp add: push_free_block_def Let_def p_def)
  have h8: "unat h + 8 \<le> 2 ^ 64" using bb by linarith
  have ch: "changes_in (km_mem s) ?m (unat h) ?sz"
    using changes_in_mono [OF changes_in_wr64 [OF h8]] bb(1) by auto
  have other: "same_on (km_mem s) ?m (unat c) k \<and> unat c + k < 2 ^ 64"
    if "(t, c, k) \<in> blocks Fr U" "(t, c, k) \<noteq> (Live, h, ?sz)" for t c k
    using changes_in_same_on [OF ch] d(8) [OF hL that(1)] that(2) block_bounds(3) [OF inv that(1)] by auto
  have notin: "h \<notin> set (Fr i)"
  proof
    assume "h \<in> set (Fr i)"
    from d(8) [OF hL blocks_free [of i h Fr U, OF i this]] bb(1) show False by simp
  qed
  have "free_chain ?m (kp_head (km_pools s ! i)) (Fr i)"
    using chain_cong [OF i, of "Fr i" "km_mem s" ?m] other [OF blocks_free [of i _ Fr U, OF i]] pd(3) [OF i]
    by auto
  then have "free_chain ?m h (h # Fr i)" using bb(5) by (simp add: rd64_wr64)
  then have "pools_ok ?s (Fr(i := h # Fr i))"
    by (intro pools_ok_update [OF d(5) i, where p = p and m' = ?m])
      (use pd(2,4,5) [OF i] notin other [OF blocks_free [of _ _ Fr U]] in \<open>auto simp: p_def s'\<close>)
  moreover have "header_ok ?s a k" if "(U(h := None)) a = Some k" for a k
  proof -
    from that have a: "U a = Some k" "a \<noteq> h" by (auto split: if_splits)
    from headers_kept [OF inv a(1), of ?s] other [OF blocks_live [of U a k Fr, OF a(1)]] a(2) show ?thesis
      by (simp add: s')
  qed
  moreover have "\<forall>x \<in> ?B. within (unat (hp_brk s)) x" "\<forall>x \<in> ?B. \<forall>y \<in> ?B. x \<noteq> y \<longrightarrow> apart x y"
  proof -
    let ?f = "\<lambda>x. if x = (FreeIn i, h, ?sz) then (Live, h, ?sz) else x"
    have f: "?f x \<in> blocks Fr U \<and> snd (?f x) = snd x" if "x \<in> ?B" for x
      using that h by (auto simp: blocks_def split: if_splits)
    have "(Live, h, ?sz) \<notin> ?B" by (auto simp: blocks_def)
    then have inj: "inj_on ?f ?B" by (intro inj_onI) (auto split: if_splits)
    note rt = blocks_retag [of "blocks Fr U" "unat (hp_brk s)", OF _ _ f inj]
    show "\<forall>x \<in> ?B. within (unat (hp_brk s)) x" using rt(1) d(7,8) by blast
    show "\<forall>x \<in> ?B. \<forall>y \<in> ?B. x \<noteq> y \<longrightarrow> apart x y" using rt(2) d(7,8) by blast
  qed
  ultimately have "km_inv ?s (Fr(i := h # Fr i)) (U(h := None))"
    using d(1-4) unfolding km_inv_def by (simp add: s' bump_wf_def brk_ok_def)
  with ch show ?thesis by (simp add: s')
qed

text \<open>Requests that fit no pool.\<close>

lemma num_pages_eq:
  assumes "unat n < 2 ^ 42"
  shows "num_pages n = int ((unat n + 4095) div 4096)"
proof -
  have "unat n + 4096 \<le> 2 ^ 64" using assms by simp
  then have u: "unat (n + 4095) = unat n + 4095" by (simp add: unat_word_ariths)
  have dv: "unat (drop_bit 12 w) = unat w div 4096" for w :: u64
    unfolding unsigned_drop_bit_eq by (simp add: drop_bit_eq_div)
  have "(n + PAGE_SIZE - 1) AND NOT (PAGE_SIZE - 1) = align_page n" by (simp add: align_page_def)
  moreover have "unat (drop_bit 12 (align_page n)) = (unat n + 4095) div 4096"
    unfolding align_page_base dv unat_page_base u by simp
  moreover have "(unat n + 4095) div 4096 < 2 ^ 31" using assms by (simp add: less_mult_imp_div_less)
  moreover have "(of_nat (unat w) :: u64) = w" for w :: u64 by simp
  ultimately show ?thesis
    using int_of_small [of "(unat n + 4095) div 4096"] unfolding num_pages_def by metis
qed

lemma alloc_pages_inv:
  assumes inv: "km_inv s Fr U" and np: "num_pages sz = int n" "0 < n"
    and fit: "unat (hp_brk s) + 4096 * n \<le> unat KERNEL_STACKS_START"
    and r: "MMU_alloc_pages (int n) s = Inr (h, s1)"
  defines "s' \<equiv> set_header h NULL sz s1"
  shows "h \<noteq> NULL \<and> U h = None \<and> km_inv s' Fr (U(h \<mapsto> Pages n)) \<and>
    (\<forall>x. unat x < unat (hp_brk s) \<longrightarrow> km_mem s' x = km_mem s x) \<and> rd64 (km_mem s') (h + 8) = sz"
proof -
  note d = km_invD [OF inv]
  have b: "bump_wf s1" "brk_ok s1" "heap_only s s1" "unat (hp_brk s1) = unat (hp_brk s) + 4096 * n" "h = hp_brk s"
    using alloc_pages_loop_brk [OF d(1,2) fit, of 0 NULL h s1] r np(2) by (simp_all add: MMU_alloc_pages_def)
  note km = heap_only_km [OF b(3)]
  have nn: "h \<noteq> NULL" using d(2) by (auto simp: b(5) brk_ok_def KERNEL_HEAP_START_def)
  have h16: "unat h + 16 \<le> 2 ^ 64" using brk_bound [OF d(2)] by (simp add: b(5))
  note sh = set_header_changes [OF h16, where s = s1 and p = NULL and n = sz]
  have ch: "changes_in (km_mem s) (km_mem s') (unat h) 16" using sh(1) by (simp add: s'_def km)
  have old: "unat c + k \<le> unat h" "same_on (km_mem s) (km_mem s') (unat c) k \<and> unat c + k < 2 ^ 64"
    if "(t, c, k) \<in> blocks Fr U" for t c k
    using changes_in_same_on [OF ch, of "unat c" k] block_bounds(2,3) [OF inv that] by (simp_all add: b(5))
  have Uh: "U h = None"
  proof (rule ccontr)
    assume "U h \<noteq> None"
    then obtain k where k: "U h = Some k" by blast
    from old(1) [OF blocks_live [of U h k Fr, OF k]] extent_pos [OF d(6) [OF k]] show False by simp
  qed
  have s'f: "km_pools s' = km_pools s" "km_base s' = km_base s" "hp_brk s' = hp_brk s1"
    by (simp_all add: s'_def set_header_def km)
  have "pools_ok s' Fr"
    using d(5) chain_cong [of _ _ "km_mem s" "km_mem s'"] old(2) [OF blocks_free [of _ _ Fr U]]
    by (auto simp: pools_ok_def s'f)
  moreover have "header_ok s' a k" if "(U(h \<mapsto> Pages n)) a = Some k" for a k
  proof (cases "a = h")
    case True
    with that have "k = Pages n" by simp
    with True sh(2,3) np show ?thesis by (simp add: header_ok_def s'_def)
  next
    case False
    with that have a: "U a = Some k" by simp
    from headers_kept [OF inv a, of s'] old(2) [OF blocks_live [of U a k Fr, OF a]] show ?thesis
      by (simp add: s'f)
  qed
  moreover have blk: "x \<in> blocks Fr U \<or> x = (Live, h, 4096 * n)" if "x \<in> blocks Fr (U(h \<mapsto> Pages n))" for x
    using that by (auto simp: blocks_def split: if_splits)
  have "within (unat (hp_brk s1)) x" if "x \<in> blocks Fr (U(h \<mapsto> Pages n))" for x
    using blk [OF that] d(2) d(7) [of x] b(4,5) by (cases x) (auto simp: brk_ok_def word_le_nat_alt)
  moreover have "apart x y" if "x \<in> blocks Fr (U(h \<mapsto> Pages n))" "y \<in> blocks Fr (U(h \<mapsto> Pages n))" "x \<noteq> y" for x y
  proof -
    have "apart u (Live, h, 4096 * n) \<and> apart (Live, h, 4096 * n) u" if "u \<in> blocks Fr U" for u
      using old(1) that by (cases u) auto
    with blk [OF that(1)] blk [OF that(2)] that(3) d(8) show ?thesis by metis
  qed
  ultimately have "km_inv s' Fr (U(h \<mapsto> Pages n))"
    using b(1,2) d(3,4) unfolding km_inv_def s'f by (simp add: s'_def set_header_def bump_wf_def brk_ok_def)
  moreover have "\<forall>x. unat x < unat (hp_brk s) \<longrightarrow> km_mem s' x = km_mem s x"
    using ch by (simp add: changes_in_def b(5))
  ultimately show ?thesis using nn Uh sh(3) by (simp add: s'_def)
qed

lemma free_pages_inv:
  assumes inv: "km_inv s Fr U" and h: "U h = Some (Pages n)"
  shows "km_inv (MMU_free_pages a k s) Fr (U(h := None)) \<and> km_mem (MMU_free_pages a k s) = km_mem s"
proof -
  note d = km_invD [OF inv]
  let ?s = "MMU_free_pages a k s"
  have f: "pf_only s ?s" "bump_wf ?s" using free_pages_only [of s "nat k" a] d(1) by (auto simp: MMU_free_pages_def)
  note km = heap_only_km [OF pf_heap_only [OF f(1)]]
  have brk: "hp_brk ?s = hp_brk s" using f(1) by simp
  have sub: "blocks Fr (U(h := None)) \<subseteq> blocks Fr U" by (auto simp: blocks_def split: if_splits)
  have "pools_ok ?s Fr" using d(5) by (simp add: pools_ok_def km)
  moreover have "header_ok ?s a' k'" if "(U(h := None)) a' = Some k'" for a' k'
    using d(6) [of a' k'] that by (auto simp: header_ok_def km pool_ptr_def split: if_splits owner.splits)
  ultimately show ?thesis
    using f(2) d(2,3,4) d(7,8) [OF subsetD [OF sub]] subsetD [OF sub] unfolding km_inv_def
    by (simp add: km brk brk_ok_def del: fun_upd_apply)
qed

section \<open>Allocation and release\<close>

text \<open>The memory of every live allocation is untouched.\<close>

definition live_same :: "(ptr \<Rightarrow> owner option) \<Rightarrow> bmem \<Rightarrow> bmem \<Rightarrow> bool" where
  "live_same U m m' \<longleftrightarrow> (\<forall>h k. U h = Some k \<longrightarrow> same_on m m' (unat h) (extent k))"

lemma find_pool_Some:
  "find_pool ps i n = Some k \<Longrightarrow> i \<le> k \<and> k < i + length ps \<and> n \<le> kp_block_size (ps ! (k - i))"
  by (induction ps i n rule: find_pool.induct) (fastforce split: if_splits simp: nth_Cons')+

text \<open>The request fits what is left of the heap's address range, and the sizes do not wrap.\<close>

definition fits :: "u64 \<Rightarrow> 'a heap_state_scheme \<Rightarrow> bool" where
  "fits sz s \<longleftrightarrow> unat sz + 16 < 2 ^ 42 \<and>
     unat (hp_brk s) + 4096 * ((unat sz + 4111) div 4096) \<le> unat KERNEL_STACKS_START"

lemma kmalloc_inv:
  assumes inv: "km_inv s Fr U" and ft: "fits sz s" and r: "kmalloc sz s = Inr (p, s')"
  shows "\<exists>Fr' k. U (p - HEADER_SIZE) = None \<and> unat sz + 16 \<le> extent k \<and>
     km_inv s' Fr' (U(p - HEADER_SIZE \<mapsto> k)) \<and> live_same U (km_mem s) (km_mem s') \<and>
     (\<forall>i. find_pool (km_pools s) 0 (sz + HEADER_SIZE) = Some i \<longrightarrow> k = Pool i)"
proof -
  note d = km_invD [OF inv]
  note pd = pools_okD [OF d(5)]
  have fs: "unat (sz + HEADER_SIZE) = unat sz + 16"
    using ft by (simp add: fits_def HEADER_SIZE_def unat_word_ariths)
  have live: "live_same U (km_mem s) m'" if "\<forall>x. unat x < unat (hp_brk s) \<longrightarrow> m' x = km_mem s x" for m'
    using that block_bounds(2) [OF inv blocks_live] unfolding live_same_def same_on_def by fastforce
  show ?thesis
  proof (cases "find_pool (km_pools s) 0 (sz + HEADER_SIZE)")
    case (Some i)
    from find_pool_Some [OF this] pd(1,2)
    have i: "i < NUM_POOLS" and le: "sz + HEADER_SIZE \<le> pool_sizes ! i" by auto
    from r Some obtain s1 h s2 where
      a: "(if kp_avail (km_pools s ! i) = 0 then allocate_blocks i s else Inr s) = Inr s1"
      and b: "pop_free_block i s1 = Inr (h, s2)" and p: "p = h + HEADER_SIZE"
      and s': "s' = set_header h (pool_ptr s2 i) (sz + HEADER_SIZE) s2"
      by (auto simp: kmalloc_def Let_def res_iff)
    have "\<exists>Fr1. Fr1 i \<noteq> [] \<and> km_inv s1 Fr1 U \<and> live_same U (km_mem s) (km_mem s1)"
    proof (cases "Fr i = []")
      case True
      with a pd(4) [OF i] have "allocate_blocks i s = Inr s1" by simp
      from allocate_blocks_inv [OF inv i True this] obtain L where
        "L \<noteq> []" "km_inv s1 (Fr(i := L)) U"
        "\<forall>x. unat x < unat (hp_brk s) \<longrightarrow> km_mem s1 x = km_mem s x" by blast
      with live [of "km_mem s1"] show ?thesis by (intro exI [of _ "Fr(i := L)"]) simp
    next
      case False
      with a pd(4) [OF i] inv show ?thesis by (auto simp: live_same_def same_on_def)
    qed
    then obtain Fr1 c cs where F1: "Fr1 i = c # cs" and i1: "km_inv s1 Fr1 U"
      and l1: "live_same U (km_mem s) (km_mem s1)" by (auto simp: neq_Nil_conv)
    note tb = take_block_inv [OF i1 i F1 b, of "sz + HEADER_SIZE"]
    have "live_same U (km_mem s1) (km_mem s')"
      unfolding live_same_def
    proof (intro allI impI)
      fix a k assume k: "U a = Some k"
      from tb have "changes_in (km_mem s1) (km_mem s') (unat c) (unat (pool_sizes ! i))"
        unfolding s' by (elim conjE)
      moreover have "apart (FreeIn i, c, unat (pool_sizes ! i)) (Live, a, extent k)"
        using km_invD(8) [OF i1 blocks_free [of i c Fr1 U, OF i] blocks_live [of U a k Fr1, OF k]] F1 by simp
      ultimately show "same_on (km_mem s1) (km_mem s') (unat a) (extent k)"
        by (auto intro: changes_in_same_on)
    qed
    with l1 have "live_same U (km_mem s) (km_mem s')" by (simp add: live_same_def same_on_def)
    moreover have "unat sz + 16 \<le> extent (Pool i)"
      using le fs by (simp add: word_le_nat_alt)
    moreover have "h = c" using tb by (elim conjE)
    ultimately show ?thesis using tb Some unfolding p s' \<open>h = c\<close>
      by (intro exI [of _ "Fr1(i := cs)"] exI [of _ "Pool i"]) simp
  next
    case None
    define n where "n = (unat sz + 4111) div 4096"
    have np: "num_pages (sz + HEADER_SIZE) = int n" "0 < n"
      using num_pages_eq [of "sz + HEADER_SIZE"] ft fs by (simp_all add: fits_def n_def)
    from r None obtain h s1 where a: "MMU_alloc_pages (int n) s = Inr (h, s1)"
      and p: "p = h + HEADER_SIZE" and s': "s' = set_header h NULL (sz + HEADER_SIZE) s1"
      by (auto simp: kmalloc_def Let_def res_iff np(1) split: if_splits)
    have "unat (hp_brk s) + 4096 * n \<le> unat KERNEL_STACKS_START" using ft by (simp add: fits_def n_def)
    note ap = alloc_pages_inv [OF inv np this a]
    have "unat sz + 16 \<le> extent (Pages n)" unfolding n_def extent.simps by linarith
    moreover have "live_same U (km_mem s) (km_mem s')" using ap live by (simp add: s')
    ultimately show ?thesis using ap None unfolding p s'
      by (intro exI [of _ Fr] exI [of _ "Pages n"]) simp
  qed
qed

lemma kfree_inv:
  assumes inv: "km_inv s Fr U" and h: "U (p - HEADER_SIZE) = Some k" and nn: "p \<noteq> NULL"
  shows "\<exists>s' Fr'. kfree p s = Inr s' \<and> km_inv s' Fr' (U(p - HEADER_SIZE := None)) \<and>
     live_same (U(p - HEADER_SIZE := None)) (km_mem s) (km_mem s')"
proof -
  note d = km_invD [OF inv]
  let ?h = "p - HEADER_SIZE"
  show ?thesis
  proof (cases k)
    case (Pool i)
    then have i: "i < NUM_POOLS" and rd: "rd64 (km_mem s) ?h = pool_ptr s i"
      using d(6) [OF h] by (auto simp: header_ok_def)
    note pb = push_block_inv [OF inv h [unfolded Pool]]
    have "kfree p s = Inr (push_free_block i ?h s)"
      using nn rd pool_of_ptr [OF i d(4)] d(3) by (simp add: kfree_def Let_def)
    moreover have "live_same (U(?h := None)) (km_mem s) (km_mem (push_free_block i ?h s))"
      unfolding live_same_def
    proof (intro allI impI)
      fix a k' assume "(U(?h := None)) a = Some k'"
      then have a: "U a = Some k'" "a \<noteq> ?h" by (auto split: if_splits)
      have "apart (Live, ?h, extent k) (Live, a, extent k')"
        using d(8) [OF blocks_live [of U ?h k Fr, OF h] blocks_live [of U a k' Fr, OF a(1)]] a(2) by simp
      with pb show "same_on (km_mem s) (km_mem (push_free_block i ?h s)) (unat a) (extent k')"
        by (auto simp: Pool intro: changes_in_same_on)
    qed
    ultimately show ?thesis using pb by blast
  next
    case (Pages n)
    then have rd: "rd64 (km_mem s) ?h = NULL"
      using d(6) [OF h] by (simp add: header_ok_def)
    note fp = free_pages_inv [OF inv h [unfolded Pages]]
    have "kfree p s = Inr (MMU_free_pages ?h (num_pages (rd64 (km_mem s) (?h + 8))) s)"
      using nn rd by (simp add: kfree_def Let_def)
    with fp show ?thesis by (auto simp: live_same_def same_on_def)
  qed
qed

section \<open>The allocator interface\<close>

text \<open>
  What the users of the heap rely on: \<open>inv s L\<close> says that the allocations \<open>L\<close>, each a pointer
  with a usable size, are live; \<open>mem s\<close> is the memory.
\<close>

definition region_apart :: "u64 \<times> nat \<Rightarrow> u64 \<times> nat \<Rightarrow> bool" where
  "region_apart x y \<longleftrightarrow>
     unat (fst x) + snd x \<le> unat (fst y) \<or> unat (fst y) + snd y \<le> unat (fst x)"

locale memory_allocator =
  fixes malloc :: "u64 \<Rightarrow> 's \<Rightarrow> (u64 \<times> 's) res"
    and free :: "u64 \<Rightarrow> 's \<Rightarrow> 's res"
    and mem :: "'s \<Rightarrow> bmem"
    and inv :: "'s \<Rightarrow> (u64 \<times> nat) set \<Rightarrow> bool"
    and ok :: "u64 \<Rightarrow> 's \<Rightarrow> bool"
  assumes live_apart: "inv s L \<Longrightarrow> x \<in> L \<Longrightarrow> y \<in> L \<Longrightarrow> x \<noteq> y \<Longrightarrow> region_apart x y"
    and malloc_live: "inv s L \<Longrightarrow> ok n s \<Longrightarrow> malloc n s = Inr (p, s') \<Longrightarrow>
      \<exists>k. unat n \<le> k \<and> (p, k) \<notin> L \<and> inv s' (insert (p, k) L)"
    and malloc_mem: "inv s L \<Longrightarrow> ok n s \<Longrightarrow> malloc n s = Inr (p, s') \<Longrightarrow> (q, k) \<in> L \<Longrightarrow>
      same_on (mem s) (mem s') (unat q) k"
    and free_live: "inv s L \<Longrightarrow> (p, k) \<in> L \<Longrightarrow> \<exists>s'. free p s = Inr s' \<and> inv s' (L - {(p, k)})"
    and free_mem: "inv s L \<Longrightarrow> (p, k) \<in> L \<Longrightarrow> free p s = Inr s' \<Longrightarrow> (q, j) \<in> L - {(p, k)} \<Longrightarrow>
      same_on (mem s) (mem s') (unat q) j"

text \<open>Allocations in a row, each of which fits.\<close>

fun malloc_run :: "(u64 \<Rightarrow> 's \<Rightarrow> (u64 \<times> 's) res) \<Rightarrow> (u64 \<Rightarrow> 's \<Rightarrow> bool) \<Rightarrow> u64 list \<Rightarrow> 's \<Rightarrow> (u64 list \<times> 's) res" where
  "malloc_run malloc ok [] s = Inr ([], s)"
| "malloc_run malloc ok (n # ns) s =
     (if \<not> ok n s then Inl BadAccess
      else bind_res (malloc n s) (\<lambda>(p, s). bind_res (malloc_run malloc ok ns s) (\<lambda>(ps, s). Inr (p # ps, s))))"

context memory_allocator begin

lemma malloc_run_live:
  "inv s L \<Longrightarrow> malloc_run malloc ok ns s = Inr (ps, s') \<Longrightarrow>
   \<exists>ks. length ks = length ps \<and> list_all2 (\<lambda>n k. unat n \<le> k) ns ks \<and>
     set (zip ps ks) \<inter> L = {} \<and> distinct (zip ps ks) \<and> inv s' (set (zip ps ks) \<union> L) \<and>
     (\<forall>(q, j) \<in> L. same_on (mem s) (mem s') (unat q) j)"
proof (induction ns arbitrary: s L ps)
  case Nil
  then show ?case by (auto simp: same_on_def)
next
  case (Cons n ns)
  then obtain p s1 qs where ok: "ok n s" and m: "malloc n s = Inr (p, s1)"
    and rest: "malloc_run malloc ok ns s1 = Inr (qs, s')" and ps: "ps = p # qs"
    by (auto simp: res_iff split: if_splits)
  obtain k where k: "unat n \<le> k" "(p, k) \<notin> L" "inv s1 (insert (p, k) L)"
    using malloc_live [OF Cons.prems(1) ok m] by blast
  from Cons.IH [OF k(3) rest] obtain ks where ks: "length ks = length qs"
    "list_all2 (\<lambda>n k. unat n \<le> k) ns ks" "set (zip qs ks) \<inter> insert (p, k) L = {}"
    "distinct (zip qs ks)" "inv s' (set (zip qs ks) \<union> insert (p, k) L)"
    "\<forall>(q, j) \<in> insert (p, k) L. same_on (mem s1) (mem s') (unat q) j" by blast
  have "same_on (mem s) (mem s') (unat q) j" if "(q, j) \<in> L" for q j
    using malloc_mem [OF Cons.prems(1) ok m that] ks(6) that by (fastforce simp: same_on_def)
  with ks k show ?case
    by (intro exI [of _ "k # ks"]) (auto simp: ps Un_insert_right)
qed

end

text \<open>Live allocations by the pointer their user holds.\<close>

definition user_live :: "(ptr \<Rightarrow> owner option) \<Rightarrow> (u64 \<times> nat) set" where
  "user_live U = (\<lambda>h. (h + HEADER_SIZE, extent (the (U h)) - 16)) ` dom U"

definition km_live :: "'a km_state_scheme \<Rightarrow> (u64 \<times> nat) set \<Rightarrow> bool" where
  "km_live s L \<longleftrightarrow> (\<exists>Fr U. km_inv s Fr U \<and> L = user_live U)"

lemma user_live_iff:
  "(p, k) \<in> user_live U \<longleftrightarrow> (\<exists>o'. U (p - HEADER_SIZE) = Some o' \<and> k = extent o' - 16)"
  by (force simp: user_live_def image_iff diff_eq_eq eq_diff_eq)

lemma user_live_insert:
  "U (p - HEADER_SIZE) = None \<Longrightarrow>
   user_live (U(p - HEADER_SIZE \<mapsto> k)) = insert (p, extent k - 16) (user_live U)"
  by (rule set_eqI) (auto simp: user_live_iff split: prod.splits if_splits)

lemma user_live_remove:
  "U (p - HEADER_SIZE) = Some k \<Longrightarrow>
   user_live (U(p - HEADER_SIZE := None)) = user_live U - {(p, extent k - 16)}"
  by (rule set_eqI) (auto simp: user_live_iff split: prod.splits if_splits)

lemma unat_add_16: "unat h + 16 < 2 ^ 64 \<Longrightarrow> unat (h + 16 :: u64) = unat h + 16"
  by (simp add: unat_word_ariths)

lemma unat_sub_16: "unat (p - HEADER_SIZE) + n < 2 ^ 64 \<Longrightarrow> 16 \<le> n \<Longrightarrow> unat p = unat (p - HEADER_SIZE) + 16"
  using unat_add_16 [of "p - 16"] by (simp add: HEADER_SIZE_def)

lemma km_live_apart:
  assumes "km_live s L" "x \<in> L" "y \<in> L" "x \<noteq> y"
  shows "region_apart x y"
proof -
  from assms(1) obtain Fr U where inv: "km_inv s Fr U" and L: "L = user_live U"
    by (auto simp: km_live_def)
  obtain p n q m where xy: "x = (p, n)" "y = (q, m)" by fastforce
  from assms(2,3) obtain k k' where
    x: "U (p - HEADER_SIZE) = Some k" "n = extent k - 16"
    and y: "U (q - HEADER_SIZE) = Some k'" "m = extent k' - 16" by (auto simp: L xy user_live_iff)
  with assms(4) have ne: "p - HEADER_SIZE \<noteq> q - HEADER_SIZE" by (auto simp: xy)
  note bx = block_bounds [OF inv blocks_live [of U _ k Fr, OF x(1)]]
  note by' = block_bounds [OF inv blocks_live [of U _ k' Fr, OF y(1)]]
  have "unat p = unat (p - HEADER_SIZE) + 16" "unat q = unat (q - HEADER_SIZE) + 16"
    using unat_sub_16 [OF bx(3)] unat_sub_16 [OF by'(3)] bx(1) by'(1) by simp_all
  moreover have "apart (Live, p - HEADER_SIZE, extent k) (Live, q - HEADER_SIZE, extent k')"
    using km_invD(8) [OF inv blocks_live [of U _ k Fr, OF x(1)] blocks_live [of U _ k' Fr, OF y(1)]] ne by simp
  ultimately show ?thesis using bx(1) by'(1) by (auto simp: region_apart_def xy x(2) y(2))
qed

lemma live_same_user:
  assumes inv: "km_inv s Fr U" and h: "U h = Some k" and same: "live_same U' m m'" "U' h = Some k"
  shows "same_on m m' (unat (h + HEADER_SIZE)) (extent k - 16)"
proof -
  note b = block_bounds [OF inv blocks_live [of U h k Fr, OF h]]
  have "unat (h + HEADER_SIZE) = unat h + 16"
    using b(1,3) unfolding HEADER_SIZE_def by (simp add: unat_add_16)
  with same b(1) show ?thesis by (auto simp: live_same_def same_on_def)
qed

lemma km_live_malloc:
  assumes live: "km_live s L" and ft: "fits n s" and r: "kmalloc n s = Inr (p, s')"
  shows "\<exists>k. unat n \<le> k \<and> (p, k) \<notin> L \<and> km_live s' (insert (p, k) L)"
    and "(q, k) \<in> L \<Longrightarrow> same_on (km_mem s) (km_mem s') (unat q) k"
proof -
  from live obtain Fr U where inv: "km_inv s Fr U"
    and L: "L = user_live U" by (auto simp: km_live_def)
  from kmalloc_inv [OF inv ft r] obtain Fr' k' where k: "U (p - HEADER_SIZE) = None" "unat n + 16 \<le> extent k'"
    "km_inv s' Fr' (U(p - HEADER_SIZE \<mapsto> k'))" "live_same U (km_mem s) (km_mem s')" by blast
  show "\<exists>k. unat n \<le> k \<and> (p, k) \<notin> L \<and> km_live s' (insert (p, k) L)"
    unfolding km_live_def L
  proof (intro exI [of _ "extent k' - 16"] conjI exI)
    show "unat n \<le> extent k' - 16" using k(2) by simp
    show "(p, extent k' - 16) \<notin> user_live U" using k(1) by (simp add: user_live_iff)
    show "insert (p, extent k' - 16) (user_live U) = user_live (U(p - HEADER_SIZE \<mapsto> k'))"
      using user_live_insert [of U p, OF k(1)] by simp
  qed (rule k(3))
  show "same_on (km_mem s) (km_mem s') (unat q) k" if "(q, k) \<in> L"
  proof -
    from that obtain i where i: "U (q - HEADER_SIZE) = Some i" and kk: "k = extent i - 16" by (auto simp: L user_live_iff)
    from live_same_user [OF inv i k(4) i] show ?thesis by (simp add: kk)
  qed
qed

lemma km_live_free:
  assumes live: "km_live s L" and p: "(p, k) \<in> L"
  shows "\<exists>s'. kfree p s = Inr s' \<and> km_live s' (L - {(p, k)})"
    and "kfree p s = Inr s' \<Longrightarrow> (q, j) \<in> L - {(p, k)} \<Longrightarrow> same_on (km_mem s) (km_mem s') (unat q) j"
proof -
  from live obtain Fr U where inv: "km_inv s Fr U"
    and L: "L = user_live U" by (auto simp: km_live_def)
  from p obtain o' where U: "U (p - HEADER_SIZE) = Some o'" and k: "k = extent o' - 16" by (auto simp: L user_live_iff)
  note b = block_bounds [OF inv blocks_live [of U _ o' Fr, OF U]]
  have nn: "p \<noteq> NULL" using b(1,3) by (auto simp: HEADER_SIZE_def)
  from kfree_inv [OF inv U nn] obtain s1 Fr' where f: "kfree p s = Inr s1"
    "km_inv s1 Fr' (U(p - HEADER_SIZE := None))"
    "live_same (U(p - HEADER_SIZE := None)) (km_mem s) (km_mem s1)" by blast
  show "\<exists>s'. kfree p s = Inr s' \<and> km_live s' (L - {(p, k)})"
    unfolding km_live_def L k user_live_remove [of U p, OF U, symmetric] using f by blast
  show "same_on (km_mem s) (km_mem s') (unat q) j" if "kfree p s = Inr s'" "(q, j) \<in> L - {(p, k)}"
  proof -
    from that(2) obtain i where h: "U (q - HEADER_SIZE) = Some i" and j: "j = extent i - 16"
      by (auto simp: L user_live_iff)
    from that(2) U h k j have "q - HEADER_SIZE \<noteq> p - HEADER_SIZE" by auto
    with h have "(U(p - HEADER_SIZE := None)) (q - HEADER_SIZE) = Some i" by simp
    from live_same_user [OF inv h f(3) this] show ?thesis using that(1) f(1) j by simp
  qed
qed

text \<open>A client that writes inside its own allocations keeps the heap intact.\<close>

lemma km_live_write:
  assumes live: "km_live s L" and p: "(p, k) \<in> L" and ch: "changes_in (km_mem s) m' (unat p) k"
  shows "km_live (s\<lparr>km_mem := m'\<rparr>) L"
proof -
  from live obtain Fr U where inv: "km_inv s Fr U" and L: "L = user_live U" by (auto simp: km_live_def)
  note d = km_invD [OF inv]
  let ?h = "p - HEADER_SIZE" and ?s = "s\<lparr>km_mem := m'\<rparr>"
  from p obtain w where U: "U ?h = Some w" and k: "k = extent w - 16" by (auto simp: L user_live_iff)
  note hL = blocks_live [of U _ w Fr, OF U]
  note b = block_bounds [OF inv hL]
  have up: "unat p = unat ?h + 16" using unat_sub_16 [OF b(3)] b(1) by simp
  have other: "same_on (km_mem s) m' (unat c) n \<and> unat c + n < 2 ^ 64"
    if "(t, c, n) \<in> blocks Fr U" "(t, c, n) \<noteq> (Live, ?h, extent w)" for t c n
    using changes_in_same_on [OF ch, of "unat c" n] d(8) [OF hL that(1)] that(2) block_bounds(3) [OF inv that(1)]
      up b(1) by (auto simp: k)
  have "free_chain m' (kp_head (km_pools s ! i)) (Fr i)" if i: "i < NUM_POOLS" for i
    using chain_cong [OF i, of "Fr i" "km_mem s" m'] other [OF blocks_free [of i _ Fr U, OF i]]
      pools_okD(3) [OF d(5) i] by auto
  then have "pools_ok ?s Fr" using d(5) by (simp add: pools_ok_def)
  moreover have "header_ok ?s h o'" if h: "U h = Some o'" for h o'
  proof (cases "h = ?h")
    case True
    have u8: "unat (?h + 8) = unat ?h + 8" using b(1,3) by (simp add: unat_word_ariths)
    have "rd64 m' ?h = rd64 (km_mem s) ?h" "rd64 m' (?h + 8) = rd64 (km_mem s) (?h + 8)"
      using ch up b(1,3) u8 by (auto intro!: rd64_nat_cong simp: changes_in_def)
    with d(6) [OF U] True h U show ?thesis by (auto simp: header_ok_def pool_ptr_def split: owner.splits)
  next
    case False
    with headers_kept [OF inv h, of ?s] other [OF blocks_live [of U h o' Fr, OF h]] show ?thesis by simp
  qed
  ultimately have "km_inv ?s Fr U"
    using d(1-4,7,8) unfolding km_inv_def by (simp add: bump_wf_def brk_ok_def)
  then show ?thesis by (auto simp: km_live_def L)
qed

interpretation kmheap: memory_allocator kmalloc kfree km_mem km_live fits
  by unfold_locales
    (blast intro: km_live_apart, blast intro: km_live_malloc, blast intro: km_live_malloc,
      blast intro: km_live_free, blast intro: km_live_free)

text \<open>Blocks of a pool are served as long as the page tables can be extended.\<close>

lemma room_alloc_page:
  assumes "room (Suc (Suc (Suc n))) s" and "hp_brk s < KERNEL_STACKS_START"
  shows "\<exists>a s'. MMU_alloc_page s = Inr (a, s') \<and> room n s'"
  using room_map_page [OF assms(1), of "hp_brk s" 0 heap_flags] assms(2)
  by (auto simp: MMU_alloc_page_def room_def bump_core_def simp flip: not_less)

lemma kmalloc_pool_progress:
  assumes inv: "km_inv s Fr U" and rm: "room (Suc (Suc (Suc n))) s"
    and f: "find_pool (km_pools s) 0 (sz + HEADER_SIZE) = Some i"
    and lt: "hp_brk s < KERNEL_STACKS_START"
  shows "\<exists>p s'. kmalloc sz s = Inr (p, s') \<and> room n s'"
proof -
  note d = km_invD [OF inv]
  note pd = pools_okD [OF d(5)]
  from find_pool_Some [OF f] pd(1) have i: "i < NUM_POOLS" by simp
  have "\<exists>s1 Fr1. (if kp_avail (km_pools s ! i) = 0 then allocate_blocks i s else Inr s) = Inr s1 \<and>
      Fr1 i \<noteq> [] \<and> km_inv s1 Fr1 U \<and> room n s1"
  proof (cases "Fr i = []")
    case True
    obtain a s1 where a: "MMU_alloc_page s = Inr (a, s1)" "room n s1"
      using room_alloc_page [OF rm lt] by blast
    have "a \<noteq> NULL"
      using MMU_alloc_page_brk(4) [OF d(1,2) a(1) lt] d(2) by (auto simp: brk_ok_def KERNEL_HEAP_START_def)
    with a obtain s2 where s2: "allocate_blocks i s = Inr s2" and rm2: "room n s2"
      by (auto simp: allocate_blocks_def Let_def room_def bump_core_def)
    from allocate_blocks_inv [OF inv i True s2] obtain L where "L \<noteq> []" "km_inv s2 (Fr(i := L)) U" by blast
    with s2 rm2 True pd(4) [OF i] show ?thesis by (intro exI [of _ s2] exI [of _ "Fr(i := L)"]) simp
  next
    case False
    with pd(4) [OF i] inv room_le [OF rm, of n] show ?thesis by (intro exI [of _ s] exI [of _ Fr]) simp
  qed
  then obtain s1 Fr1 c cs where a: "(if kp_avail (km_pools s ! i) = 0 then allocate_blocks i s else Inr s) = Inr s1"
    and F1: "Fr1 i = c # cs" and i1: "km_inv s1 Fr1 U" and r1: "room n s1" by (auto simp: neq_Nil_conv)
  have "c \<noteq> NULL" using block_bounds(5) [OF i1 blocks_free [of i c Fr1 U, OF i]] F1 by simp
  moreover have "kp_head (km_pools s1 ! i) = c" using pools_okD(3) [OF km_invD(5) [OF i1] i] F1 by simp
  ultimately show ?thesis
    using f a r1 by (auto simp: kmalloc_def Let_def pop_free_block_def set_header_def room_def bump_core_def)
qed

definition km_example :: km_state where
  "km_example = \<lparr>pf_mem = (\<lambda>_. 0), pf_map = big_map_example, pf_free_pool = NULL, pf_current = 0x180000,
     pf_region = 0, mu_pml4 = GET_VIRT_ADDR 0x102000, hp_brk = KERNEL_HEAP_START, km_mem = (\<lambda>_. 0),
     km_pools = initial_pools, km_base = 0x110000\<rparr>"

lemma km_example_inv: "km_inv km_example (\<lambda>_. []) (\<lambda>_. None)" and km_example_room: "room 100 km_example"
proof -
  have "pools_ok km_example (\<lambda>_. [])"
    unfolding pools_ok_def
  proof (intro conjI allI impI)
    fix i assume "i < NUM_POOLS"
    from pool_cases [OF this] show "free_chain (km_mem km_example) (kp_head (km_pools km_example ! i)) []"
      "kp_avail (km_pools km_example ! i) = int (length ([] :: ptr list))" "distinct ([] :: ptr list)"
      by (auto simp: km_example_def initial_pools_def pool_sizes_def)
  qed (simp add: km_example_def initial_pools_def comp_def)
  then show "km_inv km_example (\<lambda>_. []) (\<lambda>_. None)"
    using big_map_wf
    by (simp add: km_inv_def blocks_def bump_wf_def brk_ok_def page_aligned_def PAGE_SIZE_def km_example_def
        KERNEL_HEAP_START_def KERNEL_STACKS_START_def)
  show "room 100 km_example" by (rule room_big) (simp_all add: km_example_def)
qed

lemma km_example_live: "km_live km_example {}"
  using km_example_inv by (force simp: km_live_def user_live_def)

lemma km_example_kmalloc: "\<exists>p s'. kmalloc 100 km_example = Inr (p, s') \<and> room 97 s'"
  by (rule kmalloc_pool_progress [OF km_example_inv, of 97 _ 2])
    (use km_example_room in \<open>simp_all add: km_example_def initial_pools_def pool_sizes_def HEADER_SIZE_def
        KERNEL_HEAP_START_def KERNEL_STACKS_START_def\<close>)

section \<open>Properties\<close>

text \<open>
  C1: Any run of allocations, each of which fits what is left of the heap's address range, hands
  out memory that is at least as large as asked for and overlaps neither any other allocation of
  the run nor any allocation that was live before, and leaves what the live ones hold untouched.
\<close>

theorem kmalloc_run_disjoint:
  assumes "km_live s L" and "malloc_run kmalloc fits ns s = Inr (ps, s')"
  shows "\<exists>ks. length ks = length ps \<and> list_all2 (\<lambda>n k. unat n \<le> k) ns ks \<and>
     set (zip ps ks) \<inter> L = {} \<and> distinct (zip ps ks) \<and> km_live s' (set (zip ps ks) \<union> L) \<and>
     (\<forall>x \<in> set (zip ps ks) \<union> L. \<forall>y \<in> set (zip ps ks) \<union> L. x \<noteq> y \<longrightarrow> region_apart x y) \<and>
     (\<forall>(q, j) \<in> L. same_on (km_mem s) (km_mem s') (unat q) j)"
  using kmheap.malloc_run_live [OF assms] kmheap.live_apart by meson

theorem kmalloc_run_disjoint_witness:
  "\<exists>p k s'. kmalloc 100 km_example = Inr (p, s') \<and> 100 \<le> k \<and> km_live s' {(p, k)}"
proof -
  obtain p s' where r: "kmalloc 100 km_example = Inr (p, s')" using km_example_kmalloc by blast
  have "fits 100 km_example"
    by (simp add: fits_def km_example_def KERNEL_HEAP_START_def KERNEL_STACKS_START_def)
  then have "malloc_run kmalloc fits [100] km_example = Inr ([p], s')" by (simp add: r)
  from kmalloc_run_disjoint [OF km_example_live this] obtain ks where
    ks: "length ks = length [p]" "list_all2 (\<lambda>n k. unat n \<le> k) [100 :: u64] ks"
      "km_live s' (set (zip [p] ks) \<union> {})" by blast
  then obtain k where "ks = [k]" by (cases ks) auto
  with ks r show ?thesis by auto
qed

text \<open>
  C13: Releasing a live allocation always succeeds, returns exactly that allocation to the heap and
  leaves the contents of every other live allocation untouched; when it came from a pool, the next
  allocation served by that pool is the same memory again.
\<close>

theorem kfree_releases:
  assumes "km_live s L" and "(p, k) \<in> L"
  shows "\<exists>s'. kfree p s = Inr s' \<and> km_live s' (L - {(p, k)}) \<and>
     (\<forall>(q, j) \<in> L - {(p, k)}. same_on (km_mem s) (km_mem s') (unat q) j) \<and>
     (\<forall>n i. find_pool (km_pools s') 0 (n + HEADER_SIZE) = Some i \<longrightarrow>
        rd64 (km_mem s) (p - HEADER_SIZE) = pool_ptr s i \<longrightarrow> (\<exists>s''. kmalloc n s' = Inr (p, s'')))"
proof -
  from kmheap.free_live [OF assms] obtain s' where f: "kfree p s = Inr s'" "km_live s' (L - {(p, k)})" by blast
  have "\<exists>s''. kmalloc n s' = Inr (p, s'')"
    if fp: "find_pool (km_pools s') 0 (n + HEADER_SIZE) = Some i"
      and rd: "rd64 (km_mem s) (p - HEADER_SIZE) = pool_ptr s i" for n i
  proof -
    from assms obtain Fr U w where inv: "km_inv s Fr U" and U: "U (p - HEADER_SIZE) = Some w"
      by (auto simp: km_live_def user_live_iff)
    note d = km_invD [OF inv]
    note b = block_bounds [OF inv blocks_live [of U _ w Fr, OF U]]
    have nn: "p \<noteq> NULL" using b(1,3) by (auto simp: HEADER_SIZE_def)
    from f(2) obtain Fr' U' where inv': "km_inv s' Fr' U'" by (auto simp: km_live_def)
    have i: "i < NUM_POOLS"
      using find_pool_Some [OF fp] pools_okD(1) [OF km_invD(5) [OF inv']] by simp
    note po = pool_of_ptr [OF i d(4)]
    have s': "s' = push_free_block i (p - HEADER_SIZE) s"
      using f(1) nn rd po(1) po(2) [OF d(3)] by (simp add: kfree_def Let_def)
    have "kp_head (km_pools s' ! i) = p - HEADER_SIZE" "kp_avail (km_pools s' ! i) \<noteq> 0"
      using i pools_okD(1,4) [OF d(5)] by (simp_all add: s' push_free_block_def Let_def)
    with fp b(5) show ?thesis by (simp add: kmalloc_def Let_def pop_free_block_def)
  qed
  with f kmheap.free_mem [OF assms f(1)] show ?thesis by blast
qed

theorem kfree_releases_witness:
  "\<exists>p s1 s2. kmalloc 100 km_example = Inr (p, s1) \<and> kfree p s1 = Inr s2 \<and> km_live s2 {}"
proof -
  obtain p s1 where r: "kmalloc 100 km_example = Inr (p, s1)" using km_example_kmalloc by blast
  have "fits 100 km_example"
    by (simp add: fits_def km_example_def KERNEL_HEAP_START_def KERNEL_STACKS_START_def)
  from kmheap.malloc_live [OF km_example_live this r] obtain k where "km_live s1 {(p, k)}" by auto
  from kfree_releases [OF this, of p k] r show ?thesis by auto
qed

text \<open>
  \<^verbatim>\<open>kcalloc\<close> hands out fresh memory whose first \<^verbatim>\<open>nmemb * size\<close> bytes are zero, and leaves the
  live allocations untouched.
\<close>

theorem kcalloc_zeroes:
  assumes "km_live s L" and "fits (nmemb * sz) s" and "kcalloc nmemb sz s = Inr (p, s')"
  shows "\<exists>k. unat (nmemb * sz) \<le> k \<and> (p, k) \<notin> L \<and> km_live s' (insert (p, k) L) \<and>
     (\<forall>x. x - p < nmemb * sz \<longrightarrow> km_mem s' x = 0) \<and>
     (\<forall>(q, j) \<in> L. same_on (km_mem s) (km_mem s') (unat q) j)"
proof -
  let ?n = "nmemb * sz"
  from assms(3) obtain s1 where r: "kmalloc ?n s = Inr (p, s1)"
    and s': "s' = s1\<lparr>km_mem := snd (memset p 0 ?n (km_mem s1))\<rparr>" by (auto simp: kcalloc_def res_iff)
  from kmheap.malloc_live [OF assms(1,2) r] obtain k where k: "unat ?n \<le> k" "(p, k) \<notin> L"
    "km_live s1 (insert (p, k) L)" by blast
  from k(3) obtain Fr U w where inv: "km_inv s1 Fr U" and U: "U (p - HEADER_SIZE) = Some w" and kw: "k = extent w - 16"
    by (auto simp: km_live_def) (metis insertI1 user_live_iff)
  note b = block_bounds [OF inv blocks_live [of U _ w Fr, OF U]]
  have nn: "p \<noteq> NULL" using b(1,3) by (auto simp: HEADER_SIZE_def)
  have pk: "unat p + k < 2 ^ 64" using unat_sub_16 [OF b(3)] b(1,3) by (simp add: kw)
  have m: "km_mem s' = (\<lambda>x. if x - p < ?n then 0 else km_mem s1 x)"
    by (simp add: s' memset_eq [OF nn])
  have in_n: "unat p \<le> unat x \<and> unat x < unat p + k" if "x - p < ?n" for x
    using off_nat [of p k x] pk k(1) that by (simp add: word_less_nat_alt)
  then have ch: "changes_in (km_mem s1) (km_mem s') (unat p) k"
    unfolding changes_in_def m by (metis not_le)
  have "km_live s' (insert (p, k) L)"
    using km_live_write [OF k(3) insertI1 ch] by (simp add: s')
  moreover have "same_on (km_mem s) (km_mem s') (unat q) j" if q: "(q, j) \<in> L" for q j
  proof -
    have "region_apart (p, k) (q, j)" using kmheap.live_apart [OF k(3), of "(p, k)" "(q, j)"] q k(2) by auto
    then have "same_on (km_mem s1) (km_mem s') (unat q) j"
      using changes_in_same_on [OF ch] by (simp add: region_apart_def)
    with kmheap.malloc_mem [OF assms(1,2) r q] show ?thesis by (simp add: same_on_def)
  qed
  ultimately show ?thesis using k(1,2) m by auto
qed

theorem kcalloc_zeroes_witness:
  "\<exists>p s'. kcalloc 10 10 km_example = Inr (p, s') \<and> km_mem s' p = 0"
proof -
  obtain p s1 where "kmalloc 100 km_example = Inr (p, s1)" using km_example_kmalloc by blast
  then obtain s' where r: "kcalloc 10 10 km_example = Inr (p, s')" by (simp add: kcalloc_def)
  have "fits (10 * 10) km_example"
    by (simp add: fits_def km_example_def KERNEL_HEAP_START_def KERNEL_STACKS_START_def)
  from kcalloc_zeroes [OF km_example_live this r] r show ?thesis by auto
qed

end
