(* ===== verification/Multiboot.thy ===== *)
theory Multiboot
  imports Pf_Alloc CString
begin

text \<open>
  The information of the boot loader (\<^verbatim>\<open>mem/multiboot.c\<close>): a block of tagged records in low memory, read
  as bytes, from which the memory map of the frame allocator is filled in. A loop over records ends
  unless its address wraps or a tag has size 0.
\<close>

section \<open>Structures\<close>

definition MULTIBOOT_TAG_TYPE_ELF :: u32 where "MULTIBOOT_TAG_TYPE_ELF = 9"
definition MULTIBOOT_TAG_TYPE_MMAP :: u32 where "MULTIBOOT_TAG_TYPE_MMAP = 6"
definition MULTIBOOT_TAG_TYPE_END :: u32 where "MULTIBOOT_TAG_TYPE_END = 0"
definition MMAP_ENTRY_FREE_TYPE :: u32 where "MMAP_ENTRY_FREE_TYPE = 1"

record elf_section_header =
  section_name_index :: u32
  section_flags :: u64
  segment_address :: u64
  segment_size :: u64

definition section_at :: "bmem \<Rightarrow> ptr \<Rightarrow> elf_section_header" where
  "section_at m h =
     \<lparr>section_name_index = rd32 m h, section_flags = rd64 m (h + 8), segment_address = rd64 m (h + 16),
      segment_size = rd64 m (h + 32)\<rparr>"

record mmap_entry =
  me_addr :: u64
  me_len :: u64
  me_type :: u32

definition mmap_entry_at :: "bmem \<Rightarrow> ptr \<Rightarrow> mmap_entry" where
  "mmap_entry_at m e = \<lparr>me_addr = rd64 m e, me_len = rd64 m (e + 8), me_type = rd32 m (e + 16)\<rparr>"

definition tag_type :: "bmem \<Rightarrow> ptr \<Rightarrow> u32" where "tag_type m tag = rd32 m tag"
definition tag_size :: "bmem \<Rightarrow> ptr \<Rightarrow> u32" where "tag_size m tag = rd32 m (tag + 4)"
definition string_table_index :: "bmem \<Rightarrow> ptr \<Rightarrow> u32" where "string_table_index m tag = rd32 m (tag + 16)"

section \<open>Operations\<close>

definition align_size :: "u32 \<Rightarrow> u32" where
  "align_size sz = (sz + 7) AND NOT 7"

text \<open>The headers of the sections start after the 20 bytes of the tag and have 64 bytes each.\<close>

definition get_elf_section_name :: "bmem \<Rightarrow> memory_map \<Rightarrow> u32 \<Rightarrow> ptr" where
  "get_elf_section_name m M idx =
     (let strtab_header = mm_elf_tag M + 20 + 64 * ucast (string_table_index m (mm_elf_tag M));
          strtab = segment_address (section_at m strtab_header)
      in strtab + scast idx)"

text \<open>The address of a section in physical memory, and one round of the loop of \<^verbatim>\<open>parse_elf_tag\<close>.\<close>

definition physical_segment_address :: "elf_section_header \<Rightarrow> u64" where
  "physical_segment_address h =
     (if segment_address h > KERNEL_TEXT_START then segment_address h - KERNEL_TEXT_START else segment_address h)"

definition add_section :: "elf_section_header \<Rightarrow> memory_map \<Rightarrow> memory_map" where
  "add_section h M =
     (if segment_size h \<noteq> 0 then
        let p = physical_segment_address h;
            M = (if p < rg_start (mm_kernel M) then M\<lparr>mm_kernel := (mm_kernel M)\<lparr>rg_start := p\<rparr>\<rparr> else M)
        in if p + segment_size h > rg_end (mm_kernel M)
           then M\<lparr>mm_kernel := (mm_kernel M)\<lparr>rg_end := p + segment_size h\<rparr>\<rparr> else M
      else M)"

partial_function (option) elf_loop :: "bmem \<Rightarrow> ptr \<Rightarrow> ptr \<Rightarrow> memory_map \<Rightarrow> memory_map option" where
  "elf_loop m header stop M =
     (if header < stop then elf_loop m (header + 64) stop (add_section (section_at m header) M) else Some M)"

definition parse_elf_tag :: "bmem \<Rightarrow> ptr \<Rightarrow> memory_map \<Rightarrow> memory_map option" where
  "parse_elf_tag m tag M =
     map_option (\<lambda>M. M\<lparr>mm_elf_tag := tag\<rparr>) (elf_loop m (tag + 20) (tag + ucast (tag_size m tag)) M)"

text \<open>The loop over the entries of the memory map; \<open>i\<close> counts the free ones.\<close>

partial_function (option) mmap_loop :: "bmem \<Rightarrow> ptr \<Rightarrow> ptr \<Rightarrow> nat \<Rightarrow> memory_map \<Rightarrow> (nat \<times> memory_map) option" where
  "mmap_loop m entry stop i M =
     (if entry < stop then
        let e = mmap_entry_at m entry
        in if me_type e = MMAP_ENTRY_FREE_TYPE then
             let M = M\<lparr>mm_regions := (mm_regions M)[i := \<lparr>rg_start = me_addr e, rg_end = me_addr e + me_len e\<rparr>]\<rparr>;
                 i = i + 1
             in if i \<ge> MAX_REGIONS then Some (i, M) else mmap_loop m (entry + 24) stop i M
           else mmap_loop m (entry + 24) stop i M
      else Some (i, M))"

definition parse_mmap_tag :: "bmem \<Rightarrow> ptr \<Rightarrow> memory_map \<Rightarrow> memory_map option" where
  "parse_mmap_tag m tag M =
     (let M = M\<lparr>mm_kernel := \<lparr>rg_start = 0xFFFFFFFFFFFFFFFF, rg_end = 0\<rparr>\<rparr>
      in map_option (\<lambda>(i, M). M\<lparr>mm_num_regions := of_nat i\<rparr>)
           (mmap_loop m (tag + 16) (tag + ucast (tag_size m tag)) 0 M))"

partial_function (option) tag_loop :: "bmem \<Rightarrow> ptr \<Rightarrow> memory_map \<Rightarrow> memory_map option" where
  "tag_loop m tag M =
     (if tag_type m tag \<noteq> MULTIBOOT_TAG_TYPE_END then
        Option.bind
          (if tag_type m tag = MULTIBOOT_TAG_TYPE_ELF then parse_elf_tag m tag M
           else if tag_type m tag = MULTIBOOT_TAG_TYPE_MMAP then parse_mmap_tag m tag M
           else Some M)
          (tag_loop m (tag + ucast (align_size (tag_size m tag))))
      else Some M)"

definition parse_multiboot_tags :: "bmem \<Rightarrow> ptr \<Rightarrow> memory_map \<Rightarrow> memory_map option" where
  "parse_multiboot_tags m info M =
     tag_loop m (info + 8) (M\<lparr>mm_multiboot := \<lparr>rg_start = info, rg_end = info + ucast (rd32 m info)\<rparr>\<rparr>)"

section \<open>The layout of the information\<close>

datatype mb_tag =
    Mmap_Tag "mmap_entry list"
  | Elf_Tag ptr "elf_section_header list"
  | Other_Tag

definition tag_at :: "bmem \<Rightarrow> ptr \<Rightarrow> mb_tag \<Rightarrow> bool" where
  "tag_at m a t \<longleftrightarrow>
     unat a + unat (tag_size m a) + 64 < 2 ^ 64 \<and>
     (case t of
        Mmap_Tag es \<Rightarrow> tag_type m a = MULTIBOOT_TAG_TYPE_MMAP \<and> unat (tag_size m a) = 16 + 24 * length es \<and>
          (\<forall>k < length es. mmap_entry_at m (a + 16 + of_nat (24 * k)) = es ! k)
      | Elf_Tag b hs \<Rightarrow> b = a \<and> tag_type m a = MULTIBOOT_TAG_TYPE_ELF \<and> unat (tag_size m a) = 20 + 64 * length hs \<and>
          (\<forall>k < length hs. section_at m (a + 20 + of_nat (64 * k)) = hs ! k)
      | Other_Tag \<Rightarrow> tag_type m a \<notin> {MULTIBOOT_TAG_TYPE_MMAP, MULTIBOOT_TAG_TYPE_ELF, MULTIBOOT_TAG_TYPE_END})"

text \<open>A tag takes the next multiple of 8 bytes that holds it.\<close>

definition padded :: "nat \<Rightarrow> nat" where
  "padded n = (if n mod 8 = 0 then n else n + (8 - n mod 8))"

fun tags_at :: "bmem \<Rightarrow> ptr \<Rightarrow> mb_tag list \<Rightarrow> bool" where
  "tags_at m a [] \<longleftrightarrow> tag_type m a = MULTIBOOT_TAG_TYPE_END"
| "tags_at m a (t # ts) \<longleftrightarrow>
     tag_at m a t \<and> unat (tag_size m a) + 8 \<le> 2 ^ 32 \<and> tags_at m (a + of_nat (padded (unat (tag_size m a)))) ts"

lemma align_size_padded:
  assumes "unat sz + 8 \<le> 2 ^ 32"
  shows "ucast (align_size sz) = (of_nat (padded (unat sz)) :: u64)"
proof -
  have m: "(7 :: u32) = mask 3" by (simp add: mask_eq_exp_minus_1)
  have e: "align_size sz = push_bit 3 (drop_bit 3 (sz + 7))"
    unfolding align_size_def m by (rule bit_word_eqI) (auto simp: bit_simps)
  have u: "unat (sz + 7) = unat sz + 7" using assms unat_add_lem [of sz 7] by simp
  have "unat (align_size sz) = 8 * ((unat sz + 7) div 8)"
  proof -
    have d: "unat (drop_bit 3 (sz + 7)) = (unat sz + 7) div 8" by (simp add: drop_bit_eq_div unat_div_distrib u)
    have l: "8 * ((unat sz + 7) div 8) < 2 ^ 32" using assms by simp
    have "push_bit 3 (drop_bit 3 (sz + 7)) = 8 * drop_bit 3 (sz + 7)" by (simp add: push_bit_eq_mult)
    moreover have "unat (8 * drop_bit 3 (sz + 7)) = 8 * unat (drop_bit 3 (sz + 7))"
      using unat_mult_lem [of 8 "drop_bit 3 (sz + 7)"] l by (simp add: d)
    ultimately show ?thesis by (simp only: e d)
  qed
  also have "8 * ((unat sz + 7) div 8) = padded (unat sz)" unfolding padded_def by presburger
  finally show ?thesis by (metis ucast_is_of_nat)
qed

text \<open>What a tag means for the memory map.\<close>

definition free_regions :: "mmap_entry list \<Rightarrow> mem_region list" where
  "free_regions es = [\<lparr>rg_start = me_addr e, rg_end = me_addr e + me_len e\<rparr>. e \<leftarrow> es, me_type e = MMAP_ENTRY_FREE_TYPE]"

fun apply_tag :: "mb_tag \<Rightarrow> memory_map \<Rightarrow> memory_map" where
  "apply_tag (Mmap_Tag es) M =
     (let rs = take MAX_REGIONS (free_regions es)
      in M\<lparr>mm_kernel := \<lparr>rg_start = 0xFFFFFFFFFFFFFFFF, rg_end = 0\<rparr>, mm_regions := rs @ drop (length rs) (mm_regions M),
           mm_num_regions := of_nat (length rs)\<rparr>)"
| "apply_tag (Elf_Tag a hs) M = (fold add_section hs M)\<lparr>mm_elf_tag := a\<rparr>"
| "apply_tag Other_Tag M = M"

lemma record_addr:
  fixes a b :: u64
  assumes "unat a + n < 2 ^ 64" and "b = of_nat n"
  shows "unat (a + b) = unat a + n"
proof -
  have "n < 2 ^ 64" using assms(1) by simp
  then have "unat (of_nat n :: u64) = n" by (simp add: unsigned_of_nat take_bit_nat_eq_self)
  then show ?thesis using assms unat_add_lem [of a b] by simp
qed

lemma elf_loop_eq:
  assumes "unat a + 20 + 64 * length hs + 64 < 2 ^ 64" and "\<forall>k < length hs. section_at m (a + 20 + of_nat (64 * k)) = hs ! k"
  shows "k \<le> length hs \<Longrightarrow> elf_loop m (a + 20 + of_nat (64 * k)) (a + of_nat (20 + 64 * length hs)) M = Some (fold add_section (drop k hs) M)"
proof (induction "length hs - k" arbitrary: k M)
  case 0
  then have k: "k = length hs" by simp
  have "a + 20 + of_nat (64 * k) = a + of_nat (20 + 64 * length hs)" by (simp add: k)
  then show ?case by (subst elf_loop.simps) (simp only: less_irrefl if_False k drop_all order_refl fold_Nil id_apply)
next
  case (Suc n)
  then have k: "k < length hs" by simp
  have e: "a + 20 + of_nat (64 * j) = a + of_nat (20 + 64 * j)" for j by simp
  have u: "unat (a + of_nat (20 + 64 * j)) = unat a + (20 + 64 * j)" if "j \<le> length hs" for j
    by (rule record_addr [OF _ refl]) (use assms(1) that in simp)
  have lt: "a + 20 + of_nat (64 * k) < a + of_nat (20 + 64 * length hs)"
    unfolding e word_less_nat_alt u [OF Suc.prems] u [OF order_refl] using k by simp
  have nx: "a + 20 + of_nat (64 * k) + 64 = a + 20 + of_nat (64 * Suc k)" by simp
  have "section_at m (a + 20 + of_nat (64 * k)) = hs ! k" using assms(2) k by blast
  then have "elf_loop m (a + 20 + of_nat (64 * k)) (a + of_nat (20 + 64 * length hs)) M =
      elf_loop m (a + 20 + of_nat (64 * Suc k)) (a + of_nat (20 + 64 * length hs)) (add_section (hs ! k) M)"
    using lt by (subst elf_loop.simps) (simp only: if_True nx)
  also have "\<dots> = Some (fold add_section (drop (Suc k) hs) (add_section (hs ! k) M))"
    by (rule Suc.hyps(1)) (use Suc.hyps(2) k in simp_all)
  finally show ?case using k by (simp add: Cons_nth_drop_Suc [symmetric])
qed

lemma mmap_loop_eq:
  assumes "unat a + 16 + 24 * length es + 64 < 2 ^ 64" and "\<forall>k < length es. mmap_entry_at m (a + 16 + of_nat (24 * k)) = es ! k"
  shows "k \<le> length es \<Longrightarrow> i < MAX_REGIONS \<Longrightarrow> length (mm_regions M) = MAX_REGIONS \<Longrightarrow> rs = take (MAX_REGIONS - i) (free_regions (drop k es)) \<Longrightarrow>
    mmap_loop m (a + 16 + of_nat (24 * k)) (a + of_nat (16 + 24 * length es)) i M =
      Some (i + length rs, M\<lparr>mm_regions := take i (mm_regions M) @ rs @ drop (i + length rs) (mm_regions M)\<rparr>)"
proof (induction "length es - k" arbitrary: k i M rs)
  case 0
  then have k: "k = length es" by simp
  have "a + 16 + of_nat (24 * k) = a + of_nat (16 + 24 * length es)" by (simp add: k)
  moreover have "rs = []" using 0 by (simp add: k free_regions_def)
  ultimately show ?case by (subst mmap_loop.simps) (simp only: less_irrefl if_False, simp)
next
  case (Suc n)
  then have k: "k < length es" by simp
  have e: "a + 16 + of_nat (24 * j) = a + of_nat (16 + 24 * j)" for j by simp
  have u: "unat (a + of_nat (16 + 24 * j)) = unat a + (16 + 24 * j)" if "j \<le> length es" for j
    by (rule record_addr [OF _ refl]) (use assms(1) that in simp)
  have lt: "a + 16 + of_nat (24 * k) < a + of_nat (16 + 24 * length es)"
    unfolding e word_less_nat_alt u [OF Suc.prems(1)] u [OF order_refl] using k by simp
  have nx: "a + 16 + of_nat (24 * k) + 24 = a + 16 + of_nat (24 * Suc k)" by simp
  have ek: "mmap_entry_at m (a + 16 + of_nat (24 * k)) = es ! k" using assms(2) k by blast
  note step = mmap_loop.simps [of m "a + 16 + of_nat (24 * k)" "a + of_nat (16 + 24 * length es)" i M, unfolded ek nx Let_def]
  note dk = Cons_nth_drop_Suc [OF k, symmetric]
  let ?r = "\<lparr>rg_start = me_addr (es ! k), rg_end = me_addr (es ! k) + me_len (es ! k)\<rparr>"
  show ?case
  proof (cases "me_type (es ! k) = MMAP_ENTRY_FREE_TYPE")
    case False
    then have "rs = take (MAX_REGIONS - i) (free_regions (drop (Suc k) es))" using Suc.prems(4) by (simp add: dk free_regions_def)
    with Suc.hyps(1) [of "Suc k" i M rs] Suc.hyps(2) Suc.prems k show ?thesis
      unfolding step by (simp only: lt False if_True if_False)
  next
    case True
    define M1 where "M1 = M\<lparr>mm_regions := (mm_regions M)[i := ?r]\<rparr>"
    have up: "(mm_regions M)[i := ?r] = take i (mm_regions M) @ ?r # drop (Suc i) (mm_regions M)"
      using Suc.prems(2,3) by (simp add: upd_conv_take_nth_drop)
    have fr: "free_regions (drop k es) = ?r # free_regions (drop (Suc k) es)" using True by (simp add: dk free_regions_def)
    show ?thesis
    proof (cases "Suc i \<ge> MAX_REGIONS")
      case full: True
      then have "rs = [?r]" using Suc.prems(2,4) fr by (simp add: take_Suc Suc_diff_Suc [symmetric])
      with full show ?thesis unfolding step by (simp add: lt [simplified] True up)
    next
      case room: False
      define rs1 where "rs1 = take (MAX_REGIONS - Suc i) (free_regions (drop (Suc k) es))"
      have rs: "rs = ?r # rs1" using Suc.prems(2,4) fr room by (simp add: rs1_def Suc_diff_Suc [symmetric])
      have "mmap_loop m (a + 16 + of_nat (24 * Suc k)) (a + of_nat (16 + 24 * length es)) (Suc i) M1 =
          Some (Suc i + length rs1, M1\<lparr>mm_regions := take (Suc i) (mm_regions M1) @ rs1 @ drop (Suc i + length rs1) (mm_regions M1)\<rparr>)"
        by (rule Suc.hyps(1)) (use Suc.hyps(2) Suc.prems k room in \<open>simp_all add: M1_def rs1_def\<close>)
      moreover have "take (Suc i) (mm_regions M1) = take i (mm_regions M) @ [?r]"
        "drop (Suc i + length rs1) (mm_regions M1) = drop (i + length rs) (mm_regions M)"
        using Suc.prems(2,3) by (simp_all add: M1_def up rs add.commute)
      ultimately show ?thesis
        unfolding step using room by (simp only: lt True if_True M1_def [symmetric] Suc_eq_plus1 [symmetric] if_False) (simp add: rs M1_def)
    qed
  qed
qed

lemma fold_add_section_keeps:
  "mm_regions (fold add_section hs M) = mm_regions M" "mm_num_regions (fold add_section hs M) = mm_num_regions M"
  "mm_multiboot (fold add_section hs M) = mm_multiboot M"
  by (induction hs arbitrary: M) (simp_all add: add_section_def Let_def)

lemma length_apply_tag: "length (mm_regions M) = MAX_REGIONS \<Longrightarrow> length (mm_regions (apply_tag t M)) = MAX_REGIONS"
  by (cases t) (simp_all add: Let_def fold_add_section_keeps)

lemma tag_loop_eq:
  "tags_at m a ts \<Longrightarrow> length (mm_regions M) = MAX_REGIONS \<Longrightarrow> tag_loop m a M = Some (fold apply_tag ts M)"
proof (induction ts arbitrary: a M)
  case Nil
  then show ?case by (subst tag_loop.simps) simp
next
  case (Cons t ts)
  have types: "MULTIBOOT_TAG_TYPE_ELF \<noteq> MULTIBOOT_TAG_TYPE_END" "MULTIBOOT_TAG_TYPE_MMAP \<noteq> MULTIBOOT_TAG_TYPE_END"
    "MULTIBOOT_TAG_TYPE_MMAP \<noteq> MULTIBOOT_TAG_TYPE_ELF"
    by (simp_all add: MULTIBOOT_TAG_TYPE_ELF_def MULTIBOOT_TAG_TYPE_MMAP_def MULTIBOOT_TAG_TYPE_END_def)
  have sz: "ucast (tag_size m a) = (of_nat (unat (tag_size m a)) :: u64)" by (rule ucast_is_of_nat)
  have t: "tag_at m a t" and rest: "tags_at m (a + ucast (align_size (tag_size m a))) ts"
    using Cons.prems align_size_padded [of "tag_size m a"] by simp_all
  have "(if tag_type m a = MULTIBOOT_TAG_TYPE_ELF then parse_elf_tag m a M
      else if tag_type m a = MULTIBOOT_TAG_TYPE_MMAP then parse_mmap_tag m a M else Some M) = Some (apply_tag t M)
    \<and> tag_type m a \<noteq> MULTIBOOT_TAG_TYPE_END"
  proof (cases t)
    case (Mmap_Tag es)
    then have e: "tag_type m a = MULTIBOOT_TAG_TYPE_MMAP" "unat (tag_size m a) = 16 + 24 * length es"
      "unat a + 16 + 24 * length es + 64 < 2 ^ 64" "\<forall>k < length es. mmap_entry_at m (a + 16 + of_nat (24 * k)) = es ! k"
      using t by (auto simp: tag_at_def)
    have "mmap_loop m (a + 16) (a + ucast (tag_size m a)) 0 M0 =
        Some (length (take MAX_REGIONS (free_regions es)), M0\<lparr>mm_regions := take MAX_REGIONS (free_regions es) @
          drop (length (take MAX_REGIONS (free_regions es))) (mm_regions M0)\<rparr>)" if "length (mm_regions M0) = MAX_REGIONS" for M0
      using mmap_loop_eq [OF e(3,4), of 0 0 M0 "take MAX_REGIONS (free_regions es)"] that
      unfolding sz e(2) by (simp add: MAX_REGIONS_def)
    then show ?thesis using e(1) types Cons.prems(2) Mmap_Tag by (simp add: parse_mmap_tag_def Let_def)
  next
    case (Elf_Tag b hs)
    then have e: "b = a" "tag_type m a = MULTIBOOT_TAG_TYPE_ELF" "unat (tag_size m a) = 20 + 64 * length hs"
      "unat a + 20 + 64 * length hs + 64 < 2 ^ 64" "\<forall>k < length hs. section_at m (a + 20 + of_nat (64 * k)) = hs ! k"
      using t by (auto simp: tag_at_def)
    have "elf_loop m (a + 20) (a + ucast (tag_size m a)) M = Some (fold add_section hs M)"
      using elf_loop_eq [OF e(4,5), of 0 M] unfolding sz e(3) by simp
    then show ?thesis using e(1,2) types Elf_Tag by (simp add: parse_elf_tag_def)
  next
    case Other_Tag
    then show ?thesis using t by (simp add: tag_at_def)
  qed
  with Cons.IH [OF rest length_apply_tag [OF Cons.prems(2)], of t] show ?case
    by (subst tag_loop.simps) simp
qed

section \<open>The memory map\<close>

text \<open>The part of a section in physical memory, and a section that lies below a bound without wrapping.\<close>

definition section_below :: "nat \<Rightarrow> elf_section_header \<Rightarrow> bool" where
  "section_below b h \<longleftrightarrow> unat (physical_segment_address h) + unat (segment_size h) \<le> b"

definition kernel_covers :: "memory_map \<Rightarrow> elf_section_header \<Rightarrow> bool" where
  "kernel_covers M h \<longleftrightarrow> rg_start (mm_kernel M) \<le> physical_segment_address h \<and>
     physical_segment_address h + segment_size h \<le> rg_end (mm_kernel M)"

lemma add_section_kernel:
  "rg_start (mm_kernel (add_section h M)) \<le> rg_start (mm_kernel M)" "rg_end (mm_kernel M) \<le> rg_end (mm_kernel (add_section h M))"
  "segment_size h \<noteq> 0 \<Longrightarrow> kernel_covers (add_section h M) h"
  by (auto simp: add_section_def Let_def kernel_covers_def)

lemma add_section_end:
  assumes "unat (rg_end (mm_kernel M)) \<le> b" and "segment_size h \<noteq> 0 \<longrightarrow> section_below b h" and "b < 2 ^ 64"
  shows "unat (rg_end (mm_kernel (add_section h M))) \<le> b"
  using assms unat_add_lem [of "physical_segment_address h" "segment_size h"]
  by (auto simp: add_section_def Let_def section_below_def)

lemma fold_sections:
  assumes "b < 2 ^ 64"
  shows "unat (rg_end (mm_kernel M)) \<le> b \<Longrightarrow> \<forall>h \<in> set hs. segment_size h \<noteq> 0 \<longrightarrow> section_below b h \<Longrightarrow>
     rg_start (mm_kernel (fold add_section hs M)) \<le> rg_start (mm_kernel M) \<and>
     rg_end (mm_kernel M) \<le> rg_end (mm_kernel (fold add_section hs M)) \<and>
     unat (rg_end (mm_kernel (fold add_section hs M))) \<le> b \<and>
     (\<forall>h \<in> set hs. segment_size h \<noteq> 0 \<longrightarrow> kernel_covers (fold add_section hs M) h)"
proof (induction hs arbitrary: M)
  case (Cons h hs)
  let ?M = "add_section h M"
  have e: "unat (rg_end (mm_kernel ?M)) \<le> b" by (rule add_section_end [OF Cons.prems(1) _ assms]) (use Cons.prems(2) in simp)
  have ih: "rg_start (mm_kernel (fold add_section hs ?M)) \<le> rg_start (mm_kernel ?M)"
    "rg_end (mm_kernel ?M) \<le> rg_end (mm_kernel (fold add_section hs ?M))"
    "unat (rg_end (mm_kernel (fold add_section hs ?M))) \<le> b"
    "\<forall>h \<in> set hs. segment_size h \<noteq> 0 \<longrightarrow> kernel_covers (fold add_section hs ?M) h"
    using Cons.IH [OF e] Cons.prems(2) by auto
  note k = add_section_kernel [where h = h and M = M]
  have "kernel_covers (fold add_section hs ?M) h" if "segment_size h \<noteq> 0"
    using k(3) [OF that] ih(1,2) unfolding kernel_covers_def by (meson order_trans)
  with ih k(1,2) order_trans show ?case by auto
qed simp

lemma apply_others: "\<forall>t \<in> set ts. t = Other_Tag \<Longrightarrow> fold apply_tag ts M = M"
  by (induction ts arbitrary: M) auto

lemma boot_map_eq:
  assumes "\<forall>t \<in> set (o1 @ o2 @ o3). t = Other_Tag"
  shows "fold apply_tag (o1 @ [Mmap_Tag es] @ o2 @ [Elf_Tag b hs] @ o3) M = apply_tag (Elf_Tag b hs) (apply_tag (Mmap_Tag es) M)"
  using assms by (simp add: apply_others)

text \<open>The free entries of a memory map that the frame allocator can work with.\<close>

definition entries_ok :: "mmap_entry list \<Rightarrow> bool" where
  "entries_ok es \<longleftrightarrow>
     (let rs = free_regions es
      in rs \<noteq> [] \<and> length rs < MAX_REGIONS \<and> list_all (\<lambda>r. region_wf r \<and> align_page (rg_start r) < rg_end r) rs \<and>
         sorted_wrt (\<lambda>r r'. rg_end r \<le> rg_start r') rs)"

lemma boot_map_wf:
  fixes b :: ptr
  assumes es: "entries_ok es" and M: "mm_regions M = replicate MAX_REGIONS \<lparr>rg_start = 0, rg_end = 0\<rparr>" "region_wf (mm_multiboot M)"
    and hs: "\<forall>h \<in> set hs. segment_size h \<noteq> 0 \<longrightarrow> section_below (2 ^ 46) h" "\<exists>h \<in> set hs. segment_size h \<noteq> 0"
  defines "M' \<equiv> apply_tag (Elf_Tag b hs) (apply_tag (Mmap_Tag es) M)"
  shows "map_wf M'" and "take (unat (mm_num_regions M')) (mm_regions M') = free_regions es"
    and "\<forall>h \<in> set hs. segment_size h \<noteq> 0 \<longrightarrow> kernel_covers M' h"
proof -
  let ?rs = "free_regions es"
  have rs: "?rs \<noteq> []" "length ?rs < 64" "list_all (\<lambda>r. region_wf r \<and> align_page (rg_start r) < rg_end r) ?rs"
    "sorted_wrt (\<lambda>r r'. rg_end r \<le> rg_start r') ?rs"
    using es by (simp_all add: entries_ok_def Let_def MAX_REGIONS_def)
  define M1 where "M1 = apply_tag (Mmap_Tag es) M"
  have m1: "mm_regions M1 = ?rs @ replicate (64 - length ?rs) \<lparr>rg_start = 0, rg_end = 0\<rparr>" "mm_num_regions M1 = of_nat (length ?rs)"
    "mm_kernel M1 = \<lparr>rg_start = 0xFFFFFFFFFFFFFFFF, rg_end = 0\<rparr>" "mm_multiboot M1 = mm_multiboot M"
    using rs(2) M(1) by (simp_all add: M1_def MAX_REGIONS_def Let_def)
  have n: "unat (mm_num_regions M1) = length ?rs" using rs(2) by (simp add: m1(2) unsigned_of_nat take_bit_nat_eq_self)
  have "M' = (fold add_section hs M1)\<lparr>mm_elf_tag := b\<rparr>" by (simp only: M'_def M1_def apply_tag.simps(2))
  then have M': "mm_regions M' = mm_regions M1" "mm_num_regions M' = mm_num_regions M1" "mm_multiboot M' = mm_multiboot M1"
    "mm_kernel M' = mm_kernel (fold add_section hs M1)"
    by (simp_all add: fold_add_section_keeps)
  have f: "unat (rg_end (mm_kernel (fold add_section hs M1))) \<le> 2 ^ 46"
    "\<forall>h \<in> set hs. segment_size h \<noteq> 0 \<longrightarrow> kernel_covers (fold add_section hs M1) h"
    using fold_sections [of "2 ^ 46" M1 hs] hs(1) m1(3) by auto
  show c: "\<forall>h \<in> set hs. segment_size h \<noteq> 0 \<longrightarrow> kernel_covers M' h" using f(2) by (simp add: kernel_covers_def M'(4))
  obtain h where h: "h \<in> set hs" "segment_size h \<noteq> 0" using hs(2) by blast
  have "physical_segment_address h \<le> physical_segment_address h + segment_size h"
  proof -
    have "unat (physical_segment_address h) + unat (segment_size h) < 2 ^ 64" using hs(1) h by (auto simp: section_below_def)
    then show ?thesis using unat_add_lem [of "physical_segment_address h" "segment_size h"] by (simp add: word_le_nat_alt)
  qed
  then have "rg_start (mm_kernel M') \<le> rg_end (mm_kernel M')" using c h unfolding kernel_covers_def by (meson order_trans)
  then have k: "region_wf (mm_kernel M')" using f(1) by (simp add: region_wf_def M'(4))
  show t: "take (unat (mm_num_regions M')) (mm_regions M') = ?rs" by (simp add: M' n m1(1))
  show "map_wf M'"
    unfolding map_wf_def t M'(2) n using rs k M(2)
    by (simp add: M' m1 MAX_REGIONS_def region_wf_def list_all_iff)
qed

lemma boot_information_parsed:
  assumes "tags_at m (info + 8) (o1 @ [Mmap_Tag es] @ o2 @ [Elf_Tag b hs] @ o3)" and "\<forall>t \<in> set (o1 @ o2 @ o3). t = Other_Tag"
    and "entries_ok es" and "\<forall>h \<in> set hs. segment_size h \<noteq> 0 \<longrightarrow> section_below (2 ^ 46) h" and "\<exists>h \<in> set hs. segment_size h \<noteq> 0"
    and "mm_regions M = replicate MAX_REGIONS \<lparr>rg_start = 0, rg_end = 0\<rparr>"
    and "region_wf \<lparr>rg_start = info, rg_end = info + ucast (rd32 m info)\<rparr>"
  shows "\<exists>M'. parse_multiboot_tags m info M = Some M' \<and>
     take (unat (mm_num_regions M')) (mm_regions M') = free_regions es \<and>
     (\<forall>h \<in> set hs. segment_size h \<noteq> 0 \<longrightarrow> kernel_covers M' h) \<and>
     (\<exists>s'. MMU_init_pf_alloc (s\<lparr>pf_map := M'\<rparr>) = Inr s' \<and> pf_inv s' {} [] \<and> pf_map s' = M')"
proof -
  let ?M = "M\<lparr>mm_multiboot := \<lparr>rg_start = info, rg_end = info + ucast (rd32 m info)\<rparr>\<rparr>"
  have p: "parse_multiboot_tags m info M = Some (apply_tag (Elf_Tag b hs) (apply_tag (Mmap_Tag es) ?M))"
    using tag_loop_eq [OF assms(1), of ?M] assms(6) unfolding boot_map_eq [OF assms(2)]
    by (simp add: parse_multiboot_tags_def)
  have r: "mm_regions ?M = replicate MAX_REGIONS \<lparr>rg_start = 0, rg_end = 0\<rparr>" "region_wf (mm_multiboot ?M)" using assms(6,7) by simp_all
  note w = boot_map_wf [OF assms(3) r assms(4,5), of b]
  have "map_wf (pf_map (s\<lparr>pf_map := apply_tag (Elf_Tag b hs) (apply_tag (Mmap_Tag es) ?M)\<rparr>))" using w(1) by simp
  from MMU_init_inv [OF this] p w(2,3) show ?thesis by (simp del: apply_tag.simps)
qed

section \<open>Properties\<close>

text \<open>
  C31: Parsing the boot information reads every record of its layout, in order, and ends: the memory map comes out as the
  list of tags determines it. In the layout each tag starts at the next multiple of 8 bytes behind the tag before it.
\<close>

theorem multiboot_tags_parsed:
  assumes "tags_at m (info + 8) ts" and "length (mm_regions M) = MAX_REGIONS"
  shows "parse_multiboot_tags m info M =
     Some (fold apply_tag ts (M\<lparr>mm_multiboot := \<lparr>rg_start = info, rg_end = info + ucast (rd32 m info)\<rparr>\<rparr>))"
  using tag_loop_eq [OF assms(1)] assms(2) by (simp add: parse_multiboot_tags_def)

text \<open>
  C30: When the boot information has a memory map with usable free entries and, after it, the sections of
  the kernel, the parsed map has exactly the free entries as regions, its kernel range covers every
  section that is not empty, and it is a map on which the frame allocator starts with its invariant.
\<close>

theorem boot_information_suits_allocator:
  assumes "tags_at m (info + 8) (o1 @ [Mmap_Tag es] @ o2 @ [Elf_Tag b hs] @ o3)" and "\<forall>t \<in> set (o1 @ o2 @ o3). t = Other_Tag"
    and "entries_ok es" and "\<forall>h \<in> set hs. segment_size h \<noteq> 0 \<longrightarrow> section_below (2 ^ 46) h" and "\<exists>h \<in> set hs. segment_size h \<noteq> 0"
    and "mm_regions M = replicate MAX_REGIONS \<lparr>rg_start = 0, rg_end = 0\<rparr>"
    and "region_wf \<lparr>rg_start = info, rg_end = info + ucast (rd32 m info)\<rparr>"
  shows "\<exists>M'. parse_multiboot_tags m info M = Some M' \<and>
     take (unat (mm_num_regions M')) (mm_regions M') = free_regions es \<and>
     (\<forall>h \<in> set hs. segment_size h \<noteq> 0 \<longrightarrow> kernel_covers M' h) \<and>
     (\<exists>s'. MMU_init_pf_alloc (s\<lparr>pf_map := M'\<rparr>) = Inr s' \<and> pf_inv s' {} [] \<and> pf_map s' = M')"
  by (rule boot_information_parsed [OF assms])

text \<open>Boot information at address \<open>0x9000\<close>: one free range of memory and one section of the kernel.\<close>

definition mb_words :: "u32 list" where
  "mb_words = [0x90, 0, 6, 40, 24, 0, 0x100000, 0, 0x100000, 0, 1, 0, 9, 84, 1, 64, 0,
     0, 1, 3, 0, 0x80100000, 0xffffffff, 0, 0, 0x2000, 0, 0, 0, 0, 0, 0, 0, 0, 0, 8]"

definition mb_mem :: bmem where
  "mb_mem a = (let k = unat (a - 0x9000)
     in if k < 4 * length mb_words then ucast (drop_bit (8 * (k mod 4)) (mb_words ! (k div 4))) else 0)"

definition mb_entries :: "mmap_entry list" where
  "mb_entries = [\<lparr>me_addr = 0x100000, me_len = 0x100000, me_type = 1\<rparr>]"

definition mb_sections :: "elf_section_header list" where
  "mb_sections = [\<lparr>section_name_index = 0, section_flags = 3, segment_address = 0xffffffff80100000, segment_size = 0x2000\<rparr>]"

lemma mb_tags: "tags_at mb_mem (0x9000 + 8) ([] @ [Mmap_Tag mb_entries] @ [] @ [Elf_Tag 0x9030 mb_sections] @ [])"
proof -
  have "tag_type mb_mem 0x9008 = 6" "tag_size mb_mem 0x9008 = 40" "mmap_entry_at mb_mem 0x9018 = mb_entries ! 0"
    "tag_type mb_mem 0x9030 = 9" "tag_size mb_mem 0x9030 = 84" "section_at mb_mem 0x9044 = mb_sections ! 0"
    "tag_type mb_mem 0x9088 = 0" "padded 40 = 40" "padded 84 = 88"
    by code_simp+
  then show ?thesis
    by (simp add: tag_at_def mb_entries_def mb_sections_def MULTIBOOT_TAG_TYPE_ELF_def MULTIBOOT_TAG_TYPE_MMAP_def
        MULTIBOOT_TAG_TYPE_END_def)
qed

definition mb_start :: memory_map where
  "mb_start = \<lparr>mm_kernel = \<lparr>rg_start = 0, rg_end = 0\<rparr>, mm_multiboot = \<lparr>rg_start = 0, rg_end = 0\<rparr>,
     mm_regions = replicate MAX_REGIONS \<lparr>rg_start = 0, rg_end = 0\<rparr>, mm_num_regions = 0, mm_elf_tag = NULL\<rparr>"

lemma mb_tags_map:
  "mm_kernel (fold apply_tag ([] @ [Mmap_Tag mb_entries] @ [] @ [Elf_Tag 0x9030 mb_sections] @ []) M) = \<lparr>rg_start = 0x100000, rg_end = 0x102000\<rparr>"
  "mm_num_regions (fold apply_tag ([] @ [Mmap_Tag mb_entries] @ [] @ [Elf_Tag 0x9030 mb_sections] @ []) M) = 1"
  by (simp_all add: mb_entries_def mb_sections_def free_regions_def add_section_def physical_segment_address_def
      KERNEL_TEXT_START_def MMAP_ENTRY_FREE_TYPE_def MAX_REGIONS_def Let_def)

lemma mb_info:
  "entries_ok mb_entries" "free_regions mb_entries = [\<lparr>rg_start = 0x100000, rg_end = 0x200000\<rparr>]"
  "\<forall>h \<in> set mb_sections. segment_size h \<noteq> 0 \<longrightarrow> section_below (2 ^ 46) h" "\<exists>h \<in> set mb_sections. segment_size h \<noteq> 0"
  "region_wf \<lparr>rg_start = 0x9000, rg_end = 0x9000 + ucast (rd32 mb_mem 0x9000)\<rparr>" "rd32 mb_mem 0x9000 = 0x90"
  "mm_regions mb_start = replicate MAX_REGIONS \<lparr>rg_start = 0, rg_end = 0\<rparr>"
proof -
  show "entries_ok mb_entries"
    by (simp add: entries_ok_def mb_entries_def free_regions_def MMAP_ENTRY_FREE_TYPE_def MAX_REGIONS_def region_wf_def
        align_page_def PAGE_SIZE_def Let_def)
  show "free_regions mb_entries = [\<lparr>rg_start = 0x100000, rg_end = 0x200000\<rparr>]"
    by (simp add: mb_entries_def free_regions_def MMAP_ENTRY_FREE_TYPE_def)
  show "\<forall>h \<in> set mb_sections. segment_size h \<noteq> 0 \<longrightarrow> section_below (2 ^ 46) h" "\<exists>h \<in> set mb_sections. segment_size h \<noteq> 0"
    by (simp_all add: mb_sections_def section_below_def physical_segment_address_def KERNEL_TEXT_START_def)
  show r: "rd32 mb_mem 0x9000 = 0x90" by code_simp
  show "region_wf \<lparr>rg_start = 0x9000, rg_end = 0x9000 + ucast (rd32 mb_mem 0x9000)\<rparr>" by (simp add: r region_wf_def)
  show "mm_regions mb_start = replicate MAX_REGIONS \<lparr>rg_start = 0, rg_end = 0\<rparr>" by (simp add: mb_start_def)
qed

theorem multiboot_tags_parsed_witness:
  "map_option mm_kernel (parse_multiboot_tags mb_mem 0x9000 mb_start) = Some \<lparr>rg_start = 0x100000, rg_end = 0x102000\<rparr> \<and>
   map_option mm_num_regions (parse_multiboot_tags mb_mem 0x9000 mb_start) = Some 1"
proof -
  have l: "length (mm_regions mb_start) = MAX_REGIONS" by (simp add: mb_start_def)
  show ?thesis unfolding multiboot_tags_parsed [OF mb_tags l] by (simp only: option.map mb_tags_map simp_thms)
qed

theorem boot_information_suits_allocator_witness:
  "\<exists>M' s'. parse_multiboot_tags mb_mem 0x9000 mb_start = Some M' \<and>
     take (unat (mm_num_regions M')) (mm_regions M') = [\<lparr>rg_start = 0x100000, rg_end = 0x200000\<rparr>] \<and>
     MMU_init_pf_alloc ((pf_example 0)\<lparr>pf_map := M'\<rparr>) = Inr s' \<and> pf_inv s' {} []"
  using boot_information_suits_allocator [OF mb_tags _ mb_info(1,3,4,7,5), of "pf_example 0"] mb_info(2) by auto

end
