(* ===== verification/Irq.thy ===== *)
theory Irq
  imports Port_IO
begin

text \<open>
  Interrupts (\<^verbatim>\<open>irq/irq.c\<close>): the interrupt descriptor table, the table of C handlers behind it,
  the two interrupt controllers, and the table of system calls (\<^verbatim>\<open>init_syscalls.c\<close>).
\<close>

section \<open>State and operations\<close>

definition INTERRUPT_GATE :: "4 word" where "INTERRUPT_GATE = 0xE"
definition TRAP_GATE :: "4 word" where "TRAP_GATE = 0xF"
definition NUM_IDT_ENTRIES :: nat where "NUM_IDT_ENTRIES = 256"
definition PIC1_COMMAND :: u16 where "PIC1_COMMAND = 0x20"
definition PIC1_DATA :: u16 where "PIC1_DATA = 0x21"
definition PIC2_COMMAND :: u16 where "PIC2_COMMAND = 0xA0"
definition PIC2_DATA :: u16 where "PIC2_DATA = 0xA1"
definition PIC_EOI :: u8 where "PIC_EOI = 0x20"
definition PIC1_OFFSET :: u8 where "PIC1_OFFSET = 0x20"
definition PIC2_OFFSET :: u8 where "PIC2_OFFSET = 0x28"
definition ICW1_INIT :: u8 where "ICW1_INIT = 0x11"
definition ICW4_8086 :: u8 where "ICW4_8086 = 0x01"
definition DOUBLE_FAULT :: nat where "DOUBLE_FAULT = 8"
definition PAGE_FAULT :: nat where "PAGE_FAULT = 14"
definition GENERAL_PROTECTION_FAULT :: nat where "GENERAL_PROTECTION_FAULT = 13"
definition CASCADE_INT_LINE :: u8 where "CASCADE_INT_LINE = 2"
definition SYS_CALL_IRQ :: nat where "SYS_CALL_IRQ = 206"
definition KEXIT_IRQ :: nat where "KEXIT_IRQ = 207"
definition KEXIT_IST :: "3 word" where "KEXIT_IST = 4"
definition USER_DPL :: "2 word" where "USER_DPL = 3"

record idt_entry =
  isr_low :: u16
  target_selector :: u16
  ist_index :: "3 word"
  gate_res1 :: "5 word"
  gate_type :: "4 word"
  gate_zero :: "1 word"
  gate_dpl :: "2 word"
  gate_present :: "1 word"
  isr_mid :: u16
  isr_high :: u32
  gate_res2 :: u32

record irq_entry =
  ih_arg :: ptr
  ih_handler :: ptr

record 'd irq_state = "'d dev_state" +
  idt :: "idt_entry list"
  irq_handler_table :: "irq_entry list"
  kernel_text_offset :: u64
  idt_loaded :: bool
  sys_calls :: "ptr list"

text \<open>
  The C handler behind an interrupt is called by its address; \<open>call\<close> is the function at an
  address. An interrupt without a handler prints a message and halts.
\<close>

definition irq_handler ::
    "(ptr \<Rightarrow> u8 \<Rightarrow> u32 \<Rightarrow> ptr \<Rightarrow> ('d, 'a) irq_state_scheme \<Rightarrow> ('d, 'a) irq_state_scheme res) \<Rightarrow>
     u8 \<Rightarrow> u32 \<Rightarrow> ('d, 'a) irq_state_scheme \<Rightarrow> ('d, 'a) irq_state_scheme res" where
  "irq_handler call irq error_code s =
     (let e = irq_handler_table s ! unat irq
      in if ih_handler e \<noteq> NULL then call (ih_handler e) irq error_code (ih_arg e) s
         else Inl HaltLoop)"

text \<open>The table of the assembly entry points; \<open>entry i\<close> is the address of \<^verbatim>\<open>isr_wrapper_\<close>\<open>i\<close>.\<close>

definition isr_wrapper_table :: "(nat \<Rightarrow> ptr) \<Rightarrow> ptr list" where
  "isr_wrapper_table entry = map entry [0..<NUM_IDT_ENTRIES]"

definition set_idt_entry :: "ptr list \<Rightarrow> u8 \<Rightarrow> ('d, 'a) irq_state_scheme \<Rightarrow> ('d, 'a) irq_state_scheme" where
  "set_idt_entry wrappers irq s =
     (let wrapper_addr = wrappers ! unat irq
      in s\<lparr>idt := (idt s)[unat irq :=
           \<lparr>isr_low = ucast (wrapper_addr AND 0xFFFF),
            target_selector = KERNEL_CODE_SELECTOR,
            ist_index = 0, gate_res1 = 0, gate_type = INTERRUPT_GATE, gate_zero = 0, gate_dpl = 0,
            gate_present = 1,
            isr_mid = ucast (drop_bit 16 wrapper_addr AND 0xFFFF),
            isr_high = ucast (drop_bit 32 wrapper_addr AND 0xFFFFFFFF),
            gate_res2 = 0\<rparr>]\<rparr>)"

definition PIC_remap :: "'d ports \<Rightarrow> ('d, 'a) irq_state_scheme \<Rightarrow> ('d, 'a) irq_state_scheme" where
  "PIC_remap P s =
     (let (mask1, s) = inb P PIC1_DATA s;
          (mask2, s) = inb P PIC2_DATA s;
          s = io_wait P (outb P PIC1_COMMAND ICW1_INIT s);
          s = io_wait P (outb P PIC2_COMMAND ICW1_INIT s);
          s = io_wait P (outb P PIC1_DATA PIC1_OFFSET s);
          s = io_wait P (outb P PIC2_DATA PIC2_OFFSET s);
          s = io_wait P (outb P PIC1_DATA 0x4 s);
          s = io_wait P (outb P PIC2_DATA 0x2 s);
          s = io_wait P (outb P PIC1_DATA ICW4_8086 s);
          s = io_wait P (outb P PIC2_DATA ICW4_8086 s);
          s = outb P PIC1_DATA mask1 s
      in outb P PIC2_DATA mask2 s)"

text \<open>The line of an interrupt, kept in a byte by the three mask functions.\<close>

definition irq_port :: "u8 \<Rightarrow> u16 \<times> u8" where
  "irq_port irq =
     (let irq_line = irq - PIC1_OFFSET
      in if irq_line < 8 then (PIC1_DATA, irq_line) else (PIC2_DATA, irq_line - 8))"

definition line_bit :: "u8 \<Rightarrow> u8" where
  "line_bit irq_line = push_bit (unat irq_line) 1"

definition IRQ_set_mask :: "'d ports \<Rightarrow> u8 \<Rightarrow> ('d, 'a) irq_state_scheme \<Rightarrow> ('d, 'a) irq_state_scheme" where
  "IRQ_set_mask P irq s =
     (let (port, irq_line) = irq_port irq;
          (v, s) = inb P port s
      in outb P port (v OR line_bit irq_line) s)"

definition IRQ_clear_mask :: "'d ports \<Rightarrow> u8 \<Rightarrow> ('d, 'a) irq_state_scheme \<Rightarrow> ('d, 'a) irq_state_scheme" where
  "IRQ_clear_mask P irq s =
     (let (port, irq_line) = irq_port irq;
          (v, s) = inb P port s
      in outb P port (v AND NOT (line_bit irq_line)) s)"

definition IRQ_get_mask :: "'d ports \<Rightarrow> u8 \<Rightarrow> ('d, 'a) irq_state_scheme \<Rightarrow> u8 \<times> ('d, 'a) irq_state_scheme" where
  "IRQ_get_mask P irq s =
     (let (port, irq_line) = irq_port irq;
          (v, s) = inb P port s
      in (v AND line_bit irq_line, s))"

text \<open>Here the line is computed in \<^verbatim>\<open>int\<close>, so an exception number is below every line.\<close>

definition IRQ_end_of_interrupt :: "'d ports \<Rightarrow> u8 \<Rightarrow> ('d, 'a) irq_state_scheme \<Rightarrow> ('d, 'a) irq_state_scheme" where
  "IRQ_end_of_interrupt P irq s =
     (let s = (if uint irq - uint PIC1_OFFSET \<ge> 8 then outb P PIC2_COMMAND PIC_EOI s else s)
      in outb P PIC1_COMMAND PIC_EOI s)"

definition IRQ_set_handler :: "u8 \<Rightarrow> ptr \<Rightarrow> ptr \<Rightarrow> ('d, 'a) irq_state_scheme \<Rightarrow> ('d, 'a) irq_state_scheme" where
  "IRQ_set_handler irq handler arg s =
     s\<lparr>irq_handler_table := (irq_handler_table s)[unat irq :=
        \<lparr>ih_arg = arg, ih_handler = handler + kernel_text_offset s\<rparr>]\<rparr>"

fun init_entries :: "ptr list \<Rightarrow> nat \<Rightarrow> nat \<Rightarrow> ('d, 'a) irq_state_scheme \<Rightarrow> ('d, 'a) irq_state_scheme" where
  "init_entries wrappers i 0 s = s"
| "init_entries wrappers i (Suc n) s = init_entries wrappers (Suc i) n (set_idt_entry wrappers (of_nat i) s)"

definition set_gate :: "nat \<Rightarrow> (idt_entry \<Rightarrow> idt_entry) \<Rightarrow> ('d, 'a) irq_state_scheme \<Rightarrow> ('d, 'a) irq_state_scheme" where
  "set_gate i f s = s\<lparr>idt := (idt s)[i := f (idt s ! i)]\<rparr>"

definition IRQ_init :: "'d ports \<Rightarrow> (nat \<Rightarrow> ptr) \<Rightarrow> ('d, 'a) irq_state_scheme \<Rightarrow> ('d, 'a) irq_state_scheme" where
  "IRQ_init P entry s =
     (let s = init_entries (isr_wrapper_table entry) 0 NUM_IDT_ENTRIES s;
          s = set_gate DOUBLE_FAULT (\<lambda>e. e\<lparr>ist_index := 1\<rparr>) s;
          s = set_gate PAGE_FAULT (\<lambda>e. e\<lparr>ist_index := 2\<rparr>) s;
          s = set_gate GENERAL_PROTECTION_FAULT (\<lambda>e. e\<lparr>ist_index := 3\<rparr>) s;
          s = set_gate SYS_CALL_IRQ (\<lambda>e. e\<lparr>gate_type := TRAP_GATE\<rparr>) s;
          s = set_gate SYS_CALL_IRQ (\<lambda>e. e\<lparr>gate_dpl := USER_DPL\<rparr>) s;
          s = set_gate KEXIT_IRQ (\<lambda>e. e\<lparr>ist_index := KEXIT_IST\<rparr>) s;
          s = set_gate SYS_CALL_IRQ (\<lambda>e. e\<lparr>gate_dpl := USER_DPL\<rparr>) s;
          s = s\<lparr>idt_loaded := True\<rparr>;
          s = outb P PIC1_DATA 0xFF s;
          s = outb P PIC2_DATA 0xFF s;
          s = IRQ_clear_mask P (CASCADE_INT_LINE + PIC1_OFFSET) s;
          s = PIC_remap P s
      in STI s)"

definition set_sys_call :: "u8 \<Rightarrow> ptr \<Rightarrow> ('d, 'a) irq_state_scheme \<Rightarrow> ('d, 'a) irq_state_scheme" where
  "set_sys_call num sys_call s = s\<lparr>sys_calls := (sys_calls s)[unat num := sys_call]\<rparr>"

text \<open>\<open>putc\<close> is the address of \<^verbatim>\<open>putc_sys_call\<close>.\<close>

definition PUTC_SYS_CALL :: u8 where "PUTC_SYS_CALL = 2"

definition init_sys_calls :: "ptr \<Rightarrow> ('d, 'a) irq_state_scheme \<Rightarrow> ('d, 'a) irq_state_scheme" where
  "init_sys_calls putc s = set_sys_call PUTC_SYS_CALL putc s"

text \<open>The system call number comes from the caller and is not checked against the table.\<close>

definition sys_call_isr ::
    "(ptr \<Rightarrow> u64 \<Rightarrow> ('d, 'a) irq_state_scheme \<Rightarrow> (u64 \<times> ('d, 'a) irq_state_scheme) res) \<Rightarrow>
     u64 \<Rightarrow> u64 \<Rightarrow> ('d, 'a) irq_state_scheme \<Rightarrow> (u64 \<times> ('d, 'a) irq_state_scheme) res" where
  "sys_call_isr call sys_call_index arg s =
     (if unat sys_call_index < length (sys_calls s)
      then call (sys_calls s ! unat sys_call_index) arg s else Inl BadAccess)"

section \<open>The descriptor table\<close>

text \<open>The address a gate leads to.\<close>

definition gate_target :: "idt_entry \<Rightarrow> ptr" where
  "gate_target e = ucast (isr_low e) OR push_bit 16 (ucast (isr_mid e)) OR push_bit 32 (ucast (isr_high e))"

lemma gate_target_set:
  assumes "unat irq < length (idt s)"
  shows "gate_target (idt (set_idt_entry wrappers irq s) ! unat irq) = wrappers ! unat irq"
proof (rule bit_eqI)
  fix n assume n: "possible_bit TYPE(64 word) n"
  have m: "(0xFFFF :: u64) = mask 16" "(0xFFFFFFFF :: u64) = mask 32" by (simp_all add: mask_eq_exp_minus_1)
  show "bit (gate_target (idt (set_idt_entry wrappers irq s) ! unat irq)) n = bit (wrappers ! unat irq) n"
    using assms n by (cases "n < 32") (auto simp: gate_target_def set_idt_entry_def Let_def m bit_simps)
qed

text \<open>The gates of \<open>IRQ_init\<close>.\<close>

definition gate_for :: "(nat \<Rightarrow> ptr) \<Rightarrow> nat \<Rightarrow> idt_entry \<Rightarrow> bool" where
  "gate_for entry i e \<longleftrightarrow>
     gate_target e = entry i \<and> gate_present e = 1 \<and> target_selector e = KERNEL_CODE_SELECTOR \<and>
     gate_zero e = 0 \<and> gate_res1 e = 0 \<and> gate_res2 e = 0 \<and>
     gate_type e = (if i = SYS_CALL_IRQ then TRAP_GATE else INTERRUPT_GATE) \<and>
     gate_dpl e = (if i = SYS_CALL_IRQ then USER_DPL else 0) \<and>
     ist_index e = (if i = DOUBLE_FAULT then 1 else if i = PAGE_FAULT then 2
       else if i = GENERAL_PROTECTION_FAULT then 3 else if i = KEXIT_IRQ then KEXIT_IST else 0)"

definition plain_gate :: "ptr list \<Rightarrow> nat \<Rightarrow> idt_entry \<Rightarrow> bool" where
  "plain_gate wrappers i e \<longleftrightarrow>
     gate_target e = wrappers ! i \<and> gate_present e = 1 \<and> target_selector e = KERNEL_CODE_SELECTOR \<and>
     gate_zero e = 0 \<and> gate_res1 e = 0 \<and> gate_res2 e = 0 \<and> gate_type e = INTERRUPT_GATE \<and>
     gate_dpl e = 0 \<and> ist_index e = 0"

lemma set_idt_entry_gate:
  assumes "i < 256" and "length (idt s) = 256"
  shows "plain_gate wrappers i (idt (set_idt_entry wrappers (of_nat i) s) ! i)"
    and "j \<noteq> i \<Longrightarrow> idt (set_idt_entry wrappers (of_nat i) s) ! j = idt s ! j"
    and "length (idt (set_idt_entry wrappers (of_nat i) s)) = 256"
proof -
  have u: "unat (of_nat i :: u8) = i" using assms(1) by (simp add: unsigned_of_nat take_bit_nat_eq_self)
  show "plain_gate wrappers i (idt (set_idt_entry wrappers (of_nat i) s) ! i)"
    using gate_target_set [of "of_nat i" s wrappers] assms
    by (simp add: u plain_gate_def) (simp add: set_idt_entry_def u Let_def)
  show "j \<noteq> i \<Longrightarrow> idt (set_idt_entry wrappers (of_nat i) s) ! j = idt s ! j"
    "length (idt (set_idt_entry wrappers (of_nat i) s)) = 256"
    using assms by (simp_all add: set_idt_entry_def u Let_def)
qed

lemma init_entries_gates:
  "i + n \<le> 256 \<Longrightarrow> length (idt s) = 256 \<Longrightarrow> (\<forall>j < i. plain_gate wrappers j (idt s ! j)) \<Longrightarrow>
   length (idt (init_entries wrappers i n s)) = 256 \<and>
   (\<forall>j < i + n. plain_gate wrappers j (idt (init_entries wrappers i n s) ! j))"
proof (induction n arbitrary: i s)
  case (Suc n)
  let ?s = "set_idt_entry wrappers (of_nat i) s"
  have i: "i < 256" using Suc.prems by simp
  note g = set_idt_entry_gate [where wrappers = wrappers, OF i Suc.prems(2)]
  have "\<forall>j < Suc i. plain_gate wrappers j (idt ?s ! j)"
    using g(1,2) Suc.prems(3) by (metis less_SucE)
  with Suc.IH [of "Suc i" ?s] Suc.prems(1) g(3) show ?case by simp
qed simp

lemma set_gate_idt: "idt (set_gate i f s) = (idt s)[i := f (idt s ! i)]"
  by (simp add: set_gate_def)

lemma port_idt [simp]:
  "idt (outb P p v s) = idt s" "idt (snd (inb P p s)) = idt s" "idt (io_wait P s) = idt s"
  "idt (IRQ_clear_mask P l s) = idt s" "idt (STI s) = idt s"
  by (simp_all add: outb_def port_only io_wait_def IRQ_clear_mask_def split_beta Let_def STI_def)

lemma PIC_remap_idt [simp]: "idt (PIC_remap P s) = idt s"
  by (simp add: PIC_remap_def split_beta Let_def)

lemma IRQ_init_idt:
  assumes "length (idt s) = 256" and "i < 256"
  shows "gate_for entry i (idt (IRQ_init P entry s) ! i)"
proof -
  let ?s = "init_entries (isr_wrapper_table entry) 0 NUM_IDT_ENTRIES s"
  have w: "isr_wrapper_table entry ! i = entry i" using assms(2) by (simp add: isr_wrapper_table_def NUM_IDT_ENTRIES_def)
  have l: "length (idt ?s) = 256" and p: "plain_gate (isr_wrapper_table entry) i (idt ?s ! i)"
    using init_entries_gates [where i = 0 and n = 256 and s = s and wrappers = "isr_wrapper_table entry"] assms by (simp_all add: NUM_IDT_ENTRIES_def)
  note vec = DOUBLE_FAULT_def PAGE_FAULT_def GENERAL_PROTECTION_FAULT_def SYS_CALL_IRQ_def KEXIT_IRQ_def
  have "idt (IRQ_init P entry s) =
      idt (set_gate SYS_CALL_IRQ (\<lambda>e. e\<lparr>gate_dpl := USER_DPL\<rparr>)
          (set_gate KEXIT_IRQ (\<lambda>e. e\<lparr>ist_index := KEXIT_IST\<rparr>)
          (set_gate SYS_CALL_IRQ (\<lambda>e. e\<lparr>gate_dpl := USER_DPL\<rparr>)
          (set_gate SYS_CALL_IRQ (\<lambda>e. e\<lparr>gate_type := TRAP_GATE\<rparr>)
          (set_gate GENERAL_PROTECTION_FAULT (\<lambda>e. e\<lparr>ist_index := 3\<rparr>)
          (set_gate PAGE_FAULT (\<lambda>e. e\<lparr>ist_index := 2\<rparr>)
          (set_gate DOUBLE_FAULT (\<lambda>e. e\<lparr>ist_index := 1\<rparr>) ?s)))))))"
    by (simp add: IRQ_init_def Let_def)
  note eq = this [unfolded set_gate_idt vec]
  have gt: "gate_target (e\<lparr>ist_index := k\<rparr>) = gate_target e" "gate_target (e\<lparr>gate_type := t\<rparr>) = gate_target e"
    "gate_target (e\<lparr>gate_dpl := d\<rparr>) = gate_target e" for e k t d
    by (simp_all add: gate_target_def)
  consider "i = 8" | "i = 13" | "i = 14" | "i = 206" | "i = 207" | "i \<notin> {8, 13, 14, 206, 207}"
    by auto
  then show ?thesis
    unfolding gate_for_def vec eq
    by cases (use p l w assms(2) in \<open>simp_all add: plain_gate_def gt\<close>)
qed

section \<open>The interrupt masks\<close>

text \<open>
  What the 8259 documentation says of the two data ports: they are registers, the mask.
\<close>

definition mask_registers :: "'d ports \<Rightarrow> (u16 \<Rightarrow> 'd \<Rightarrow> u8) \<Rightarrow> bool" where
  "mask_registers P imr \<longleftrightarrow>
     (\<forall>p \<in> {PIC1_DATA, PIC2_DATA}. \<forall>d. port_inb P p d = (imr p d, d) \<and>
        (\<forall>v q. imr q (port_outb P p v d) = (if q = p then v else imr q d)))"

definition masked :: "(u16 \<Rightarrow> 'd \<Rightarrow> u8) \<Rightarrow> u8 \<Rightarrow> 'd \<Rightarrow> bool" where
  "masked imr irq d \<longleftrightarrow> bit (imr (fst (irq_port irq)) d) (unat (snd (irq_port irq)))"

definition external_irq :: "u8 \<Rightarrow> bool" where
  "external_irq irq \<longleftrightarrow> 0x20 \<le> irq \<and> irq \<le> 0x2F"

lemma irq_port_facts:
  assumes "external_irq irq"
  shows "fst (irq_port irq) \<in> {PIC1_DATA, PIC2_DATA}" "unat (snd (irq_port irq)) < 8"
    and "external_irq irq' \<Longrightarrow> irq_port irq = irq_port irq' \<longleftrightarrow> irq = irq'"
proof -
  show "fst (irq_port irq) \<in> {PIC1_DATA, PIC2_DATA}" by (simp add: irq_port_def Let_def)
  have "snd (irq_port irq) < 8"
    using assms unfolding irq_port_def external_irq_def Let_def PIC1_OFFSET_def
    by (auto, uint_arith)
  then show "unat (snd (irq_port irq)) < 8" by (simp add: word_less_nat_alt)
  show "irq_port irq = irq_port irq' \<longleftrightarrow> irq = irq'"
    by (auto simp: irq_port_def Let_def PIC1_DATA_def PIC2_DATA_def split: if_splits)
qed

lemma line_bit_bit: "n < 8 \<Longrightarrow> bit (line_bit l) n \<longleftrightarrow> n = unat l"
  by (auto simp: line_bit_def bit_simps)

lemma and_line_bit: "unat l < 8 \<Longrightarrow> v AND line_bit l = 0 \<longleftrightarrow> \<not> bit v (unat l)"
  by (simp add: line_bit_def push_bit_eq_mult and_exp_eq_0_iff_not_bit)

lemma mask_registersD:
  assumes "mask_registers P imr" and "p \<in> {PIC1_DATA, PIC2_DATA}"
  shows "port_inb P p d = (imr p d, d)" "imr q (port_outb P p v d) = (if q = p then v else imr q d)"
  using assms unfolding mask_registers_def by blast+

lemma IRQ_get_mask_masked:
  assumes "mask_registers P imr" and "external_irq irq"
  shows "fst (IRQ_get_mask P irq s) \<noteq> 0 \<longleftrightarrow> masked imr irq (dev s)"
  using irq_port_facts(2) [OF assms(2)] mask_registersD(1) [OF assms(1) irq_port_facts(1) [OF assms(2)]]
  by (simp add: IRQ_get_mask_def masked_def split_beta Let_def port_only and_line_bit)

lemma masked_write:
  assumes "mask_registers P imr" and "external_irq irq" and "external_irq irq'"
  shows "masked imr irq' (port_outb P (fst (irq_port irq)) v d) =
    (if fst (irq_port irq') = fst (irq_port irq) then bit v (unat (snd (irq_port irq'))) else masked imr irq' d)"
  using mask_registersD(2) [OF assms(1) irq_port_facts(1) [OF assms(2)]] by (simp add: masked_def)

lemma IRQ_masks:
  assumes P: "mask_registers P imr" and irq: "external_irq irq" and irq': "external_irq irq'"
  shows "masked imr irq' (dev (IRQ_clear_mask P irq s)) \<longleftrightarrow> irq' \<noteq> irq \<and> masked imr irq' (dev s)"
    and "masked imr irq' (dev (IRQ_set_mask P irq s)) \<longleftrightarrow> irq' = irq \<or> masked imr irq' (dev s)"
proof -
  note f = irq_port_facts [OF irq] and f' = irq_port_facts [OF irq']
  obtain p l where pl: "irq_port irq = (p, l)" by fastforce
  obtain q k where qk: "irq_port irq' = (q, k)" by fastforce
  have eq: "irq' = irq \<longleftrightarrow> q = p \<and> unat k = unat l"
    using f'(3) [OF irq] by (simp add: pl qk word_unat_eq_iff)
  have rd: "port_inb P p d = (imr p d, d)" for d using mask_registersD(1) [OF P f(1)] by (simp add: pl)
  have kl: "unat k < 8" "unat l < 8" using f(2) f'(2) by (simp_all add: pl qk)
  note w = masked_write [OF P irq irq', unfolded pl qk fst_conv snd_conv]
  show "masked imr irq' (dev (IRQ_clear_mask P irq s)) \<longleftrightarrow> irq' \<noteq> irq \<and> masked imr irq' (dev s)"
    using kl line_bit_bit [OF kl(1), of l]
    by (simp add: IRQ_clear_mask_def pl inb_def rd outb_def w eq bit_simps)
      (auto simp: masked_def qk)
  show "masked imr irq' (dev (IRQ_set_mask P irq s)) \<longleftrightarrow> irq' = irq \<or> masked imr irq' (dev s)"
    using kl line_bit_bit [OF kl(1), of l]
    by (simp add: IRQ_set_mask_def pl inb_def rd outb_def w eq bit_simps)
      (auto simp: masked_def qk)
qed

section \<open>Properties\<close>

text \<open>
  C16: After \<^verbatim>\<open>IRQ_init\<close> every one of the 256 vectors has a present gate to its assembly entry point in the kernel's code
  segment, as the code sets them up: double fault, page fault, protection fault and thread exit have the interrupt
  stacks 1, 2, 3 and 4, all others none, and the system call vector is the only trap gate and the only one open to user
  mode. This differs from what the source says around it in two places. A comment names the system calls among the
  vectors with a stack of their own, and they have none. The lines for thread exit repeat the privilege level of
  the system call vector, so thread exit stays closed to user mode.
\<close>

theorem IRQ_init_gates:
  assumes "length (idt s) = 256" and "i < 256"
  shows "gate_for entry i (idt (IRQ_init P entry s) ! i)"
  by (rule IRQ_init_idt [OF assms])

definition null_ports :: "unit ports" where
  "null_ports = \<lparr>port_inb = \<lambda>_ d. (0, d), port_inw = \<lambda>_ d. (0, d), port_outb = \<lambda>_ _ d. d, port_outw = \<lambda>_ _ d. d\<rparr>"

definition irq_example :: "unit irq_state" where
  "irq_example = \<lparr>sc_procs = (\<lambda>_. zero_process), sc_queue = \<lparr>q_head = NULL, q_tail = NULL\<rparr>,
     sc_current = NULL, pr_curr = NULL, pr_next = NULL, pr_pid = 0, pr_orig = 64, pr_waitq = (\<lambda>_. \<lparr>q_head = NULL, q_tail = NULL\<rparr>),
     pr_cpu = zero_regfile, dev = (), idt = replicate 256 undefined, irq_handler_table = [],
     kernel_text_offset = 0, idt_loaded = False, sys_calls = []\<rparr>"

theorem IRQ_init_gates_witness:
  "gate_target (idt (IRQ_init null_ports of_nat irq_example) ! 206) = 206 \<and>
   gate_type (idt (IRQ_init null_ports of_nat irq_example) ! 206) = TRAP_GATE"
  using IRQ_init_gates [of irq_example 206 of_nat null_ports]
  by (simp add: irq_example_def gate_for_def SYS_CALL_IRQ_def)

text \<open>
  On interrupt controllers whose data ports are the mask registers, clearing and setting the
  mask of an external interrupt changes the mask of that interrupt and of no other of the 16, on
  either controller, and \<^verbatim>\<open>IRQ_get_mask\<close> tells whether an interrupt is masked.
\<close>

theorem IRQ_mask_one_line:
  assumes "mask_registers P imr" and "external_irq irq" and "external_irq irq'"
  shows "(fst (IRQ_get_mask P irq' (IRQ_clear_mask P irq s)) \<noteq> 0 \<longleftrightarrow>
            irq' \<noteq> irq \<and> fst (IRQ_get_mask P irq' s) \<noteq> 0) \<and>
     (fst (IRQ_get_mask P irq' (IRQ_set_mask P irq s)) \<noteq> 0 \<longleftrightarrow>
            irq' = irq \<or> fst (IRQ_get_mask P irq' s) \<noteq> 0)"
  by (simp add: IRQ_masks [OF assms] IRQ_get_mask_masked [OF assms(1,3)])

definition pic_ports :: "(u16 \<Rightarrow> u8) ports" where
  "pic_ports = \<lparr>port_inb = \<lambda>p d. (d p, d), port_inw = \<lambda>p d. (0, d), port_outb = \<lambda>p v d. d(p := v), port_outw = \<lambda>_ _ d. d\<rparr>"

definition pic_example :: "(u16 \<Rightarrow> u8) irq_state" where
  "pic_example = \<lparr>sc_procs = (\<lambda>_. zero_process), sc_queue = \<lparr>q_head = NULL, q_tail = NULL\<rparr>,
     sc_current = NULL, pr_curr = NULL, pr_next = NULL, pr_pid = 0, pr_orig = 64, pr_waitq = (\<lambda>_. \<lparr>q_head = NULL, q_tail = NULL\<rparr>),
     pr_cpu = zero_regfile, dev = (\<lambda>_. 0xFF), idt = [], irq_handler_table = [],
     kernel_text_offset = 0, idt_loaded = False, sys_calls = []\<rparr>"

theorem IRQ_mask_one_line_witness:
  "fst (IRQ_get_mask pic_ports 36 (IRQ_clear_mask pic_ports 36 pic_example)) = 0 \<and>
   fst (IRQ_get_mask pic_ports 44 (IRQ_clear_mask pic_ports 36 pic_example)) \<noteq> 0"
proof -
  have m: "mask_registers pic_ports (\<lambda>p d. d p)" by (simp add: mask_registers_def pic_ports_def)
  have e: "external_irq 36" "external_irq 44" by (simp_all add: external_irq_def)
  have "fst (IRQ_get_mask pic_ports 44 pic_example) \<noteq> 0"
    by (simp add: IRQ_get_mask_def irq_port_def PIC1_OFFSET_def inb_def pic_ports_def pic_example_def line_bit_def)
  with IRQ_mask_one_line [OF m e(1) e(1), of pic_example] IRQ_mask_one_line [OF m e, of pic_example]
  show ?thesis by simp
qed

end
