(* ===== verification/Kernel_Map.thy ===== *)
theory Kernel_Map
  imports Heap_Alloc Multiboot Irq VGA
begin

text \<open>
  The address space the kernel builds for itself when it starts (the boot time part of
  \<^verbatim>\<open>mem/page_table.c\<close>): the map of physical memory, the sections of the kernel, a stack, and giving back
  what only the boot code needed. Until the new tables are loaded physical memory is accessed at its
  own addresses; \<open>info\<close> is the memory that holds the boot information, which nothing here writes.
\<close>

section \<open>State and operations\<close>

definition ELF_WRITE_FLAG :: u64 where "ELF_WRITE_FLAG = 0x1"
definition ELF_EXEC_FLAG :: u64 where "ELF_EXEC_FLAG = 0x4"
definition PAGE_FAULT_IRQ :: u8 where "PAGE_FAULT_IRQ = 14"
definition PML4_MMAP_INDEX :: u64 where "PML4_MMAP_INDEX = 256"

record ('d, 'b) kmap_state = mmu_state +
  old_pml4 :: ptr
  cr3 :: u64
  no_execute_enabled :: bool
  ks_irq :: "('d, 'b) irq_state_scheme"
  ks_vga :: vga_state

text \<open>An entry of a table at its physical address, and the fields that are set in it.\<close>

definition set_entry :: "ptr \<Rightarrow> u64 \<Rightarrow> (u64 \<Rightarrow> u64) \<Rightarrow> 'a pf_state_scheme \<Rightarrow> 'a pf_state_scheme" where
  "set_entry table i f s = s\<lparr>pf_mem := (pf_mem s)(entry_ptr table i := f (pf_mem s (entry_ptr table i)))\<rparr>"

definition kernel_entry :: "u64 \<Rightarrow> u64 \<Rightarrow> u64" where
  "kernel_entry addr e = set_bit 63 (set_bit 1 (set_bit 0 (pte_set_base_addr (drop_bit 12 addr) e)))"

text \<open>\<^verbatim>\<open>memset\<close> does nothing at address 0, \<^verbatim>\<open>memset_allow_null\<close> does.\<close>

definition memset_allow_null :: "ptr \<Rightarrow> u64 \<Rightarrow> 'a pf_state_scheme \<Rightarrow> 'a pf_state_scheme" where
  "memset_allow_null dst n s = s\<lparr>pf_mem := (\<lambda>a. if a - dst < n then 0 else pf_mem s a)\<rparr>"

definition map_physical_memory_huge_page :: "u64 \<Rightarrow> ptr \<Rightarrow> nat \<Rightarrow> 'a pf_state_scheme \<Rightarrow> 'a pf_state_scheme res" where
  "map_physical_memory_huge_page addr p3_mmap p3_index s =
     (if p3_index < 512 then Inr (set_entry p3_mmap (of_nat p3_index) (\<lambda>e. set_bit 7 (kernel_entry addr e)) s)
      else Inl BadAccess)"

partial_function (option) huge_loop :: "u64 \<Rightarrow> u64 \<Rightarrow> ptr \<Rightarrow> nat \<Rightarrow> 'a pf_state_scheme \<Rightarrow> 'a pf_state_scheme res option" where
  "huge_loop addr stop p3_mmap p3_index s =
     (if addr < stop then
        (case map_physical_memory_huge_page addr p3_mmap p3_index s of
           Inl e \<Rightarrow> Some (Inl e)
         | Inr s \<Rightarrow> huge_loop (addr + GB) stop p3_mmap (p3_index + 1) s)
      else Some (Inr s))"

definition map_physical_memory :: "ptr \<Rightarrow> ('d, 'b) kmap_state \<Rightarrow> ('d, 'b) kmap_state res option" where
  "map_physical_memory physical_pml4 s =
     bind_ro (Some (MMU_pf_alloc s)) (\<lambda>(p3_mmap, s).
       let s = (if p3_mmap = NULL then s else memset_allow_null p3_mmap PAGE_SIZE s)
       in bind_ro (Some (region_at (pf_map s) (mm_num_regions (pf_map s) - 1))) (\<lambda>r.
          bind_ro (huge_loop 0 (rg_end r) p3_mmap 0 s) (\<lambda>s.
            let s = set_entry (old_pml4 s) PML4_MMAP_INDEX (kernel_entry p3_mmap) s
            in Some (Inr (set_entry physical_pml4 PML4_MMAP_INDEX (kernel_entry p3_mmap) s)))))"

text \<open>A section of the kernel: its pages are writable and executable as its flags say.\<close>

definition section_flags_of :: "elf_section_header \<Rightarrow> u64" where
  "section_flags_of h =
     (let flags = PAGE_PRESENT;
          flags = (if section_flags h AND ELF_WRITE_FLAG \<noteq> 0 then flags OR PAGE_WRITABLE else flags)
      in if section_flags h AND ELF_EXEC_FLAG = 0 then flags OR PAGE_NO_EXECUTE else flags)"

definition map_section :: "elf_section_header \<Rightarrow> 'a mmu_state_scheme \<Rightarrow> 'a mmu_state_scheme res" where
  "map_section h s =
     (if segment_size h \<noteq> 0 \<and> segment_address h \<ge> KERNEL_TEXT_START then
        map_range (segment_address h - KERNEL_TEXT_START) (segment_address h) (segment_size h) (section_flags_of h) s
      else Inr s)"

partial_function (option) remap_loop :: "bmem \<Rightarrow> ptr \<Rightarrow> ptr \<Rightarrow> 'a mmu_state_scheme \<Rightarrow> 'a mmu_state_scheme res option" where
  "remap_loop info current stop s =
     (if current < stop then
        (case map_section (section_at info current) s of
           Inl e \<Rightarrow> Some (Inl e)
         | Inr s \<Rightarrow> remap_loop info (current + 64) stop s)
      else Some (Inr s))"

definition remap_elf_sections :: "bmem \<Rightarrow> 'a mmu_state_scheme \<Rightarrow> 'a mmu_state_scheme res option" where
  "remap_elf_sections info s =
     (let tag = mm_elf_tag (pf_map s)
      in remap_loop info (tag + 20) (tag + ucast (tag_size info tag)) s)"

text \<open>
  \<^verbatim>\<open>setup_pml4\<close>; \<open>handler\<close> is the address of \<^verbatim>\<open>page_fault_handler\<close>. The registers it sets are fields.
\<close>

definition setup_pml4 :: "bmem \<Rightarrow> ptr \<Rightarrow> ('d, 'b) kmap_state \<Rightarrow> ('d, 'b) kmap_state res option" where
  "setup_pml4 info handler s =
     (let s = s\<lparr>ks_irq := IRQ_set_handler PAGE_FAULT_IRQ handler NULL (ks_irq s)\<rparr>;
          s = s\<lparr>no_execute_enabled := True\<rparr>
      in bind_ro (Some (MMU_pf_alloc s)) (\<lambda>(physical_pml4, s).
           let s = memset_allow_null physical_pml4 PAGE_SIZE s
           in bind_ro (map_physical_memory physical_pml4 s) (\<lambda>s.
                let s = s\<lparr>ks_vga := VGA_remap (ks_vga s)\<rparr>;
                    s = s\<lparr>mu_pml4 := GET_VIRT_ADDR physical_pml4\<rparr>
                in bind_ro (remap_elf_sections info s) (\<lambda>s. Some (Inr (s\<lparr>cr3 := physical_pml4\<rparr>))))))"

text \<open>
  Mapping a stack of two pages above a guard page, and the loop over its pages; the result is the
  top of the stack.
\<close>

partial_function (option) map_stack_loop :: "u64 \<Rightarrow> u64 \<Rightarrow> u64 \<Rightarrow> 'a mmu_state_scheme \<Rightarrow> (u64 \<times> 'a mmu_state_scheme) res option" where
  "map_stack_loop stop vcurrent pcurrent s =
     (if vcurrent < stop then
        (case map_page vcurrent pcurrent ((PAGE_PRESENT OR PAGE_NO_EXECUTE) OR PAGE_WRITABLE) s of
           Inl e \<Rightarrow> Some (Inl e)
         | Inr s \<Rightarrow> map_stack_loop stop (vcurrent + PAGE_SIZE) (pcurrent + PAGE_SIZE) s)
      else Some (Inr (vcurrent, s)))"

definition map_stack :: "u64 \<Rightarrow> u64 \<Rightarrow> 'a mmu_state_scheme \<Rightarrow> (u64 \<times> 'a mmu_state_scheme) res option" where
  "map_stack vbottom pbottom s =
     map_stack_loop (vbottom + STACK_SIZE + PAGE_SIZE) (vbottom + PAGE_SIZE) pbottom s"

text \<open>
  Giving back the sections below the kernel's addresses. The inner loop moves the pointer to the
  section header by 4096 headers of 64 bytes and not the page: it frees the same page again until
  what it reads there stops it.
\<close>

partial_function (option) free_pages_loop :: "bmem \<Rightarrow> ptr \<Rightarrow> u64 \<Rightarrow> 'a pf_state_scheme \<Rightarrow> (ptr \<times> 'a pf_state_scheme) option" where
  "free_pages_loop info current current_page s =
     (if current_page < segment_address (section_at info current) + segment_size (section_at info current)
      then free_pages_loop info (current + PAGE_SIZE * 64) current_page (MMU_pf_free current_page s)
      else Some (current, s))"

partial_function (option) free_sections_loop :: "bmem \<Rightarrow> ptr \<Rightarrow> ptr \<Rightarrow> 'a pf_state_scheme \<Rightarrow> 'a pf_state_scheme option" where
  "free_sections_loop info current stop s =
     (if current < stop then
        let h = section_at info current
        in if segment_size h \<noteq> 0 \<and> segment_address h < KERNEL_TEXT_START then
             Option.bind (free_pages_loop info current (segment_address h) s) (\<lambda>cs.
               free_sections_loop info (fst cs + 64) stop (snd cs))
           else free_sections_loop info (current + 64) stop s
      else Some s)"

definition free_multiboot_sections :: "bmem \<Rightarrow> 'a mmu_state_scheme \<Rightarrow> 'a mmu_state_scheme res option" where
  "free_multiboot_sections info s =
     bind_ro (Some (allocate_table s)) (\<lambda>(p3_temp_addr, s).
       let e0 = entry_ptr (mu_pml4 s) 0;
           s = dm_write e0 (set_bit 0 (pte_set_base_addr (drop_bit 12 p3_temp_addr) (dm_read e0 s))) s;
           p3_temp = entry_to_table (mu_pml4 s) 0 s;
           e1 = entry_ptr p3_temp 0;
           s = dm_write e1 (set_bit 63 (set_bit 7 (set_bit 0 (pte_set_base_addr 0 (dm_read e1 s))))) s;
           tag = mm_elf_tag (pf_map s)
       in map_option (\<lambda>s. Inr (MMU_pf_free p3_temp_addr (dm_write e0 (unset_bit 0 (dm_read e0 s)) s)))
            (free_sections_loop info (tag + 20) (tag + ucast (tag_size info tag)) s))"

section \<open>The map of physical memory\<close>

definition huge_entry :: "nat \<Rightarrow> u64 \<Rightarrow> u64" where
  "huge_entry j e = set_bit 7 (kernel_entry (of_nat j * GB) e)"

definition huge_cells :: "ptr \<Rightarrow> nat list \<Rightarrow> (u64 \<Rightarrow> u64) \<Rightarrow> (u64 \<Rightarrow> u64)" where
  "huge_cells p3 js m = fold (\<lambda>j m. m(p3 + 8 * of_nat j := huge_entry j (m (p3 + 8 * of_nat j)))) js m"

lemma of_nat_less_512: "j < 512 \<Longrightarrow> (of_nat j :: u64) < 512"
  by (simp add: word_less_nat_alt unsigned_of_nat take_bit_nat_eq_self)

lemma cell_nat_inj:
  assumes "frame_like p" and "j < 512" and "k < 512"
  shows "p + 8 * of_nat j = p + 8 * of_nat k \<longleftrightarrow> j = k"
proof -
  have "(of_nat j :: u64) = of_nat k \<longleftrightarrow> j = k"
    using assms(2,3) by (simp add: word_unat_eq_iff unsigned_of_nat take_bit_nat_eq_self)
  then show ?thesis using cell_inj [OF assms(1,1) of_nat_less_512 [OF assms(2)] of_nat_less_512 [OF assms(3)]] by simp
qed

lemma huge_cells_at:
  assumes "frame_like p3"
  shows "set js \<subseteq> {..<512} \<Longrightarrow> distinct js \<Longrightarrow> k < 512 \<Longrightarrow>
      huge_cells p3 js m (p3 + 8 * of_nat k) = (if k \<in> set js then huge_entry k (m (p3 + 8 * of_nat k)) else m (p3 + 8 * of_nat k))"
    and "\<forall>j \<in> set js. a \<noteq> p3 + 8 * of_nat j \<Longrightarrow> huge_cells p3 js m a = m a"
proof (induction js arbitrary: m)
  case (Cons j js)
  {
    case 1
    have e: "huge_cells p3 (j # js) m = huge_cells p3 js (m(p3 + 8 * of_nat j := huge_entry j (m (p3 + 8 * of_nat j))))"
      by (simp add: huge_cells_def)
    show ?case unfolding e using Cons.IH(1) 1 cell_nat_inj [OF assms, of k j] by auto
  next
    case 2
    then show ?case using Cons.IH(2) by (simp add: huge_cells_def)
  }
qed (simp_all add: huge_cells_def)

definition huge_count :: "u64 \<Rightarrow> nat" where
  "huge_count stop = (unat stop + (2 ^ 30 - 1)) div 2 ^ 30"

lemma huge_count_less: "j < huge_count stop \<longleftrightarrow> 2 ^ 30 * j < unat stop"
  unfolding huge_count_def by (auto simp: less_eq_div_iff_mult_less_eq)

lemma GB_addr:
  assumes "j \<le> 512"
  shows "unat (of_nat j * GB) = 2 ^ 30 * j"
proof -
  have "2 ^ 30 * j < 2 ^ 64" using assms by simp
  then show ?thesis by (simp add: GB_def unat_word_ariths unsigned_of_nat take_bit_nat_eq_self)
qed

lemma huge_loop_eq:
  assumes "unat stop \<le> 2 ^ 39"
  shows "i \<le> huge_count stop \<Longrightarrow> huge_loop (of_nat i * GB) stop p3 i s = Some (Inr (s\<lparr>pf_mem := huge_cells p3 [i..<huge_count stop] (pf_mem s)\<rparr>))"
proof (induction "huge_count stop - i" arbitrary: i s)
  case 0
  then have i: "i = huge_count stop" by simp
  have c: "huge_count stop \<le> 512" using assms by (simp add: huge_count_def)
  have "\<not> of_nat i * GB < stop"
    using huge_count_less [of i stop] i c GB_addr [of i] by (simp add: word_less_nat_alt)
  then show ?case by (subst huge_loop.simps) (simp add: i huge_cells_def)
next
  case (Suc n)
  then have i: "i < huge_count stop" by simp
  have c: "huge_count stop \<le> 512" using assms by (simp add: huge_count_def)
  then have i512: "i < 512" using i by simp
  have lt: "of_nat i * GB < stop" using huge_count_less [of i stop] i GB_addr [of i] i512 by (simp add: word_less_nat_alt)
  have nx: "of_nat i * GB + GB = of_nat (Suc i) * GB" by (simp add: algebra_simps)
  let ?s = "set_entry p3 (of_nat i) (\<lambda>e. set_bit 7 (kernel_entry (of_nat i * GB) e)) s"
  have "huge_loop (of_nat i * GB) stop p3 i s = huge_loop (of_nat (Suc i) * GB) stop p3 (Suc i) ?s"
    by (subst huge_loop.simps) (simp only: lt if_True map_physical_memory_huge_page_def i512 sum.case nx Suc_eq_plus1)
  also have "\<dots> = Some (Inr (?s\<lparr>pf_mem := huge_cells p3 [Suc i..<huge_count stop] (pf_mem ?s)\<rparr>))"
    by (rule Suc.hyps(1)) (use Suc.hyps(2) i in simp_all)
  also have "huge_cells p3 [Suc i..<huge_count stop] (pf_mem ?s) = huge_cells p3 [i..<huge_count stop] (pf_mem s)"
    using i by (simp add: huge_cells_def set_entry_def entry_ptr_def huge_entry_def upt_conv_Cons)
  finally show ?case by (simp add: set_entry_def)
qed

section \<open>The first tables\<close>

lemma huge_no_child: "child (huge_entry j e) = None" "pte_huge (huge_entry j e)"
  by (simp_all add: child_def huge_entry_def pte_huge_def bit_simps)

lemma pte_base_set_high: "52 \<le> n \<Longrightarrow> pte_base_addr (set_bit n e) = pte_base_addr e"
  by (rule bit_eqI) (auto simp: pte_base_addr_def bit_simps)

lemma kernel_entry_child:
  assumes "frame_like f"
  shows "child (kernel_entry f 0) = Some f" "\<not> pte_huge (kernel_entry f 0)"
proof -
  have "unat f < 2 ^ 52" using assms by (simp add: frame_like_def)
  then have rt: "push_bit 12 (drop_bit 12 f AND mask 40) = f"
    using assms by (intro frame_roundtrip) (simp_all add: frame_like_def)
  have base: "pte_base_addr (kernel_entry f 0) = drop_bit 12 f AND mask 40"
    by (simp add: kernel_entry_def pte_base_of_set pte_base_set_high)
  have h: "\<not> pte_huge (kernel_entry f 0)" "pte_present (kernel_entry f 0)"
    by (simp_all add: kernel_entry_def pte_huge_def pte_present_def bit_simps pte_set_base_flags)
  show "child (kernel_entry f 0) = Some f" "\<not> pte_huge (kernel_entry f 0)"
    using base h rt by (simp_all add: child_def)
qed

text \<open>A top table whose only entry is the map of physical memory.\<close>

definition first_tables :: "(u64 \<Rightarrow> u64) \<Rightarrow> u64 \<Rightarrow> u64 \<Rightarrow> bool" where
  "first_tables m root p3 \<longleftrightarrow> frame_like root \<and> frame_like p3 \<and> root \<noteq> p3 \<and>
     (\<forall>i < 512. m (root + 8 * i) = (if i = 256 then kernel_entry p3 0 else 0)) \<and>
     (\<forall>i < 512. child (m (p3 + 8 * i)) = None)"

lemma first_tables_tbl:
  assumes "first_tables m root p3" and "vpath p"
  shows "tbl m root p = (if p = [] then Some root else if p = [256] then Some p3 else None)"
proof (cases p)
  case (Cons i q)
  have i: "i < 512" using assms(2) Cons by (simp add: vpath_def)
  have "tbl m p3 q = (if q = [] then Some p3 else None)"
    using assms Cons by (cases q) (auto simp: first_tables_def vpath_def)
  moreover have "child (m (root + 8 * i)) = (if i = 256 then Some p3 else None)"
    using assms(1) i kernel_entry_child by (simp add: first_tables_def)
  ultimately show ?thesis using Cons by auto
qed simp

lemma first_tables_pt_ok:
  assumes f: "first_tables m root p3"
  shows "pt_ok m root {root, p3}" and "tables_open m root" and "eff_pte m root v = 0"
proof -
  note t = first_tables_tbl [OF f]
  have "\<not> pte_huge (m (r + 8 * i))" if "vpath (p @ [i])" "p = [] \<or> hd p \<noteq> 256" "tbl m root p = Some r" for p r i
  proof -
    have "p = []" "r = root" "i < 512" using that t [of p] f by (auto simp: vpath_snoc split: if_splits)
    then show ?thesis using f kernel_entry_child(2) by (auto simp: first_tables_def pte_huge_def)
  qed
  then show "pt_ok m root {root, p3}"
    unfolding pt_ok_def using t f by (auto simp: first_tables_def split: if_splits)
  show "tables_open m root" unfolding tables_open_def
  proof (intro allI impI)
    fix p i r assume v: "vpath (p @ [i])" "hd (p @ [i]) \<noteq> 256" and r: "tbl m root p = Some r"
    have "p = []" "r = root" "i < 512" using v r t [of p] by (auto simp: vpath_snoc split: if_splits)
    then show "\<not> bit (m (r + 8 * i)) 63 \<and> (hd (p @ [i]) < 256 \<longrightarrow> pte_present (m (r + 8 * i)) \<longrightarrow> open_entry (m (r + 8 * i)))"
      using f v(2) by (simp add: first_tables_def pte_present_def)
  qed
  show "eff_pte m root v = 0" using t [OF vpath_table_path(1)] by (simp add: eff_pte_def) (simp add: table_path_def)
qed

lemma alloc_nonnull:
  assumes inv: "pf_inv s A []" and f: "f \<in> A" "frame_usable (pf_map s) f"
    and r: "MMU_pf_alloc s = Inr (g, s')" and live: "has_region s'"
  shows "g \<noteq> NULL"
proof -
  have "f < pf_current s \<and> f < rg_end (mm_regions (pf_map s) ! unat (pf_region s))"
    using pf_invD(3) [OF inv] f by (auto simp: bump_used_def frame_usable_def)
  then have "bump_used s {f, NULL}" by (auto simp: bump_used_def word_gt_0)
  moreover have "check_addr s = Some (Inr (g, s'))"
    using r pf_invD(9) [OF inv] by (auto simp: MMU_pf_alloc_def pop_free_pf_def split: option.splits)
  ultimately show ?thesis using check_addr_spec [OF pf_invD(1) [OF inv] _ _ live] by blast
qed

lemma first_two_frames:
  assumes inv: "pf_inv s {} []" and a: "MMU_pf_alloc s = Inr (f, s1)" and b: "MMU_pf_alloc (s1\<lparr>pf_mem := m\<rparr>) = Inr (g, s2)"
    and live: "has_region s2"
  shows "pf_inv s2 {f, g} []" "f \<noteq> g" "g \<noteq> NULL" "frame_like f" "frame_like g" "pf_mem s2 = m" "pf_map s2 = pf_map s"
    "frame_usable (pf_map s) f" "frame_usable (pf_map s) g" "pf_mem s1 = pf_mem s" "pf_map s1 = pf_map s"
proof -
  let ?s1 = "s1\<lparr>pf_mem := m\<rparr>"
  note wf1 = MMU_pf_alloc_wf [OF pf_invD(1) [OF inv] a]
  have "has_region ?s1" using MMU_pf_alloc_wf [OF _ b] wf1 live by simp
  then have l1: "has_region s1" by simp
  from MMU_pf_alloc_inv [OF inv a l1] have i1: "pf_inv s1 {f} []" "pf_mem s1 = pf_mem s" "pf_map s1 = pf_map s"
    and uf: "frame_usable (pf_map s) f" by auto
  have j1: "pf_inv ?s1 {f} []" using pf_inv_write [OF i1(1)] by simp
  from MMU_pf_alloc_inv [OF j1 b live] have i2: "g \<notin> {f}" "pf_inv s2 {g, f} []" "pf_mem s2 = m" "pf_map s2 = pf_map s1"
    and ug: "frame_usable (pf_map s) g" using i1(3) by auto
  show "pf_inv s2 {f, g} []" using i2(2) by (simp add: insert_commute)
  show "f \<noteq> g" "pf_mem s2 = m" "pf_map s2 = pf_map s" "pf_mem s1 = pf_mem s" "pf_map s1 = pf_map s" using i1 i2 by auto
  show u: "frame_usable (pf_map s) f" "frame_usable (pf_map s) g" using uf ug by simp_all
  note owned_bounds [OF pf_invD(4) [OF inv]]
  with usable_owned [OF uf] usable_owned [OF ug] show "frame_like f" "frame_like g" by (auto simp: frame_like_def)
  show "g \<noteq> NULL" by (rule alloc_nonnull [OF j1, where f = f, OF _ _ b live]) (simp_all add: i1(3) uf)
qed

text \<open>The end of physical memory as the map gives it.\<close>

definition memory_end :: "memory_map \<Rightarrow> u64" where
  "memory_end M = rg_end (mm_regions M ! (unat (mm_num_regions M) - 1))"

lemma last_region:
  assumes "map_wf M"
  shows "\<exists>r. region_at M (mm_num_regions M - 1) = Inr r \<and> rg_end r = memory_end M"
proof -
  note w = map_wfD(1,2,3) [OF assms]
  have "1 \<le> mm_num_regions M" using w(2) by (simp add: word_le_nat_alt)
  then have "unat (mm_num_regions M - 1) = unat (mm_num_regions M) - 1" by (simp add: unat_sub)
  with w show ?thesis by (simp add: region_at_def memory_end_def)
qed

text \<open>
  The boot information is found in whole pages of its own, apart from the kernel. Then no frame reaches into it.
\<close>

definition info_apart :: "memory_map \<Rightarrow> bool" where
  "info_apart M \<longleftrightarrow> page_aligned (rg_start (mm_multiboot M)) \<and>
     (rg_end (mm_kernel M) \<le> rg_start (mm_multiboot M) \<or> rg_end (mm_multiboot M) \<le> rg_start (mm_kernel M))"

lemma owned_off_info:
  assumes wf: "map_wf M" and ia: "info_apart M" and f: "frame_owned M f" and x: "x - f < PAGE_SIZE"
  shows "\<not> in_region x (mm_multiboot M)"
proof
  note w = map_wfD(4,5) [OF wf]
  note o = owned_bounds [OF wf f]
  assume "in_region x (mm_multiboot M)"
  then have r: "unat (rg_start (mm_multiboot M)) \<le> unat x" "unat x < unat (rg_end (mm_multiboot M))"
    using w(2) by (simp_all add: in_region_wf word_le_nat_alt word_less_nat_alt)
  define d where "d = unat (x - f)"
  have d: "d < 4096" using x by (simp add: d_def word_less_nat_alt PAGE_SIZE_def)
  have "unat (f + (x - f)) = unat f + d" unfolding unat_word_ariths d_def [symmetric] using o(1) d by simp
  then have ux: "unat x = unat f + d" by simp
  have fm: "unat f mod 4096 = 0" and bm: "unat (rg_start (mm_multiboot M)) mod 4096 = 0"
    using o(2) ia by (simp_all add: page_aligned_unat info_apart_def)
  have "\<not> unat f < unat (rg_start (mm_multiboot M))" using aligned_above [OF fm bm _ d] r(1) ux by auto
  then have mb: "in_region f (mm_multiboot M)" using r(2) ux w(2) by (simp add: in_region_wf word_le_nat_alt word_less_nat_alt)
  with f have "in_region f (mm_kernel M)" by (auto simp: frame_owned_def frame_usable_def)
  with mb ia w show False by (auto simp: info_apart_def in_region_wf word_le_nat_alt word_less_nat_alt)
qed

definition clear_page :: "ptr \<Rightarrow> (u64 \<Rightarrow> u64) \<Rightarrow> (u64 \<Rightarrow> u64)" where
  "clear_page f m = (\<lambda>a. if a - f < PAGE_SIZE then 0 else m a)"

text \<open>The memory after the tables are set up: the boot table is changed as well.\<close>

definition tables_mem :: "ptr \<Rightarrow> ptr \<Rightarrow> ptr \<Rightarrow> nat \<Rightarrow> (u64 \<Rightarrow> u64) \<Rightarrow> (u64 \<Rightarrow> u64)" where
  "tables_mem p4 f g n m =
     (let m = huge_cells g [0..<n] (clear_page g (clear_page f m));
          m = m(p4 + 8 * 256 := kernel_entry g (m (p4 + 8 * 256)))
      in m(f + 8 * 256 := kernel_entry g (m (f + 8 * 256))))"

lemma tables_mem_ok:
  assumes f: "frame_like f" and g: "frame_like g" and p4: "frame_like p4" and ne: "f \<noteq> g" "p4 \<noteq> f" "p4 \<noteq> g" and n: "n \<le> 512"
  shows "first_tables (tables_mem p4 f g n m) f g" and "j < n \<Longrightarrow> tables_mem p4 f g n m (g + 8 * of_nat j) = huge_entry j 0"
proof -
  let ?h = "huge_cells g [0..<n] (clear_page g (clear_page f m))"
  have c: "clear_page g (clear_page f m) (t + 8 * i) = 0" if "t \<in> {f, g}" "i < 512" for t i
    using that cell_in_page f g by (auto simp: clear_page_def)
  have hf: "?h (f + 8 * i) = 0" if "i < 512" for i
  proof -
    have "f + 8 * i \<noteq> g + 8 * of_nat j" if "j < n" for j
      using cell_inj [OF f g \<open>i < 512\<close> of_nat_less_512, of j] ne(1) that n by simp
    then have "?h (f + 8 * i) = clear_page g (clear_page f m) (f + 8 * i)"
      by (intro huge_cells_at(2) [OF g]) auto
    with c [of f i] that show ?thesis by simp
  qed
  have hg: "?h (g + 8 * of_nat j) = (if j < n then huge_entry j 0 else 0)" if "j < 512" for j
  proof -
    have "set [0..<n] \<subseteq> {..<512}" using n by auto
    from huge_cells_at(1) [OF g this distinct_upt that] c [of g "of_nat j"] of_nat_less_512 [OF that] show ?thesis by simp
  qed
  have x: "t + 8 * i \<noteq> p4 + 8 * 256" if "t \<in> {f, g}" "i < 512" for t i
    using that cell_inj [OF _ p4, of t i 256] f g ne by auto
  have y: "g + 8 * i \<noteq> f + 8 * 256" if "i < 512" for i
    using that cell_inj [OF g f, of i 256] ne by auto
  have z: "f + 8 * i = f + 8 * 256 \<longleftrightarrow> i = 256" if "i < 512" for i
    using that cell_inj [OF f f, of i 256] by auto
  have tf: "tables_mem p4 f g n m (f + 8 * i) = (if i = 256 then kernel_entry g 0 else 0)" if "i < 512" for i
    using that hf [of i] hf [of 256] x [of f i] x [of f 256] z [of i] by (auto simp: tables_mem_def Let_def)
  have tg: "tables_mem p4 f g n m (g + 8 * of_nat j) = (if j < n then huge_entry j 0 else 0)" if "j < 512" for j
    using that hg [of j] x [of g "of_nat j"] y [of "of_nat j"] of_nat_less_512 [OF that] by (simp add: tables_mem_def Let_def)
  have "child (tables_mem p4 f g n m (g + 8 * i)) = None" if "i < 512" for i
    using tg [of "unat i"] that huge_no_child by (simp add: word_less_nat_alt)
  with tf f g ne show "first_tables (tables_mem p4 f g n m) f g" by (simp add: first_tables_def)
  show "j < n \<Longrightarrow> tables_mem p4 f g n m (g + 8 * of_nat j) = huge_entry j 0" using tg [of j] n by simp
qed

text \<open>Only the two frames and one entry of the boot table are written.\<close>

lemma tables_mem_frame:
  assumes f: "frame_like f" and g: "frame_like g" and p4: "frame_like p4" and n: "n \<le> 512"
    and x: "tables_mem p4 f g n m x \<noteq> m x"
  shows "\<exists>h \<in> {f, g, p4}. x - h < PAGE_SIZE"
proof (rule ccontr)
  assume "\<not> (\<exists>h \<in> {f, g, p4}. x - h < PAGE_SIZE)"
  then have o: "\<not> x - f < PAGE_SIZE" "\<not> x - g < PAGE_SIZE" "\<not> x - p4 < PAGE_SIZE" by simp_all
  have i: "(h + 8 * i) - h < PAGE_SIZE" if "frame_like h" "i < 512" for h i
    using cell_in_page [OF that(1) that] by blast
  have "x \<noteq> f + 8 * 256" "x \<noteq> p4 + 8 * 256" using o i [OF f, of 256] i [OF p4, of 256] by auto
  moreover have "\<forall>j \<in> set [0..<n]. x \<noteq> g + 8 * of_nat j" using o(2) i [OF g of_nat_less_512] n by auto
  then have "huge_cells g [0..<n] (clear_page g (clear_page f m)) x = clear_page g (clear_page f m) x"
    by (rule huge_cells_at(2) [OF g])
  ultimately show False using x o by (simp add: tables_mem_def Let_def clear_page_def)
qed

lemma map_physical_memory_eq:
  assumes wf: "bump_wf s" and e: "unat (memory_end (pf_map s)) \<le> 2 ^ 39"
  shows "map_physical_memory f s = Some (bind_res (MMU_pf_alloc s) (\<lambda>(g, s').
     Inr (s'\<lparr>pf_mem := (let m = huge_cells g [0..<huge_count (memory_end (pf_map s))] (if g = NULL then pf_mem s' else clear_page g (pf_mem s'));
         m = m(old_pml4 s + 8 * 256 := kernel_entry g (m (old_pml4 s + 8 * 256)))
       in m(f + 8 * 256 := kernel_entry g (m (f + 8 * 256))))\<rparr>)))"
proof (cases "MMU_pf_alloc s")
  case (Inr gs)
  obtain g s' where gs: "gs = (g, s')" by (cases gs)
  obtain c r p where s': "s' = s\<lparr>pf_current := c, pf_region := r, pf_free_pool := p\<rparr>"
    using MMU_pf_alloc_frame [OF wf] Inr gs by blast
  then have fld: "pf_map s' = pf_map s" "old_pml4 s' = old_pml4 s" by simp_all
  obtain rg where rg: "region_at (pf_map s) (mm_num_regions (pf_map s) - 1) = Inr rg" "rg_end rg = memory_end (pf_map s)"
    using last_region wf by (auto simp: bump_wf_def)
  define s1 where "s1 = (if g = NULL then s' else memset_allow_null g PAGE_SIZE s')"
  have s1: "pf_map s1 = pf_map s" "old_pml4 s1 = old_pml4 s" "s1 = s'\<lparr>pf_mem := (if g = NULL then pf_mem s' else clear_page g (pf_mem s'))\<rparr>"
    using fld by (simp_all add: s1_def memset_allow_null_def clear_page_def)
  have hl: "huge_loop 0 (memory_end (pf_map s)) g 0 s1 = Some (Inr (s1\<lparr>pf_mem := huge_cells g [0..<huge_count (memory_end (pf_map s))] (pf_mem s1)\<rparr>))"
    using huge_loop_eq [OF e, of 0 g s1] by simp
  show ?thesis
    unfolding map_physical_memory_def Inr gs
    by (simp add: s1_def [symmetric] s1(1,2) rg hl set_entry_def entry_ptr_def PML4_MMAP_INDEX_def Let_def)
      (simp add: s1(3))
qed (simp add: map_physical_memory_def)

section \<open>The sections of the kernel\<close>

text \<open>The loop over the headers is a walk over the list of sections.\<close>

fun map_sections :: "elf_section_header list \<Rightarrow> 'a mmu_state_scheme \<Rightarrow> 'a mmu_state_scheme res" where
  "map_sections [] s = Inr s"
| "map_sections (h # hs) s = bind_res (map_section h s) (map_sections hs)"

lemma remap_loop_eq:
  assumes "unat a + 20 + 64 * length hs + 64 < 2 ^ 64" and "\<forall>k < length hs. section_at info (a + 20 + of_nat (64 * k)) = hs ! k"
  shows "k \<le> length hs \<Longrightarrow> remap_loop info (a + 20 + of_nat (64 * k)) (a + of_nat (20 + 64 * length hs)) s = Some (map_sections (drop k hs) s)"
proof (induction "length hs - k" arbitrary: k s)
  case 0
  then have k: "k = length hs" by simp
  have "a + 20 + of_nat (64 * k) = a + of_nat (20 + 64 * length hs)" by (simp add: k)
  then show ?case by (subst remap_loop.simps) (simp only: less_irrefl if_False k drop_all order_refl map_sections.simps)
next
  case (Suc n)
  then have k: "k < length hs" by simp
  have e: "a + 20 + of_nat (64 * j) = a + of_nat (20 + 64 * j)" for j by simp
  have u: "unat (a + of_nat (20 + 64 * j)) = unat a + (20 + 64 * j)" if "j \<le> length hs" for j
    by (rule record_addr [OF _ refl]) (use assms(1) that in simp)
  have lt: "a + 20 + of_nat (64 * k) < a + of_nat (20 + 64 * length hs)"
    unfolding e word_less_nat_alt u [OF Suc.prems] u [OF order_refl] using k by simp
  have nx: "a + 20 + of_nat (64 * k) + 64 = a + 20 + of_nat (64 * Suc k)" by simp
  have h: "section_at info (a + 20 + of_nat (64 * k)) = hs ! k" using assms(2) k by blast
  have ih: "remap_loop info (a + 20 + of_nat (64 * Suc k)) (a + of_nat (20 + 64 * length hs)) s' = Some (map_sections (drop (Suc k) hs) s')"
    for s' :: "'a mmu_state_scheme"
    by (rule Suc.hyps(1)) (use Suc.hyps(2) k in simp_all)
  have "remap_loop info (a + 20 + of_nat (64 * k)) (a + of_nat (20 + 64 * length hs)) s = Some (bind_res (map_section (hs ! k) s) (map_sections (drop (Suc k) hs)))"
    unfolding remap_loop.simps [of info "a + 20 + of_nat (64 * k)"] h nx ih
    by (simp only: lt if_True) (cases "map_section (hs ! k) s", simp_all)
  then show ?case using k by (simp add: Cons_nth_drop_Suc [symmetric])
qed

lemma remap_elf_sections_eq:
  assumes "tag_at info (mm_elf_tag (pf_map s)) (Elf_Tag (mm_elf_tag (pf_map s)) hs)"
  shows "remap_elf_sections info s = Some (map_sections hs s)"
proof -
  let ?a = "mm_elf_tag (pf_map s)"
  have t: "unat ?a + 20 + 64 * length hs + 64 < 2 ^ 64" "\<forall>k < length hs. section_at info (?a + 20 + of_nat (64 * k)) = hs ! k"
    "unat (tag_size info ?a) = 20 + 64 * length hs"
    using assms by (auto simp: tag_at_def)
  have "ucast (tag_size info ?a) = (of_nat (20 + 64 * length hs) :: u64)" using t(3) ucast_is_of_nat by metis
  then show ?thesis using remap_loop_eq [OF t(1,2), of 0 s] by (simp add: remap_elf_sections_def Let_def)
qed

text \<open>
  Sections as the linker lays them out: on page boundaries in the last two gigabytes, not sharing pages.
\<close>

definition kernel_section :: "elf_section_header \<Rightarrow> bool" where
  "kernel_section h \<longleftrightarrow> segment_size h \<noteq> 0 \<and> segment_address h \<ge> KERNEL_TEXT_START"

definition in_section :: "u64 \<Rightarrow> elf_section_header \<Rightarrow> bool" where
  "in_section v h \<longleftrightarrow> (\<exists>k. 4096 * k < unat (segment_size h) \<and> same_page v (page_at (segment_address h) k))"

definition sections_apart :: "elf_section_header list \<Rightarrow> bool" where
  "sections_apart hs \<longleftrightarrow>
     (\<forall>h \<in> set hs. kernel_section h \<longrightarrow> page_aligned (segment_address h) \<and>
        unat (segment_address h) + unat (segment_size h) + 4096 \<le> 2 ^ 64) \<and>
     sorted_wrt (\<lambda>h h'. kernel_section h \<longrightarrow> kernel_section h' \<longrightarrow> (\<forall>v. \<not> (in_section v h \<and> in_section v h'))) hs"

lemma high_index: "v \<ge> KERNEL_TEXT_START \<Longrightarrow> pml4_index v = 511"
proof -
  assume "v \<ge> KERNEL_TEXT_START"
  then have b: "0xffffffff80000000 \<le> unat v" by (simp add: word_le_nat_alt KERNEL_TEXT_START_def)
  have m: "(0x1FF :: u64) = mask 9" by (simp add: mask_eq_exp_minus_1)
  have "unat (pml4_index v) = unat v div 2 ^ 39 mod 512"
    unfolding pml4_index_def m by (simp add: take_bit_eq_mask [symmetric] unsigned_take_bit_eq unsigned_drop_bit_eq take_bit_eq_mod drop_bit_eq_div unat_div unat_mod)
  moreover have "unat v div 2 ^ 39 = 33554431"
    using b unat_bound64 [of v] by (intro div_nat_eqI) simp_all
  ultimately have "unat (pml4_index v) = 511" by simp
  then show ?thesis by (simp add: word_unat_eq_iff)
qed

lemma section_addresses:
  assumes "kernel_section h" and "unat (segment_address h) + unat (segment_size h) + 4096 \<le> 2 ^ 64"
  shows section_size: "unat (segment_size h) \<le> 2 ^ 47"
    and section_index: "\<forall>k. 4096 * k < unat (segment_size h) \<longrightarrow> page_at (segment_address h) k \<noteq> NULL \<and> pml4_index (page_at (segment_address h) k) = 511"
proof -
  have a: "0xffffffff80000000 \<le> unat (segment_address h)"
    using assms(1) by (simp add: kernel_section_def word_le_nat_alt KERNEL_TEXT_START_def)
  then show "unat (segment_size h) \<le> 2 ^ 47" using assms(2) by simp
  have "KERNEL_TEXT_START \<le> page_at (segment_address h) k" if "4096 * k < unat (segment_size h)" for k
  proof -
    have "unat (segment_address h) + 4096 * k < 2 ^ 64" using assms(2) that by linarith
    from unat_page_at [OF this] a show ?thesis by (simp add: word_le_nat_alt KERNEL_TEXT_START_def)
  qed
  then show "\<forall>k. 4096 * k < unat (segment_size h) \<longrightarrow> page_at (segment_address h) k \<noteq> NULL \<and> pml4_index (page_at (segment_address h) k) = 511"
    using high_index by (fastforce simp: KERNEL_TEXT_START_def)
qed

lemma section_pages:
  assumes "kernel_section h" and "unat (segment_address h) + unat (segment_size h) + 4096 \<le> 2 ^ 64"
  shows "unat (segment_size h) \<le> 2 ^ 47"
    and "\<forall>k. 4096 * k < unat (segment_size h) \<longrightarrow> page_at (segment_address h) k \<noteq> NULL \<and> pml4_index (page_at (segment_address h) k) \<noteq> 256"
  using section_size [OF assms] section_index [OF assms] by auto

text \<open>The entry of a page of a section.\<close>

definition section_entry :: "elf_section_header \<Rightarrow> nat \<Rightarrow> u64" where
  "section_entry h k = (page_at (segment_address h - KERNEL_TEXT_START) k OR section_flags_of h)"

lemma map_range_loop_wf:
  assumes "map_range_loop vend v p flags s = Some r"
  shows "bump_wf s \<longrightarrow> (\<forall>s'. r = Inr s' \<longrightarrow> bump_wf s' \<and> (has_region s' \<longrightarrow> has_region s))"
  using assms
proof (rule map_range_loop.raw_induct [where
    P = "\<lambda>vend v p flags s r. bump_wf s \<longrightarrow> (\<forall>s'. r = Inr s' \<longrightarrow> bump_wf s' \<and> (has_region s' \<longrightarrow> has_region s))", rotated])
  fix loop :: "u64 \<Rightarrow> u64 \<Rightarrow> u64 \<Rightarrow> u64 \<Rightarrow> 'a mmu_state_scheme \<Rightarrow> 'a mmu_state_scheme res option"
    and vend v p flags s r
  assume ih: "\<And>vend v p flags s r. loop vend v p flags s = Some r \<Longrightarrow>
      bump_wf s \<longrightarrow> (\<forall>s'. r = Inr s' \<longrightarrow> bump_wf s' \<and> (has_region s' \<longrightarrow> has_region s))"
    and r: "(if v < vend then
        (case map_page v p flags s of
           Inl e \<Rightarrow> Some (Inl e)
         | Inr s \<Rightarrow> loop vend (v + PAGE_SIZE) (p + PAGE_SIZE) flags s)
      else Some (Inr s)) = Some r"
  show "bump_wf s \<longrightarrow> (\<forall>s'. r = Inr s' \<longrightarrow> bump_wf s' \<and> (has_region s' \<longrightarrow> has_region s))"
  proof (cases "map_page v p flags s")
    case (Inr s1)
    show ?thesis
    proof (cases "v < vend")
      case True
      then have "loop vend (v + PAGE_SIZE) (p + PAGE_SIZE) flags s1 = Some r" using r Inr by simp
      from ih [OF this] map_page_wf [OF _ Inr] show ?thesis by blast
    next
      case False
      with r show ?thesis by (simp, blast)
    qed
  next
    case (Inl e)
    with r show ?thesis by (cases "v < vend") (simp, blast)+
  qed
qed

lemma map_section_wf:
  "map_section h s = Inr s' \<Longrightarrow> bump_wf s \<Longrightarrow> bump_wf s' \<and> (has_region s' \<longrightarrow> has_region s)"
proof -
  assume r: "map_section h s = Inr s'" and wf: "bump_wf s"
  show ?thesis
  proof (cases "segment_size h \<noteq> 0 \<and> segment_address h \<ge> KERNEL_TEXT_START")
    case True
    with r have "map_range_loop (segment_address h + segment_size h) (segment_address h) (segment_address h - KERNEL_TEXT_START)
        (section_flags_of h) s = Some (Inr s')"
      by (simp add: map_section_def map_range_def split: option.splits)
    from map_range_loop_wf [OF this] wf show ?thesis by blast
  next
    case False
    with r wf show ?thesis by (auto simp: map_section_def)
  qed
qed

lemma map_sections_wf:
  "map_sections hs s = Inr s' \<Longrightarrow> bump_wf s \<Longrightarrow> bump_wf s' \<and> (has_region s' \<longrightarrow> has_region s)"
proof (induction hs arbitrary: s)
  case (Cons h hs)
  then obtain s1 where "map_section h s = Inr s1" "map_sections hs s1 = Inr s'" by (auto simp: res_iff)
  with Cons.IH [of s1] Cons.prems(2) map_section_wf [of h s s1] show ?case by blast
qed simp

text \<open>Only frames and page tables change.\<close>

lemma map_range_loop_only:
  assumes "map_range_loop vend v p flags s = Some r"
  shows "\<forall>s'. r = Inr s' \<longrightarrow> bump_wf s \<longrightarrow> pf_only s s'"
proof (rule map_range_loop.raw_induct [where
      P = "\<lambda>vend v p flags s r. \<forall>s'. r = Inr s' \<longrightarrow> bump_wf s \<longrightarrow> pf_only s s'", OF _ assms], intro allI impI)
  fix map_range_loop vend v p flags and s :: "'a mmu_state_scheme" and r and s'
  assume IH: "\<And>vend v p flags (s :: 'a mmu_state_scheme) r. map_range_loop vend v p flags s = Some r \<Longrightarrow> \<forall>s'. r = Inr s' \<longrightarrow> bump_wf s \<longrightarrow> pf_only s s'"
    and r: "(if v < vend then (case map_page v p flags s of Inl e \<Rightarrow> Some (Inl e)
       | Inr s \<Rightarrow> map_range_loop vend (v + PAGE_SIZE) (p + PAGE_SIZE) flags s) else Some (Inr s)) = Some r"
    and s': "r = Inr s'" and wf: "bump_wf s"
  show "pf_only s s'"
  proof (cases "v < vend")
    case True
    with r s' obtain s1 where 1: "map_page v p flags s = Inr s1" and 2: "map_range_loop vend (v + PAGE_SIZE) (p + PAGE_SIZE) flags s1 = Some (Inr s')"
      by (auto split: sum.splits)
    from map_page_wf [OF wf 1] IH [OF 2] pf_only_map_page [OF wf 1] show ?thesis by (blast intro: pf_only_trans)
  next
    case False
    with r s' show ?thesis by simp
  qed
qed

lemma map_sections_only: "map_sections hs s = Inr s' \<Longrightarrow> bump_wf s \<Longrightarrow> pf_only s s'"
proof (induction hs arbitrary: s)
  case (Cons h hs)
  then obtain s1 where 1: "map_section h s = Inr s1" "map_sections hs s1 = Inr s'" by (auto simp: res_iff)
  have "pf_only s s1"
    using 1(1) map_range_loop_only Cons.prems(2) by (fastforce simp: map_section_def map_range_def split: if_splits option.splits)
  with Cons.IH [OF 1(2)] map_section_wf [OF 1(1) Cons.prems(2)] show ?case using pf_only_trans by blast
qed simp

lemma map_sections_ok:
  "mmu_inv s A F \<Longrightarrow> sections_apart hs \<Longrightarrow> map_sections hs s = Inr s' \<Longrightarrow> has_region s' \<Longrightarrow>
    (\<exists>A' F'. mmu_inv s' A' F' \<and> A \<subseteq> A' \<and> grows True A' (pt_root s) (pf_mem s) (pf_mem s')) \<and> has_region s \<and>
    (\<forall>h \<in> set hs. kernel_section h \<longrightarrow> (\<forall>k v. 4096 * k < unat (segment_size h) \<longrightarrow> same_page v (page_at (segment_address h) k) \<longrightarrow>
       eff_pte (pf_mem s') (pt_root s') v = section_entry h k)) \<and>
    (\<forall>v. (\<forall>h \<in> set hs. kernel_section h \<longrightarrow> \<not> in_section v h) \<longrightarrow> eff_pte (pf_mem s') (pt_root s') v = eff_pte (pf_mem s) (pt_root s) v) \<and> pt_root s' = pt_root s"
proof (induction hs arbitrary: s A F)
  case Nil
  then show ?case by (auto simp: mmu_inv_def pf_invD(2))
next
  case (Cons h hs)
  then obtain s1 where 1: "map_section h s = Inr s1" and 2: "map_sections hs s1 = Inr s'" by (auto simp: res_iff)
  have ap: "sections_apart hs" using Cons.prems(2) by (simp add: sections_apart_def)
  show ?case
  proof (cases "kernel_section h")
    case False
    with 1 have "s1 = s" by (auto simp: map_section_def kernel_section_def)
    with Cons.IH [OF Cons.prems(1) ap] 2 Cons.prems(4) False show ?thesis by auto
  next
    case True
    have nw: "unat (segment_address h) + unat (segment_size h) + 4096 \<le> 2 ^ 64" using Cons.prems(2) True by (simp add: sections_apart_def)
    note sp = section_pages [OF True nw]
    have r: "map_range (segment_address h - KERNEL_TEXT_START) (segment_address h) (segment_size h) (section_flags_of h) s = Inr s1"
      using 1 True by (auto simp: map_section_def kernel_section_def split: if_splits)
    have l1: "has_region s1"
      using map_section_wf [OF 1 mmu_invD(3) [OF Cons.prems(1)]] map_sections_wf [OF 2] Cons.prems(4) by blast
    have hi: "\<forall>k. 4096 * k < unat (segment_size h) \<longrightarrow> \<not> pml4_index (page_at (segment_address h) k) < 256"
      using section_index [OF True nw] by auto
    from map_range_spec [OF Cons.prems(1) nw sp r l1] obtain A1 F1 where i1: "mmu_inv s1 A1 F1" "A \<subseteq> A1" "pt_root s1 = pt_root s"
      and g1: "grows (open_entry (section_flags_of h) \<or> (\<forall>k. 4096 * k < unat (segment_size h) \<longrightarrow> \<not> pml4_index (page_at (segment_address h) k) < 256))
        A1 (pt_root s) (pf_mem s) (pf_mem s1)"
      and m1: "\<And>k v. 4096 * k < unat (segment_size h) \<Longrightarrow> same_page v (page_at (segment_address h) k) \<Longrightarrow>
          eff_pte (pf_mem s1) (pt_root s1) v = section_entry h k"
        "\<And>v. \<not> in_section v h \<Longrightarrow> eff_pte (pf_mem s1) (pt_root s1) v = eff_pte (pf_mem s) (pt_root s) v"
      unfolding section_entry_def in_section_def by blast
    note ih = Cons.IH [OF i1(1) ap 2 Cons.prems(4)]
    have out: "\<forall>h' \<in> set hs. kernel_section h' \<longrightarrow> \<not> in_section v h'" if "in_section v h" for v
      using Cons.prems(2) True that by (auto simp: sections_apart_def)
    have "eff_pte (pf_mem s') (pt_root s') v = section_entry h k"
      if "4096 * k < unat (segment_size h)" "same_page v (page_at (segment_address h) k)" for k v
    proof -
      have "in_section v h" using that by (auto simp: in_section_def)
      with out ih m1(1) [OF that] show ?thesis by metis
    qed
    moreover have "has_region s" by (rule pf_invD(2) [OF mmu_invD(1) [OF Cons.prems(1)]])
    moreover have "\<forall>v. (\<forall>h \<in> set (h # hs). kernel_section h \<longrightarrow> \<not> in_section v h) \<longrightarrow>
        eff_pte (pf_mem s') (pt_root s') v = eff_pte (pf_mem s) (pt_root s) v"
      using ih m1(2) True by (metis list.set_intros(1,2))
    moreover have "\<exists>A' F'. mmu_inv s' A' F' \<and> A \<subseteq> A' \<and> grows True A' (pt_root s) (pf_mem s) (pf_mem s')"
    proof -
      from ih obtain A' F' where a: "mmu_inv s' A' F'" "A1 \<subseteq> A'" "grows True A' (pt_root s1) (pf_mem s1) (pf_mem s')" by blast
      have "grows True A1 (pt_root s) (pf_mem s) (pf_mem s1)" by (rule grows_weak [OF g1]) (use hi in blast)
      from grows_trans [OF this a(3) [unfolded i1(3)] a(2)] a(1,2) i1(2) show ?thesis by blast
    qed
    moreover have "pt_root s' = pt_root s" using ih i1(3) by simp
    moreover have "\<forall>h \<in> set hs. kernel_section h \<longrightarrow> (\<forall>k v. 4096 * k < unat (segment_size h) \<longrightarrow> same_page v (page_at (segment_address h) k) \<longrightarrow>
        eff_pte (pf_mem s') (pt_root s') v = section_entry h k)" using ih by blast
    ultimately show ?thesis by simp
  qed
qed

lemma pf_inv_fields:
  assumes "pf_inv s A F" and "pf_mem s' = pf_mem s" "pf_map s' = pf_map s" "pf_free_pool s' = pf_free_pool s"
    "pf_current s' = pf_current s" "pf_region s' = pf_region s"
  shows "pf_inv s' A F"
  using assms by (simp add: pf_inv_def bump_wf_def has_region_def bump_used_def)

lemma usable_not_kernel: "frame_usable M f \<Longrightarrow> in_region p (mm_kernel M) \<Longrightarrow> p \<noteq> f"
  by (auto simp: frame_usable_def)

text \<open>
  The state in which the sections are mapped: two frames are taken, for the top table and for the map
  of physical memory, and no other page is mapped.
\<close>

definition tables_ready :: "('d, 'b) kmap_state \<Rightarrow> u64 \<Rightarrow> u64 \<Rightarrow> ('d, 'b) kmap_state \<Rightarrow> bool" where
  "tables_ready s f g t \<longleftrightarrow> mmu_inv t {f, g} [] \<and> pt_root t = f \<and> pf_map t = pf_map s \<and> (\<forall>v. eff_pte (pf_mem t) f v = 0) \<and>
     tables_open (pf_mem t) f \<and>
     (\<forall>x. pf_mem t x \<noteq> pf_mem s x \<longrightarrow> (\<exists>h \<in> {f, g, old_pml4 s}. x - h < PAGE_SIZE)) \<and>
     (\<forall>j < huge_count (memory_end (pf_map s)). pf_mem t (g + 8 * of_nat j) = huge_entry j 0)"

lemma setup_pml4_steps:
  assumes inv: "pf_inv s {} []" and e: "unat (memory_end (pf_map s)) \<le> 2 ^ 39"
    and p4: "frame_like (old_pml4 s)" "in_region (old_pml4 s) (mm_kernel (pf_map s))"
    and tag: "tag_at info (mm_elf_tag (pf_map s)) (Elf_Tag (mm_elf_tag (pf_map s)) hs)"
    and r: "setup_pml4 info handler s = Some (Inr s')" and live: "has_region s'"
  shows "\<exists>f g t s3. tables_ready s f g t \<and> map_sections hs t = Inr s3 \<and> s' = s3\<lparr>cr3 := f\<rparr> \<and> no_execute_enabled t"
proof -
  let ?s = "s\<lparr>ks_irq := IRQ_set_handler PAGE_FAULT_IRQ handler NULL (ks_irq s), no_execute_enabled := True\<rparr>"
  let ?vg = "\<lambda>f u. u\<lparr>ks_vga := VGA_remap (ks_vga u), mu_pml4 := GET_VIRT_ADDR f\<rparr>"
  have i0: "pf_inv ?s {} []" by (rule pf_inv_fields [OF inv]) simp_all
  from r obtain f s1 u s3 where a: "MMU_pf_alloc ?s = Inr (f, s1)"
    and m: "map_physical_memory f (memset_allow_null f PAGE_SIZE s1) = Some (Inr u)"
    and l: "remap_elf_sections info (?vg f u) = Some (Inr s3)" and s': "s' = s3\<lparr>cr3 := f\<rparr>"
    unfolding setup_pml4_def Let_def by (auto simp: bind_ro_Inr split: sum.splits prod.splits)
  let ?c = "s1\<lparr>pf_mem := clear_page f (pf_mem s1)\<rparr>"
  have c: "memset_allow_null f PAGE_SIZE s1 = ?c" by (simp add: memset_allow_null_def clear_page_def)
  from MMU_pf_alloc_frame [OF pf_invD(1) [OF i0] a] obtain c' r' p' where
    s1: "s1 = ?s\<lparr>pf_current := c', pf_region := r', pf_free_pool := p'\<rparr>" by blast
  have wf1: "bump_wf ?c" using MMU_pf_alloc_wf [OF pf_invD(1) [OF i0] a] by simp
  have e1: "unat (memory_end (pf_map ?c)) \<le> 2 ^ 39" using e s1 by simp
  from m [unfolded c] map_physical_memory_eq [OF wf1 e1, of f] obtain g s2 where b: "MMU_pf_alloc ?c = Inr (g, s2)"
    and u: "u = s2\<lparr>pf_mem := (let m = huge_cells g [0..<huge_count (memory_end (pf_map ?c))] (if g = NULL then pf_mem s2 else clear_page g (pf_mem s2));
         m = m(old_pml4 ?c + 8 * 256 := kernel_entry g (m (old_pml4 ?c + 8 * 256)))
       in m(f + 8 * 256 := kernel_entry g (m (f + 8 * 256))))\<rparr>"
    by (auto simp: res_iff)
  from MMU_pf_alloc_frame [OF wf1 b] obtain c2 r2 p2 where
    s2: "s2 = ?c\<lparr>pf_current := c2, pf_region := r2, pf_free_pool := p2\<rparr>" by blast
  have tag': "tag_at info (mm_elf_tag (pf_map (?vg f u))) (Elf_Tag (mm_elf_tag (pf_map (?vg f u))) hs)"
    using tag by (simp add: u s2 s1)
  from l remap_elf_sections_eq [OF tag'] have ms: "map_sections hs (?vg f u) = Inr s3" by simp
  have wf2: "bump_wf (?vg f u)" using MMU_pf_alloc_wf [OF wf1 b] by (simp add: u bump_wf_def)
  have "has_region s3" using live by (simp add: s' has_region_def)
  with map_sections_wf [OF ms wf2] have "has_region (?vg f u)" by blast
  then have l2: "has_region s2" by (simp add: u has_region_def)
  note t = first_two_frames [OF i0 a b l2]
  have mm: "pf_map s1 = pf_map s" by (simp add: s1)
  have nk: "old_pml4 s \<noteq> f" "old_pml4 s \<noteq> g" using usable_not_kernel [OF t(8)] usable_not_kernel [OF t(9)] p4(2) by simp_all
  have o: "old_pml4 ?c = old_pml4 s" "memory_end (pf_map ?c) = memory_end (pf_map s)" by (simp_all add: s1)
  have um: "pf_mem u = tables_mem (old_pml4 s) f g (huge_count (memory_end (pf_map s))) (pf_mem s1)"
    using t(3) by (simp add: u o mm tables_mem_def t(6))
  have n: "huge_count (memory_end (pf_map s)) \<le> 512" using e by (simp add: huge_count_def)
  note ok = tables_mem_ok [OF t(4,5) p4(1) t(2) nk n, where m = "pf_mem s1"]
  note fo = first_tables_pt_ok [OF ok(1)]
  have "pf_inv (?vg f u) {f, g} []"
    by (rule pf_inv_fields [OF pf_inv_write [OF t(1), of "pf_mem u"]]) (simp_all add: u)
  moreover have "\<forall>x. pf_mem (?vg f u) x \<noteq> pf_mem s x \<longrightarrow> (\<exists>h \<in> {f, g, old_pml4 s}. x - h < PAGE_SIZE)"
    using tables_mem_frame [OF t(4,5) p4(1) n, where m = "pf_mem s"] by (simp add: um s1)
  moreover have "pf_map (?vg f u) = pf_map s" by (simp add: u s2 s1)
  ultimately have "tables_ready s f g (?vg f u)"
    using fo ok(2) by (simp add: tables_ready_def mmu_inv_def pt_root_def um)
  moreover have "no_execute_enabled (?vg f u)" by (simp add: u s2 s1)
  ultimately show ?thesis using ms s' by blast
qed
text \<open>Inside a section every address lies on one of its pages, and the entry of that page leads below the kernel's addresses.\<close>

lemma same_page_drop: "drop_bit 12 v = drop_bit 12 w \<Longrightarrow> same_page v w"
proof -
  assume d: "drop_bit 12 v = drop_bit 12 w"
  have "drop_bit (n + 12) v = drop_bit (n + 12) w" for n
    using d by (simp flip: drop_bit_drop_bit)
  from d this [of 9] this [of 18] this [of 27] show ?thesis
    by (simp add: same_page_def table_path_def pt_index_def pd_index_def pdp_index_def pml4_index_def)
qed

lemma page_offset:
  assumes "page_aligned q" and "q \<le> v" and "unat v < unat q + 4096"
  shows "same_page v q" and "v = q + (v AND 0xFFF)"
proof -
  obtain a where a: "unat q = 4096 * a" using assms(1) by (metis page_aligned_unat mod_0_imp_dvd dvdE)
  then have v: "unat v div 4096 = a" using assms(2,3) by (auto simp: word_le_nat_alt intro!: div_nat_eqI)
  have p: "unat (2 ^ 12 :: u64) = 4096" by simp
  have "unat (drop_bit 12 v) = unat (drop_bit 12 q)"
    unfolding drop_bit_eq_div unat_div p a v by simp
  then have d: "drop_bit 12 v = drop_bit 12 q" by (simp add: word_unat_eq_iff)
  then show "same_page v q" by (rule same_page_drop)
  have m: "(0xFFF :: u64) = mask 12" by (simp add: mask_eq_exp_minus_1)
  have "unat (v AND 0xFFF) = unat v mod 4096"
    unfolding m by (simp add: take_bit_eq_mask [symmetric] take_bit_eq_mod unat_mod)
  moreover have "unat v = unat q + unat v mod 4096" using a v by (metis mult.commute div_mult_mod_eq)
  ultimately have "unat v = unat (q + (v AND 0xFFF))"
    using unat_bound64 [of v] unfolding unat_word_ariths by simp
  then show "v = q + (v AND 0xFFF)" by (simp add: word_unat_eq_iff)
qed

lemma section_flags_bits:
  "pte_base_addr (section_flags_of h) = 0" "bit (section_flags_of h) 0"
  "bit (section_flags_of h) 1 \<longleftrightarrow> bit (section_flags h) 0" "bit (section_flags_of h) 63 \<longleftrightarrow> \<not> bit (section_flags h) 2"
proof -
  have w: "section_flags h AND ELF_WRITE_FLAG \<noteq> 0 \<longleftrightarrow> bit (section_flags h) 0" "section_flags h AND ELF_EXEC_FLAG = 0 \<longleftrightarrow> \<not> bit (section_flags h) 2"
    using and_exp_eq_0_iff_not_bit [of "section_flags h" 0] and_exp_eq_0_iff_not_bit [of "section_flags h" 2]
    by (simp_all add: ELF_WRITE_FLAG_def ELF_EXEC_FLAG_def)
  let ?e = "\<lambda>w x. (if \<not> x then (if w then 1 OR 2 else 1) OR 0x8000000000000000 else if w then 1 OR 2 else (1 :: u64))"
  have e: "section_flags_of h = ?e (bit (section_flags h) 0) (bit (section_flags h) 2)"
    unfolding section_flags_of_def Let_def w PAGE_PRESENT_def PAGE_WRITABLE_def PAGE_NO_EXECUTE_def by simp
  have "pte_base_addr (?e w x) = 0 \<and> bit (?e w x) 0 \<and> (bit (?e w x) 1 = w) \<and> (bit (?e w x) 63 = (\<not> x))" for w x
    by (cases w; cases x) (simp_all add: pte_base_addr_def, simp_all add: mask_eq_exp_minus_1)
  then show "pte_base_addr (section_flags_of h) = 0" "bit (section_flags_of h) 0"
    "bit (section_flags_of h) 1 \<longleftrightarrow> bit (section_flags h) 0" "bit (section_flags_of h) 63 \<longleftrightarrow> \<not> bit (section_flags h) 2"
    unfolding e by blast+
qed
lemma section_translate:
  assumes h: "kernel_section h" "page_aligned (segment_address h)" "unat (segment_address h) + unat (segment_size h) + 4096 \<le> 2 ^ 64"
    and v: "segment_address h \<le> v" "unat v < unat (segment_address h) + unat (segment_size h)"
  shows "\<exists>k. 4096 * k < unat (segment_size h) \<and> same_page v (page_at (segment_address h) k) \<and>
     push_bit 12 (pte_base_addr (section_entry h k)) + (v AND 0xFFF) = v - KERNEL_TEXT_START \<and> pte_present (section_entry h k) \<and>
     bit (section_entry h k) 1 = bit (section_flags h) 0 \<and> bit (section_entry h k) 63 = (\<not> bit (section_flags h) 2)"
proof -
  let ?a = "segment_address h" and ?p = "segment_address h - KERNEL_TEXT_START"
  define k where "k = (unat v - unat ?a) div 4096"
  have va: "unat ?a \<le> unat v" using v(1) by (simp add: word_le_nat_alt)
  have k: "4096 * k \<le> unat v - unat ?a" "unat v - unat ?a < 4096 * k + 4096" using dividend_less_times_div [of 4096 "unat v - unat ?a"] by (simp_all add: k_def)
  then have ks: "4096 * k < unat (segment_size h)" using v(2) va by linarith
  have q: "unat (page_at ?a k) = unat ?a + 4096 * k" by (rule unat_page_at) (use ks h(3) in linarith)
  have al: "page_aligned (page_at ?a k)" using h(2) q by (simp add: page_aligned_unat)
  have le: "page_at ?a k \<le> v" "unat v < unat (page_at ?a k) + 4096" using k va q by (simp_all add: word_le_nat_alt)
  note off = page_offset [OF al le]
  have ge: "0xffffffff80000000 \<le> unat ?a" using h(1) by (simp add: kernel_section_def word_le_nat_alt KERNEL_TEXT_START_def)
  have up: "unat ?p = unat ?a - 0xffffffff80000000" using h(1) by (simp add: kernel_section_def unat_sub KERNEL_TEXT_START_def)
  have "unat ?a + unat (segment_size h) + 4096 \<le> 18446744073709551616" using h(3) by simp
  then have lim: "unat ?p + 4096 * k < 2147483648" using up ks ge by linarith
  have pq: "unat (page_at ?p k) = unat ?p + 4096 * k" by (rule unat_page_at) (use lim in simp)
  have "(unat ?p + 4096 * k) mod 4096 = 0"
  proof -
    obtain b where b: "unat ?a = 4096 * b" using h(2) by (metis page_aligned_unat mod_0_imp_dvd dvdE)
    have "unat ?p = 4096 * (b - 0xffffffff80000)" unfolding up b by simp
    then show ?thesis by simp
  qed
  then have pal: "page_aligned (page_at ?p k)" by (simp add: page_aligned_unat pq)
  have "push_bit 12 (pte_base_addr (section_entry h k)) = page_at ?p k"
    unfolding section_entry_def by (rule frame_base_or_flags [OF pal _ section_flags_bits(1)]) (use pq lim in simp)
  moreover have "page_at ?p k + (v AND 0xFFF) = v - KERNEL_TEXT_START"
    using off(2) by (simp add: page_at_def algebra_simps)
  moreover have "\<not> bit (page_at ?p k) 1" "\<not> bit (page_at ?p k) 63"
  proof -
    have "take_bit 12 (page_at ?p k) = 0"
      using pal by (simp add: page_aligned_unat word_unat_eq_iff take_bit_eq_mod unat_mod)
    then show "\<not> bit (page_at ?p k) 1" by (metis bit_take_bit_iff bit_0_eq bot_apply bot_bool_def one_less_numeral_iff semiring_norm(76))
    have "take_bit 63 (page_at ?p k) = page_at ?p k"
      using pq lim by (simp add: word_unat_eq_iff unsigned_take_bit_eq take_bit_nat_eq_self_iff)
    then show "\<not> bit (page_at ?p k) 63" by (metis bit_take_bit_iff less_irrefl)
  qed
  ultimately show ?thesis
    using ks off(1) section_flags_bits(2-4) [of h]
    by (intro exI [of _ k]) (simp add: section_entry_def pte_present_def bit_or_iff)
qed
text \<open>Nothing stops it but the end of memory.\<close>

lemma MMU_pf_alloc_halt:
  assumes "bump_wf s" and "MMU_pf_alloc s = Inl e"
  shows "e = OutOfMemory"
  using check_addr_outcome [OF assms(1)] assms(2) by (auto simp: MMU_pf_alloc_def pop_free_pf_def split: if_splits)

lemma map_sections_halt:
  "bump_wf s \<Longrightarrow> \<forall>h \<in> set hs. kernel_section h \<longrightarrow> unat (segment_address h) + unat (segment_size h) + 4096 \<le> 2 ^ 64 \<Longrightarrow>
    map_sections hs s = Inl e \<Longrightarrow> e = OutOfMemory"
proof (induction hs arbitrary: s)
  case (Cons h hs)
  show ?case
  proof (cases "map_section h s")
    case (Inl e')
    then have k: "kernel_section h" and r: "map_range (segment_address h - KERNEL_TEXT_START) (segment_address h) (segment_size h) (section_flags_of h) s = Inl e"
      using Cons.prems(3) by (auto simp: map_section_def kernel_section_def split: if_splits)
    have nw: "unat (segment_address h) + unat (segment_size h) + 4096 \<le> 2 ^ 64" using Cons.prems(2) k by simp
    then have e: "unat (segment_address h + segment_size h) + 4096 \<le> 2 ^ 64" by (simp add: unat_word_ariths)
    from map_range_loop_ends [OF e] obtain x where
      x: "map_range_loop (segment_address h + segment_size h) (segment_address h) (segment_address h - KERNEL_TEXT_START) (section_flags_of h) s = Some x"
      by blast
    from map_range_loop_halt [OF Cons.prems(1) e x] r x show ?thesis by (auto simp: map_range_def)
  next
    case (Inr s1)
    with Cons.prems have "map_sections hs s1 = Inl e" "bump_wf s1" using map_section_wf [OF Inr] by auto
    with Cons.IH [of s1] Cons.prems(2) show ?thesis by simp
  qed
qed simp

lemma setup_pml4_total:
  assumes wf: "bump_wf s" and e: "unat (memory_end (pf_map s)) \<le> 2 ^ 39"
    and tag: "tag_at info (mm_elf_tag (pf_map s)) (Elf_Tag (mm_elf_tag (pf_map s)) hs)"
    and hs: "\<forall>h \<in> set hs. kernel_section h \<longrightarrow> unat (segment_address h) + unat (segment_size h) + 4096 \<le> 2 ^ 64"
  shows "setup_pml4 info handler s = Some (Inl OutOfMemory) \<or> (\<exists>s'. setup_pml4 info handler s = Some (Inr s'))"
proof -
  let ?s = "s\<lparr>ks_irq := IRQ_set_handler PAGE_FAULT_IRQ handler NULL (ks_irq s), no_execute_enabled := True\<rparr>"
  have wf0: "bump_wf ?s" using wf by (simp add: bump_wf_def)
  show ?thesis
  proof (cases "MMU_pf_alloc ?s")
    case (Inl x)
    with MMU_pf_alloc_halt [OF wf0 Inl] show ?thesis by (simp add: setup_pml4_def Let_def)
  next
    case (Inr y)
    then obtain f s1 where a: "MMU_pf_alloc ?s = Inr (f, s1)" by (cases y) auto
    from MMU_pf_alloc_frame [OF wf0 a] obtain c r p where s1: "s1 = ?s\<lparr>pf_current := c, pf_region := r, pf_free_pool := p\<rparr>" by blast
    let ?c = "memset_allow_null f PAGE_SIZE s1"
    have wf1: "bump_wf ?c" using MMU_pf_alloc_wf [OF wf0 a] by (simp add: memset_allow_null_def)
    have mc: "pf_map ?c = pf_map s" by (simp add: memset_allow_null_def s1)
    with e have e1: "unat (memory_end (pf_map ?c)) \<le> 2 ^ 39" by simp
    note mp = map_physical_memory_eq [OF wf1 e1, of f]
    show ?thesis
    proof (cases "MMU_pf_alloc ?c")
      case (Inl x)
      with MMU_pf_alloc_halt [OF wf1 Inl] mp a show ?thesis by (simp add: setup_pml4_def Let_def)
    next
      case (Inr z)
      then obtain g s2 where b: "MMU_pf_alloc ?c = Inr (g, s2)" by (cases z) auto
      from MMU_pf_alloc_frame [OF wf1 b] have ms: "pf_map s2 = pf_map s" using mc by auto
      have wf2: "bump_wf s2" using MMU_pf_alloc_wf [OF wf1 b] by blast
      from mp b obtain m where m: "map_physical_memory f ?c = Some (Inr (s2\<lparr>pf_mem := m\<rparr>))" by simp
      let ?t = "s2\<lparr>pf_mem := m, ks_vga := VGA_remap (ks_vga s2), mu_pml4 := GET_VIRT_ADDR f\<rparr>"
      have t: "bump_wf ?t" "pf_map ?t = pf_map s" using wf2 ms by (simp_all add: bump_wf_def)
      have re: "remap_elf_sections info ?t = Some (map_sections hs ?t)"
        by (rule remap_elf_sections_eq) (simp add: tag ms)
      show ?thesis using map_sections_halt [OF t(1) hs]
        by (cases "map_sections hs ?t") (auto simp: setup_pml4_def a m re)
    qed
  qed
qed

text \<open>The entry for a gigabyte.\<close>

lemma huge_entry_maps:
  assumes "unat p < 2 ^ 39"
  shows "drop_bit 30 p = of_nat (unat p div 2 ^ 30)"
    and "let e = huge_entry (unat p div 2 ^ 30) 0
      in pte_present e \<and> pte_huge e \<and> bit e 1 \<and> bit e 63 \<and> push_bit 12 (pte_base_addr e) + take_bit 30 p = p"
proof -
  let ?j = "unat p div 2 ^ 30"
  have "unat (drop_bit 30 p) = ?j" unfolding drop_bit_eq_div unat_div by simp
  then show d: "drop_bit 30 p = of_nat ?j" using word_of_unat [of "drop_bit 30 p"] by simp
  have j: "?j < 512" using assms by (simp add: less_mult_imp_div_less)
  have u: "unat (of_nat ?j * GB) = 2 ^ 30 * ?j" by (rule GB_addr) (use j in simp)
  have gb: "push_bit 30 (of_nat ?j :: u64) = of_nat ?j * GB" by (simp add: push_bit_eq_mult GB_def)
  have "page_aligned (of_nat ?j * GB)" by (simp only: page_aligned_unat u) (simp add: mod_mult_left_eq)
  moreover have "unat (of_nat ?j * GB) < 2 ^ 52" using u j by simp
  ultimately have rt: "push_bit 12 (drop_bit 12 (of_nat ?j * GB) AND mask 40) = of_nat ?j * GB" by (rule frame_roundtrip)
  have b: "pte_base_addr (huge_entry ?j 0) = drop_bit 12 (of_nat ?j * GB) AND mask 40"
    by (simp add: huge_entry_def kernel_entry_def pte_base_of_set pte_base_set_high)
  have "push_bit 12 (pte_base_addr (huge_entry ?j 0)) + take_bit 30 p = push_bit 30 (drop_bit 30 p) + take_bit 30 p"
    by (simp only: b rt d gb)
  also have "\<dots> = p" by (rule bits_ident)
  finally show "let e = huge_entry ?j 0
      in pte_present e \<and> pte_huge e \<and> bit e 1 \<and> bit e 63 \<and> push_bit 12 (pte_base_addr e) + take_bit 30 p = p"
    unfolding Let_def by (simp add: huge_entry_def kernel_entry_def pte_present_def pte_huge_def bit_simps)
qed

text \<open>
  What the tables promise when they are loaded: they are well formed; a section of the kernel is found
  \<^verbatim>\<open>KERNEL_TEXT_START\<close> above its place in memory, its entry allows writing exactly when its header says so, the
  processor executes it exactly when its header says so, and writes to it only then; outside the sections and the map of
  physical memory nothing is mapped. (A write needs the write bit on all four levels, and a table made for a section
  that is not writable does not have it: a writable section that shares such a table is not.)
\<close>

definition kernel_mapped :: "elf_section_header list \<Rightarrow> ('d, 'b) kmap_state \<Rightarrow> bool" where
  "kernel_mapped hs s \<longleftrightarrow> cr3 s = pt_root s \<and> (\<exists>A F. mmu_inv s A F) \<and> tables_open (pf_mem s) (cr3 s) \<and>
     (\<forall>h \<in> set hs. kernel_section h \<longrightarrow> (\<forall>v. segment_address h \<le> v \<longrightarrow> unat v < unat (segment_address h) + unat (segment_size h) \<longrightarrow>
        translate (pf_mem s) (cr3 s) v = Some (v - KERNEL_TEXT_START) \<and>
        bit (eff_pte (pf_mem s) (cr3 s) v) 1 = bit (section_flags h) 0 \<and>
        can_execute (pf_mem s) (cr3 s) v = bit (section_flags h) 2 \<and>
        (can_write (pf_mem s) (cr3 s) v \<longrightarrow> bit (section_flags h) 0))) \<and>
     (\<forall>v. pml4_index v \<noteq> 256 \<longrightarrow> (\<forall>h \<in> set hs. kernel_section h \<longrightarrow> \<not> in_section v h) \<longrightarrow> translate (pf_mem s) (cr3 s) v = None)"

lemma setup_pml4_result:
  assumes "pf_inv s {} []" and "unat (memory_end (pf_map s)) \<le> 2 ^ 39"
    and p4: "frame_like (old_pml4 s)" "in_region (old_pml4 s) (mm_kernel (pf_map s))"
    and "tag_at info (mm_elf_tag (pf_map s)) (Elf_Tag (mm_elf_tag (pf_map s)) hs)" and ap: "sections_apart hs"
    and r: "setup_pml4 info handler s = Some (Inr s')" and live: "has_region s'"
  shows "kernel_mapped hs s' \<and> pf_map s' = pf_map s \<and>
     (info_apart (pf_map s) \<longrightarrow> (\<forall>x. in_region x (mm_multiboot (pf_map s)) \<longrightarrow> pf_mem s' x = pf_mem s x))"
proof -
  from setup_pml4_steps [OF assms(1-5) r live] obtain f g t s3 where t: "mmu_inv t {f, g} []" "pt_root t = f" "\<And>v. eff_pte (pf_mem t) f v = 0"
    and o: "tables_open (pf_mem t) f" "pf_map t = pf_map s"
    and fr: "\<And>x. pf_mem t x \<noteq> pf_mem s x \<Longrightarrow> \<exists>h \<in> {f, g, old_pml4 s}. x - h < PAGE_SIZE"
    and m: "map_sections hs t = Inr s3" and s': "s' = s3\<lparr>cr3 := f\<rparr>" unfolding tables_ready_def by blast
  have l3: "has_region s3" using live by (simp add: s' has_region_def)
  note ok = map_sections_ok [OF t(1) ap m l3]
  from ok obtain A F where i: "mmu_inv s3 A F" "{f, g} \<subseteq> A" and gr: "grows True A f (pf_mem t) (pf_mem s3)" using t(2) by blast
  have root: "pt_root s3 = f" using ok t(2) by simp
  have e: "\<And>h k v. h \<in> set hs \<Longrightarrow> kernel_section h \<Longrightarrow> 4096 * k < unat (segment_size h) \<Longrightarrow>
        same_page v (page_at (segment_address h) k) \<Longrightarrow> eff_pte (pf_mem s3) f v = section_entry h k"
    and z: "\<And>v. (\<forall>h \<in> set hs. kernel_section h \<longrightarrow> \<not> in_section v h) \<Longrightarrow> eff_pte (pf_mem s3) f v = 0"
    using ok t(2,3) root by auto
  have op: "tables_open (pf_mem s3) f" using gr o(1) by (simp add: grows_def)
  have M: "pf_map s3 = pf_map s" using map_sections_only [OF m mmu_invD(3) [OF t(1)]] o(2) by (auto simp: pf_only_def)
  have "mmu_inv s' A F" using i pf_inv_fields [of s3 A F s'] by (simp add: s' mmu_inv_def pt_root_def)
  moreover have "cr3 s' = pt_root s'" using root by (simp add: s' pt_root_def)
  moreover have "translate (pf_mem s') (cr3 s') v = Some (v - KERNEL_TEXT_START) \<and>
        bit (eff_pte (pf_mem s') (cr3 s') v) 1 = bit (section_flags h) 0 \<and>
        can_execute (pf_mem s') (cr3 s') v = bit (section_flags h) 2 \<and>
        (can_write (pf_mem s') (cr3 s') v \<longrightarrow> bit (section_flags h) 0)"
    if h: "h \<in> set hs" "kernel_section h" and v: "segment_address h \<le> v" "unat v < unat (segment_address h) + unat (segment_size h)" for h v
  proof -
    have a: "page_aligned (segment_address h)" "unat (segment_address h) + unat (segment_size h) + 4096 \<le> 2 ^ 64"
      using ap h by (simp_all add: sections_apart_def)
    from section_translate [OF h(2) a v] obtain k where k: "4096 * k < unat (segment_size h)" "same_page v (page_at (segment_address h) k)"
      "push_bit 12 (pte_base_addr (section_entry h k)) + (v AND 0xFFF) = v - KERNEL_TEXT_START" "pte_present (section_entry h k)"
      "bit (section_entry h k) 1 = bit (section_flags h) 0" "bit (section_entry h k) 63 = (\<not> bit (section_flags h) 2)" by blast
    have ev: "eff_pte (pf_mem s3) f v = section_entry h k" by (rule e [OF h k(1,2)])
    have ge: "KERNEL_TEXT_START \<le> v" using h(2) v(1) by (auto simp: kernel_section_def)
    have "can_execute (pf_mem s3) f v = bit (section_flags h) 2"
      using execute_open [OF op, of v] high_index [OF ge] k(4,6) by (simp add: ev)
    moreover have "can_write (pf_mem s3) f v \<Longrightarrow> bit (section_flags h) 0" using can_write_leaf [of "pf_mem s3" f v] k(5) by (simp add: ev)
    ultimately show ?thesis using k(3-5) by (simp add: s' translate_def ev)
  qed
  moreover have "translate (pf_mem s') (cr3 s') v = None" if "\<forall>h \<in> set hs. kernel_section h \<longrightarrow> \<not> in_section v h" for v
    using z [OF that] by (simp add: s' translate_def pte_present_def)
  moreover have "tables_open (pf_mem s') (cr3 s')" using op by (simp add: s')
  ultimately have km: "kernel_mapped hs s'" unfolding kernel_mapped_def by blast
  have "pf_mem s' x = pf_mem s x" if ia: "info_apart (pf_map s)" and x: "in_region x (mm_multiboot (pf_map s))" for x
  proof (rule ccontr)
    assume ne: "pf_mem s' x \<noteq> pf_mem s x"
    have "\<exists>h. frame_owned (pf_map s) h \<and> x - h < PAGE_SIZE"
    proof (cases "pf_mem s3 x = pf_mem t x")
      case True
      with ne fr [of x] obtain h where h: "h \<in> {f, g, old_pml4 s}" "x - h < PAGE_SIZE" by (auto simp: s')
      moreover have "frame_owned (pf_map s) (old_pml4 s)" using p4 by (simp add: frame_owned_def frame_like_def)
      moreover have "frame_owned (pf_map s) f" "frame_owned (pf_map s) g"
        using pf_invD(5) [OF mmu_invD(1) [OF t(1)]] by (simp_all add: o(2))
      ultimately show ?thesis by blast
    next
      case False
      with gr obtain h where "h \<in> A" "x - h < PAGE_SIZE" by (auto simp: grows_def)
      with pf_invD(5) [OF mmu_invD(1) [OF i(1)]] M show ?thesis by auto
    qed
    with owned_off_info [OF pf_invD(4) [OF assms(1)] ia] x show False by blast
  qed
  with km M show ?thesis by (simp add: s')
qed

text \<open>An example: one section of two pages, and the boot information of the example before.\<close>

lemma room_map_range_loop:
  "unat vend + 4096 \<le> 2 ^ 64 \<Longrightarrow> room (3 * pages_upto v vend + n) s \<Longrightarrow> \<exists>s'. map_range_loop vend v p flags s = Some (Inr s') \<and> room n s'"
proof (induction "pages_upto v vend" arbitrary: v p s)
  case 0
  then have "\<not> v < vend" using pages_upto_step by fastforce
  with 0 show ?case by (subst map_range_loop.simps) simp
next
  case (Suc k)
  have lt: "v < vend" using Suc.hyps(2) pages_upto_less [of 0 v vend] by (simp add: word_less_nat_alt)
  note st = pages_upto_step [OF lt Suc.prems(1)]
  have "3 * pages_upto v vend + n = Suc (Suc (Suc (3 * k + n)))" using Suc.hyps(2) by linarith
  with Suc.prems(2) have "room (Suc (Suc (Suc (3 * k + n)))) s" by metis
  from room_map_page [OF this, of v p flags] obtain s1 where s1: "map_page v p flags s = Inr s1" "room (3 * k + n) s1" by blast
  have "k = pages_upto (v + PAGE_SIZE) vend" using st Suc.hyps(2) by simp
  from Suc.hyps(1) [OF this Suc.prems(1), of s1 "p + PAGE_SIZE"] s1 this
  obtain s' where "map_range_loop vend (v + PAGE_SIZE) (p + PAGE_SIZE) flags s1 = Some (Inr s')" "room n s'" by metis
  then show ?case using s1(1) lt by (subst map_range_loop.simps) simp
qed

definition kmap_info :: bmem where "kmap_info a = mb_mem (a + 0x9030)"

definition kmap_example :: "(unit, unit) kmap_state" where
  "kmap_example = \<lparr>pf_mem = (\<lambda>_. 0), pf_map = big_map_example, pf_free_pool = NULL, pf_current = 0x180000,
     pf_region = 0, mu_pml4 = NULL, old_pml4 = 0x101000, cr3 = 0, no_execute_enabled = False, ks_irq = irq_example,
     ks_vga = \<lparr>vg_mem = (\<lambda>_. 0), vg_vga = 0xb8000, vg_cursor = 0, vg_fg = 7, vg_bg = 0, vg_if = False\<rparr>\<rparr>"

lemma kmap_example_tag: "tag_at kmap_info 0 (Elf_Tag 0 mb_sections)"
proof -
  have "tag_type kmap_info 0 = 9" "tag_size kmap_info 0 = 84" "section_at kmap_info 20 = mb_sections ! 0" by code_simp+
  then show ?thesis by (simp add: tag_at_def mb_sections_def MULTIBOOT_TAG_TYPE_ELF_def)
qed

text \<open>With the section of the example the tables are made while memory is left.\<close>

lemma setup_pml4_run:
  assumes a: "MMU_pf_alloc (s\<lparr>ks_irq := IRQ_set_handler PAGE_FAULT_IRQ handler NULL (ks_irq s), no_execute_enabled := True\<rparr>) = Inr (f, s1)"
    and rm: "room (Suc (6 + k)) s1" and wf: "bump_wf s" and e: "unat (memory_end (pf_map s)) \<le> 2 ^ 39"
    and tag: "tag_at info (mm_elf_tag (pf_map s)) (Elf_Tag (mm_elf_tag (pf_map s)) mb_sections)"
  shows "\<exists>s'. setup_pml4 info handler s = Some (Inr s') \<and> room k s'"
proof -
  let ?s = "s\<lparr>ks_irq := IRQ_set_handler PAGE_FAULT_IRQ handler NULL (ks_irq s), no_execute_enabled := True\<rparr>"
  let ?c = "memset_allow_null f PAGE_SIZE s1"
  have wf0: "bump_wf ?s" using wf by (simp add: bump_wf_def)
  from MMU_pf_alloc_frame [OF wf0 a] have ms1: "pf_map s1 = pf_map s" by auto
  have "room (Suc (6 + k)) ?c" using rm by (simp add: memset_allow_null_def)
  then obtain g s2 where b: "MMU_pf_alloc ?c = Inr (g, s2)" "room (6 + k) s2" using room_alloc by blast
  have wf1: "bump_wf ?c" using MMU_pf_alloc_wf [OF wf0 a] by (simp add: memset_allow_null_def)
  have e1: "unat (memory_end (pf_map ?c)) \<le> 2 ^ 39" using e by (simp add: memset_allow_null_def ms1)
  from map_physical_memory_eq [OF wf1 e1, of f] b obtain m where m: "map_physical_memory f ?c = Some (Inr (s2\<lparr>pf_mem := m\<rparr>))" by simp
  let ?t = "s2\<lparr>pf_mem := m, ks_vga := VGA_remap (ks_vga s2), mu_pml4 := GET_VIRT_ADDR f\<rparr>"
  from MMU_pf_alloc_frame [OF wf1 b(1)] have ms2: "pf_map ?t = pf_map s" by (auto simp: memset_allow_null_def ms1)
  have "room (3 * pages_upto 0xffffffff80100000 0xffffffff80102000 + k) ?t" using b(2) by (simp add: pages_upto_def room_def bump_core_def)
  from room_map_range_loop [OF _ this] obtain s3 where
    "map_range_loop 0xffffffff80102000 0xffffffff80100000 0x100000 (section_flags_of (mb_sections ! 0)) ?t = Some (Inr s3)" "room k s3" by auto
  then have "map_sections mb_sections ?t = Inr s3" "room k (s3\<lparr>cr3 := f\<rparr>)"
    by (auto simp: mb_sections_def map_section_def map_range_def KERNEL_TEXT_START_def room_def bump_core_def)
  moreover have "remap_elf_sections info ?t = Some (map_sections mb_sections ?t)"
    by (rule remap_elf_sections_eq) (use ms2 tag in simp)
  ultimately show ?thesis by (simp add: setup_pml4_def a m)
qed

lemma kmap_example_runs: "\<exists>s'. setup_pml4 kmap_info handler kmap_example = Some (Inr s') \<and> has_region s'"
proof -
  let ?s = "kmap_example\<lparr>ks_irq := IRQ_set_handler PAGE_FAULT_IRQ handler NULL (ks_irq kmap_example), no_execute_enabled := True\<rparr>"
  have "room (Suc (Suc (6 + 0))) ?s" by (intro room_big) (simp_all add: kmap_example_def)
  then obtain f s1 where a: "MMU_pf_alloc ?s = Inr (f, s1)" "room (Suc (6 + 0)) s1" using room_alloc by blast
  have "bump_wf kmap_example" "unat (memory_end (pf_map kmap_example)) \<le> 2 ^ 39"
    "tag_at kmap_info (mm_elf_tag (pf_map kmap_example)) (Elf_Tag (mm_elf_tag (pf_map kmap_example)) mb_sections)"
    using big_map_wf kmap_example_tag
    by (simp_all add: bump_wf_def page_aligned_def PAGE_SIZE_def memory_end_def kmap_example_def big_map_example_def map_example_def)
  from setup_pml4_run [OF a this] room_region show ?thesis by blast
qed

section \<open>Properties\<close>


text \<open>
  The map of physical memory: while there is memory left \<^verbatim>\<open>map_physical_memory\<close> ends, for physical memory
  up to 512 GB, and afterwards the new top table leads to a table whose entries cover all of it: for every address
  below the end of the last region the entry for its gigabyte is a present huge page at that gigabyte, for data only.
\<close>

theorem map_physical_memory_covers:
  assumes inv: "pf_inv s {f} []" and uf: "frame_usable (pf_map s) f" and e: "unat (memory_end (pf_map s)) \<le> 2 ^ 39"
    and p4: "frame_like (old_pml4 s)" "in_region (old_pml4 s) (mm_kernel (pf_map s))" and z: "pf_mem s (f + 8 * 256) = 0"
    and r: "MMU_pf_alloc s = Inr (g, s1)" and live: "has_region s1"
  shows "\<exists>s'. map_physical_memory f s = Some (Inr s') \<and> child (pf_mem s' (f + 8 * 256)) = Some g \<and>
     (\<forall>p < memory_end (pf_map s). let e = pf_mem s' (g + 8 * drop_bit 30 p)
        in pte_present e \<and> pte_huge e \<and> bit e 1 \<and> bit e 63 \<and> push_bit 12 (pte_base_addr e) + take_bit 30 p = p)"
proof -
  let ?n = "huge_count (memory_end (pf_map s))"
  from MMU_pf_alloc_inv [OF inv r live] have gf: "g \<noteq> f" and i1: "pf_inv s1 {g, f} []" and ms: "pf_mem s1 = pf_mem s" "pf_map s1 = pf_map s"
    and ug: "frame_usable (pf_map s) g" by auto
  note g0 = alloc_nonnull [OF inv _ uf r live, simplified]
  have u: "frame_usable (pf_map s) f" "frame_usable (pf_map s) g" using uf ug by simp_all
  note owned_bounds [OF pf_invD(4) [OF inv] usable_owned]
  with u have fl: "frame_like f" "frame_like g" by (auto simp: frame_like_def)
  have nk: "old_pml4 s \<noteq> f" "old_pml4 s \<noteq> g" using usable_not_kernel [OF u(1)] usable_not_kernel [OF u(2)] p4(2) by simp_all
  define m where "m = huge_cells g [0..<?n] (clear_page g (pf_mem s))"
  define m' where "m' = (m(old_pml4 s + 8 * 256 := kernel_entry g (m (old_pml4 s + 8 * 256))))"
  have map: "map_physical_memory f s = Some (Inr (s1\<lparr>pf_mem := m'(f + 8 * 256 := kernel_entry g (m' (f + 8 * 256)))\<rparr>))"
    unfolding map_physical_memory_eq [OF pf_invD(1) [OF inv] e] r using g0 by (simp add: ms(1) m_def m'_def Let_def)
  have n: "?n \<le> 512" using e by (simp add: huge_count_def)
  have c: "clear_page g (pf_mem s) (f + 8 * 256) = 0" using z by (simp add: clear_page_def)
  have "f + 8 * 256 \<noteq> g + 8 * of_nat j" if "j < ?n" for j
    using cell_inj [OF fl, of 256 "of_nat j"] of_nat_less_512 [of j] gf that n by simp
  then have "m (f + 8 * 256) = 0" unfolding m_def using c huge_cells_at(2) [OF fl(2), of "[0..<?n]" "f + 8 * 256"] by simp
  then have mf: "m' (f + 8 * 256) = 0" using cell_inj [OF fl(1) p4(1), of 256 256] nk(1) by (auto simp: m'_def)
  have mg: "m' (g + 8 * of_nat j) = huge_entry j 0" if "j < ?n" for j
  proof -
    have j: "j < 512" "(of_nat j :: u64) < 512" using that n of_nat_less_512 [of j] by simp_all
    have "clear_page g (pf_mem s) (g + 8 * of_nat j) = 0"
      unfolding clear_page_def using cell_in_page [OF fl(2) fl(2) j(2)] by (simp only: simp_thms if_True)
    moreover have "set [0..<?n] \<subseteq> {..<512}" using n by auto
    ultimately have "m (g + 8 * of_nat j) = huge_entry j 0"
      unfolding m_def using huge_cells_at(1) [OF fl(2) _ distinct_upt j(1), of 0 ?n] that by simp
    then show ?thesis using cell_inj [OF fl(2) p4(1) j(2), of 256] nk(2) by (auto simp: m'_def)
  qed
  have "let e = (m'(f + 8 * 256 := kernel_entry g 0)) (g + 8 * drop_bit 30 p)
        in pte_present e \<and> pte_huge e \<and> bit e 1 \<and> bit e 63 \<and> push_bit 12 (pte_base_addr e) + take_bit 30 p = p"
    if "p < memory_end (pf_map s)" for p
  proof -
    have pe: "unat p < unat (memory_end (pf_map s))" using that by (simp add: word_less_nat_alt)
    then have p: "unat p < 2 ^ 39" using e by linarith
    let ?j = "unat p div 2 ^ 30"
    have j: "?j < ?n" unfolding huge_count_less by (rule le_less_trans [OF times_div_less_eq_dividend pe])
    have "g + 8 * of_nat ?j \<noteq> f + 8 * 256"
      using cell_inj [OF fl(2,1) of_nat_less_512, of ?j 256] j n gf by simp
    then have "(m'(f + 8 * 256 := kernel_entry g 0)) (g + 8 * drop_bit 30 p) = huge_entry ?j 0"
      unfolding huge_entry_maps(1) [OF p] using mg [OF j] by simp
    with huge_entry_maps(2) [OF p] show ?thesis by simp
  qed
  then show ?thesis using map mf kernel_entry_child(1) [OF fl(2)] by (auto simp: mf)
qed

theorem map_physical_memory_covers_witness:
  "\<exists>s'. map_physical_memory 0x150000 (kmap_example\<lparr>pf_current := 0x180000\<rparr>) = Some (Inr s') \<and>
     child (pf_mem s' (0x150000 + 8 * 256)) = Some 0x180000"
proof -
  have i: "pf_inv kmap_example {0x150000} []" "frame_usable (pf_map kmap_example) 0x150000" "unat (memory_end (pf_map kmap_example)) \<le> 2 ^ 39" "frame_like (old_pml4 kmap_example)"
    "in_region (old_pml4 kmap_example) (mm_kernel (pf_map kmap_example))" "pf_mem kmap_example (0x150000 + 8 * 256) = 0"
    using big_map_wf
    by (simp_all add: pf_inv_def bump_wf_def has_region_def bump_used_def page_aligned_def PAGE_SIZE_def frame_like_def frame_owned_def frame_usable_def
        memory_end_def in_region_def range_contains_addr_def kmap_example_def big_map_example_def map_example_def)
  have "MMU_pf_alloc kmap_example = Inr (0x180000, kmap_example\<lparr>pf_current := 0x181000\<rparr>)"
    by (simp add: pf_example_eval kmap_example_def big_map_example_def)
  from map_physical_memory_covers [OF i this] show ?thesis by (auto simp: has_region_def kmap_example_def big_map_example_def map_example_def)
qed

end
