(* ===== verification/Elf.thy ===== *)
theory Elf
  imports Vfs KMalloc Kernel_Map
begin

text \<open>
  Loading a program (\<^verbatim>\<open>elf.c\<close>): the header of the binary is read from a file, memory is reserved for
  every entry of its program table and filled from the file. A store to a reserved page faults, and the
  handler gives the page a frame. \<open>km_mem\<close> is the memory at virtual addresses, the user's as well as the heap's.
\<close>

section \<open>Storing to user memory\<close>

text \<open>A store by the kernel: a fault when the page is not present, and then the store is done again.\<close>

definition store_byte :: "u64 \<Rightarrow> u8 \<Rightarrow> 'a km_state_scheme \<Rightarrow> 'a km_state_scheme res" where
  "store_byte v b s =
     bind_res (if pte_present (eff_pte (pf_mem s) (pt_root s) v) then Inr s else page_fault_handler v s) (\<lambda>s.
       Inr (s\<lparr>km_mem := (km_mem s)(v := b)\<rparr>))"

fun store_bytes :: "u64 \<Rightarrow> u8 list \<Rightarrow> 'a km_state_scheme \<Rightarrow> 'a km_state_scheme res" where
  "store_bytes v [] s = Inr s"
| "store_bytes v (b # bs) s = bind_res (store_byte v b s) (store_bytes (v + 1) bs)"

section \<open>Headers\<close>

definition BITSIZE_64 :: u8 where "BITSIZE_64 = 2"
definition LITTLE_ENDIAN :: u8 where "LITTLE_ENDIAN = 1"
definition VERSION :: u8 where "VERSION = 1"
definition X86_64 :: u8 where "X86_64 = 0"
definition EXECUTABLE :: u16 where "EXECUTABLE = 2"
definition ELF_MAGIC :: "u8 list" where "ELF_MAGIC = [0x7F, 0x45, 0x4C, 0x46]"

definition le64 :: "u8 list \<Rightarrow> nat \<Rightarrow> u64" where
  "le64 b i = ucast (le32 b i) OR push_bit 32 (ucast (le32 b (i + 4)))"

record elf_common_header =
  ec_magic :: "u8 list"
  ec_bitsize :: u8
  ec_endian :: u8
  ec_version :: u8
  ec_abi :: u8
  ec_padding :: u64
  ec_exe_type :: u16
  ec_isa :: u16
  ec_elf_version :: u32

record elf_header =
  eh_common :: elf_common_header
  eh_prog_entry_pos :: u64
  eh_prog_table_pos :: u64
  eh_sec_table_pos :: u64
  eh_flags :: u32
  eh_hdr_size :: u16
  eh_prog_ent_size :: u16
  eh_prog_ent_num :: u16
  eh_sec_ent_size :: u16
  eh_sec_ent_num :: u16
  eh_sec_name_idx :: u16

record elf_prog_header =
  ph_type :: u32
  ph_flags :: u32
  ph_file_offset :: u64
  ph_load_addr :: u64
  ph_undefined :: u64
  ph_file_size :: u64
  ph_mem_size :: u64
  ph_alignment :: u64

text \<open>The structures in memory; both are free of padding.\<close>

definition elf_common_header_of :: "u8 list \<Rightarrow> elf_common_header" where
  "elf_common_header_of b =
     \<lparr>ec_magic = take 4 b, ec_bitsize = b ! 4, ec_endian = b ! 5, ec_version = b ! 6, ec_abi = b ! 7,
      ec_padding = le64 b 8, ec_exe_type = le16 b 16, ec_isa = le16 b 18, ec_elf_version = le32 b 20\<rparr>"

definition elf_header_of :: "u8 list \<Rightarrow> elf_header" where
  "elf_header_of b =
     \<lparr>eh_common = elf_common_header_of b, eh_prog_entry_pos = le64 b 24, eh_prog_table_pos = le64 b 32,
      eh_sec_table_pos = le64 b 40, eh_flags = le32 b 48, eh_hdr_size = le16 b 52, eh_prog_ent_size = le16 b 54,
      eh_prog_ent_num = le16 b 56, eh_sec_ent_size = le16 b 58, eh_sec_ent_num = le16 b 60, eh_sec_name_idx = le16 b 62\<rparr>"

definition elf_prog_header_of :: "u8 list \<Rightarrow> elf_prog_header" where
  "elf_prog_header_of b =
     \<lparr>ph_type = le32 b 0, ph_flags = le32 b 4, ph_file_offset = le64 b 8, ph_load_addr = le64 b 16, ph_undefined = le64 b 24,
      ph_file_size = le64 b 32, ph_mem_size = le64 b 40, ph_alignment = le64 b 48\<rparr>"

definition ELF_HEADER_SIZE :: nat where "ELF_HEADER_SIZE = 64"
definition ELF_PROG_HEADER_SIZE :: nat where "ELF_PROG_HEADER_SIZE = 56"

text \<open>No byte of the magic number is 0, so comparing it with \<^verbatim>\<open>strncmp\<close> is comparing all four.\<close>

definition elf_supported :: "elf_header \<Rightarrow> bool" where
  "elf_supported h \<longleftrightarrow>
     \<not> (ec_magic (eh_common h) \<noteq> ELF_MAGIC \<or>
        ec_bitsize (eh_common h) \<noteq> BITSIZE_64 \<or>
        ec_endian (eh_common h) \<noteq> LITTLE_ENDIAN \<or>
        ec_version (eh_common h) \<noteq> VERSION \<or>
        ec_abi (eh_common h) \<noteq> X86_64 \<or>
        ec_exe_type (eh_common h) \<noteq> EXECUTABLE)"

section \<open>The loader\<close>

text \<open>What is read into a local structure replaces its first bytes.\<close>

definition overwrite :: "u8 list \<Rightarrow> u8 list \<Rightarrow> u8 list" where
  "overwrite out old = out @ drop (length out) old"

text \<open>
  The loop over the program table: entry \<open>i\<close>, \<open>n\<close> entries left; \<open>ph\<close> are the bytes of the local
  \<^verbatim>\<open>prog_header\<close>, and \<open>junk\<close> what the buffers on the stack hold before they are written. An entry that is larger
  than the structure is read past its end.
\<close>

fun prog_loop ::
    "'s reader \<Rightarrow> fat_superblock \<Rightarrow> (nat \<Rightarrow> u8 list) \<Rightarrow> elf_header \<Rightarrow> nat \<Rightarrow> nat \<Rightarrow> file_t \<Rightarrow> u8 list \<Rightarrow>
     ('s, 'x) fat_state_scheme \<Rightarrow> 'a km_state_scheme \<Rightarrow> (file_t \<times> ('s, 'x) fat_state_scheme \<times> 'a km_state_scheme) res option" where
  "prog_loop rd sb junk h 0 i f ph st s = Some (Inr (f, st, s))"
| "prog_loop rd sb junk h (Suc n) i f ph st s =
     (let f = snd (FAT_file_lseek f (eh_prog_table_pos h + scast (of_nat i * ucast (eh_prog_ent_size h) :: u32)))
      in bind_ro (FAT_file_read rd sb (junk (2 * i + 1)) f (uint (eh_prog_ent_size h)) st) (\<lambda>(out, f, st).
           if length out > ELF_PROG_HEADER_SIZE then Some (Inl BadAccess)
           else
             let ph = overwrite out ph;
                 p = elf_prog_header_of ph
             in bind_ro (Some (user_allocate_range (ph_load_addr p) (ph_mem_size p) \<lparr>perm_w = True, perm_x = True\<rparr> s)) (\<lambda>s.
                  let f = snd (FAT_file_lseek f (ph_file_offset p))
                  in bind_ro (FAT_file_read rd sb (junk (2 * i + 2)) f (sint (ucast (ph_file_size p) :: u32)) st) (\<lambda>(out, f, st).
                       bind_ro (Some (store_bytes (ph_load_addr p) out s)) (\<lambda>s.
                         prog_loop rd sb junk h n (Suc i) f ph st s)))))"

text \<open>\<open>header\<close> and \<open>ph\<close> are what the local structures hold at first. Closing the file only gives its memory back.\<close>

definition ELF_mmap_binary ::
    "'s reader \<Rightarrow> fat_superblock \<Rightarrow> (u8 list \<Rightarrow> u8 list \<times> u8 list) \<Rightarrow> (nat \<Rightarrow> u8 list) \<Rightarrow> u8 list \<Rightarrow> u8 list \<Rightarrow> inode \<Rightarrow> u8 list \<Rightarrow>
     ('s, path_search) fat_state_scheme \<Rightarrow> 'a km_state_scheme \<Rightarrow> (u64 \<times> ('s, path_search) fat_state_scheme \<times> 'a km_state_scheme) res option" where
  "ELF_mmap_binary rd sb bufs junk header ph root path st s =
     bind_ro (FS_inode_for_path rd sb bufs path root st) (\<lambda>(i, st).
       case i of
         None \<Rightarrow> Some (Inl BadAccess)
       | Some i \<Rightarrow>
           bind_ro (FAT_file_read rd sb (junk 0) (FAT_file_open i) (int ELF_HEADER_SIZE) st) (\<lambda>(out, f, st).
             let h = elf_header_of (overwrite out header)
             in if \<not> elf_supported h then Some (Inr (0, st, s))
                else
                  bind_ro (prog_loop rd sb junk h (unat (eh_prog_ent_num h)) 0 f ph st s) (\<lambda>(f, st, s).
                    Some (Inr (eh_prog_entry_pos h, st, s)))))"

section \<open>Stores and the page tables\<close>

text \<open>The mark of a reserved page turns into a frame, and nothing else changes.\<close>

definition grown :: "(u64 \<Rightarrow> u64) \<Rightarrow> (u64 \<Rightarrow> u64) \<Rightarrow> bool" where
  "grown old new \<longleftrightarrow> (\<forall>w. new w = old w \<or>
     pte_allocated (old w) \<and> pte_present (new w) \<and> \<not> pte_allocated (new w) \<and>
     (\<forall>n \<in> {1, 2, 63}. bit (new w) n = bit (old w) n))"

lemma grown_refl [simp]: "grown e e"
  by (simp add: grown_def)

lemma grown_trans: "grown a b \<Longrightarrow> grown b c \<Longrightarrow> grown a c"
  unfolding grown_def by (metis (no_types, opaque_lifting))

lemma fault_wf:
  assumes "bump_wf s" and "page_fault_handler v s = Inr s'"
  shows "bump_wf s' \<and> (has_region s' \<longrightarrow> has_region s)"
proof -
  from assms(2) obtain f s1 m where a: "MMU_pf_alloc s = Inr (f, s1)" and s': "s' = s1\<lparr>pf_mem := m\<rparr>"
    by (auto simp: page_fault_handler_def dm_write_def Let_def res_iff split: if_splits)
  with MMU_pf_alloc_wf [OF assms(1) a] show ?thesis by simp
qed

lemma store_byte_wf:
  assumes "bump_wf s" and "store_byte v b s = Inr s'"
  shows "bump_wf s' \<and> (has_region s' \<longrightarrow> has_region s)"
proof -
  from assms(2) obtain t where t: "(if pte_present (eff_pte (pf_mem s) (pt_root s) v) then Inr s else page_fault_handler v s) = Inr t"
    and s': "s' = t\<lparr>km_mem := (km_mem t)(v := b)\<rparr>" by (auto simp: store_byte_def res_iff)
  have "bump_wf t \<and> (has_region t \<longrightarrow> has_region s)" using t assms(1) fault_wf [OF assms(1)] by (auto split: if_splits)
  then show ?thesis by (simp add: s' bump_wf_def has_region_def)
qed

lemma store_bytes_wf:
  "bump_wf s \<Longrightarrow> store_bytes v bs s = Inr s' \<Longrightarrow> bump_wf s' \<and> (has_region s' \<longrightarrow> has_region s)"
proof (induction bs arbitrary: v s)
  case (Cons b bs)
  then obtain s1 where "store_byte v b s = Inr s1" "store_bytes (v + 1) bs s1 = Inr s'" by (auto simp: res_iff)
  with Cons.IH [of s1] store_byte_wf [OF Cons.prems(1)] show ?case by blast
qed simp

definition backed :: "'a mmu_state_scheme \<Rightarrow> u64 \<Rightarrow> bool" where
  "backed s v \<longleftrightarrow> pte_present (eff_pte (pf_mem s) (pt_root s) v) \<or> pte_allocated (eff_pte (pf_mem s) (pt_root s) v)"

lemma fault_more:
  assumes "bump_wf s" and "page_fault_handler v (s :: 'a km_state_scheme) = Inr s'"
  shows "km_mem s' = km_mem s"
proof -
  from assms(2) obtain f s1 m where a: "MMU_pf_alloc s = Inr (f, s1)" and s': "s' = s1\<lparr>pf_mem := m\<rparr>"
    by (auto simp: page_fault_handler_def dm_write_def Let_def res_iff split: if_splits)
  from pf_only_alloc [OF assms(1) a] have "pf_only s s'" unfolding s' by (rule pf_only_trans) simp
  then show ?thesis by (auto simp: pf_only_def)
qed

lemma mmu_inv_km_mem [simp]: "mmu_inv (s\<lparr>km_mem := m\<rparr>) A F = mmu_inv s A F" "has_region (s\<lparr>km_mem := m\<rparr>) = has_region s"
  "pt_root (s\<lparr>km_mem := m\<rparr>) = pt_root s" "bump_wf (s\<lparr>km_mem := m\<rparr>) = bump_wf s"
  by (simp_all add: mmu_inv_def pf_inv_def bump_wf_def has_region_def bump_used_def pt_root_def)

text \<open>The tables stay open to the user.\<close>

definition stays_open :: "'a mmu_state_scheme \<Rightarrow> 'a mmu_state_scheme \<Rightarrow> bool" where
  "stays_open s s' \<longleftrightarrow> (tables_open (pf_mem s) (pt_root s) \<longrightarrow> tables_open (pf_mem s') (pt_root s'))"

lemma stays_open_refl [simp]: "stays_open s s" "stays_open s (s\<lparr>km_mem := m\<rparr>)" for s :: "'a km_state_scheme"
  by (simp_all add: stays_open_def)

lemma stays_open_trans: "stays_open s s1 \<Longrightarrow> stays_open s1 s2 \<Longrightarrow> stays_open s s2"
  by (simp add: stays_open_def)

lemma store_byte_spec:
  assumes inv: "mmu_inv s A F" and bk: "backed s v" and r: "store_byte v b s = Inr s'" and live: "has_region s'"
  shows "(\<exists>A' F'. mmu_inv s' A' F' \<and> A \<subseteq> A') \<and> pt_root s' = pt_root s \<and> km_mem s' = (km_mem s)(v := b) \<and>
     stays_open s s' \<and>
     grown (eff_pte (pf_mem s) (pt_root s)) (eff_pte (pf_mem s') (pt_root s)) \<and>
     (\<forall>w. \<not> same_page w v \<longrightarrow> eff_pte (pf_mem s') (pt_root s) w = eff_pte (pf_mem s) (pt_root s) w) \<and>
     pte_present (eff_pte (pf_mem s') (pt_root s) v)"
proof (cases "pte_present (eff_pte (pf_mem s) (pt_root s) v)")
  case True
  with r have "s' = s\<lparr>km_mem := (km_mem s)(v := b)\<rparr>" by (simp add: store_byte_def)
  with inv True show ?thesis by auto
next
  case False
  with r obtain s1 where f: "page_fault_handler v s = Inr s1" and s': "s' = s1\<lparr>km_mem := (km_mem s1)(v := b)\<rparr>"
    by (auto simp: store_byte_def res_iff)
  have al: "pte_allocated (eff_pte (pf_mem s) (pt_root s) v)" using bk False by (simp add: backed_def)
  have live1: "has_region s1" using live by (simp add: s')
  from page_fault_step [OF inv al f live1] obtain g where g: "frame_like g" "mmu_inv s1 (insert g A) (tl F)" "pt_root s1 = pt_root s"
    and e: "\<And>w. eff_pte (pf_mem s1) (pt_root s) w = (if same_page w v then demand_entry g (eff_pte (pf_mem s) (pt_root s) v) else eff_pte (pf_mem s) (pt_root s) w)"
    and gr: "grows True (insert g A) (pt_root s) (pf_mem s) (pf_mem s1)"
    by blast
  have same: "eff_pte (pf_mem s) (pt_root s) w = eff_pte (pf_mem s) (pt_root s) v" if "same_page w v" for w
    using that by (simp add: same_page_def eff_pte_def split: option.split)
  note de = demand_entry_fields [OF g(1)]
  have "grown (eff_pte (pf_mem s) (pt_root s)) (eff_pte (pf_mem s1) (pt_root s))"
    unfolding grown_def e using al de(1,2,4) same by auto
  moreover have "bump_wf s" using inv by (simp add: mmu_inv_def pf_inv_def)
  moreover have "same_page v v" by (simp add: same_page_def)
  moreover have "stays_open s s'" using gr g(3) by (simp add: stays_open_def grows_def s')
  ultimately show ?thesis using g(2,3) e de(1) fault_more [OF _ f] by (auto simp: s')
qed

lemma backed_grown:
  assumes "grown (eff_pte (pf_mem s) (pt_root s)) (eff_pte (pf_mem s') (pt_root s))" and "pt_root s' = pt_root s" and "backed s v"
  shows "backed s' v"
  using assms unfolding backed_def grown_def by (metis)

lemma store_bytes_spec:
  "mmu_inv s A F \<Longrightarrow> \<forall>j < length bs. backed s (v + of_nat j) \<Longrightarrow> unat v + length bs < 2 ^ 64 \<Longrightarrow>
   store_bytes v bs s = Inr s' \<Longrightarrow> has_region s' \<Longrightarrow>
   (\<exists>A' F'. mmu_inv s' A' F' \<and> A \<subseteq> A') \<and> pt_root s' = pt_root s \<and> stays_open s s' \<and>
     (\<forall>x. km_mem s' x = (if unat v \<le> unat x \<and> unat x < unat v + length bs then bs ! (unat x - unat v) else km_mem s x)) \<and>
     grown (eff_pte (pf_mem s) (pt_root s)) (eff_pte (pf_mem s') (pt_root s)) \<and>
     (\<forall>w. (\<forall>j < length bs. \<not> same_page w (v + of_nat j)) \<longrightarrow> eff_pte (pf_mem s') (pt_root s) w = eff_pte (pf_mem s) (pt_root s) w) \<and>
     (\<forall>j < length bs. pte_present (eff_pte (pf_mem s') (pt_root s) (v + of_nat j)))"
proof (induction bs arbitrary: v s A F)
  case Nil
  then have "s' = s" by simp
  moreover have "\<exists>A' F'. mmu_inv s A' F' \<and> A \<subseteq> A'" using Nil.prems(1) by blast
  ultimately show ?case by (simp add: not_less [symmetric])
next
  case (Cons b bs)
  from Cons.prems(4) obtain s1 where a: "store_byte v b s = Inr s1" and l: "store_bytes (v + 1) bs s1 = Inr s'" by (auto simp: res_iff)
  have wf: "bump_wf s" using Cons.prems(1) by (simp add: mmu_inv_def pf_inv_def)
  have wf1: "bump_wf s1" using store_byte_wf [OF wf a] by blast
  have live1: "has_region s1" using store_bytes_wf [OF wf1 l] Cons.prems(5) by blast
  have bk: "backed s v" using Cons.prems(2) by (auto dest: spec [of _ 0])
  from store_byte_spec [OF Cons.prems(1) bk a live1] obtain A1 F1 where
    1: "mmu_inv s1 A1 F1" "A \<subseteq> A1" "pt_root s1 = pt_root s" "km_mem s1 = (km_mem s)(v := b)"
    "grown (eff_pte (pf_mem s) (pt_root s)) (eff_pte (pf_mem s1) (pt_root s))"
    "\<And>w. \<not> same_page w v \<Longrightarrow> eff_pte (pf_mem s1) (pt_root s) w = eff_pte (pf_mem s) (pt_root s) w"
    "pte_present (eff_pte (pf_mem s1) (pt_root s) v)" and o1: "stays_open s s1" by blast
  have u: "unat (v + 1) = unat v + 1" using Cons.prems(3) by (simp add: unat_word_ariths)
  have sh: "v + 1 + of_nat j = v + of_nat (Suc j)" for j by simp
  have bk1: "\<forall>j < length bs. backed s1 (v + 1 + of_nat j)"
    unfolding sh using Cons.prems(2) backed_grown [OF 1(5,3)] by (metis Suc_mono length_Cons)
  from Cons.IH [OF 1(1) bk1 _ l Cons.prems(5)] u Cons.prems(3) obtain A2 F2 where
    2: "mmu_inv s' A2 F2" "A1 \<subseteq> A2" "pt_root s' = pt_root s"
    "\<And>x. km_mem s' x = (if unat v + 1 \<le> unat x \<and> unat x < unat v + 1 + length bs then bs ! (unat x - (unat v + 1)) else km_mem s1 x)"
    "grown (eff_pte (pf_mem s1) (pt_root s)) (eff_pte (pf_mem s') (pt_root s))"
    "\<And>w. \<forall>j < length bs. \<not> same_page w (v + of_nat (Suc j)) \<Longrightarrow> eff_pte (pf_mem s') (pt_root s) w = eff_pte (pf_mem s1) (pt_root s) w"
    "\<And>j. j < length bs \<Longrightarrow> pte_present (eff_pte (pf_mem s') (pt_root s) (v + of_nat (Suc j)))"
    and o2: "stays_open s1 s'"
    unfolding 1(3) sh by auto
  have "km_mem s' x = (if unat v \<le> unat x \<and> unat x < unat v + length (b # bs) then (b # bs) ! (unat x - unat v) else km_mem s x)" for x
  proof (cases "x = v")
    case False
    then have "unat x \<noteq> unat v" by (simp add: word_unat_eq_iff)
    then show ?thesis using False by (auto simp: 2(4) 1(4) nth_Cons' intro!: arg_cong [of _ _ "(!) bs"])
  qed (simp add: 2(4) 1(4))
  moreover have "eff_pte (pf_mem s') (pt_root s) w = eff_pte (pf_mem s) (pt_root s) w"
    if w: "\<forall>j < length (b # bs). \<not> same_page w (v + of_nat j)" for w
  proof -
    have "\<not> same_page w v" using w by (auto dest: spec [of _ 0])
    moreover have "\<forall>j < length bs. \<not> same_page w (v + of_nat (Suc j))" using w by (metis Suc_mono length_Cons)
    ultimately show ?thesis using 2(6) 1(6) by simp
  qed
  moreover have "pte_present (eff_pte (pf_mem s') (pt_root s) v)" using 2(5) 1(7) unfolding grown_def by metis
  then have "\<forall>j < length (b # bs). pte_present (eff_pte (pf_mem s') (pt_root s) (v + of_nat j))"
    using 2(7) by (auto simp: less_Suc_eq_0_disj)
  moreover have "A \<subseteq> A2" using 1(2) 2(2) by blast
  ultimately show ?case using 2(1,3) grown_trans [OF 1(5) 2(5)] stays_open_trans [OF o1 o2] by blast
qed

text \<open>
  The frames a run of stores takes at most: one for its first page if that has none yet, and one for every page it enters.
\<close>

definition absent_pages :: "'a mmu_state_scheme \<Rightarrow> u64 \<Rightarrow> nat \<Rightarrow> nat" where
  "absent_pages s v n = (if n = 0 then 0
     else (if pte_present (eff_pte (pf_mem s) (pt_root s) v) then 0 else 1) + ((unat v + n - 1) div 4096 - unat v div 4096))"

lemma absent_pages_le: "unat v mod 4096 = 0 \<Longrightarrow> absent_pages s v n \<le> (n + 4095) div 4096"
proof -
  assume "unat v mod 4096 = 0"
  then obtain a where a: "unat v = 4096 * a" by (metis mod_0_imp_dvd dvdE)
  have "(unat v + n - 1) div 4096 - unat v div 4096 = (n - 1) div 4096" if "n \<noteq> 0" for n
    using that unfolding a by (cases n) simp_all
  moreover have "(n + 4095) div 4096 = Suc ((n - 1) div 4096)" if "n \<noteq> 0" for n :: nat
    using that by (cases n) (simp_all add: div_add_self1)
  ultimately show ?thesis by (simp add: absent_pages_def)
qed

lemma absent_pages_step:
  assumes p: "pte_present (eff_pte (pf_mem s1) (pt_root s1) v)" and u: "unat (v + 1) = unat v + 1"
  shows "absent_pages s1 (v + 1) n + (if pte_present (eff_pte (pf_mem s) (pt_root s) v) then 0 else 1) \<le> absent_pages s v (Suc n)"
proof (cases "n = 0")
  case False
  let ?q = "unat v div 4096" and ?e = "(unat v + n) div 4096"
  have e: "absent_pages s v (Suc n) = (if pte_present (eff_pte (pf_mem s) (pt_root s) v) then 0 else 1) + (?e - ?q)"
    by (simp add: absent_pages_def)
  have f: "absent_pages s1 (v + 1) n = (if pte_present (eff_pte (pf_mem s1) (pt_root s1) (v + 1)) then 0 else 1) + (?e - (unat v + 1) div 4096)"
    using False by (simp add: absent_pages_def u)
  show ?thesis
  proof (cases "(unat v + 1) div 4096 = ?q")
    case True
    have "unat (drop_bit 12 (v + 1)) = unat (drop_bit 12 v)" using True by (simp add: drop_bit_eq_div unat_div u)
    then have "same_page (v + 1) v" by (intro same_page_drop) (simp add: word_unat_eq_iff)
    then have "eff_pte (pf_mem s1) (pt_root s1) (v + 1) = eff_pte (pf_mem s1) (pt_root s1) v"
      by (simp add: same_page_def eff_pte_def split: option.split)
    with p True show ?thesis unfolding e f u by simp
  next
    case False
    have "?q \<le> (unat v + 1) div 4096" by (rule div_le_mono) simp
    with False have "?q < (unat v + 1) div 4096" by simp
    moreover have "(unat v + 1) div 4096 \<le> ?e" by (rule div_le_mono) (use \<open>n \<noteq> 0\<close> in simp)
    moreover have "(if b then 0 else 1) + (E - Q) + (if c then 0 else 1) \<le> (if c then 0 else 1) + (E - q)"
      if "q < Q" "Q \<le> E" for b c and q Q E :: nat using that by (cases b; cases c; simp; linarith)
    ultimately show ?thesis unfolding e f by blast
  qed
qed (simp add: absent_pages_def)

lemma store_byte_room:
  assumes inv: "mmu_inv s A F" and bk: "backed s v"
    and r: "room ((if pte_present (eff_pte (pf_mem s) (pt_root s) v) then 0 else 1) + n) s"
  shows "\<exists>s'. store_byte v b s = Inr s' \<and> room n s'"
proof (cases "pte_present (eff_pte (pf_mem s) (pt_root s) v)")
  case True
  with r show ?thesis by (simp add: store_byte_def room_def bump_core_def)
next
  case False
  with bk have "pte_allocated (eff_pte (pf_mem s) (pt_root s) v)" by (simp add: backed_def)
  moreover have "room (Suc n) s" using r False by simp
  ultimately obtain s1 where "page_fault_handler v s = Inr s1" "room n s1" using room_fault [OF inv] by blast
  with False show ?thesis by (simp add: store_byte_def room_def bump_core_def)
qed

lemma store_bytes_room:
  "mmu_inv s A F \<Longrightarrow> \<forall>j < length bs. backed s (v + of_nat j) \<Longrightarrow> unat v + length bs < 2 ^ 64 \<Longrightarrow>
   room (absent_pages s v (length bs) + n) s \<Longrightarrow> \<exists>s'. store_bytes v bs s = Inr s' \<and> room n s'"
proof (induction bs arbitrary: v s A F)
  case (Cons b bs)
  have bk: "backed s v" using Cons.prems(2) by (auto dest: spec [of _ 0])
  have u: "unat (v + 1) = unat v + 1" using Cons.prems(3) by (simp add: unat_word_ariths)
  let ?c = "if pte_present (eff_pte (pf_mem s) (pt_root s) v) then 0 else 1" and ?N = "absent_pages s v (length (b # bs)) + n"
  have c: "?c \<le> absent_pages s v (length (b # bs))" by (simp add: absent_pages_def)
  have "?c + (?N - ?c) = ?N" using c by simp
  with Cons.prems(4) have "room (?c + (?N - ?c)) s" by (simp only:)
  from store_byte_room [OF Cons.prems(1) bk this] obtain s1 where 1: "store_byte v b s = Inr s1" "room (?N - ?c) s1" by blast
  from store_byte_spec [OF Cons.prems(1) bk 1(1) room_region [OF 1(2)]] obtain A1 F1 where
    2: "mmu_inv s1 A1 F1" "pt_root s1 = pt_root s" "grown (eff_pte (pf_mem s) (pt_root s)) (eff_pte (pf_mem s1) (pt_root s))"
      "pte_present (eff_pte (pf_mem s1) (pt_root s) v)" by blast
  have sh: "v + 1 + of_nat j = v + of_nat (Suc j)" for j by simp
  have bk1: "\<forall>j < length bs. backed s1 (v + 1 + of_nat j)"
    unfolding sh using Cons.prems(2) backed_grown [OF 2(3,2)] by (metis Suc_mono length_Cons)
  have "absent_pages s1 (v + 1) (length bs) + n \<le> ?N - ?c"
    using absent_pages_step [of s1 v "length bs" s] 2(2,4) u by simp
  from Cons.IH [OF 2(1) bk1 _ room_le [OF 1(2) this]] u Cons.prems(3) 1(1) show ?case by simp
qed (auto simp: absent_pages_def)

section \<open>Reserving a range\<close>

lemma user_allocate_room:
  assumes nw: "unat start + unat len + 4096 \<le> 2 ^ 64" and r: "room (3 * ((unat len + 4095) div 4096) + n) s"
  shows "\<exists>s'. user_allocate_range start len perms s = Inr s' \<and> room n s' \<and> pf_only s s'"
proof -
  have u: "unat (start + len) = unat start + unat len" using nw by (simp add: unat_word_ariths)
  then have e: "unat (start + len) + 4096 \<le> 2 ^ 64" using nw by simp
  have "room (3 * pages_upto start (start + len) + n) s" using r by (simp add: pages_upto_def u)
  from room_map_range_loop [OF e this, of 0 "user_flags perms"] obtain s' where
    l: "map_range_loop (start + len) start 0 (user_flags perms) s = Some (Inr s')" "room n s'" by blast
  moreover have "pf_only s s'" using map_range_loop_only [OF l(1)] room_wf [OF r] by blast
  ultimately show ?thesis by (simp add: user_allocate_range_eq map_range_def)
qed

text \<open>A run that changes frames, page tables and memory only.\<close>

definition mem_only :: "'a km_state_scheme \<Rightarrow> 'a km_state_scheme \<Rightarrow> bool" where
  "mem_only s s' \<longleftrightarrow> (\<exists>m c r p k. s' = s\<lparr>pf_mem := m, pf_current := c, pf_region := r, pf_free_pool := p, km_mem := k\<rparr>)"

lemma mem_only_trans:
  assumes "mem_only s s1" and "mem_only s1 s2"
  shows "mem_only s s2"
proof -
  from assms obtain m c r p k m' c' r' p' k' where
    "s1 = s\<lparr>pf_mem := m, pf_current := c, pf_region := r, pf_free_pool := p, km_mem := k\<rparr>"
    "s2 = s1\<lparr>pf_mem := m', pf_current := c', pf_region := r', pf_free_pool := p', km_mem := k'\<rparr>"
    unfolding mem_only_def by blast
  then have "s2 = s\<lparr>pf_mem := m', pf_current := c', pf_region := r', pf_free_pool := p', km_mem := k'\<rparr>" by simp
  then show ?thesis unfolding mem_only_def by blast
qed

lemma pf_only_mem_only: "pf_only s s' \<Longrightarrow> mem_only s (s'\<lparr>km_mem := k\<rparr>)" "pf_only s s' \<Longrightarrow> mem_only s s'"
  for s :: "'a km_state_scheme"
proof -
  assume "pf_only s s'"
  then obtain m c r p where s': "s' = s\<lparr>pf_mem := m, pf_current := c, pf_region := r, pf_free_pool := p\<rparr>" by (auto simp: pf_only_def)
  have w: "mem_only s (s'\<lparr>km_mem := k\<rparr>)" for k unfolding mem_only_def s' by (intro exI) simp
  show "mem_only s (s'\<lparr>km_mem := k\<rparr>)" by (rule w)
  show "mem_only s s'" using w [of "km_mem s'"] by simp
qed

lemma mem_only_refl [simp]: "mem_only s s"
  by (rule pf_only_mem_only(2)) simp

lemma fault_only:
  assumes "bump_wf s" and "page_fault_handler v s = Inr s'"
  shows "pf_only s s'"
proof -
  from assms(2) obtain f s1 m where a: "MMU_pf_alloc s = Inr (f, s1)" and s': "s' = s1\<lparr>pf_mem := m\<rparr>"
    by (auto simp: page_fault_handler_def dm_write_def Let_def res_iff split: if_splits)
  show ?thesis unfolding s' by (rule pf_only_trans [OF pf_only_alloc [OF assms(1) a]]) simp
qed

lemma store_byte_only:
  assumes "bump_wf s" and "store_byte v b s = Inr s'"
  shows "mem_only s s' \<and> bump_wf s' \<and> km_mem s' = (km_mem s)(v := b)"
proof -
  from assms(2) obtain t where t: "(if pte_present (eff_pte (pf_mem s) (pt_root s) v) then Inr s else page_fault_handler v s) = Inr t"
    and s': "s' = t\<lparr>km_mem := (km_mem t)(v := b)\<rparr>" by (auto simp: store_byte_def res_iff)
  have p: "pf_only s t" using t fault_only [OF assms(1)] by (auto split: if_splits)
  then have "km_mem t = km_mem s" by (auto simp: pf_only_def)
  moreover have "bump_wf s'" using store_byte_wf [OF assms] by blast
  ultimately show ?thesis unfolding s' using pf_only_mem_only(1) [OF p] by simp
qed

lemma store_bytes_only:
  "bump_wf s \<Longrightarrow> unat v + length bs < 2 ^ 64 \<Longrightarrow> store_bytes v bs s = Inr s' \<Longrightarrow>
   mem_only s s' \<and> bump_wf s' \<and> (\<forall>x. \<not> (unat v \<le> unat x \<and> unat x < unat v + length bs) \<longrightarrow> km_mem s' x = km_mem s x)"
proof (induction bs arbitrary: v s)
  case (Cons b bs)
  from Cons.prems(3) obtain t where t: "store_byte v b s = Inr t" "store_bytes (v + 1) bs t = Inr s'" by (auto simp: res_iff)
  note b = store_byte_only [OF Cons.prems(1) t(1)]
  have u: "unat (v + 1) = unat v + 1" using Cons.prems(2) by (simp add: unat_word_ariths)
  have i: "mem_only t s' \<and> bump_wf s' \<and> (\<forall>x. \<not> (unat (v + 1) \<le> unat x \<and> unat x < unat (v + 1) + length bs) \<longrightarrow> km_mem s' x = km_mem t x)"
    by (rule Cons.IH [OF _ _ t(2)]) (use b u Cons.prems(2) in simp_all)
  have "km_mem s' x = km_mem s x" if x: "\<not> (unat v \<le> unat x \<and> unat x < unat v + length (b # bs))" for x
  proof -
    have "x \<noteq> v" using x by auto
    moreover have "\<not> (unat (v + 1) \<le> unat x \<and> unat x < unat (v + 1) + length bs)" using x u by auto
    ultimately show ?thesis using i b by simp
  qed
  moreover have "mem_only s s'" using i b mem_only_trans by blast
  ultimately show ?case using i by blast
qed simp

lemma pml4_low:
  assumes "unat v < 2 ^ 47"
  shows "pml4_index v < 256" "pml4_index v \<noteq> 256"
proof -
  have "unat (take_bit 9 (drop_bit 39 v)) = take_bit 9 (drop_bit 39 (unat v))"
    by (simp add: unsigned_take_bit_eq unsigned_drop_bit_eq)
  then have "unat (drop_bit 39 v AND mask 9) = take_bit 9 (drop_bit 39 (unat v))"
    by (simp only: take_bit_eq_mask)
  then have "unat (drop_bit 39 v AND mask 9) = unat v div 2 ^ 39 mod 512"
    by (simp add: take_bit_eq_mod drop_bit_eq_div)
  moreover have "unat v div 2 ^ 39 < 256" using assms by simp
  ultimately have "unat (drop_bit 39 v AND mask 9) < 256" by simp
  then show "pml4_index v < 256" by (simp add: pml4_index_def mask_eq_exp_minus_1 word_less_nat_alt)
  then show "pml4_index v \<noteq> 256" by auto
qed

section \<open>Segments\<close>

text \<open>The pages of a segment, and the segments the loader gets right.\<close>

definition seg_page :: "elf_prog_header \<Rightarrow> u64 \<Rightarrow> bool" where
  "seg_page p v \<longleftrightarrow> (\<exists>k. 4096 * k < unat (ph_mem_size p) \<and> same_page v (page_at (ph_load_addr p) k))"

definition segment_ok :: "u8 list \<Rightarrow> elf_prog_header \<Rightarrow> bool" where
  "segment_ok b p \<longleftrightarrow> page_aligned (ph_load_addr p) \<and> ph_load_addr p \<noteq> NULL \<and>
     unat (ph_load_addr p) + unat (ph_mem_size p) + 4096 \<le> 2 ^ 47 \<and> unat (ph_file_size p) \<le> unat (ph_mem_size p) \<and>
     unat (ph_file_offset p) + unat (ph_file_size p) \<le> length b"

lemma segment_pages:
  assumes "segment_ok b p" and "4096 * k < unat (ph_mem_size p)"
  shows "unat (page_at (ph_load_addr p) k) = unat (ph_load_addr p) + 4096 * k"
    "page_at (ph_load_addr p) k \<noteq> NULL \<and> pml4_index (page_at (ph_load_addr p) k) < 256"
proof -
  have b: "unat (ph_load_addr p) + unat (ph_mem_size p) + 4096 \<le> 2 ^ 47" "unat (ph_load_addr p) \<noteq> 0"
    using assms(1) by (simp_all add: segment_ok_def unat_eq_0)
  show u: "unat (page_at (ph_load_addr p) k) = unat (ph_load_addr p) + 4096 * k"
    by (rule unat_page_at) (use b(1) assms(2) in simp)
  have "unat (page_at (ph_load_addr p) k) \<noteq> 0" using u b(2) by simp
  moreover have "pml4_index (page_at (ph_load_addr p) k) < 256"
    by (rule pml4_low) (use u b(1) assms(2) in simp)
  ultimately show "page_at (ph_load_addr p) k \<noteq> NULL \<and> pml4_index (page_at (ph_load_addr p) k) < 256" by auto
qed

lemma segment_byte:
  assumes ok: "segment_ok b p" and x: "unat (ph_load_addr p) \<le> unat x" "unat x < unat (ph_load_addr p) + unat (ph_mem_size p)"
  shows "seg_page p x"
proof -
  let ?a = "ph_load_addr p"
  define k where "k = (unat x - unat ?a) div 4096"
  have k: "4096 * k \<le> unat x - unat ?a" "unat x - unat ?a < 4096 * k + 4096"
    using dividend_less_times_div [of 4096 "unat x - unat ?a"] by (simp_all add: k_def)
  then have ks: "4096 * k < unat (ph_mem_size p)" using x by linarith
  note q = segment_pages(1) [OF ok ks]
  have "page_aligned ?a" using ok by (simp add: segment_ok_def)
  then have al: "page_aligned (page_at ?a k)" using q by (simp add: page_aligned_unat)
  have "page_at ?a k \<le> x" "unat x < unat (page_at ?a k) + 4096" using k q x by (simp_all add: word_le_nat_alt)
  from page_offset(1) [OF al this] ks show ?thesis unfolding seg_page_def by blast
qed

text \<open>A page of a program: reserved or with a frame, and the user may read, write and execute it.\<close>

definition program_page :: "u64 \<Rightarrow> bool" where
  "program_page e \<longleftrightarrow> (pte_present e \<or> pte_allocated e) \<and> bit e 1 \<and> bit e 2 \<and> \<not> bit e 63"

text \<open>What the processor grants: the entries on all levels let the user read, write and execute the page.\<close>

definition user_page :: "(u64 \<Rightarrow> u64) \<Rightarrow> u64 \<Rightarrow> u64 \<Rightarrow> bool" where
  "user_page m root v \<longleftrightarrow> (pte_present (eff_pte m root v) \<or> pte_allocated (eff_pte m root v)) \<and>
     grants (\<lambda>e. bit e 2) m root v \<and> grants (\<lambda>e. bit e 1) m root v \<and> grants (\<lambda>e. \<not> bit e 63) m root v"

lemma seg_page_low:
  assumes "segment_ok b p" and "seg_page p v"
  shows "pml4_index v < 256"
proof -
  from assms(2) obtain k where "4096 * k < unat (ph_mem_size p)" "same_page v (page_at (ph_load_addr p) k)" by (auto simp: seg_page_def)
  with segment_pages(2) [OF assms(1)] show ?thesis by (auto simp: same_page_def table_path_def)
qed

lemma program_user_page:
  assumes o: "tables_open m root" and v: "segment_ok b p" "seg_page p v" and e: "program_page (eff_pte m root v)"
  shows "user_page m root v"
proof -
  note low = seg_page_low [OF v]
  have "eff_pte m root v \<noteq> 0" using e by (auto simp: program_page_def)
  then obtain t where t: "tbl m root (table_path v) = Some t" using eff_pte_tbl by blast
  have "pml4_index v \<noteq> 256" using low by auto
  from grants_open [OF o this t] low e show ?thesis by (simp add: user_page_def program_page_def)
qed

lemma grown_program_page: "grown old new \<Longrightarrow> program_page (old v) \<Longrightarrow> program_page (new v)"
  unfolding grown_def program_page_def by (metis insertCI)

lemma segment_reserved:
  assumes inv: "mmu_inv s A F" and ok: "segment_ok b p"
    and r: "user_allocate_range (ph_load_addr p) (ph_mem_size p) \<lparr>perm_w = True, perm_x = True\<rparr> s = Inr s'" and live: "has_region s'"
  shows "(\<exists>A' F'. mmu_inv s' A' F' \<and> A \<subseteq> A') \<and> pt_root s' = pt_root s \<and> stays_open s s' \<and>
     (\<forall>v. seg_page p v \<longrightarrow> program_page (eff_pte (pf_mem s') (pt_root s) v)) \<and>
     (\<forall>v. \<not> seg_page p v \<longrightarrow> eff_pte (pf_mem s') (pt_root s) v = eff_pte (pf_mem s) (pt_root s) v)"
proof -
  let ?fl = "user_flags \<lparr>perm_w = True, perm_x = True\<rparr>"
  have b: "unat (ph_load_addr p) + unat (ph_mem_size p) + 4096 \<le> 2 ^ 47" using ok by (simp add: segment_ok_def)
  have m: "map_range 0 (ph_load_addr p) (ph_mem_size p) ?fl s = Inr s'" using r by (simp add: user_allocate_range_eq)
  have np: "\<forall>k. 4096 * k < unat (ph_mem_size p) \<longrightarrow> page_at (ph_load_addr p) k \<noteq> NULL \<and> pml4_index (page_at (ph_load_addr p) k) \<noteq> 256"
    using segment_pages(2) [OF ok] by fastforce
  have nw: "unat (ph_load_addr p) + unat (ph_mem_size p) + 4096 \<le> 2 ^ 64" and sz: "unat (ph_mem_size p) \<le> 2 ^ 47" using b by simp_all
  have oe: "open_entry ?fl" by (simp add: open_entry_def user_flags_bits user_flags_bits(4) [simplified])
  from map_range_spec [OF inv nw sz np m live] have
    1: "\<exists>A' F'. mmu_inv s' A' F' \<and> A \<subseteq> A'" "pt_root s' = pt_root s"
    and gr: "\<exists>A'. grows (open_entry ?fl \<or> (\<forall>k. 4096 * k < unat (ph_mem_size p) \<longrightarrow> \<not> pml4_index (page_at (ph_load_addr p) k) < 256))
        A' (pt_root s) (pf_mem s) (pf_mem s')"
    and on: "\<And>k v. 4096 * k < unat (ph_mem_size p) \<Longrightarrow> same_page v (page_at (ph_load_addr p) k) \<Longrightarrow> eff_pte (pf_mem s') (pt_root s') v = (page_at 0 k OR ?fl)"
    and off: "\<And>v. \<forall>k. 4096 * k < unat (ph_mem_size p) \<longrightarrow> \<not> same_page v (page_at (ph_load_addr p) k) \<Longrightarrow>
        eff_pte (pf_mem s') (pt_root s') v = eff_pte (pf_mem s) (pt_root s) v" by blast+
  have "program_page (eff_pte (pf_mem s') (pt_root s) v)" if v: "seg_page p v" for v
  proof -
    obtain k where k: "4096 * k < unat (ph_mem_size p)" "same_page v (page_at (ph_load_addr p) k)" using v by (auto simp: seg_page_def)
    have lim: "4096 * k < 2 ^ 47" using k(1) sz by linarith
    show ?thesis using on [OF k] page_at_0_bits [OF lim]
      by (simp add: 1(2) program_page_def pte_allocated_def bit_or_iff user_flags_bits user_flags_bits(4) [simplified])
  qed
  moreover have "stays_open s s'" using gr oe by (auto simp: stays_open_def grows_def 1(2))
  ultimately show ?thesis using 1 off unfolding seg_page_def 1(2) by blast
qed

text \<open>
  What loading the segments \<open>ps\<close> of the file contents \<open>b\<close> did: the bytes of each are in memory on pages that are
  present, all its pages belong to the program, and everything else is as before - the bytes of a segment that are
  not in the file too.
\<close>

definition in_file_part :: "elf_prog_header \<Rightarrow> u64 \<Rightarrow> bool" where
  "in_file_part p x \<longleftrightarrow> unat (ph_load_addr p) \<le> unat x \<and> unat x < unat (ph_load_addr p) + unat (ph_file_size p)"

definition loaded :: "u8 list \<Rightarrow> elf_prog_header list \<Rightarrow> 'a km_state_scheme \<Rightarrow> 'a km_state_scheme \<Rightarrow> bool" where
  "loaded b ps s s' \<longleftrightarrow> pt_root s' = pt_root s \<and>
     (\<forall>p \<in> set ps. \<forall>x. in_file_part p x \<longrightarrow>
        km_mem s' x = b ! (unat (ph_file_offset p) + (unat x - unat (ph_load_addr p))) \<and>
        pte_present (eff_pte (pf_mem s') (pt_root s) x)) \<and>
     (\<forall>p \<in> set ps. \<forall>v. seg_page p v \<longrightarrow> program_page (eff_pte (pf_mem s') (pt_root s) v)) \<and>
     (\<forall>x. (\<forall>p \<in> set ps. \<not> in_file_part p x) \<longrightarrow> km_mem s' x = km_mem s x) \<and>
     (\<forall>v. (\<forall>p \<in> set ps. \<not> seg_page p v) \<longrightarrow> eff_pte (pf_mem s') (pt_root s) v = eff_pte (pf_mem s) (pt_root s) v)"

definition touches :: "elf_prog_header list \<Rightarrow> 'a km_state_scheme \<Rightarrow> 'a km_state_scheme \<Rightarrow> bool" where
  "touches ps s s' \<longleftrightarrow> mem_only s s' \<and> (\<forall>x. (\<forall>p \<in> set ps. \<not> in_file_part p x) \<longrightarrow> km_mem s' x = km_mem s x)"

lemma segment_touches:
  assumes wf: "bump_wf s" and ok: "segment_ok b p" and a: "pf_only s s1" "bump_wf s1"
    and st: "store_bytes (ph_load_addr p) (take (unat (ph_file_size p)) (drop (unat (ph_file_offset p)) b)) s1 = Inr s2"
  shows "touches [p] s s2"
proof -
  note o = ok [unfolded segment_ok_def]
  have l: "length (take (unat (ph_file_size p)) (drop (unat (ph_file_offset p)) b)) = unat (ph_file_size p)" using o by auto
  have "unat (ph_load_addr p) + length (take (unat (ph_file_size p)) (drop (unat (ph_file_offset p)) b)) < 2 ^ 64"
    using o unfolding l by simp
  note 2 = store_bytes_only [OF a(2) this st, unfolded l]
  have "km_mem s1 = km_mem s" using a(1) by (auto simp: pf_only_def)
  with 2 mem_only_trans [OF pf_only_mem_only(2) [OF a(1)]] show ?thesis by (auto simp: touches_def in_file_part_def)
qed

lemma touches_Cons: "touches [p] s s2 \<Longrightarrow> touches ps s2 s' \<Longrightarrow> touches (p # ps) s s'"
  by (auto simp: touches_def intro: mem_only_trans)

definition pages_apart :: "elf_prog_header \<Rightarrow> elf_prog_header \<Rightarrow> bool" where
  "pages_apart p q \<longleftrightarrow> (\<forall>v. \<not> (seg_page p v \<and> seg_page q v))"

lemma in_file_part_page: "segment_ok b p \<Longrightarrow> in_file_part p x \<Longrightarrow> seg_page p x"
  by (rule segment_byte) (auto simp: in_file_part_def segment_ok_def)

lemma loaded_Nil: "loaded b [] s s"
  by (simp add: loaded_def)

lemma loaded_Cons:
  assumes one: "loaded b [p] s s2" and rest: "loaded b ps s2 s'" and ap: "\<forall>q \<in> set ps. pages_apart p q"
    and ok: "segment_ok b p" "\<forall>q \<in> set ps. segment_ok b q"
  shows "loaded b (p # ps) s s'"
proof -
  have root: "pt_root s2 = pt_root s" "pt_root s' = pt_root s" using one rest by (simp_all add: loaded_def)
  have off: "\<not> seg_page q v" if "seg_page p v" "q \<in> set ps" for q v using ap that unfolding pages_apart_def by blast
  have keep: "eff_pte (pf_mem s') (pt_root s) v = eff_pte (pf_mem s2) (pt_root s) v" if "seg_page p v" for v
    using rest off [OF that] unfolding loaded_def root(1) by blast
  have mem: "km_mem s' x = km_mem s2 x" if "in_file_part p x" for x
    using rest off [OF in_file_part_page [OF ok(1) that]] in_file_part_page ok(2) unfolding loaded_def by blast
  show ?thesis
    unfolding loaded_def
  proof (intro conjI ballI allI impI)
    show "pt_root s' = pt_root s" by (rule root(2))
    fix q x assume q: "q \<in> set (p # ps)" and x: "in_file_part q x"
    show "km_mem s' x = b ! (unat (ph_file_offset q) + (unat x - unat (ph_load_addr q)))"
    proof (cases "q \<in> set ps")
      case True
      with rest x show ?thesis by (simp add: loaded_def)
    next
      case False
      with q x one mem show ?thesis by (simp add: loaded_def)
    qed
    show "pte_present (eff_pte (pf_mem s') (pt_root s) x)"
    proof (cases "q \<in> set ps")
      case True
      with rest x show ?thesis by (simp add: loaded_def root)
    next
      case False
      with q x one keep [OF in_file_part_page [OF ok(1)]] show ?thesis by (simp add: loaded_def)
    qed
  next
    fix q v assume q: "q \<in> set (p # ps)" and v: "seg_page q v"
    show "program_page (eff_pte (pf_mem s') (pt_root s) v)"
    proof (cases "q \<in> set ps")
      case True
      with rest v show ?thesis by (simp add: loaded_def root)
    next
      case False
      with q v one keep show ?thesis by (simp add: loaded_def)
    qed
  next
    fix x assume "\<forall>q \<in> set (p # ps). \<not> in_file_part q x"
    then show "km_mem s' x = km_mem s x" using one rest by (simp add: loaded_def)
  next
    fix v assume "\<forall>q \<in> set (p # ps). \<not> seg_page q v"
    then show "eff_pte (pf_mem s') (pt_root s) v = eff_pte (pf_mem s) (pt_root s) v" using one rest by (simp add: loaded_def root)
  qed
qed

lemma segment_loaded:
  assumes inv: "mmu_inv s A F" and ok: "segment_ok b p" and wf1: "bump_wf s1" and po: "pf_only s s1"
    and r: "user_allocate_range (ph_load_addr p) (ph_mem_size p) \<lparr>perm_w = True, perm_x = True\<rparr> s = Inr s1"
    and st: "store_bytes (ph_load_addr p) (take (unat (ph_file_size p)) (drop (unat (ph_file_offset p)) b)) s1 = Inr s2"
    and live: "has_region s2"
  shows "loaded b [p] s s2 \<and> stays_open s s2 \<and> (\<exists>A' F'. mmu_inv s2 A' F' \<and> A \<subseteq> A')"
proof -
  let ?bs = "take (unat (ph_file_size p)) (drop (unat (ph_file_offset p)) b)"
  note o = ok [unfolded segment_ok_def]
  have len: "length ?bs = unat (ph_file_size p)" using o by (simp add: min_def) linarith
  have live1: "has_region s1" using store_bytes_wf [OF wf1 st] live by blast
  from segment_reserved [OF inv ok r live1] obtain A1 F1 where
    1: "mmu_inv s1 A1 F1" "A \<subseteq> A1" "pt_root s1 = pt_root s" "\<And>v. seg_page p v \<Longrightarrow> program_page (eff_pte (pf_mem s1) (pt_root s) v)"
    "\<And>v. \<not> seg_page p v \<Longrightarrow> eff_pte (pf_mem s1) (pt_root s) v = eff_pte (pf_mem s) (pt_root s) v"
    and op1: "stays_open s s1" by blast
  have u: "unat (ph_load_addr p + of_nat j) = unat (ph_load_addr p) + j" if "j < unat (ph_file_size p)" for j
  proof -
    have "unat (ph_load_addr p) + j < 2 ^ 64" using that o by simp
    moreover from this have "unat (of_nat j :: u64) = j" unfolding unat_of_nat by (intro mod_less) simp
    ultimately show ?thesis unfolding unat_word_ariths by (simp only:) simp
  qed
  have pg: "seg_page p (ph_load_addr p + of_nat j)" if "j < unat (ph_file_size p)" for j
    by (rule in_file_part_page [OF ok]) (use that in \<open>simp add: in_file_part_def u\<close>)
  have bk: "\<forall>j < length ?bs. backed s1 (ph_load_addr p + of_nat j)"
    using 1(4) [OF pg] unfolding len backed_def 1(3) program_page_def by blast
  have nv: "unat (ph_load_addr p) + length ?bs < 2 ^ 64" unfolding len using o by simp
  from store_bytes_spec [OF 1(1) bk nv st live] obtain A2 F2 where
    2: "mmu_inv s2 A2 F2" "A1 \<subseteq> A2" "pt_root s2 = pt_root s"
    "\<And>x. km_mem s2 x = (if unat (ph_load_addr p) \<le> unat x \<and> unat x < unat (ph_load_addr p) + unat (ph_file_size p)
        then ?bs ! (unat x - unat (ph_load_addr p)) else km_mem s1 x)"
    "grown (eff_pte (pf_mem s1) (pt_root s)) (eff_pte (pf_mem s2) (pt_root s))"
    "\<And>w. \<forall>j < unat (ph_file_size p). \<not> same_page w (ph_load_addr p + of_nat j) \<Longrightarrow> eff_pte (pf_mem s2) (pt_root s) w = eff_pte (pf_mem s1) (pt_root s) w"
    "\<And>j. j < unat (ph_file_size p) \<Longrightarrow> pte_present (eff_pte (pf_mem s2) (pt_root s) (ph_load_addr p + of_nat j))"
    and op2: "stays_open s1 s2"
    unfolding len 1(3) by blast
  have m1: "km_mem s1 = km_mem s" using po by (auto simp: pf_only_def)
  have "loaded b [p] s s2"
    unfolding loaded_def
  proof (intro conjI ballI allI impI)
    show "pt_root s2 = pt_root s" by (rule 2(3))
    fix q x assume "q \<in> set [p]" and "in_file_part q x"
    then have q: "q = p" and x: "unat (ph_load_addr p) \<le> unat x" "unat x < unat (ph_load_addr p) + unat (ph_file_size p)"
      by (simp_all add: in_file_part_def)
    then show "km_mem s2 x = b ! (unat (ph_file_offset q) + (unat x - unat (ph_load_addr q)))"
      using o by (simp add: 2(4) less_diff_conv2 add.commute)
    define j where "j = unat x - unat (ph_load_addr p)"
    have j: "j < unat (ph_file_size p)" using x by (simp add: j_def)
    have "unat (ph_load_addr p + of_nat j) = unat x" using u [OF j] x by (simp add: j_def)
    then have "ph_load_addr p + of_nat j = x" by (simp only: word_unat_eq_iff)
    with 2(7) [OF j] show "pte_present (eff_pte (pf_mem s2) (pt_root s) x)" by simp
  next
    fix q v assume "q \<in> set [p]" and "seg_page q v"
    then show "program_page (eff_pte (pf_mem s2) (pt_root s) v)" using grown_program_page [OF 2(5)] 1(4) by simp
  next
    fix x assume "\<forall>q \<in> set [p]. \<not> in_file_part q x"
    then show "km_mem s2 x = km_mem s x" by (auto simp: 2(4) m1 in_file_part_def)
  next
    fix v assume v: "\<forall>q \<in> set [p]. \<not> seg_page q v"
    have "\<not> same_page v (ph_load_addr p + of_nat j)" if j: "j < unat (ph_file_size p)" for j
    proof
      assume sp: "same_page v (ph_load_addr p + of_nat j)"
      obtain k where "4096 * k < unat (ph_mem_size p)" "same_page (ph_load_addr p + of_nat j) (page_at (ph_load_addr p) k)"
        using pg [OF j] unfolding seg_page_def by blast
      with sp have "seg_page p v" unfolding seg_page_def same_page_def by metis
      with v show False by simp
    qed
    with 2(6) 1(5) v show "eff_pte (pf_mem s2) (pt_root s) v = eff_pte (pf_mem s) (pt_root s) v" by simp
  qed
  moreover have "A \<subseteq> A2" using 1(2) 2(2) by blast
  ultimately show ?thesis using 2(1) stays_open_trans [OF op1 op2] by blast
qed

text \<open>Loading takes at most four frames for each page: three for tables and one for the page.\<close>

definition segment_frames :: "elf_prog_header \<Rightarrow> nat" where
  "segment_frames p = 4 * ((unat (ph_mem_size p) + 4095) div 4096)"

definition program_frames :: "elf_prog_header list \<Rightarrow> nat" where
  "program_frames ps = sum_list (map segment_frames ps)"

lemma segment_runs:
  assumes inv: "mmu_inv s A F" and ok: "segment_ok b p" and rm: "room (segment_frames p + n) s"
  shows "\<exists>s1 s2 A' F'. user_allocate_range (ph_load_addr p) (ph_mem_size p) \<lparr>perm_w = True, perm_x = True\<rparr> s = Inr s1 \<and>
     store_bytes (ph_load_addr p) (take (unat (ph_file_size p)) (drop (unat (ph_file_offset p)) b)) s1 = Inr s2 \<and>
     room n s2 \<and> loaded b [p] s s2 \<and> touches [p] s s2 \<and> stays_open s s2 \<and> mmu_inv s2 A' F' \<and> A \<subseteq> A'"
proof -
  let ?bs = "take (unat (ph_file_size p)) (drop (unat (ph_file_offset p)) b)" and ?k = "(unat (ph_mem_size p) + 4095) div 4096"
  note o = ok [unfolded segment_ok_def]
  have nw: "unat (ph_load_addr p) + unat (ph_mem_size p) + 4096 \<le> 2 ^ 64" using o by simp
  have "segment_frames p + n = 3 * ?k + (?k + n)" by (simp add: segment_frames_def)
  with rm have "room (3 * ?k + (?k + n)) s" by (simp only:)
  from user_allocate_room [OF nw this] obtain s1 where
    1: "user_allocate_range (ph_load_addr p) (ph_mem_size p) \<lparr>perm_w = True, perm_x = True\<rparr> s = Inr s1" "room (?k + n) s1" "pf_only s s1" by blast
  have len: "length ?bs = unat (ph_file_size p)" using o by (simp add: min_def) linarith
  from segment_reserved [OF inv ok 1(1) room_region [OF 1(2)]] obtain A1 F1 where
    i1: "mmu_inv s1 A1 F1" "pt_root s1 = pt_root s" and pg: "\<And>v. seg_page p v \<Longrightarrow> program_page (eff_pte (pf_mem s1) (pt_root s) v)" by blast
  have bk: "\<forall>j < length ?bs. backed s1 (ph_load_addr p + of_nat j)"
  proof (intro allI impI)
    fix j assume "j < length ?bs"
    then have j: "j < unat (ph_file_size p)" using len by simp
    then have l: "unat (ph_load_addr p) + j < 2 ^ 64" using o by simp
    moreover from this have "unat (of_nat j :: u64) = j" unfolding unat_of_nat by (intro mod_less) simp
    ultimately have "unat (ph_load_addr p + of_nat j) = unat (ph_load_addr p) + j" unfolding unat_word_ariths by (simp only:) simp
    then have "in_file_part p (ph_load_addr p + of_nat j)" using j by (simp add: in_file_part_def)
    from pg [OF in_file_part_page [OF ok this]] show "backed s1 (ph_load_addr p + of_nat j)" by (simp add: backed_def i1(2) program_page_def)
  qed
  have nv: "unat (ph_load_addr p) + length ?bs < 2 ^ 64" unfolding len using o by simp
  have "unat (ph_load_addr p) mod 4096 = 0" using o by (simp add: page_aligned_unat)
  from absent_pages_le [OF this, of s1 "length ?bs"] have "absent_pages s1 (ph_load_addr p) (length ?bs) \<le> (unat (ph_file_size p) + 4095) div 4096"
    by (simp only: len)
  also have "\<dots> \<le> ?k" by (rule div_le_mono) (use o in simp)
  finally have "room (absent_pages s1 (ph_load_addr p) (length ?bs) + n) s1" using room_le [OF 1(2)] by simp
  from store_bytes_room [OF i1(1) bk nv this] obtain s2 where 2: "store_bytes (ph_load_addr p) ?bs s1 = Inr s2" "room n s2" by blast
  have wf: "bump_wf s" "bump_wf s1" using room_wf rm 1(2) by blast+
  from segment_loaded [OF inv ok wf(2) 1(3,1) 2(1) room_region [OF 2(2)]] segment_touches [OF wf(1) ok 1(3) wf(2) 2(1)] 1(1) 2
  show ?thesis by blast
qed

section \<open>Reading the program\<close>

definition file_holds :: "(u64 \<Rightarrow> u8 list) \<Rightarrow> u64 \<Rightarrow> fat32 \<Rightarrow> inode \<Rightarrow> u8 list \<Rightarrow> bool" where
  "file_holds sector lim v i b \<longleftrightarrow> (\<exists>c cs. st_ino i = ucast c \<and> chain_ok sector lim v c cs \<and>
     unat (st_size i) \<le> 512 * length cs \<and> unat (st_size i) < 2 ^ 31 \<and> b = take (unat (st_size i)) (chain_data sector v cs))"

text \<open>A file that is a program: its header and the entries \<open>ps\<close> of its table.\<close>

definition table_holds :: "u8 list \<Rightarrow> elf_header \<Rightarrow> nat \<Rightarrow> elf_prog_header list \<Rightarrow> bool" where
  "table_holds b h i ps \<longleftrightarrow> i + length ps < 2 ^ 16 \<and> (\<forall>k < length ps. unat (eh_prog_table_pos h) + 56 * (i + k) + 56 \<le> length b \<and>
     ps ! k = elf_prog_header_of (take 56 (drop (unat (eh_prog_table_pos h) + 56 * (i + k)) b)))"

definition elf_image :: "u8 list \<Rightarrow> elf_header \<Rightarrow> elf_prog_header list \<Rightarrow> bool" where
  "elf_image b h ps \<longleftrightarrow> 64 \<le> length b \<and> h = elf_header_of (take 64 b) \<and> elf_supported h \<and> eh_prog_ent_size h = 56 \<and>
     unat (eh_prog_ent_num h) = length ps \<and> table_holds b h 0 ps"

lemma table_holds_Cons:
  assumes "table_holds b h i (p # ps)"
  shows "unat (eh_prog_table_pos h) + 56 * i + 56 \<le> length b" "i < 2 ^ 16"
    "p = elf_prog_header_of (take 56 (drop (unat (eh_prog_table_pos h) + 56 * i) b))" "table_holds b h (Suc i) ps"
proof -
  have a: "k < length (p # ps) \<Longrightarrow> unat (eh_prog_table_pos h) + 56 * (i + k) + 56 \<le> length b \<and>
     (p # ps) ! k = elf_prog_header_of (take 56 (drop (unat (eh_prog_table_pos h) + 56 * (i + k)) b))" for k
    using assms unfolding table_holds_def by blast
  from a [of 0] show "unat (eh_prog_table_pos h) + 56 * i + 56 \<le> length b"
    "p = elf_prog_header_of (take 56 (drop (unat (eh_prog_table_pos h) + 56 * i) b))" by simp_all
  show "i < 2 ^ 16" using assms by (simp add: table_holds_def)
  have "unat (eh_prog_table_pos h) + 56 * (Suc i + k) + 56 \<le> length b \<and>
     ps ! k = elf_prog_header_of (take 56 (drop (unat (eh_prog_table_pos h) + 56 * (Suc i + k)) b))" if "k < length ps" for k
    using a [of "Suc k"] that by simp
  then show "table_holds b h (Suc i) ps" using assms by (simp add: table_holds_def)
qed

lemma entry_position:
  assumes "i < 2 ^ 16" and "unat pos + 56 * i < 2 ^ 31"
  shows "unat ((pos :: u64) + scast (of_nat i * ucast (56 :: u16) :: u32)) = unat pos + 56 * i"
proof -
  have e: "(of_nat i * ucast (56 :: u16) :: u32) = of_nat (56 * i)" by simp
  have "(scast (of_nat (56 * i) :: u32) :: u64) = of_nat (56 * i)" by (rule scast_small) (use assms in simp)
  moreover have "unat (of_nat (56 * i) :: u64) = 56 * i" using assms unfolding unat_of_nat by (intro mod_less) simp
  ultimately show ?thesis unfolding e unat_word_ariths using assms by simp
qed

lemma file_size_int:
  assumes "unat (x :: u64) < 2 ^ 31"
  shows "sint (ucast x :: u32) = int (unat x)"
  using int_of_small [OF assms] by simp

context block_store begin

lemma read_at:
  assumes ok: "fat_ok inv sector st" and l: "layout_ok (sb_fat32 sb)" and fh: "file_holds sector extent (sb_fat32 sb) i b"
    and f: "f_inode f = i" "f_first_cluster f = st_ino i" "unat (f_cursor f) \<le> length b" and len: "len < 2 ^ 31"
  shows "\<exists>f' st'. FAT_file_read rd sb data0 f len st = Some (Inr (take (nat len) (drop (unat (f_cursor f)) b), f', st')) \<and>
     f_inode f' = i \<and> f_first_cluster f' = st_ino i \<and> fat_ok inv sector st'"
proof -
  from fh obtain c cs where h: "st_ino i = ucast c" "chain_ok sector extent (sb_fat32 sb) c cs"
    "unat (st_size i) \<le> 512 * length cs" "unat (st_size i) < 2 ^ 31" "b = take (unat (st_size i)) (chain_data sector (sb_fat32 sb) cs)"
    by (auto simp: file_holds_def)
  have "length b \<le> unat (st_size i)" using h(5) by simp
  then have cur: "f_cursor f \<le> st_size (f_inode f)" using f(1,3) by (simp add: word_le_nat_alt)
  have "f_first_cluster f = ucast c" "unat (st_size (f_inode f)) \<le> 512 * length cs" "unat (st_size (f_inode f)) < 2 ^ 32"
    using f(1,2) h(1,3,4) by simp_all
  from FAT_file_read_ok [OF ok l h(2) this(1) cur this(2,3) len, of data0] f(1,2) h(5) show ?thesis by fastforce
qed


lemma prog_loop_step:
  assumes l: "layout_ok (sb_fat32 sb)" and fh: "file_holds sector extent (sb_fat32 sb) i b" and es: "eh_prog_ent_size h = 56"
    and ok1: "fat_ok inv sector st" and f: "f_inode f = i" "f_first_cluster f = st_ino i" and lph: "length ph = 56"
    and tab: "table_holds b h k (p # ps)" and ok: "segment_ok b p"
  shows "\<exists>f2 o2 st2. f_inode f2 = i \<and> f_first_cluster f2 = st_ino i \<and> length o2 = 56 \<and> fat_ok inv sector st2 \<and>
     (\<forall>s. prog_loop rd sb junk h (length (p # ps)) k f ph st s =
      bind_ro (Some (user_allocate_range (ph_load_addr p) (ph_mem_size p) \<lparr>perm_w = True, perm_x = True\<rparr> s)) (\<lambda>s.
        bind_ro (Some (store_bytes (ph_load_addr p) (take (unat (ph_file_size p)) (drop (unat (ph_file_offset p)) b)) s)) (\<lambda>s.
          prog_loop rd sb junk h (length ps) (Suc k) f2 o2 st2 s)))"
proof -
  note th = table_holds_Cons [OF tab]
  have lb: "length b < 2 ^ 31" using fh by (auto simp: file_holds_def)
  note o = ok [unfolded segment_ok_def]
  let ?f = "f\<lparr>f_cursor := eh_prog_table_pos h + scast (of_nat k * ucast (eh_prog_ent_size h) :: u32)\<rparr>"
  have cur: "unat (f_cursor ?f) = unat (eh_prog_table_pos h) + 56 * k"
    using entry_position [OF th(2), of "eh_prog_table_pos h"] th(1) lb by (simp add: es)
  have "\<exists>f1 st1. FAT_file_read rd sb (junk (2 * k + 1)) ?f (uint (eh_prog_ent_size h)) st =
      Some (Inr (take 56 (drop (unat (eh_prog_table_pos h) + 56 * k) b), f1, st1)) \<and> f_inode f1 = i \<and> f_first_cluster f1 = st_ino i \<and> fat_ok inv sector st1"
    using read_at [OF ok1 l fh, of ?f "uint (eh_prog_ent_size h)" "junk (2 * k + 1)", unfolded cur] f th(1) by (simp add: es)
  then obtain f1 st1 where r1: "FAT_file_read rd sb (junk (2 * k + 1)) ?f (uint (eh_prog_ent_size h)) st =
      Some (Inr (take 56 (drop (unat (eh_prog_table_pos h) + 56 * k) b), f1, st1))"
    and 1: "f_inode f1 = i" "f_first_cluster f1 = st_ino i" "fat_ok inv sector st1" by blast
  let ?o = "take 56 (drop (unat (eh_prog_table_pos h) + 56 * k) b)"
  have lo: "length ?o = 56" using th(1) by simp
  have ow: "overwrite ?o ph = ?o" using lo lph by (simp add: overwrite_def)
  let ?f2 = "f1\<lparr>f_cursor := ph_file_offset p\<rparr>"
  have fs: "unat (ph_file_size p) < 2 ^ 31" and fo: "unat (ph_file_offset p) \<le> length b" using o lb by simp_all
  have "\<exists>f2 st2. FAT_file_read rd sb (junk (2 * k + 2)) ?f2 (sint (ucast (ph_file_size p) :: u32)) st1 =
      Some (Inr (take (unat (ph_file_size p)) (drop (unat (ph_file_offset p)) b), f2, st2)) \<and> f_inode f2 = i \<and> f_first_cluster f2 = st_ino i \<and> fat_ok inv sector st2"
  proof -
    have "int (unat (ph_file_size p)) < int (2 ^ 31)" using fs by (simp only: of_nat_less_iff)
    then have "int (unat (ph_file_size p)) < 2 ^ 31" by (simp only: of_nat_power of_nat_numeral)
    from read_at [OF 1(3) l fh _ _ _ this, of ?f2 "junk (2 * k + 2)"] 1(1,2) fo show ?thesis
      by (simp add: file_size_int [OF fs])
  qed
  then obtain f2 st2 where r2: "FAT_file_read rd sb (junk (2 * k + 2)) ?f2 (sint (ucast (ph_file_size p) :: u32)) st1 =
      Some (Inr (take (unat (ph_file_size p)) (drop (unat (ph_file_offset p)) b), f2, st2))"
    and 2: "f_inode f2 = i" "f_first_cluster f2 = st_ino i" "fat_ok inv sector st2" by blast
  let ?bs = "take (unat (ph_file_size p)) (drop (unat (ph_file_offset p)) b)"
  have "prog_loop rd sb junk h (length (p # ps)) k f ph st s =
      bind_ro (Some (user_allocate_range (ph_load_addr p) (ph_mem_size p) \<lparr>perm_w = True, perm_x = True\<rparr> s)) (\<lambda>s.
        bind_ro (Some (store_bytes (ph_load_addr p) ?bs s)) (\<lambda>s. prog_loop rd sb junk h (length ps) (Suc k) f2 ?o st2 s))" for s
    using r1 r2 lo ow th(3) by (simp add: FAT_file_lseek_def ELF_PROG_HEADER_SIZE_def Let_def split: sum.split)
  with 2 lo show ?thesis by blast
qed

lemma prog_loop_ok:
  assumes l: "layout_ok (sb_fat32 sb)" and fh: "file_holds sector extent (sb_fat32 sb) i b" and es: "eh_prog_ent_size h = 56"
  shows "fat_ok inv sector st \<Longrightarrow> f_inode f = i \<Longrightarrow> f_first_cluster f = st_ino i \<Longrightarrow> length ph = 56 \<Longrightarrow> mmu_inv (s :: 'k km_state_scheme) A F \<Longrightarrow>
     room (program_frames ps + n) s \<Longrightarrow> table_holds b h k ps \<Longrightarrow> \<forall>p \<in> set ps. segment_ok b p \<Longrightarrow> sorted_wrt pages_apart ps \<Longrightarrow>
     \<exists>f' st' s' A' F'. prog_loop rd sb junk h (length ps) k f ph st s = Some (Inr (f', st', s')) \<and> fat_ok inv sector st' \<and> room n s' \<and>
        touches ps s s' \<and> loaded b ps s s' \<and> stays_open s s' \<and> mmu_inv s' A' F' \<and> A \<subseteq> A'"
proof (induction ps arbitrary: st f ph s k A F)
  case Nil
  then show ?case by (auto simp: loaded_Nil touches_def program_frames_def)
next
  case (Cons p ps)
  have ok: "segment_ok b p" and oks: "\<forall>p \<in> set ps. segment_ok b p" using Cons.prems(8) by simp_all
  have ap: "\<forall>q \<in> set ps. pages_apart p q" "sorted_wrt pages_apart ps" using Cons.prems(9) by simp_all
  let ?bs = "take (unat (ph_file_size p)) (drop (unat (ph_file_offset p)) b)"
  from prog_loop_step [OF l fh es Cons.prems(1-4,7) ok, of junk] obtain f2 o2 st2 where
    2: "f_inode f2 = i" "f_first_cluster f2 = st_ino i" "fat_ok inv sector st2" and lo: "length o2 = 56"
    and e: "\<And>s :: 'k km_state_scheme. prog_loop rd sb junk h (length (p # ps)) k f ph st s =
      bind_ro (Some (user_allocate_range (ph_load_addr p) (ph_mem_size p) \<lparr>perm_w = True, perm_x = True\<rparr> s)) (\<lambda>s.
        bind_ro (Some (store_bytes (ph_load_addr p) ?bs s)) (\<lambda>s. prog_loop rd sb junk h (length ps) (Suc k) f2 o2 st2 s))" by blast
  have "room (segment_frames p + (program_frames ps + n)) s" using Cons.prems(6) by (simp add: program_frames_def add.assoc)
  from segment_runs [OF Cons.prems(5) ok this] obtain s1 s2 A2 F2 where
    3: "user_allocate_range (ph_load_addr p) (ph_mem_size p) \<lparr>perm_w = True, perm_x = True\<rparr> s = Inr s1"
      "store_bytes (ph_load_addr p) ?bs s1 = Inr s2" "room (program_frames ps + n) s2" "loaded b [p] s s2" "touches [p] s s2"
      "stays_open s s2" "mmu_inv s2 A2 F2" "A \<subseteq> A2" by blast
  from Cons.IH [OF 2(3,1,2) lo 3(7,3) table_holds_Cons(4) [OF Cons.prems(7)] oks ap(2)] obtain f' st' s' A' F' where
    4: "prog_loop rd sb junk h (length ps) (Suc k) f2 o2 st2 s2 = Some (Inr (f', st', s'))" "fat_ok inv sector st'" "room n s'"
      "touches ps s2 s'" "loaded b ps s2 s'" "stays_open s2 s'" "mmu_inv s' A' F'" "A2 \<subseteq> A'" by blast
  have "prog_loop rd sb junk h (length (p # ps)) k f ph st s = Some (Inr (f', st', s'))" unfolding e using 3(1,2) 4(1) by simp
  moreover have "A \<subseteq> A'" using 3(8) 4(8) by blast
  ultimately show ?case
    using 4(2,3,7) touches_Cons [OF 3(5) 4(4)] loaded_Cons [OF 3(4) 4(5) ap(1) ok oks] stays_open_trans [OF 3(6) 4(6)] by blast
qed

end

context block_store begin

lemma ELF_mmap_binary_start:
  assumes l: "layout_ok (sb_fat32 sb)" and tree: "path_tree sector extent (sb_fat32 sb) dirs D (set items)" "sb_root sb \<in> D"
    and bufs: "\<forall>p. length (fst (bufs p)) = 512 \<and> name_buffer (snd (bufs p))" and ok: "fat_ok inv sector st"
    and path: "\<forall>c \<in> set items. path_item c" "resolve dirs (sb_root sb) items = Some i"
    and fh: "file_holds sector extent (sb_fat32 sb) i b" and img: "elf_image b h ps" and loc: "length header = 64"
  shows "\<exists>f2 st2. f_inode f2 = i \<and> f_first_cluster f2 = st_ino i \<and> fat_ok inv sector st2 \<and>
     (\<forall>s. ELF_mmap_binary rd sb bufs junk header ph root (47 # join_path items) st s =
        bind_ro (prog_loop rd sb junk h (length ps) 0 f2 ph st2 s) (\<lambda>(f, st, s). Some (Inr (eh_prog_entry_pos h, st, s))))"
proof -
  note im = img [unfolded elf_image_def]
  from FS_inode_for_path_found [OF l tree(1) bufs ok tree(2) path, of root] obtain st1 where
    1: "FS_inode_for_path rd sb bufs (47 # join_path items) root st = Some (Inr (Some i, st1))" "fat_ok inv sector st1" by blast
  have "\<exists>f2 st2. FAT_file_read rd sb (junk 0) (FAT_file_open i) (int ELF_HEADER_SIZE) st1 = Some (Inr (take 64 b, f2, st2)) \<and>
      f_inode f2 = i \<and> f_first_cluster f2 = st_ino i \<and> fat_ok inv sector st2"
    using read_at [OF 1(2) l fh, of "FAT_file_open i" "int ELF_HEADER_SIZE" "junk 0"] by (simp add: FAT_file_open_def ELF_HEADER_SIZE_def)
  then obtain f2 st2 where r2: "FAT_file_read rd sb (junk 0) (FAT_file_open i) (int ELF_HEADER_SIZE) st1 = Some (Inr (take 64 b, f2, st2))"
    and 2: "f_inode f2 = i" "f_first_cluster f2 = st_ino i" "fat_ok inv sector st2" by blast
  have h: "elf_header_of (overwrite (take 64 b) header) = h" using im loc by (simp add: overwrite_def)
  have sup: "elf_supported h" and n: "unat (eh_prog_ent_num h) = length ps" and es: "eh_prog_ent_size h = 56" and th: "table_holds b h 0 ps" using im by blast+
  have "ELF_mmap_binary rd sb bufs junk header ph root (47 # join_path items) st s =
      bind_ro (prog_loop rd sb junk h (length ps) 0 f2 ph st2 s) (\<lambda>(f, st, s). Some (Inr (eh_prog_entry_pos h, st, s)))" for s
    unfolding ELF_mmap_binary_def by (simp add: 1(1) r2 h sup n Let_def)
  with 2 show ?thesis by blast
qed

lemma ELF_mmap_binary_ok:
  assumes l: "layout_ok (sb_fat32 sb)" and tree: "path_tree sector extent (sb_fat32 sb) dirs D (set items)" "sb_root sb \<in> D"
    and bufs: "\<forall>p. length (fst (bufs p)) = 512 \<and> name_buffer (snd (bufs p))" and ok: "fat_ok inv sector st"
    and path: "\<forall>c \<in> set items. path_item c" "resolve dirs (sb_root sb) items = Some i"
    and fh: "file_holds sector extent (sb_fat32 sb) i b" and img: "elf_image b h ps" and seg: "\<forall>p \<in> set ps. segment_ok b p"
    and ap: "sorted_wrt pages_apart ps" and loc: "length header = 64" "length ph = 56"
    and mmu: "mmu_inv (s :: 'k km_state_scheme) A F" and rm: "room (program_frames ps + n) s"
  shows "\<exists>st' s' A' F'. ELF_mmap_binary rd sb bufs junk header ph root (47 # join_path items) st s = Some (Inr (eh_prog_entry_pos h, st', s')) \<and>
     fat_ok inv sector st' \<and> room n s' \<and> touches ps s s' \<and> loaded b ps s s' \<and> stays_open s s' \<and> mmu_inv s' A' F' \<and> A \<subseteq> A'"
proof -
  from img have es: "eh_prog_ent_size h = 56" and th: "table_holds b h 0 ps" unfolding elf_image_def by blast+
  from ELF_mmap_binary_start [OF l tree bufs ok path fh img loc(1), of junk ph root] obtain f2 st2 where
    2: "f_inode f2 = i" "f_first_cluster f2 = st_ino i" "fat_ok inv sector st2"
    and e: "\<And>s :: 'k km_state_scheme. ELF_mmap_binary rd sb bufs junk header ph root (47 # join_path items) st s =
        bind_ro (prog_loop rd sb junk h (length ps) 0 f2 ph st2 s) (\<lambda>(f, st, s). Some (Inr (eh_prog_entry_pos h, st, s)))" by blast
  from prog_loop_ok [OF l fh es 2(3,1,2) loc(2) mmu rm th seg ap, of junk] obtain f' st' s' A' F' where
    r: "prog_loop rd sb junk h (length ps) 0 f2 ph st2 s = Some (Inr (f', st', s'))"
    and fin: "fat_ok inv sector st'" "room n s'" "touches ps s s'" "loaded b ps s s'" "stays_open s s'" "mmu_inv s' A' F'" "A \<subseteq> A'" by blast
  have "ELF_mmap_binary rd sb bufs junk header ph root (47 # join_path items) st s = Some (Inr (eh_prog_entry_pos h, st', s'))"
    unfolding e r by simp
  with fin show ?thesis by blast
qed

text \<open>A file that is no program is left alone.\<close>

lemma ELF_unsupported:
  assumes l: "layout_ok (sb_fat32 sb)" and tree: "path_tree sector extent (sb_fat32 sb) dirs D (set items)" "sb_root sb \<in> D"
    and bufs: "\<forall>p. length (fst (bufs p)) = 512 \<and> name_buffer (snd (bufs p))" and ok: "fat_ok inv sector st"
    and path: "\<forall>c \<in> set items. path_item c" "resolve dirs (sb_root sb) items = Some i"
    and fh: "file_holds sector extent (sb_fat32 sb) i b" and bad: "\<not> elf_supported (elf_header_of (overwrite (take 64 b) header))"
  shows "\<exists>st'. ELF_mmap_binary rd sb bufs junk header ph root (47 # join_path items) st s = Some (Inr (0, st', s)) \<and> fat_ok inv sector st'"
proof -
  from FS_inode_for_path_found [OF l tree(1) bufs ok tree(2) path, of root] obtain st1 where
    1: "FS_inode_for_path rd sb bufs (47 # join_path items) root st = Some (Inr (Some i, st1))" "fat_ok inv sector st1" by blast
  have "\<exists>f2 st2. FAT_file_read rd sb (junk 0) (FAT_file_open i) (int ELF_HEADER_SIZE) st1 = Some (Inr (take 64 b, f2, st2)) \<and> fat_ok inv sector st2"
    using read_at [OF 1(2) l fh, of "FAT_file_open i" "int ELF_HEADER_SIZE" "junk 0"] by (auto simp: FAT_file_open_def ELF_HEADER_SIZE_def)
  with 1(1) bad show ?thesis by (auto simp: ELF_mmap_binary_def Let_def)
qed

end

section \<open>Properties\<close>

text \<open>
  C37: Loading a well formed program succeeds and returns its entry point, as long as four frames are left for every page of its
  segments: the bytes of every segment are then in memory at its address, on pages that are present; every page of a segment
  is present or reserved, and the tables on all levels let the user read, write and execute it; and no other byte of
  memory and no other page of the address space has changed.
\<close>

theorem ELF_mmap_binary_loads:
  assumes "fat_ok (part_idle P p disk view) (part_sector p disk) st" and "layout_ok (sb_fat32 sb)"
    and "path_tree (part_sector p disk) (ucast (num_sectors p)) (sb_fat32 sb) dirs D (set items)" and "sb_root sb \<in> D"
    and "\<forall>r. length (fst (bufs r)) = 512 \<and> name_buffer (snd (bufs r))"
    and "\<forall>c \<in> set items. path_item c" and "resolve dirs (sb_root sb) items = Some i"
    and "file_holds (part_sector p disk) (ucast (num_sectors p)) (sb_fat32 sb) i b"
    and "elf_image b h ps" and "\<forall>q \<in> set ps. segment_ok b q" and "sorted_wrt pages_apart ps"
    and "length header = 64" and "length ph = 56"
    and "mmu_inv s A F" and "tables_open (pf_mem s) (pt_root s)" and "room (program_frames ps) s"
  shows "\<exists>st' s'. ELF_mmap_binary (part_read_block P p) sb bufs junk header ph root (47 # join_path items) st s =
          Some (Inr (eh_prog_entry_pos h, st', s')) \<and>
        fat_ok (part_idle P p disk view) (part_sector p disk) st' \<and> loaded b ps s s' \<and>
        (\<forall>q \<in> set ps. \<forall>v. seg_page q v \<longrightarrow> user_page (pf_mem s') (pt_root s') v) \<and> (\<exists>A' F'. mmu_inv s' A' F' \<and> A \<subseteq> A')"
proof -
  have rm: "room (program_frames ps + 0) s" using assms(16) by simp
  from part.ELF_mmap_binary_ok [OF assms(2-5,1,6-14) rm] obtain st' s' A' F' where
    r: "ELF_mmap_binary (part_read_block P p) sb bufs junk header ph root (47 # join_path items) st s =
          Some (Inr (eh_prog_entry_pos h, st', s'))"
    and fin: "fat_ok (part_idle P p disk view) (part_sector p disk) st'" "loaded b ps s s'" "stays_open s s'" "mmu_inv s' A' F'" "A \<subseteq> A'" by blast
  have "tables_open (pf_mem s') (pt_root s')" using fin(3) assms(15) by (simp add: stays_open_def)
  from program_user_page [OF this] fin(2) assms(10) have "\<forall>q \<in> set ps. \<forall>v. seg_page q v \<longrightarrow> user_page (pf_mem s') (pt_root s') v"
    by (auto simp: loaded_def)
  with r fin show ?thesis by blast
qed

text \<open>The example: the program on the example volume is loaded.\<close>

definition elf_example_header :: elf_header where
  "elf_example_header = elf_header_of (take 64 (bytes_of prog_block))"

definition elf_example_segment :: elf_prog_header where
  "elf_example_segment = elf_prog_header_of (take 56 (drop 64 (bytes_of prog_block)))"

definition elf_example_bytes :: "u8 list" where
  "elf_example_bytes = take 600 (bytes_of prog_block @ bytes_of (replicate 256 104))"

lemma prog_block_bytes:
  "take 124 (bytes_of prog_block) =
     [127, 69, 76, 70, 2, 1, 1, 0, 0, 0, 0, 0, 0, 0, 0, 0, 2, 0, 62, 0, 1, 0, 0, 0, 0, 0, 64, 0, 0, 0, 0, 0, 64, 0, 0, 0, 0, 0, 0, 0,
      0, 0, 0, 0, 0, 0, 0, 0, 0, 0, 0, 0, 64, 0, 56, 0, 1, 0, 0, 0, 0, 0, 0, 0, 1, 0, 0, 0, 7, 0, 0, 0, 120, 0, 0, 0, 0, 0, 0, 0, 0, 0,
      64, 0, 0, 0, 0, 0, 0, 0, 0, 0, 0, 0, 0, 0, 4, 0, 0, 0, 0, 0, 0, 0, 0, 16, 0, 0, 0, 0, 0, 0, 0, 16, 0, 0, 0, 0, 0, 0, 103, 0, 103,
      0]"
proof -
  have "bytes_of (as @ bs) = bytes_of as @ bytes_of bs" for as bs :: "u16 list" by (simp add: bytes_of_def)
  moreover have "replicate 196 (103 :: u16) = 103 # 103 # replicate 194 103" by (simp add: numeral_eq_Suc)
  ultimately show ?thesis unfolding prog_block_def by (simp only: append_Cons append_Nil) (simp add: bytes_of_def)
qed

lemma elf_example_take:
  "take 120 (bytes_of prog_block) = take 120 (take 124 (bytes_of prog_block))"
  "take 64 (bytes_of prog_block) = take 64 (take 124 (bytes_of prog_block))"
  by simp_all

lemma elf_example_fields:
  "ph_load_addr elf_example_segment = 0x400000" "ph_mem_size elf_example_segment = 0x1000"
  "ph_file_size elf_example_segment = 4" "ph_file_offset elf_example_segment = 120"
  "eh_prog_entry_pos elf_example_header = 0x400000" "eh_prog_table_pos elf_example_header = 64"
  "eh_prog_ent_size elf_example_header = 56" "eh_prog_ent_num elf_example_header = 1" "elf_supported elf_example_header"
proof -
  have d: "take 56 (drop 64 (bytes_of prog_block)) = drop 64 (take 120 (bytes_of prog_block))" by (simp add: drop_take)
  show "ph_load_addr elf_example_segment = 0x400000" "ph_mem_size elf_example_segment = 0x1000"
    "ph_file_size elf_example_segment = 4" "ph_file_offset elf_example_segment = 120"
    unfolding elf_example_segment_def d unfolding elf_example_take(1) prog_block_bytes
    by (simp_all add: elf_prog_header_of_def le64_def le32_def le16_def)
  show "eh_prog_entry_pos elf_example_header = 0x400000" "eh_prog_table_pos elf_example_header = 64"
    "eh_prog_ent_size elf_example_header = 56" "eh_prog_ent_num elf_example_header = 1" "elf_supported elf_example_header"
    unfolding elf_example_header_def elf_example_take(2) prog_block_bytes
    by (simp_all add: elf_header_of_def elf_common_header_of_def le64_def le32_def le16_def elf_supported_def ELF_MAGIC_def BITSIZE_64_def
        LITTLE_ENDIAN_def VERSION_def X86_64_def EXECUTABLE_def)
qed

lemma elf_example_image: "elf_image elf_example_bytes elf_example_header [elf_example_segment]"
  "length elf_example_bytes = 600" "take 4 (drop 120 elf_example_bytes) = [103, 0, 103, 0]"
proof -
  have r: "bytes_of (replicate n (w :: u16)) = concat (replicate n [ucast w, ucast (drop_bit 8 w)])" for n w
    by (induction n) (simp_all add: bytes_of_def)
  have l: "length (bytes_of prog_block) = 512" "length (bytes_of (replicate 256 (104 :: u16))) = 512"
    by (simp_all add: length_bytes_of prog_block_def)
  then show "length elf_example_bytes = 600" by (simp add: elf_example_bytes_def)
  have t: "take n elf_example_bytes = take n (bytes_of prog_block)" "drop m (take n elf_example_bytes) = drop m (take n (bytes_of prog_block))"
    if "n \<le> 512" for n m using that l by (simp_all add: elf_example_bytes_def)
  have "take 4 (drop 120 (take 124 (bytes_of prog_block))) = [103, 0, 103, 0]" unfolding prog_block_bytes by simp
  then have "take 4 (drop 120 (take 124 elf_example_bytes)) = [103, 0, 103, 0]" by (simp add: t)
  then show "take 4 (drop 120 elf_example_bytes) = [103, 0, 103, 0]" by (simp add: drop_take)
  have d: "take 56 (drop 64 elf_example_bytes) = take 56 (drop 64 (bytes_of prog_block))"
    using l by (simp add: elf_example_bytes_def)
  have h: "elf_example_header = elf_header_of (take 64 elf_example_bytes)" using t(1) [of 64] by (simp add: elf_example_header_def)
  have "table_holds elf_example_bytes elf_example_header 0 [elf_example_segment]"
    using \<open>length elf_example_bytes = 600\<close> d by (simp add: table_holds_def elf_example_fields) (simp add: elf_example_segment_def)
  with h \<open>length elf_example_bytes = 600\<close> show "elf_image elf_example_bytes elf_example_header [elf_example_segment]"
    unfolding elf_image_def by (simp add: elf_example_fields)
qed

lemma elf_example_ok: "segment_ok elf_example_bytes elf_example_segment"
  by (simp add: segment_ok_def elf_example_fields elf_example_image(2) page_aligned_def PAGE_SIZE_def)

lemma elf_example_file: "file_holds (part_sector sda0 fat_disk) (ucast (num_sectors sda0)) (sb_fat32 fat_vol)
    \<lparr>st_ino = 3, st_mode = 0, st_size = 600\<rparr> elf_example_bytes"
proof -
  have n: "ucast (num_sectors sda0) = (50 :: u64)" by (simp add: sda0_def)
  have d: "chain_data (part_sector sda0 fat_disk) (sb_fat32 fat_vol) [3, 4] = bytes_of prog_block @ bytes_of (replicate 256 104)"
    by (simp add: chain_data_def cluster_sector_def data_start_def fat_vol_def part_sector_def sda0_def fat_disk_def)
  show ?thesis unfolding file_holds_def n using fat_chains(1) d
    by (intro exI [of _ "3 :: u32"] exI [of _ "[3, 4 :: u32]"]) (simp add: elf_example_bytes_def)
qed

lemma km_example_mmu: "mmu_inv km_example {0x102000} []"
  using mmu_big_example_inv
  by (simp add: mmu_inv_def pf_inv_def bump_wf_def has_region_def bump_used_def pt_root_def km_example_def mmu_big_example_def mmu_example_def)

lemma empty_tables_open: "tables_open (\<lambda>_. 0) root"
  by (auto simp: tables_open_def tbl_empty pte_present_def)

lemma km_example_open: "tables_open (pf_mem km_example) (pt_root km_example)"
  using empty_tables_open by (simp add: km_example_def)

lemma elf_example_frames: "program_frames [elf_example_segment] = 4"
  by (simp add: program_frames_def segment_frames_def elf_example_fields)

theorem ELF_mmap_binary_loads_witness:
  "\<exists>st' s'. ELF_mmap_binary (part_read_block fat_ports sda0) fat_vol vfs_bufs (\<lambda>_. []) (replicate 64 0) (replicate 56 0)
       (sb_root fat_vol) [47, 65, 98] (fat_state.extend (fat_st (blk_example idle_regs)) \<lparr>ps_name = [], ps_result = None\<rparr>) km_example =
     Some (Inr (0x400000, st', s')) \<and> km_mem s' 0x400002 = 103 \<and> user_page (pf_mem s') (pt_root s') 0x400002"
proof -
  let ?p = elf_example_segment
  have r: "resolve fat_dirs (sb_root fat_vol) [[65, 98]] = Some \<lparr>st_ino = 3, st_mode = 0, st_size = 600\<rparr>" by code_simp
  have i: "\<forall>c \<in> set [[65, 98]]. path_item c" by (simp add: path_item_def)
  have j: "47 # join_path [[65, 98]] = [47, 65, 98]" by simp
  have bf: "\<forall>r :: u8 list. length (fst (vfs_bufs r)) = 512 \<and> name_buffer (snd (vfs_bufs r))" by (simp add: name_buffer_def)
  have rt: "sb_root fat_vol \<in> {sb_root fat_vol, \<lparr>st_ino = 5, st_mode = S_IFDIR, st_size = 0\<rparr>}" by simp
  note fo = vfs_example_ok [of "\<lparr>ps_name = [], ps_result = None\<rparr>"]
  have sg: "\<forall>q \<in> set [?p]. segment_ok elf_example_bytes q" using elf_example_ok by simp
  have l64: "length (replicate 64 (0 :: u8)) = 64" and l56: "length (replicate 56 (0 :: u8)) = 56" and ap: "sorted_wrt pages_apart [?p]" by simp_all
  have rm: "room (program_frames [?p]) km_example" unfolding elf_example_frames by (rule room_le [OF km_example_room]) simp
  from ELF_mmap_binary_loads [OF fo fat_vol_layout fat_file_path rt bf i r elf_example_file elf_example_image(1) sg ap l64 l56 km_example_mmu km_example_open rm,
      of "\<lambda>_. []" "sb_root fat_vol", unfolded j elf_example_fields]
  obtain st' s' where run: "ELF_mmap_binary (part_read_block fat_ports sda0) fat_vol vfs_bufs (\<lambda>_. []) (replicate 64 0) (replicate 56 0)
       (sb_root fat_vol) [47, 65, 98] (fat_state.extend (fat_st (blk_example idle_regs)) \<lparr>ps_name = [], ps_result = None\<rparr>) km_example =
     Some (Inr (0x400000, st', s'))" and ld: "loaded elf_example_bytes [?p] km_example s'"
    and up: "\<forall>q \<in> set [?p]. \<forall>v. seg_page q v \<longrightarrow> user_page (pf_mem s') (pt_root s') v" by blast
  have f: "in_file_part ?p 0x400002" by (simp add: in_file_part_def elf_example_fields)
  then have "km_mem s' 0x400002 = elf_example_bytes ! (120 + 2)" using ld by (auto simp: loaded_def elf_example_fields)
  also have "\<dots> = take 4 (drop 120 elf_example_bytes) ! 2" using elf_example_image(2) by simp
  also have "\<dots> = 103" by (simp add: elf_example_image(3))
  finally show ?thesis using run up in_file_part_page [OF elf_example_ok f] by auto
qed

end
