(* ===== verification/Stack_Alloc.thy ===== *)
theory Stack_Alloc
  imports KMalloc
begin

text \<open>
  Kernel stacks (\<^verbatim>\<open>mem/stack_alloc.c\<close>): two pages above a guard page, from a break that moves up or from a
  list of stacks that were given back. The nodes of the list are heap blocks. \<^verbatim>\<open>MMU_alloc_stack\<close> frees a node
  before it reads its link; the first locale says what the heap has to promise for that to work.
\<close>

section \<open>State and operations\<close>

record stack_state = km_state +
  thread_stack_brk :: u64
  free_thread_stacks_head :: ptr

text \<open>The two fields of \<^verbatim>\<open>struct free_thread_stack\<close>.\<close>

definition fts_top :: "bmem \<Rightarrow> ptr \<Rightarrow> u64" where "fts_top m p = rd64 m p"
definition fts_next :: "bmem \<Rightarrow> ptr \<Rightarrow> ptr" where "fts_next m p = rd64 m (p + 8)"
definition FTS_SIZE :: u64 where "FTS_SIZE = 16"

text \<open>
  Taking the first node: its top is read, the node is freed, and then its link is read. Adding a node in front.
  \<open>free\<close>, \<open>malloc\<close>, \<open>mem\<close> and \<open>put\<close> are the heap's operations, its memory and storing to it.
\<close>

definition pop_stack_node ::
    "(ptr \<Rightarrow> 's \<Rightarrow> 's res) \<Rightarrow> ('s \<Rightarrow> bmem) \<Rightarrow> ptr \<Rightarrow> 's \<Rightarrow> (u64 \<times> ptr \<times> 's) res" where
  "pop_stack_node free mem head s =
     (let stack_top = fts_top (mem s) head
      in bind_res (free head s) (\<lambda>s. Inr (stack_top, fts_next (mem s) head, s)))"

definition push_stack_node ::
    "(u64 \<Rightarrow> 's \<Rightarrow> (ptr \<times> 's) res) \<Rightarrow> ('s \<Rightarrow> bmem) \<Rightarrow> (bmem \<Rightarrow> 's \<Rightarrow> 's) \<Rightarrow> u64 \<Rightarrow> ptr \<Rightarrow> 's \<Rightarrow> (ptr \<times> 's) res" where
  "push_stack_node malloc mem put stack_top head s =
     bind_res (malloc FTS_SIZE s) (\<lambda>(new, s).
       let m = wr64 new stack_top (mem s);
           m = wr64 (new + 8) NULL m;
           m = (if head = NULL then m else wr64 (new + 8) head m)
       in Inr (new, put m s))"

definition put_mem :: "bmem \<Rightarrow> 'a km_state_scheme \<Rightarrow> 'a km_state_scheme" where
  "put_mem m s = s\<lparr>km_mem := m\<rparr>"

text \<open>The loop that reserves the pages of a stack, and the result, the address after its last page.\<close>

partial_function (option) stack_loop :: "u64 \<Rightarrow> u64 \<Rightarrow> 'a mmu_state_scheme \<Rightarrow> (u64 \<times> 'a mmu_state_scheme) res option" where
  "stack_loop stop vcurrent s =
     (if vcurrent < stop then
        (case map_page vcurrent 0 ((PAGE_ALLOCATED OR PAGE_WRITABLE) OR PAGE_NO_EXECUTE) s of
           Inl e \<Rightarrow> Some (Inl e)
         | Inr s \<Rightarrow> stack_loop stop (vcurrent + PAGE_SIZE) s)
      else Some (Inr (vcurrent, s)))"

definition MMU_alloc_stack :: "'a stack_state_scheme \<Rightarrow> (u64 \<times> 'a stack_state_scheme) res" where
  "MMU_alloc_stack s =
     bind_res
       (if free_thread_stacks_head s \<noteq> NULL then
          bind_res (pop_stack_node kfree km_mem (free_thread_stacks_head s) s) (\<lambda>(stack_top, nxt, s).
            Inr (stack_top - STACK_SIZE - PAGE_SIZE, s\<lparr>free_thread_stacks_head := nxt\<rparr>))
        else Inr (thread_stack_brk s, s\<lparr>thread_stack_brk := thread_stack_brk s + (STACK_SIZE + PAGE_SIZE)\<rparr>))
       (\<lambda>(start, s).
         case stack_loop (start + STACK_SIZE + PAGE_SIZE) (start + PAGE_SIZE) s of
           None \<Rightarrow> Inl Diverge | Some r \<Rightarrow> r)"

partial_function (option) free_stack_loop :: "u64 \<Rightarrow> u64 \<Rightarrow> 'a mmu_state_scheme \<Rightarrow> 'a mmu_state_scheme option" where
  "free_stack_loop stop vcurrent s =
     (if vcurrent > stop then free_stack_loop stop (vcurrent - PAGE_SIZE) (snd (free_pf_from_virtual_addr vcurrent s))
      else Some s)"

definition MMU_free_stack :: "u64 \<Rightarrow> 'a stack_state_scheme \<Rightarrow> 'a stack_state_scheme res" where
  "MMU_free_stack stack_top s =
     (case free_stack_loop (stack_top - PAGE_SIZE - STACK_SIZE) (stack_top - PAGE_SIZE) s of
        None \<Rightarrow> Inl Diverge
      | Some s \<Rightarrow>
          bind_res (push_stack_node kmalloc km_mem put_mem stack_top (free_thread_stacks_head s) s) (\<lambda>(new, s).
            Inr (s\<lparr>free_thread_stacks_head := new\<rparr>)))"

section \<open>Lists of nodes in the heap\<close>

text \<open>The nodes from a head on, with the tops they hold.\<close>

fun node_list :: "bmem \<Rightarrow> ptr \<Rightarrow> (ptr \<times> u64) list \<Rightarrow> bool" where
  "node_list m p [] \<longleftrightarrow> p = NULL"
| "node_list m p ((n, t) # xs) \<longleftrightarrow> p = n \<and> fts_top m n = t \<and> node_list m (fts_next m n) xs"

definition nodes_ok :: "bmem \<Rightarrow> (u64 \<times> nat) set \<Rightarrow> ptr \<Rightarrow> (ptr \<times> u64) list \<Rightarrow> bool" where
  "nodes_ok m L head xs \<longleftrightarrow> node_list m head xs \<and> distinct (map fst xs) \<and> (\<forall>n \<in> fst ` set xs. (n, 16) \<in> L)"

lemma node_list_cong:
  "\<forall>n \<in> fst ` set xs. fts_top m' n = fts_top m n \<and> fts_next m' n = fts_next m n \<Longrightarrow> node_list m' p xs = node_list m p xs"
  by (induction xs arbitrary: p) auto

lemma node_same:
  assumes "same_on m m' (unat n) 16" and "unat n + 16 < 2 ^ 64"
  shows "fts_top m' n = fts_top m n" "fts_next m' n = fts_next m n"
proof -
  have u: "unat (n + 8) = unat n + 8" using assms(2) by (simp add: unat_word_ariths)
  show "fts_top m' n = fts_top m n" unfolding fts_top_def
    by (rule rd64_nat_cong) (use assms in \<open>auto simp: same_on_def\<close>)
  show "fts_next m' n = fts_next m n" unfolding fts_next_def
    by (rule rd64_nat_cong) (use assms u in \<open>auto simp: same_on_def\<close>)
qed

text \<open>
  A heap on which such lists work: a request of 16 bytes is served with a block of exactly that size, live blocks
  have addresses, storing inside a live block keeps the heap intact, and \<^emph>\<open>the contents of a block outlive its
  release\<close> until the next operation.
\<close>

locale node_heap = memory_allocator malloc free mem inv ok
  for malloc :: "u64 \<Rightarrow> 's \<Rightarrow> (u64 \<times> 's) res" and free :: "u64 \<Rightarrow> 's \<Rightarrow> 's res" and mem :: "'s \<Rightarrow> bmem"
    and inv :: "'s \<Rightarrow> (u64 \<times> nat) set \<Rightarrow> bool" and ok :: "u64 \<Rightarrow> 's \<Rightarrow> bool" +
  fixes put :: "bmem \<Rightarrow> 's \<Rightarrow> 's"
  assumes malloc_node: "inv s L \<Longrightarrow> ok FTS_SIZE s \<Longrightarrow> malloc FTS_SIZE s = Inr (p, s') \<Longrightarrow> (p, 16) \<notin> L \<and> inv s' (insert (p, 16) L)"
    and live_bounds: "inv s L \<Longrightarrow> (p, k) \<in> L \<Longrightarrow> p \<noteq> NULL \<and> unat p + k < 2 ^ 64"
    and put_inv: "inv s L \<Longrightarrow> (p, k) \<in> L \<Longrightarrow> changes_in (mem s) m (unat p) k \<Longrightarrow> inv (put m s) L"
    and put_mem: "mem (put m s) = m"
    and free_keeps: "inv s L \<Longrightarrow> (p, k) \<in> L \<Longrightarrow> free p s = Inr s' \<Longrightarrow> same_on (mem s) (mem s') (unat p) k"
begin

lemma nodes_kept:
  assumes "inv s L" and "nodes_ok (mem s) L head xs" and "\<forall>n \<in> fst ` set xs. same_on (mem s) m (unat n) 16"
    and "\<forall>n \<in> fst ` set xs. (n, 16) \<in> L'"
  shows "nodes_ok m L' head xs"
proof -
  have "fts_top m n = fts_top (mem s) n \<and> fts_next m n = fts_next (mem s) n" if "n \<in> fst ` set xs" for n
  proof -
    have "(n, 16) \<in> L" using assms(2) that unfolding nodes_ok_def by blast
    from live_bounds [OF assms(1) this] node_same [of "mem s" m n] assms(3) that show ?thesis by blast
  qed
  with assms(2,4) node_list_cong [of xs m "mem s"] show ?thesis by (simp add: nodes_ok_def)
qed

lemma pop_node:
  assumes i: "inv s L" and l: "nodes_ok (mem s) L head ((n, t) # xs)"
  shows "\<exists>s' nxt. pop_stack_node free mem head s = Inr (t, nxt, s') \<and> inv s' (L - {(n, 16)}) \<and>
     nodes_ok (mem s') (L - {(n, 16)}) nxt xs \<and> (\<forall>(q, j) \<in> L - {(n, 16)}. same_on (mem s) (mem s') (unat q) j)"
proof -
  have n: "(n, 16) \<in> L" "head = n" "fts_top (mem s) n = t" "n \<notin> fst ` set xs" using l by (simp_all add: nodes_ok_def)
  from free_live [OF i n(1)] obtain s' where s': "free n s = Inr s'" "inv s' (L - {(n, 16)})" by blast
  note others = free_mem [OF i n(1) s'(1)]
  have nx: "fts_next (mem s') n = fts_next (mem s) n"
    using node_same(2) [OF free_keeps [OF i n(1) s'(1)]] live_bounds [OF i n(1)] by simp
  have L: "\<forall>a \<in> fst ` set xs. (a, 16) \<in> L - {(n, 16)}" using l n(4) by (auto simp: nodes_ok_def)
  have "nodes_ok (mem s) L (fts_next (mem s) n) xs" using l by (simp add: nodes_ok_def)
  from nodes_kept [OF i this _ L, of "mem s'"] L others
  have "nodes_ok (mem s') (L - {(n, 16)}) (fts_next (mem s') n) xs" by (auto simp: nx)
  with s' others n show ?thesis by (auto simp: pop_stack_node_def)
qed

lemma push_node:
  assumes i: "inv s L" and l: "nodes_ok (mem s) L head xs" and f: "ok FTS_SIZE s"
    and r: "push_stack_node malloc mem put stack_top head s = Inr (new, s')"
  shows "(new, 16) \<notin> L \<and> inv s' (insert (new, 16) L) \<and> nodes_ok (mem s') (insert (new, 16) L) new ((new, stack_top) # xs) \<and>
     (\<forall>(q, j) \<in> L. same_on (mem s) (mem s') (unat q) j)"
proof -
  from r obtain s1 where a: "malloc FTS_SIZE s = Inr (new, s1)"
    and s': "s' = put (let m = wr64 (new + 8) NULL (wr64 new stack_top (mem s1)) in if head = NULL then m else wr64 (new + 8) head m) s1"
    by (auto simp: push_stack_node_def res_iff Let_def)
  from malloc_node [OF i f a] have fresh: "(new, 16) \<notin> L" and i1: "inv s1 (insert (new, 16) L)" by auto
  have b: "new \<noteq> NULL" "unat new + 16 < 2 ^ 64" using live_bounds [OF i1, of new 16] by simp_all
  have u: "unat (new + 8) = unat new + 8" using b(2) by (simp add: unat_word_ariths)
  have rd64_other: "rd64 (wr64 (new + 8) v w) new = rd64 w new" for v w
    by (rule rd64_nat_cong) (use b(2) u in \<open>auto simp: wr64_nat_other\<close>)
  define m where "m = (let m = wr64 (new + 8) NULL (wr64 new stack_top (mem s1)) in if head = NULL then m else wr64 (new + 8) head m)"
  have ch: "changes_in (mem s1) m (unat new) 16"
    using b(2) u by (auto simp: m_def changes_in_def Let_def wr64_nat_other)
  note s'' = s' [folded m_def]
  have i2: "inv s' (insert (new, 16) L)" unfolding s'' by (rule put_inv [OF i1 _ ch]) simp
  have ms: "mem s' = m" by (simp add: s'' put_mem)
  have rd: "fts_top m new = stack_top" "fts_next m new = head"
    using rd64_other by (simp_all add: fts_top_def fts_next_def m_def rd64_wr64 Let_def)
  have same1: "same_on (mem s) (mem s1) (unat q) j" if "(q, j) \<in> L" for q j by (rule malloc_mem [OF i f a that])
  have same2: "same_on (mem s1) m (unat q) j" if "(q, j) \<in> L" for q j
  proof -
    have "region_apart (new, 16) (q, j)" using live_apart [OF i1, of "(new, 16)" "(q, j)"] that fresh by auto
    then show ?thesis by (intro changes_in_same_on [OF ch]) (auto simp: region_apart_def)
  qed
  have same: "same_on (mem s) m (unat q) j" if "(q, j) \<in> L" for q j
    using same1 [OF that] same2 [OF that] by (simp add: same_on_def)
  have nn: "new \<notin> fst ` set xs" using l fresh by (auto simp: nodes_ok_def)
  have "\<forall>n \<in> fst ` set xs. (n, 16) \<in> insert (new, 16) L" "\<forall>n \<in> fst ` set xs. same_on (mem s) m (unat n) 16"
    using l same by (auto simp: nodes_ok_def)
  from nodes_kept [OF i l this(2,1)] have "nodes_ok m (insert (new, 16) L) head xs" .
  then have "nodes_ok m (insert (new, 16) L) new ((new, stack_top) # xs)" using rd nn by (simp add: nodes_ok_def)
  with fresh i2 same show ?thesis by (auto simp: ms)
qed

end

section \<open>The kernel heap is such a heap\<close>

lemma kmalloc_exact:
  assumes live: "km_live s L" and ft: "fits sz s" and r: "kmalloc sz s = Inr (p, s')"
    and f: "\<And>ps. map kp_block_size ps = pool_sizes \<Longrightarrow> find_pool ps 0 (sz + HEADER_SIZE) = Some i"
  shows "(p, extent (Pool i) - 16) \<notin> L \<and> km_live s' (insert (p, extent (Pool i) - 16) L)"
proof -
  from live obtain Fr U where inv: "km_inv s Fr U" and L: "L = user_live U" by (auto simp: km_live_def)
  have "map kp_block_size (km_pools s) = pool_sizes" using km_invD(5) [OF inv] by (simp add: pools_ok_def)
  with kmalloc_inv [OF inv ft r] f obtain Fr' where k: "U (p - HEADER_SIZE) = None"
    "km_inv s' Fr' (U(p - HEADER_SIZE \<mapsto> Pool i))" by auto
  have "(p, extent (Pool i) - 16) \<notin> L" using k(1) by (simp add: L user_live_iff)
  moreover have "insert (p, extent (Pool i) - 16) L = user_live (U(p - HEADER_SIZE \<mapsto> Pool i))"
    using user_live_insert [of U p "Pool i", OF k(1)] unfolding L by simp
  ultimately show ?thesis using k(2) unfolding km_live_def by metis
qed

lemma pools_cases:
  assumes "map kp_block_size ps = pool_sizes"
  shows "\<exists>a b c d qs. ps = a # b # c # d # qs \<and> kp_block_size a = 32 \<and> kp_block_size b = 64 \<and> kp_block_size c = 128 \<and> kp_block_size d = 256"
  using assms by (auto simp: pool_sizes_def map_eq_Cons_conv)

lemma kmalloc_node:
  assumes "km_live s L" and "fits FTS_SIZE s" and "kmalloc FTS_SIZE s = Inr (p, s')"
  shows "(p, 16) \<notin> L \<and> km_live s' (insert (p, 16) L)"
proof -
  have "find_pool ps 0 (FTS_SIZE + HEADER_SIZE) = Some 0" if "map kp_block_size ps = pool_sizes" for ps
    using pools_cases [OF that] by (auto simp: FTS_SIZE_def HEADER_SIZE_def)
  from kmalloc_exact [OF assms this] show ?thesis by (simp add: pool_sizes_def)
qed

lemma km_live_bounds:
  assumes live: "km_live s L" and p: "(p, k) \<in> L"
  shows "p \<noteq> NULL \<and> unat p + k < 2 ^ 64"
proof -
  from live obtain Fr U where inv: "km_inv s Fr U" and L: "L = user_live U" by (auto simp: km_live_def)
  from p obtain o' where U: "U (p - HEADER_SIZE) = Some o'" and k: "k = extent o' - 16" by (auto simp: L user_live_iff)
  note b = block_bounds [OF inv blocks_live [of U _ o' Fr, OF U]]
  have "unat p = unat (p - HEADER_SIZE) + 16" by (rule unat_sub_16 [OF b(3)]) (use b(1) in simp)
  with b(1,3) k show ?thesis by auto
qed

text \<open>A release touches the header of the block only.\<close>

lemma kfree_keeps:
  assumes live: "km_live s L" and p: "(p, k) \<in> L" and r: "kfree p s = Inr s'"
  shows "same_on (km_mem s) (km_mem s') (unat p) k"
proof -
  from live obtain Fr U where inv: "km_inv s Fr U" and L: "L = user_live U" by (auto simp: km_live_def)
  note d = km_invD [OF inv]
  let ?h = "p - HEADER_SIZE"
  from p obtain o' where U: "U ?h = Some o'" and k: "k = extent o' - 16" by (auto simp: L user_live_iff)
  note b = block_bounds [OF inv blocks_live [of U _ o' Fr, OF U]]
  have up: "unat p = unat ?h + 16" by (rule unat_sub_16 [OF b(3)]) (use b(1) in simp)
  have nn: "p \<noteq> NULL" using km_live_bounds [OF live p] by simp
  show ?thesis
  proof (cases o')
    case (Pool i)
    then have i: "i < NUM_POOLS" and rd: "rd64 (km_mem s) ?h = pool_ptr s i" using d(6) [OF U] by (auto simp: header_ok_def)
    have "kfree p s = Inr (push_free_block i ?h s)"
      using nn rd pool_of_ptr [OF i d(4)] d(3) by (simp add: kfree_def Let_def)
    then have "km_mem s' = wr64 ?h (kp_head (km_pools s ! i)) (km_mem s)" using r by (auto simp: push_free_block_def Let_def)
    then show ?thesis using up b(1,3) by (auto simp: same_on_def wr64_nat_other)
  next
    case (Pages n)
    then have "rd64 (km_mem s) ?h = NULL" using d(6) [OF U] by (simp add: header_ok_def)
    then have "s' = MMU_free_pages ?h (num_pages (rd64 (km_mem s) (?h + 8))) s" using nn r by (simp add: kfree_def Let_def)
    then show ?thesis using free_pages_inv [OF inv U [unfolded Pages]] by (simp add: same_on_def)
  qed
qed

interpretation kmnodes: node_heap kmalloc kfree km_mem km_live fits put_mem
proof
  show "km_live s L \<Longrightarrow> (p, k) \<in> L \<Longrightarrow> changes_in (km_mem s) m (unat p) k \<Longrightarrow> km_live (put_mem m s) L"
    for s :: "'a km_state_scheme" and L p k m
    unfolding put_mem_def by (rule km_live_write)
qed (auto simp: put_mem_def dest: km_live_bounds kmalloc_node intro: kfree_keeps)

section \<open>What the operations leave alone\<close>

lemma km_live_pf_only:
  assumes "km_live s L" and "pf_only s s'" and "bump_wf s'"
  shows "km_live s' L" "km_mem s' = km_mem s" "km_state.more s' = km_state.more s"
proof -
  from assms(2) obtain m c r p where s': "s' = s\<lparr>pf_mem := m, pf_current := c, pf_region := r, pf_free_pool := p\<rparr>"
    by (auto simp: pf_only_def)
  then show "km_mem s' = km_mem s" "km_state.more s' = km_state.more s" by simp_all
  from assms(1) obtain Fr U where inv: "km_inv s Fr U" and L: "L = user_live U" by (auto simp: km_live_def)
  have "km_inv s' Fr U"
    using inv assms(3) unfolding km_inv_def
    by (simp add: s' brk_ok_def pools_ok_def header_ok_def pool_ptr_def cong: owner.case_cong)
  then show "km_live s' L" by (auto simp: km_live_def L)
qed

lemma km_live_wf: "km_live s L \<Longrightarrow> bump_wf s"
  by (auto simp: km_live_def dest: km_invD(1))

lemma set_header_more [simp]: "km_state.more (set_header h p n s) = km_state.more s"
  by (simp add: set_header_def)

lemma heap_only_more: "heap_only s s' \<Longrightarrow> km_state.more s' = km_state.more (s :: 'a km_state_scheme)"
proof -
  assume "heap_only s s'"
  then obtain m c r p where
    "s' = s\<lparr>pf_mem := m, pf_current := c, pf_region := r, pf_free_pool := p, hp_brk := hp_brk s'\<rparr>"
    by (rule heap_onlyE)
  then have "km_state.more s' = km_state.more (s\<lparr>pf_mem := m, pf_current := c, pf_region := r, pf_free_pool := p, hp_brk := hp_brk s'\<rparr>)"
    by metis
  then show ?thesis by simp
qed

lemma kfree_more:
  assumes "kfree p s = Inr s'"
  shows "km_state.more s' = km_state.more s"
proof -
  have "km_state.more (MMU_free_pages a k s) = km_state.more s" for a k
    using heap_only_more [OF pf_heap_only [OF conjunct1 [OF free_pages_only]]] by (auto simp: MMU_free_pages_def)
  with assms show ?thesis
    by (auto simp: kfree_def push_free_block_def Let_def split: if_splits option.splits)
qed

lemma kmalloc_more:
  assumes live: "km_live s L" and ft: "fits sz s" and r: "kmalloc sz s = Inr (p, s')"
  shows "km_state.more s' = km_state.more s"
proof -
  from live obtain Fr U where inv: "km_inv s Fr U" by (auto simp: km_live_def)
  note d = km_invD [OF inv]
  show ?thesis
  proof (cases "find_pool (km_pools s) 0 (sz + HEADER_SIZE)")
    case (Some i)
    have ab: "km_state.more s1 = km_state.more s" if "allocate_blocks i s = Inr s1" for s1
      using that heap_only_more [OF MMU_alloc_page_brk(3) [OF d(1,2)]]
      by (auto simp: allocate_blocks_def res_iff Let_def split: if_splits)
    have pb: "km_state.more s2 = km_state.more s1" if "pop_free_block i s1 = Inr (h, s2)" for h s1 s2
      using that by (auto simp: pop_free_block_def Let_def split: if_splits)
    from r Some obtain s1 h s2 where
      a: "(if kp_avail (km_pools s ! i) = 0 then allocate_blocks i s else Inr s) = Inr s1"
      and b: "pop_free_block i s1 = Inr (h, s2)"
      and s': "s' = set_header h (pool_ptr s2 i) (sz + HEADER_SIZE) s2"
      by (auto simp: kmalloc_def Let_def res_iff)
    have "km_state.more s1 = km_state.more s" using a ab by (auto split: if_splits)
    with pb [OF b] show ?thesis by (simp add: s')
  next
    case None
    have fs: "unat (sz + HEADER_SIZE) = unat sz + 16" using ft by (simp add: fits_def HEADER_SIZE_def unat_word_ariths)
    define n where "n = (unat sz + 4111) div 4096"
    have np: "num_pages (sz + HEADER_SIZE) = int n"
      using num_pages_eq [of "sz + HEADER_SIZE"] ft fs by (simp add: fits_def n_def)
    have b: "unat (hp_brk s) + 4096 * n \<le> unat KERNEL_STACKS_START" using ft by (simp add: fits_def n_def)
    have "km_state.more s1 = km_state.more s" if "MMU_alloc_pages (int n) s = Inr (h, s1)" for h s1
    proof -
      from that have "alloc_pages_loop 0 n NULL s = Inr (h, s1)" by (simp add: MMU_alloc_pages_def)
      from alloc_pages_loop_brk [OF d(1,2) b this] have "heap_only s s1" by blast
      then show ?thesis by (rule heap_only_more)
    qed
    with r None show ?thesis by (auto simp: kmalloc_def Let_def res_iff np split: if_splits)
  qed
qed

lemma stack_fields:
  assumes "km_state.more s' = km_state.more s"
  shows "thread_stack_brk s' = thread_stack_brk s" "free_thread_stacks_head s' = free_thread_stacks_head s"
    "stack_state.more s' = stack_state.more s"
  using assms by (cases s; cases s'; simp)+

text \<open>Freeing a node does not touch the page tables.\<close>

lemma kfree_node_mmu:
  assumes live: "km_live s L" and p: "(p, 16) \<in> L" and r: "kfree p s = Inr s'"
  shows "\<exists>m ps. s' = s\<lparr>km_mem := m, km_pools := ps\<rparr>"
proof -
  from live obtain Fr U where inv: "km_inv s Fr U" and L: "L = user_live U" by (auto simp: km_live_def)
  note d = km_invD [OF inv]
  let ?h = "p - HEADER_SIZE"
  from p obtain o' where U: "U ?h = Some o'" and k: "16 = extent o' - 16" by (auto simp: L user_live_iff)
  have nn: "p \<noteq> NULL" using km_live_bounds [OF live p] by simp
  show ?thesis
  proof (cases o')
    case (Pool i)
    then have i: "i < NUM_POOLS" and rd: "rd64 (km_mem s) ?h = pool_ptr s i" using d(6) [OF U] by (auto simp: header_ok_def)
    have "kfree p s = Inr (push_free_block i ?h s)"
      using nn rd pool_of_ptr [OF i d(4)] d(3) by (simp add: kfree_def Let_def)
    with r have "s' = push_free_block i ?h s" by simp
    then show ?thesis unfolding push_free_block_def Let_def by (intro exI)
  next
    case (Pages n)
    with d(6) [OF U] have "0 < n" by (simp add: header_ok_def)
    moreover have "16 = 4096 * n - 16" using k unfolding Pages by (simp only: extent.simps)
    ultimately show ?thesis by linarith
  qed
qed

section \<open>The two pages of a stack\<close>

definition stack_flags :: u64 where
  "stack_flags = (PAGE_ALLOCATED OR PAGE_WRITABLE) OR PAGE_NO_EXECUTE"

lemma stack_loop_two:
  assumes "unat start + 0x3000 < 2 ^ 64"
  shows "stack_loop (start + STACK_SIZE + PAGE_SIZE) (start + PAGE_SIZE) s =
     Some (bind_res (map_page (start + 0x1000) 0 stack_flags s) (\<lambda>s.
       bind_res (map_page (start + 0x2000) 0 stack_flags s) (\<lambda>s. Inr (start + 0x3000, s))))"
proof -
  have lt: "start + 0x1000 < start + 0x3000" "start + 0x2000 < start + 0x3000"
    using assms by (simp_all add: word_less_nat_alt unat_word_ariths)
  have z: "start + STACK_SIZE + PAGE_SIZE = start + 0x3000" "start + PAGE_SIZE = start + 0x1000"
    "start + 0x1000 + PAGE_SIZE = start + 0x2000" "start + 0x2000 + PAGE_SIZE = start + 0x3000"
    by (simp_all add: STACK_SIZE_def PAGE_SIZE_def)
  have e: "stack_loop (start + 0x3000) (start + 0x3000) s = Some (Inr (start + 0x3000, s))" for s :: "'a mmu_state_scheme"
    by (subst stack_loop.simps) simp
  have e2: "stack_loop (start + 0x3000) (start + 0x2000) s = Some (bind_res (map_page (start + 0x2000) 0 stack_flags s) (\<lambda>s. Inr (start + 0x3000, s)))"
    for s :: "'a mmu_state_scheme"
    by (subst stack_loop.simps) (simp add: lt z(4) e stack_flags_def split: sum.splits)
  show ?thesis unfolding z(1,2)
    by (subst stack_loop.simps) (simp add: lt z(3) e2 stack_flags_def split: sum.splits)
qed

lemma free_stack_loop_two:
  assumes "0x3000 \<le> unat t"
  shows "free_stack_loop (t - PAGE_SIZE - STACK_SIZE) (t - PAGE_SIZE) s =
     Some (snd (free_pf_from_virtual_addr (t - 0x2000) (snd (free_pf_from_virtual_addr (t - 0x1000) s))))"
proof -
  have le: "0x3000 \<le> t" using assms by (simp add: word_le_nat_alt)
  have u: "unat (t - 0x1000) = unat t - 0x1000" "unat (t - 0x2000) = unat t - 0x2000" "unat (t - 0x3000) = unat t - 0x3000"
    using assms by (simp_all add: unat_sub word_le_nat_alt)
  have lt: "t - 0x3000 < t - 0x1000" "t - 0x3000 < t - 0x2000"
    using assms by (simp_all add: word_less_nat_alt u)
  have z: "t - PAGE_SIZE - STACK_SIZE = t - 0x3000" "t - PAGE_SIZE = t - 0x1000"
    "t - 0x1000 - PAGE_SIZE = t - 0x2000" "t - 0x2000 - PAGE_SIZE = t - 0x3000"
    by (simp_all add: STACK_SIZE_def PAGE_SIZE_def)
  have e: "free_stack_loop (t - 0x3000) (t - 0x3000) s = Some s" for s :: "'a mmu_state_scheme"
    by (subst free_stack_loop.simps) simp
  have e2: "free_stack_loop (t - 0x3000) (t - 0x2000) s = Some (snd (free_pf_from_virtual_addr (t - 0x2000) s))" for s :: "'a mmu_state_scheme"
    by (subst free_stack_loop.simps) (simp only: lt if_True z(4) e)
  show ?thesis unfolding z(1) unfolding z(2)
    by (subst free_stack_loop.simps) (simp only: lt if_True z(3) e2)
qed

section \<open>The stacks in use and the free ones\<close>

definition MAX_STACKS :: nat where "MAX_STACKS = 0x2A80000"

definition nth_stack :: "nat \<Rightarrow> u64" where
  "nth_stack k = KERNEL_STACKS_START + 0x3000 * of_nat k"

definition node_blocks :: "(ptr \<times> u64) list \<Rightarrow> (u64 \<times> nat) set" where
  "node_blocks xs = (\<lambda>n. (n, 16)) ` fst ` set xs"

text \<open>
  \<open>C\<close>: the blocks of the other users of the heap; \<open>S\<close>: the tops of the stacks in use; \<open>xs\<close>: the nodes of the
  free ones; \<open>n\<close> stacks were made so far. Every stack is in use or free, and none is both.
\<close>

definition stk_inv :: "'a stack_state_scheme \<Rightarrow> (u64 \<times> nat) set \<Rightarrow> u64 set \<Rightarrow> (ptr \<times> u64) list \<Rightarrow> nat \<Rightarrow> bool" where
  "stk_inv s C S xs n \<longleftrightarrow>
     km_live s (C \<union> node_blocks xs) \<and> C \<inter> node_blocks xs = {} \<and>
     nodes_ok (km_mem s) (C \<union> node_blocks xs) (free_thread_stacks_head s) xs \<and>
     n \<le> MAX_STACKS \<and> thread_stack_brk s = nth_stack n \<and>
     distinct (map snd xs) \<and> S \<inter> snd ` set xs = {} \<and> S \<union> snd ` set xs = nth_stack ` {1..n}"

lemma unat_nth_stack: "k \<le> MAX_STACKS \<Longrightarrow> unat (nth_stack k) = 0xffffff8000000000 + 0x3000 * k"
proof -
  assume k: "k \<le> MAX_STACKS"
  then have "unat (0x3000 * of_nat k :: u64) = 0x3000 * k"
    by (simp add: unat_word_ariths unsigned_of_nat take_bit_nat_eq_self MAX_STACKS_def)
  with k show ?thesis by (simp add: nth_stack_def unat_word_ariths KERNEL_STACKS_START_def MAX_STACKS_def)
qed

lemma nth_stack_inj: "j \<le> MAX_STACKS \<Longrightarrow> k \<le> MAX_STACKS \<Longrightarrow> nth_stack j = nth_stack k \<longleftrightarrow> j = k"
  by (auto dest: arg_cong [of _ _ unat] simp: unat_nth_stack)

lemma nth_stack_Suc: "nth_stack n + (STACK_SIZE + PAGE_SIZE) = nth_stack (Suc n)"
  by (simp add: nth_stack_def STACK_SIZE_def PAGE_SIZE_def algebra_simps)

text \<open>Two stacks do not overlap, their guard pages included.\<close>

definition stacks_apart :: "u64 \<Rightarrow> u64 \<Rightarrow> bool" where
  "stacks_apart t u \<longleftrightarrow> unat t + 0x3000 \<le> unat u \<or> unat u + 0x3000 \<le> unat t"

lemma nth_stacks_apart: "j \<le> MAX_STACKS \<Longrightarrow> k \<le> MAX_STACKS \<Longrightarrow> j \<noteq> k \<Longrightarrow> stacks_apart (nth_stack j) (nth_stack k)"
  by (auto simp: stacks_apart_def unat_nth_stack neq_iff)

lemma stk_inv_stacks:
  assumes "stk_inv s C S xs n" and "t \<in> S \<union> snd ` set xs"
  shows "\<exists>k. 1 \<le> k \<and> k \<le> n \<and> k \<le> MAX_STACKS \<and> t = nth_stack k"
  using assms by (auto simp: stk_inv_def)

text \<open>Reserving the pages of a stack.\<close>

lemma map_pages_stk:
  assumes wf: "bump_wf s" and a: "unat start + 0x3000 < 2 ^ 64"
    and r: "(case stack_loop (start + STACK_SIZE + PAGE_SIZE) (start + PAGE_SIZE) s of None \<Rightarrow> Inl Diverge | Some r \<Rightarrow> r) = Inr (t, s')"
  shows "t = start + 0x3000" "pf_only s s'" "bump_wf s'" "has_region s' \<longrightarrow> has_region s"
    "\<exists>s1. map_page (start + 0x1000) 0 stack_flags s = Inr s1 \<and> map_page (start + 0x2000) 0 stack_flags s1 = Inr s'"
proof -
  from r obtain s1 where 1: "map_page (start + 0x1000) 0 stack_flags s = Inr s1" and 2: "map_page (start + 0x2000) 0 stack_flags s1 = Inr s'"
    and t: "t = start + 0x3000" unfolding stack_loop_two [OF a] by (auto simp: res_iff)
  show "t = start + 0x3000" by (rule t)
  note w1 = map_page_wf [OF wf 1]
  note w2 = map_page_wf [OF _ 2]
  show "bump_wf s'" "has_region s' \<longrightarrow> has_region s" using w1 w2 by auto
  show "pf_only s s'" using pf_only_trans [OF pf_only_map_page [OF wf 1] pf_only_map_page [OF _ 2]] w1 by blast
  show "\<exists>s1. map_page (start + 0x1000) 0 stack_flags s = Inr s1 \<and> map_page (start + 0x2000) 0 stack_flags s1 = Inr s'"
    using 1 2 by blast
qed

text \<open>The first half of \<^verbatim>\<open>MMU_alloc_stack\<close>: where the new stack starts.\<close>

definition next_stack :: "'a stack_state_scheme \<Rightarrow> (u64 \<times> 'a stack_state_scheme) res" where
  "next_stack s =
     (if free_thread_stacks_head s \<noteq> NULL then
        bind_res (pop_stack_node kfree km_mem (free_thread_stacks_head s) s) (\<lambda>(stack_top, nxt, s).
          Inr (stack_top - STACK_SIZE - PAGE_SIZE, s\<lparr>free_thread_stacks_head := nxt\<rparr>))
      else Inr (thread_stack_brk s, s\<lparr>thread_stack_brk := thread_stack_brk s + (STACK_SIZE + PAGE_SIZE)\<rparr>))"

lemma km_live_fields:
  "km_live (s\<lparr>free_thread_stacks_head := h\<rparr>) L = km_live s L" "km_live (s\<lparr>thread_stack_brk := b\<rparr>) L = km_live s L"
  for s :: "'a stack_state_scheme"
  by (simp_all add: km_live_def km_inv_def bump_wf_def brk_ok_def pools_ok_def header_ok_def pool_ptr_def cong: owner.case_cong)

lemma next_stack_inv:
  assumes inv: "stk_inv s C S xs n" and left: "xs = [] \<longrightarrow> n < MAX_STACKS"
  shows "\<exists>start s1. next_stack s = Inr (start, s1) \<and> stk_inv s1 C (insert (start + 0x3000) S) (tl xs) (if xs = [] then Suc n else n) \<and>
     start + 0x3000 \<notin> S \<and> (xs \<noteq> [] \<longrightarrow> start + 0x3000 = snd (hd xs)) \<and> (\<forall>(q, j) \<in> C. same_on (km_mem s) (km_mem s1) (unat q) j) \<and>
     stack_state.more s1 = stack_state.more s \<and>
     (\<exists>m ps b h. s1 = s\<lparr>km_mem := m, km_pools := ps, thread_stack_brk := b, free_thread_stacks_head := h\<rparr>)"
proof -
  note d = inv [unfolded stk_inv_def]
  show ?thesis
  proof (cases xs)
    case Nil
    let ?s1 = "s\<lparr>thread_stack_brk := nth_stack (Suc n)\<rparr>"
    have h: "free_thread_stacks_head s = NULL" using d Nil by (simp add: nodes_ok_def)
    then have r: "next_stack s = Inr (nth_stack n, ?s1)" using d by (simp add: next_stack_def nth_stack_Suc)
    have e: "nth_stack n + 0x3000 = nth_stack (Suc n)" by (simp add: nth_stack_def algebra_simps)
    have S: "S = nth_stack ` {1..n}" using d Nil by simp
    have new: "nth_stack (Suc n) \<notin> S"
    proof
      assume "nth_stack (Suc n) \<in> S"
      then obtain k where "nth_stack (Suc n) = nth_stack k" "k \<le> n" by (auto simp: S)
      with nth_stack_inj [of "Suc n" k] left Nil show False by simp
    qed
    have "stk_inv ?s1 C (nth_stack ` {1..Suc n}) [] (Suc n)"
      using d left Nil by (simp add: stk_inv_def km_live_fields nodes_ok_def)
    then have i: "stk_inv ?s1 C (insert (nth_stack (Suc n)) S) [] (Suc n)"
      unfolding S by (simp only: atLeastAtMostSuc_conv image_insert le_add1 One_nat_def le_numeral_extra Suc_le_mono le0)
    have f: "?s1 = s\<lparr>km_mem := km_mem s, km_pools := km_pools s, thread_stack_brk := nth_stack (Suc n), free_thread_stacks_head := free_thread_stacks_head s\<rparr>"
      by (cases s) simp
    show ?thesis unfolding Nil
    proof (intro exI conjI)
      show "next_stack s = Inr (nth_stack n, ?s1)" by (rule r)
      show "stk_inv ?s1 C (insert (nth_stack n + 0x3000) S) (tl []) (if [] = [] then Suc n else n)" using i by (simp only: e list.sel simp_thms if_True)
      show "nth_stack n + 0x3000 \<notin> S" unfolding e by (rule new)
      show "?s1 = s\<lparr>km_mem := km_mem s, km_pools := km_pools s, thread_stack_brk := nth_stack (Suc n), free_thread_stacks_head := free_thread_stacks_head s\<rparr>"
        by (rule f)
    qed (simp_all add: same_on_def split_def)
  next
    case (Cons x ys)
    obtain nd t where x: "x = (nd, t)" by (cases x)
    let ?L = "C \<union> node_blocks xs"
    have live: "km_live s ?L" and nodes: "nodes_ok (km_mem s) ?L (free_thread_stacks_head s) ((nd, t) # ys)"
      using d by (simp_all add: Cons x)
    from kmnodes.pop_node [OF live nodes] obtain s2 nxt where
      p: "pop_stack_node kfree km_mem (free_thread_stacks_head s) s = Inr (t, nxt, s2)" "km_live s2 (?L - {(nd, 16)})"
      "nodes_ok (km_mem s2) (?L - {(nd, 16)}) nxt ys" "\<forall>(q, j) \<in> ?L - {(nd, 16)}. same_on (km_mem s) (km_mem s2) (unat q) j" by blast
    have ndL: "(nd, 16) \<in> ?L" and hd: "free_thread_stacks_head s = nd" "nd \<notin> fst ` set ys" using nodes by (auto simp: nodes_ok_def)
    have nn: "nd \<noteq> NULL" using km_live_bounds [OF live ndL] by simp
    have kf: "kfree nd s = Inr s2" using p(1) by (auto simp: pop_stack_node_def hd res_iff)
    from kfree_node_mmu [OF live ndL kf] obtain m ps where s2: "s2 = s\<lparr>km_mem := m, km_pools := ps\<rparr>" by blast
    have L: "?L - {(nd, 16)} = C \<union> node_blocks ys"
      using d hd(2) by (auto simp: Cons x node_blocks_def)
    let ?s1 = "s2\<lparr>free_thread_stacks_head := nxt\<rparr>"
    have r: "next_stack s = Inr (t - STACK_SIZE - PAGE_SIZE, ?s1)" using p(1) hd nn by (simp add: next_stack_def)
    have top: "t - STACK_SIZE - PAGE_SIZE + 0x3000 = t" by (simp add: STACK_SIZE_def PAGE_SIZE_def)
    have f: "?s1 = s\<lparr>km_mem := m, km_pools := ps, thread_stack_brk := thread_stack_brk s, free_thread_stacks_head := nxt\<rparr>"
      unfolding s2 by (cases s) simp
    have i: "stk_inv ?s1 C (insert t S) ys n"
      using d p(2,3) unfolding L stk_inv_def km_live_fields by (auto simp: Cons x s2 node_blocks_def)
    have tn: "t \<notin> S" using d by (auto simp: Cons x)
    show ?thesis unfolding Cons x
    proof (intro exI conjI)
      show "next_stack s = Inr (t - STACK_SIZE - PAGE_SIZE, ?s1)" by (rule r)
      show "stk_inv ?s1 C (insert (t - STACK_SIZE - PAGE_SIZE + 0x3000) S) (tl ((nd, t) # ys)) (if (nd, t) # ys = [] then Suc n else n)"
        using i by (simp only: top list.sel list.distinct if_False)
      show "t - STACK_SIZE - PAGE_SIZE + 0x3000 \<notin> S" unfolding top by (rule tn)
      show "(nd, t) # ys \<noteq> [] \<longrightarrow> t - STACK_SIZE - PAGE_SIZE + 0x3000 = snd (hd ((nd, t) # ys))" by (simp only: top list.sel snd_conv simp_thms)
      show "\<forall>(q, j) \<in> C. same_on (km_mem s) (km_mem ?s1) (unat q) j" using p(4) unfolding L by auto
      show "stack_state.more ?s1 = stack_state.more s" by (simp add: s2)
      show "?s1 = s\<lparr>km_mem := m, km_pools := ps, thread_stack_brk := thread_stack_brk s, free_thread_stacks_head := nxt\<rparr>" by (rule f)
    qed
  qed
qed

lemma stk_inv_pf_only:
  assumes "stk_inv s C S xs n" and "pf_only s s'" and "bump_wf s'"
  shows "stk_inv s' C S xs n" "km_mem s' = km_mem s" "stack_state.more s' = stack_state.more s"
proof -
  have live: "km_live s (C \<union> node_blocks xs)" using assms(1) by (simp add: stk_inv_def)
  note k = km_live_pf_only [OF live assms(2,3)]
  note f = stack_fields [OF k(3)]
  show "stk_inv s' C S xs n" using assms(1) k(1) unfolding stk_inv_def by (simp add: k(2) f(1,2))
  show "km_mem s' = km_mem s" "stack_state.more s' = stack_state.more s" using k(2) f(3) by simp_all
qed

lemma MMU_alloc_stack_split:
  "MMU_alloc_stack s = bind_res (next_stack s) (\<lambda>(start, s).
     case stack_loop (start + STACK_SIZE + PAGE_SIZE) (start + PAGE_SIZE) s of None \<Rightarrow> Inl Diverge | Some r \<Rightarrow> r)"
  by (simp add: MMU_alloc_stack_def next_stack_def)

lemma stack_room:
  assumes "stk_inv s C S xs n" and "start + 0x3000 \<in> S"
  shows "unat start + 0x3000 < 2 ^ 64" "KERNEL_STACKS_START \<le> start"
proof -
  from stk_inv_stacks [OF assms(1)] assms(2) obtain k where k: "1 \<le> k" "k \<le> MAX_STACKS" "start + 0x3000 = nth_stack k" by auto
  obtain j where j: "k = Suc j" using k(1) by (cases k) auto
  have "start = nth_stack j" using k(3) by (simp add: j nth_stack_def algebra_simps)
  moreover have "j \<le> MAX_STACKS" "j < MAX_STACKS" using k(2) j by simp_all
  ultimately show "unat start + 0x3000 < 2 ^ 64" "KERNEL_STACKS_START \<le> start"
    using unat_nth_stack [of j] by (simp_all add: MAX_STACKS_def word_le_nat_alt KERNEL_STACKS_START_def)
qed

lemma MMU_alloc_stack_inv:
  assumes inv: "stk_inv s C S xs n" and left: "xs = [] \<longrightarrow> n < MAX_STACKS" and r: "MMU_alloc_stack s = Inr (t, s')"
  shows "t \<notin> S \<and> stk_inv s' C (insert t S) (tl xs) (if xs = [] then Suc n else n) \<and> (xs \<noteq> [] \<longrightarrow> t = snd (hd xs)) \<and>
     (\<forall>(q, j) \<in> C. same_on (km_mem s) (km_mem s') (unat q) j) \<and> stack_state.more s' = stack_state.more s"
proof -
  from next_stack_inv [OF inv left] obtain start s1 where
    1: "next_stack s = Inr (start, s1)" "stk_inv s1 C (insert (start + 0x3000) S) (tl xs) (if xs = [] then Suc n else n)"
    "start + 0x3000 \<notin> S" "xs \<noteq> [] \<longrightarrow> start + 0x3000 = snd (hd xs)"
    "\<forall>(q, j) \<in> C. same_on (km_mem s) (km_mem s1) (unat q) j" "stack_state.more s1 = stack_state.more s" by blast
  have wf: "bump_wf s1" using 1(2) km_live_wf by (auto simp: stk_inv_def)
  have a: "unat start + 0x3000 < 2 ^ 64" using stack_room(1) [OF 1(2)] by simp
  from r have l: "(case stack_loop (start + STACK_SIZE + PAGE_SIZE) (start + PAGE_SIZE) s1 of None \<Rightarrow> Inl Diverge | Some r \<Rightarrow> r) = Inr (t, s')"
    by (simp add: MMU_alloc_stack_split 1(1))
  note m = map_pages_stk [OF wf a l]
  note k = stk_inv_pf_only [OF 1(2) m(2,3)]
  show ?thesis using 1(3-6) k m(1) by simp
qed

lemma MMU_free_stack_inv:
  assumes inv: "stk_inv s C S xs n" and t: "t \<in> S" and ft: "fits FTS_SIZE s" and r: "MMU_free_stack t s = Inr s'"
  shows "\<exists>nd. (nd, 16) \<notin> C \<union> node_blocks xs \<and> stk_inv s' C (S - {t}) ((nd, t) # xs) n \<and>
     (\<forall>(q, j) \<in> C. same_on (km_mem s) (km_mem s') (unat q) j) \<and> stack_state.more s' = stack_state.more s"
proof -
  from stk_inv_stacks [OF inv, of t] t obtain k where k: "1 \<le> k" "k \<le> MAX_STACKS" "t = nth_stack k" by auto
  then have t3: "0x3000 \<le> unat t" by (simp add: unat_nth_stack)
  let ?s1 = "snd (free_pf_from_virtual_addr (t - 0x2000) (snd (free_pf_from_virtual_addr (t - 0x1000) s)))"
  have wf: "bump_wf ?s1" using inv km_live_wf by (auto simp: stk_inv_def)
  have po: "pf_only s ?s1" using pf_only_trans [OF pf_only_free_virtual pf_only_free_virtual] .
  note i1 = stk_inv_pf_only [OF inv po wf]
  have ft1: "fits FTS_SIZE ?s1" using ft pf_only_brk [OF po] by (simp add: fits_def)
  let ?L = "C \<union> node_blocks xs"
  from r obtain nd s2 where p: "push_stack_node kmalloc km_mem put_mem t (free_thread_stacks_head ?s1) ?s1 = Inr (nd, s2)"
    and s': "s' = s2\<lparr>free_thread_stacks_head := nd\<rparr>"
    unfolding MMU_free_stack_def free_stack_loop_two [OF t3] by (auto simp: res_iff)
  have live: "km_live ?s1 ?L" and nodes: "nodes_ok (km_mem ?s1) ?L (free_thread_stacks_head ?s1) xs"
    using i1(1) by (simp_all add: stk_inv_def)
  from kmnodes.push_node [OF live nodes ft1 p] have
    q: "(nd, 16) \<notin> ?L" "km_live s2 (insert (nd, 16) ?L)" "nodes_ok (km_mem s2) (insert (nd, 16) ?L) nd ((nd, t) # xs)"
    "\<forall>(q, j) \<in> ?L. same_on (km_mem ?s1) (km_mem s2) (unat q) j" by auto
  from p obtain s3 m where a: "kmalloc FTS_SIZE ?s1 = Inr (nd, s3)" and s2: "s2 = put_mem m s3"
    by (auto simp: push_stack_node_def res_iff Let_def)
  have "km_state.more s2 = km_state.more ?s1" using kmalloc_more [OF live ft1 a] by (simp add: s2 put_mem_def)
  note f = stack_fields [OF this]
  have L: "insert (nd, 16) ?L = C \<union> node_blocks ((nd, t) # xs)" by (auto simp: node_blocks_def)
  have "C \<inter> node_blocks ((nd, t) # xs) = {}" using inv q(1) by (auto simp: stk_inv_def node_blocks_def)
  moreover have "S - {t} \<union> snd ` set ((nd, t) # xs) = nth_stack ` {1..n}" "(S - {t}) \<inter> snd ` set ((nd, t) # xs) = {}" "distinct (map snd ((nd, t) # xs))"
    using inv t by (auto simp: stk_inv_def)
  ultimately have "stk_inv s' C (S - {t}) ((nd, t) # xs) n"
    using q(2,3) i1(1) unfolding L stk_inv_def s' km_live_fields by (simp add: f(1))
  then show ?thesis using q(1,4) f(3) i1(2,3) by (intro exI [of _ nd]) (auto simp: s')
qed

text \<open>A fresh start: no stack was made yet.\<close>

lemma stk_inv_start:
  "km_live s C \<Longrightarrow> thread_stack_brk s = KERNEL_STACKS_START \<Longrightarrow> free_thread_stacks_head s = NULL \<Longrightarrow> stk_inv s C {} [] 0"
  by (simp add: stk_inv_def node_blocks_def nodes_ok_def nth_stack_def)

lemma same_on_trans: "same_on m m' a n \<Longrightarrow> same_on m' m'' a n \<Longrightarrow> same_on m m'' a n"
  by (simp add: same_on_def)

lemma MMU_alloc_stack_halt:
  assumes inv: "stk_inv s C S xs n" and left: "xs = [] \<longrightarrow> n < MAX_STACKS"
  shows "MMU_alloc_stack s = Inl OutOfMemory \<or> (\<exists>t s'. MMU_alloc_stack s = Inr (t, s'))"
proof -
  from next_stack_inv [OF inv left] obtain start s1 where
    1: "next_stack s = Inr (start, s1)" "stk_inv s1 C (insert (start + 0x3000) S) (tl xs) (if xs = [] then Suc n else n)" by blast
  have wf: "bump_wf s1" using 1(2) km_live_wf by (auto simp: stk_inv_def)
  have a: "unat start + 0x3000 < 2 ^ 64" using stack_room(1) [OF 1(2)] by simp
  have e: "MMU_alloc_stack s = bind_res (map_page (start + 0x1000) 0 stack_flags s1) (\<lambda>s.
       bind_res (map_page (start + 0x2000) 0 stack_flags s) (\<lambda>s. Inr (start + 0x3000, s)))"
    unfolding MMU_alloc_stack_split 1(1) by (simp add: stack_loop_two [OF a])
  show ?thesis
  proof (cases "map_page (start + 0x1000) 0 stack_flags s1")
    case (Inl x)
    then show ?thesis using e map_page_halt [OF wf Inl] by simp
  next
    case (Inr s2)
    have wf2: "bump_wf s2" using map_page_wf [OF wf Inr] by simp
    show ?thesis using e Inr map_page_halt [OF wf2] by (cases "map_page (start + 0x2000) 0 stack_flags s2") auto
  qed
qed

lemma MMU_alloc_stack_pages:
  assumes inv: "stk_inv s C S xs n" and left: "xs = [] \<longrightarrow> n < MAX_STACKS" and mmu: "mmu_inv s A F"
    and r: "MMU_alloc_stack s = Inr (t, s')" and live: "has_region s'"
  shows "(\<exists>A' F'. mmu_inv s' A' F' \<and> A \<subseteq> A' \<and> grows True A' (pt_root s) (pf_mem s) (pf_mem s')) \<and> pt_root s' = pt_root s \<and>
     (\<forall>v. eff_pte (pf_mem s') (pt_root s') v =
        (if same_page v (t - 0x1000) \<or> same_page v (t - 0x2000) then stack_flags else eff_pte (pf_mem s) (pt_root s) v))"
proof -
  from next_stack_inv [OF inv left] obtain start s1 m ps b h where
    1: "next_stack s = Inr (start, s1)" "stk_inv s1 C (insert (start + 0x3000) S) (tl xs) (if xs = [] then Suc n else n)"
    and s1: "s1 = s\<lparr>km_mem := m, km_pools := ps, thread_stack_brk := b, free_thread_stacks_head := h\<rparr>" by blast
  have wf: "bump_wf s1" using 1(2) km_live_wf by (auto simp: stk_inv_def)
  have a: "unat start + 0x3000 < 2 ^ 64" and high: "KERNEL_STACKS_START \<le> start" using stack_room [OF 1(2)] by simp_all
  from r have l: "(case stack_loop (start + STACK_SIZE + PAGE_SIZE) (start + PAGE_SIZE) s1 of None \<Rightarrow> Inl Diverge | Some r \<Rightarrow> r) = Inr (t, s')"
    by (simp add: MMU_alloc_stack_split 1(1))
  note mp = map_pages_stk [OF wf a l]
  then obtain s2 where 2: "map_page (start + 0x1000) 0 stack_flags s1 = Inr s2" and 3: "map_page (start + 0x2000) 0 stack_flags s2 = Inr s'" by blast
  have m1: "mmu_inv s1 A F" using mmu by (simp add: s1 mmu_inv_def pf_inv_def bump_wf_def has_region_def bump_used_def pt_root_def)
  have hs: "KERNEL_HEAP_START \<le> start + 0x1000" "KERNEL_HEAP_START \<le> start + 0x2000"
    using a high by (auto simp: word_le_nat_alt KERNEL_HEAP_START_def KERNEL_STACKS_START_def unat_word_ariths)
  have l2: "has_region s2" using map_page_wf [OF _ 3] map_page_wf [OF wf 2] live by blast
  from map_page_step [OF m1 pml4_high(2) [OF hs(1)] pml4_high(1) [OF hs(1)] 2 l2] obtain A2 F2 where
    i2: "mmu_inv s2 A2 F2" "A \<subseteq> A2" "pt_root s2 = pt_root s1" and e2: "\<And>w. eff_pte (pf_mem s2) (pt_root s1) w =
        (if same_page w (start + 0x1000) then 0 OR stack_flags else eff_pte (pf_mem s1) (pt_root s1) w)"
    and g2: "grows (pml4_index (start + 0x1000) < 256 \<longrightarrow> open_entry stack_flags) A2 (pt_root s1) (pf_mem s1) (pf_mem s2)" by blast
  from map_page_step [OF i2(1) pml4_high(2) [OF hs(2)] pml4_high(1) [OF hs(2)] 3 live] obtain A3 F3 where
    i3: "mmu_inv s' A3 F3" "A2 \<subseteq> A3" "pt_root s' = pt_root s2" and e3: "\<And>w. eff_pte (pf_mem s') (pt_root s2) w =
        (if same_page w (start + 0x2000) then 0 OR stack_flags else eff_pte (pf_mem s2) (pt_root s2) w)"
    and g3: "grows (pml4_index (start + 0x2000) < 256 \<longrightarrow> open_entry stack_flags) A3 (pt_root s2) (pf_mem s2) (pf_mem s')" by blast
  have g2': "grows True A2 (pt_root s1) (pf_mem s1) (pf_mem s2)"
    by (rule grows_weak [OF g2]) (use pml4_upper [OF hs(1)] in simp)
  have g3': "grows True A3 (pt_root s2) (pf_mem s2) (pf_mem s')"
    by (rule grows_weak [OF g3]) (use pml4_upper [OF hs(2)] in simp)
  have gr: "grows True A3 (pt_root s1) (pf_mem s1) (pf_mem s')"
    by (rule grows_trans [OF g2' g3' [unfolded i2(3)] i3(2)])
  have t: "t - 0x1000 = start + 0x2000" "t - 0x2000 = start + 0x1000" using mp(1) by simp_all
  have "A \<subseteq> A3" using i2(2) i3(2) by blast
  moreover have "pf_mem s1 = pf_mem s" "pt_root s1 = pt_root s" by (simp_all add: s1 pt_root_def)
  ultimately show ?thesis using i3(1) gr unfolding i3(3) t unfolding e3 unfolding i2(3) unfolding e2 by auto
qed

section \<open>Properties\<close>

text \<open>
  C32: \<^verbatim>\<open>MMU_alloc_stack\<close> only fails when memory is used up. Otherwise, as long as the frame allocator stays inside the
  memory map, it gives a stack that is not in use and overlaps none in use, guard pages included, the one given back last if there is
  one. Its two pages are reserved for data, no other page of the address space changes, and neither does any block of the heap
  that is in use - although the link of the list node is read after the node was freed.
\<close>

theorem MMU_alloc_stack_gives_stack:
  assumes "stk_inv s C S xs n" and "xs = [] \<longrightarrow> n < MAX_STACKS" and "mmu_inv s A F"
  shows "(MMU_alloc_stack s = Inl OutOfMemory \<or> (\<exists>t s'. MMU_alloc_stack s = Inr (t, s'))) \<and>
     (\<forall>t s'. MMU_alloc_stack s = Inr (t, s') \<longrightarrow> has_region s' \<longrightarrow>
        t \<notin> S \<and> (\<forall>u \<in> S. stacks_apart t u) \<and> (xs \<noteq> [] \<longrightarrow> t = snd (hd xs)) \<and>
        stk_inv s' C (insert t S) (tl xs) (if xs = [] then Suc n else n) \<and>
        (\<exists>A' F'. mmu_inv s' A' F' \<and> A \<subseteq> A') \<and>
        (\<forall>v. eff_pte (pf_mem s') (pt_root s') v =
           (if same_page v (t - 0x1000) \<or> same_page v (t - 0x2000) then stack_flags else eff_pte (pf_mem s) (pt_root s) v)) \<and>
        (\<forall>(q, j) \<in> C. same_on (km_mem s) (km_mem s') (unat q) j))"
proof (intro conjI [OF MMU_alloc_stack_halt [OF assms(1,2)]] allI impI)
  fix t s'
  assume r: "MMU_alloc_stack s = Inr (t, s')" and live: "has_region s'"
  note i = MMU_alloc_stack_inv [OF assms(1,2) r]
  then have i': "stk_inv s' C (insert t S) (tl xs) (if xs = [] then Suc n else n)" by blast
  have "stacks_apart t u" if u: "u \<in> S" for u
  proof -
    obtain j where j: "j \<le> MAX_STACKS" "t = nth_stack j" using stk_inv_stacks [OF i', of t] by blast
    obtain k where k: "k \<le> MAX_STACKS" "u = nth_stack k" using stk_inv_stacks [OF i', of u] u by blast
    have "j \<noteq> k" using i u j(2) k(2) by blast
    from nth_stacks_apart [OF j(1) k(1) this] show ?thesis by (simp only: j(2) k(2))
  qed
  with i i' MMU_alloc_stack_pages [OF assms r live] show "t \<notin> S \<and> (\<forall>u \<in> S. stacks_apart t u) \<and> (xs \<noteq> [] \<longrightarrow> t = snd (hd xs)) \<and>
        stk_inv s' C (insert t S) (tl xs) (if xs = [] then Suc n else n) \<and>
        (\<exists>A' F'. mmu_inv s' A' F' \<and> A \<subseteq> A') \<and>
        (\<forall>v. eff_pte (pf_mem s') (pt_root s') v =
           (if same_page v (t - 0x1000) \<or> same_page v (t - 0x2000) then stack_flags else eff_pte (pf_mem s) (pt_root s) v)) \<and>
        (\<forall>(q, j) \<in> C. same_on (km_mem s) (km_mem s') (unat q) j)"
    by blast
qed

text \<open>
  C33: A stack that is given back is the next one handed out, and everything is as before: the same stacks are in
  use and free, and no block of the heap that is in use has changed.
\<close>

theorem MMU_free_then_alloc_stack:
  assumes "stk_inv s C S xs n" and "t \<in> S" and "fits FTS_SIZE s"
    and "MMU_free_stack t s = Inr s1" and "MMU_alloc_stack s1 = Inr (u, s2)"
  shows "u = t \<and> stk_inv s2 C S xs n \<and> (\<forall>(q, j) \<in> C. same_on (km_mem s) (km_mem s2) (unat q) j)"
proof -
  from MMU_free_stack_inv [OF assms(1-4)] obtain nd where f: "stk_inv s1 C (S - {t}) ((nd, t) # xs) n"
    "\<forall>(q, j) \<in> C. same_on (km_mem s) (km_mem s1) (unat q) j" by blast
  from MMU_alloc_stack_inv [OF f(1) _ assms(5)] have a: "u = t" "stk_inv s2 C (insert t (S - {t})) xs n"
    "\<forall>(q, j) \<in> C. same_on (km_mem s1) (km_mem s2) (unat q) j" by auto
  have "insert t (S - {t}) = S" using assms(2) by blast
  moreover have "same_on (km_mem s) (km_mem s2) (unat q) j" if "(q, j) \<in> C" for q j
    using same_on_trans [of "km_mem s" "km_mem s1" "unat q" j "km_mem s2"] a(3) f(2) that by blast
  ultimately show ?thesis using a by auto
qed

text \<open>The example: the heap and the page tables of the examples before, no stack yet.\<close>

definition stk_example :: stack_state where
  "stk_example = km_state.extend km_example \<lparr>thread_stack_brk = KERNEL_STACKS_START, free_thread_stacks_head = NULL\<rparr>"

lemma stk_example_fields [simp]:
  "pf_mem stk_example = pf_mem km_example" "pf_map stk_example = pf_map km_example" "pf_free_pool stk_example = pf_free_pool km_example"
  "pf_current stk_example = pf_current km_example" "pf_region stk_example = pf_region km_example" "mu_pml4 stk_example = mu_pml4 km_example"
  "hp_brk stk_example = hp_brk km_example" "km_mem stk_example = km_mem km_example" "km_pools stk_example = km_pools km_example"
  "km_base stk_example = km_base km_example" "thread_stack_brk stk_example = KERNEL_STACKS_START" "free_thread_stacks_head stk_example = NULL"
  by (simp_all add: stk_example_def km_state.defs km_example_def)

lemma stk_example_inv: "stk_inv stk_example {} {} [] 0" and stk_example_mmu: "mmu_inv stk_example {0x102000} []"
  and stk_example_room: "room 100 stk_example"
proof -
  have "km_live stk_example {}"
    using km_example_live
    by (simp add: km_live_def km_inv_def bump_wf_def brk_ok_def pools_ok_def header_ok_def pool_ptr_def cong: owner.case_cong)
  then show "stk_inv stk_example {} {} [] 0" by (rule stk_inv_start) simp_all
  show "mmu_inv stk_example {0x102000} []"
    using mmu_big_example_inv
    by (simp add: mmu_inv_def pf_inv_def bump_wf_def has_region_def bump_used_def pt_root_def km_example_def mmu_big_example_def mmu_example_def)
  show "room 100 stk_example" using km_example_room by (simp add: room_def bump_core_def)
qed

lemma MMU_alloc_stack_brk:
  assumes inv: "stk_inv s C S xs n" and left: "xs = [] \<longrightarrow> n < MAX_STACKS" and r: "MMU_alloc_stack s = Inr (t, s')"
  shows "hp_brk s' = hp_brk s"
proof -
  from next_stack_inv [OF inv left] obtain start s1 where
    1: "next_stack s = Inr (start, s1)" "stk_inv s1 C (insert (start + 0x3000) S) (tl xs) (if xs = [] then Suc n else n)"
    and h: "hp_brk s1 = hp_brk s" by fastforce
  have wf: "bump_wf s1" using 1(2) km_live_wf by (auto simp: stk_inv_def)
  have a: "unat start + 0x3000 < 2 ^ 64" using stack_room(1) [OF 1(2)] by simp
  have "(case stack_loop (start + STACK_SIZE + PAGE_SIZE) (start + PAGE_SIZE) s1 of None \<Rightarrow> Inl Diverge | Some r \<Rightarrow> r) = Inr (t, s')"
    using r by (simp add: MMU_alloc_stack_split 1(1))
  from pf_only_brk [OF map_pages_stk(2) [OF wf a this]] h show ?thesis by simp
qed

lemma stack_progress:
  assumes inv: "stk_inv s C S xs n" and left: "xs = [] \<longrightarrow> n < MAX_STACKS" and rm: "room (Suc (Suc (Suc (Suc (Suc (Suc k)))))) s"
  shows "\<exists>t s'. MMU_alloc_stack s = Inr (t, s') \<and> room k s'"
proof -
  from next_stack_inv [OF inv left] obtain start s1 m ps b h where
    1: "next_stack s = Inr (start, s1)" "stk_inv s1 C (insert (start + 0x3000) S) (tl xs) (if xs = [] then Suc n else n)"
    and s1: "s1 = s\<lparr>km_mem := m, km_pools := ps, thread_stack_brk := b, free_thread_stacks_head := h\<rparr>" by blast
  have a: "unat start + 0x3000 < 2 ^ 64" using stack_room(1) [OF 1(2)] by simp
  have "room (Suc (Suc (Suc (Suc (Suc (Suc k)))))) s1" using rm by (simp add: s1 room_def bump_core_def)
  from room_map_page [OF this] obtain s2 where 2: "map_page (start + 0x1000) 0 stack_flags s1 = Inr s2" "room (Suc (Suc (Suc k))) s2" by blast
  from room_map_page [OF 2(2)] obtain s3 where 3: "map_page (start + 0x2000) 0 stack_flags s2 = Inr s3" "room k s3" by blast
  have "MMU_alloc_stack s = Inr (start + 0x3000, s3)"
    unfolding MMU_alloc_stack_split 1(1) using 2(1) 3(1) by (simp add: stack_loop_two [OF a])
  with 3(2) show ?thesis by blast
qed

theorem MMU_alloc_stack_gives_stack_witness:
  "\<exists>t s'. MMU_alloc_stack stk_example = Inr (t, s') \<and> stk_inv s' {} {t} [] 1 \<and>
     eff_pte (pf_mem s') (pt_root s') (t - 0x1000) = stack_flags"
proof -
  have left: "[] = [] \<longrightarrow> 0 < MAX_STACKS" by (simp add: MAX_STACKS_def)
  obtain t s' where r: "MMU_alloc_stack stk_example = Inr (t, s')" "has_region s'"
    using stack_progress [OF stk_example_inv left, of 94] stk_example_room room_region by auto
  from MMU_alloc_stack_gives_stack [OF stk_example_inv left stk_example_mmu] r
  have "stk_inv s' {} {t} [] 1" "eff_pte (pf_mem s') (pt_root s') (t - 0x1000) = stack_flags"
    by (auto simp: same_page_def)
  with r show ?thesis by blast
qed

text \<open>One stack is in use, and nothing is mapped.\<close>

definition stk_used_example :: stack_state where
  "stk_used_example = stk_example\<lparr>thread_stack_brk := nth_stack 1\<rparr>"

lemma free_pf_empty:
  assumes "pf_mem s = (\<lambda>_. 0)"
  shows "snd (free_pf_from_virtual_addr v s) = s"
proof -
  have "s\<lparr>pf_mem := \<lambda>_. 0\<rparr> = s" using assms by (cases s) simp
  then show ?thesis using assms
    by (simp add: free_pf_from_virtual_addr_def Let_def dm_read_def dm_write_def pte_present_def fun_upd_def)
qed

lemma stk_used_example_inv: "stk_inv stk_used_example {} {nth_stack 1} [] 1"
proof -
  have "km_live stk_example {}" using stk_example_inv by (simp add: stk_inv_def node_blocks_def)
  then show ?thesis
    by (simp add: stk_inv_def stk_used_example_def km_live_fields node_blocks_def nodes_ok_def MAX_STACKS_def)
qed

theorem MMU_free_then_alloc_stack_witness:
  "\<exists>s2 s3. MMU_free_stack (nth_stack 1) stk_used_example = Inr s2 \<and> MMU_alloc_stack s2 = Inr (nth_stack 1, s3)"
proof -
  let ?s = stk_used_example
  have e: "pf_mem ?s = (\<lambda>_. 0)" by (simp add: stk_used_example_def km_example_def)
  have t3: "0x3000 \<le> unat (nth_stack 1)" using unat_nth_stack [of 1] by (simp add: MAX_STACKS_def)
  have ft: "fits FTS_SIZE ?s" by (simp add: fits_def FTS_SIZE_def stk_used_example_def km_example_def KERNEL_HEAP_START_def KERNEL_STACKS_START_def)
  have rm: "room (Suc (Suc (Suc 97))) ?s" using stk_example_room by (simp add: stk_used_example_def room_def bump_core_def)
  have live: "km_live ?s {}" using stk_used_example_inv by (simp add: stk_inv_def node_blocks_def)
  then obtain Fr U where inv: "km_inv ?s Fr U" by (auto simp: km_live_def)
  obtain nd s1 where k: "kmalloc FTS_SIZE ?s = Inr (nd, s1)" "room 97 s1"
    using kmalloc_pool_progress [OF inv rm, of FTS_SIZE 0]
    by (auto simp: stk_used_example_def km_example_def initial_pools_def pool_sizes_def HEADER_SIZE_def FTS_SIZE_def
        KERNEL_HEAP_START_def KERNEL_STACKS_START_def)
  obtain s2 where f: "MMU_free_stack (nth_stack 1) ?s = Inr s2" "room 97 s2"
    unfolding MMU_free_stack_def free_stack_loop_two [OF t3] free_pf_empty [OF e]
    using k by (auto simp: push_stack_node_def put_mem_def room_def bump_core_def Let_def)
  from MMU_free_stack_inv [OF stk_used_example_inv _ ft f(1)] obtain n' where i2: "stk_inv s2 {} {} [(n', nth_stack 1)] 1" by auto
  obtain u s3 where a: "MMU_alloc_stack s2 = Inr (u, s3)" using stack_progress [OF i2, of 91] f(2) by auto
  from MMU_free_then_alloc_stack [OF stk_used_example_inv _ ft f(1) a] have "u = nth_stack 1" by simp
  with f a show ?thesis by blast
qed

end
