(* ===== verification/Gdt.thy ===== *)
theory Gdt
  imports Irq
begin

text \<open>
  The segment descriptors and the task state segment (\<^verbatim>\<open>gdt.c\<close>): the table the kernel replaces the boot
  table with, as packed structures and as the 64 bit words the processor reads.
\<close>

section \<open>State and operations\<close>

definition TSS_SELECTOR :: u16 where "TSS_SELECTOR = 0x28"
definition TSS_TYPE :: "4 word" where "TSS_TYPE = 0x9"
definition KERNEL_DATA_SELECTOR :: u16 where "KERNEL_DATA_SELECTOR = 0x10"
definition USER_CODE_SELECTOR :: u16 where "USER_CODE_SELECTOR = 0x18"
definition USER_DATA_SELECTOR :: u16 where "USER_DATA_SELECTOR = 0x20"

record tss_descriptor =
  td_limit_15_0 :: u16
  td_addr_15_0 :: u16
  td_addr_23_16 :: u8
  td_type :: "4 word"
  td_zero :: "1 word"
  td_dpl :: "2 word"
  td_present :: "1 word"
  td_limit_19_16 :: "4 word"
  td_avl :: "1 word"
  td_res1 :: "2 word"
  td_g :: "1 word"
  td_addr_31_24 :: u8
  td_addr_63_32 :: u32
  td_res2 :: u32

record code_descriptor =
  cd_limit_15_0 :: u16
  cd_addr_15_0 :: u16
  cd_addr_23_16 :: u8
  cd_a :: "1 word"
  cd_r :: "1 word"
  cd_c :: "1 word"
  cd_one1 :: "1 word"
  cd_one2 :: "1 word"
  cd_dpl :: "2 word"
  cd_present :: "1 word"
  cd_limit_19_16 :: "4 word"
  cd_avl :: "1 word"
  cd_l :: "1 word"
  cd_d :: "1 word"
  cd_g :: "1 word"
  cd_addr_31_24 :: u8

record data_descriptor =
  dd_limit_15_0 :: u16
  dd_addr_15_0 :: u16
  dd_addr_23_16 :: u8
  dd_a :: "1 word"
  dd_w :: "1 word"
  dd_e :: "1 word"
  dd_zero :: "1 word"
  dd_one :: "1 word"
  dd_dpl :: "2 word"
  dd_p :: "1 word"
  dd_limit_19_16 :: "4 word"
  dd_avl :: "1 word"
  dd_l :: "1 word"
  dd_db :: "1 word"
  dd_g :: "1 word"
  dd_addr_31_24 :: u8

record gdt_table =
  null_descriptor :: u64
  kernel_code_descriptor :: code_descriptor
  kernel_data_descriptor :: data_descriptor
  user_code_descriptor :: code_descriptor
  user_data_descriptor :: data_descriptor
  tss_entry :: tss_descriptor

text \<open>The reserved fields of the task state segment are never used.\<close>

record tss =
  tss_rsp :: "u64 list"
  tss_ist :: "u64 list"
  io_map_base_addr :: u16

text \<open>
  \<open>gd_gdtr\<close> is the address and limit the processor was given, \<open>gd_tr\<close> the selector in the task register;
  \<open>gd_gdt_addr\<close> and \<open>gd_tss_addr\<close> are the addresses of the two static structures.
\<close>

record gdt_state =
  gd_gdt :: gdt_table
  gd_tss :: tss
  gd_gdt_addr :: u64
  gd_tss_addr :: u64
  gd_gdtr :: "u64 \<times> u16"
  gd_tr :: u16

text \<open>Sizes of the packed structures.\<close>

definition sizeof_gdt :: u16 where "sizeof_gdt = 8 + 4 * 8 + 16"
definition sizeof_tss :: u32 where "sizeof_tss = 4 + 3 * 8 + 8 + 7 * 8 + 8 + 2 + 2"

text \<open>A code descriptor in memory.\<close>

definition code_word :: "code_descriptor \<Rightarrow> u64" where
  "code_word d =
     ucast (cd_limit_15_0 d) OR push_bit 16 (ucast (cd_addr_15_0 d)) OR push_bit 32 (ucast (cd_addr_23_16 d)) OR
     push_bit 40 (ucast (cd_a d)) OR push_bit 41 (ucast (cd_r d)) OR push_bit 42 (ucast (cd_c d)) OR
     push_bit 43 (ucast (cd_one1 d)) OR push_bit 44 (ucast (cd_one2 d)) OR push_bit 45 (ucast (cd_dpl d)) OR
     push_bit 47 (ucast (cd_present d)) OR push_bit 48 (ucast (cd_limit_19_16 d)) OR push_bit 52 (ucast (cd_avl d)) OR
     push_bit 53 (ucast (cd_l d)) OR push_bit 54 (ucast (cd_d d)) OR push_bit 55 (ucast (cd_g d)) OR
     push_bit 56 (ucast (cd_addr_31_24 d))"

definition code_of_word :: "u64 \<Rightarrow> code_descriptor" where
  "code_of_word w =
     \<lparr>cd_limit_15_0 = ucast w, cd_addr_15_0 = ucast (drop_bit 16 w), cd_addr_23_16 = ucast (drop_bit 32 w),
      cd_a = ucast (drop_bit 40 w), cd_r = ucast (drop_bit 41 w), cd_c = ucast (drop_bit 42 w),
      cd_one1 = ucast (drop_bit 43 w), cd_one2 = ucast (drop_bit 44 w), cd_dpl = ucast (drop_bit 45 w),
      cd_present = ucast (drop_bit 47 w), cd_limit_19_16 = ucast (drop_bit 48 w), cd_avl = ucast (drop_bit 52 w),
      cd_l = ucast (drop_bit 53 w), cd_d = ucast (drop_bit 54 w), cd_g = ucast (drop_bit 55 w),
      cd_addr_31_24 = ucast (drop_bit 56 w)\<rparr>"

definition data_word :: "data_descriptor \<Rightarrow> u64" where
  "data_word d =
     ucast (dd_limit_15_0 d) OR push_bit 16 (ucast (dd_addr_15_0 d)) OR push_bit 32 (ucast (dd_addr_23_16 d)) OR
     push_bit 40 (ucast (dd_a d)) OR push_bit 41 (ucast (dd_w d)) OR push_bit 42 (ucast (dd_e d)) OR
     push_bit 43 (ucast (dd_zero d)) OR push_bit 44 (ucast (dd_one d)) OR push_bit 45 (ucast (dd_dpl d)) OR
     push_bit 47 (ucast (dd_p d)) OR push_bit 48 (ucast (dd_limit_19_16 d)) OR push_bit 52 (ucast (dd_avl d)) OR
     push_bit 53 (ucast (dd_l d)) OR push_bit 54 (ucast (dd_db d)) OR push_bit 55 (ucast (dd_g d)) OR
     push_bit 56 (ucast (dd_addr_31_24 d))"

definition tss_word_low :: "tss_descriptor \<Rightarrow> u64" where
  "tss_word_low d =
     ucast (td_limit_15_0 d) OR push_bit 16 (ucast (td_addr_15_0 d)) OR push_bit 32 (ucast (td_addr_23_16 d)) OR
     push_bit 40 (ucast (td_type d)) OR push_bit 44 (ucast (td_zero d)) OR push_bit 45 (ucast (td_dpl d)) OR
     push_bit 47 (ucast (td_present d)) OR push_bit 48 (ucast (td_limit_19_16 d)) OR push_bit 52 (ucast (td_avl d)) OR
     push_bit 53 (ucast (td_res1 d)) OR push_bit 55 (ucast (td_g d)) OR push_bit 56 (ucast (td_addr_31_24 d))"

definition tss_word_high :: "tss_descriptor \<Rightarrow> u64" where
  "tss_word_high d = ucast (td_addr_63_32 d) OR push_bit 32 (ucast (td_res2 d))"

text \<open>The table as the processor sees it.\<close>

definition gdt_words :: "gdt_table \<Rightarrow> u64 list" where
  "gdt_words g =
     [null_descriptor g, code_word (kernel_code_descriptor g), data_word (kernel_data_descriptor g),
      code_word (user_code_descriptor g), data_word (user_data_descriptor g),
      tss_word_low (tss_entry g), tss_word_high (tss_entry g)]"

text \<open>The boot table, \<^verbatim>\<open>gdt64\<close> of \<^verbatim>\<open>boot/boot.asm\<close>: the null descriptor and the kernel's code segment.\<close>

definition boot_gdt :: "u64 list" where
  "boot_gdt = [0, push_bit 43 1 OR push_bit 44 1 OR push_bit 47 1 OR push_bit 53 1]"

text \<open>
  \<^verbatim>\<open>GDT_remap\<close>: the first two words are copied from the boot table \<^verbatim>\<open>gdt64\<close>, whose words are the argument.
\<close>

definition GDT_remap :: "u64 list \<Rightarrow> 'a gdt_state_scheme \<Rightarrow> 'a gdt_state_scheme" where
  "GDT_remap gdt64 s =
     (let g = (gd_gdt s)\<lparr>null_descriptor := gdt64 ! 0, kernel_code_descriptor := code_of_word (gdt64 ! 1)\<rparr>;
          uc = (user_code_descriptor g)
            \<lparr>cd_limit_15_0 := 0xFFFF, cd_limit_19_16 := 0xF, cd_one1 := 1, cd_one2 := 1, cd_dpl := USER_DPL,
             cd_present := 1, cd_l := 1, cd_r := 1\<rparr>;
          g = g\<lparr>user_code_descriptor := uc\<rparr>;
          ud = (user_data_descriptor g)
            \<lparr>dd_one := 1, dd_limit_15_0 := 0xFFFF, dd_limit_19_16 := 0xF, dd_dpl := USER_DPL, dd_p := 1, dd_w := 1\<rparr>;
          g = g\<lparr>user_data_descriptor := ud\<rparr>
      in s\<lparr>gd_gdt := g, gd_gdtr := (gd_gdt_addr s, sizeof_gdt - 1)\<rparr>)"

text \<open>\<^verbatim>\<open>TSS_init\<close>; the arguments are the tops of the three interrupt stacks of the boot code.\<close>

definition TSS_init :: "u64 \<Rightarrow> u64 \<Rightarrow> u64 \<Rightarrow> 'a gdt_state_scheme \<Rightarrow> 'a gdt_state_scheme" where
  "TSS_init ist_stack1_top ist_stack2_top ist_stack3_top s =
     (let tss_limit = sizeof_tss - 1;
          tss_addr = gd_tss_addr s;
          t = (gd_tss s)\<lparr>tss_ist := (tss_ist (gd_tss s))[0 := ist_stack1_top, 1 := ist_stack2_top, 2 := ist_stack3_top]\<rparr>;
          t = t\<lparr>io_map_base_addr := 0xFFFF\<rparr>;
          d = (tss_entry (gd_gdt s))
            \<lparr>td_limit_15_0 := ucast (tss_limit AND 0xFFFF), td_limit_19_16 := ucast (drop_bit 16 tss_limit AND 0xF),
             td_addr_15_0 := ucast (tss_addr AND 0xFFFF), td_addr_23_16 := ucast (drop_bit 16 tss_addr AND 0xFF),
             td_addr_31_24 := ucast (drop_bit 24 tss_addr AND 0xFF),
             td_addr_63_32 := ucast (drop_bit 32 tss_addr AND 0xFFFFFFFF),
             td_type := TSS_TYPE, td_zero := 0, td_present := 1, td_avl := 0, td_res1 := 0, td_g := 0, td_res2 := 0\<rparr>
      in s\<lparr>gd_gdt := (gd_gdt s)\<lparr>tss_entry := d\<rparr>, gd_tss := t, gd_tr := TSS_SELECTOR\<rparr>)"

text \<open>Stores outside the arrays of the segment are accesses to no object.\<close>

fun TSS_remap_loop :: "u64 list \<Rightarrow> nat \<Rightarrow> nat \<Rightarrow> 'a gdt_state_scheme \<Rightarrow> 'a gdt_state_scheme res" where
  "TSS_remap_loop stack_tops i 0 s = Inr s"
| "TSS_remap_loop stack_tops i (Suc n) s =
     (if i < length stack_tops \<and> i < length (tss_ist (gd_tss s)) then
        TSS_remap_loop stack_tops (Suc i) n (s\<lparr>gd_tss := (gd_tss s)\<lparr>tss_ist := (tss_ist (gd_tss s))[i := stack_tops ! i]\<rparr>\<rparr>)
      else Inl BadAccess)"

definition TSS_remap :: "u64 list \<Rightarrow> int \<Rightarrow> 'a gdt_state_scheme \<Rightarrow> 'a gdt_state_scheme res" where
  "TSS_remap stack_tops n s = TSS_remap_loop stack_tops 0 (nat n) s"

definition TSS_set_ist :: "u64 \<Rightarrow> int \<Rightarrow> 'a gdt_state_scheme \<Rightarrow> 'a gdt_state_scheme res" where
  "TSS_set_ist stack_top ist s =
     (if 1 \<le> ist \<and> ist \<le> int (length (tss_ist (gd_tss s)))
      then Inr (s\<lparr>gd_tss := (gd_tss s)\<lparr>tss_ist := (tss_ist (gd_tss s))[nat (ist - 1) := stack_top]\<rparr>\<rparr>)
      else Inl BadAccess)"

definition TSS_set_rsp :: "u64 \<Rightarrow> int \<Rightarrow> 'a gdt_state_scheme \<Rightarrow> 'a gdt_state_scheme res" where
  "TSS_set_rsp stack_top rsp s =
     (if 0 \<le> rsp \<and> rsp < int (length (tss_rsp (gd_tss s)))
      then Inr (s\<lparr>gd_tss := (gd_tss s)\<lparr>tss_rsp := (tss_rsp (gd_tss s))[nat rsp := stack_top]\<rparr>\<rparr>)
      else Inl BadAccess)"

section \<open>What the processor reads\<close>

lemma no_bit: "LENGTH('a) \<le> n \<Longrightarrow> \<not> bit (w :: 'a::len word) n"
  using bit_imp_le_length by (metis leD)

lemma code_word_roundtrip: "code_word (code_of_word w) = w"
proof (rule bit_eqI)
  fix n
  assume "possible_bit TYPE(64 word) n"
  then have n: "n < 64" by simp
  then have "n < 16 \<or> (16 \<le> n \<and> n < 32) \<or> (32 \<le> n \<and> n < 40) \<or> n = 40 \<or> n = 41 \<or> n = 42 \<or> n = 43 \<or> n = 44 \<or> n = 45 \<or> n = 46 \<or> n = 47 \<or>
      (48 \<le> n \<and> n < 52) \<or> n = 52 \<or> n = 53 \<or> n = 54 \<or> n = 55 \<or> 56 \<le> n" by arith
  then show "bit (code_word (code_of_word w)) n = bit w n"
    using n by (elim disjE conjE) (auto simp: code_word_def code_of_word_def bit_simps no_bit)
qed

text \<open>The fields of a segment descriptor, as the processor's manual numbers its bits.\<close>

record segment =
  sg_present :: bool
  sg_dpl :: "2 word"
  sg_ordinary :: bool
  sg_code :: bool
  sg_rw :: bool
  sg_long :: bool

definition decode_segment :: "u64 \<Rightarrow> segment" where
  "decode_segment w =
     \<lparr>sg_present = bit w 47, sg_dpl = ucast (drop_bit 45 w), sg_ordinary = bit w 44, sg_code = bit w 43, sg_rw = bit w 41, sg_long = bit w 53\<rparr>"

text \<open>A system descriptor takes two words: type, whether it is present, base and limit.\<close>

definition decode_system :: "u64 \<Rightarrow> u64 \<Rightarrow> 4 word \<times> bool \<times> u64 \<times> nat" where
  "decode_system lo hi =
     (ucast (drop_bit 40 lo), bit lo 47,
      take_bit 24 (drop_bit 16 lo) OR push_bit 24 (take_bit 8 (drop_bit 56 lo)) OR push_bit 32 (take_bit 32 hi),
      unat (take_bit 16 lo OR push_bit 16 (take_bit 4 (drop_bit 48 lo))))"

text \<open>The word a selector names.\<close>

definition selected :: "gdt_table \<Rightarrow> u16 \<Rightarrow> u64" where
  "selected g sel = gdt_words g ! unat (drop_bit 3 sel)"

definition zero_code :: code_descriptor where "zero_code = code_of_word 0"

definition zero_data :: data_descriptor where
  "zero_data = \<lparr>dd_limit_15_0 = 0, dd_addr_15_0 = 0, dd_addr_23_16 = 0, dd_a = 0, dd_w = 0, dd_e = 0, dd_zero = 0, dd_one = 0,
     dd_dpl = 0, dd_p = 0, dd_limit_19_16 = 0, dd_avl = 0, dd_l = 0, dd_db = 0, dd_g = 0, dd_addr_31_24 = 0\<rparr>"

definition zero_tss_entry :: tss_descriptor where
  "zero_tss_entry = \<lparr>td_limit_15_0 = 0, td_addr_15_0 = 0, td_addr_23_16 = 0, td_type = 0, td_zero = 0, td_dpl = 0, td_present = 0,
     td_limit_19_16 = 0, td_avl = 0, td_res1 = 0, td_g = 0, td_addr_31_24 = 0, td_addr_63_32 = 0, td_res2 = 0\<rparr>"

text \<open>The static structures before they are set up.\<close>

definition gdt_static :: "u64 \<Rightarrow> u64 \<Rightarrow> gdt_state" where
  "gdt_static gdt_addr tss_addr =
     \<lparr>gd_gdt = \<lparr>null_descriptor = 0, kernel_code_descriptor = zero_code, kernel_data_descriptor = zero_data,
        user_code_descriptor = zero_code, user_data_descriptor = zero_data, tss_entry = zero_tss_entry\<rparr>,
      gd_tss = \<lparr>tss_rsp = replicate 3 0, tss_ist = replicate 7 0, io_map_base_addr = 0\<rparr>,
      gd_gdt_addr = gdt_addr, gd_tss_addr = tss_addr, gd_gdtr = (0, 0), gd_tr = 0\<rparr>"

lemma tss_base:
  fixes a :: u64
  assumes "td_addr_15_0 d = ucast (a AND 0xFFFF)" and "td_addr_23_16 d = ucast (drop_bit 16 a AND 0xFF)"
    and "td_addr_31_24 d = ucast (drop_bit 24 a AND 0xFF)" and "td_addr_63_32 d = ucast (drop_bit 32 a AND 0xFFFFFFFF)"
  shows "take_bit 24 (drop_bit 16 (tss_word_low d)) OR push_bit 24 (take_bit 8 (drop_bit 56 (tss_word_low d))) OR
     push_bit 32 (take_bit 32 (tss_word_high d)) = a"
proof (rule bit_eqI)
  fix n
  assume "possible_bit TYPE(64 word) n"
  then have n: "n < 64" by simp
  have m: "0xFFFF = (mask 16 :: u64)" "0xFF = (mask 8 :: u64)" "0xFFFFFFFF = (mask 32 :: u64)" by (simp_all add: mask_eq_exp_minus_1)
  consider "n < 16" | "16 \<le> n" "n < 24" | "24 \<le> n" "n < 32" | "32 \<le> n" using n by linarith
  then show "bit (take_bit 24 (drop_bit 16 (tss_word_low d)) OR push_bit 24 (take_bit 8 (drop_bit 56 (tss_word_low d))) OR
     push_bit 32 (take_bit 32 (tss_word_high d))) n = bit a n"
    using n by cases (auto simp: tss_word_low_def tss_word_high_def assms m bit_simps no_bit)
qed

section \<open>Properties\<close>

text \<open>
  C34: With the boot code's table, after \<^verbatim>\<open>GDT_remap\<close> and \<^verbatim>\<open>TSS_init\<close> the processor finds behind the selector of the gates
  and of the kernel's threads a present 64 bit code segment of ring 0, behind the two selectors for user mode a
  present 64 bit code segment and a present writable data segment of ring 3, and behind the selector in the task
  register an available task state segment whose base is the address of the structure, whatever it is, and whose limit
  covers exactly it. All of them lie inside the limit of the table. The first word is the null descriptor.
\<close>

theorem descriptors_well_typed:
  "let s = TSS_init t1 t2 t3 (GDT_remap boot_gdt (gdt_static gdt_addr tss_addr)); g = gd_gdt s
   in selected g 0 = 0 \<and>
      decode_segment (selected g KERNEL_CODE_SELECTOR) =
        \<lparr>sg_present = True, sg_dpl = 0, sg_ordinary = True, sg_code = True, sg_rw = False, sg_long = True\<rparr> \<and>
      decode_segment (selected g USER_CODE_SELECTOR) =
        \<lparr>sg_present = True, sg_dpl = USER_DPL, sg_ordinary = True, sg_code = True, sg_rw = True, sg_long = True\<rparr> \<and>
      decode_segment (selected g USER_DATA_SELECTOR) =
        \<lparr>sg_present = True, sg_dpl = USER_DPL, sg_ordinary = True, sg_code = False, sg_rw = True, sg_long = False\<rparr> \<and>
      decode_system (selected g (gd_tr s)) (selected g (gd_tr s + 8)) = (TSS_TYPE, True, tss_addr, 103) \<and>
      take 3 (tss_ist (gd_tss s)) = [t1, t2, t3] \<and>
      gd_gdtr s = (gdt_addr, 55) \<and> unat (gd_tr s) + 16 \<le> 55 + 1"
proof -
  let ?s = "TSS_init t1 t2 t3 (GDT_remap boot_gdt (gdt_static gdt_addr tss_addr))"
  let ?d = "tss_entry (gd_gdt ?s)"
  have a: "td_addr_15_0 ?d = ucast (tss_addr AND 0xFFFF)" "td_addr_23_16 ?d = ucast (drop_bit 16 tss_addr AND 0xFF)"
    "td_addr_31_24 ?d = ucast (drop_bit 24 tss_addr AND 0xFF)" "td_addr_63_32 ?d = ucast (drop_bit 32 tss_addr AND 0xFFFFFFFF)"
    by (simp_all add: TSS_init_def GDT_remap_def gdt_static_def Let_def)
  note base = tss_base [of ?d, OF a]
  have f: "td_type ?d = TSS_TYPE" "td_present ?d = 1" "td_limit_15_0 ?d = 103" "td_limit_19_16 ?d = 0"
    by (simp_all add: TSS_init_def GDT_remap_def gdt_static_def Let_def sizeof_tss_def)
  have ty: "ucast (drop_bit 40 (tss_word_low ?d)) = TSS_TYPE"
  proof (rule bit_eqI)
    fix n
    assume "possible_bit TYPE(4 word) n"
    then have "n < 4" by simp
    then have "n = 0 \<or> n = 1 \<or> n = 2 \<or> n = 3" by arith
    then show "bit (ucast (drop_bit 40 (tss_word_low ?d)) :: 4 word) n = bit TSS_TYPE n"
      by (elim disjE) (simp_all add: tss_word_low_def f bit_simps no_bit TSS_TYPE_def)
  qed
  have pr: "bit (tss_word_low ?d) 47" by (simp add: tss_word_low_def f bit_simps)
  have lim: "take_bit 16 (tss_word_low ?d) OR push_bit 16 (take_bit 4 (drop_bit 48 (tss_word_low ?d))) = 103"
    by (rule bit_eqI) (auto simp: tss_word_low_def f bit_simps no_bit)
  have "decode_system (tss_word_low ?d) (tss_word_high ?d) = (TSS_TYPE, True, tss_addr, 103)"
    by (simp add: decode_system_def base ty pr lim)
  moreover have "decode_segment (code_word (user_code_descriptor (gd_gdt ?s))) =
        \<lparr>sg_present = True, sg_dpl = USER_DPL, sg_ordinary = True, sg_code = True, sg_rw = True, sg_long = True\<rparr>"
    by (simp add: TSS_init_def GDT_remap_def gdt_static_def Let_def zero_code_def code_of_word_def code_word_def decode_segment_def USER_DPL_def)
  moreover have "decode_segment (data_word (user_data_descriptor (gd_gdt ?s))) =
        \<lparr>sg_present = True, sg_dpl = USER_DPL, sg_ordinary = True, sg_code = False, sg_rw = True, sg_long = False\<rparr>"
    by (simp add: TSS_init_def GDT_remap_def gdt_static_def Let_def zero_data_def data_word_def decode_segment_def USER_DPL_def)
  moreover have "null_descriptor (gd_gdt ?s) = 0" "code_word (kernel_code_descriptor (gd_gdt ?s)) = boot_gdt ! 1"
    by (simp_all add: TSS_init_def GDT_remap_def Let_def code_word_roundtrip boot_gdt_def)
  moreover have "decode_segment (boot_gdt ! 1) = \<lparr>sg_present = True, sg_dpl = 0, sg_ordinary = True, sg_code = True, sg_rw = False, sg_long = True\<rparr>"
    by code_simp
  moreover have "take 3 (tss_ist (gd_tss ?s)) = [t1, t2, t3]" "gd_gdtr ?s = (gdt_addr, 55)" "gd_tr ?s = TSS_SELECTOR"
    by (simp_all add: TSS_init_def GDT_remap_def gdt_static_def Let_def sizeof_gdt_def numeral_nat)
  ultimately show ?thesis
    by (simp add: selected_def gdt_words_def KERNEL_CODE_SELECTOR_def USER_CODE_SELECTOR_def USER_DATA_SELECTOR_def TSS_SELECTOR_def Let_def)
qed

end
