(* ===== verification/Threads.thy ===== *)
theory Threads
  imports Stack_Alloc Gdt
begin

text \<open>
  Creating and ending kernel threads (\<^verbatim>\<open>proc/proc.c\<close>): the whole operations, over the heap, the stack allocator,
  the scheduler, the interrupt table and the task state segment. The fields of a process structure are kept by its
  address (\<^verbatim>\<open>sc_procs\<close>), its bytes belong to the heap block at that address.
\<close>

section \<open>State and operations\<close>

record ('d, 'b) kernel = stack_state +
  k_irq :: "('d, 'b) irq_state_scheme"
  k_gdt :: gdt_state

definition YIELD_SYS_CALL :: u8 where "YIELD_SYS_CALL = 0"

text \<open>\<^verbatim>\<open>sizeof(process_t)\<close>: 14 registers, 6 selectors with padding, 4 registers, the pid with padding, 3 pointers.\<close>

definition PROCESS_SIZE :: u64 where "PROCESS_SIZE = 14 * 8 + 6 * 2 + 4 + 4 * 8 + 8 + 3 * 8"

definition PROC_init :: "ptr \<Rightarrow> ptr \<Rightarrow> ('d, 'b, 'a) kernel_scheme \<Rightarrow> ('d, 'b, 'a) kernel_scheme res" where
  "PROC_init yield_handler kexit_handler s =
     bind_res (MMU_alloc_stack s) (\<lambda>(stack_top, s).
       let s = s\<lparr>k_irq := set_sys_call YIELD_SYS_CALL yield_handler (k_irq s)\<rparr>;
           s = s\<lparr>k_irq := IRQ_set_handler (of_nat KEXIT_IRQ) kexit_handler NULL (k_irq s)\<rparr>
       in bind_res (TSS_set_ist stack_top (uint KEXIT_IST) (k_gdt s)) (\<lambda>g. Inr (s\<lparr>k_gdt := g\<rparr>)))"

text \<open>\<open>wrapper\<close> is the address of \<^verbatim>\<open>kthread_wrapper\<close>.\<close>

definition PROC_create_kthread ::
    "u64 \<Rightarrow> u64 \<Rightarrow> u64 \<Rightarrow> ('d, 'b, 'a) kernel_scheme \<Rightarrow> (ptr \<times> ('d, 'b, 'a) kernel_scheme) res" where
  "PROC_create_kthread wrapper entry_point arg s =
     bind_res (kcalloc 1 PROCESS_SIZE s) (\<lambda>(context, s).
     bind_res (MMU_alloc_stack s) (\<lambda>(stack_top, s).
       Inr (context, s\<lparr>k_irq := setup_kthread wrapper context stack_top entry_point arg (k_irq s)\<rparr>)))"

text \<open>The interrupt behind \<^verbatim>\<open>kexit\<close>; on the way out of it the context is switched.\<close>

definition kexit_isr :: "('d, 'b, 'a) kernel_scheme \<Rightarrow> ('d, 'b, 'a) kernel_scheme res" where
  "kexit_isr s =
     bind_res (MMU_free_stack (p_stack_top (sc_procs (k_irq s) (pr_curr (k_irq s)))) s) (\<lambda>s.
       let s = s\<lparr>k_irq := sched_remove (pr_curr (k_irq s)) (k_irq s)\<rparr>
       in bind_res (kfree (pr_curr (k_irq s)) s) (\<lambda>s.
            Inr (s\<lparr>k_irq := PROC_reschedule (k_irq s)\<rparr>)))"

definition kexit :: "('d, 'b, 'a) kernel_scheme \<Rightarrow> ('d, 'b, 'a) kernel_scheme res" where
  "kexit s = bind_res (kexit_isr s) (\<lambda>s. Inr (s\<lparr>k_irq := CONTEXT_SWITCH (k_irq s)\<rparr>))"

text \<open>\<open>call\<close> is the function at an address.\<close>

definition kthread_wrapper ::
    "(u64 \<Rightarrow> u64 \<Rightarrow> ('d, 'b, 'a) kernel_scheme \<Rightarrow> ('d, 'b, 'a) kernel_scheme res) \<Rightarrow> u64 \<Rightarrow> u64 \<Rightarrow>
     ('d, 'b, 'a) kernel_scheme \<Rightarrow> ('d, 'b, 'a) kernel_scheme res" where
  "kthread_wrapper call entry_point arg s = bind_res (call entry_point arg s) kexit"

section \<open>The resources of a thread\<close>

text \<open>
  Every thread, ready or blocked, owns the heap block its structure lies in and its stack. \<open>C\<close> and \<open>S\<close> are the
  other blocks and stacks in use.
\<close>

definition thread_blocks :: "ptr set \<Rightarrow> (u64 \<times> nat) set" where
  "thread_blocks T = (\<lambda>p. (p, 240)) ` T"

definition stack_of :: "('d, 'b, 'a) kernel_scheme \<Rightarrow> ptr \<Rightarrow> u64" where
  "stack_of s p = p_stack_top (sc_procs (k_irq s) p)"

definition kernel_inv :: "('d, 'b, 'a) kernel_scheme \<Rightarrow> (u64 \<times> nat) set \<Rightarrow> u64 set \<Rightarrow> (ptr \<times> u64) list \<Rightarrow> nat \<Rightarrow>
    ptr list \<Rightarrow> (ptr \<Rightarrow> ptr list) \<Rightarrow> bool" where
  "kernel_inv s C S xs n R W \<longleftrightarrow>
     stk_inv s (C \<union> thread_blocks (threads R W)) (S \<union> stack_of s ` threads R W) xs n \<and>
     C \<inter> thread_blocks (threads R W) = {} \<and> S \<inter> stack_of s ` threads R W = {} \<and>
     inj_on (stack_of s) (threads R W) \<and> proc_inv (k_irq s) R W \<and> pr_orig (k_irq s) \<ge> KERNEL_STACKS_START"

text \<open>The same before the first thread has run, when the current thread is not set yet.\<close>

definition kernel_queues :: "('d, 'b, 'a) kernel_scheme \<Rightarrow> (u64 \<times> nat) set \<Rightarrow> u64 set \<Rightarrow> (ptr \<times> u64) list \<Rightarrow> nat \<Rightarrow>
    ptr list \<Rightarrow> (ptr \<Rightarrow> ptr list) \<Rightarrow> bool" where
  "kernel_queues s C S xs n R W \<longleftrightarrow>
     stk_inv s (C \<union> thread_blocks (threads R W)) (S \<union> stack_of s ` threads R W) xs n \<and>
     C \<inter> thread_blocks (threads R W) = {} \<and> S \<inter> stack_of s ` threads R W = {} \<and>
     inj_on (stack_of s) (threads R W) \<and> queues_inv (k_irq s) R W \<and> pr_orig (k_irq s) \<ge> KERNEL_STACKS_START"

lemma kernel_inv_queues: "kernel_inv s C S xs n R W \<longleftrightarrow> kernel_queues s C S xs n R W \<and> proc_inv (k_irq s) R W"
  by (auto simp: kernel_inv_def kernel_queues_def proc_inv_queues)

lemma stack_more_fields:
  assumes "stack_state.more s' = stack_state.more s"
  shows "k_irq s' = k_irq s" "k_gdt s' = k_gdt s"
  using assms by (cases s; cases s'; simp)+

lemma stk_inv_k_irq [simp]: "stk_inv (s\<lparr>k_irq := i\<rparr>) C S xs n = stk_inv s C S xs n"
  by (simp add: stk_inv_def km_live_def km_inv_def bump_wf_def brk_ok_def pools_ok_def header_ok_def pool_ptr_def cong: owner.case_cong)

lemma km_live_heap:
  assumes live: "km_live s L" and p: "(p, k) \<in> L"
  shows "unat p + k \<le> unat KERNEL_STACKS_START" "p \<noteq> NULL"
proof -
  from live obtain Fr U where inv: "km_inv s Fr U" and L: "L = user_live U" by (auto simp: km_live_def)
  from p obtain o' where U: "U (p - HEADER_SIZE) = Some o'" and k: "k = extent o' - 16" by (auto simp: L user_live_iff)
  note b = block_bounds [OF inv blocks_live [of U _ o' Fr, OF U]]
  have "unat p = unat (p - HEADER_SIZE) + 16" by (rule unat_sub_16 [OF b(3)]) (use b(1) in simp)
  moreover have "unat (hp_brk s) \<le> unat KERNEL_STACKS_START" using km_invD(2) [OF inv] by (simp add: brk_ok_def word_le_nat_alt)
  ultimately show "unat p + k \<le> unat KERNEL_STACKS_START" using b(1,2) k by linarith
  show "p \<noteq> NULL" using km_live_bounds [OF live p] by simp
qed

text \<open>A zeroed structure from the heap.\<close>

lemma kcalloc_process:
  assumes inv: "stk_inv s C S xs n" and ft: "fits PROCESS_SIZE s" and r: "kcalloc 1 PROCESS_SIZE s = Inr (p, s')"
  shows "(p, 240) \<notin> C \<union> node_blocks xs \<and> stk_inv s' (insert (p, 240) C) S xs n \<and> p \<noteq> NULL \<and> p < KERNEL_STACKS_START \<and>
     stack_state.more s' = stack_state.more s \<and> (\<forall>(q, j) \<in> C. same_on (km_mem s) (km_mem s') (unat q) j)"
proof -
  let ?L = "C \<union> node_blocks xs"
  have live: "km_live s ?L" using inv by (simp add: stk_inv_def)
  from r obtain s1 where k: "kmalloc PROCESS_SIZE s = Inr (p, s1)"
    and s': "s' = s1\<lparr>km_mem := snd (memset p 0 PROCESS_SIZE (km_mem s1))\<rparr>" by (auto simp: kcalloc_def res_iff)
  have f: "find_pool ps 0 (PROCESS_SIZE + HEADER_SIZE) = Some 3" if "map kp_block_size ps = pool_sizes" for ps
    using pools_cases [OF that] by (auto simp: PROCESS_SIZE_def HEADER_SIZE_def)
  from kmalloc_exact [OF live ft k f] have x: "(p, 240) \<notin> ?L" "km_live s1 (insert (p, 240) ?L)" by (simp_all add: pool_sizes_def)
  have b: "p \<noteq> NULL" "unat p + 240 \<le> unat KERNEL_STACKS_START" using km_live_heap [OF x(2), of p 240] by simp_all
  then have b64: "unat p + 240 < 2 ^ 64" by (simp add: KERNEL_STACKS_START_def)
  have m: "km_mem s' = (\<lambda>x. if x - p < PROCESS_SIZE then 0 else km_mem s1 x)" by (simp add: s' memset_eq [OF b(1)])
  have "unat p \<le> unat x \<and> unat x < unat p + 240" if "x - p < PROCESS_SIZE" for x
    using off_nat [of p 240 x] b64 that by (simp add: word_less_nat_alt PROCESS_SIZE_def)
  then have ch: "changes_in (km_mem s1) (km_mem s') (unat p) 240" unfolding changes_in_def m by (metis not_le)
  have l': "km_live s' (insert (p, 240) ?L)" using km_live_write [OF x(2) insertI1 ch] by (simp add: s')
  have same: "same_on (km_mem s) (km_mem s') (unat q) j" if q: "(q, j) \<in> ?L" for q j
  proof -
    have "region_apart (p, 240) (q, j)" using kmheap.live_apart [OF x(2), of "(p, 240)" "(q, j)"] q x(1) by auto
    then have "same_on (km_mem s1) (km_mem s') (unat q) j" using changes_in_same_on [OF ch] by (simp add: region_apart_def)
    with kmheap.malloc_mem [OF live ft k q] show ?thesis by (rule same_on_trans)
  qed
  have "km_state.more s' = km_state.more s" using kmalloc_more [OF live ft k] by (simp add: s')
  note fl = stack_fields [OF this]
  have ns: "\<forall>n \<in> fst ` set xs. same_on (km_mem s) (km_mem s') (unat n) 16" "\<forall>n \<in> fst ` set xs. (n, 16) \<in> insert (p, 240) ?L"
    using same by (auto simp: node_blocks_def)
  have no: "nodes_ok (km_mem s) ?L (free_thread_stacks_head s) xs" using inv by (simp add: stk_inv_def)
  note nk = kmnodes.nodes_kept [OF live no ns]
  have "stk_inv s' (insert (p, 240) C) S xs n"
    using inv l' nk x(1) unfolding stk_inv_def by (simp add: fl(1,2))
  moreover have "p < KERNEL_STACKS_START" using b(2) by (simp add: word_less_nat_alt)
  ultimately show ?thesis using x(1) b(1) fl(3) same by auto
qed



lemma wr64_cong: "m x = m' x \<Longrightarrow> wr64 a v m x = wr64 a v m' x"
  by (simp add: wr64_def wr32_def wr16_def)

text \<open>A small block goes back to its pool.\<close>

lemma kfree_pool:
  assumes live: "km_live s L" and p: "(p, k) \<in> L" and k: "k < 4080"
  shows "\<exists>i. i < NUM_POOLS \<and> rd64 (km_mem s) (p - HEADER_SIZE) = pool_ptr s i \<and> pool_ptr s i \<noteq> NULL \<and> pool_of s (pool_ptr s i) = Some i \<and>
     unat p = unat (p - HEADER_SIZE) + 16 \<and> unat p + k < 2 ^ 64"
proof -
  from live obtain Fr U where inv: "km_inv s Fr U" and L: "L = user_live U" by (auto simp: km_live_def)
  note d = km_invD [OF inv]
  from p obtain o' where U: "U (p - HEADER_SIZE) = Some o'" and ke: "k = extent o' - 16" by (auto simp: L user_live_iff)
  note b = block_bounds [OF inv blocks_live [of U _ o' Fr, OF U]]
  have up: "unat p = unat (p - HEADER_SIZE) + 16" by (rule unat_sub_16 [OF b(3)]) (use b(1) in simp)
  show ?thesis
  proof (cases o')
    case (Pool i)
    with d(6) [OF U] have "i < NUM_POOLS" "rd64 (km_mem s) (p - HEADER_SIZE) = pool_ptr s i" by (auto simp: header_ok_def)
    with pool_of_ptr [OF this(1) d(4)] d(3) up km_live_bounds [OF live p] show ?thesis by blast
  next
    case (Pages n)
    with d(6) [OF U] have "0 < n" by (simp add: header_ok_def)
    moreover have "4096 * n - 16 < 4080" using k ke unfolding Pages by (simp only: extent.simps)
    ultimately show ?thesis by linarith
  qed
qed

text \<open>
  Storing into a small block that was just released does the heap no harm: it is as if the stores had come first.
\<close>

lemma km_live_freed_write:
  assumes live: "km_live s L" and p: "(p, k) \<in> L" and k: "k < 4080" and r: "kfree p s = Inr s'"
    and ch: "changes_in (km_mem s') m (unat p) k"
  shows "km_live (s'\<lparr>km_mem := m\<rparr>) (L - {(p, k)})"
proof -
  let ?h = "p - HEADER_SIZE"
  from kfree_pool [OF live p k] obtain i where i: "i < NUM_POOLS" "rd64 (km_mem s) ?h = pool_ptr s i" "pool_ptr s i \<noteq> NULL"
    "pool_of s (pool_ptr s i) = Some i" "unat p = unat ?h + 16" "unat p + k < 2 ^ 64" by blast
  have nn: "p \<noteq> NULL" using km_live_bounds [OF live p] by simp
  let ?hd = "kp_head (km_pools s ! i)"
  have s': "s' = push_free_block i ?h s" using r i nn by (simp add: kfree_def Let_def)
  have ms: "km_mem s' = wr64 ?h ?hd (km_mem s)" by (simp add: s' push_free_block_def Let_def)
  define m0 where "m0 = (\<lambda>x. if unat p \<le> unat x \<and> unat x < unat p + k then m x else km_mem s x)"
  have "changes_in (km_mem s) m0 (unat p) k" by (auto simp: changes_in_def m0_def)
  from km_live_write [OF live p this] have l0: "km_live (s\<lparr>km_mem := m0\<rparr>) L" .
  have "rd64 m0 ?h = rd64 (km_mem s) ?h"
    by (rule rd64_nat_cong) (use i(5,6) in \<open>auto simp: m0_def\<close>)
  moreover have "pool_of (s\<lparr>km_mem := m0\<rparr>) (pool_ptr s i) = Some i" using i(4) by (simp add: pool_of_def pool_ptr_def)
  ultimately have f0: "kfree p (s\<lparr>km_mem := m0\<rparr>) = Inr (push_free_block i ?h (s\<lparr>km_mem := m0\<rparr>))"
    using i nn by (simp add: kfree_def Let_def)
  have "wr64 ?h ?hd m0 x = m x" for x
  proof (cases "unat p \<le> unat x \<and> unat x < unat p + k")
    case True
    then have "wr64 ?h ?hd m0 x = m0 x" by (intro wr64_nat_other) (use i(5,6) in auto)
    with True show ?thesis by (simp add: m0_def)
  next
    case False
    then have "m0 x = km_mem s x" by (auto simp: m0_def)
    then have "wr64 ?h ?hd m0 x = km_mem s' x" unfolding ms by (rule wr64_cong)
    with ch False show ?thesis by (auto simp: changes_in_def)
  qed
  then have "wr64 ?h ?hd m0 = m" by (rule ext)
  then have "push_free_block i ?h (s\<lparr>km_mem := m0\<rparr>) = s'\<lparr>km_mem := m\<rparr>"
    by (simp add: s' push_free_block_def Let_def)
  with kmheap.free_live [OF l0 p] f0 show ?thesis by auto
qed

text \<open>Releasing a block of another user.\<close>

lemma kfree_client:
  assumes inv: "stk_inv s C S xs n" and p: "(p, k) \<in> C" and k: "k < 4080"
  shows "\<exists>s'. kfree p s = Inr s' \<and> stk_inv s' (C - {(p, k)}) S xs n \<and> stack_state.more s' = stack_state.more s \<and>
     (\<forall>(q, j) \<in> C - {(p, k)}. same_on (km_mem s) (km_mem s') (unat q) j) \<and>
     (\<forall>m. changes_in (km_mem s') m (unat p) k \<longrightarrow> stk_inv (s'\<lparr>km_mem := m\<rparr>) (C - {(p, k)}) S xs n)"
proof -
  let ?L = "C \<union> node_blocks xs"
  have live: "km_live s ?L" and pL: "(p, k) \<in> ?L" and no: "nodes_ok (km_mem s) ?L (free_thread_stacks_head s) xs"
    using inv p by (simp_all add: stk_inv_def)
  from kmheap.free_live [OF live pL] obtain s' where s': "kfree p s = Inr s'" by blast
  note fl = stack_fields [OF kfree_more [OF s']]
  have L: "?L - {(p, k)} = (C - {(p, k)}) \<union> node_blocks xs" using inv p by (auto simp: stk_inv_def)
  have same: "same_on (km_mem s) (km_mem s') (unat q) j" if "(q, j) \<in> ?L - {(p, k)}" for q j
    by (rule kmheap.free_mem [OF live pL s' that])
  have live': "km_live (s'\<lparr>km_mem := m\<rparr>) (?L - {(p, k)})" if "changes_in (km_mem s') m (unat p) k" for m
    by (rule km_live_freed_write [OF live pL k s' that])
  have st: "stk_inv (s'\<lparr>km_mem := m\<rparr>) (C - {(p, k)}) S xs n" if ch: "changes_in (km_mem s') m (unat p) k" for m
  proof -
    have same': "same_on (km_mem s) m (unat q) j" if q: "(q, j) \<in> ?L - {(p, k)}" for q j
    proof -
      have "region_apart (p, k) (q, j)" using kmheap.live_apart [OF live pL, of "(q, j)"] q by auto
      then have "same_on (km_mem s') m (unat q) j" using changes_in_same_on [OF ch] by (simp add: region_apart_def)
      with same [OF q] show ?thesis by (rule same_on_trans)
    qed
    have "\<forall>n \<in> fst ` set xs. (n, 16) \<in> ?L - {(p, k)}" unfolding L by (auto simp: node_blocks_def)
    with same' have "\<forall>n \<in> fst ` set xs. same_on (km_mem s) m (unat n) 16" "\<forall>n \<in> fst ` set xs. (n, 16) \<in> ?L - {(p, k)}" by blast+
    from kmnodes.nodes_kept [OF live no this] live' [OF ch] inv show ?thesis
      unfolding stk_inv_def L by (simp add: fl(1,2)) blast
  qed
  have "stk_inv s' (C - {(p, k)}) S xs n" using st [of "km_mem s'"] by (simp add: changes_in_def)
  with s' fl(3) st same show ?thesis by (intro exI [of _ s']) auto
qed

section \<open>Creating a thread\<close>

lemma append_proc_fields:
  "p_stack_top (fst (append_proc p q h) z) = p_stack_top (h z)" "p_regfile (fst (append_proc p q h) z) = p_regfile (h z)"
  by (simp_all add: append_proc_def set_next_def set_prev_def Let_def)

lemma remove_proc_fields:
  "p_stack_top (fst (remove_proc p q h) z) = p_stack_top (h z)"
  by (simp add: remove_proc_def set_next_def set_prev_def Let_def)

lemma setup_kthread_fields:
  assumes s': "s' = setup_kthread wr p stk entry arg s"
  shows "p_stack_top (sc_procs s' q) = (if q = p then stk else p_stack_top (sc_procs s q))"
    and "p_regfile (sc_procs s' p) = zero_regfile\<lparr>rf_rbp := stk, rf_rsp := stk, rf_rip := wr, rf_rdi := entry, rf_rsi := arg,
       rf_cs := KERNEL_CODE_SELECTOR, rf_ss := 0, rf_rflags := IE_FLAG OR RES_FLAG\<rparr>"
    and "pr_orig s' = pr_orig s" "pr_curr s' = pr_curr s" "sc_current s' = sc_current s"
  by (simp_all add: s' setup_kthread_def sched_admit_def Let_def split_def append_proc_fields zero_process_def zero_regfile_def)

lemma threads_append: "threads (R @ [p]) W = insert p (threads R W)"
  by (auto simp: threads_def)

lemma PROC_create_kthread_queues:
  assumes inv: "kernel_queues s C S xs n R W" and ft: "fits PROCESS_SIZE s" and left: "xs = [] \<longrightarrow> n < MAX_STACKS"
    and r: "PROC_create_kthread wrapper entry_point arg s = Inr (p, s')"
  shows "p \<notin> threads R W \<and> kernel_queues s' C S (tl xs) (if xs = [] then Suc n else n) (R @ [p]) W \<and>
     p_regfile (sc_procs (k_irq s') p) = zero_regfile\<lparr>rf_rbp := stack_of s' p, rf_rsp := stack_of s' p, rf_rip := wrapper, rf_rdi := entry_point,
       rf_rsi := arg, rf_cs := KERNEL_CODE_SELECTOR, rf_ss := 0, rf_rflags := IE_FLAG OR RES_FLAG\<rparr> \<and>
     (\<forall>(q, j) \<in> C \<union> thread_blocks (threads R W). same_on (km_mem s) (km_mem s') (unat q) j) \<and>
     pr_curr (k_irq s') = pr_curr (k_irq s) \<and> sc_current (k_irq s') = sc_current (k_irq s) \<and> pr_orig (k_irq s') = pr_orig (k_irq s)"
proof -
  let ?T = "threads R W"
  let ?C = "C \<union> thread_blocks ?T" and ?S = "S \<union> stack_of s ` ?T"
  note d = inv [unfolded kernel_queues_def]
  from r obtain s1 t s2 where a: "kcalloc 1 PROCESS_SIZE s = Inr (p, s1)" and b: "MMU_alloc_stack s1 = Inr (t, s2)"
    and s': "s' = s2\<lparr>k_irq := setup_kthread wrapper p t entry_point arg (k_irq s2)\<rparr>"
    by (auto simp: PROC_create_kthread_def res_iff)
  have inv0: "stk_inv s ?C ?S xs n" using d by blast
  note ka = kcalloc_process [OF inv0 ft a]
  then have i1: "stk_inv s1 (insert (p, 240) ?C) ?S xs n" by blast
  note al = MMU_alloc_stack_inv [OF i1 left b]
  have "stack_state.more s2 = stack_state.more s" using ka al by simp
  from stack_more_fields(1) [OF this] have ki: "k_irq s2 = k_irq s" .
  have pT: "p \<notin> ?T" using ka by (auto simp: thread_blocks_def)
  have po: "p \<noteq> pr_orig (k_irq s)" using ka d by auto
  let ?i = "setup_kthread wrapper p t entry_point arg (k_irq s)"
  note f = setup_kthread_fields [OF refl, of wrapper p t entry_point arg "k_irq s"]
  have st: "stack_of s' q = (if q = p then t else stack_of s q)" for q
    by (simp add: stack_of_def s' ki f(1))
  have T: "threads (R @ [p]) W = insert p ?T" by (rule threads_append)
  have img: "stack_of s' ` insert p ?T = insert t (stack_of s ` ?T)" using pT by (auto simp: st)
  have tS: "t \<notin> ?S" using al by blast
  have "queues_inv ?i (R @ [p]) W" using d ka po pT by (intro setup_kthread_queues) auto
  moreover have "inj_on (stack_of s') (insert p ?T)"
    using d pT tS by (auto simp: inj_on_def st)
  moreover have "C \<inter> thread_blocks (insert p ?T) = {}" using d ka by (auto simp: thread_blocks_def)
  moreover have "S \<inter> stack_of s' ` insert p ?T = {}" unfolding img using d tS by auto
  moreover have "stk_inv s' (C \<union> thread_blocks (insert p ?T)) (S \<union> stack_of s' ` insert p ?T) (tl xs) (if xs = [] then Suc n else n)"
  proof -
    have e: "stk_inv s' A B X N = stk_inv s2 A B X N" for A B X N by (simp add: s')
    have tb: "thread_blocks (insert p ?T) = insert (p, 240) (thread_blocks ?T)" by (simp add: thread_blocks_def)
    have "stk_inv s2 (insert (p, 240) ?C) (insert t ?S) (tl xs) (if xs = [] then Suc n else n)" using al by blast
    then show ?thesis unfolding img e tb Un_insert_right .
  qed
  ultimately have "kernel_queues s' C S (tl xs) (if xs = [] then Suc n else n) (R @ [p]) W"
    using d unfolding kernel_queues_def T by (simp add: s' ki f(3))
  moreover have "same_on (km_mem s) (km_mem s') (unat q) j" if "(q, j) \<in> ?C" for q j
  proof -
    have "same_on (km_mem s) (km_mem s1) (unat q) j" using ka that by blast
    moreover have "same_on (km_mem s1) (km_mem s2) (unat q) j" using al that by blast
    ultimately show ?thesis using same_on_trans by (simp add: s')
  qed
  moreover have "p_regfile (sc_procs (k_irq s') p) = zero_regfile\<lparr>rf_rbp := stack_of s' p, rf_rsp := stack_of s' p, rf_rip := wrapper, rf_rdi := entry_point,
       rf_rsi := arg, rf_cs := KERNEL_CODE_SELECTOR, rf_ss := 0, rf_rflags := IE_FLAG OR RES_FLAG\<rparr>"
    by (simp add: st) (simp add: s' ki f(2))
  moreover have "pr_curr (k_irq s') = pr_curr (k_irq s)" "sc_current (k_irq s') = sc_current (k_irq s)" "pr_orig (k_irq s') = pr_orig (k_irq s)"
    by (simp_all add: s' ki f(3,4,5))
  ultimately show ?thesis using pT by blast
qed

lemma PROC_create_kthread_inv:
  assumes inv: "kernel_inv s C S xs n R W" and ft: "fits PROCESS_SIZE s" and left: "xs = [] \<longrightarrow> n < MAX_STACKS"
    and r: "PROC_create_kthread wrapper entry_point arg s = Inr (p, s')"
  shows "p \<notin> threads R W \<and> kernel_inv s' C S (tl xs) (if xs = [] then Suc n else n) (R @ [p]) W \<and>
     p_regfile (sc_procs (k_irq s') p) = zero_regfile\<lparr>rf_rbp := stack_of s' p, rf_rsp := stack_of s' p, rf_rip := wrapper, rf_rdi := entry_point,
       rf_rsi := arg, rf_cs := KERNEL_CODE_SELECTOR, rf_ss := 0, rf_rflags := IE_FLAG OR RES_FLAG\<rparr> \<and>
     (\<forall>(q, j) \<in> C \<union> thread_blocks (threads R W). same_on (km_mem s) (km_mem s') (unat q) j) \<and>
     pr_curr (k_irq s') = pr_curr (k_irq s)"
proof -
  have k: "kernel_queues s C S xs n R W" and p: "proc_inv (k_irq s) R W" using inv by (simp_all add: kernel_inv_queues)
  note q = PROC_create_kthread_queues [OF k ft left r]
  then have "proc_inv (k_irq s') (R @ [p]) W" using p by (auto simp: proc_inv_queues kernel_queues_def)
  with q show ?thesis by (simp add: kernel_inv_queues)
qed

text \<open>A stack that is not for a thread, and the task state segment.\<close>

lemma kernel_queues_stack:
  assumes inv: "kernel_queues s C S xs n R W" and left: "xs = [] \<longrightarrow> n < MAX_STACKS" and r: "MMU_alloc_stack s = Inr (t, s')"
  shows "t \<notin> S \<union> stack_of s ` threads R W" "kernel_queues s' C (insert t S) (tl xs) (if xs = [] then Suc n else n) R W"
    "\<forall>(q, j) \<in> C \<union> thread_blocks (threads R W). same_on (km_mem s) (km_mem s') (unat q) j" "k_irq s' = k_irq s" "k_gdt s' = k_gdt s"
    "hp_brk s' = hp_brk s"
proof -
  note d = inv [unfolded kernel_queues_def]
  have i: "stk_inv s (C \<union> thread_blocks (threads R W)) (S \<union> stack_of s ` threads R W) xs n" using d by blast
  note a = MMU_alloc_stack_inv [OF i left r]
  then have m: "stack_state.more s' = stack_state.more s" by blast
  show k: "k_irq s' = k_irq s" "k_gdt s' = k_gdt s" by (rule stack_more_fields [OF m])+
  have so: "stack_of s' = stack_of s" by (rule ext) (simp add: stack_of_def k(1))
  show n: "t \<notin> S \<union> stack_of s ` threads R W" using a by blast
  show "\<forall>(q, j) \<in> C \<union> thread_blocks (threads R W). same_on (km_mem s) (km_mem s') (unat q) j" using a by blast
  show "hp_brk s' = hp_brk s" by (rule MMU_alloc_stack_brk [OF i left r])
  have "stk_inv s' (C \<union> thread_blocks (threads R W)) (insert t S \<union> stack_of s ` threads R W) (tl xs) (if xs = [] then Suc n else n)"
    using a by simp
  then show "kernel_queues s' C (insert t S) (tl xs) (if xs = [] then Suc n else n) R W"
    using d n unfolding kernel_queues_def so k(1) by simp
qed

lemma kernel_queues_gdt [simp]: "kernel_queues (s\<lparr>k_gdt := g\<rparr>) C S xs n R W = kernel_queues s C S xs n R W"
proof -
  have so: "stack_of (s\<lparr>k_gdt := g\<rparr>) = stack_of s" by (rule ext) (simp add: stack_of_def)
  have "stk_inv (s\<lparr>k_gdt := g\<rparr>) A B xs n = stk_inv s A B xs n" for A B
    by (simp add: stk_inv_def km_live_def km_inv_def bump_wf_def brk_ok_def pools_ok_def header_ok_def pool_ptr_def cong: owner.case_cong)
  then show ?thesis unfolding kernel_queues_def so by simp
qed

section \<open>Ending a thread\<close>

lemma exit_stack_top: "p_stack_top (sc_procs (exit_kthread i) q) = p_stack_top (sc_procs i q)"
proof -
  have a: "p_stack_top (sc_procs (CONTEXT_SWITCH j) q) = p_stack_top (sc_procs j q)" for j :: "'a proc_state_scheme"
    by (simp add: CONTEXT_SWITCH_def Let_def)
  have b: "sc_procs (PROC_reschedule j) = sc_procs j" for j :: "'a proc_state_scheme"
    by (simp add: PROC_reschedule_def rr_next_def Let_def)
  have c: "p_stack_top (sc_procs (sched_remove c j) q) = p_stack_top (sc_procs j q)" for j :: "'a proc_state_scheme" and c
    by (simp add: sched_remove_def Let_def split_def remove_proc_fields)
  show ?thesis unfolding exit_kthread_def a b c ..
qed

lemma threads_remove: "distinct R \<Longrightarrow> (\<forall>q. q \<noteq> NULL \<longrightarrow> c \<notin> set (W q)) \<Longrightarrow> threads (remove1 c R) W = threads R W - {c}"
  by (auto simp: threads_def)

lemma kexit_split:
  "kexit s = bind_res (MMU_free_stack (stack_of s (pr_curr (k_irq s))) s) (\<lambda>s1.
     bind_res (kfree (pr_curr (k_irq s1)) (s1\<lparr>k_irq := sched_remove (pr_curr (k_irq s1)) (k_irq s1)\<rparr>)) (\<lambda>s2.
       Inr (s2\<lparr>k_irq := CONTEXT_SWITCH (PROC_reschedule (k_irq s2))\<rparr>)))"
proof -
  have "pr_curr (sched_remove c j) = pr_curr j" for c and j :: "('a, 'b) irq_state_scheme"
    by (simp add: sched_remove_def Let_def split_def)
  then show ?thesis
    by (simp add: kexit_def kexit_isr_def stack_of_def Let_def bind_res_def split: sum.splits)
qed


lemma kexit_inv:
  assumes inv: "kernel_inv s C S xs n R W" and ft: "fits FTS_SIZE s" and c: "pr_curr (k_irq s) \<noteq> pr_orig (k_irq s)"
    and r: "kexit s = Inr s'"
  shows "\<exists>nd. (nd, 16) \<notin> C \<union> node_blocks xs \<and>
     kernel_inv s' C S ((nd, stack_of s (pr_curr (k_irq s))) # xs) n (remove1 (pr_curr (k_irq s)) R) W \<and>
     k_irq s' = exit_kthread (k_irq s) \<and>
     (\<forall>(q, j) \<in> C \<union> thread_blocks (threads R W - {pr_curr (k_irq s)}). same_on (km_mem s) (km_mem s') (unat q) j) \<and>
     (\<forall>m. changes_in (km_mem s') m (unat (pr_curr (k_irq s))) 240 \<longrightarrow>
        kernel_inv (s'\<lparr>km_mem := m\<rparr>) C S ((nd, stack_of s (pr_curr (k_irq s))) # xs) n (remove1 (pr_curr (k_irq s)) R) W)"
proof -
  let ?c = "pr_curr (k_irq s)" and ?T = "threads R W" and ?R = "remove1 (pr_curr (k_irq s)) R"
  let ?t = "stack_of s ?c"
  let ?C = "C \<union> thread_blocks ?T" and ?S = "S \<union> stack_of s ` ?T"
  note d = inv [unfolded kernel_inv_def]
  have pi: "proc_inv (k_irq s) R W" using d by blast
  have cR: "?c \<in> set R" using pi c by (auto simp: proc_inv_def)
  have cT: "?c \<in> ?T" using cR by (simp add: threads_def)
  have dR: "distinct R" using queue_repr_members [OF proc_inv_ready [OF pi]] by simp
  have cW: "\<forall>q. q \<noteq> NULL \<longrightarrow> ?c \<notin> set (W q)" using pi cR by (auto simp: proc_inv_def)
  note T' = threads_remove [OF dR cW]
  from r [unfolded kexit_split] obtain s1 s2 where a: "MMU_free_stack ?t s = Inr s1"
    and b: "kfree (pr_curr (k_irq s1)) (s1\<lparr>k_irq := sched_remove (pr_curr (k_irq s1)) (k_irq s1)\<rparr>) = Inr s2"
    and s': "s' = s2\<lparr>k_irq := CONTEXT_SWITCH (PROC_reschedule (k_irq s2))\<rparr>"
    by (auto simp: res_iff)
  have inv0: "stk_inv s ?C ?S xs n" using d by blast
  have tS: "?t \<in> ?S" using cT by blast
  from MMU_free_stack_inv [OF inv0 tS ft a] obtain nd where nd: "(nd, 16) \<notin> ?C \<union> node_blocks xs"
    and i1: "stk_inv s1 ?C (?S - {?t}) ((nd, ?t) # xs) n"
    and m1: "\<forall>(q, j) \<in> ?C. same_on (km_mem s) (km_mem s1) (unat q) j" and k1: "stack_state.more s1 = stack_state.more s" by blast
  note ki = stack_more_fields(1) [OF k1]
  let ?s1 = "s1\<lparr>k_irq := sched_remove ?c (k_irq s)\<rparr>"
  have i1': "stk_inv ?s1 ?C (?S - {?t}) ((nd, ?t) # xs) n" using i1 by simp
  have pC: "(?c, 240) \<in> ?C" using cT by (simp add: thread_blocks_def)
  have k240: "240 < (4080::nat)" by simp
  have b': "kfree ?c ?s1 = Inr s2" using b by (simp only: ki)
  from kfree_client [OF i1' pC k240] b' obtain
    i2: "stk_inv s2 (?C - {(?c, 240)}) (?S - {?t}) ((nd, ?t) # xs) n" and k2: "stack_state.more s2 = stack_state.more ?s1"
    and m2: "\<forall>(q, j) \<in> ?C - {(?c, 240)}. same_on (km_mem ?s1) (km_mem s2) (unat q) j"
    and w2: "\<And>m. changes_in (km_mem s2) m (unat ?c) 240 \<Longrightarrow> stk_inv (s2\<lparr>km_mem := m\<rparr>) (?C - {(?c, 240)}) (?S - {?t}) ((nd, ?t) # xs) n"
    by auto
  have ki2: "k_irq s2 = sched_remove ?c (k_irq s)" using stack_more_fields(1) [OF k2] by simp
  have ke: "k_irq s' = exit_kthread (k_irq s)" by (simp add: s' ki2 exit_kthread_def)
  have st: "stack_of s' = stack_of s" by (rule ext) (simp add: stack_of_def ke exit_stack_top)
  have inj: "inj_on (stack_of s) ?T" using d by blast
  have img: "stack_of s ` (?T - {?c}) = stack_of s ` ?T - {?t}"
    using inj cT by (auto dest: inj_onD)
  have eS: "?S - {?t} = S \<union> stack_of s ` (?T - {?c})" using d cT unfolding img by blast
  have eC: "?C - {(?c, 240)} = C \<union> thread_blocks (?T - {?c})" using d cT by (auto simp: thread_blocks_def disjoint_iff)
  have pi': "proc_inv (k_irq s') ?R W" unfolding ke by (rule exit_kthread_inv [OF pi c])
  have or: "pr_orig (k_irq s') \<ge> KERNEL_STACKS_START"
  proof -
    have "pr_orig (exit_kthread i) = pr_orig i" for i :: "('a, 'b) irq_state_scheme"
      by (simp add: exit_kthread_def PROC_reschedule_def rr_next_def sched_remove_def Let_def split_def)
    then show ?thesis using d by (simp add: ke)
  qed
  have rest: "C \<inter> thread_blocks (?T - {?c}) = {}" "S \<inter> stack_of s ` (?T - {?c}) = {}" "inj_on (stack_of s) (?T - {?c})"
    using d by (auto simp: thread_blocks_def intro: inj_on_subset [OF inj])
  have e: "stk_inv (s'\<lparr>km_mem := m\<rparr>) A B X N = stk_inv (s2\<lparr>km_mem := m\<rparr>) A B X N" for m A B X N
  proof -
    have "s'\<lparr>km_mem := m\<rparr> = s2\<lparr>km_mem := m\<rparr>\<lparr>k_irq := CONTEXT_SWITCH (PROC_reschedule (k_irq s2))\<rparr>" by (simp add: s')
    then show ?thesis by (simp only: stk_inv_k_irq)
  qed
  have main: "kernel_inv (s'\<lparr>km_mem := m\<rparr>) C S ((nd, ?t) # xs) n ?R W" if ch: "changes_in (km_mem s2) m (unat ?c) 240" for m
  proof -
    have so: "stack_of (s'\<lparr>km_mem := m\<rparr>) = stack_of s" by (rule ext) (simp add: stack_of_def ke exit_stack_top)
    have "stk_inv (s'\<lparr>km_mem := m\<rparr>) (C \<union> thread_blocks (?T - {?c})) (S \<union> stack_of s ` (?T - {?c})) ((nd, ?t) # xs) n"
      using w2 [OF ch] unfolding e eS eC .
    then show ?thesis using rest pi' or unfolding kernel_inv_def T' so by simp
  qed
  have ms: "km_mem s' = km_mem s2" by (simp add: s')
  have "kernel_inv s' C S ((nd, ?t) # xs) n ?R W" 
  proof -
    have "s'\<lparr>km_mem := km_mem s2\<rparr> = s'" by (simp add: s')
    with main [of "km_mem s2"] show ?thesis by (simp add: changes_in_def)
  qed
  moreover have "same_on (km_mem s) (km_mem s') (unat q) j" if q: "(q, j) \<in> C \<union> thread_blocks (?T - {?c})" for q j
  proof -
    have q': "(q, j) \<in> ?C - {(?c, 240)}" unfolding eC by (rule q)
    then have "same_on (km_mem s) (km_mem s1) (unat q) j" using m1 by blast
    moreover have "same_on (km_mem s1) (km_mem s2) (unat q) j" using m2 q' by auto
    ultimately show ?thesis unfolding ms by (rule same_on_trans)
  qed
  ultimately show ?thesis using nd ke main unfolding ms by blast
qed


section \<open>Failure\<close>

text \<open>Where a small request, a new thread or an exit fails, memory is used up and the kernel halts.\<close>

lemma kmalloc_pool_halt:
  assumes inv: "km_inv s Fr U" and f: "find_pool (km_pools s) 0 (sz + HEADER_SIZE) = Some i"
    and lt: "hp_brk s < KERNEL_STACKS_START"
  shows "kmalloc sz s = Inl OutOfMemory \<or> (\<exists>p s'. kmalloc sz s = Inr (p, s'))"
proof -
  note d = km_invD [OF inv]
  note pd = pools_okD [OF d(5)]
  from find_pool_Some [OF f] pd(1) have i: "i < NUM_POOLS" by simp
  have nl: "(KERNEL_STACKS_START \<le> hp_brk s) = False" using lt by (simp only: linorder_not_le [symmetric] simp_thms)
  let ?a = "if kp_avail (km_pools s ! i) = 0 then allocate_blocks i s else Inr s"
  have "?a = Inl OutOfMemory \<or> (\<exists>s1 Fr1. ?a = Inr s1 \<and> Fr1 i \<noteq> [] \<and> km_inv s1 Fr1 U)"
  proof (cases "Fr i = []")
    case True
    show ?thesis
    proof (cases "map_page (hp_brk s) 0 heap_flags s")
      case (Inl e)
      then have "map_page (hp_brk s) 0 heap_flags s = Inl OutOfMemory" using map_page_halt [OF d(1) Inl] by simp
      then have "MMU_alloc_page s = Inl OutOfMemory" using lt unfolding MMU_alloc_page_def by (simp add: not_le)
      moreover have "kp_avail (km_pools s ! i) = 0" using True pd(4) [OF i] by simp
      ultimately have "?a = Inl OutOfMemory" unfolding allocate_blocks_def by simp
      then show ?thesis ..
    next
      case (Inr s0)
      let ?s = "s0\<lparr>hp_brk := hp_brk s0 + PAGE_SIZE\<rparr>"
      have "MMU_alloc_page s = Inr (hp_brk s0, ?s)" by (simp only: MMU_alloc_page_def nl if_False Inr bind_res_simps Let_def)
      then obtain a s1 where a: "MMU_alloc_page s = Inr (a, s1)" by blast
      have "a \<noteq> NULL"
        using MMU_alloc_page_brk(4) [OF d(1,2) a lt] d(2) by (auto simp: brk_ok_def KERNEL_HEAP_START_def)
      with a obtain s2 where s2: "allocate_blocks i s = Inr s2" by (auto simp: allocate_blocks_def Let_def)
      from allocate_blocks_inv [OF inv i True s2] obtain L where "L \<noteq> []" "km_inv s2 (Fr(i := L)) U" by blast
      with s2 True pd(4) [OF i] show ?thesis by (intro disjI2 exI [of _ s2] exI [of _ "Fr(i := L)"]) simp
    qed
  next
    case False
    with pd(4) [OF i] inv show ?thesis by (intro disjI2 exI [of _ s] exI [of _ Fr]) simp
  qed
  then show ?thesis
  proof (elim disjE exE conjE)
    assume "?a = Inl OutOfMemory"
    then show ?thesis using f by (simp add: kmalloc_def)
  next
    fix s1 Fr1 assume a: "?a = Inr s1" and F1: "Fr1 i \<noteq> []" and i1: "km_inv s1 Fr1 U"
    then obtain c cs where c: "Fr1 i = c # cs" by (auto simp: neq_Nil_conv)
    have "c \<noteq> NULL" using block_bounds(5) [OF i1 blocks_free [of i c Fr1 U, OF i]] c by simp
    moreover have "kp_head (km_pools s1 ! i) = c" using pools_okD(3) [OF km_invD(5) [OF i1] i] c by simp
    ultimately show ?thesis using f a by (auto simp: kmalloc_def Let_def pop_free_block_def)
  qed
qed

lemma fits_brk: "fits sz s \<Longrightarrow> hp_brk s < KERNEL_STACKS_START"
proof -
  assume f: "fits sz s"
  have "1 \<le> (unat sz + 4111) div 4096" by linarith
  with f have "unat (hp_brk s) < unat KERNEL_STACKS_START" unfolding fits_def by linarith
  then show ?thesis by (simp only: word_less_nat_alt)
qed

lemma kmalloc_stk_halt:
  assumes inv: "stk_inv s C S xs n" and ft: "fits sz s"
    and f: "\<And>ps. map kp_block_size ps = pool_sizes \<Longrightarrow> find_pool ps 0 (sz + HEADER_SIZE) = Some i"
  shows "kmalloc sz s = Inl OutOfMemory \<or> (\<exists>p s'. kmalloc sz s = Inr (p, s'))"
proof -
  from inv obtain Fr U where k: "km_inv s Fr U" by (auto simp: stk_inv_def km_live_def)
  have "map kp_block_size (km_pools s) = pool_sizes" using km_invD(5) [OF k] by (simp add: pools_ok_def)
  from kmalloc_pool_halt [OF k f [OF this] fits_brk [OF ft]] show ?thesis .
qed

lemma process_pool:
  "map kp_block_size ps = pool_sizes \<Longrightarrow> find_pool ps 0 (PROCESS_SIZE + HEADER_SIZE) = Some 3"
  "map kp_block_size ps = pool_sizes \<Longrightarrow> find_pool ps 0 (FTS_SIZE + HEADER_SIZE) = Some 0"
  by (auto dest!: pools_cases simp: PROCESS_SIZE_def HEADER_SIZE_def FTS_SIZE_def)

lemma PROC_create_kthread_halt:
  assumes inv: "kernel_queues s C S xs n R W" and ft: "fits PROCESS_SIZE s" and left: "xs = [] \<longrightarrow> n < MAX_STACKS"
  shows "PROC_create_kthread wrapper entry_point arg s = Inl OutOfMemory \<or>
    (\<exists>p s'. PROC_create_kthread wrapper entry_point arg s = Inr (p, s'))"
proof -
  have i0: "stk_inv s (C \<union> thread_blocks (threads R W)) (S \<union> stack_of s ` threads R W) xs n"
    using inv by (simp add: kernel_queues_def)
  have k: "kcalloc 1 PROCESS_SIZE s = Inl OutOfMemory \<or> (\<exists>p s1. kcalloc 1 PROCESS_SIZE s = Inr (p, s1))"
    using kmalloc_stk_halt [OF i0 ft process_pool(1)] by (auto simp: kcalloc_def)
  show ?thesis
  proof (cases "kcalloc 1 PROCESS_SIZE s = Inl OutOfMemory")
    case True
    then show ?thesis by (simp add: PROC_create_kthread_def)
  next
    case False
    with k obtain p s1 where r: "kcalloc 1 PROCESS_SIZE s = Inr (p, s1)" by blast
    have "stk_inv s1 (insert (p, 240) (C \<union> thread_blocks (threads R W))) (S \<union> stack_of s ` threads R W) xs n"
      using kcalloc_process [OF i0 ft r] by blast
    from MMU_alloc_stack_halt [OF this left] r show ?thesis by (auto simp: PROC_create_kthread_def)
  qed
qed

lemma MMU_free_stack_halt:
  assumes inv: "stk_inv s C S xs n" and t: "t \<in> S" and ft: "fits FTS_SIZE s"
  shows "MMU_free_stack t s = Inl OutOfMemory \<or> (\<exists>s'. MMU_free_stack t s = Inr s')"
proof -
  from stk_inv_stacks [OF inv, of t] t obtain k where k: "1 \<le> k" "k \<le> MAX_STACKS" "t = nth_stack k" by auto
  then have t3: "0x3000 \<le> unat t" by (simp add: unat_nth_stack)
  let ?s1 = "snd (free_pf_from_virtual_addr (t - 0x2000) (snd (free_pf_from_virtual_addr (t - 0x1000) s)))"
  have wf: "bump_wf ?s1" using inv km_live_wf by (auto simp: stk_inv_def)
  have po: "pf_only s ?s1" using pf_only_trans [OF pf_only_free_virtual pf_only_free_virtual] .
  note i1 = stk_inv_pf_only [OF inv po wf]
  have ft1: "fits FTS_SIZE ?s1" using ft pf_only_brk [OF po] by (simp add: fits_def)
  from kmalloc_stk_halt [OF i1(1) ft1 process_pool(2)] show ?thesis
    unfolding MMU_free_stack_def free_stack_loop_two [OF t3] by (auto simp: push_stack_node_def Let_def)
qed

lemma kexit_frees:
  assumes inv: "kernel_inv s C S xs n R W" and ft: "fits FTS_SIZE s" and c: "pr_curr (k_irq s) \<noteq> pr_orig (k_irq s)"
  shows "MMU_free_stack (stack_of s (pr_curr (k_irq s))) s = Inl OutOfMemory \<or> (\<exists>s1. MMU_free_stack (stack_of s (pr_curr (k_irq s))) s = Inr s1)"
    and "MMU_free_stack (stack_of s (pr_curr (k_irq s))) s = Inr s1 \<Longrightarrow> \<exists>s'. kexit s = Inr s'"
proof -
  let ?c = "pr_curr (k_irq s)" and ?T = "threads R W"
  note d = inv [unfolded kernel_inv_def]
  have cT: "?c \<in> ?T" using d c by (auto simp: proc_inv_def threads_def)
  have i0: "stk_inv s (C \<union> thread_blocks ?T) (S \<union> stack_of s ` ?T) xs n" using d by blast
  have tS: "stack_of s ?c \<in> S \<union> stack_of s ` ?T" using cT by blast
  from MMU_free_stack_halt [OF i0 tS ft]
  show "MMU_free_stack (stack_of s ?c) s = Inl OutOfMemory \<or> (\<exists>s1. MMU_free_stack (stack_of s ?c) s = Inr s1)" .
  assume a: "MMU_free_stack (stack_of s ?c) s = Inr s1"
  from MMU_free_stack_inv [OF i0 tS ft a] obtain nd where
    i1: "stk_inv s1 (C \<union> thread_blocks ?T) (S \<union> stack_of s ` ?T - {stack_of s ?c}) ((nd, stack_of s ?c) # xs) n"
    and k1: "stack_state.more s1 = stack_state.more s" by blast
  note ki = stack_more_fields(1) [OF k1]
  have i1': "stk_inv (s1\<lparr>k_irq := sched_remove ?c (k_irq s)\<rparr>) (C \<union> thread_blocks ?T) (S \<union> stack_of s ` ?T - {stack_of s ?c}) ((nd, stack_of s ?c) # xs) n"
    using i1 by simp
  have pC: "(?c, 240) \<in> C \<union> thread_blocks ?T" using cT by (simp add: thread_blocks_def)
  from kfree_client [OF i1' pC] a show "\<exists>s'. kexit s = Inr s'" by (auto simp: kexit_split ki)
qed

lemma kexit_halt:
  assumes "kernel_inv s C S xs n R W" and "fits FTS_SIZE s" and "pr_curr (k_irq s) \<noteq> pr_orig (k_irq s)"
  shows "kexit s = Inl OutOfMemory \<or> (\<exists>s'. kexit s = Inr s')"
  using kexit_frees [OF assms] by (auto simp: kexit_split)


section \<open>Properties\<close>

text \<open>
  C35: Creating a thread only fails when memory is used up. Otherwise the thread's structure and stack are fresh,
  it is the last of the ready queue and starts in the wrapper, with the function and its argument in the argument
  registers, on its own stack, with interrupts on; the running thread goes on, every thread still has its own
  structure and stack, and no memory in use has changed.
\<close>

theorem PROC_create_kthread_ready:
  assumes "kernel_inv s C S xs n R W" and "fits PROCESS_SIZE s" and "xs = [] \<longrightarrow> n < MAX_STACKS"
  shows "(PROC_create_kthread wrapper entry_point arg s = Inl OutOfMemory \<or>
      (\<exists>p s'. PROC_create_kthread wrapper entry_point arg s = Inr (p, s'))) \<and>
    (\<forall>p s'. PROC_create_kthread wrapper entry_point arg s = Inr (p, s') \<longrightarrow>
       p \<notin> threads R W \<and> kernel_inv s' C S (tl xs) (if xs = [] then Suc n else n) (R @ [p]) W \<and>
       p_regfile (sc_procs (k_irq s') p) = zero_regfile\<lparr>rf_rbp := stack_of s' p, rf_rsp := stack_of s' p, rf_rip := wrapper,
         rf_rdi := entry_point, rf_rsi := arg, rf_cs := KERNEL_CODE_SELECTOR, rf_ss := 0, rf_rflags := IE_FLAG OR RES_FLAG\<rparr> \<and>
       (\<forall>(q, j) \<in> C \<union> thread_blocks (threads R W). same_on (km_mem s) (km_mem s') (unat q) j) \<and>
       pr_curr (k_irq s') = pr_curr (k_irq s))"
  using PROC_create_kthread_halt [OF _ assms(2,3)] PROC_create_kthread_inv [OF assms] assms(1) unfolding kernel_inv_queues by blast

text \<open>
  C36: A thread that exits only halts the kernel when memory is used up. Otherwise its structure goes back to the
  heap and its stack is the next one to be handed out, it is in no queue any more, the scheduler has picked another
  thread, and no other memory in use has changed. The context switch that follows stores the registers of the dead
  thread into its freed structure: whatever is stored there, nothing of this is disturbed.
\<close>

theorem kexit_releases:
  assumes "kernel_inv s C S xs n R W" and "fits FTS_SIZE s" and "pr_curr (k_irq s) \<noteq> pr_orig (k_irq s)"
  shows "(kexit s = Inl OutOfMemory \<or> (\<exists>s'. kexit s = Inr s')) \<and>
    (\<forall>s'. kexit s = Inr s' \<longrightarrow>
       (\<exists>nd. (nd, 16) \<notin> C \<union> node_blocks xs \<and>
         kernel_inv s' C S ((nd, stack_of s (pr_curr (k_irq s))) # xs) n (remove1 (pr_curr (k_irq s)) R) W \<and>
         k_irq s' = exit_kthread (k_irq s) \<and>
         (\<forall>(q, j) \<in> C \<union> thread_blocks (threads R W - {pr_curr (k_irq s)}). same_on (km_mem s) (km_mem s') (unat q) j) \<and>
         (\<forall>m. changes_in (km_mem s') m (unat (pr_curr (k_irq s))) 240 \<longrightarrow>
            kernel_inv (s'\<lparr>km_mem := m\<rparr>) C S ((nd, stack_of s (pr_curr (k_irq s))) # xs) n (remove1 (pr_curr (k_irq s)) R) W)))"
  using kexit_halt [OF assms] kexit_inv [OF assms] by blast

text \<open>The example: the heap and the stacks of the examples before, and no thread.\<close>

definition thread_irq_example :: "unit irq_state" where
  "thread_irq_example = irq_example\<lparr>pr_orig := KERNEL_STACKS_START, pr_curr := KERNEL_STACKS_START\<rparr>"

definition thread_example :: "(unit, unit) kernel" where
  "thread_example = stack_state.extend stk_example \<lparr>k_irq = thread_irq_example, k_gdt = undefined\<rparr>"

lemma thread_example_fields [simp]:
  "pf_mem thread_example = pf_mem km_example" "pf_map thread_example = pf_map km_example" "pf_free_pool thread_example = pf_free_pool km_example"
  "pf_current thread_example = pf_current km_example" "pf_region thread_example = pf_region km_example" "mu_pml4 thread_example = mu_pml4 km_example"
  "hp_brk thread_example = hp_brk km_example" "km_mem thread_example = km_mem km_example" "km_pools thread_example = km_pools km_example"
  "km_base thread_example = km_base km_example" "thread_stack_brk thread_example = KERNEL_STACKS_START" "free_thread_stacks_head thread_example = NULL"
  "k_irq thread_example = thread_irq_example"
  by (simp_all add: thread_example_def stack_state.defs stk_example_def km_state.defs km_example_def)

lemma thread_example_inv: "kernel_inv thread_example {} {} [] 0 [] (\<lambda>_. [])" and thread_example_room: "room 100 thread_example"
proof -
  have "km_live thread_example {}"
    using km_example_live
    by (simp add: km_live_def km_inv_def bump_wf_def brk_ok_def pools_ok_def header_ok_def pool_ptr_def cong: owner.case_cong)
  then have "stk_inv thread_example {} {} [] 0" by (rule stk_inv_start) simp_all
  moreover have "proc_inv thread_irq_example [] (\<lambda>_. [])"
    by (simp add: proc_inv_def sched_inv_def queue_repr_def thread_irq_example_def irq_example_def KERNEL_STACKS_START_def)
  ultimately show "kernel_inv thread_example {} {} [] 0 [] (\<lambda>_. [])"
    by (simp add: kernel_inv_def threads_def thread_blocks_def) (simp add: thread_irq_example_def)
  show "room 100 thread_example" using km_example_room by (simp add: room_def bump_core_def)
qed


lemma kmalloc_pool_brk:
  assumes inv: "km_inv s Fr U" and f: "find_pool (km_pools s) 0 (sz + HEADER_SIZE) = Some i"
    and r: "kmalloc sz s = Inr (p, s')"
  shows "unat (hp_brk s') \<le> unat (hp_brk s) + 4096"
proof -
  note d = km_invD [OF inv]
  from r f obtain s1 h s2 where
    a: "(if kp_avail (km_pools s ! i) = 0 then allocate_blocks i s else Inr s) = Inr s1"
    and b: "pop_free_block i s1 = Inr (h, s2)" and s': "s' = set_header h (pool_ptr s2 i) (sz + HEADER_SIZE) s2"
    by (auto simp: kmalloc_def Let_def res_iff)
  have ab: "unat (hp_brk s1) \<le> unat (hp_brk s) + 4096" if al: "allocate_blocks i s = Inr s1"
  proof -
    from al obtain a s0 where m: "MMU_alloc_page s = Inr (a, s0)" and h: "hp_brk s1 = hp_brk s0"
      by (auto simp: allocate_blocks_def res_iff Let_def split: if_splits)
    have le: "unat (x + PAGE_SIZE) \<le> unat x + 4096" for x :: u64
      by (simp add: PAGE_SIZE_def unat_word_ariths)
    note brk = MMU_alloc_page_brk(4,5) [OF d(1,2) m]
    show ?thesis
    proof (cases "hp_brk s < KERNEL_STACKS_START")
      case True
      with brk(1) le [of "hp_brk s"] h show ?thesis by simp
    next
      case False
      with brk(2) h show ?thesis by simp
    qed
  qed
  have "hp_brk s2 = hp_brk s1" using b by (auto simp: pop_free_block_def Let_def split: if_splits)
  moreover have "hp_brk s' = hp_brk s2" by (simp add: s' set_header_def)
  moreover have "unat (hp_brk s1) \<le> unat (hp_brk s) + 4096" using a ab by (auto split: if_splits)
  ultimately show ?thesis by simp
qed

lemma thread_example_queues: "kernel_queues thread_example {} {} [] 0 [] (\<lambda>_. [])"
  using thread_example_inv unfolding kernel_inv_queues by blast

lemma create_progress:
  assumes inv: "kernel_queues s C S xs n R W" and ft: "fits PROCESS_SIZE s" and left: "xs = [] \<longrightarrow> n < MAX_STACKS"
    and rm: "room (Suc (Suc (Suc (Suc (Suc (Suc (Suc (Suc (Suc k))))))))) s"
  shows "\<exists>p s'. PROC_create_kthread w e a s = Inr (p, s') \<and> room k s' \<and> unat (hp_brk s') \<le> unat (hp_brk s) + 4096"
proof -
  have i0: "stk_inv s (C \<union> thread_blocks (threads R W)) (S \<union> stack_of s ` threads R W) xs n"
    using inv by (simp add: kernel_queues_def)
  then obtain Fr U where k: "km_inv s Fr U" by (auto simp: stk_inv_def km_live_def)
  then have f: "find_pool (km_pools s) 0 (PROCESS_SIZE + HEADER_SIZE) = Some 3"
    using km_invD(5) [OF k] by (intro process_pool) (simp add: pools_ok_def)
  from kmalloc_pool_progress [OF k rm f fits_brk [OF ft]] obtain p s1 where
    1: "kmalloc PROCESS_SIZE s = Inr (p, s1)" "room (Suc (Suc (Suc (Suc (Suc (Suc k)))))) s1" by blast
  note brk = kmalloc_pool_brk [OF k f 1(1)]
  define s2 where "s2 = s1\<lparr>km_mem := snd (memset p 0 PROCESS_SIZE (km_mem s1))\<rparr>"
  have 2: "kcalloc 1 PROCESS_SIZE s = Inr (p, s2)" using 1(1) by (simp add: kcalloc_def s2_def)
  have i2: "stk_inv s2 (insert (p, 240) (C \<union> thread_blocks (threads R W))) (S \<union> stack_of s ` threads R W) xs n"
    using kcalloc_process [OF i0 ft 2] by blast
  have "room (Suc (Suc (Suc (Suc (Suc (Suc k)))))) s2" using 1(2) by (simp add: s2_def room_def bump_core_def)
  from stack_progress [OF i2 left this] obtain t s3 where 3: "MMU_alloc_stack s2 = Inr (t, s3)" "room k s3" by blast
  have "hp_brk s3 = hp_brk s2" by (rule MMU_alloc_stack_brk [OF i2 left 3(1)])
  moreover have "hp_brk s2 = hp_brk s1" by (simp add: s2_def)
  ultimately show ?thesis using 2 3 brk by (auto simp: PROC_create_kthread_def room_def bump_core_def)
qed

lemma thread_example_fits: "fits PROCESS_SIZE thread_example"
  by (simp add: fits_def PROCESS_SIZE_def km_example_def KERNEL_HEAP_START_def KERNEL_STACKS_START_def)

theorem PROC_create_kthread_ready_witness:
  "\<exists>p s'. PROC_create_kthread 4096 8192 7 thread_example = Inr (p, s') \<and> kernel_inv s' {} {} [] 1 [p] (\<lambda>_. []) \<and>
     rf_rdi (p_regfile (sc_procs (k_irq s') p)) = 8192"
proof -
  have left: "[] = [] \<longrightarrow> 0 < MAX_STACKS" by (simp add: MAX_STACKS_def)
  obtain p s' where r: "PROC_create_kthread 4096 8192 7 thread_example = Inr (p, s')"
    using create_progress [OF thread_example_queues thread_example_fits left, where k = 91 and w = 4096 and e = 8192 and a = 7] thread_example_room by auto
  from PROC_create_kthread_ready [OF thread_example_inv thread_example_fits left] r show ?thesis by fastforce
qed

lemma stk_inv_pf_mem [simp]: "stk_inv (s\<lparr>pf_mem := m\<rparr>) C S xs n = stk_inv s C S xs n"
  by (simp add: stk_inv_def km_live_def km_inv_def bump_wf_def brk_ok_def pools_ok_def header_ok_def pool_ptr_def cong: owner.case_cong)

lemma yield_single:
  assumes inv: "proc_inv i [p] W"
  shows "pr_curr (yield i) = p" "p_stack_top (sc_procs (yield i) q) = p_stack_top (sc_procs i q)" "pr_orig (yield i) = pr_orig i"
proof -
  have q: "p \<noteq> NULL" "q_head (sc_queue i) = p" "q_tail (sc_queue i) = p" "sc_current i = NULL \<or> sc_current i = p"
    using inv by (auto simp: proc_inv_def sched_inv_def queue_repr_def)
  then show "pr_curr (yield i) = p"
    by (auto simp: yield_def yield_sys_call_def PROC_reschedule_def rr_next_def Let_def)
  show "p_stack_top (sc_procs (yield i) q) = p_stack_top (sc_procs i q)" "pr_orig (yield i) = pr_orig i"
    by (simp_all add: yield_def yield_sys_call_def CONTEXT_SWITCH_def PROC_reschedule_def rr_next_def Let_def)
qed

lemma kexit_progress:
  assumes inv: "kernel_inv s C S xs n R W" and ft: "fits FTS_SIZE s" and c: "pr_curr (k_irq s) \<noteq> pr_orig (k_irq s)"
    and e: "pf_mem s = (\<lambda>_. 0)" and rm: "room (Suc (Suc (Suc k))) s"
  shows "\<exists>s'. kexit s = Inr s'"
proof -
  let ?t = "stack_of s (pr_curr (k_irq s))"
  note d = inv [unfolded kernel_inv_def]
  have "pr_curr (k_irq s) \<in> threads R W" using d c by (auto simp: proc_inv_def threads_def)
  then have t: "?t \<in> S \<union> stack_of s ` threads R W" by blast
  have i0: "stk_inv s (C \<union> thread_blocks (threads R W)) (S \<union> stack_of s ` threads R W) xs n" using d by blast
  from stk_inv_stacks [OF i0, of ?t] t obtain j where "1 \<le> j" "j \<le> MAX_STACKS" "?t = nth_stack j" by auto
  then have t3: "0x3000 \<le> unat ?t" by (simp add: unat_nth_stack)
  from i0 obtain Fr U where km: "km_inv s Fr U" by (auto simp: stk_inv_def km_live_def)
  then have f: "find_pool (km_pools s) 0 (FTS_SIZE + HEADER_SIZE) = Some 0"
    using km_invD(5) [OF km] by (intro process_pool) (simp add: pools_ok_def)
  from kmalloc_pool_progress [OF km rm f fits_brk [OF ft]] obtain nd s1 where 1: "kmalloc FTS_SIZE s = Inr (nd, s1)" by blast
  then have "\<exists>s1. MMU_free_stack ?t s = Inr s1"
    unfolding MMU_free_stack_def free_stack_loop_two [OF t3] free_pf_empty [OF e] by (auto simp: push_stack_node_def Let_def)
  with kexit_frees(2) [OF inv ft c] show ?thesis by blast
qed

theorem kexit_releases_witness:
  "\<exists>p s1 s'. PROC_create_kthread 4096 8192 7 thread_example = Inr (p, s1) \<and>
     kexit (s1\<lparr>pf_mem := \<lambda>_. 0, k_irq := yield (k_irq s1)\<rparr>) = Inr s' \<and> (\<exists>xs. kernel_inv s' {} {} xs 1 [] (\<lambda>_. []))"
proof -
  have left: "[] = [] \<longrightarrow> 0 < MAX_STACKS" by (simp add: MAX_STACKS_def)
  obtain p s1 where r: "PROC_create_kthread 4096 8192 7 thread_example = Inr (p, s1)" and rm: "room 91 s1"
    and brk: "unat (hp_brk s1) \<le> unat (hp_brk thread_example) + 4096"
    using create_progress [OF thread_example_queues thread_example_fits left, where k = 91 and w = 4096 and e = 8192 and a = 7] thread_example_room by auto
  from PROC_create_kthread_inv [OF thread_example_inv thread_example_fits left r]
  have i1: "kernel_inv s1 {} {} [] 1 [p] (\<lambda>_. [])" by simp
  let ?s = "s1\<lparr>pf_mem := \<lambda>_. 0, k_irq := yield (k_irq s1)\<rparr>"
  have pi: "proc_inv (k_irq s1) [p] (\<lambda>_. [])" using i1 by (simp add: kernel_inv_def)
  note y = yield_single [OF pi]
  have so: "stack_of ?s = stack_of s1" by (rule ext) (simp add: stack_of_def y(2))
  have i2: "kernel_inv ?s {} {} [] 1 [p] (\<lambda>_. [])"
    using i1 yield_inv [OF pi] unfolding kernel_inv_def so by (simp add: y(3))
  have po: "p \<noteq> pr_orig (k_irq s1)" using pi by (auto simp: proc_inv_def)
  have c: "pr_curr (k_irq ?s) = p" "pr_curr (k_irq ?s) \<noteq> pr_orig (k_irq ?s)" using po by (simp_all add: y(1,3))
  have ft: "fits FTS_SIZE ?s"
    using brk by (simp add: fits_def FTS_SIZE_def km_example_def KERNEL_HEAP_START_def KERNEL_STACKS_START_def)
  obtain s' where k: "kexit ?s = Inr s'"
    using kexit_progress [OF i2 ft c(2), of 88] rm by (auto simp: room_def bump_core_def)
  from kexit_releases [OF i2 ft c(2), unfolded c(1)] k obtain xs where "kernel_inv s' {} {} xs 1 (remove1 p [p]) (\<lambda>_. [])" by blast
  then have "\<exists>xs. kernel_inv s' {} {} xs 1 [] (\<lambda>_. [])" by auto
  with r k show ?thesis by blast
qed

end
