(* ===== verification/User_Mode.thy ===== *)
theory User_Mode
  imports Elf Threads
begin

text \<open>
  Entering user mode (\<^verbatim>\<open>setup_userspace\<close> in \<^verbatim>\<open>kernel.c\<close> and \<^verbatim>\<open>call_user\<close> in \<^verbatim>\<open>arch/x64.asm\<close>): the program is loaded,
  the user gets a stack and the processor a kernel stack to come back to, and \<^verbatim>\<open>iretq\<close> takes the frame that is
  pushed for it. The devices behind the file system are those of the kernel's state.
\<close>

section \<open>Operations\<close>

text \<open>What \<^verbatim>\<open>iretq\<close> loads.\<close>

record iret_frame =
  if_rip :: u64
  if_cs :: u64
  if_rflags :: u64
  if_rsp :: u64
  if_ss :: u64

definition call_user :: "u64 \<Rightarrow> u64 \<Rightarrow> iret_frame" where
  "call_user user_text user_stack =
     \<lparr>if_rip = user_text, if_cs = 0x18 OR 0x3, if_rflags = 0x202, if_rsp = user_stack, if_ss = 0x20 OR 0x3\<rparr>"

text \<open>\<open>None\<close> instead of a frame: the binary is not supported, and the function returns.\<close>

definition setup_userspace ::
    "('d, 'b) irq_state_scheme reader \<Rightarrow> fat_superblock \<Rightarrow> (u8 list \<Rightarrow> u8 list \<times> u8 list) \<Rightarrow> (nat \<Rightarrow> u8 list) \<Rightarrow> u8 list \<Rightarrow> u8 list \<Rightarrow>
     inode \<Rightarrow> u8 list \<Rightarrow> (('d, 'b) irq_state_scheme, path_search) fat_state_scheme \<Rightarrow> ('d, 'b, 'a) kernel_scheme \<Rightarrow>
     (iret_frame option \<times> (('d, 'b) irq_state_scheme, path_search) fat_state_scheme \<times> ('d, 'b, 'a) kernel_scheme) res option" where
  "setup_userspace rd sb bufs junk header ph root binary_path st s =
     bind_ro (ELF_mmap_binary rd sb bufs junk header ph root binary_path (st\<lparr>io := k_irq s\<rparr>) s) (\<lambda>(prog_start, st, s).
       let s = s\<lparr>k_irq := io st\<rparr>
       in if prog_start = 0 then Some (Inr (None, st, s))
          else
            let perms = \<lparr>perm_w = True, perm_x = False\<rparr>
            in bind_ro (Some (user_allocate_range USER_STACK_START (PAGE_SIZE * 16) perms s)) (\<lambda>s.
               bind_ro (Some (MMU_alloc_stack s)) (\<lambda>(stack_top, s).
               bind_ro (Some (TSS_set_rsp stack_top 0 (k_gdt s))) (\<lambda>g.
                 Some (Inr (Some (call_user prog_start (USER_STACK_START + PAGE_SIZE * 16)), st, s\<lparr>k_gdt := g\<rparr>))))))"

section \<open>The heap and what is below it\<close>

text \<open>The heap does not notice what is stored below it.\<close>

lemma km_live_below:
  assumes live: "km_live s L" and b: "\<And>x. unat KERNEL_HEAP_START \<le> unat x \<Longrightarrow> m x = km_mem s x"
  shows "km_live (s\<lparr>km_mem := m\<rparr>) L"
proof -
  from live obtain Fr U where inv: "km_inv s Fr U" and L: "L = user_live U" by (auto simp: km_live_def)
  note d = km_invD [OF inv]
  let ?s = "s\<lparr>km_mem := m\<rparr>"
  have same: "same_on (km_mem s) m (unat c) n \<and> unat c + n < 2 ^ 64" if "(t, c, n) \<in> blocks Fr U" for t c n
    using b block_bounds(3,4) [OF inv that] by (auto simp: same_on_def)
  have "free_chain m (kp_head (km_pools s ! i)) (Fr i)" if i: "i < NUM_POOLS" for i
    using chain_cong [OF i, of "Fr i" "km_mem s" m] same [OF blocks_free [of i _ Fr U, OF i]] pools_okD(3) [OF d(5) i] by auto
  then have "pools_ok ?s Fr" using d(5) by (simp add: pools_ok_def)
  moreover have "header_ok ?s h o'" if h: "U h = Some o'" for h o'
    using headers_kept [OF inv h, of ?s] same [OF blocks_live [of U h o' Fr, OF h]] by simp
  ultimately have "km_inv ?s Fr U" using d(1-4,7,8) unfolding km_inv_def by (simp add: bump_wf_def brk_ok_def)
  then show ?thesis by (auto simp: km_live_def L)
qed

lemma km_live_low:
  assumes "km_live s L" and "(p, k) \<in> L"
  shows "unat KERNEL_HEAP_START + 16 \<le> unat p"
proof -
  from assms(1) obtain Fr U where inv: "km_inv s Fr U" and L: "L = user_live U" by (auto simp: km_live_def)
  from assms(2) obtain o' where U: "U (p - HEADER_SIZE) = Some o'" by (auto simp: L user_live_iff)
  note b = block_bounds [OF inv blocks_live [of U _ o' Fr, OF U]]
  have "unat p = unat (p - HEADER_SIZE) + 16" by (rule unat_sub_16 [OF b(3)]) (use b(1) in simp)
  with b(4) show ?thesis by simp
qed

text \<open>Nor does the release of a block touch what is below the heap.\<close>

lemma kfree_low:
  assumes live: "km_live s L" and p: "(p, k) \<in> L" and r: "kfree p s = Inr s'" and x: "unat x < unat KERNEL_HEAP_START"
  shows "km_mem s' x = km_mem s x"
proof -
  from live obtain Fr U where inv: "km_inv s Fr U" and L: "L = user_live U" by (auto simp: km_live_def)
  note d = km_invD [OF inv]
  let ?h = "p - HEADER_SIZE"
  from p obtain o' where U: "U ?h = Some o'" and k: "k = extent o' - 16" by (auto simp: L user_live_iff)
  note b = block_bounds [OF inv blocks_live [of U _ o' Fr, OF U]]
  have nn: "p \<noteq> NULL" using km_live_bounds [OF live p] by simp
  show ?thesis
  proof (cases o')
    case (Pool i)
    then have i: "i < NUM_POOLS" and rd: "rd64 (km_mem s) ?h = pool_ptr s i" using d(6) [OF U] by (auto simp: header_ok_def)
    have "kfree p s = Inr (push_free_block i ?h s)"
      using nn rd pool_of_ptr [OF i d(4)] d(3) by (simp add: kfree_def Let_def)
    then have "km_mem s' = wr64 ?h (kp_head (km_pools s ! i)) (km_mem s)" using r by (auto simp: push_free_block_def Let_def)
    then show ?thesis using b(1,3,4) x by (simp add: wr64_nat_other)
  next
    case (Pages n)
    then have "rd64 (km_mem s) ?h = NULL" using d(6) [OF U] by (simp add: header_ok_def)
    then have "s' = MMU_free_pages ?h (num_pages (rd64 (km_mem s) (?h + 8))) s" using nn r by (simp add: kfree_def Let_def)
    then show ?thesis using free_pages_inv [OF inv U [unfolded Pages]] by simp
  qed
qed

lemma next_stack_low:
  assumes inv: "stk_inv s C S xs n" and r: "next_stack s = Inr (start, s1)" and x: "unat x < unat KERNEL_HEAP_START"
  shows "km_mem s1 x = km_mem s x"
proof (cases "free_thread_stacks_head s = NULL")
  case False
  note d = inv [unfolded stk_inv_def]
  from False d obtain nd t ys where xs: "xs = (nd, t) # ys" and hd: "free_thread_stacks_head s = nd"
    by (cases xs) (auto simp: nodes_ok_def)
  have nd: "(nd, 16) \<in> C \<union> node_blocks xs" by (simp add: xs node_blocks_def)
  have live: "km_live s (C \<union> node_blocks xs)" using d by blast
  from r False obtain s2 h where "kfree nd s = Inr s2" "s1 = s2\<lparr>free_thread_stacks_head := h\<rparr>"
    by (auto simp: next_stack_def pop_stack_node_def hd res_iff)
  with kfree_low [OF live nd _ x] show ?thesis by simp
qed (use r in \<open>auto simp: next_stack_def\<close>)

lemma MMU_alloc_stack_low:
  assumes inv: "stk_inv s C S xs n" and left: "xs = [] \<longrightarrow> n < MAX_STACKS" and r: "MMU_alloc_stack s = Inr (t, s')"
  shows "unat x < unat KERNEL_HEAP_START \<Longrightarrow> km_mem s' x = km_mem s x" "has_region s' \<longrightarrow> has_region s"
    "unat t = unat (t - 0x2000) + 0x2000" "unat t = unat (t - 0x1000) + 0x1000" "unat KERNEL_STACKS_START \<le> unat (t - 0x2000)"
proof -
  from next_stack_inv [OF inv left] obtain start s1 where
    1: "next_stack s = Inr (start, s1)" "stk_inv s1 C (insert (start + 0x3000) S) (tl xs) (if xs = [] then Suc n else n)"
    and e: "\<exists>m ps b h. s1 = s\<lparr>km_mem := m, km_pools := ps, thread_stack_brk := b, free_thread_stacks_head := h\<rparr>" by blast
  have wf: "bump_wf s1" using 1(2) km_live_wf by (auto simp: stk_inv_def)
  have a: "unat start + 0x3000 < 2 ^ 64" using stack_room(1) [OF 1(2)] by simp
  from r have l: "(case stack_loop (start + STACK_SIZE + PAGE_SIZE) (start + PAGE_SIZE) s1 of None \<Rightarrow> Inl Diverge | Some r \<Rightarrow> r) = Inr (t, s')"
    by (simp add: MMU_alloc_stack_split 1(1))
  note m = map_pages_stk [OF wf a l]
  show "km_mem s' x = km_mem s x" if "unat x < unat KERNEL_HEAP_START"
    using stk_inv_pf_only(2) [OF 1(2) m(2,3)] next_stack_low [OF inv 1(1) that] by simp
  show "has_region s' \<longrightarrow> has_region s" using m(4) e by (auto simp: has_region_def)
  have st: "unat KERNEL_STACKS_START \<le> unat start" using stack_room(2) [OF 1(2)] by (simp add: word_le_nat_alt)
  have t: "t = start + 0x3000" "t - 0x2000 = start + 0x1000" "t - 0x1000 = start + 0x2000" using m(1) by simp_all
  have u: "unat (start + 0x3000) = unat start + 0x3000" "unat (start + 0x1000) = unat start + 0x1000" "unat (start + 0x2000) = unat start + 0x2000"
    using a by (simp_all add: unat_word_ariths)
  show "unat t = unat (t - 0x2000) + 0x2000" "unat t = unat (t - 0x1000) + 0x1000" unfolding t(2,3) unfolding t(1) u by simp_all
  show "unat KERNEL_STACKS_START \<le> unat (t - 0x2000)" unfolding t(2) u using st by simp
qed


lemma stk_inv_below:
  assumes inv: "stk_inv s C S xs n" and b: "\<And>x. unat KERNEL_HEAP_START \<le> unat x \<Longrightarrow> m x = km_mem s x"
  shows "stk_inv (s\<lparr>km_mem := m\<rparr>) C S xs n"
proof -
  let ?L = "C \<union> node_blocks xs"
  have live: "km_live s ?L" and no: "nodes_ok (km_mem s) ?L (free_thread_stacks_head s) xs" using inv by (simp_all add: stk_inv_def)
  have on: "(n, 16) \<in> ?L" if "n \<in> fst ` set xs" for n using that by (auto simp: node_blocks_def)
  have "same_on (km_mem s) m (unat n) 16" if "n \<in> fst ` set xs" for n
    using km_live_low [OF live on [OF that]] b by (auto simp: same_on_def)
  with kmnodes.nodes_kept [OF live no, of m ?L] on have "nodes_ok m ?L (free_thread_stacks_head s) xs" by blast
  with km_live_below [OF live b] inv show ?thesis by (simp add: stk_inv_def)
qed

text \<open>Loading a program keeps the kernel's own state.\<close>

lemma kernel_inv_loaded:
  assumes inv: "kernel_inv s C S xs n R W" and mo: "mem_only s s'" and wf: "bump_wf s'"
    and b: "\<And>x. unat KERNEL_HEAP_START \<le> unat x \<Longrightarrow> km_mem s' x = km_mem s x"
  shows "kernel_inv s' C S xs n R W" "k_irq s' = k_irq s" "k_gdt s' = k_gdt s" "mu_pml4 s' = mu_pml4 s"
proof -
  from mo obtain m c r p k where s': "s' = s\<lparr>pf_mem := m, pf_current := c, pf_region := r, pf_free_pool := p, km_mem := k\<rparr>"
    by (auto simp: mem_only_def)
  let ?t = "s\<lparr>km_mem := k\<rparr>"
  have po: "pf_only ?t s'" unfolding s' by (rule pf_onlyI [where m = m and c = c and r = r and p = p]) simp
  have "km_mem s' = k" by (simp add: s')
  with b have "\<And>x. unat KERNEL_HEAP_START \<le> unat x \<Longrightarrow> k x = km_mem s x" by simp
  then have "stk_inv ?t A B xs n" if "stk_inv s A B xs n" for A B using stk_inv_below [OF that] by blast
  then have st: "stk_inv s' A B xs n" if "stk_inv s A B xs n" for A B using stk_inv_pf_only(1) [OF _ po wf] that by blast
  show f: "k_irq s' = k_irq s" "k_gdt s' = k_gdt s" "mu_pml4 s' = mu_pml4 s" by (simp_all add: s')
  have so: "stack_of s' = stack_of s" by (rule ext) (simp add: stack_of_def f(1))
  show "kernel_inv s' C S xs n R W" using inv st unfolding kernel_inv_def so f(1) by blast
qed

lemma proc_inv_dev: "dev_only i j \<Longrightarrow> proc_inv j R W = proc_inv i R W"
  by (auto simp: dev_only_def proc_inv_def sched_inv_def)

lemma kernel_inv_dev:
  assumes d: "dev_only (k_irq s) j"
  shows "kernel_inv (s\<lparr>k_irq := j\<rparr>) C S xs n R W = kernel_inv s C S xs n R W"
proof -
  have f: "sc_procs j = sc_procs (k_irq s)" "pr_orig j = pr_orig (k_irq s)" using d by (auto simp: dev_only_def)
  have so: "stack_of (s\<lparr>k_irq := j\<rparr>) = stack_of s" by (rule ext) (simp add: stack_of_def f)
  show ?thesis unfolding kernel_inv_def so by (simp add: f(2) proc_inv_dev [OF d])
qed

lemma kernel_inv_gdt [simp]: "kernel_inv (s\<lparr>k_gdt := g\<rparr>) C S xs n R W = kernel_inv s C S xs n R W"
  by (simp add: kernel_inv_queues)

text \<open>The kernel stack that interrupts from user mode use belongs to nobody else.\<close>

lemma kernel_inv_stack:
  assumes inv: "kernel_inv s C S xs n R W" and left: "xs = [] \<longrightarrow> n < MAX_STACKS" and r: "MMU_alloc_stack s = Inr (t, s')"
  shows "t \<notin> S \<union> stack_of s ` threads R W" "kernel_inv s' C (insert t S) (tl xs) (if xs = [] then Suc n else n) R W"
    "\<forall>(q, j) \<in> C \<union> thread_blocks (threads R W). same_on (km_mem s) (km_mem s') (unat q) j" "k_irq s' = k_irq s" "k_gdt s' = k_gdt s"
proof -
  have k: "kernel_queues s C S xs n R W" and p: "proc_inv (k_irq s) R W" using inv by (simp_all add: kernel_inv_queues)
  note q = kernel_queues_stack [OF k left r]
  show "t \<notin> S \<union> stack_of s ` threads R W" "k_irq s' = k_irq s" "k_gdt s' = k_gdt s"
    "\<forall>(q, j) \<in> C \<union> thread_blocks (threads R W). same_on (km_mem s) (km_mem s') (unat q) j" by (rule q)+
  show "kernel_inv s' C (insert t S) (tl xs) (if xs = [] then Suc n else n) R W" using q(2,4) p by (simp add: kernel_inv_queues)
qed

section \<open>The user's stack\<close>

definition user_stack_page :: "u64 \<Rightarrow> bool" where
  "user_stack_page v \<longleftrightarrow> (\<exists>k < 16. same_page v (page_at USER_STACK_START k))"

text \<open>A page of data that is reserved and gets its frame on the first access.\<close>

definition user_data_page :: "u64 \<Rightarrow> bool" where
  "user_data_page e \<longleftrightarrow> \<not> pte_present e \<and> pte_allocated e \<and> bit e 1 \<and> bit e 2 \<and> bit e 63"

text \<open>The entries on all levels let the user read and write it.\<close>

definition user_data :: "(u64 \<Rightarrow> u64) \<Rightarrow> u64 \<Rightarrow> u64 \<Rightarrow> bool" where
  "user_data m root v \<longleftrightarrow> user_data_page (eff_pte m root v) \<and> grants (\<lambda>e. bit e 2) m root v \<and> grants (\<lambda>e. bit e 1) m root v"

lemma user_stack_low: "user_stack_page v \<Longrightarrow> pml4_index v < 256"
proof -
  assume "user_stack_page v"
  then obtain k where k: "k < 16" "same_page v (page_at USER_STACK_START k)" by (auto simp: user_stack_page_def)
  have "unat (page_at USER_STACK_START k) = unat USER_STACK_START + 4096 * k" by (rule unat_page_at) (use k in \<open>simp add: USER_STACK_START_def\<close>)
  then have "unat (page_at USER_STACK_START k) < 2 ^ 47" using k(1) by (simp add: USER_STACK_START_def)
  from pml4_low(1) [OF this] k(2) show ?thesis by (simp add: same_page_def table_path_def)
qed

lemma user_data_open:
  assumes o: "tables_open m root" and v: "user_stack_page v" and e: "user_data_page (eff_pte m root v)"
  shows "user_data m root v"
proof -
  note low = user_stack_low [OF v]
  have "eff_pte m root v \<noteq> 0" using e by (auto simp: user_data_page_def)
  then obtain t where t: "tbl m root (table_path v) = Some t" using eff_pte_tbl by blast
  have "pml4_index v \<noteq> 256" using low by auto
  from grants_open(2,3) [OF o this t low] e show ?thesis by (simp add: user_data_def user_data_page_def)
qed

lemma user_stack_reserved:
  assumes inv: "mmu_inv s A F" and r: "user_allocate_range USER_STACK_START (PAGE_SIZE * 16) \<lparr>perm_w = True, perm_x = False\<rparr> s = Inr s'"
    and live: "has_region s'"
  shows "(\<exists>A' F'. mmu_inv s' A' F' \<and> A \<subseteq> A') \<and> pt_root s' = pt_root s \<and> stays_open s s' \<and>
     (\<forall>v. user_stack_page v \<longrightarrow> user_data_page (eff_pte (pf_mem s') (pt_root s) v)) \<and>
     (\<forall>v. \<not> user_stack_page v \<longrightarrow> eff_pte (pf_mem s') (pt_root s) v = eff_pte (pf_mem s) (pt_root s) v)"
proof -
  let ?fl = "user_flags \<lparr>perm_w = True, perm_x = False\<rparr>"
  have m: "map_range 0 USER_STACK_START (PAGE_SIZE * 16) ?fl s = Inr s'" using r by (simp add: user_allocate_range_eq)
  have c: "unat USER_STACK_START = 0x40000000" "unat (PAGE_SIZE * 16) = 0x10000" by (simp_all add: USER_STACK_START_def PAGE_SIZE_def)
  have lt: "4096 * k < 0x10000 \<longleftrightarrow> k < 16" for k :: nat by auto
  have np: "\<forall>k. 4096 * k < unat (PAGE_SIZE * 16) \<longrightarrow> page_at USER_STACK_START k \<noteq> NULL \<and> pml4_index (page_at USER_STACK_START k) \<noteq> 256"
  proof (intro allI impI)
    fix k assume k: "4096 * k < unat (PAGE_SIZE * 16)"
    then have k': "k < 16" unfolding c lt .
    then have u: "unat (page_at USER_STACK_START k) = 0x40000000 + 4096 * k" using unat_page_at [of USER_STACK_START k] c(1) by simp
    then have "pml4_index (page_at USER_STACK_START k) \<noteq> 256" by (intro pml4_low(2)) (use k' in simp)
    moreover have "page_at USER_STACK_START k \<noteq> NULL" using u by (metis add_is_0 unat_0 zero_neq_numeral)
    ultimately show "page_at USER_STACK_START k \<noteq> NULL \<and> pml4_index (page_at USER_STACK_START k) \<noteq> 256" by blast
  qed
  have nw: "unat USER_STACK_START + unat (PAGE_SIZE * 16) + 4096 \<le> 2 ^ 64" and sz: "unat (PAGE_SIZE * 16) \<le> 2 ^ 47" by (simp_all add: c)
  from map_range_spec [OF inv nw sz np m live, unfolded c lt] have
    1: "\<exists>A' F'. mmu_inv s' A' F' \<and> A \<subseteq> A'" "pt_root s' = pt_root s"
    and gr: "\<exists>A'. grows (open_entry ?fl \<or> (\<forall>k. k < 16 \<longrightarrow> \<not> pml4_index (page_at USER_STACK_START k) < 256)) A' (pt_root s) (pf_mem s) (pf_mem s')"
    and on: "\<And>k v. k < 16 \<Longrightarrow> same_page v (page_at USER_STACK_START k) \<Longrightarrow> eff_pte (pf_mem s') (pt_root s') v = (page_at 0 k OR ?fl)"
    and off: "\<And>v. \<forall>k. k < 16 \<longrightarrow> \<not> same_page v (page_at USER_STACK_START k) \<Longrightarrow>
        eff_pte (pf_mem s') (pt_root s') v = eff_pte (pf_mem s) (pt_root s) v" by blast+
  have "user_data_page (eff_pte (pf_mem s') (pt_root s) v)" if v: "user_stack_page v" for v
  proof -
    obtain k where k: "k < 16" "same_page v (page_at USER_STACK_START k)" using v by (auto simp: user_stack_page_def)
    have lim: "4096 * k < 2 ^ 47" using k(1) by simp
    show ?thesis using on [OF k] page_at_0_bits [OF lim]
      by (simp add: 1(2) user_data_page_def pte_present_def pte_allocated_def bit_or_iff user_flags_bits user_flags_bits(4) [simplified] user_flags_bits(1) [simplified])
  qed
  moreover have "open_entry ?fl" by (simp add: open_entry_def user_flags_bits user_flags_bits(4) [simplified])
  then have "stays_open s s'" using gr by (auto simp: stays_open_def grows_def 1(2))
  ultimately show ?thesis using 1 off unfolding user_stack_page_def by auto
qed

lemma low_pages_apart:
  assumes "unat (page_at a k) + 4096 \<le> 2 ^ 47" and "unat KERNEL_STACKS_START \<le> unat u"
  shows "\<not> (same_page v (page_at a k) \<and> same_page v u)"
proof
  assume "same_page v (page_at a k) \<and> same_page v u"
  then have "same_page (page_at a k) u" by (auto simp: same_page_def)
  note same_page_number [OF this]
  moreover have "unat (page_at a k) div 2 ^ 12 mod 2 ^ 36 < 2 ^ 35" using assms(1) by simp
  moreover have "2 ^ 35 \<le> unat u div 2 ^ 12 mod 2 ^ 36"
  proof -
    have b: "2 ^ 36 * 65535 + 2 ^ 35 \<le> unat u div 2 ^ 12" "unat u div 2 ^ 12 < 2 ^ 36 * 65536"
      using assms(2) unat_bound64 [of u] by (simp_all add: KERNEL_STACKS_START_def)
    then have "(unat u div 2 ^ 12) div 2 ^ 36 = 65535" by (intro div_nat_eqI) simp_all
    then have "unat u div 2 ^ 12 = 2 ^ 36 * 65535 + unat u div 2 ^ 12 mod 2 ^ 36" by (metis mult_div_mod_eq)
    with b(1) show ?thesis by linarith
  qed
  ultimately show False by linarith
qed

section \<open>A program in user mode\<close>

lemma call_user_frame:
  "call_user e (USER_STACK_START + PAGE_SIZE * 16) = \<lparr>if_rip = e, if_cs = 0x1B, if_rflags = 0x202, if_rsp = 0x40010000, if_ss = 0x23\<rparr>"
  by (simp add: call_user_def USER_STACK_START_def PAGE_SIZE_def)

text \<open>What the user finds: the file part of every segment in memory, the pages of the segments and a stack.\<close>

definition user_ready :: "u8 list \<Rightarrow> elf_prog_header list \<Rightarrow> 'a km_state_scheme \<Rightarrow> bool" where
  "user_ready b ps s \<longleftrightarrow>
     (\<forall>q \<in> set ps. \<forall>x. in_file_part q x \<longrightarrow>
        km_mem s x = b ! (unat (ph_file_offset q) + (unat x - unat (ph_load_addr q))) \<and> pte_present (eff_pte (pf_mem s) (pt_root s) x)) \<and>
     (\<forall>q \<in> set ps. \<forall>v. seg_page q v \<longrightarrow> user_page (pf_mem s) (pt_root s) v) \<and>
     (\<forall>v. user_stack_page v \<longrightarrow> user_data (pf_mem s) (pt_root s) v)"

text \<open>After the program is loaded: the user's stack, and the stack interrupts come back to.\<close>

lemma user_stack_step:
  assumes inv: "kernel_inv s C S xs n R W" and left: "xs = [] \<longrightarrow> n < MAX_STACKS" and rm: "room (54 + k) s"
  shows "\<exists>s1 t s2. user_allocate_range USER_STACK_START (PAGE_SIZE * 16) \<lparr>perm_w = True, perm_x = False\<rparr> s = Inr s1 \<and>
     MMU_alloc_stack s1 = Inr (t, s2) \<and> room k s2 \<and>
     pf_only s s1 \<and> kernel_inv s1 C S xs n R W \<and> k_irq s1 = k_irq s \<and> k_gdt s1 = k_gdt s \<and> km_mem s1 = km_mem s"
proof -
  have nw: "unat USER_STACK_START + unat (PAGE_SIZE * 16) + 4096 \<le> 2 ^ 64" by (simp add: USER_STACK_START_def PAGE_SIZE_def)
  have "room (3 * ((unat (PAGE_SIZE * 16) + 4095) div 4096) + (6 + k)) s" using rm by (simp add: PAGE_SIZE_def)
  from user_allocate_room [OF nw this, of "\<lparr>perm_w = True, perm_x = False\<rparr>"] obtain s1 where
    1: "user_allocate_range USER_STACK_START (PAGE_SIZE * 16) \<lparr>perm_w = True, perm_x = False\<rparr> s = Inr s1" "room (6 + k) s1" "pf_only s s1" by blast
  have m: "km_mem s1 = km_mem s" using 1(3) by (auto simp: pf_only_def)
  have i: "kernel_inv s1 C S xs n R W" "k_irq s1 = k_irq s" "k_gdt s1 = k_gdt s"
    using kernel_inv_loaded [OF inv pf_only_mem_only(2) [OF 1(3)] room_wf [OF 1(2)]] m by simp_all
  have "stk_inv s1 (C \<union> thread_blocks (threads R W)) (S \<union> stack_of s1 ` threads R W) xs n" using i(1) by (simp add: kernel_inv_def)
  moreover have "6 + k = Suc (Suc (Suc (Suc (Suc (Suc k)))))" by simp
  with 1(2) have "room (Suc (Suc (Suc (Suc (Suc (Suc k)))))) s1" by (simp only:)
  ultimately obtain t s2 where "MMU_alloc_stack s1 = Inr (t, s2)" "room k s2" using stack_progress [OF _ left] by blast
  with 1 i m show ?thesis by blast
qed

lemma user_stack_pages:
  assumes ld: "loaded b ps s0 s" and op: "tables_open (pf_mem s) (pt_root s)" and seg: "\<forall>q \<in> set ps. segment_ok b q" and ap: "\<forall>q \<in> set ps. \<forall>v. seg_page q v \<longrightarrow> \<not> user_stack_page v"
    and inv: "kernel_inv s C S xs n R W" and mmu: "mmu_inv s A F" and left: "xs = [] \<longrightarrow> n < MAX_STACKS"
    and a: "user_allocate_range USER_STACK_START (PAGE_SIZE * 16) \<lparr>perm_w = True, perm_x = False\<rparr> s = Inr s1" and i1: "kernel_inv s1 C S xs n R W"
    and m1: "km_mem s1 = km_mem s"
    and st: "MMU_alloc_stack s1 = Inr (t, s2)" and live: "has_region s2"
  shows "user_ready b ps s2 \<and> (\<exists>A' F'. mmu_inv s2 A' F' \<and> A \<subseteq> A') \<and> tables_open (pf_mem s2) (pt_root s2) \<and>
     (\<forall>v. (\<forall>q \<in> set ps. \<not> seg_page q v) \<longrightarrow> \<not> user_stack_page v \<longrightarrow> \<not> same_page v (t - 0x1000) \<longrightarrow> \<not> same_page v (t - 0x2000) \<longrightarrow>
        eff_pte (pf_mem s2) (pt_root s2) v = eff_pte (pf_mem s0) (pt_root s0) v)"
proof -
  have stk: "stk_inv s1 (C \<union> thread_blocks (threads R W)) (S \<union> stack_of s1 ` threads R W) xs n" using i1 by (simp add: kernel_inv_def)
  note low = MMU_alloc_stack_low [OF stk left st]
  have live1: "has_region s1" using low(2) live by blast
  from user_stack_reserved [OF mmu a live1] obtain A1 F1 where
    1: "mmu_inv s1 A1 F1" "A \<subseteq> A1" "pt_root s1 = pt_root s"
    and on: "\<And>v. user_stack_page v \<Longrightarrow> user_data_page (eff_pte (pf_mem s1) (pt_root s) v)"
    and off: "\<And>v. \<not> user_stack_page v \<Longrightarrow> eff_pte (pf_mem s1) (pt_root s) v = eff_pte (pf_mem s) (pt_root s) v"
    and o1: "stays_open s s1" by blast
  from MMU_alloc_stack_pages [OF stk left 1(1) st live] obtain A2 F2 where
    2: "mmu_inv s2 A2 F2" "A1 \<subseteq> A2" and gr: "grows True A2 (pt_root s1) (pf_mem s1) (pf_mem s2)" and r2: "pt_root s2 = pt_root s1"
    and e: "\<And>v. eff_pte (pf_mem s2) (pt_root s2) v =
        (if same_page v (t - 0x1000) \<or> same_page v (t - 0x2000) then stack_flags else eff_pte (pf_mem s1) (pt_root s1) v)" by blast
  have o2: "tables_open (pf_mem s2) (pt_root s2)"
    using o1 op gr by (simp add: stays_open_def grows_def r2)
  have hi: "unat KERNEL_STACKS_START \<le> unat (t - 0x1000)" using low(3-5) by linarith
  have keep: "eff_pte (pf_mem s2) (pt_root s2) v = eff_pte (pf_mem s1) (pt_root s) v"
    if "same_page v (page_at a' k)" "unat (page_at a' k) + 4096 \<le> 2 ^ 47" for v a' k
    using low_pages_apart [OF that(2) hi, of v] low_pages_apart [OF that(2) low(5), of v] that(1) by (simp add: e 1(3))
  have ks: "eff_pte (pf_mem s2) (pt_root s2) v = eff_pte (pf_mem s) (pt_root s) v" if q: "q \<in> set ps" and v: "seg_page q v" for q v
  proof -
    have ok: "segment_ok b q" using seg q by blast
    obtain k where k: "4096 * k < unat (ph_mem_size q)" "same_page v (page_at (ph_load_addr q) k)" using v by (auto simp: seg_page_def)
    have "unat (page_at (ph_load_addr q) k) + 4096 \<le> 2 ^ 47" using segment_pages(1) [OF ok k(1)] ok k(1) by (simp add: segment_ok_def)
    from keep [OF k(2) this] off ap q v show ?thesis by auto
  qed
  have us: "user_data_page (eff_pte (pf_mem s2) (pt_root s2) v)" if v: "user_stack_page v" for v
  proof -
    obtain k where k: "k < 16" "same_page v (page_at USER_STACK_START k)" using v by (auto simp: user_stack_page_def)
    have "unat (page_at USER_STACK_START k) = unat USER_STACK_START + 4096 * k" by (rule unat_page_at) (use k in \<open>simp add: USER_STACK_START_def\<close>)
    then have "unat (page_at USER_STACK_START k) + 4096 \<le> 2 ^ 47" using k(1) by (simp add: USER_STACK_START_def)
    from keep [OF k(2) this] on [OF v] show ?thesis by simp
  qed
  note L = ld [unfolded loaded_def]
  have root: "pt_root s = pt_root s0" using L by blast
  have mem: "km_mem s2 x = km_mem s x" if x: "in_file_part q x" and q: "q \<in> set ps" for q x
  proof -
    have "segment_ok b q" using seg q by blast
    then have "unat x < unat KERNEL_HEAP_START" using x by (auto simp: in_file_part_def segment_ok_def KERNEL_HEAP_START_def)
    from low(1) [OF this] m1 show ?thesis by simp
  qed
  have "user_ready b ps s2"
    unfolding user_ready_def
  proof (intro conjI ballI allI impI)
    fix q x assume q: "q \<in> set ps" and x: "in_file_part q x"
    show "km_mem s2 x = b ! (unat (ph_file_offset q) + (unat x - unat (ph_load_addr q)))" using L q x mem [OF x q] by auto
    have "seg_page q x" using in_file_part_page seg q x by blast
    then show "pte_present (eff_pte (pf_mem s2) (pt_root s2) x)" using L q x ks [OF q] root by auto
  next
    fix q v assume q: "q \<in> set ps" and v: "seg_page q v"
    have "program_page (eff_pte (pf_mem s2) (pt_root s2) v)" using L q v ks [OF q v] root by auto
    with program_user_page [OF o2 _ v] seg q show "user_page (pf_mem s2) (pt_root s2) v" by blast
  next
    fix v assume v: "user_stack_page v"
    from user_data_open [OF o2 v us [OF v]] show "user_data (pf_mem s2) (pt_root s2) v" .
  qed
  moreover have "eff_pte (pf_mem s2) (pt_root s2) v = eff_pte (pf_mem s0) (pt_root s0) v"
    if "\<forall>q \<in> set ps. \<not> seg_page q v" "\<not> user_stack_page v" "\<not> same_page v (t - 0x1000)" "\<not> same_page v (t - 0x2000)" for v
    using that e [of v] off [of v] L root 1(3) by simp
  ultimately show ?thesis using 2(1) 1(2) 2(2) o2 by blast
qed

lemma kernel_inv_wf: "kernel_inv s C S xs n R W \<Longrightarrow> bump_wf s"
  using km_live_wf by (auto simp: kernel_inv_def stk_inv_def)

lemma mmu_inv_more: "mmu_inv (s\<lparr>k_irq := i\<rparr>) A F = mmu_inv s A F" "mmu_inv (s\<lparr>k_gdt := g\<rparr>) A F = mmu_inv s A F"
  "has_region (s\<lparr>k_irq := i\<rparr>) = has_region s" "has_region (s\<lparr>k_gdt := g\<rparr>) = has_region s"
  "pt_root (s\<lparr>k_irq := i\<rparr>) = pt_root s" "pt_root (s\<lparr>k_gdt := g\<rparr>) = pt_root s"
  "room k (s\<lparr>k_irq := i\<rparr>) = room k s" "room k (s\<lparr>k_gdt := g\<rparr>) = room k s"
  by (simp_all add: mmu_inv_def pf_inv_def bump_wf_def bump_used_def has_region_def pt_root_def room_def bump_core_def)

lemma user_ready_more: "user_ready b ps (s\<lparr>k_gdt := g\<rparr>) = user_ready b ps s" "loaded b ps s0 (s\<lparr>k_irq := i\<rparr>) = loaded b ps s0 s"
  by (simp_all add: user_ready_def loaded_def mmu_inv_more)

lemma kernel_inv_kept:
  assumes "kernel_inv s C S xs n R W" and "(q, j) \<in> C \<union> thread_blocks (threads R W)"
    and "\<forall>x. unat KERNEL_HEAP_START \<le> unat x \<longrightarrow> m x = km_mem s x"
  shows "same_on (km_mem s) m (unat q) j"
proof -
  have live: "km_live s (C \<union> thread_blocks (threads R W) \<union> node_blocks xs)" using assms(1) by (simp add: kernel_inv_def stk_inv_def)
  have "unat KERNEL_HEAP_START + 16 \<le> unat q" by (rule km_live_low [OF live, of q j]) (use assms(2) in simp)
  then show ?thesis using assms(3) by (auto simp: same_on_def)
qed

lemma program_loaded:
  assumes "fat_ok (part_idle P p disk view) (part_sector p disk) (st\<lparr>io := k_irq s\<rparr>)" and "layout_ok (sb_fat32 sb)"
    and "path_tree (part_sector p disk) (ucast (num_sectors p)) (sb_fat32 sb) dirs D (set items)" and "sb_root sb \<in> D"
    and "\<forall>r. length (fst (bufs r)) = 512 \<and> name_buffer (snd (bufs r))"
    and "\<forall>c \<in> set items. path_item c" and "resolve dirs (sb_root sb) items = Some i"
    and "file_holds (part_sector p disk) (ucast (num_sectors p)) (sb_fat32 sb) i b"
    and "elf_image b h ps" and "\<forall>q \<in> set ps. segment_ok b q" and "sorted_wrt pages_apart ps"
    and "length header = 64" and "length ph = 56"
    and "kernel_inv s C S xs n R W" and "mmu_inv s A F" and "room (program_frames ps + k) s"
  shows "\<exists>st1 s1 A1 F1. ELF_mmap_binary (part_read_block P p) sb bufs junk header ph root (47 # join_path items) (st\<lparr>io := k_irq s\<rparr>) s =
          Some (Inr (eh_prog_entry_pos h, st1, s1)) \<and> dev_only (k_irq s) (io st1) \<and> kernel_inv (s1\<lparr>k_irq := io st1\<rparr>) C S xs n R W \<and> k_gdt s1 = k_gdt s \<and>
        (\<forall>x. unat KERNEL_HEAP_START \<le> unat x \<longrightarrow> km_mem s1 x = km_mem s x) \<and> room k s1 \<and>
        loaded b ps s s1 \<and> stays_open s s1 \<and> mmu_inv s1 A1 F1 \<and> A \<subseteq> A1"
proof -
  let ?inv = "\<lambda>j. part_idle P p disk view j \<and> dev_only (k_irq s) j"
  have ok: "fat_ok ?inv (part_sector p disk) (st\<lparr>io := k_irq s\<rparr>)" using assms(1) by (simp add: fat_ok_def)
  from part_dev.ELF_mmap_binary_ok [OF assms(2-5) ok assms(6-13) assms(15,16), of junk root] obtain st1 s1 A1 F1 where
    e: "ELF_mmap_binary (part_read_block P p) sb bufs junk header ph root (47 # join_path items) (st\<lparr>io := k_irq s\<rparr>) s =
        Some (Inr (eh_prog_entry_pos h, st1, s1))"
    and ok1: "fat_ok ?inv (part_sector p disk) st1" and rm1: "room k s1" and tc: "touches ps s s1"
    and ld: "loaded b ps s s1" "stays_open s s1" "mmu_inv s1 A1 F1" "A \<subseteq> A1" by blast
  have d: "dev_only (k_irq s) (io st1)" using ok1 by (simp add: fat_ok_def)
  have hi: "km_mem s1 x = km_mem s x" if x: "unat KERNEL_HEAP_START \<le> unat x" for x
  proof -
    have "\<not> in_file_part q x" if "q \<in> set ps" for q
      using assms(10) that x by (auto simp: in_file_part_def segment_ok_def KERNEL_HEAP_START_def)
    then show ?thesis using tc by (simp add: touches_def)
  qed
  have mo: "mem_only s s1" using tc by (simp add: touches_def)
  note k = kernel_inv_loaded [OF assms(14) mo room_wf [OF rm1] hi]
  have "kernel_inv (s1\<lparr>k_irq := io st1\<rparr>) C S xs n R W" using kernel_inv_dev [of s1 "io st1" C S xs n R W] d k(1,2) by simp
  with e d k(3) hi rm1 ld show ?thesis by blast
qed

text \<open>The whole of it; the property below repeats the statement.\<close>

lemma setup_userspace_ok:
  assumes "fat_ok (part_idle P p disk view) (part_sector p disk) (st\<lparr>io := k_irq s\<rparr>)" and "layout_ok (sb_fat32 sb)"
    and "path_tree (part_sector p disk) (ucast (num_sectors p)) (sb_fat32 sb) dirs D (set items)" and "sb_root sb \<in> D"
    and "\<forall>r. length (fst (bufs r)) = 512 \<and> name_buffer (snd (bufs r))"
    and "\<forall>c \<in> set items. path_item c" and "resolve dirs (sb_root sb) items = Some i"
    and "file_holds (part_sector p disk) (ucast (num_sectors p)) (sb_fat32 sb) i b"
    and "elf_image b h ps" and "\<forall>q \<in> set ps. segment_ok b q" and "sorted_wrt pages_apart ps"
    and "length header = 64" and "length ph = 56"
    and "\<forall>q \<in> set ps. \<forall>v. seg_page q v \<longrightarrow> \<not> user_stack_page v" and "eh_prog_entry_pos h \<noteq> 0"
    and "kernel_inv s C S xs n R W" and "mmu_inv s A F" and "xs = [] \<longrightarrow> n < MAX_STACKS" and "tss_rsp (gd_tss (k_gdt s)) \<noteq> []"
    and "tables_open (pf_mem s) (pt_root s)" and "room (program_frames ps + 54) s"
  shows "\<exists>st' s' t. setup_userspace (part_read_block P p) sb bufs junk header ph root (47 # join_path items) st s =
          Some (Inr (Some \<lparr>if_rip = eh_prog_entry_pos h, if_cs = 0x1B, if_rflags = 0x202, if_rsp = 0x40010000, if_ss = 0x23\<rparr>, st', s')) \<and>
        t \<notin> S \<union> stack_of s ` threads R W \<and> hd (tss_rsp (gd_tss (k_gdt s'))) = t \<and>
        kernel_inv s' C (insert t S) (tl xs) (if xs = [] then Suc n else n) R W \<and> dev_only (k_irq s) (k_irq s') \<and>
        (\<forall>(q, j) \<in> C \<union> thread_blocks (threads R W). same_on (km_mem s) (km_mem s') (unat q) j) \<and>
        user_ready b ps s' \<and> (\<exists>A' F'. mmu_inv s' A' F' \<and> A \<subseteq> A') \<and>
        (\<forall>v. (\<forall>q \<in> set ps. \<not> seg_page q v) \<longrightarrow> \<not> user_stack_page v \<longrightarrow> \<not> same_page v (t - 0x1000) \<longrightarrow> \<not> same_page v (t - 0x2000) \<longrightarrow>
           eff_pte (pf_mem s') (pt_root s') v = eff_pte (pf_mem s) (pt_root s) v)"
proof -
  let ?elf = "ELF_mmap_binary (part_read_block P p) sb bufs junk header ph root (47 # join_path items) (st\<lparr>io := k_irq s\<rparr>) s"
  let ?call = "setup_userspace (part_read_block P p) sb bufs junk header ph root (47 # join_path items) st s"
  let ?alloc = "user_allocate_range USER_STACK_START (PAGE_SIZE * 16) \<lparr>perm_w = True, perm_x = False\<rparr>"
  from program_loaded [OF assms(1-13,16,17,21), of junk root] obtain st1 s1 A1 F1 where
    e: "?elf = Some (Inr (eh_prog_entry_pos h, st1, s1))" and d: "dev_only (k_irq s) (io st1)"
    and k1: "kernel_inv (s1\<lparr>k_irq := io st1\<rparr>) C S xs n R W" and g1: "k_gdt s1 = k_gdt s"
    and hi: "\<forall>x. unat KERNEL_HEAP_START \<le> unat x \<longrightarrow> km_mem s1 x = km_mem s x" and rm1: "room 54 s1"
    and ld: "loaded b ps s s1" "stays_open s s1" "mmu_inv s1 A1 F1" "A \<subseteq> A1" by blast
  let ?s1 = "s1\<lparr>k_irq := io st1\<rparr>"
  have "room (54 + 0) ?s1" using rm1 by (simp add: mmu_inv_more)
  from user_stack_step [OF k1 assms(18) this] obtain s2 t s3 where
    a: "?alloc ?s1 = Inr s2" and st: "MMU_alloc_stack s2 = Inr (t, s3)" and rm3: "room 0 s3"
    and k2: "kernel_inv s2 C S xs n R W" "k_irq s2 = k_irq ?s1" "k_gdt s2 = k_gdt ?s1" "km_mem s2 = km_mem ?s1" by blast
  note k3 = kernel_inv_stack [OF k2(1) assms(18) st]
  obtain r rs where rsp: "tss_rsp (gd_tss (k_gdt s)) = r # rs" using assms(19) by (cases "tss_rsp (gd_tss (k_gdt s))") auto
  let ?g = "(k_gdt s)\<lparr>gd_tss := (gd_tss (k_gdt s))\<lparr>tss_rsp := t # rs\<rparr>\<rparr>"
  let ?s3 = "s3\<lparr>k_gdt := ?g\<rparr>"
  have "TSS_set_rsp t 0 (k_gdt s3) = Inr ?g" by (simp add: TSS_set_rsp_def k3(5) k2(3) g1 rsp)
  then have run: "?call = Some (Inr (Some (call_user (eh_prog_entry_pos h) (USER_STACK_START + PAGE_SIZE * 16)), st1, ?s3))"
    using e a st assms(15) by (simp add: setup_userspace_def Let_def)
  have so: "stack_of s2 = stack_of s" by (rule ext) (use d in \<open>auto simp: stack_of_def k2(2) dev_only_def\<close>)
  note fin = kernel_inv_stack(1,3) [OF k2(1) assms(18) st, unfolded so]
  have same: "same_on (km_mem s) (km_mem ?s3) (unat q) j" if q: "(q, j) \<in> C \<union> thread_blocks (threads R W)" for q j
    using kernel_inv_kept [OF assms(16) q, of "km_mem s2"] hi k2(4) fin(2) q same_on_trans by fastforce
  have ll: "loaded b ps s ?s1" and lm: "mmu_inv ?s1 A1 F1" and lo: "tables_open (pf_mem ?s1) (pt_root ?s1)"
    using ld assms(20) by (simp_all add: user_ready_more mmu_inv_more stays_open_def)
  from user_stack_pages [OF ll lo assms(10,14) k1 lm assms(18) a k2(1,4) st room_region [OF rm3]] ld(4)
  have "user_ready b ps ?s3 \<and> (\<exists>A' F'. mmu_inv ?s3 A' F' \<and> A \<subseteq> A') \<and>
       (\<forall>v. (\<forall>q \<in> set ps. \<not> seg_page q v) \<longrightarrow> \<not> user_stack_page v \<longrightarrow> \<not> same_page v (t - 0x1000) \<longrightarrow> \<not> same_page v (t - 0x2000) \<longrightarrow>
          eff_pte (pf_mem ?s3) (pt_root ?s3) v = eff_pte (pf_mem s) (pt_root s) v)"
    by (auto simp: user_ready_more mmu_inv_more)
  moreover have "kernel_inv ?s3 C (insert t S) (tl xs) (if xs = [] then Suc n else n) R W" using k3(2) by simp
  moreover have "dev_only (k_irq s) (k_irq ?s3)" using d by (simp add: k3(4) k2(2))
  ultimately show ?thesis using run [unfolded call_user_frame] fin(1) same by (intro exI [of _ st1] exI [of _ ?s3] exI [of _ t]) auto
qed

section \<open>Properties\<close>

text \<open>
  C38: Entering user mode runs the program, as long as memory is left (four frames for each page of the program and 54 for the
  stacks): the frame that is loaded has its entry point, the user's code and stack selectors and the top of the user's stack;
  the bytes of the program are in memory; the tables on all levels give the user its pages to read, write and execute, and those of the
  stack to read and write, marked as not executable; interrupts come back to a kernel stack that nobody else uses; the threads, their
  memory and all other pages are as before.
\<close>

theorem setup_userspace_enters:
  assumes "fat_ok (part_idle P p disk view) (part_sector p disk) (st\<lparr>io := k_irq s\<rparr>)" and "layout_ok (sb_fat32 sb)"
    and "path_tree (part_sector p disk) (ucast (num_sectors p)) (sb_fat32 sb) dirs D (set items)" and "sb_root sb \<in> D"
    and "\<forall>r. length (fst (bufs r)) = 512 \<and> name_buffer (snd (bufs r))"
    and "\<forall>c \<in> set items. path_item c" and "resolve dirs (sb_root sb) items = Some i"
    and "file_holds (part_sector p disk) (ucast (num_sectors p)) (sb_fat32 sb) i b"
    and "elf_image b h ps" and "\<forall>q \<in> set ps. segment_ok b q" and "sorted_wrt pages_apart ps"
    and "length header = 64" and "length ph = 56"
    and "\<forall>q \<in> set ps. \<forall>v. seg_page q v \<longrightarrow> \<not> user_stack_page v" and "eh_prog_entry_pos h \<noteq> 0"
    and "kernel_inv s C S xs n R W" and "mmu_inv s A F" and "xs = [] \<longrightarrow> n < MAX_STACKS" and "tss_rsp (gd_tss (k_gdt s)) \<noteq> []"
    and "tables_open (pf_mem s) (pt_root s)" and "room (program_frames ps + 54) s"
  shows "\<exists>st' s' t. setup_userspace (part_read_block P p) sb bufs junk header ph root (47 # join_path items) st s =
          Some (Inr (Some \<lparr>if_rip = eh_prog_entry_pos h, if_cs = 0x1B, if_rflags = 0x202, if_rsp = 0x40010000, if_ss = 0x23\<rparr>, st', s')) \<and>
        t \<notin> S \<union> stack_of s ` threads R W \<and> hd (tss_rsp (gd_tss (k_gdt s'))) = t \<and>
        kernel_inv s' C (insert t S) (tl xs) (if xs = [] then Suc n else n) R W \<and> dev_only (k_irq s) (k_irq s') \<and>
        (\<forall>(q, j) \<in> C \<union> thread_blocks (threads R W). same_on (km_mem s) (km_mem s') (unat q) j) \<and>
        user_ready b ps s' \<and> (\<exists>A' F'. mmu_inv s' A' F' \<and> A \<subseteq> A') \<and>
        (\<forall>v. (\<forall>q \<in> set ps. \<not> seg_page q v) \<longrightarrow> \<not> user_stack_page v \<longrightarrow> \<not> same_page v (t - 0x1000) \<longrightarrow> \<not> same_page v (t - 0x2000) \<longrightarrow>
           eff_pte (pf_mem s') (pt_root s') v = eff_pte (pf_mem s) (pt_root s) v)"
  by (rule setup_userspace_ok [OF assms])

text \<open>The example: no thread yet, the example volume, and memory left.\<close>

definition mem_example :: "('d, 'b) irq_state_scheme \<Rightarrow> ('d, 'b) kernel" where
  "mem_example i = stack_state.extend stk_example \<lparr>k_irq = i, k_gdt =
     \<lparr>gd_gdt = undefined, gd_tss = \<lparr>tss_rsp = [0, 0, 0], tss_ist = replicate 7 0, io_map_base_addr = 0xFFFF\<rparr>,
      gd_gdt_addr = 0, gd_tss_addr = 0, gd_gdtr = (0, 0), gd_tr = 0\<rparr>\<rparr>"

lemma mem_example_fields [simp]:
  "pf_mem (mem_example i) = pf_mem km_example" "pf_map (mem_example i) = pf_map km_example" "pf_free_pool (mem_example i) = pf_free_pool km_example"
  "pf_current (mem_example i) = pf_current km_example" "pf_region (mem_example i) = pf_region km_example" "mu_pml4 (mem_example i) = mu_pml4 km_example"
  "hp_brk (mem_example i) = hp_brk km_example" "km_mem (mem_example i) = km_mem km_example" "km_pools (mem_example i) = km_pools km_example"
  "km_base (mem_example i) = km_base km_example" "thread_stack_brk (mem_example i) = KERNEL_STACKS_START" "free_thread_stacks_head (mem_example i) = NULL"
  "k_irq (mem_example i) = i" "tss_rsp (gd_tss (k_gdt (mem_example i))) = [0, 0, 0]"
  by (simp_all add: mem_example_def stack_state.defs stk_example_def km_state.defs km_example_def)

lemma mem_example_inv:
  assumes "proc_inv i [] (\<lambda>_. [])" and "pr_orig i \<ge> KERNEL_STACKS_START"
  shows "kernel_inv (mem_example i) {} {} [] 0 [] (\<lambda>_. [])" "mmu_inv (mem_example i) {0x102000} []" "room 100 (mem_example i)"
proof -
  have "km_live (mem_example i) {}"
    using km_example_live
    by (simp add: km_live_def km_inv_def bump_wf_def brk_ok_def pools_ok_def header_ok_def pool_ptr_def cong: owner.case_cong)
  then have "stk_inv (mem_example i) {} {} [] 0" by (rule stk_inv_start) simp_all
  then show "kernel_inv (mem_example i) {} {} [] 0 [] (\<lambda>_. [])"
    using assms by (simp add: kernel_inv_def threads_def thread_blocks_def)
  show "mmu_inv (mem_example i) {0x102000} []"
    using km_example_mmu by (simp add: mmu_inv_def pf_inv_def bump_wf_def has_region_def bump_used_def pt_root_def)
  show "room 100 (mem_example i)" using km_example_room by (simp add: room_def bump_core_def)
qed

definition user_irq_example :: "ata_regs irq_state" where
  "user_irq_example = dev_state.extend ((blk_example idle_regs)\<lparr>pr_orig := KERNEL_STACKS_START, pr_curr := KERNEL_STACKS_START\<rparr>)
     \<lparr>idt = [], irq_handler_table = [], kernel_text_offset = 0, idt_loaded = True, sys_calls = []\<rparr>"

definition user_fat_example :: "(ata_regs irq_state, path_search) fat_state_scheme" where
  "user_fat_example = fat_state.extend (fat_st user_irq_example) \<lparr>ps_name = [], ps_result = None\<rparr>"

abbreviation user_example :: "(ata_regs, unit) kernel" where
  "user_example \<equiv> mem_example user_irq_example"

lemma user_irq_inv: "proc_inv user_irq_example [] (\<lambda>_. [])" "pr_orig user_irq_example \<ge> KERNEL_STACKS_START"
  by (simp_all add: proc_inv_def sched_inv_def queue_repr_def user_irq_example_def blk_example_def dev_state.defs KERNEL_STACKS_START_def)

lemmas user_example_inv = mem_example_inv [OF user_irq_inv]

lemma user_fat_ok: "fat_ok (part_idle fat_ports sda0 fat_disk (\<lambda>r. r)) (part_sector sda0 fat_disk) (user_fat_example\<lparr>io := k_irq user_example\<rparr>)"
proof -
  have "dev user_irq_example = dev (blk_example idle_regs)" by (simp add: user_irq_example_def dev_state.defs)
  then show ?thesis using fat_disk_part by (simp add: fat_ok_def user_fat_example_def fat_st_def fat_state.defs part_idle_def ata_idle_def)
qed

lemma user_example_apart: "\<forall>q \<in> set [elf_example_segment]. \<forall>v. seg_page q v \<longrightarrow> \<not> user_stack_page v"
proof -
  have "\<not> user_stack_page v" if sg: "seg_page elf_example_segment v" for v
  proof
    assume "user_stack_page v"
    then obtain k where k: "k < 16" "same_page v (page_at USER_STACK_START k)" by (auto simp: user_stack_page_def)
    from sg obtain j where j: "4096 * j < unat (ph_mem_size elf_example_segment)" "same_page v (page_at (ph_load_addr elf_example_segment) j)"
      by (auto simp: seg_page_def)
    have "same_page (page_at (ph_load_addr elf_example_segment) j) (page_at USER_STACK_START k)" using k(2) j(2) by (auto simp: same_page_def)
    note same_page_number [OF this]
    moreover have "unat (page_at USER_STACK_START k) = unat USER_STACK_START + 4096 * k" by (rule unat_page_at) (use k in \<open>simp add: USER_STACK_START_def\<close>)
    moreover note segment_pages(1) [OF elf_example_ok j(1)]
    ultimately show False using k(1) j(1) by (simp add: elf_example_fields USER_STACK_START_def)
  qed
  then show ?thesis by simp
qed

theorem setup_userspace_enters_witness:
  "\<exists>st' s'. setup_userspace (part_read_block fat_ports sda0) fat_vol vfs_bufs (\<lambda>_. []) (replicate 64 0) (replicate 56 0) (sb_root fat_vol)
       [47, 65, 98] user_fat_example user_example =
     Some (Inr (Some \<lparr>if_rip = 0x400000, if_cs = 0x1B, if_rflags = 0x202, if_rsp = 0x40010000, if_ss = 0x23\<rparr>, st', s')) \<and>
     user_ready elf_example_bytes [elf_example_segment] s' \<and> (\<exists>t. kernel_inv s' {} {t} [] 1 [] (\<lambda>_. []))"
proof -
  have r: "resolve fat_dirs (sb_root fat_vol) [[65, 98]] = Some \<lparr>st_ino = 3, st_mode = 0, st_size = 600\<rparr>" by code_simp
  have i: "\<forall>c \<in> set [[65, 98]]. path_item c" by (simp add: path_item_def)
  have j: "47 # join_path [[65, 98]] = [47, 65, 98]" by simp
  have bf: "\<forall>r :: u8 list. length (fst (vfs_bufs r)) = 512 \<and> name_buffer (snd (vfs_bufs r))" by (simp add: name_buffer_def)
  have rt: "sb_root fat_vol \<in> {sb_root fat_vol, \<lparr>st_ino = 5, st_mode = S_IFDIR, st_size = 0\<rparr>}" by simp
  have sg: "\<forall>q \<in> set [elf_example_segment]. segment_ok elf_example_bytes q" using elf_example_ok by simp
  have l64: "length (replicate 64 (0 :: u8)) = 64" and l56: "length (replicate 56 (0 :: u8)) = 56" and ap: "sorted_wrt pages_apart [elf_example_segment]" by simp_all
  have en: "eh_prog_entry_pos elf_example_header \<noteq> 0" by (simp add: elf_example_fields)
  have lf: "[] = [] \<longrightarrow> 0 < MAX_STACKS" by (simp add: MAX_STACKS_def)
  have ts: "tss_rsp (gd_tss (k_gdt user_example)) \<noteq> []" by simp
  have rm: "room (program_frames [elf_example_segment] + 54) user_example"
    unfolding elf_example_frames by (rule room_le [OF user_example_inv(3)]) simp
  have op: "tables_open (pf_mem user_example) (pt_root user_example)" using empty_tables_open by (simp add: km_example_def)
  from setup_userspace_enters [OF user_fat_ok fat_vol_layout fat_file_path rt bf i r elf_example_file elf_example_image(1) sg ap l64 l56 user_example_apart en
      user_example_inv(1,2) lf ts op rm, of "\<lambda>_. []" "sb_root fat_vol", unfolded j elf_example_fields]
  show ?thesis by auto
qed

end
