(* ===== verification/Circ_Buff.thy ===== *)
theory Circ_Buff
  imports Kernel_Prelude
begin

text \<open>
  The character ring buffer of \<^verbatim>\<open>lib/circ_buff.c\<close>, shared by the serial and the keyboard
  driver. The two head pointers point into the array \<^verbatim>\<open>buff\<close>; they are modelled by the index
  of the cell they point at. One cell stays free, so the buffer holds \<open>BUFF_SIZE - 1\<close>
  characters.
\<close>

section \<open>State and operations\<close>

definition BUFF_SIZE :: nat where
  "BUFF_SIZE = 1024"

record buff_state =
  buff :: "u8 list"
  read_head :: nat
  write_head :: nat

definition init_buff :: "buff_state \<Rightarrow> buff_state" where
  "init_buff st = st\<lparr>read_head := 0, write_head := 0\<rparr>"

definition is_buffer_empty :: "buff_state \<Rightarrow> bool" where
  "is_buffer_empty st \<longleftrightarrow> read_head st = write_head st"

definition is_buffer_full :: "buff_state \<Rightarrow> bool" where
  "is_buffer_full st \<longleftrightarrow>
     read_head st = write_head st + 1 \<or>
     (read_head st = 0 \<and> write_head st = BUFF_SIZE - 1)"

text \<open>
  \<^verbatim>\<open>consumer_read\<close> returns 0 and leaves the buffer alone when there is nothing to read
  (\<open>None\<close>), and returns 1 with the character otherwise.
\<close>

definition consumer_read :: "buff_state \<Rightarrow> (u8 \<times> buff_state) option" where
  "consumer_read st =
     (if is_buffer_empty st then None
      else
        let res = buff st ! read_head st;
            rh = read_head st + 1;
            rh = (if rh \<ge> BUFF_SIZE then 0 else rh)
        in Some (res, st\<lparr>read_head := rh\<rparr>))"

text \<open>\<^verbatim>\<open>producer_write\<close> returns 0 when the buffer is full (\<open>None\<close>) and 1 otherwise.\<close>

definition producer_write :: "u8 \<Rightarrow> buff_state \<Rightarrow> buff_state option" where
  "producer_write c st =
     (if is_buffer_full st then None
      else
        let wh = write_head st + 1;
            wh = (if wh \<ge> BUFF_SIZE then 0 else wh)
        in Some (st\<lparr>buff := (buff st)[write_head st := c], write_head := wh\<rparr>))"

section \<open>The buffer as a bounded queue\<close>

text \<open>Every cell access is in range when the heads are.\<close>

definition cb_inv :: "buff_state \<Rightarrow> bool" where
  "cb_inv st \<longleftrightarrow> length (buff st) = BUFF_SIZE \<and> read_head st < BUFF_SIZE \<and> write_head st < BUFF_SIZE"

definition cb_count :: "buff_state \<Rightarrow> nat" where
  "cb_count st = (write_head st + BUFF_SIZE - read_head st) mod BUFF_SIZE"

definition cb_list :: "buff_state \<Rightarrow> u8 list" where
  "cb_list st = map (\<lambda>i. buff st ! ((read_head st + i) mod BUFF_SIZE)) [0..<cb_count st]"

text \<open>
  What the drivers rely on: a bounded first in first out queue of characters. \<open>cap\<close> is the
  number of characters it holds.
\<close>

locale bounded_fifo =
  fixes rd :: "'b \<Rightarrow> ('c \<times> 'b) option"
    and wr :: "'c \<Rightarrow> 'b \<Rightarrow> 'b option"
    and contents :: "'b \<Rightarrow> 'c list"
    and inv :: "'b \<Rightarrow> bool"
    and cap :: nat
  assumes rd_None: "inv b \<Longrightarrow> rd b = None \<longleftrightarrow> contents b = []"
    and rd_Some: "inv b \<Longrightarrow> rd b = Some (c, b') \<Longrightarrow> contents b = c # contents b' \<and> inv b'"
    and wr_None: "inv b \<Longrightarrow> wr c b = None \<longleftrightarrow> length (contents b) = cap"
    and wr_Some: "inv b \<Longrightarrow> wr c b = Some b' \<Longrightarrow> contents b' = contents b @ [c] \<and> inv b'"
    and within_cap: "inv b \<Longrightarrow> length (contents b) \<le> cap"

text \<open>
  The two loops the drivers run over a buffer: filling it from a string until it is full
  (\<^verbatim>\<open>SER_write\<close>), and emptying it into a device until \<open>n\<close> characters are moved or none is left
  (\<^verbatim>\<open>init_hw_write\<close>).
\<close>

fun fill_loop :: "('c \<Rightarrow> 'b \<Rightarrow> 'b option) \<Rightarrow> 'c list \<Rightarrow> 'b \<Rightarrow> nat \<times> 'b" where
  "fill_loop wr [] b = (0, b)"
| "fill_loop wr (c # cs) b =
     (case wr c b of None \<Rightarrow> (0, b)
      | Some b' \<Rightarrow> (let (n, b'') = fill_loop wr cs b' in (Suc n, b'')))"

fun drain_loop :: "('b \<Rightarrow> ('c \<times> 'b) option) \<Rightarrow> nat \<Rightarrow> 'b \<Rightarrow> 'c list \<times> 'b" where
  "drain_loop rd 0 b = ([], b)"
| "drain_loop rd (Suc n) b =
     (case rd b of None \<Rightarrow> ([], b)
      | Some (c, b') \<Rightarrow> (let (cs, b'') = drain_loop rd n b' in (c # cs, b'')))"

context bounded_fifo begin

lemma fill_loop_spec:
  assumes "inv b" and "fill_loop wr cs b = (n, b')"
  shows "inv b' \<and> contents b' = contents b @ take n cs \<and>
         n = min (length cs) (cap - length (contents b))"
  using assms
proof (induction cs arbitrary: b n)
  case Nil
  then show ?case by simp
next
  case (Cons c cs)
  show ?case
  proof (cases "wr c b")
    case None
    with Cons.prems wr_None [of b c] show ?thesis by auto
  next
    case (Some b1)
    with Cons.prems(1) have b1: "contents b1 = contents b @ [c]" "inv b1"
      using wr_Some by blast+
    obtain m where m: "fill_loop wr cs b1 = (m, b')" and n: "n = Suc m"
      using Cons.prems(2) Some by (auto split: prod.splits)
    have "cap - length (contents b) = Suc (cap - length (contents b1))"
      using within_cap [OF b1(2)] b1(1) by simp
    with Cons.IH [OF b1(2) m] b1(1) n show ?thesis by simp
  qed
qed

lemma drain_loop_spec:
  assumes "inv b" and "drain_loop rd n b = (cs, b')"
  shows "inv b' \<and> contents b = cs @ contents b' \<and> length cs = min n (length (contents b))"
  using assms
proof (induction n arbitrary: b cs)
  case 0
  then show ?case by simp
next
  case (Suc n)
  show ?case
  proof (cases "rd b")
    case None
    with Suc.prems rd_None [of b] show ?thesis by auto
  next
    case (Some p)
    then obtain c b1 where p: "rd b = Some (c, b1)" by (cases p) auto
    with Suc.prems(1) have b1: "contents b = c # contents b1" "inv b1"
      using rd_Some by blast+
    obtain ds where ds: "drain_loop rd n b1 = (ds, b')" and cs: "cs = c # ds"
      using Suc.prems(2) p by (auto split: prod.splits)
    from Suc.IH [OF b1(2) ds]
    have inv': "inv b'" and split: "contents b1 = ds @ contents b'"
      and len: "length ds = min n (length (contents b1))"
      by blast+
    have "length cs = min (Suc n) (length (contents b))"
      by (simp only: cs b1(1) list.size(4) add_Suc_right add_0_right min_Suc_Suc len)
    with inv' split show ?thesis by (simp only: b1(1) cs append_Cons simp_thms)
  qed
qed

lemma fill_then_drain:
  assumes "inv b" and "contents b = []" and "length cs \<le> cap"
    and "fill_loop wr cs b = (n, b1)" and "drain_loop rd (length cs) b1 = (ds, b2)"
  shows "ds = cs \<and> contents b2 = []"
proof -
  from fill_loop_spec [OF assms(1,4)] assms(2,3)
  have b1: "inv b1" "contents b1 = cs" by auto
  from drain_loop_spec [OF b1(1) assms(5)] b1(2) show ?thesis
    by (auto simp: append_eq_conv_conj)
qed

end

section \<open>The ring buffer implements the queue\<close>

lemma BUFF_SIZE_pos [simp]: "0 < BUFF_SIZE" "BUFF_SIZE \<noteq> 0"
  by (simp_all add: BUFF_SIZE_def)

lemma mod_BUFF_SIZE:
  "i < BUFF_SIZE + BUFF_SIZE \<Longrightarrow> i mod BUFF_SIZE = (if i < BUFF_SIZE then i else i - BUFF_SIZE)"
  by (simp add: mod_if)

lemma cb_count_less [simp]: "cb_count st < BUFF_SIZE"
  by (simp add: cb_count_def)

lemma length_cb_list [simp]: "length (cb_list st) = cb_count st"
  by (simp add: cb_list_def)

lemma cb_count_cases:
  "cb_inv st \<Longrightarrow>
   cb_count st = (if read_head st \<le> write_head st then write_head st - read_head st
                  else write_head st + BUFF_SIZE - read_head st)"
  by (auto simp: cb_count_def cb_inv_def mod_BUFF_SIZE)

lemma cb_empty_iff: "cb_inv st \<Longrightarrow> is_buffer_empty st \<longleftrightarrow> cb_list st = []"
  by (auto simp: is_buffer_empty_def cb_list_def cb_count_cases cb_inv_def)

lemma cb_full_iff: "cb_inv st \<Longrightarrow> is_buffer_full st \<longleftrightarrow> cb_count st = BUFF_SIZE - 1"
  by (auto simp: is_buffer_full_def cb_count_cases cb_inv_def)

lemma cb_wrap:
  assumes "i < BUFF_SIZE"
  shows "(if BUFF_SIZE \<le> Suc i then 0 else Suc i) = Suc i mod BUFF_SIZE"
proof (cases "Suc i < BUFF_SIZE")
  case False
  with assms have "Suc i = BUFF_SIZE" by simp
  then show ?thesis by simp
qed simp

lemma consumer_read_eq:
  "cb_inv st \<Longrightarrow> consumer_read st =
     (if is_buffer_empty st then None
      else Some (buff st ! read_head st, st\<lparr>read_head := Suc (read_head st) mod BUFF_SIZE\<rparr>))"
  by (simp add: consumer_read_def Let_def cb_inv_def cb_wrap)

lemma producer_write_eq:
  "cb_inv st \<Longrightarrow> producer_write c st =
     (if is_buffer_full st then None
      else Some (st\<lparr>buff := (buff st)[write_head st := c],
                     write_head := Suc (write_head st) mod BUFF_SIZE\<rparr>))"
  by (simp add: producer_write_def Let_def cb_inv_def cb_wrap)

lemma consumer_read_spec:
  assumes inv: "cb_inv st" and r: "consumer_read st = Some (c, st')"
  shows "cb_list st = c # cb_list st' \<and> cb_inv st'"
proof -
  have ne: "\<not> is_buffer_empty st" and c: "c = buff st ! read_head st"
    and st': "st' = st\<lparr>read_head := Suc (read_head st) mod BUFF_SIZE\<rparr>"
    using r by (auto simp: consumer_read_eq [OF inv] split: if_splits)
  have inv': "cb_inv st'" using inv by (simp add: st' cb_inv_def)
  have n: "cb_count st = Suc (cb_count st')"
    using inv ne inv'
    by (auto simp: cb_count_cases st' is_buffer_empty_def cb_inv_def mod_BUFF_SIZE split: if_splits)
  have "cb_list st ! i = (c # cb_list st') ! i" if "i < cb_count st" for i
  proof (cases i)
    case 0
    with that inv show ?thesis by (simp add: cb_list_def c cb_inv_def del: upt_Suc)
  next
    case (Suc j)
    have "(read_head st + i) mod BUFF_SIZE = (read_head st' + j) mod BUFF_SIZE"
      by (simp add: Suc st' mod_simps)
    with that n Suc show ?thesis by (simp add: cb_list_def st' del: upt_Suc)
  qed
  with n have "cb_list st = c # cb_list st'"
    by (intro nth_equalityI) simp_all
  with inv' show ?thesis by blast
qed

lemma producer_write_spec:
  assumes inv: "cb_inv st" and w: "producer_write c st = Some st'"
  shows "cb_list st' = cb_list st @ [c] \<and> cb_inv st'"
proof -
  have nf: "\<not> is_buffer_full st"
    and st': "st' = st\<lparr>buff := (buff st)[write_head st := c],
                    write_head := Suc (write_head st) mod BUFF_SIZE\<rparr>"
    using w by (auto simp: producer_write_eq [OF inv] split: if_splits)
  have inv': "cb_inv st'" using inv by (simp add: st' cb_inv_def)
  have n: "cb_count st' = Suc (cb_count st)"
    using inv nf inv'
    by (auto simp: cb_count_cases st' is_buffer_full_def cb_inv_def mod_BUFF_SIZE split: if_splits)
  have lt: "cb_count st < BUFF_SIZE - 1"
    using inv nf cb_full_iff [of st] cb_count_less [of st] by linarith
  have at_end: "(read_head st + cb_count st) mod BUFF_SIZE = write_head st"
    using inv by (auto simp: cb_count_cases cb_inv_def mod_BUFF_SIZE)
  have "cb_list st' ! i = (cb_list st @ [c]) ! i" if "i < Suc (cb_count st)" for i
  proof (cases "i = cb_count st")
    case True
    with n inv at_end show ?thesis
      by (simp add: cb_list_def st' cb_inv_def nth_append del: upt_Suc)
  next
    case False
    with that have i: "i < cb_count st" by simp
    have "(read_head st + i) mod BUFF_SIZE \<noteq> write_head st"
      using i lt inv by (auto simp: cb_count_cases cb_inv_def mod_BUFF_SIZE split: if_splits)
    with i n inv show ?thesis
      by (simp add: cb_list_def st' cb_inv_def nth_append del: upt_Suc)
  qed
  with n have "cb_list st' = cb_list st @ [c]"
    by (intro nth_equalityI) simp_all
  with inv' show ?thesis by blast
qed

interpretation ring: bounded_fifo consumer_read producer_write cb_list cb_inv "BUFF_SIZE - 1"
proof unfold_locales
  fix b :: buff_state and c b'
  assume inv: "cb_inv b"
  show "(consumer_read b = None) = (cb_list b = [])"
    using inv by (simp add: consumer_read_def cb_empty_iff Let_def)
  show "(producer_write c b = None) = (length (cb_list b) = BUFF_SIZE - 1)"
    using inv by (simp add: producer_write_def cb_full_iff Let_def)
  show "length (cb_list b) \<le> BUFF_SIZE - 1"
    using cb_count_less [of b] by (simp del: cb_count_less)
  show "consumer_read b = Some (c, b') \<Longrightarrow> cb_list b = c # cb_list b' \<and> cb_inv b'"
    using inv by (rule consumer_read_spec)
  show "producer_write c b = Some b' \<Longrightarrow> cb_list b' = cb_list b @ [c] \<and> cb_inv b'"
    using inv by (rule producer_write_spec)
qed

lemma init_buff_inv: "length (buff st) = BUFF_SIZE \<Longrightarrow> cb_inv (init_buff st) \<and> cb_list (init_buff st) = []"
  by (simp add: cb_inv_def init_buff_def cb_list_def cb_count_def)

section \<open>Properties\<close>

text \<open>
  C10: On a buffer whose heads are in range, \<^verbatim>\<open>consumer_read\<close> and \<^verbatim>\<open>producer_write\<close> are
  exactly the operations of a queue of at most 1023 characters: a read fails when the queue
  is empty and otherwise takes its first character; a write fails when the queue is full and
  otherwise puts the character at its end; both keep the heads in range.
\<close>

theorem ring_is_bounded_queue:
  assumes "cb_inv st"
  shows "(case consumer_read st of
            None \<Rightarrow> cb_list st = []
          | Some (c, st') \<Rightarrow> cb_inv st' \<and> cb_list st = c # cb_list st') \<and>
         (case producer_write c st of
            None \<Rightarrow> length (cb_list st) = BUFF_SIZE - 1
          | Some st' \<Rightarrow> cb_inv st' \<and> cb_list st' = cb_list st @ [c])"
  using ring.rd_None [OF assms] ring.rd_Some [OF assms] ring.wr_None [OF assms, of c]
    ring.wr_Some [OF assms, of c]
  by (auto split: option.splits)

theorem ring_is_bounded_queue_witness:
  "cb_list \<lparr>buff = replicate 1024 65, read_head = 1023, write_head = 0\<rparr> = [65] \<and>
   producer_write 66 \<lparr>buff = replicate 1024 65, read_head = 1023, write_head = 0\<rparr> \<noteq> None"
proof -
  let ?st = "\<lparr>buff = replicate 1024 65, read_head = 1023, write_head = 0\<rparr>"
  have inv: "cb_inv ?st" by (simp add: cb_inv_def BUFF_SIZE_def)
  show ?thesis
    using ring_is_bounded_queue [OF inv, of 66]
    by (simp add: consumer_read_def producer_write_def is_buffer_empty_def is_buffer_full_def
        BUFF_SIZE_def cb_list_def cb_count_def)
qed

end
