(* ===== verification/Serial.thy ===== *)
theory Serial
  imports Irq Circ_Buff VGA
begin

text \<open>
  The serial port driver (\<^verbatim>\<open>dev/serial.c\<close>): characters wait in a ring buffer and are handed to
  the UART 14 at a time, first by the writer and then by each transmit interrupt. The strings
  written are in the byte memory \<open>m\<close>.
\<close>

section \<open>State and operations\<close>

definition COM1 :: u16 where "COM1 = 0x3F8"
definition HW_BUFF_SIZE :: nat where "HW_BUFF_SIZE = 14"
definition SERIAL_IRQ :: u8 where "SERIAL_IRQ = 36"
definition IIR_ID_MASK :: u8 where "IIR_ID_MASK = 0x0E"
definition IIR_TX_EMPTY :: u8 where "IIR_TX_EMPTY = 0x02"
definition IIR_LINE_STATUS :: u8 where "IIR_LINE_STATUS = 0x06"

datatype hw_status = IDLE | BUSY

text \<open>\<open>ser_blocked\<close> is the address of the static wait queue \<^verbatim>\<open>blocked\<close>.\<close>

record 'd ser_state = "'d irq_state" +
  ser_buff :: buff_state
  ser_status :: hw_status
  ser_blocked :: ptr

definition TX_byte :: "'d ports \<Rightarrow> u8 \<Rightarrow> ('d, 'a) ser_state_scheme \<Rightarrow> ('d, 'a) ser_state_scheme" where
  "TX_byte P data s = outb P COM1 data s"

text \<open>\<open>isr\<close> is the address of \<^verbatim>\<open>serial_isr\<close>.\<close>

definition SER_init :: "'d ports \<Rightarrow> ptr \<Rightarrow> ('d, 'a) ser_state_scheme \<Rightarrow> int \<times> ('d, 'a) ser_state_scheme" where
  "SER_init P isr s =
     (let s = s\<lparr>ser_buff := init_buff (ser_buff s)\<rparr>;
          s = outb P (COM1 + 1) 0x00 s;
          s = IRQ_set_handler SERIAL_IRQ isr NULL s;
          s = IRQ_clear_mask P SERIAL_IRQ s;
          s = init_wait_queue (ser_blocked s) s;
          s = outb P (COM1 + 3) 0x80 s;
          s = outb P (COM1 + 0) 0x01 s;
          s = outb P (COM1 + 1) 0x00 s;
          s = outb P (COM1 + 3) 0x03 s;
          s = outb P (COM1 + 2) 0xC7 s;
          s = outb P (COM1 + 4) 0x0B s;
          s = outb P (COM1 + 4) 0x1E s;
          s = outb P (COM1 + 0) 0xAE s;
          (v, s) = inb P (COM1 + 0) s
      in if v \<noteq> 0xAE then (- 1, s)
         else
           let s = outb P (COM1 + 4) 0x0F s;
               s = outb P (COM1 + 1) 0x02 s
           in (1, s))"

definition is_tx_empty :: "'d ports \<Rightarrow> ('d, 'a) ser_state_scheme \<Rightarrow> u8 \<times> ('d, 'a) ser_state_scheme" where
  "is_tx_empty P s = (let (v, s) = inb P (COM1 + 5) s in (v AND 0x20, s))"

text \<open>The loop of \<^verbatim>\<open>init_hw_write\<close>, \<open>n\<close> places of the UART's buffer being left.\<close>

fun hw_loop :: "'d ports \<Rightarrow> nat \<Rightarrow> ('d, 'a) ser_state_scheme \<Rightarrow> nat \<times> ('d, 'a) ser_state_scheme" where
  "hw_loop P 0 s = (0, s)"
| "hw_loop P (Suc n) s =
     (case consumer_read (ser_buff s) of
        None \<Rightarrow> (0, s)
      | Some (c, b) \<Rightarrow> (let (i, s) = hw_loop P n (TX_byte P c (s\<lparr>ser_buff := b\<rparr>)) in (Suc i, s)))"

definition init_hw_write :: "'d ports \<Rightarrow> ('d, 'a) ser_state_scheme \<Rightarrow> ('d, 'a) ser_state_scheme" where
  "init_hw_write P s =
     (if ser_status s = IDLE then
        let (i, s) = hw_loop P HW_BUFF_SIZE s
        in if i > 0 then s\<lparr>ser_status := BUSY\<rparr> else s
      else s)"

text \<open>The interrupt flag, bit 9 of the flags register (\<^verbatim>\<open>check_int\<close> of \<^verbatim>\<open>arch/x64.asm\<close>).\<close>

definition int_enabled :: "'a proc_state_scheme \<Rightarrow> bool" where
  "int_enabled s \<longleftrightarrow> rf_rflags (pr_cpu s) AND IE_FLAG \<noteq> 0"

function ser_write_loop :: "bmem \<Rightarrow> u64 \<Rightarrow> int \<Rightarrow> int \<Rightarrow> buff_state \<Rightarrow> int \<times> buff_state" where
  "ser_write_loop m str len i b =
     (if m (at str i) \<noteq> 0 \<and> i < len then
        (case producer_write (m (at str i)) b of
           Some b \<Rightarrow> ser_write_loop m str len (i + 1) b
         | None \<Rightarrow> (i, b))
      else (i, b))"
  by auto
termination by (relation "measure (\<lambda>(m, str, len, i, b). nat (len - i))") auto

declare ser_write_loop.simps [simp del]

definition SER_write ::
    "'d ports \<Rightarrow> bmem \<Rightarrow> u64 \<Rightarrow> int \<Rightarrow> ('d, 'a) ser_state_scheme \<Rightarrow> int \<times> ('d, 'a) ser_state_scheme" where
  "SER_write P m str len s =
     (let int_en = int_enabled s;
          s = (if int_en then CLI s else s);
          (i, b) = ser_write_loop m str len 0 (ser_buff s);
          s = init_hw_write P (s\<lparr>ser_buff := b\<rparr>);
          s = (if int_en then STI s else s)
      in (i, s))"

text \<open>
  The blocking variant: \<open>resume\<close> is what the other threads and the interrupts do while this thread waits for room. The
  wait leaves interrupts enabled, so from then on they come between the operations of the loop as well: \<open>intr\<close> is
  what they do there. An interrupt inside of one operation, as between two characters of \<open>init_hw_write\<close>, is not modelled. The
  loop does not end when no room is ever made.
\<close>

definition ser_pause ::
    "(('d, 'a) ser_state_scheme \<Rightarrow> ('d, 'a) ser_state_scheme) \<Rightarrow> ('d, 'a) ser_state_scheme \<Rightarrow> ('d, 'a) ser_state_scheme" where
  "ser_pause intr s = (if int_enabled s then intr s else s)"

partial_function (option) ser_writeb_loop ::
    "'d ports \<Rightarrow> (('d, 'a) ser_state_scheme \<Rightarrow> ('d, 'a) ser_state_scheme) \<Rightarrow>
     (('d, 'a) ser_state_scheme \<Rightarrow> ('d, 'a) ser_state_scheme) \<Rightarrow> bmem \<Rightarrow> u64 \<Rightarrow> int \<Rightarrow> int \<Rightarrow>
     ('d, 'a) ser_state_scheme \<Rightarrow> (int \<times> ('d, 'a) ser_state_scheme) option" where
  "ser_writeb_loop P intr resume m str len i s =
     (if m (at str i) \<noteq> 0 \<and> i < len then
        (let s = ser_pause intr s
         in case producer_write (m (at str i)) (ser_buff s) of
              Some b \<Rightarrow> ser_writeb_loop P intr resume m str len (i + 1) (s\<lparr>ser_buff := b\<rparr>)
            | None \<Rightarrow>
                Option.bind
                  (wait_event_interruptable resume (ser_blocked s) (\<lambda>s. is_buffer_full (ser_buff s))
                     (init_hw_write P (ser_pause intr s)))
                  (ser_writeb_loop P intr resume m str len i))
      else Some (i, s))"

definition SER_writeb ::
    "'d ports \<Rightarrow> (('d, 'a) ser_state_scheme \<Rightarrow> ('d, 'a) ser_state_scheme) \<Rightarrow>
     (('d, 'a) ser_state_scheme \<Rightarrow> ('d, 'a) ser_state_scheme) \<Rightarrow> bmem \<Rightarrow> u64 \<Rightarrow> int \<Rightarrow>
     ('d, 'a) ser_state_scheme \<Rightarrow> (int \<times> ('d, 'a) ser_state_scheme) option" where
  "SER_writeb P intr resume m str len s =
     map_option (\<lambda>(i, s). (i, STI (init_hw_write P (ser_pause intr s)))) (ser_writeb_loop P intr resume m str len 0 (CLI s))"

text \<open>\<open>v\<close> is the screen and \<open>bad\<close> the address of the message for an unknown interrupt.\<close>

definition serial_isr ::
    "'d ports \<Rightarrow> u64 \<Rightarrow> vga_state \<times> ('d, 'a) ser_state_scheme \<Rightarrow> vga_state \<times> ('d, 'a) ser_state_scheme" where
  "serial_isr P bad vs =
     (let (v, s) = vs;
          (iir, s) = inb P (COM1 + 2) s;
          k = iir AND IIR_ID_MASK;
          (v, s) =
            (if k = IIR_TX_EMPTY then (v, init_hw_write P (s\<lparr>ser_status := IDLE\<rparr>))
             else if k = IIR_LINE_STATUS then (v, snd (inb P (COM1 + 5) s))
             else (VGA_display_str bad 17 v, s));
          s = PROC_unblock_head (ser_blocked s) s
      in (v, IRQ_end_of_interrupt P SERIAL_IRQ s))"

text \<open>
  The system call behind \<^verbatim>\<open>putc\<close> (\<^verbatim>\<open>lib/printk.c\<close>); \<open>slot\<close> is the address of its local \<^verbatim>\<open>c\<close>.
\<close>

definition putc_sys_call ::
    "'d ports \<Rightarrow> u64 \<Rightarrow> u64 \<Rightarrow> vga_state \<times> ('d, 'a) ser_state_scheme \<Rightarrow> u64 \<times> vga_state \<times> ('d, 'a) ser_state_scheme" where
  "putc_sys_call P slot data vs =
     (let (v, s) = vs;
          c = ucast data;
          v = v\<lparr>vg_mem := (vg_mem v)(slot := c)\<rparr>;
          v = VGA_display_char c v;
          (_, s) = SER_write P (vg_mem v) slot 1 s
      in (0, v, s))"

section \<open>What is queued and what is sent\<close>

text \<open>
  What a 16550 is seen to do: whether it is in the mode \<open>SER_init\<close> leaves it in (the divisor latch closed, the queue on and
  only the transmit interrupt enabled), the characters that left it, its queue of at most 16, whether the transmit interrupt
  is pending, and what the time of one character does to it.
\<close>

record 'd uart_view =
  uv_ready :: "'d \<Rightarrow> bool"
  uv_line :: "'d \<Rightarrow> u8 list"
  uv_fifo :: "'d \<Rightarrow> u8 list"
  uv_pending :: "'d \<Rightarrow> bool"
  uv_tick :: "'d \<Rightarrow> 'd"

definition uart_same :: "'d uart_view \<Rightarrow> 'd \<Rightarrow> 'd \<Rightarrow> bool" where
  "uart_same U d d' \<longleftrightarrow> uv_ready U d' \<and> uv_line U d' = uv_line U d \<and> uv_fifo U d' = uv_fifo U d \<and> uv_pending U d' = uv_pending U d"

text \<open>
  The documented behaviour: a character written to the data port goes to the end of the queue, or is lost when 16 are in
  it, and takes the transmit interrupt back. The interrupt comes when the queue runs empty; the identification register
  tells it and takes it back when it is read. Each character takes its time on the line.
\<close>

definition uart :: "'d ports \<Rightarrow> 'd uart_view \<Rightarrow> bool" where
  "uart P U \<longleftrightarrow>
     (\<forall>d. uv_ready U d \<longrightarrow>
        length (uv_fifo U d) \<le> 16 \<and> (uv_pending U d \<longrightarrow> uv_fifo U d = []) \<and>
        (\<forall>b. uv_ready U (port_outb P COM1 b d) \<and> uv_line U (port_outb P COM1 b d) = uv_line U d \<and>
           uv_fifo U (port_outb P COM1 b d) = (if length (uv_fifo U d) < 16 then uv_fifo U d @ [b] else uv_fifo U d) \<and>
           \<not> uv_pending U (port_outb P COM1 b d)) \<and>
        (\<forall>p \<in> {PIC1_COMMAND, PIC2_COMMAND}. \<forall>b. uart_same U d (port_outb P p b d)) \<and>
        uart_same U d (snd (port_inb P (COM1 + 5) d)) \<and>
        (fst (port_inb P (COM1 + 2) d) AND IIR_ID_MASK = IIR_TX_EMPTY \<longleftrightarrow> uv_pending U d) \<and>
        uv_ready U (snd (port_inb P (COM1 + 2) d)) \<and> uv_line U (snd (port_inb P (COM1 + 2) d)) = uv_line U d \<and>
        uv_fifo U (snd (port_inb P (COM1 + 2) d)) = uv_fifo U d \<and> \<not> uv_pending U (snd (port_inb P (COM1 + 2) d)) \<and>
        (case uv_fifo U d of
           [] \<Rightarrow> uart_same U d (uv_tick U d)
         | b # bs \<Rightarrow> uv_ready U (uv_tick U d) \<and> uv_line U (uv_tick U d) = uv_line U d @ [b] \<and> uv_fifo U (uv_tick U d) = bs \<and>
             (uv_pending U (uv_tick U d) \<longleftrightarrow> bs = [])))"

text \<open>
  The characters that wait in the ring, all that were written and not lost, and the states of the driver: it takes
  the transmitter for idle only when its queue is empty, and for busy only when an interrupt is still to come. It is served
  when it is not idle while characters wait.
\<close>

definition waiting :: "('d, 'a) ser_state_scheme \<Rightarrow> u8 list" where
  "waiting s = cb_list (ser_buff s)"

definition stream :: "'d uart_view \<Rightarrow> ('d, 'a) ser_state_scheme \<Rightarrow> u8 list" where
  "stream U s = uv_line U (dev s) @ uv_fifo U (dev s) @ waiting s"

definition ser_ok :: "'d uart_view \<Rightarrow> ('d, 'a) ser_state_scheme \<Rightarrow> bool" where
  "ser_ok U s \<longleftrightarrow> cb_inv (ser_buff s) \<and> uv_ready U (dev s) \<and>
     (case ser_status s of
        IDLE \<Rightarrow> uv_fifo U (dev s) = []
      | BUSY \<Rightarrow> uv_fifo U (dev s) \<noteq> [] \<or> uv_pending U (dev s))"

definition served :: "'d uart_view \<Rightarrow> ('d, 'a) ser_state_scheme \<Rightarrow> bool" where
  "served U s \<longleftrightarrow> ser_ok U s \<and> (ser_status s = IDLE \<longrightarrow> waiting s = [])"

text \<open>What the driver's writing half leaves alone: everything but the devices, the ring and the status.\<close>

definition ser_only :: "('d, 'a) ser_state_scheme \<Rightarrow> ('d, 'a) ser_state_scheme \<Rightarrow> bool" where
  "ser_only s s' \<longleftrightarrow> s'\<lparr>dev := dev s, ser_buff := ser_buff s, ser_status := ser_status s\<rparr> = s"

lemma ser_only_refl [simp]: "ser_only s s"
  by (simp add: ser_only_def)

lemma ser_only_upd [simp]:
  "ser_only s (t\<lparr>dev := d\<rparr>) = ser_only s t" "ser_only s (t\<lparr>ser_buff := b\<rparr>) = ser_only s t"
  "ser_only s (t\<lparr>ser_status := st\<rparr>) = ser_only s t"
  by (simp_all add: ser_only_def)

lemma ser_only_trans:
  assumes "ser_only s t" and "ser_only t u"
  shows "ser_only s u"
proof -
  have "s = (u\<lparr>dev := dev t, ser_buff := ser_buff t, ser_status := ser_status t\<rparr>)
      \<lparr>dev := dev s, ser_buff := ser_buff s, ser_status := ser_status s\<rparr>"
    using assms by (simp only: ser_only_def)
  then show ?thesis by (simp add: ser_only_def)
qed

lemma ser_only_field:
  assumes "ser_only s t" and "\<And>d b st u. f (u\<lparr>dev := d, ser_buff := b, ser_status := st\<rparr>) = f u"
  shows "f t = f s"
  using assms unfolding ser_only_def by metis

lemma ser_only_fields:
  assumes "ser_only s t"
  shows "pr_cpu t = pr_cpu s" "ser_blocked t = ser_blocked s" "sc_procs t = sc_procs s"
    "sc_queue t = sc_queue s" "pr_waitq t = pr_waitq s" "pr_curr t = pr_curr s"
    "sc_current t = sc_current s" "pr_orig t = pr_orig s"
  by (rule ser_only_field [OF assms], simp)+

lemma uartD:
  assumes "uart P U" and "uv_ready U d"
  shows "uv_pending U d \<Longrightarrow> uv_fifo U d = []"
    and "uv_ready U (port_outb P COM1 c d)" "uv_line U (port_outb P COM1 c d) = uv_line U d" "\<not> uv_pending U (port_outb P COM1 c d)"
    and "length (uv_fifo U d) < 16 \<Longrightarrow> uv_fifo U (port_outb P COM1 c d) = uv_fifo U d @ [c]"
    and "uart_same U d (port_outb P PIC1_COMMAND c d)" "uart_same U d (port_outb P PIC2_COMMAND c d)"
    and "fst (port_inb P (COM1 + 2) d) AND IIR_ID_MASK = IIR_TX_EMPTY \<longleftrightarrow> uv_pending U d"
    and "uv_ready U (snd (port_inb P (COM1 + 2) d))" "uv_line U (snd (port_inb P (COM1 + 2) d)) = uv_line U d"
      "uv_fifo U (snd (port_inb P (COM1 + 2) d)) = uv_fifo U d"
    and "uv_fifo U d = [] \<Longrightarrow> uart_same U d (uv_tick U d)"
    and "uv_fifo U d = b # bs \<Longrightarrow> uv_ready U (uv_tick U d) \<and> uv_line U (uv_tick U d) = uv_line U d @ [b] \<and> uv_fifo U (uv_tick U d) = bs \<and>
             (uv_pending U (uv_tick U d) \<longleftrightarrow> bs = [])"
    and "length (uv_fifo U d) \<le> 16"
  using assms(1) [unfolded uart_def, rule_format, OF assms(2)] by simp_all

lemma hw_loop_spec:
  assumes P: "uart P U"
  shows "cb_inv (ser_buff s) \<Longrightarrow> uv_ready U (dev s) \<Longrightarrow> length (uv_fifo U (dev s)) + n \<le> 16 \<Longrightarrow> hw_loop P n s = (i, s') \<Longrightarrow>
     cb_inv (ser_buff s') \<and> uv_ready U (dev s') \<and> i = min n (length (waiting s)) \<and> waiting s' = drop i (waiting s) \<and>
     uv_line U (dev s') = uv_line U (dev s) \<and> uv_fifo U (dev s') = uv_fifo U (dev s) @ take i (waiting s) \<and>
     ser_status s' = ser_status s \<and> ser_only s s'"
proof (induction n arbitrary: s i)
  case 0
  then show ?case by simp
next
  case (Suc n)
  show ?case
  proof (cases "consumer_read (ser_buff s)")
    case None
    with Suc.prems ring.rd_None [of "ser_buff s"]
    show ?thesis by (simp add: waiting_def)
  next
    case (Some p)
    obtain c b where p: "consumer_read (ser_buff s) = Some (c, b)" using Some by (cases p) auto
    let ?s = "TX_byte P c (s\<lparr>ser_buff := b\<rparr>)"
    obtain k where k: "hw_loop P n ?s = (k, s')" and i: "i = Suc k"
      using Suc.prems(4) p by (auto split: prod.splits)
    have b: "cb_list (ser_buff s) = c # cb_list b" "cb_inv b"
      using ring.rd_Some [OF _ p] Suc.prems(1) by auto
    have s: "?s = s\<lparr>dev := port_outb P COM1 c (dev s), ser_buff := b\<rparr>"
      by (simp add: TX_byte_def outb_def)
    note u = uartD(2,3,5) [OF P Suc.prems(2), of c]
    have f: "uv_fifo U (dev ?s) = uv_fifo U (dev s) @ [c]" using u(3) Suc.prems(3) by (simp add: s)
    have ok: "cb_inv (ser_buff ?s)" "uv_ready U (dev ?s)" "length (uv_fifo U (dev ?s)) + n \<le> 16" "uv_line U (dev ?s) = uv_line U (dev s)"
      using u(1,2) b(2) f Suc.prems(3) by (simp_all add: s)
    have "ser_only s ?s" by (simp add: s)
    with Suc.IH [OF ok(1-3) k] ok(4) f b(1) show ?thesis
      using ser_only_trans [of s ?s s'] by (simp add: i waiting_def s)
  qed
qed

lemma init_hw_write_idle:
  assumes P: "uart P U" and ok: "ser_ok U s" and idle: "ser_status s = IDLE"
  shows "served U (init_hw_write P s) \<and> waiting (init_hw_write P s) = drop HW_BUFF_SIZE (waiting s) \<and>
     uv_line U (dev (init_hw_write P s)) = uv_line U (dev s) \<and> stream U (init_hw_write P s) = stream U s \<and>
     uv_fifo U (dev (init_hw_write P s)) = take HW_BUFF_SIZE (waiting s) \<and> ser_only s (init_hw_write P s)"
proof -
  obtain i t where h: "hw_loop P HW_BUFF_SIZE s = (i, t)" by fastforce
  have e0: "uv_fifo U (dev s) = []" "cb_inv (ser_buff s)" "uv_ready U (dev s)" using ok idle by (simp_all add: ser_ok_def)
  have "length (uv_fifo U (dev s)) + HW_BUFF_SIZE \<le> 16" by (simp add: e0 HW_BUFF_SIZE_def)
  note sp = hw_loop_spec [OF P e0(2,3) this h]
  have e: "init_hw_write P s = (if i > 0 then t\<lparr>ser_status := BUSY\<rparr> else t)"
    by (simp add: init_hw_write_def idle h)
  have o: "ser_only s (if i > 0 then t\<lparr>ser_status := BUSY\<rparr> else t)"
    using sp by simp
  have n: "0 < i \<longleftrightarrow> waiting s \<noteq> []" "take i (waiting s) = take HW_BUFF_SIZE (waiting s)"
    "drop i (waiting s) = drop HW_BUFF_SIZE (waiting s)"
    using sp by (auto simp: HW_BUFF_SIZE_def min_def)
  have "served U (init_hw_write P s)"
  proof (cases "waiting s = []")
    case True
    then show ?thesis unfolding e served_def ser_ok_def using sp n(1) e0 idle by (simp add: waiting_def)
  next
    case False
    then have "take i (waiting s) \<noteq> []" using n(1) by simp
    then show ?thesis unfolding e served_def ser_ok_def using sp n(1) e0 False by (simp add: waiting_def)
  qed
  then show ?thesis using sp o e0 n(1) unfolding e
    by (auto simp: stream_def waiting_def n [unfolded waiting_def])
qed

lemma init_hw_write_any:
  assumes "uart P U" and "ser_ok U s"
  shows "served U (init_hw_write P s) \<and> uv_line U (dev (init_hw_write P s)) = uv_line U (dev s) \<and>
     stream U (init_hw_write P s) = stream U s \<and> ser_only s (init_hw_write P s)"
proof (cases "ser_status s")
  case IDLE
  with init_hw_write_idle [OF assms] show ?thesis by simp
next
  case BUSY
  then show ?thesis using assms(2)
    by (simp add: init_hw_write_def served_def)
qed

section \<open>Writing\<close>

lemma ser_write_loop_eq:
  "0 \<le> i \<Longrightarrow> ser_write_loop m str len i b =
     (let (n, b') = fill_loop producer_write (shown m str (nat i) (nat len)) b in (i + int n, b'))"
proof (induction m str len i b rule: ser_write_loop.induct)
  case (1 m str len i b)
  have a: "at str i = str + of_nat (nat i)" using 1(2) at_nat [of str "nat i"] by simp
  show ?case
  proof (cases "i < len")
    case True
    then have "nat i < nat len" using 1(2) by linarith
    note sh = shown_step [OF this, of m str]
    have i1: "nat (i + 1) = Suc (nat i)" using 1(2) by simp
    show ?thesis
    proof (cases "m (at str i) \<noteq> 0")
      case nz: True
      show ?thesis
      proof (cases "producer_write (m (at str i)) b")
        case None
        then show ?thesis using nz True sh a by (simp add: ser_write_loop.simps)
      next
        case (Some b1)
        from 1(1) [OF conjI [OF nz True] Some] 1(2)
        have "ser_write_loop m str len (i + 1) b1 =
            (let (n, b') = fill_loop producer_write (shown m str (Suc (nat i)) (nat len)) b1 in (i + 1 + int n, b'))"
          by (simp add: i1)
        moreover have "ser_write_loop m str len i b = ser_write_loop m str len (i + 1) b1"
          using nz True Some by (subst ser_write_loop.simps) simp
        ultimately show ?thesis using nz Some sh a by (simp add: Let_def split: prod.split)
      qed
    next
      case False
      then show ?thesis using sh a by (simp add: ser_write_loop.simps)
    qed
  next
    case False
    then have "shown m str (nat i) (nat len) = []" by (simp add: shown_def)
    with False show ?thesis by (simp add: ser_write_loop.simps)
  qed
qed

lemma ser_more:
  "proc_state.more s = proc_state.more t \<Longrightarrow>
     dev s = dev t \<and> ser_buff s = ser_buff t \<and> ser_status s = ser_status t \<and> ser_blocked s = ser_blocked t"
  by (cases s, cases t) simp

lemma ser_threads [simp]:
  fixes s :: "('d, 'a) ser_state_scheme"
  shows "dev (CLI s) = dev s" "ser_buff (CLI s) = ser_buff s" "ser_status (CLI s) = ser_status s"
    "ser_blocked (CLI s) = ser_blocked s"
    "dev (STI s) = dev s" "ser_buff (STI s) = ser_buff s" "ser_status (STI s) = ser_status s"
    "ser_blocked (STI s) = ser_blocked s"
    "dev (PROC_unblock_head q s) = dev s" "ser_buff (PROC_unblock_head q s) = ser_buff s"
    "ser_status (PROC_unblock_head q s) = ser_status s" "ser_blocked (PROC_unblock_head q s) = ser_blocked s"
    "dev (PROC_block_on q e s) = dev s" "ser_buff (PROC_block_on q e s) = ser_buff s"
    "ser_status (PROC_block_on q e s) = ser_status s" "ser_blocked (PROC_block_on q e s) = ser_blocked s"
  using ser_more [of "CLI s" s] ser_more [of "STI s" s] ser_more [of "PROC_unblock_head q s" s]
    ser_more [of "PROC_block_on q e s" s] by simp_all

lemma int_enabled_bit: "int_enabled s \<longleftrightarrow> bit (rf_rflags (pr_cpu s)) 9"
  using and_exp_eq_0_iff_not_bit [of "rf_rflags (pr_cpu s)" 9] by (simp add: int_enabled_def IE_FLAG_def)

lemma int_enabled_flag [simp]: "int_enabled (STI s)" "\<not> int_enabled (CLI s)"
  by (simp_all add: int_enabled_bit STI_def CLI_def IE_FLAG_def bit_simps)

lemma ser_threads_ok [simp]:
  "waiting (CLI s) = waiting s" "waiting (STI s) = waiting s" "waiting (PROC_unblock_head q s) = waiting s" "waiting (PROC_block_on q e s) = waiting s"
  "ser_ok U (CLI s) = ser_ok U s" "ser_ok U (STI s) = ser_ok U s" "ser_ok U (PROC_unblock_head q s) = ser_ok U s" "ser_ok U (PROC_block_on q e s) = ser_ok U s"
  "served U (CLI s) = served U s" "served U (STI s) = served U s" "served U (PROC_unblock_head q s) = served U s" "served U (PROC_block_on q e s) = served U s"
  "stream U (CLI s) = stream U s" "stream U (STI s) = stream U s" "stream U (PROC_unblock_head q s) = stream U s" "stream U (PROC_block_on q e s) = stream U s"
  by (simp_all add: waiting_def ser_ok_def served_def stream_def split: hw_status.split)

lemma served_ok: "served U s \<Longrightarrow> ser_ok U s"
  by (simp add: served_def)

lemma SER_write_spec:
  assumes "uart P U" and "ser_ok U s" and "cstr m str xs"
    and r: "SER_write P m str len s = (n, s')"
  defines "k \<equiv> min (length (take (nat len) xs)) (BUFF_SIZE - 1 - length (waiting s))"
  shows "n = int k \<and> served U s' \<and> uv_line U (dev s') = uv_line U (dev s) \<and>
     stream U s' = stream U s @ take k xs \<and> int_enabled s' = int_enabled s"
proof -
  let ?s = "if int_enabled s then CLI s else s"
  obtain j b where l: "ser_write_loop m str len 0 (ser_buff s) = (j, b)" by fastforce
  obtain i where i: "fill_loop producer_write (shown m str 0 (nat len)) (ser_buff s) = (i, b)" and j: "j = int i"
    using ser_write_loop_eq [of 0 m str len "ser_buff s"] l by (auto split: prod.splits)
  have sh: "shown m str 0 (nat len) = take (nat len) xs" using shown_cstr [OF assms(3)] .
  have "cb_inv (ser_buff s)" using assms(2) by (simp add: ser_ok_def)
  from ring.fill_loop_spec [OF this i] have b: "cb_inv b" "cb_list b = waiting s @ take k xs" "i = k"
    by (auto simp: sh k_def waiting_def min_def)
  let ?t = "?s\<lparr>ser_buff := b\<rparr>"
  have ok: "ser_ok U ?t" and st: "stream U ?t = stream U s @ take k xs" and d: "dev ?t = dev s"
    using assms(2) b by (auto simp: ser_ok_def waiting_def stream_def split: hw_status.splits)
  note h = init_hw_write_any [OF assms(1) ok]
  have fl: "int_enabled (init_hw_write P ?t) = int_enabled ?s"
    using ser_only_fields(1) [of ?t "init_hw_write P ?t"] h by (simp add: int_enabled_def)
  have s': "s' = (if int_enabled s then STI (init_hw_write P ?t) else init_hw_write P ?t)" and n: "n = j"
    using r by (simp_all add: SER_write_def l Let_def split: if_splits)
  show ?thesis using h fl st b(3) d unfolding s' n j by auto
qed

section \<open>Interrupts\<close>

text \<open>
  The time of a character: the interrupt is taken if it is pending, and the UART sends the next character of its queue.
  \<open>ser_run\<close> is \<open>n\<close> of these.
\<close>

definition ser_time :: "'d ports \<Rightarrow> 'd uart_view \<Rightarrow> u64 \<Rightarrow> vga_state \<times> ('d, 'a) ser_state_scheme \<Rightarrow> vga_state \<times> ('d, 'a) ser_state_scheme" where
  "ser_time P U bad vs =
     (let (v, s) = (if uv_pending U (dev (snd vs)) then serial_isr P bad vs else vs)
      in (v, s\<lparr>dev := uv_tick U (dev s)\<rparr>))"

fun ser_run :: "nat \<Rightarrow> 'd ports \<Rightarrow> 'd uart_view \<Rightarrow> u64 \<Rightarrow> vga_state \<times> ('d, 'a) ser_state_scheme \<Rightarrow> vga_state \<times> ('d, 'a) ser_state_scheme" where
  "ser_run 0 P U bad vs = vs"
| "ser_run (Suc n) P U bad vs = ser_run n P U bad (ser_time P U bad vs)"

lemma uart_eoi:
  assumes P: "uart P U" and r: "uv_ready U (dev s)"
  shows "uart_same U (dev s) (dev (IRQ_end_of_interrupt P irq s))"
proof -
  have "uart_same U (dev s) (dev s)" using r by (simp add: uart_same_def)
  moreover have "uart_same U d e \<Longrightarrow> uart_same U d (port_outb P PIC1_COMMAND b e)" "uart_same U d e \<Longrightarrow> uart_same U d (port_outb P PIC2_COMMAND b e)" for d e b
    using uartD(6,7) [OF P, of e b] by (auto simp: uart_same_def)
  ultimately show ?thesis by (auto simp: IRQ_end_of_interrupt_def outb_def Let_def)
qed

lemma ser_eoi [simp]:
  "ser_buff (IRQ_end_of_interrupt P irq s) = ser_buff s" "ser_status (IRQ_end_of_interrupt P irq s) = ser_status s"
  by (simp_all add: IRQ_end_of_interrupt_def outb_def Let_def)

lemma serial_isr_tx:
  assumes P: "uart P U" and ok: "ser_ok U s" and pend: "uv_pending U (dev s)"
    and r: "serial_isr P bad (v, s) = (v', s')"
  shows "v' = v \<and> served U s' \<and> stream U s' = stream U s \<and> uv_line U (dev s') = uv_line U (dev s) \<and>
     uv_fifo U (dev s') = take HW_BUFF_SIZE (waiting s) \<and> waiting s' = drop HW_BUFF_SIZE (waiting s)"
proof -
  let ?t = "snd (inb P (COM1 + 2) s)\<lparr>ser_status := IDLE\<rparr>"
  let ?w = "init_hw_write P ?t"
  let ?u = "PROC_unblock_head (ser_blocked ?w) ?w"
  have rd: "uv_ready U (dev s)" using ok by (simp add: ser_ok_def)
  note u = uartD(1,8,9,10,11) [OF P rd]
  have iir: "fst (inb P (COM1 + 2) s) AND IIR_ID_MASK = IIR_TX_EMPTY"
    using u(2) pend by (simp add: port_only)
  have t: "ser_ok U ?t" "waiting ?t = waiting s" "uv_line U (dev ?t) = uv_line U (dev s)" "stream U ?t = stream U s"
    using u pend ok by (auto simp: ser_ok_def port_only waiting_def stream_def)
  note w = init_hw_write_idle [OF P t(1)]
  have s': "s' = IRQ_end_of_interrupt P SERIAL_IRQ ?u" "v' = v"
    using r iir by (simp_all add: serial_isr_def split_beta Let_def)
  have "uv_ready U (dev ?u)" using w by (simp add: served_def ser_ok_def)
  from uart_eoi [OF P this, of SERIAL_IRQ] w t(2,3,4) show ?thesis
    by (auto simp: s' served_def ser_ok_def waiting_def stream_def uart_same_def split: hw_status.splits)
qed

lemma ser_tick:
  assumes P: "uart P U" and ok: "ser_ok U s"
  defines "s' \<equiv> s\<lparr>dev := uv_tick U (dev s)\<rparr>"
  shows "ser_ok U s'" "waiting s' = waiting s" "served U s \<Longrightarrow> served U s'" "stream U s' = stream U s"
    "uv_line U (dev s') = uv_line U (dev s) @ take 1 (uv_fifo U (dev s))" "uv_fifo U (dev s') = drop 1 (uv_fifo U (dev s))"
proof -
  have rd: "uv_ready U (dev s)" using ok by (simp add: ser_ok_def)
  show w: "waiting s' = waiting s" by (simp add: s'_def waiting_def)
  show l: "uv_line U (dev s') = uv_line U (dev s) @ take 1 (uv_fifo U (dev s))" "uv_fifo U (dev s') = drop 1 (uv_fifo U (dev s))"
    using uartD(12,13) [OF P rd] by (cases "uv_fifo U (dev s)"; simp add: s'_def uart_same_def)+
  show o: "ser_ok U s'"
    using ok uartD(12,13) [OF P rd]
    by (cases "uv_fifo U (dev s)") (auto simp: s'_def uart_same_def ser_ok_def split: hw_status.splits)
  show "served U s \<Longrightarrow> served U s'" using o w by (simp add: served_def s'_def)
  have "take 1 xs @ drop 1 xs @ ys = xs @ ys" for xs ys :: "u8 list" by (cases xs) simp_all
  then show "stream U s' = stream U s" using w l by (simp add: stream_def)
qed

lemma ser_time_spec:
  assumes P: "uart P U" and ok: "ser_ok U s" and r: "ser_time P U bad (v, s) = (v', s')"
  shows "v' = v \<and> ser_ok U s' \<and> stream U s' = stream U s \<and> length (waiting s') \<le> length (waiting s) \<and>
     (served U s \<longrightarrow> served U s' \<and> uv_line U (dev s') = uv_line U (dev s) @ take 1 (uv_fifo U (dev s) @ waiting s))"
proof (cases "uv_pending U (dev s)")
  case False
  then have s': "s' = s\<lparr>dev := uv_tick U (dev s)\<rparr>" "v' = v" using r by (simp_all add: ser_time_def)
  note t = ser_tick [OF P ok, folded s'(1)]
  have "uv_fifo U (dev s) \<noteq> [] \<or> waiting s = []" if "served U s"
    using that False by (auto simp: served_def ser_ok_def split: hw_status.splits)
  then have "take 1 (uv_fifo U (dev s) @ waiting s) = take 1 (uv_fifo U (dev s))" if "served U s" using that by (cases "uv_fifo U (dev s)") auto
  with t s'(2) show ?thesis by auto
next
  case True
  obtain v1 s1 where i: "serial_isr P bad (v, s) = (v1, s1)" by fastforce
  have s': "s' = s1\<lparr>dev := uv_tick U (dev s1)\<rparr>" "v' = v1" using r True i by (simp_all add: ser_time_def)
  note h = serial_isr_tx [OF P ok True i]
  note t = ser_tick [OF P served_ok, of s1, folded s'(1)]
  have rd: "uv_ready U (dev s)" using ok by (simp add: ser_ok_def)
  have "uv_fifo U (dev s) = []" using uartD(1) [OF P rd True] .
  moreover have "take 1 (take HW_BUFF_SIZE (waiting s)) = take 1 (waiting s)" by (simp add: HW_BUFF_SIZE_def)
  ultimately show ?thesis using h t s'(2) served_ok [of U s'] by auto
qed

lemma sent_rest:
  assumes "x @ q' = l @ q" and "x = l @ take k q"
  shows "q' = drop k q"
proof -
  have "(l @ take k q) @ q' = l @ take k q @ drop k q" using assms by simp
  then show ?thesis by (simp only: append_assoc same_append_eq)
qed

lemma ser_run_spec:
  assumes P: "uart P U"
  shows "ser_ok U s \<Longrightarrow> ser_run k P U bad (v, s) = (v', s') \<Longrightarrow> v' = v \<and> ser_ok U s' \<and> stream U s' = stream U s \<and>
     length (waiting s') \<le> length (waiting s) \<and>
     (served U s \<longrightarrow> served U s' \<and> uv_line U (dev s') = uv_line U (dev s) @ take k (uv_fifo U (dev s) @ waiting s))"
proof (induction k arbitrary: s)
  case (Suc k)
  obtain v1 s1 where r: "ser_time P U bad (v, s) = (v1, s1)" by fastforce
  note one = ser_time_spec [OF P Suc.prems(1) r]
  from r Suc.prems(2) one have "ser_run k P U bad (v, s1) = (v', s')" by simp
  note ih = Suc.IH [OF _ this]
  let ?q = "uv_fifo U (dev s) @ waiting s"
  have "uv_fifo U (dev s1) @ waiting s1 = drop 1 ?q" if "served U s"
    using one that sent_rest [of "uv_line U (dev s1)" "uv_fifo U (dev s1) @ waiting s1" "uv_line U (dev s)" ?q 1] unfolding stream_def by blast
  moreover have "take 1 ?q @ take k (drop 1 ?q) = take (Suc k) ?q" by (cases ?q) simp_all
  moreover have "length (waiting s') \<le> length (waiting s)" using one ih by linarith
  ultimately show ?case using one ih by (metis append_assoc)
qed simp

section \<open>The blocking write\<close>

text \<open>
  What the writer relies on. Interrupts move characters from the ring through the UART's queue to the line, and
  lose or change none. While it waits they make room before it runs again.
\<close>

definition moves :: "'d uart_view \<Rightarrow> (('d, 'a) ser_state_scheme \<Rightarrow> ('d, 'a) ser_state_scheme) \<Rightarrow> bool" where
  "moves U intr \<longleftrightarrow> (\<forall>s. ser_ok U s \<longrightarrow> ser_ok U (intr s) \<and> stream U (intr s) = stream U s \<and>
     length (waiting (intr s)) \<le> length (waiting s))"

definition makes_room :: "'d uart_view \<Rightarrow> (('d, 'a) ser_state_scheme \<Rightarrow> ('d, 'a) ser_state_scheme) \<Rightarrow> bool" where
  "makes_room U resume \<longleftrightarrow>
     (\<forall>s. served U s \<longrightarrow> ser_ok U (resume s) \<and> stream U (resume s) = stream U s \<and> \<not> is_buffer_full (ser_buff (resume s)))"

text \<open>The interrupts of this driver do: any time makes moves, and the time of 17 characters makes room.\<close>

lemma ser_run_moves: "uart P U \<Longrightarrow> moves U (\<lambda>s. snd (ser_run (n s) P U bad (v, s)))"
  unfolding moves_def by (metis ser_run_spec surjective_pairing)

lemma ser_run_room:
  assumes P: "uart P U" and n: "17 \<le> n"
  shows "makes_room U (\<lambda>s. snd (ser_run n P U bad (v, s)))"
  unfolding makes_room_def
proof (intro allI impI)
  fix s :: "('a, 'b) ser_state_scheme"
  assume sv: "served U s"
  obtain v' s' where r: "ser_run n P U bad (v, s) = (v', s')" by fastforce
  note h = ser_run_spec [OF P served_ok [OF sv] r]
  let ?q = "uv_fifo U (dev s) @ waiting s"
  have ln: "length (waiting s) \<le> 1023" using cb_count_less [of "ser_buff s"] by (simp add: waiting_def BUFF_SIZE_def del: cb_count_less)
  have "uv_fifo U (dev s') @ waiting s' = drop n ?q"
    using h sv sent_rest [of "uv_line U (dev s')" "uv_fifo U (dev s') @ waiting s'" "uv_line U (dev s)" ?q n] unfolding stream_def by blast
  from arg_cong [OF this, of length] have "length (waiting s') \<le> length ?q - n" by simp
  then have "length (waiting s') < 1023" using uartD(14) [OF P, of "dev s"] sv ln n by (simp add: served_def ser_ok_def)
  then have "\<not> is_buffer_full (ser_buff s')"
    using h sv cb_full_iff [of "ser_buff s'"] by (auto simp: served_def ser_ok_def waiting_def BUFF_SIZE_def)
  then show "ser_ok U (snd (ser_run n P U bad (v, s))) \<and> stream U (snd (ser_run n P U bad (v, s))) = stream U s \<and>
      \<not> is_buffer_full (ser_buff (snd (ser_run n P U bad (v, s))))"
    using h r by simp
qed

lemma ser_pause_moves:
  "moves U intr \<Longrightarrow> ser_ok U s \<Longrightarrow> ser_ok U (ser_pause intr s) \<and> stream U (ser_pause intr s) = stream U s \<and>
     length (waiting (ser_pause intr s)) \<le> length (waiting s)"
  by (simp add: moves_def ser_pause_def)

lemma wait_for_room:
  assumes R: "makes_room U resume" and ok: "served U s"
  shows "\<exists>s'. wait_event_interruptable resume q (\<lambda>s. is_buffer_full (ser_buff s)) s = Some s' \<and>
     ser_ok U s' \<and> stream U s' = stream U s \<and> \<not> is_buffer_full (ser_buff s')"
proof (cases "is_buffer_full (ser_buff s)")
  case False
  then show ?thesis using served_ok [OF ok] wait_event_done [of "\<lambda>s. is_buffer_full (ser_buff s)" s resume q]
    by auto
next
  case True
  let ?b = "PROC_block_on q True (CLI s)"
  have r: "ser_ok U (resume ?b)" "\<not> is_buffer_full (ser_buff (resume ?b))" "stream U (resume ?b) = stream U s"
    using R ok by (auto simp: makes_room_def)
  have "wait_loop (\<lambda>s. CLI (resume s)) (PROC_block_on q True) (\<lambda>s. is_buffer_full (ser_buff s)) (CLI s) =
      Some (CLI (resume ?b))"
    using True r(2) by (subst wait_loop.simps, simp) (subst wait_loop.simps, simp)
  then show ?thesis using r by (auto simp: wait_event_interruptable_def)
qed

lemma ser_writeb_loop_spec:
  assumes P: "uart P U" and I: "moves U intr" and R: "makes_room U resume"
  shows "ser_ok U s \<Longrightarrow> xs = shown m str i (nat len) \<Longrightarrow>
     \<exists>s'. ser_writeb_loop P intr resume m str len (int i) s = Some (int i + int (length xs), s') \<and>
        ser_ok U s' \<and> stream U s' = stream U s @ xs"
proof (induction xs arbitrary: i s)
  case Nil
  have "\<not> (m (at str (int i)) \<noteq> 0 \<and> int i < len)"
  proof
    assume go: "m (at str (int i)) \<noteq> 0 \<and> int i < len"
    then have "i < nat len" by linarith
    from shown_step [OF this, of m str] go Nil(2) show False by (simp add: at_nat)
  qed
  then show ?case using Nil(1) by (subst ser_writeb_loop.simps) auto
next
  case (Cons x xs)
  have i: "i < nat len" using Cons.prems(2) by (cases "i < nat len") (auto simp: shown_def)
  have x: "m (at str (int i)) = x" "x \<noteq> 0" and xs: "xs = shown m str (Suc i) (nat len)"
    using Cons.prems(2) shown_step [OF i, of m str] by (auto simp: at_nat split: if_splits)
  have go: "m (at str (int i)) \<noteq> 0 \<and> int i < len" using x i by auto
  have put: "\<exists>s'. ser_writeb_loop P intr resume m str len (int i + 1) (t\<lparr>ser_buff := b\<rparr>) = Some (int i + int (length (x # xs)), s') \<and>
        ser_ok U s' \<and> stream U s' = stream U t @ x # xs"
    if t: "ser_ok U t" and b: "producer_write x (ser_buff t) = Some b" for t b
  proof -
    let ?t = "t\<lparr>ser_buff := b\<rparr>"
    have "cb_list b = waiting t @ [x] \<and> cb_inv b"
      using ring.wr_Some [OF _ b] t by (simp add: ser_ok_def waiting_def)
    then have "ser_ok U ?t" "stream U ?t = stream U t @ [x]"
      using t by (simp_all add: ser_ok_def waiting_def stream_def split: hw_status.splits)
    with Cons.IH [OF _ xs, of ?t] show ?thesis by (simp add: add.commute add.left_commute)
  qed
  define t where "t = ser_pause intr s"
  have t: "ser_ok U t" "stream U t = stream U s" using ser_pause_moves [OF I Cons.prems(1)] by (simp_all add: t_def)
  have room: "\<exists>s'. ser_writeb_loop P intr resume m str len (int i) u = Some (int i + int (length (x # xs)), s') \<and>
        ser_ok U s' \<and> stream U s' = stream U u @ x # xs"
    if u: "ser_ok U u" and b: "producer_write x (ser_buff (ser_pause intr u)) = Some b" for u b
    using put [OF _ b] ser_pause_moves [OF I u] b go x by (subst ser_writeb_loop.simps) simp
  show ?case
  proof (cases "producer_write x (ser_buff t)")
    case (Some b)
    from room [OF Cons.prems(1) this [unfolded t_def]] show ?thesis .
  next
    case None
    note p = ser_pause_moves [OF I t(1)]
    have h: "served U (init_hw_write P (ser_pause intr t))" "stream U (init_hw_write P (ser_pause intr t)) = stream U s"
      using init_hw_write_any [OF P, of "ser_pause intr t"] p t(2) by simp_all
    from wait_for_room [OF R h(1), of "ser_blocked t"] h(2) obtain u where
      u: "wait_event_interruptable resume (ser_blocked t) (\<lambda>s. is_buffer_full (ser_buff s)) (init_hw_write P (ser_pause intr t)) = Some u"
      and ok: "ser_ok U u" and eq: "stream U u = stream U s" and nf: "\<not> is_buffer_full (ser_buff u)" by auto
    have step: "ser_writeb_loop P intr resume m str len (int i) s = ser_writeb_loop P intr resume m str len (int i) u"
      using go None x u by (subst ser_writeb_loop.simps) (simp add: t_def [symmetric])
    note q = ser_pause_moves [OF I ok]
    have "length (waiting u) \<noteq> BUFF_SIZE - 1" using nf cb_full_iff [of "ser_buff u"] ok by (simp add: ser_ok_def waiting_def)
    then have "length (waiting (ser_pause intr u)) \<noteq> BUFF_SIZE - 1"
      using q cb_count_less [of "ser_buff u"] by (auto simp: waiting_def BUFF_SIZE_def simp del: cb_count_less)
    then obtain b where "producer_write x (ser_buff (ser_pause intr u)) = Some b"
      using ring.wr_None [of "ser_buff (ser_pause intr u)" x] q by (auto simp: ser_ok_def waiting_def)
    from room [OF ok this] eq show ?thesis unfolding step by simp
  qed
qed

section \<open>Properties\<close>

text \<open>
  C17: \<^verbatim>\<open>SER_write\<close> of a terminated string takes as many of its characters, at most \<open>len\<close>, as the ring has room for, and
  reports that number. Over a 16550, whose queue of 16 characters loses what is written to it when it is full, no
  character is lost or reordered: what left the line, what is in the UART's queue and what waits in the ring are
  together what they were, followed by exactly the characters taken. The driver is not left idle while characters wait, a busy
  one still gets its interrupt, and the interrupt flag is as before.
\<close>

theorem SER_write_in_order:
  assumes "uart P U" and "ser_ok U s" and "cstr m str xs"
    and "k = min (min (nat len) (length xs)) (BUFF_SIZE - 1 - length (waiting s))"
  shows "\<exists>s'. SER_write P m str len s = (int k, s') \<and> served U s' \<and> uv_line U (dev s') = uv_line U (dev s) \<and>
     stream U s' = stream U s @ take k xs \<and> int_enabled s' = int_enabled s"
proof -
  obtain n s' where r: "SER_write P m str len s = (n, s')" by fastforce
  from SER_write_spec [OF assms(1-3) r] r assms(4) show ?thesis by (simp add: min.commute)
qed

text \<open>
  C18: While interrupts are taken, the line carries one character after the other, in order, until the UART's queue and the ring
  are empty, however full they were: after the time of \<open>k\<close> characters the first \<open>k\<close> of them have been sent and the
  others are still there, none is lost, and no interrupt is met that the handler does not know.
\<close>

theorem serial_interrupts_drain:
  assumes "uart P U" and "served U s" and "queued = uv_fifo U (dev s) @ waiting s"
  shows "\<exists>s'. ser_run k P U bad (v, s) = (v, s') \<and> served U s' \<and> uv_line U (dev s') = uv_line U (dev s) @ take k queued \<and>
     uv_fifo U (dev s') @ waiting s' = drop k queued"
proof -
  obtain v' s' where r: "ser_run k P U bad (v, s) = (v', s')" by fastforce
  note h = ser_run_spec [OF assms(1) served_ok [OF assms(2)] r]
  have "uv_fifo U (dev s') @ waiting s' = drop k queued"
    using h assms(2,3) sent_rest [of "uv_line U (dev s')" "uv_fifo U (dev s') @ waiting s'" "uv_line U (dev s)" queued k] unfolding stream_def by blast
  with h assms(2,3) r show ?thesis by auto
qed

text \<open>
  C19: The blocking write ends with the whole string written, however long it is and however full the ring was, whenever the
  interrupts taken while it waits make room. The wait leaves interrupts enabled, so they are also taken between the
  later operations of the loop, and still none of the characters is lost or reordered, and the driver is not left idle
  while characters wait.
\<close>

theorem SER_writeb_writes_all:
  assumes "uart P U" and "moves U intr" and "makes_room U resume" and "ser_ok U s" and "cstr m str xs"
  shows "\<exists>s'. SER_writeb P intr resume m str len s = Some (int (min (nat len) (length xs)), s') \<and> served U s' \<and>
     stream U s' = stream U s @ take (nat len) xs"
proof -
  from ser_writeb_loop_spec [OF assms(1-3), of "CLI s" _ m str 0 len] assms(4) shown_cstr [OF assms(5), of "nat len"]
  obtain t where l: "ser_writeb_loop P intr resume m str len 0 (CLI s) = Some (int (min (length xs) (nat len)), t)"
    and t: "ser_ok U t" "stream U t = stream U s @ take (nat len) xs" by auto
  note p = ser_pause_moves [OF assms(2) t(1)]
  from init_hw_write_any [OF assms(1), of "ser_pause intr t"] p t(2) show ?thesis
    by (simp add: SER_writeb_def l min.commute)
qed

subsection \<open>A UART\<close>

record uart_regs =
  ua_line :: "u8 list"
  ua_fifo :: "u8 list"
  ua_pending :: bool

definition uart_ports :: "uart_regs ports" where
  "uart_ports = \<lparr>port_inb = \<lambda>p d. if p = COM1 + 2 then (if ua_pending d then 0xC2 else 0xC1, d\<lparr>ua_pending := False\<rparr>)
       else if p = COM1 + 5 then (if ua_fifo d = [] then 0x20 else 0, d) else (0, d),
     port_inw = \<lambda>_ d. (0, d),
     port_outb = \<lambda>p b d. if p = COM1 then (if length (ua_fifo d) < 16 then d\<lparr>ua_fifo := ua_fifo d @ [b], ua_pending := False\<rparr>
         else d\<lparr>ua_pending := False\<rparr>) else d,
     port_outw = \<lambda>_ _ d. d\<rparr>"

definition uart_example :: "uart_regs uart_view" where
  "uart_example = \<lparr>uv_ready = \<lambda>d. length (ua_fifo d) \<le> 16 \<and> (ua_pending d \<longrightarrow> ua_fifo d = []), uv_line = ua_line, uv_fifo = ua_fifo, uv_pending = ua_pending,
     uv_tick = \<lambda>d. case ua_fifo d of [] \<Rightarrow> d | b # bs \<Rightarrow> d\<lparr>ua_line := ua_line d @ [b], ua_fifo := bs, ua_pending := (bs = [])\<rparr>\<rparr>"

definition ser_example :: "uart_regs ser_state" where
  "ser_example = \<lparr>sc_procs = (\<lambda>_. zero_process), sc_queue = \<lparr>q_head = NULL, q_tail = NULL\<rparr>,
     sc_current = NULL, pr_curr = NULL, pr_next = NULL, pr_pid = 0, pr_orig = 64, pr_waitq = (\<lambda>_. \<lparr>q_head = NULL, q_tail = NULL\<rparr>),
     pr_cpu = zero_regfile, dev = \<lparr>ua_line = [], ua_fifo = replicate 14 46, ua_pending = False\<rparr>, idt = [], irq_handler_table = [],
     kernel_text_offset = 0, idt_loaded = False, sys_calls = [],
     ser_buff = \<lparr>buff = replicate 1024 97, read_head = 5, write_head = 4\<rparr>, ser_status = BUSY, ser_blocked = 128\<rparr>"

lemma uart_example_ok: "uart uart_ports uart_example"
  by (auto simp: uart_def uart_ports_def uart_example_def uart_same_def COM1_def PIC1_COMMAND_def PIC2_COMMAND_def
      IIR_ID_MASK_def IIR_TX_EMPTY_def split: list.splits)

text \<open>The ring is full and the UART busy with 14 characters.\<close>

lemma ser_example_ok: "served uart_example ser_example" "ser_ok uart_example ser_example" "length (waiting ser_example) = 1023"
proof -
  have "cb_count (ser_buff ser_example) = 1023" by (simp add: ser_example_def cb_count_def BUFF_SIZE_def)
  then show "length (waiting ser_example) = 1023" by (simp add: waiting_def cb_list_def)
  show "ser_ok uart_example ser_example" by (simp add: ser_ok_def ser_example_def cb_inv_def BUFF_SIZE_def uart_example_def)
  then show "served uart_example ser_example" by (simp add: served_def ser_example_def)
qed

definition hi_mem :: bmem where "hi_mem = (\<lambda>x. if x = 16 then 104 else if x = 17 then 105 else 0)"

lemma hi_mem_cstr: "cstr hi_mem 16 [104, 105]"
  by (simp add: hi_mem_def)

text \<open>With an empty ring and a busy UART both characters wait, as its queue is not to be written before its interrupt.\<close>

theorem SER_write_in_order_witness:
  "\<exists>s'. SER_write uart_ports hi_mem 16 5 (ser_example\<lparr>ser_buff := \<lparr>buff = replicate 1024 0, read_head = 0, write_head = 0\<rparr>\<rparr>) = (2, s') \<and>
     ua_line (dev s') @ ua_fifo (dev s') @ waiting s' = replicate 14 46 @ [104, 105]"
proof -
  let ?s = "ser_example\<lparr>ser_buff := \<lparr>buff = replicate 1024 0, read_head = 0, write_head = 0\<rparr>\<rparr>"
  have ok: "ser_ok uart_example ?s" by (simp add: ser_ok_def ser_example_def cb_inv_def BUFF_SIZE_def uart_example_def)
  have w: "waiting ?s = []" by (simp add: waiting_def cb_list_def cb_count_def)
  have st: "stream uart_example ?s = replicate 14 46" unfolding stream_def w by (simp add: uart_example_def ser_example_def)
  from SER_write_in_order [OF uart_example_ok ok hi_mem_cstr refl, of 5, unfolded st w] show ?thesis
    by (auto simp: BUFF_SIZE_def stream_def uart_example_def)
qed

theorem serial_interrupts_drain_witness:
  "\<exists>s'. ser_run 1037 uart_ports uart_example 0 (vga_example, ser_example) = (vga_example, s') \<and> ua_fifo (dev s') @ waiting s' = []"
proof -
  have "length (uv_fifo uart_example (dev ser_example) @ waiting ser_example) = 1037"
    using ser_example_ok(3) by (simp add: uart_example_def ser_example_def)
  then show ?thesis using serial_interrupts_drain [OF uart_example_ok ser_example_ok(1) refl, of 1037 0 vga_example]
    by (auto simp: uart_example_def)
qed

text \<open>The ring being full, the write waits for the time of 17 characters.\<close>

theorem SER_writeb_writes_all_witness:
  "\<exists>s'. SER_writeb uart_ports (\<lambda>s. snd (ser_run 3 uart_ports uart_example 0 (vga_example, s)))
       (\<lambda>s. snd (ser_run 17 uart_ports uart_example 0 (vga_example, s))) hi_mem 16 5 ser_example = Some (2, s') \<and>
     ua_line (dev s') @ ua_fifo (dev s') @ waiting s' = replicate 14 46 @ waiting ser_example @ [104, 105]"
proof -
  have "stream uart_example ser_example = replicate 14 46 @ waiting ser_example" by (simp add: stream_def uart_example_def ser_example_def)
  with SER_writeb_writes_all [OF uart_example_ok ser_run_moves [OF uart_example_ok] ser_run_room [OF uart_example_ok order_refl] ser_example_ok(2) hi_mem_cstr,
      of "\<lambda>_. 3" 0 vga_example 0 vga_example 5]
  show ?thesis by (auto simp: stream_def uart_example_def)
qed

end
