(* ===== verification/Keyboard.thy ===== *)
theory Keyboard
  imports Serial
begin

text \<open>
  The keyboard driver (\<^verbatim>\<open>dev/keyboard.c\<close>): setting up the PS/2 controller and the keyboard, the
  interrupt handler that decodes scan codes of set 2 into characters for a ring buffer, and the
  system call that takes them out. A key is the number it has in the enumeration \<^verbatim>\<open>key\<close>
  (\<^verbatim>\<open>a\<close> .. \<^verbatim>\<open>z\<close> are 1 to 26, \<^verbatim>\<open>k1\<close> .. \<^verbatim>\<open>k9\<close>, \<^verbatim>\<open>k0\<close> are 27 to 36, \<^verbatim>\<open>backtick\<close> .. \<^verbatim>\<open>fwdslash\<close> are 37 to
  51), and a modifier its number in \<^verbatim>\<open>modifier\<close>.
\<close>

section \<open>Constants and tables\<close>

definition PS2_STATUS :: u16 where "PS2_STATUS = 0x64"
definition PS2_COMMAND :: u16 where "PS2_COMMAND = 0x64"
definition PS2_DATA :: u16 where "PS2_DATA = 0x60"
definition CMD_DISABLE_P1 :: u8 where "CMD_DISABLE_P1 = 0xAD"
definition CMD_DISABLE_P2 :: u8 where "CMD_DISABLE_P2 = 0xA7"
definition CMD_READ_CONFIG_BYTE :: u8 where "CMD_READ_CONFIG_BYTE = 0x20"
definition CMD_WRITE_CONFIG_BYTE :: u8 where "CMD_WRITE_CONFIG_BYTE = 0x60"
definition CMD_TEST_PS2 :: u8 where "CMD_TEST_PS2 = 0xAA"
definition CMD_TEST_P1 :: u8 where "CMD_TEST_P1 = 0xAB"
definition CMD_ENABLE_P1 :: u8 where "CMD_ENABLE_P1 = 0xAE"
definition CFG_INT1 :: u8 where "CFG_INT1 = 0x1"
definition CFG_INT2 :: u8 where "CFG_INT2 = 0x2"
definition CFG_CLK1 :: u8 where "CFG_CLK1 = 0x10"
definition CFG_CLK2 :: u8 where "CFG_CLK2 = 0x20"
definition CFG_TRANS :: u8 where "CFG_TRANS = 0x40"
definition CMD_RST_KEYBOARD :: u8 where "CMD_RST_KEYBOARD = 0xFF"
definition CMD_ENABLE_SCAN :: u8 where "CMD_ENABLE_SCAN = 0xF4"
definition CMD_SCANCODE :: u8 where "CMD_SCANCODE = 0xF0"
definition SUBCMD_SET_SCANCODE_2 :: u8 where "SUBCMD_SET_SCANCODE_2 = 2"
definition PS2_TEST_PASS :: u8 where "PS2_TEST_PASS = 0x55"
definition KEYB_RESEND :: u8 where "KEYB_RESEND = 0xFE"
definition KEYB_ACK :: u8 where "KEYB_ACK = 0xFA"
definition N_TRIES :: u8 where "N_TRIES = 3"
definition KEYBOARD_IRQ :: u8 where "KEYBOARD_IRQ = 33"
definition GETC_SYS_CALL :: u8 where "GETC_SYS_CALL = 1"
definition SC_BREAK :: u8 where "SC_BREAK = 0xF0"

text \<open>\<^verbatim>\<open>SC_A\<close> .. \<^verbatim>\<open>SC_Z\<close>, \<^verbatim>\<open>SC_0\<close> .. \<^verbatim>\<open>SC_9\<close> and \<^verbatim>\<open>SC_BACKTICK\<close> .. \<^verbatim>\<open>SC_FWDSLASH\<close>, in the order of the file.\<close>

definition letter_codes :: "u8 list" where
  "letter_codes =
     [0x1C, 0x32, 0x21, 0x23, 0x24, 0x2B, 0x34, 0x33, 0x43, 0x3B, 0x42, 0x4B, 0x3A, 0x31, 0x44, 0x4D,
      0x15, 0x2D, 0x1B, 0x2C, 0x3C, 0x2A, 0x1D, 0x22, 0x35, 0x1A]"

definition digit_codes :: "u8 list" where
  "digit_codes = [0x45, 0x16, 0x1E, 0x26, 0x25, 0x2E, 0x36, 0x3D, 0x3E, 0x46]"

definition special_codes :: "u8 list" where
  "special_codes =
     [0x0E, 0x4E, 0x55, 0x5D, 0x66, 0x29, 0x0D, 0x5A, 0x54, 0x5B, 0x4C, 0x52, 0x41, 0x49, 0x4A]"

definition shift :: nat where "shift = 1"
definition control :: nat where "control = 2"
definition alt :: nat where "alt = 3"

text \<open>The switch of the handler: the key, or the modifier, of a scan code; 0 for neither.\<close>

definition scan_keys :: "(u8 \<times> nat) list" where
  "scan_keys = zip letter_codes [1..<27] @ zip digit_codes (36 # [27..<36]) @ zip special_codes [37..<52]"

definition scan_mods :: "(u8 \<times> nat) list" where
  "scan_mods = [(0x12, shift), (0x14, control), (0x11, alt), (0x59, shift)]"

definition scan_key :: "u8 \<Rightarrow> nat" where
  "scan_key c = (case map_of scan_keys c of Some k \<Rightarrow> k | None \<Rightarrow> 0)"

definition scan_mod :: "u8 \<Rightarrow> nat" where
  "scan_mod c = (case map_of scan_mods c of Some k \<Rightarrow> k | None \<Rightarrow> 0)"

definition ascii :: "u8 list" where
  "ascii = 0 # map of_nat [97..<123] @ map of_nat [49..<58] @
     [48, 96, 45, 61, 92, 8, 32, 9, 10, 91, 93, 59, 39, 44, 46, 47]"

definition ASCII_shift :: "u8 list" where
  "ASCII_shift = 0 # map of_nat [65..<91] @ [33, 64, 35, 36, 37, 94, 38, 42, 40] @
     [41, 126, 95, 43, 124, 8, 32, 9, 10, 123, 125, 58, 34, 60, 62, 63]"

section \<open>State and operations\<close>

text \<open>\<open>kb_blocked\<close> is the address of the wait queue in \<^verbatim>\<open>keyb\<close>, \<open>kb_release\<close> the handler's static flag.\<close>

record 'd kbd_state = "'d ser_state" +
  kb_blocked :: ptr
  kb_buff :: buff_state
  kb_mod_state :: u8
  kb_key_state :: u64
  kb_release :: bool

text \<open>
  \<^verbatim>\<open>1 << k\<close> is computed in \<^verbatim>\<open>int\<close> and then converted to the type of the state. For \<open>k \<ge> 32\<close>, which the
  larger keys are, this is undefined in C; the definition is what the shift instruction does, which
  takes the count modulo 32. Nothing reads \<open>kb_key_state\<close>.
\<close>

definition int_bit :: "nat \<Rightarrow> u32" where
  "int_bit k = push_bit (k mod 32) 1"

definition SET_BIT :: "'n::len word \<Rightarrow> nat \<Rightarrow> 'n word" where
  "SET_BIT I k = I OR scast (int_bit k)"

definition CLEAR_BIT :: "'n::len word \<Rightarrow> nat \<Rightarrow> 'n word" where
  "CLEAR_BIT I k = I AND scast (NOT (int_bit k))"

definition TEST_BIT :: "u8 \<Rightarrow> nat \<Rightarrow> bool" where
  "TEST_BIT I k \<longleftrightarrow> ucast I AND int_bit k \<noteq> 0"

text \<open>The polling loops end when the controller's status says so.\<close>

partial_function (option) poll ::
    "'d ports \<Rightarrow> (u8 \<Rightarrow> bool) \<Rightarrow> ('d, 'a) kbd_state_scheme \<Rightarrow> ('d, 'a) kbd_state_scheme option" where
  "poll ports wait s =
     (let (v, s) = inb ports PS2_STATUS s in if wait v then poll ports wait s else Some s)"

definition read_data :: "'d ports \<Rightarrow> ('d, 'a) kbd_state_scheme \<Rightarrow> (u8 \<times> ('d, 'a) kbd_state_scheme) option" where
  "read_data P s = map_option (inb P PS2_DATA) (poll P (\<lambda>v. v AND 0x1 = 0) s)"

definition write_data :: "'d ports \<Rightarrow> u8 \<Rightarrow> ('d, 'a) kbd_state_scheme \<Rightarrow> ('d, 'a) kbd_state_scheme option" where
  "write_data P data s = map_option (outb P PS2_DATA data) (poll P (\<lambda>v. v AND 0x2 \<noteq> 0) s)"

definition write_command :: "'d ports \<Rightarrow> u8 \<Rightarrow> ('d, 'a) kbd_state_scheme \<Rightarrow> ('d, 'a) kbd_state_scheme" where
  "write_command P command s = outb P PS2_COMMAND command s"

definition init_ps2_controller :: "'d ports \<Rightarrow> ('d, 'a) kbd_state_scheme \<Rightarrow> (int \<times> ('d, 'a) kbd_state_scheme) option" where
  "init_ps2_controller P s =
     (let s = write_command P CMD_DISABLE_P1 s;
          s = write_command P CMD_DISABLE_P2 s;
          (_, s) = inb P PS2_DATA s;
          s = write_command P CMD_READ_CONFIG_BYTE s;
          (config, s) = inb P PS2_DATA s;
          config = config OR (CFG_CLK1 OR CFG_INT1);
          config = config AND NOT (CFG_CLK2 OR CFG_INT2 OR CFG_TRANS);
          s = write_command P CMD_WRITE_CONFIG_BYTE s
      in Option.bind (write_data P config s) (\<lambda>s.
         Option.bind (read_data P (write_command P CMD_TEST_PS2 s)) (\<lambda>(v, s).
         if v \<noteq> PS2_TEST_PASS then Some (- 1, s)
         else Option.bind (read_data P (write_command P CMD_TEST_P1 s)) (\<lambda>(v, s).
         if v \<noteq> 0 then Some (- 2, s)
         else Some (1, write_command P CMD_ENABLE_P1 s)))))"

text \<open>The do loop of \<^verbatim>\<open>write_keyboard\<close>; \<open>n\<close> tries are left after this one.\<close>

fun write_tries :: "'d ports \<Rightarrow> u8 \<Rightarrow> nat \<Rightarrow> u8 \<Rightarrow> ('d, 'a) kbd_state_scheme \<Rightarrow> (u8 \<times> ('d, 'a) kbd_state_scheme) option" where
  "write_tries P byte 0 resp s = map_option (\<lambda>s. (resp, s)) (write_data P byte s)"
| "write_tries P byte (Suc n) resp s =
     Option.bind (write_data P byte s) (\<lambda>s.
     Option.bind (read_data P s) (\<lambda>(resp, s).
     if resp = KEYB_RESEND then write_tries P byte n resp s else Some (resp, s)))"

definition write_keyboard :: "'d ports \<Rightarrow> u8 \<Rightarrow> ('d, 'a) kbd_state_scheme \<Rightarrow> (u8 \<times> ('d, 'a) kbd_state_scheme) option" where
  "write_keyboard P byte s = write_tries P byte (unat N_TRIES - 1) 0 s"

text \<open>The messages printed on failure are left out.\<close>

definition init_ps2_keyboard :: "'d ports \<Rightarrow> ('d, 'a) kbd_state_scheme \<Rightarrow> (int \<times> ('d, 'a) kbd_state_scheme) option" where
  "init_ps2_keyboard P s =
     Option.bind (write_keyboard P CMD_RST_KEYBOARD s) (\<lambda>(resp, s).
     if resp \<noteq> KEYB_ACK then Some (- 3, s)
     else Option.bind (write_keyboard P CMD_SCANCODE s) (\<lambda>(resp, s).
     if resp \<noteq> KEYB_ACK then Some (- 4, s)
     else Option.bind (write_keyboard P SUBCMD_SET_SCANCODE_2 s) (\<lambda>(resp, s).
     if resp \<noteq> KEYB_ACK then Some (- 5, s)
     else Option.bind (write_keyboard P CMD_ENABLE_SCAN s) (\<lambda>(resp, s).
     if resp \<noteq> KEYB_ACK then Some (- 6, s)
     else Some (1, s)))))"

text \<open>\<open>getc\<close> and \<open>handler\<close> are the addresses of \<^verbatim>\<open>getc_sys_call\<close> and \<^verbatim>\<open>keyboard_handler\<close>.\<close>

definition KBD_init :: "'d ports \<Rightarrow> ptr \<Rightarrow> ptr \<Rightarrow> ('d, 'a) kbd_state_scheme \<Rightarrow> (int \<times> ('d, 'a) kbd_state_scheme) option" where
  "KBD_init P getc handler s =
     (let s = init_wait_queue (kb_blocked s) s;
          s = s\<lparr>kb_buff := init_buff (kb_buff s)\<rparr>;
          s = set_sys_call GETC_SYS_CALL getc s
      in Option.bind (init_ps2_controller P s) (\<lambda>(res, s).
         if res \<noteq> 1 then Some (res, s)
         else Option.bind (init_ps2_keyboard P s) (\<lambda>(res, s).
         if res \<noteq> 1 then Some (res, s)
         else
           let s = IRQ_set_handler KEYBOARD_IRQ handler NULL s;
               s = IRQ_clear_mask P KEYBOARD_IRQ s
           in Some (1, s))))"

text \<open>
  \<open>chr\<close> is the value of the uninitialised local the system call reads into, and the character is
  sign extended.
\<close>

definition getc_sys_call ::
    "(('d, 'a) kbd_state_scheme \<Rightarrow> ('d, 'a) kbd_state_scheme) \<Rightarrow> u8 \<Rightarrow> ('d, 'a) kbd_state_scheme \<Rightarrow>
     (u64 \<times> ('d, 'a) kbd_state_scheme) option" where
  "getc_sys_call resume chr s =
     map_option (\<lambda>s.
         (case consumer_read (kb_buff s) of
            Some (c, b) \<Rightarrow> (scast c, s\<lparr>kb_buff := b\<rparr>)
          | None \<Rightarrow> (scast chr, s)))
       (wait_event_interruptable resume (kb_blocked s) (\<lambda>s. is_buffer_empty (kb_buff s)) s)"

definition key_step :: "nat \<Rightarrow> ('d, 'a) kbd_state_scheme \<Rightarrow> ('d, 'a) kbd_state_scheme" where
  "key_step key s =
     (if key \<noteq> 0 then
        if kb_release s then s\<lparr>kb_release := False, kb_key_state := CLEAR_BIT (kb_key_state s) key\<rparr>
        else
          let s = s\<lparr>kb_key_state := SET_BIT (kb_key_state s) key\<rparr>;
              chr = (if TEST_BIT (kb_mod_state s) shift then ASCII_shift ! key else ascii ! key);
              s = (case producer_write chr (kb_buff s) of Some b \<Rightarrow> s\<lparr>kb_buff := b\<rparr> | None \<Rightarrow> s)
          in PROC_unblock_head (kb_blocked s) s
      else s)"

definition mod_step :: "nat \<Rightarrow> ('d, 'a) kbd_state_scheme \<Rightarrow> ('d, 'a) kbd_state_scheme" where
  "mod_step m s =
     (if m \<noteq> 0 then
        if kb_release s then s\<lparr>kb_release := False, kb_mod_state := CLEAR_BIT (kb_mod_state s) m\<rparr>
        else s\<lparr>kb_mod_state := SET_BIT (kb_mod_state s) m\<rparr>
      else s)"

definition keyboard_handler :: "'d ports \<Rightarrow> ('d, 'a) kbd_state_scheme \<Rightarrow> ('d, 'a) kbd_state_scheme" where
  "keyboard_handler P s =
     (let (code, s) = inb P PS2_DATA s;
          s = (if code = SC_BREAK then s\<lparr>kb_release := True\<rparr> else s);
          s = key_step (scan_key code) s;
          s = mod_step (scan_mod code) s
      in IRQ_end_of_interrupt P KEYBOARD_IRQ s)"

section \<open>The tables\<close>

definition key_char :: "bool \<Rightarrow> nat \<Rightarrow> u8" where
  "key_char sh k = (if sh then ASCII_shift ! k else ascii ! k)"

lemmas table_defs = scan_keys_def letter_codes_def digit_codes_def special_codes_def upt_rec

lemma scan_keys_val: "scan_keys = [
   (0x1C, 1), (0x32, 2), (0x21, 3), (0x23, 4), (0x24, 5), (0x2B, 6), (0x34, 7), (0x33, 8), (0x43, 9), (0x3B, 10),
   (0x42, 11), (0x4B, 12), (0x3A, 13), (0x31, 14), (0x44, 15), (0x4D, 16), (0x15, 17), (0x2D, 18), (0x1B, 19),
   (0x2C, 20), (0x3C, 21), (0x2A, 22), (0x1D, 23), (0x22, 24), (0x35, 25), (0x1A, 26), (0x45, 36), (0x16, 27),
   (0x1E, 28), (0x26, 29), (0x25, 30), (0x2E, 31), (0x36, 32), (0x3D, 33), (0x3E, 34), (0x46, 35), (0x0E, 37),
   (0x4E, 38), (0x55, 39), (0x5D, 40), (0x66, 41), (0x29, 42), (0x0D, 43), (0x5A, 44), (0x54, 45), (0x5B, 46),
   (0x4C, 47), (0x52, 48), (0x41, 49), (0x49, 50), (0x4A, 51)]"
  by (simp add: table_defs)

lemma scan_key_less: "scan_key c < 52"
proof (cases "map_of scan_keys c")
  case (Some k)
  then have "(c, k) \<in> set scan_keys" by (rule map_of_SomeD)
  then have "k < 52" by (auto simp: scan_keys_val)
  with Some show ?thesis by (simp add: scan_key_def)
qed (simp add: scan_key_def)

lemma scan_mod_less: "scan_mod c < 4"
proof (cases "map_of scan_mods c")
  case (Some k)
  then have "(c, k) \<in> set scan_mods" by (rule map_of_SomeD)
  then have "k < 4" by (auto simp: scan_mods_def shift_def control_def alt_def)
  with Some show ?thesis by (simp add: scan_mod_def)
qed (simp add: scan_mod_def)

lemma every_key: "1 \<le> k \<Longrightarrow> k < 52 \<Longrightarrow> \<exists>c. scan_key c = k"
proof -
  assume k: "1 \<le> k" "k < 52"
  have "k \<in> set (map snd scan_keys)"
    using k by (simp add: scan_keys_val) presburger
  then obtain c where "(c, k) \<in> set scan_keys" by auto
  moreover have "distinct (map fst scan_keys)" by (simp add: scan_keys_val)
  ultimately have "map_of scan_keys c = Some k" by simp
  then show ?thesis by (auto simp: scan_key_def intro!: exI [of _ c])
qed

lemma printable_keys:
  "set (map of_nat [32..<127]) \<subseteq> set (tl ascii) \<union> set (tl ASCII_shift)"
  by (simp add: ascii_def ASCII_shift_def upt_rec)

lemma table_lengths: "length ascii = 52" "length ASCII_shift = 52"
  by (simp_all add: ascii_def ASCII_shift_def)

lemma key_not_mod: "scan_key c \<noteq> 0 \<Longrightarrow> scan_mod c = 0" "scan_key SC_BREAK = 0" "scan_mod SC_BREAK = 0"
proof -
  assume "scan_key c \<noteq> 0"
  then obtain k where "map_of scan_keys c = Some k" by (cases "map_of scan_keys c") (simp_all add: scan_key_def)
  then have "(c, k) \<in> set scan_keys" by (rule map_of_SomeD)
  then have "c \<in> fst ` set scan_keys" by force
  then have "map_of scan_mods c = None"
    unfolding map_of_eq_None_iff by (auto simp: scan_keys_val scan_mods_def)
  then show "scan_mod c = 0" by (simp add: scan_mod_def)
qed (simp_all add: scan_key_def scan_mod_def scan_keys_val scan_mods_def SC_BREAK_def)

section \<open>Modifier bits\<close>

lemma int_bit_bit: "k < 32 \<Longrightarrow> bit (int_bit k) j \<longleftrightarrow> j = k"
  by (auto simp: int_bit_def bit_simps)

lemma TEST_BIT_bit: "k < 8 \<Longrightarrow> TEST_BIT I k \<longleftrightarrow> bit I k"
proof -
  assume k: "k < 8"
  then have "int_bit k = 2 ^ k" by (simp add: int_bit_def push_bit_eq_mult)
  then have "TEST_BIT I k \<longleftrightarrow> bit (ucast I :: u32) k" by (simp add: TEST_BIT_def and_exp_eq_0_iff_not_bit)
  with k show ?thesis by (simp add: bit_simps)
qed

lemma TEST_BIT_upd:
  assumes "k < 8" and "j < 8"
  shows "TEST_BIT (SET_BIT I k) j \<longleftrightarrow> j = k \<or> TEST_BIT I j"
    and "TEST_BIT (CLEAR_BIT I k) j \<longleftrightarrow> j \<noteq> k \<and> TEST_BIT I j"
  using assms int_bit_bit [of k j]
  by (auto simp: TEST_BIT_bit SET_BIT_def CLEAR_BIT_def bit_simps)

section \<open>What is typed\<close>

text \<open>
  A key goes down and comes up; the keyboard sends its code, preceded by \<^verbatim>\<open>SC_BREAK\<close> when it comes
  up. A supported code is that of a key or of a modifier.
\<close>

datatype kev = Down u8 | Up u8

fun codes :: "kev \<Rightarrow> u8 list" where
  "codes (Down c) = [c]"
| "codes (Up c) = [SC_BREAK, c]"

fun supported :: "kev \<Rightarrow> bool" where
  "supported (Down c) \<longleftrightarrow> scan_key c \<noteq> 0 \<or> scan_mod c \<noteq> 0"
| "supported (Up c) \<longleftrightarrow> scan_key c \<noteq> 0 \<or> scan_mod c \<noteq> 0"

text \<open>
  The text that is typed, by the keys that are held, each shift key for itself: a character is shifted while either is down.
\<close>

fun press :: "u8 set \<Rightarrow> kev \<Rightarrow> u8 set" where
  "press H (Down c) = insert c H"
| "press H (Up c) = H - {c}"

definition shift_down :: "u8 set \<Rightarrow> bool" where
  "shift_down H \<longleftrightarrow> 0x12 \<in> H \<or> 0x59 \<in> H"

fun typed :: "u8 set \<Rightarrow> kev list \<Rightarrow> u8 list" where
  "typed H [] = []"
| "typed H (e # es) =
     (case e of Down c \<Rightarrow> (if scan_key c \<noteq> 0 then [key_char (shift_down H) (scan_key c)] else []) | Up c \<Rightarrow> []) @
     typed (press H e) es"

text \<open>The hands on the keyboard: a key comes up after it went down, and the two shift keys are not held together.\<close>

fun hands :: "u8 set \<Rightarrow> kev list \<Rightarrow> bool" where
  "hands H [] \<longleftrightarrow> \<not> (0x12 \<in> H \<and> 0x59 \<in> H)"
| "hands H (e # es) \<longleftrightarrow> \<not> (0x12 \<in> H \<and> 0x59 \<in> H) \<and> (case e of Down c \<Rightarrow> True | Up c \<Rightarrow> c \<in> H) \<and> hands (press H e) es"

text \<open>What the code's one bit makes of an event.\<close>

fun shifted :: "bool \<Rightarrow> kev \<Rightarrow> bool" where
  "shifted sh (Down c) \<longleftrightarrow> scan_mod c = shift \<or> sh"
| "shifted sh (Up c) \<longleftrightarrow> scan_mod c \<noteq> shift \<and> sh"

lemma scan_mod_shift: "scan_mod c = shift \<longleftrightarrow> c = 0x12 \<or> c = 0x59"
  by (auto simp: scan_mod_def scan_mods_def shift_def control_def alt_def)

lemma shifted_hands: "hands H (e # es) \<Longrightarrow> shifted (shift_down H) e = shift_down (press H e)"
  by (cases e) (auto simp: shift_down_def scan_mod_shift)

definition shift_held :: "('d, 'a) kbd_state_scheme \<Rightarrow> bool" where
  "shift_held s \<longleftrightarrow> TEST_BIT (kb_mod_state s) shift"

definition keys_waiting :: "('d, 'a) kbd_state_scheme \<Rightarrow> u8 list" where
  "keys_waiting s = cb_list (kb_buff s)"

text \<open>The controller hands out the codes one by one, and the interrupt controllers do not interfere.\<close>

definition ps2 :: "'d ports \<Rightarrow> ('d \<Rightarrow> u8 list) \<Rightarrow> bool" where
  "ps2 P scan \<longleftrightarrow>
     (\<forall>d c cs. scan d = c # cs \<longrightarrow> fst (port_inb P PS2_DATA d) = c \<and> scan (snd (port_inb P PS2_DATA d)) = cs) \<and>
     (\<forall>p \<in> {PIC1_COMMAND, PIC2_COMMAND}. \<forall>b d. scan (port_outb P p b d) = scan d)"

fun kbd_irqs :: "nat \<Rightarrow> 'd ports \<Rightarrow> ('d, 'a) kbd_state_scheme \<Rightarrow> ('d, 'a) kbd_state_scheme" where
  "kbd_irqs 0 P s = s"
| "kbd_irqs (Suc n) P s = kbd_irqs n P (keyboard_handler P s)"

lemma kbd_irqs_add: "kbd_irqs (m + n) P s = kbd_irqs n P (kbd_irqs m P s)"
  by (induction m arbitrary: s) simp_all

lemma kbd_more:
  "proc_state.more s = proc_state.more t \<Longrightarrow>
     dev s = dev t \<and> kb_buff s = kb_buff t \<and> kb_mod_state s = kb_mod_state t \<and> kb_release s = kb_release t \<and>
     kb_key_state s = kb_key_state t \<and> kb_blocked s = kb_blocked t"
  by (cases s, cases t) simp

lemma kbd_threads [simp]:
  fixes s :: "('d, 'a) kbd_state_scheme"
  shows "kb_buff (PROC_unblock_head q s) = kb_buff s" "kb_mod_state (PROC_unblock_head q s) = kb_mod_state s"
    "kb_release (PROC_unblock_head q s) = kb_release s"
    "kb_buff (CLI s) = kb_buff s" "kb_buff (STI s) = kb_buff s" "kb_buff (PROC_block_on q e s) = kb_buff s"
    "kb_blocked (CLI s) = kb_blocked s" "kb_blocked (STI s) = kb_blocked s" "kb_blocked (PROC_block_on q e s) = kb_blocked s"
  using kbd_more [of "PROC_unblock_head q s" s] kbd_more [of "CLI s" s] kbd_more [of "STI s" s]
    kbd_more [of "PROC_block_on q e s" s] by simp_all

lemma kbd_eoi [simp]:
  "kb_buff (IRQ_end_of_interrupt P irq s) = kb_buff s" "kb_mod_state (IRQ_end_of_interrupt P irq s) = kb_mod_state s"
  "kb_release (IRQ_end_of_interrupt P irq s) = kb_release s"
  by (simp_all add: IRQ_end_of_interrupt_def outb_def Let_def)

lemma ps2_eoi: "ps2 P scan \<Longrightarrow> scan (dev (IRQ_end_of_interrupt P irq s)) = scan (dev s)"
  by (auto simp: IRQ_end_of_interrupt_def ps2_def outb_def Let_def)

definition put_char :: "u8 \<Rightarrow> buff_state \<Rightarrow> buff_state" where
  "put_char c b = (case producer_write c b of Some b' \<Rightarrow> b' | None \<Rightarrow> b)"

lemma put_char_list:
  assumes "cb_inv b"
  shows "cb_inv (put_char c b) \<and> cb_list (put_char c b) = take (BUFF_SIZE - 1) (cb_list b @ [c])"
  using ring.wr_None [OF assms, of c] ring.wr_Some [OF assms, of c] ring.within_cap [OF assms]
    ring.within_cap [of "put_char c b"] assms
  by (auto simp: put_char_def split: option.splits)

lemma key_step_press:
  assumes "key \<noteq> 0" and "\<not> kb_release s"
  shows "dev (key_step key s) = dev s \<and> \<not> kb_release (key_step key s) \<and> kb_mod_state (key_step key s) = kb_mod_state s \<and>
     kb_buff (key_step key s) = put_char (key_char (shift_held s) key) (kb_buff s)"
  using assms by (simp add: key_step_def Let_def put_char_def key_char_def shift_held_def split: option.split)

lemma key_step_release:
  "key \<noteq> 0 \<Longrightarrow> kb_release s \<Longrightarrow> key_step key s = s\<lparr>kb_release := False, kb_key_state := CLEAR_BIT (kb_key_state s) key\<rparr>"
  by (simp add: key_step_def)

lemma key_step_0 [simp]: "key_step 0 s = s" and mod_step_0 [simp]: "mod_step 0 s = s"
  by (simp_all add: key_step_def mod_step_def)

lemma mod_step_spec:
  assumes "m \<noteq> 0" and "m < 4"
  shows "dev (mod_step m s) = dev s \<and> \<not> kb_release (mod_step m s) \<and> kb_buff (mod_step m s) = kb_buff s \<and>
     shift_held (mod_step m s) = (if kb_release s then m \<noteq> shift \<and> shift_held s else m = shift \<or> shift_held s)"
  using assms TEST_BIT_upd [of m shift "kb_mod_state s"]
  by (auto simp: mod_step_def shift_held_def shift_def)

text \<open>One code: the release flag set, or not.\<close>

lemma handler_code:
  assumes P: "ps2 P scan" and d: "scan (dev s) = c # cs"
  defines "s' \<equiv> keyboard_handler P s"
  shows "scan (dev s') = cs"
    and "c = SC_BREAK \<Longrightarrow> kb_release s' \<and> kb_buff s' = kb_buff s \<and> kb_mod_state s' = kb_mod_state s"
    and "kb_release s \<Longrightarrow> supported (Up c) \<Longrightarrow> \<not> kb_release s' \<and> kb_buff s' = kb_buff s \<and>
       shift_held s' = shifted (shift_held s) (Up c)"
    and "\<not> kb_release s \<Longrightarrow> supported (Down c) \<Longrightarrow> \<not> kb_release s' \<and>
       kb_buff s' = (if scan_key c \<noteq> 0 then put_char (key_char (shift_held s) (scan_key c)) (kb_buff s) else kb_buff s) \<and>
       shift_held s' = shifted (shift_held s) (Down c)"
proof -
  let ?d = "snd (port_inb P PS2_DATA (dev s))"
  let ?s = "if c = SC_BREAK then s\<lparr>dev := ?d, kb_release := True\<rparr> else s\<lparr>dev := ?d\<rparr>"
  let ?t = "mod_step (scan_mod c) (key_step (scan_key c) ?s)"
  have rd: "fst (port_inb P PS2_DATA (dev s)) = c" "scan ?d = cs" using P d unfolding ps2_def by blast+
  have s': "s' = IRQ_end_of_interrupt P KEYBOARD_IRQ ?t"
    by (simp add: s'_def keyboard_handler_def split_beta Let_def port_only rd)
  have brk: "supported (Up c) \<Longrightarrow> c \<noteq> SC_BREAK" "supported (Down c) \<Longrightarrow> c \<noteq> SC_BREAK"
    by (auto simp: key_not_mod(2,3))
  have zero: "\<not> (scan_key c \<noteq> 0 \<and> scan_mod c \<noteq> 0)" using key_not_mod(1) [of c] by (cases "scan_key c = 0") simp_all
  have sh: "shift_held ?s = shift_held s" by (simp add: shift_held_def)
  have "dev (key_step k t) = dev t" for k and t :: "('a, 'b) kbd_state_scheme"
    by (cases "kb_release t"; cases "k = 0") (auto simp: key_step_press key_step_release)
  moreover have "dev (mod_step k t) = dev t" for k and t :: "('a, 'b) kbd_state_scheme"
    by (simp add: mod_step_def)
  ultimately have "dev ?t = ?d" by simp
  then show "scan (dev s') = cs" using ps2_eoi [OF P, of KEYBOARD_IRQ ?t] rd(2) by (simp only: s')
  show "c = SC_BREAK \<Longrightarrow> kb_release s' \<and> kb_buff s' = kb_buff s \<and> kb_mod_state s' = kb_mod_state s"
    by (simp add: s' key_not_mod)
  have held: "shift_held s' = shift_held ?t" by (simp add: s' shift_held_def)
  note M = mod_step_spec [where m = "scan_mod c" and s = "s\<lparr>dev := ?d\<rparr>", OF _ scan_mod_less]
  show "\<not> kb_release s' \<and> kb_buff s' = kb_buff s \<and> shift_held s' = shifted (shift_held s) (Up c)"
    if "kb_release s" "supported (Up c)"
  proof (cases "scan_key c = 0")
    case True
    with that brk M show ?thesis by (simp add: held) (simp add: s' shift_held_def)
  next
    case False
    with that brk zero show ?thesis by (simp add: held) (simp add: s' key_step_release shift_held_def shift_def)
  qed
  show "\<not> kb_release s' \<and>
       kb_buff s' = (if scan_key c \<noteq> 0 then put_char (key_char (shift_held s) (scan_key c)) (kb_buff s) else kb_buff s) \<and>
       shift_held s' = shifted (shift_held s) (Down c)"
    if "\<not> kb_release s" "supported (Down c)"
  proof (cases "scan_key c = 0")
    case True
    with that brk M show ?thesis by (simp add: held) (simp add: s' shift_held_def)
  next
    case False
    with that brk zero key_step_press [OF False, of ?s] show ?thesis
      by (simp add: held) (simp add: s' shift_held_def shift_def)
  qed
qed

lemma kbd_irqs_typed:
  assumes P: "ps2 P scan"
  shows "scan (dev s) = concat (map codes es) @ rest \<Longrightarrow> list_all supported es \<Longrightarrow> hands H es \<Longrightarrow> shift_held s = shift_down H \<Longrightarrow>
     cb_inv (kb_buff s) \<Longrightarrow> \<not> kb_release s \<Longrightarrow>
     (let s' = kbd_irqs (length (concat (map codes es))) P s
      in scan (dev s') = rest \<and> cb_inv (kb_buff s') \<and> \<not> kb_release s' \<and>
         keys_waiting s' = take (BUFF_SIZE - 1) (keys_waiting s @ typed H es) \<and>
         shift_held s' = shift_down (foldl press H es))"
proof (induction es arbitrary: s H)
  case Nil
  then show ?case using ring.within_cap [of "kb_buff s"] by (simp add: keys_waiting_def)
next
  case (Cons e es)
  let ?s = "kbd_irqs (length (codes e)) P s"
  have sh: "shifted (shift_held s) e = shift_down (press H e)" using shifted_hands [OF Cons.prems(3)] Cons.prems(4) by simp
  have tk: "take n (take n xs @ ys) = take n (xs @ ys)" for n and xs ys :: "u8 list"
    by (cases "length xs \<le> n") simp_all
  have step: "scan (dev ?s) = concat (map codes es) @ rest \<and> cb_inv (kb_buff ?s) \<and> \<not> kb_release ?s \<and>
      shift_held ?s = shift_down (press H e) \<and>
      keys_waiting ?s = take (BUFF_SIZE - 1) (keys_waiting s @
        (case e of Down c \<Rightarrow> (if scan_key c \<noteq> 0 then [key_char (shift_down H) (scan_key c)] else []) | Up c \<Rightarrow> []))"
  proof (cases e)
    case (Down c)
    note h = handler_code [OF P, of s c "concat (map codes es) @ rest"]
    have kd: "cb_list (kb_buff s) = take (BUFF_SIZE - 1) (cb_list (kb_buff s))"
      using ring.within_cap [OF Cons.prems(5)] by simp
    from h(1) h(4) Cons.prems sh Down put_char_list [OF Cons.prems(5)] kd show ?thesis
      by (simp add: keys_waiting_def)
  next
    case (Up c)
    let ?t = "keyboard_handler P s"
    note h = handler_code [OF P, of s SC_BREAK "c # concat (map codes es) @ rest"]
    note h' = handler_code [OF P, of ?t c "concat (map codes es) @ rest"]
    have kd: "cb_list (kb_buff s) = take (BUFF_SIZE - 1) (cb_list (kb_buff s))"
      using ring.within_cap [OF Cons.prems(5)] by simp
    from h(1,2) h'(1,3) Cons.prems sh Up kd show ?thesis by (simp add: keys_waiting_def shift_held_def)
  qed
  have l: "length (concat (map codes (e # es))) = length (codes e) + length (concat (map codes es))" by simp
  have eq: "take (BUFF_SIZE - 1) (keys_waiting ?s @ typed (press H e) es) =
      take (BUFF_SIZE - 1) (keys_waiting s @ typed H (e # es))"
    using step by (simp only: tk typed.simps append_assoc)
  show ?case
    unfolding l kbd_irqs_add
    using Cons.IH [of ?s "press H e"] step Cons.prems(2,3)
    by (simp only: Let_def eq [symmetric] foldl_Cons list.pred_inject(2) hands.simps simp_thms)
qed

section \<open>Setting up\<close>

text \<open>What talking to the controller leaves alone.\<close>

definition devices_only :: "('d, 'a) kbd_state_scheme \<Rightarrow> ('d, 'a) kbd_state_scheme \<Rightarrow> bool" where
  "devices_only s s' \<longleftrightarrow> (\<forall>d. s'\<lparr>dev := d\<rparr> = s\<lparr>dev := d\<rparr>)"

lemma devices_only_refl [simp]: "devices_only s s"
  by (simp add: devices_only_def)

lemma devices_only_ports [simp]:
  "devices_only s (outb P p b t) = devices_only s t" "devices_only s (snd (inb P p t)) = devices_only s t"
  "devices_only s (write_command P b t) = devices_only s t"
  "devices_only (outb P p b s) t = devices_only s t" "devices_only (snd (inb P p s)) t = devices_only s t"
  "devices_only (write_command P b s) t = devices_only s t"
  by (simp_all add: outb_def port_only write_command_def devices_only_def)

lemma devices_only_trans: "devices_only s t \<Longrightarrow> devices_only t u \<Longrightarrow> devices_only s u"
  by (simp add: devices_only_def)

lemma poll_only: "poll P w s = Some s' \<Longrightarrow> devices_only s s'"
proof (erule poll.raw_induct [where P = "\<lambda>P w s s'. devices_only s s'", rotated])
  fix poll :: "'a ports \<Rightarrow> (u8 \<Rightarrow> bool) \<Rightarrow> ('a, 'b) kbd_state_scheme \<Rightarrow> ('a, 'b) kbd_state_scheme option"
    and P w s s'
  assume IH: "\<And>P w s s'. poll P w s = Some s' \<Longrightarrow> devices_only s s'"
    and r: "(let (v, s) = inb P PS2_STATUS s in if w v then poll P w s else Some s) = Some s'"
  show "devices_only s s'"
  proof (cases "w (fst (inb P PS2_STATUS s))")
    case True
    with r have "poll P w (snd (inb P PS2_STATUS s)) = Some s'" by (simp add: split_beta)
    from devices_only_trans [OF _ IH [OF this], of s] show ?thesis by simp
  next
    case False
    with r have "s' = snd (inb P PS2_STATUS s)" by (simp add: split_beta)
    then show ?thesis by simp
  qed
qed

lemma read_data_only: "read_data P s = Some (v, s') \<Longrightarrow> devices_only s s'"
proof -
  assume "read_data P s = Some (v, s')"
  then obtain t where t: "poll P (\<lambda>v. v AND 0x1 = 0) s = Some t" and r: "inb P PS2_DATA t = (v, s')"
    by (auto simp: read_data_def)
  have "s' = snd (inb P PS2_DATA t)" by (simp add: r)
  with poll_only [OF t] show ?thesis by simp
qed

lemma write_data_only: "write_data P b s = Some s' \<Longrightarrow> devices_only s s'"
  by (auto simp: write_data_def dest: poll_only)

lemma write_tries_only: "write_tries P b n resp s = Some (v, s') \<Longrightarrow> devices_only s s'"
proof (induction n arbitrary: resp s)
  case 0
  then show ?case by (auto dest: write_data_only)
next
  case (Suc n)
  then obtain t r u where t: "write_data P b s = Some t" "read_data P t = Some (r, u)"
    and u: "(if r = KEYB_RESEND then write_tries P b n r u else Some (r, u)) = Some (v, s')"
    by (auto simp: bind_eq_Some_conv)
  have "devices_only u s'" using u Suc.IH [of r u] by (auto split: if_splits)
  with write_data_only [OF t(1)] read_data_only [OF t(2)] show ?case by (blast intro: devices_only_trans)
qed

lemma controller_only:
  assumes "init_ps2_controller P s = Some (res, s')"
  shows "devices_only s s' \<and> (res = 1 \<or> res = - 1 \<or> res = - 2)"
  using assms
  by (auto simp: init_ps2_controller_def Let_def split_beta bind_eq_Some_conv split: if_splits
      dest!: read_data_only write_data_only intro: devices_only_trans) (blast intro: devices_only_trans)+

lemma keyboard_only:
  assumes "init_ps2_keyboard P s = Some (res, s')"
  shows "devices_only s s' \<and> (res = 1 \<or> res \<in> {- 3, - 4, - 5, - 6})"
  using assms
  by (auto simp: init_ps2_keyboard_def write_keyboard_def bind_eq_Some_conv split: if_splits
      dest!: write_tries_only intro: devices_only_trans)

lemma kbd_handler_table [simp]:
  "irq_handler_table (init_wait_queue q s) = irq_handler_table s"
  "irq_handler_table (IRQ_clear_mask P irq s) = irq_handler_table s"
  "irq_handler_table (set_sys_call n f s) = irq_handler_table s"
  by (simp_all add: init_wait_queue_def IRQ_clear_mask_def set_sys_call_def port_only outb_def split_beta Let_def)

lemma devices_only_id: "s\<lparr>dev := dev s\<rparr> = s"
  by simp

lemma devices_only_fields:
  assumes "devices_only s t"
  shows "irq_handler_table t = irq_handler_table s" "kernel_text_offset t = kernel_text_offset s"
    "kb_buff t = kb_buff s" "sys_calls t = sys_calls s"
proof -
  have t: "t = s\<lparr>dev := dev t\<rparr>" using assms unfolding devices_only_def by (metis devices_only_id)
  show "irq_handler_table t = irq_handler_table s" "kernel_text_offset t = kernel_text_offset s"
    "kb_buff t = kb_buff s" "sys_calls t = sys_calls s"
    by (subst t, simp)+
qed

section \<open>Properties\<close>

text \<open>
  C20: Whatever keys the driver knows are pressed and released, the interrupts they cause put the text they stand for behind the
  characters that waited, up to the room of the ring, with the shifted characters while either shift key is held. Nothing
  of it is reordered, and the decoder is ready for the next key. The two shift keys are not held together: they share one
  bit. A key the driver does not know is not among them: after its release the next key would be lost.
\<close>

theorem keyboard_types_text:
  assumes "ps2 P scan" and "scan (dev s) = concat (map codes es) @ rest" and "list_all supported es"
    and "hands H es" and "shift_held s = shift_down H" and "cb_inv (kb_buff s)" and "\<not> kb_release s"
    and "s' = kbd_irqs (length (concat (map codes es))) P s"
  shows "keys_waiting s' = take (BUFF_SIZE - 1) (keys_waiting s @ typed H es) \<and>
     shift_held s' = shift_down (foldl press H es) \<and> scan (dev s') = rest \<and>
     cb_inv (kb_buff s') \<and> \<not> kb_release s'"
  using kbd_irqs_typed [OF assms(1-7)] by (simp add: Let_def assms(8))

definition ps2_ports :: "u8 list ports" where
  "ps2_ports = \<lparr>port_inb = \<lambda>p d. if p = PS2_DATA then (hd (d @ [0]), tl d) else (0, d), port_inw = \<lambda>_ d. (0, d),
     port_outb = \<lambda>_ _ d. d, port_outw = \<lambda>_ _ d. d\<rparr>"

definition kbd_example :: "u8 list \<Rightarrow> u8 list kbd_state" where
  "kbd_example d = \<lparr>sc_procs = (\<lambda>_. zero_process), sc_queue = \<lparr>q_head = NULL, q_tail = NULL\<rparr>,
     sc_current = NULL, pr_curr = NULL, pr_next = NULL, pr_pid = 0, pr_orig = 64, pr_waitq = (\<lambda>_. \<lparr>q_head = NULL, q_tail = NULL\<rparr>),
     pr_cpu = zero_regfile, dev = d, idt = [], irq_handler_table = replicate 256 \<lparr>ih_arg = NULL, ih_handler = NULL\<rparr>,
     kernel_text_offset = 0, idt_loaded = False, sys_calls = [],
     ser_buff = \<lparr>buff = replicate 1024 0, read_head = 0, write_head = 0\<rparr>, ser_status = IDLE, ser_blocked = 128,
     kb_blocked = 256, kb_buff = \<lparr>buff = replicate 1024 0, read_head = 0, write_head = 0\<rparr>,
     kb_mod_state = 0, kb_key_state = 0, kb_release = False\<rparr>"

lemma ps2_ports_ok: "ps2 ps2_ports (\<lambda>d. d)"
  by (simp add: ps2_def ps2_ports_def)

lemma kbd_example_ok: "cb_inv (kb_buff (kbd_example d))" "\<not> kb_release (kbd_example d)" "keys_waiting (kbd_example d) = []"
    "\<not> shift_held (kbd_example d)" "dev (kbd_example d) = d"
  by (simp_all add: kbd_example_def cb_inv_def BUFF_SIZE_def keys_waiting_def cb_list_def cb_count_def
      shift_held_def TEST_BIT_def)

theorem keyboard_types_text_witness:
  "keys_waiting (kbd_irqs 6 ps2_ports (kbd_example [0x12, 0x33, 0xF0, 0x12, 0x43, 0x16])) = [72, 105, 49]"
proof -
  let ?es = "[Down 0x12, Down 0x33, Up 0x12, Down 0x43, Down 0x16]"
  have c: "concat (map codes ?es) = [0x12, 0x33, 0xF0, 0x12, 0x43, 0x16]" by (simp add: SC_BREAK_def)
  have l: "length [0x12, 0x33, 0xF0, 0x12, 0x43, 0x16 :: u8] = 6" by simp
  have sp: "list_all supported ?es"
    by (simp add: scan_key_def scan_mod_def scan_keys_val scan_mods_def shift_def)
  have h: "hands {} ?es" by simp
  have "shift_held (kbd_example [0x12, 0x33, 0xF0, 0x12, 0x43, 0x16]) = shift_down {}" by (simp add: kbd_example_ok shift_down_def)
  from keyboard_types_text [OF ps2_ports_ok _ sp h this kbd_example_ok(1,2) refl, unfolded c l, of "[]"]
  have "keys_waiting (kbd_irqs 6 ps2_ports (kbd_example [0x12, 0x33, 0xF0, 0x12, 0x43, 0x16])) = take 1023 (typed {} ?es)"
    by (simp add: kbd_example_ok BUFF_SIZE_def)
  then show ?thesis
    by (simp add: scan_key_def scan_mod_def scan_keys_val scan_mods_def shift_def key_char_def ascii_def
        ASCII_shift_def upt_rec shift_down_def)
qed

text \<open>
  \<^verbatim>\<open>getc\<close> returns the oldest character, sign extended, and takes it out of the ring. It does not
  block when a character waits; when none does, the thread blocks and returns the first character
  there is once it runs again.
\<close>

theorem getc_returns_oldest:
  assumes "cb_inv (kb_buff s)"
    and "t = (if keys_waiting s = [] then resume (PROC_block_on (kb_blocked s) True (CLI s)) else s)"
    and "cb_inv (kb_buff t)" and "keys_waiting t = c # cs"
  shows "\<exists>s'. getc_sys_call resume chr s = Some (scast c, s') \<and> keys_waiting s' = cs \<and> cb_inv (kb_buff s')"
proof -
  have e: "is_buffer_empty (kb_buff s) \<longleftrightarrow> keys_waiting s = []" "\<not> is_buffer_empty (kb_buff t)"
    using cb_empty_iff [OF assms(1)] cb_empty_iff [OF assms(3)] assms(4) by (simp_all add: keys_waiting_def)
  have "wait_loop (\<lambda>s. CLI (resume s)) (PROC_block_on (kb_blocked s) True) (\<lambda>s. is_buffer_empty (kb_buff s)) (CLI s) = Some (CLI t)"
  proof (cases "keys_waiting s = []")
    case True
    with e assms(2) show ?thesis by (subst wait_loop.simps, simp) (subst wait_loop.simps, simp)
  next
    case False
    with e assms(2) show ?thesis by (subst wait_loop.simps) simp
  qed
  then have w: "wait_event_interruptable resume (kb_blocked s) (\<lambda>s. is_buffer_empty (kb_buff s)) s = Some (STI (CLI t))"
    by (simp add: wait_event_interruptable_def)
  obtain d b where r: "consumer_read (kb_buff t) = Some (d, b)"
    using e(2) by (simp add: consumer_read_def Let_def)
  with ring.rd_Some [OF assms(3) r] assms(4) show ?thesis
    by (simp add: getc_sys_call_def w keys_waiting_def)
qed

theorem getc_returns_oldest_witness:
  "\<exists>s'. getc_sys_call (\<lambda>s. s\<lparr>kb_buff := put_char 65 (kb_buff s)\<rparr>) 0 (kbd_example []) = Some (65, s') \<and> keys_waiting s' = []"
proof -
  let ?r = "\<lambda>s :: u8 list kbd_state. s\<lparr>kb_buff := put_char 65 (kb_buff s)\<rparr>"
  let ?t = "?r (PROC_block_on (kb_blocked (kbd_example [])) True (CLI (kbd_example [])))"
  have t: "?t = (if keys_waiting (kbd_example []) = [] then ?t else kbd_example [])" by (simp add: kbd_example_ok)
  have p: "cb_inv (kb_buff ?t)" "keys_waiting ?t = [65]"
    using put_char_list [OF kbd_example_ok(1), of 65 "[]"] kbd_example_ok(3) [of "[]"]
    by (simp_all add: keys_waiting_def BUFF_SIZE_def del: take_Cons' take_Suc_Cons length_cb_list)
  from getc_returns_oldest [where resume = ?r, OF kbd_example_ok(1) t p, of 0] show ?thesis by auto
qed

text \<open>
  Every scan code indexes both character tables within their bounds and is a key or a modifier,
  not both, and every printable character can be typed, with or without shift.
\<close>

theorem scan_tables_in_bounds:
  "scan_key c < length ascii \<and> scan_key c < length ASCII_shift \<and> scan_mod c < 8 \<and>
   (scan_key c = 0 \<or> scan_mod c = 0) \<and>
   map of_nat [32..<127] \<in> lists ((\<lambda>(sh, c). key_char sh (scan_key c)) ` UNIV)"
proof -
  have tl: "x \<in> (\<lambda>(sh, c). key_char sh (scan_key c)) ` UNIV" if "x \<in> set (tl ascii) \<union> set (tl ASCII_shift)" for x
  proof -
    have "\<exists>k < 51. x = ascii ! Suc k \<or> x = ASCII_shift ! Suc k"
      using that by (auto simp: in_set_conv_nth nth_tl table_lengths)
    then have "\<exists>k sh. k < 51 \<and> x = key_char sh (Suc k)"
      unfolding key_char_def by (metis (full_types))
    then obtain k sh where k: "k < 51" "x = key_char sh (Suc k)" by blast
    then obtain c where "scan_key c = Suc k" using every_key [of "Suc k"] by auto
    with k have "x = (\<lambda>(sh, c). key_char sh (scan_key c)) (sh, c)" by simp
    then show ?thesis by (rule image_eqI) simp
  qed
  have typeable: "map of_nat [32..<127] \<in> lists ((\<lambda>(sh, c). key_char sh (scan_key c)) ` UNIV)"
    unfolding in_lists_conv_set using tl subsetD [OF printable_keys] by blast
  have "scan_key c < length ascii \<and> scan_key c < length ASCII_shift \<and> scan_mod c < 8"
    using scan_key_less [of c] scan_mod_less [of c] by (simp add: table_lengths)
  moreover have "scan_key c = 0 \<or> scan_mod c = 0"
    using key_not_mod(1) [of c] by (cases "scan_key c = 0") simp_all
  ultimately show ?thesis using typeable by blast
qed

subsection \<open>What setting up the keyboard leaves alone\<close>

text \<open>The ports of the keyboard and of the interrupt controllers have no effect on the part of the devices that \<open>view\<close> shows.\<close>

definition kbd_quiet :: "'d ports \<Rightarrow> ('d \<Rightarrow> 'v) \<Rightarrow> bool" where
  "kbd_quiet P view \<longleftrightarrow> (\<forall>p \<in> {PS2_STATUS, PS2_DATA, PIC1_DATA, PIC2_DATA}. \<forall>d.
     view (snd (port_inb P p d)) = view d \<and> (\<forall>b. view (port_outb P p b d) = view d))"

definition view_kept :: "('d \<Rightarrow> 'v) \<Rightarrow> ('d, 'a) dev_state_scheme \<Rightarrow> ('d, 'a) dev_state_scheme \<Rightarrow> bool" where
  "view_kept view s t \<longleftrightarrow> view (dev t) = view (dev s)"

lemma view_kept_trans: "view_kept view s t \<Longrightarrow> view_kept view t u \<Longrightarrow> view_kept view s u"
  by (simp add: view_kept_def)

lemma quiet_ports:
  assumes "kbd_quiet P view"
  shows "view_kept view s (outb P PS2_DATA b s)" "view_kept view s (write_command P b s)"
    "view_kept view s (snd (inb P PS2_DATA s))" "view_kept view s (snd (inb P PS2_STATUS s))"
    "view_kept view s (IRQ_clear_mask P irq s)"
proof -
  have c: "PS2_COMMAND = PS2_STATUS" by (simp add: PS2_COMMAND_def PS2_STATUS_def)
  have p: "fst (irq_port irq) \<in> {PS2_STATUS, PS2_DATA, PIC1_DATA, PIC2_DATA}" by (simp add: irq_port_def Let_def)
  show "view_kept view s (outb P PS2_DATA b s)" "view_kept view s (write_command P b s)"
    "view_kept view s (snd (inb P PS2_DATA s))" "view_kept view s (snd (inb P PS2_STATUS s))"
    using assms by (simp_all add: view_kept_def kbd_quiet_def outb_def port_only write_command_def c)
  show "view_kept view s (IRQ_clear_mask P irq s)"
    using assms p by (auto simp: view_kept_def IRQ_clear_mask_def split_beta Let_def kbd_quiet_def outb_def port_only)
qed

lemma quiet_steps:
  assumes q: "kbd_quiet P view"
  shows "view_kept view (write_command P b s) t \<longleftrightarrow> view_kept view s t" "view_kept view s (write_command P b t) \<longleftrightarrow> view_kept view s t"
    "view_kept view (snd (inb P PS2_DATA s)) t \<longleftrightarrow> view_kept view s t"
  by (simp_all add: view_kept_def quiet_ports(2,3) [OF q, unfolded view_kept_def])

lemma kbd_tables_dev [simp]:
  "dev (IRQ_set_handler n a b s) = dev s" "dev (set_sys_call m a s) = dev s" "dev (init_wait_queue w s) = dev s"
  by (simp_all add: IRQ_set_handler_def set_sys_call_def init_wait_queue_def)

lemma poll_quiet:
  assumes q: "kbd_quiet P view" and r: "poll P w s = Some s'"
  shows "view_kept view s s'"
proof -
  have "P' = P \<longrightarrow> view_kept view s t" if "poll P' w s = Some t" for P' and w and s t :: "('a, 'c) kbd_state_scheme"
    using that
  proof (rule poll.raw_induct [where P = "\<lambda>P' w s t. P' = P \<longrightarrow> view_kept view s t", rotated])
    fix f P' w t and s :: "('a, 'c) kbd_state_scheme"
    assume i: "\<And>P' w s t. f P' w s = Some t \<Longrightarrow> P' = P \<longrightarrow> view_kept view s t"
      and e: "(let (v, s) = inb P' PS2_STATUS s in if w v then f P' w s else Some s) = Some t"
    show "P' = P \<longrightarrow> view_kept view s t"
      using e i quiet_ports(4) [OF q, of s] by (auto simp: split_beta split: if_splits intro: view_kept_trans)
  qed
  from this [OF r] show ?thesis by simp
qed

lemma data_quiet:
  assumes "kbd_quiet P view"
  shows "read_data P s = Some (v, s') \<Longrightarrow> view_kept view s s'" "write_data P b s = Some s' \<Longrightarrow> view_kept view s s'"
proof -
  assume "read_data P s = Some (v, s')"
  then obtain t where t: "poll P (\<lambda>v. v AND 0x1 = 0) s = Some t" and r: "inb P PS2_DATA t = (v, s')" by (auto simp: read_data_def)
  have "s' = snd (inb P PS2_DATA t)" by (simp add: r)
  with view_kept_trans [OF poll_quiet [OF assms t] quiet_ports(3) [OF assms]] show "view_kept view s s'" by simp
qed (auto simp: write_data_def intro: view_kept_trans quiet_ports [OF assms] dest: poll_quiet [OF assms])

lemma write_tries_quiet:
  assumes q: "kbd_quiet P view"
  shows "write_tries P b n resp s = Some (v, s') \<Longrightarrow> view_kept view s s'"
proof (induction n arbitrary: resp s)
  case (Suc n)
  then obtain t r u where t: "write_data P b s = Some t" "read_data P t = Some (r, u)"
    and u: "(if r = KEYB_RESEND then write_tries P b n r u else Some (r, u)) = Some (v, s')" by (auto simp: bind_eq_Some_conv)
  have "r = KEYB_RESEND \<Longrightarrow> view_kept view u s'" "r \<noteq> KEYB_RESEND \<Longrightarrow> u = s'" using u Suc.IH [of r u] by auto
  with view_kept_trans [OF data_quiet(2,1) [OF q] , OF t] show ?case by (metis view_kept_trans)
qed (auto dest: data_quiet(2) [OF q])

lemma controller_quiet:
  assumes q: "kbd_quiet P view" and r: "init_ps2_controller P s = Some (res, s')"
  shows "view_kept view s s'"
  using r by (auto simp: init_ps2_controller_def Let_def split_beta bind_eq_Some_conv split: if_splits
      simp: quiet_steps [OF q] dest!: data_quiet [OF q]) (blast intro: view_kept_trans)+

lemma keyboard_quiet:
  assumes q: "kbd_quiet P view" and r: "init_ps2_keyboard P s = Some (res, s')"
  shows "view_kept view s s'"
  using r by (auto simp: init_ps2_keyboard_def write_keyboard_def bind_eq_Some_conv split: if_splits
      dest!: write_tries_quiet [OF q] intro: view_kept_trans)

text \<open>Only the devices, the empty wait queue of the keyboard, its ring and its entries in the tables change.\<close>

definition kbd_setup_only :: "('d, 'a) kbd_state_scheme \<Rightarrow> ('d, 'a) kbd_state_scheme \<Rightarrow> bool" where
  "kbd_setup_only i j \<longleftrightarrow> (\<exists>d b c h. j = (init_wait_queue (kb_blocked i) i)\<lparr>dev := d, kb_buff := b, sys_calls := c, irq_handler_table := h\<rparr>)"

lemma KBD_init_only:
  assumes r: "KBD_init P getc handler i = Some (res, j)"
  shows "kbd_setup_only i j"
proof -
  let ?s = "set_sys_call GETC_SYS_CALL getc ((init_wait_queue (kb_blocked i) i)\<lparr>kb_buff := init_buff (kb_buff (init_wait_queue (kb_blocked i) i))\<rparr>)"
  have dv: "\<exists>d. t = s\<lparr>dev := d\<rparr>" if "devices_only s t" for s t :: "('a, 'b) kbd_state_scheme"
    using that unfolding devices_only_def by (metis devices_only_id)
  have ok: "kbd_setup_only i (?s\<lparr>dev := d, irq_handler_table := h\<rparr>)" for d h
    unfolding kbd_setup_only_def set_sys_call_def
    by (rule exI [of _ d], rule exI [of _ "kb_buff ?s"], rule exI [of _ "sys_calls ?s"], rule exI [of _ h]) (simp add: set_sys_call_def)
  from r obtain c t where c: "init_ps2_controller P ?s = Some (c, t)"
    and k: "(if c \<noteq> 1 then Some (c, t) else Option.bind (init_ps2_keyboard P t) (\<lambda>(res, s). if res \<noteq> 1 then Some (res, s)
         else Some (1, IRQ_clear_mask P KEYBOARD_IRQ (IRQ_set_handler KEYBOARD_IRQ handler NULL s)))) = Some (res, j)"
    unfolding KBD_init_def Let_def by (auto simp: bind_eq_Some_conv)
  from dv controller_only [OF c] obtain d where t: "t = ?s\<lparr>dev := d\<rparr>" by blast
  have "\<exists>d h. j = t\<lparr>dev := d, irq_handler_table := h\<rparr>"
  proof (cases "c = 1")
    case False
    with k have "j = t\<lparr>dev := dev t, irq_handler_table := irq_handler_table t\<rparr>" by simp
    then show ?thesis by blast
  next
    case True
    with k obtain e u where u: "init_ps2_keyboard P t = Some (e, u)"
      and j: "j = (if e \<noteq> 1 then u else IRQ_clear_mask P KEYBOARD_IRQ (IRQ_set_handler KEYBOARD_IRQ handler NULL u))"
      by (auto simp: bind_eq_Some_conv split: if_splits)
    from dv keyboard_only [OF u] obtain d where ud: "u = t\<lparr>dev := d\<rparr>" by blast
    have "\<exists>d h. IRQ_clear_mask P KEYBOARD_IRQ (IRQ_set_handler KEYBOARD_IRQ handler NULL u) = t\<lparr>dev := d, irq_handler_table := h\<rparr>"
    proof -
      let ?v = "IRQ_clear_mask P KEYBOARD_IRQ (IRQ_set_handler KEYBOARD_IRQ handler NULL u)"
      have "?v = t\<lparr>dev := dev ?v, irq_handler_table := irq_handler_table ?v\<rparr>"
        by (simp add: IRQ_clear_mask_def IRQ_set_handler_def outb_def inb_def split_beta Let_def ud)
      then show ?thesis by blast
    qed
    moreover have "u = t\<lparr>dev := d, irq_handler_table := irq_handler_table t\<rparr>" by (simp add: ud)
    ultimately show ?thesis using j by (cases "e \<noteq> 1") metis+
  qed
  then show ?thesis using ok by (auto simp: t)
qed

lemma KBD_init_quiet:
  assumes q: "kbd_quiet P view" and r: "KBD_init P getc handler i = Some (res, j)"
  shows "view (dev j) = view (dev i)"
proof -
  have "view_kept view i j"
    using r by (auto simp: KBD_init_def Let_def bind_eq_Some_conv view_kept_def quiet_ports(5) [OF q, unfolded view_kept_def] split: if_splits
      dest!: controller_quiet [OF q] keyboard_quiet [OF q])
  then show ?thesis by (simp add: view_kept_def)
qed

lemma kbd_setup_inv:
  assumes o: "kbd_setup_only i j" and p: "proc_inv i R W" and w: "W (kb_blocked i) = []"
  shows "proc_inv j R W" "sc_procs j = sc_procs i" "pr_orig j = pr_orig i"
proof -
  from o obtain d b c h where j: "j = (init_wait_queue (kb_blocked i) i)\<lparr>dev := d, kb_buff := b, sys_calls := c, irq_handler_table := h\<rparr>"
    by (auto simp: kbd_setup_only_def)
  show "sc_procs j = sc_procs i" "pr_orig j = pr_orig i" by (simp_all add: j init_wait_queue_def)
  show "proc_inv j R W"
    using p w unfolding j proc_inv_def by (auto simp: init_wait_queue_def sched_inv_def PROC_init_queue_def queue_repr_def)
qed

subsection \<open>The keyboard answers\<close>

text \<open>The controller takes a byte and has one after some number \<open>wait\<close> of reads of its status.\<close>

definition ps2_answers :: "'d ports \<Rightarrow> ('d \<Rightarrow> nat) \<Rightarrow> bool" where
  "ps2_answers P wait \<longleftrightarrow> (\<forall>d st d'. port_inb P PS2_STATUS d = (st, d') \<longrightarrow>
     (if wait d = 0 then st AND 0x1 \<noteq> 0 \<and> st AND 0x2 = 0 else wait d' < wait d))"

lemma poll_ends:
  assumes a: "ps2_answers P wait" and w: "\<And>v. v AND 0x1 \<noteq> 0 \<Longrightarrow> v AND 0x2 = 0 \<Longrightarrow> \<not> w v"
  shows "\<exists>s'. poll P w s = Some s'"
proof (induction "wait (dev s)" arbitrary: s rule: less_induct)
  case less
  obtain st d' where r: "port_inb P PS2_STATUS (dev s) = (st, d')" by fastforce
  with a have st: "if wait (dev s) = 0 then st AND 0x1 \<noteq> 0 \<and> st AND 0x2 = 0 else wait d' < wait (dev s)" by (simp add: ps2_answers_def)
  show ?case
  proof (cases "wait (dev s) = 0")
    case True
    with st w r show ?thesis by (subst poll.simps) (simp add: inb_def)
  next
    case False
    with st less.hyps [of "s\<lparr>dev := d'\<rparr>"] r show ?thesis by (subst poll.simps) (simp add: inb_def)
  qed
qed

lemma data_ends:
  assumes "ps2_answers P wait"
  shows "\<exists>v s'. read_data P s = Some (v, s')" "\<exists>s'. write_data P b s = Some s'"
proof -
  obtain t where "poll P (\<lambda>v. v AND 0x1 = 0) s = Some t" using poll_ends [OF assms, of "\<lambda>v. v AND 0x1 = 0"] by auto
  then show "\<exists>v s'. read_data P s = Some (v, s')" by (simp add: read_data_def)
  obtain t where "poll P (\<lambda>v. v AND 0x2 \<noteq> 0) s = Some t" using poll_ends [OF assms, of "\<lambda>v. v AND 0x2 \<noteq> 0"] by auto
  then show "\<exists>s'. write_data P b s = Some s'" by (simp add: write_data_def)
qed

lemma write_tries_ends:
  assumes a: "ps2_answers P wait"
  shows "\<exists>v s'. write_tries P b n resp s = Some (v, s')"
proof (induction n arbitrary: resp s)
  case 0
  show ?case using data_ends(2) [OF a, of b s] by auto
next
  case (Suc n)
  obtain t r u where "write_data P b s = Some t" "read_data P t = Some (r, u)" using data_ends [OF a] by metis
  with Suc.IH [of r u] show ?case by (cases "r = KEYB_RESEND") simp_all
qed

lemma KBD_init_ends:
  assumes a: "ps2_answers P wait"
  shows "\<exists>res s'. KBD_init P getc handler s = Some (res, s')"
proof -
  have c: "\<exists>res s'. init_ps2_controller P s = Some (res, s')" for s :: "('a, 'b) kbd_state_scheme"
  proof -
    let ?s = "write_command P CMD_WRITE_CONFIG_BYTE (snd (inb P PS2_DATA (write_command P CMD_READ_CONFIG_BYTE (snd (inb P PS2_DATA
      (write_command P CMD_DISABLE_P2 (write_command P CMD_DISABLE_P1 s)))))))"
    let ?c = "fst (inb P PS2_DATA (write_command P CMD_READ_CONFIG_BYTE (snd (inb P PS2_DATA
      (write_command P CMD_DISABLE_P2 (write_command P CMD_DISABLE_P1 s))))))"
    obtain t u v where "write_data P ((?c OR (CFG_CLK1 OR CFG_INT1)) AND NOT (CFG_CLK2 OR CFG_INT2 OR CFG_TRANS)) ?s = Some t"
      "read_data P (write_command P CMD_TEST_PS2 t) = Some (v, u)" using data_ends [OF a] by metis
    moreover obtain w x where "read_data P (write_command P CMD_TEST_P1 u) = Some (w, x)" using data_ends(1) [OF a] by blast
    ultimately show ?thesis by (simp add: init_ps2_controller_def Let_def split_beta)
  qed
  have k: "\<exists>res s'. init_ps2_keyboard P s = Some (res, s')" for s :: "('a, 'b) kbd_state_scheme"
  proof -
    have w: "\<exists>v s'. write_keyboard P b s = Some (v, s')" for b and s :: "('a, 'b) kbd_state_scheme"
      unfolding write_keyboard_def by (rule write_tries_ends [OF a])
    obtain r1 s1 r2 s2 r3 s3 r4 s4 where "write_keyboard P CMD_RST_KEYBOARD s = Some (r1, s1)" "write_keyboard P CMD_SCANCODE s1 = Some (r2, s2)"
      "write_keyboard P SUBCMD_SET_SCANCODE_2 s2 = Some (r3, s3)" "write_keyboard P CMD_ENABLE_SCAN s3 = Some (r4, s4)" using w by metis
    then show ?thesis by (simp add: init_ps2_keyboard_def)
  qed
  let ?s = "set_sys_call GETC_SYS_CALL getc ((init_wait_queue (kb_blocked s) s)\<lparr>kb_buff := init_buff (kb_buff (init_wait_queue (kb_blocked s) s))\<rparr>)"
  obtain r t where "init_ps2_controller P ?s = Some (r, t)" using c by blast
  moreover obtain r' u where "init_ps2_keyboard P t = Some (r', u)" using k by blast
  ultimately show ?thesis by (simp add: KBD_init_def Let_def)
qed

text \<open>
  Initialising the keyboard reports 1 or one of the six documented errors; on an error no
  interrupt handler is installed, on success exactly the keyboard's is; the ring is empty in
  either case.
\<close>

theorem KBD_init_result:
  assumes "KBD_init P getc handler s = Some (res, s')" and "length (buff (kb_buff s)) = BUFF_SIZE"
  shows "res \<in> {1, - 1, - 2, - 3, - 4, - 5, - 6} \<and> keys_waiting s' = [] \<and> cb_inv (kb_buff s') \<and>
     sys_calls s' = (sys_calls s)[1 := getc] \<and>
     irq_handler_table s' =
       (if res = 1 then (irq_handler_table s)[33 := \<lparr>ih_arg = NULL, ih_handler = handler + kernel_text_offset s\<rparr>]
        else irq_handler_table s)"
proof -
  let ?s = "set_sys_call GETC_SYS_CALL getc (init_wait_queue (kb_blocked s) s
    \<lparr>kb_buff := init_buff (kb_buff (init_wait_queue (kb_blocked s) s))\<rparr>)"
  have kb: "kb_buff (init_wait_queue q t) = kb_buff t" "kb_buff (set_sys_call n f t) = kb_buff t"
    "kernel_text_offset (init_wait_queue q t) = kernel_text_offset t" "sys_calls (init_wait_queue q t) = sys_calls t"
    "sys_calls (set_sys_call n f t) = (sys_calls t)[unat n := f]"
    "kernel_text_offset (set_sys_call n f t) = kernel_text_offset t"
    "kb_buff (IRQ_clear_mask Q i t) = kb_buff t" "sys_calls (IRQ_clear_mask Q i t) = sys_calls t"
    for q n f i and Q :: "'a ports" and t :: "('a, 'b) kbd_state_scheme"
    by (simp_all add: init_wait_queue_def set_sys_call_def IRQ_clear_mask_def port_only outb_def split_beta Let_def)
  obtain r t where c: "init_ps2_controller P ?s = Some (r, t)"
    and t: "(if r \<noteq> 1 then Some (r, t) else Option.bind (init_ps2_keyboard P t) (\<lambda>(res, s).
         if res \<noteq> 1 then Some (res, s)
         else Some (1, IRQ_clear_mask P KEYBOARD_IRQ (IRQ_set_handler KEYBOARD_IRQ handler NULL s)))) = Some (res, s')"
    using assms(1) unfolding KBD_init_def Let_def by (auto simp: bind_eq_Some_conv)
  note f = devices_only_fields [OF conjunct1 [OF controller_only [OF c]]]
  have inv: "cb_inv (init_buff (kb_buff s))" "cb_list (init_buff (kb_buff s)) = []"
    using init_buff_inv [OF assms(2)] by auto
  have num: "unat GETC_SYS_CALL = 1" "unat KEYBOARD_IRQ = 33" by (simp_all add: GETC_SYS_CALL_def KEYBOARD_IRQ_def)
  show ?thesis
  proof (cases "r = 1")
    case False
    with t have "res = r" "s' = t" by auto
    with f controller_only [OF c] inv False show ?thesis by (auto simp: kb keys_waiting_def num)
  next
    case True
    with t obtain r' u where k: "init_ps2_keyboard P t = Some (r', u)"
      and u: "(if r' \<noteq> 1 then Some (r', u) else
         Some (1, IRQ_clear_mask P KEYBOARD_IRQ (IRQ_set_handler KEYBOARD_IRQ handler NULL u))) = Some (res, s')"
      by (auto simp: bind_eq_Some_conv)
    note g = devices_only_fields [OF conjunct1 [OF keyboard_only [OF k]]]
    show ?thesis
    proof (cases "r' = 1")
      case False
      with u have "res = r'" "s' = u" by auto
      with f g keyboard_only [OF k] inv False show ?thesis by (auto simp: kb keys_waiting_def num)
    next
      case True
      with u have "res = 1" "s' = IRQ_clear_mask P KEYBOARD_IRQ (IRQ_set_handler KEYBOARD_IRQ handler NULL u)" by auto
      with f g inv show ?thesis by (simp add: kb keys_waiting_def num IRQ_set_handler_def)
    qed
  qed
qed

theorem KBD_init_result_witness:
  "\<exists>s'. KBD_init \<lparr>port_inb = \<lambda>_ d. (1, d), port_inw = \<lambda>_ d. (0, d), port_outb = \<lambda>_ _ d. d, port_outw = \<lambda>_ _ d. d\<rparr>
      4096 8192 (kbd_example []) = Some (- 1, s') \<and> irq_handler_table s' = irq_handler_table (kbd_example [])"
proof -
  let ?P = "\<lparr>port_inb = \<lambda>_ d. (1, d), port_inw = \<lambda>_ d. (0, d), port_outb = \<lambda>_ _ d. d, port_outw = \<lambda>_ _ d. d\<rparr> :: u8 list ports"
  have "\<exists>s'. KBD_init ?P 4096 8192 (kbd_example []) = Some (- 1, s')"
    by (simp add: KBD_init_def init_ps2_controller_def write_data_def read_data_def poll.simps inb_def outb_def
        write_command_def PS2_TEST_PASS_def Let_def)
  then obtain s' where r: "KBD_init ?P 4096 8192 (kbd_example []) = Some (- 1, s')" by blast
  have "length (buff (kb_buff (kbd_example []))) = BUFF_SIZE" by (simp add: kbd_example_def BUFF_SIZE_def)
  from KBD_init_result [OF r this] r show ?thesis by auto
qed

end
