(* ===== verification/Kernel_Main.thy ===== *)
theory Kernel_Main
  imports User_Mode Keyboard
begin

text \<open>
  The kernel's main program (\<^verbatim>\<open>kernel.c\<close>): \<^verbatim>\<open>kmain_thread\<close>, the first thread, brings up the disk, the first partition and its
  file system, then the keyboard, and runs \<^verbatim>\<open>/bin/init.bin\<close> in user mode. The components it calls share one state.
\<close>

section \<open>The first thread\<close>

definition PRIMARY_BASE :: u16 where "PRIMARY_BASE = 0x1F0"

definition sda_name :: "u8 list" where "sda_name = [115, 100, 97]"
definition init_path :: "u8 list" where "init_path = [47, 98, 105, 110, 47, 105, 110, 105, 116, 46, 98, 105, 110]"

type_synonym ('d, 'b, 'a) main_state = "('d, 'b kbd_state_ext ser_state_ext, 'a) kernel_scheme"
type_synonym ('d, 'b) main_fat = "(('d, 'b) kbd_state_scheme, path_search) fat_state_scheme"
type_synonym ('d, 'b) detector = "('d, 'b) kbd_state_scheme reader \<Rightarrow> ('d, 'b) main_fat \<Rightarrow> (fat_superblock option \<times> ('d, 'b) main_fat) res option"

text \<open>
  \<open>bl\<close> and \<open>fl\<close> are the lists of block devices and file systems, \<open>node\<close>, \<open>nodes\<close> and \<open>fs_node\<close> the addresses of the structures
  that are put into them, \<open>block0\<close>, \<open>sector0\<close>, \<open>bufs\<close>, \<open>junk\<close>, \<open>header\<close> and \<open>ph\<close> what uninitialised locals hold, and \<open>getc\<close> and
  \<open>handler\<close> the addresses of the keyboard's functions. The result is the frame that \<^verbatim>\<open>iretq\<close> takes, or \<open>None\<close> when the thread
  returns; of a keyboard that does not start only a message is printed.
\<close>

definition kmain_thread ::
    "'d ports \<Rightarrow> ptr \<Rightarrow> (nat \<Rightarrow> ptr) \<Rightarrow> ptr \<Rightarrow> u8 list \<Rightarrow> u8 list \<Rightarrow> (u8 list \<Rightarrow> u8 list \<times> u8 list) \<Rightarrow> (nat \<Rightarrow> u8 list) \<Rightarrow> u8 list \<Rightarrow> u8 list \<Rightarrow>
     ptr \<Rightarrow> ptr \<Rightarrow> ll \<Rightarrow> ll \<times> (ptr \<Rightarrow> ('d, 'b) detector) \<Rightarrow> ('d, 'b) main_fat \<Rightarrow> ('d, 'b, 'a) main_state \<Rightarrow>
     (iret_frame option \<times> ll \<times> (ll \<times> (ptr \<Rightarrow> ('d, 'b) detector)) \<times> ('d, 'b) main_fat \<times> ('d, 'b, 'a) main_state) res option" where
  "kmain_thread P node nodes fs_node block0 sector0 bufs junk header ph getc handler bl fl st s =
     (case ATA_probe P node PRIMARY_BASE 0 sda_name bl (k_irq s) of
        None \<Rightarrow> None
      | Some (None, bl, i) \<Rightarrow> Some (Inr (None, bl, fl, st, s\<lparr>k_irq := i\<rparr>))
      | Some (Some drive, bl, i) \<Rightarrow>
          bind_ro (parse_MBR P block0 node nodes drive bl i) (\<lambda>((r, partitions, bl), i).
            if r \<noteq> 1 then Some (Inr (None, bl, fl, st, s\<lparr>k_irq := i\<rparr>))
            else
              let fl = FS_register fs_node (\<lambda>rd. FAT_detect rd sector0) fl
              in case partitions ! 0 of
                   None \<Rightarrow> Some (Inl BadAccess)
                 | Some p \<Rightarrow>
                     bind_ro (FS_probe (fst fl) (\<lambda>n. snd fl n (part_read_block P p)) (st\<lparr>io := i\<rparr>)) (\<lambda>(superblock, st).
                       case superblock of
                         None \<Rightarrow> Some (Inr (None, bl, fl, st, s\<lparr>k_irq := io st\<rparr>))
                       | Some sb \<Rightarrow>
                           Option.bind (KBD_init P getc handler (io st)) (\<lambda>(_, i).
                             bind_ro (setup_userspace (part_read_block P p) sb bufs junk header ph (sb_root sb) init_path st (s\<lparr>k_irq := i\<rparr>))
                               (\<lambda>(frame, st, s). Some (Inr (frame, bl, fl, st, s)))))))"

section \<open>What it finds\<close>

text \<open>A drive that answers and knows 48 bit block numbers, with a boot record whose first entry is a partition inside it.\<close>

definition sda_drive :: "u16 list \<Rightarrow> ata_block_dev" where
  "sda_drive idw = drive_of PRIMARY_BASE 0 sda_name idw"

definition sda_present :: "'d ports \<Rightarrow> u16 list \<Rightarrow> (u64 \<Rightarrow> u16 list) \<Rightarrow> ('d \<Rightarrow> ata_regs) \<Rightarrow> bool" where
  "sda_present P idw disk view \<longleftrightarrow> ata_answers P PRIMARY_BASE 0 idw view \<and> ata_drive P (sda_drive idw) disk view \<and>
     idw ! 83 AND 0x400 \<noteq> 0 \<and> 0 < sectors_of idw"

definition first_partition :: "u16 list \<Rightarrow> (u64 \<Rightarrow> u16 list) \<Rightarrow> part_block_dev \<Rightarrow> bool" where
  "first_partition idw disk p \<longleftrightarrow> bytes_of (disk 0) ! 510 = 0x55 \<and> bytes_of (disk 0) ! 511 = 0xAA \<and>
     partition_of (sda_drive idw) (bytes_of (disk 0)) 0 = Some p \<and>
     unat (lba_offset p) + unat (num_sectors p) \<le> unat (sectors_of idw) \<and> 0 < num_sectors p"

text \<open>The super block made from a boot sector, and a volume on which a path leads to a file with the bytes \<open>b\<close>.\<close>

definition fat32_sb :: "fat32 \<Rightarrow> fat_superblock" where
  "fat32_sb f = \<lparr>sb_fat32 = f, sb_root = \<lparr>st_ino = ucast (root_cluster_number f), st_mode = S_IFDIR, st_size = 0\<rparr>\<rparr>"

definition init_items :: "u8 list list" where
  "init_items = [[98, 105, 110], [105, 110, 105, 116, 46, 98, 105, 110]]"

lemma init_path_items: "init_path = 47 # join_path init_items" "\<forall>c \<in> set init_items. path_item c"
  by (simp_all add: init_path_def init_items_def path_item_def)

definition holds_program :: "(u64 \<Rightarrow> u8 list) \<Rightarrow> u64 \<Rightarrow> fat_superblock \<Rightarrow> u8 list list \<Rightarrow> u8 list \<Rightarrow> bool" where
  "holds_program sector lim sb items b \<longleftrightarrow> (signature (sb_fat32 sb) = 0x28 \<or> signature (sb_fat32 sb) = 0x29) \<and> layout_ok (sb_fat32 sb) \<and>
     (\<exists>dirs D i. path_tree sector lim (sb_fat32 sb) dirs D (set items) \<and> sb_root sb \<in> D \<and> resolve dirs (sb_root sb) items = Some i \<and>
        file_holds sector lim (sb_fat32 sb) i b)"

text \<open>A program whose segments share no page with each other or with the user's stack.\<close>

definition runnable :: "u8 list \<Rightarrow> elf_header \<Rightarrow> elf_prog_header list \<Rightarrow> bool" where
  "runnable b h ps \<longleftrightarrow> elf_image b h ps \<and> (\<forall>q \<in> set ps. segment_ok b q) \<and> sorted_wrt pages_apart ps \<and>
     (\<forall>q \<in> set ps. \<forall>v. seg_page q v \<longrightarrow> \<not> user_stack_page v) \<and> eh_prog_entry_pos h \<noteq> 0"

lemma sda_partition:
  assumes "sda_present P idw disk view" and "first_partition idw disk p"
  shows "0 < (ucast (num_sectors p) :: u64)" "ata_idle P (sda_drive idw) disk view s \<Longrightarrow> part_idle P p disk view s"
proof -
  have "0 < num_sectors p" using assms(2) by (simp add: first_partition_def)
  then show "0 < (ucast (num_sectors p) :: u64)" by (simp add: word_less_nat_alt)
  have "tot_len p = sectors_of idw" "ata_base p = PRIMARY_BASE" "ata_slave p = 0"
    using assms(2) by (auto simp: first_partition_def partition_of_def Let_def sda_drive_def drive_of_def split: if_splits)
  then show "part_idle P p disk view s" if "ata_idle P (sda_drive idw) disk view s"
    using that assms(2) by (simp add: part_idle_def ata_idle_def ata_drive_def first_partition_def sda_drive_def drive_of_def)
qed

text \<open>Up to the keyboard: the partition is found and its file system recognised.\<close>

lemma file_system_found:
  assumes hw: "sda_present P idw disk view" and pt: "first_partition idw disk p"
    and f: "f = fat32_of (part_sector p disk 0)" "signature f = 0x28 \<or> signature f = 0x29"
    and fl: "ll_head (fst fl) = NULL" "fs_node \<noteq> NULL" and st: "length (cached_FAT st) = 512" "cached_sector st = 0"
  shows "\<exists>bl' st' i. part_idle P p disk view i \<and> dev_only (k_irq s) i \<and> fat_ok (part_idle P p disk view) (part_sector p disk) st' \<and> io st' = i \<and>
     kmain_thread P node nodes fs_node block0 sector0 bufs junk header ph getc handler bl fl st s =
       Option.bind (KBD_init P getc handler i) (\<lambda>(_, i).
         bind_ro (setup_userspace (part_read_block P p) (fat32_sb f) bufs junk header ph (sb_root (fat32_sb f)) init_path st' (s\<lparr>k_irq := i\<rparr>))
           (\<lambda>(frame, st, s). Some (Inr (frame, bl', FS_register fs_node (\<lambda>rd. FAT_detect rd sector0) fl, st, s))))"
proof -
  let ?d = "sda_drive idw"
  have a: "ata_answers P PRIMARY_BASE 0 idw view" and D: "ata_drive P (drive_of PRIMARY_BASE 0 sda_name idw) disk view"
    and l48: "idw ! 83 AND 0x400 \<noteq> 0" and z: "0 < tot_len ?d"
    using hw by (simp_all add: sda_present_def sda_drive_def drive_of_def)
  from ATA_probe_finds [OF a D l48, of node bl "k_irq s"] obtain bl1 i1 where
    1: "ATA_probe P node PRIMARY_BASE 0 sda_name bl (k_irq s) = Some (Some ?d, bl1, i1)" "ata_idle P ?d disk view i1" "dev_only (k_irq s) i1"
    by (auto simp: sda_drive_def)
  from parse_MBR_eq [OF 1(2) z refl, of block0 node nodes bl1] pt obtain bl2 i2 where
    2: "parse_MBR P block0 node nodes ?d bl1 i1 = Some (Inr ((1, map (partition_of ?d (bytes_of (disk 0))) [0..<4], bl2), i2))"
      "ata_idle P ?d disk view i2" by (auto simp: first_partition_def)
  have dv: "dev_only (k_irq s) i2" using dev_only_trans [OF 1(3) parse_MBR_dev [OF 2(1)]] .
  have p: "map (partition_of ?d (bytes_of (disk 0))) [0..<4] ! 0 = Some p" using pt by (simp add: first_partition_def)
  let ?fl = "FS_register fs_node (\<lambda>rd. FAT_detect rd sector0) fl"
  have r: "ll_head (fst ?fl) = fs_node" "snd ?fl fs_node = (\<lambda>rd. FAT_detect rd sector0)"
    using fl(1) by (simp_all add: FS_register_def LL_APPEND_def split_beta)
  let ?inv = "\<lambda>i. part_idle P p disk view i \<and> dev_only (k_irq s) i"
  have ok: "fat_ok ?inv (part_sector p disk) (st\<lparr>io := i2\<rparr>)"
    using st sda_partition(2) [OF hw pt 2(2)] dv by (simp add: fat_ok_def)
  have sig: "signature (fat32_of (part_sector p disk 0)) = 0x28 \<or> signature (fat32_of (part_sector p disk 0)) = 0x29" using f by simp
  from part_dev.probe_loop_finds [where probe = "\<lambda>n. snd ?fl n (part_read_block P p)" and impl = fs_node and junk = sector0, OF sda_partition(1) [OF hw pt] fl(2) _ sig ok]
  obtain st3 where 3: "FS_probe (fst ?fl) (\<lambda>n. snd ?fl n (part_read_block P p)) (st\<lparr>io := i2\<rparr>) = Some (Inr (Some (fat32_sb f), st3))"
    "fat_ok ?inv (part_sector p disk) st3" by (auto simp: FS_probe_def r fat32_sb_def f(1))
  show ?thesis
    using 1(1) 2(1) p 3 by (intro exI [of _ bl2] exI [of _ st3] exI [of _ "io st3"]) (auto simp: kmain_thread_def fat_ok_def)
qed


text \<open>Neither the queues of threads nor their memory change when the keyboard is set up.\<close>

lemma keyboard_set_up:
  assumes r: "KBD_init P getc handler (k_irq s) = Some (res, j)" and inv: "kernel_inv s C S xs n R W" and w: "W (kb_blocked (k_irq s)) = []"
  shows "kernel_inv (s\<lparr>k_irq := j\<rparr>) C S xs n R W" "stack_of (s\<lparr>k_irq := j\<rparr>) = stack_of s"
proof -
  have "proc_inv (k_irq s) R W" using inv by (simp add: kernel_inv_def)
  note k = kbd_setup_inv [OF KBD_init_only [OF r] this w]
  show so: "stack_of (s\<lparr>k_irq := j\<rparr>) = stack_of s" by (rule ext) (simp add: stack_of_def k(2))
  show "kernel_inv (s\<lparr>k_irq := j\<rparr>) C S xs n R W" using inv k(1,3) unfolding kernel_inv_def so by simp
qed

lemma user_space_reached:
  assumes "sda_present P idw disk view" and "first_partition idw disk p" and "f = fat32_of (part_sector p disk 0)"
    and "signature f = 0x28 \<or> signature f = 0x29"
    and "ll_head (fst fl) = NULL" and "fs_node \<noteq> NULL" and "length (cached_FAT st) = 512" and "cached_sector st = 0"
    and "ps2_answers P wait" and "kbd_quiet P view" and "W (kb_blocked (k_irq s)) = []" and "kernel_inv s C S xs n R W"
  shows "\<exists>bl' st' j. fat_ok (part_idle P p disk view) (part_sector p disk) (st'\<lparr>io := j\<rparr>) \<and>
     kernel_inv (s\<lparr>k_irq := j\<rparr>) C S xs n R W \<and> stack_of (s\<lparr>k_irq := j\<rparr>) = stack_of s \<and>
     kmain_thread P node nodes fs_node block0 sector0 bufs junk header ph getc handler bl fl st s =
       bind_ro (setup_userspace (part_read_block P p) (fat32_sb f) bufs junk header ph (sb_root (fat32_sb f)) init_path st' (s\<lparr>k_irq := j\<rparr>))
         (\<lambda>(frame, st, s). Some (Inr (frame, bl', FS_register fs_node (\<lambda>rd. FAT_detect rd sector0) fl, st, s)))"
proof -
  let ?run = "kmain_thread P node nodes fs_node block0 sector0 bufs junk header ph getc handler bl fl st s"
  from file_system_found [OF assms(1-8), of s node nodes block0 sector0 bufs junk header ph getc handler bl]
  obtain bl' st1 i1 where 1: "part_idle P p disk view i1" "dev_only (k_irq s) i1" "fat_ok (part_idle P p disk view) (part_sector p disk) st1"
    and run: "?run = Option.bind (KBD_init P getc handler i1) (\<lambda>(_, i).
         bind_ro (setup_userspace (part_read_block P p) (fat32_sb f) bufs junk header ph (sb_root (fat32_sb f)) init_path st1 (s\<lparr>k_irq := i\<rparr>))
           (\<lambda>(frame, st, s). Some (Inr (frame, bl', FS_register fs_node (\<lambda>rd. FAT_detect rd sector0) fl, st, s))))" by blast
  from KBD_init_ends [OF assms(9)] obtain res j where k: "KBD_init P getc handler i1 = Some (res, j)" by blast
  let ?s1 = "s\<lparr>k_irq := i1\<rparr>"
  have w: "W (kb_blocked (k_irq ?s1)) = []" using assms(11) 1(2) by (auto simp: dev_only_def)
  have "kernel_inv ?s1 C S xs n R W" using kernel_inv_dev [OF 1(2)] assms(12) by simp
  from keyboard_set_up [OF _ this w, of P getc handler res j] k
  have inv: "kernel_inv (s\<lparr>k_irq := j\<rparr>) C S xs n R W" and "stack_of (s\<lparr>k_irq := j\<rparr>) = stack_of ?s1" by simp_all
  then have so: "stack_of (s\<lparr>k_irq := j\<rparr>) = stack_of s" using 1(2) by (auto simp: stack_of_def fun_eq_iff dev_only_def)
  have "part_idle P p disk view j" using 1(1) KBD_init_quiet [OF assms(10) k] by (simp add: part_idle_def ata_idle_def)
  then have "fat_ok (part_idle P p disk view) (part_sector p disk) (st1\<lparr>io := j\<rparr>)" using 1(3) by (simp add: fat_ok_def)
  with inv so run k show ?thesis by (intro exI [of _ bl'] exI [of _ st1] exI [of _ j]) simp
qed

section \<open>Properties\<close>


subsection \<open>The example: a machine that boots\<close>

definition boot_id :: "u16 list" where
  "boot_id = (replicate 256 0)[83 := 0x400, 100 := 1000]"

text \<open>The example volume with a boot record before it, a boot sector, and the program as the file \<^verbatim>\<open>/bin/init.bin\<close>.\<close>

definition boot_disk :: "u64 \<Rightarrow> u16 list" where
  "boot_disk n =
     (if n = 0 then mbr_disk 0
      else if n = 100 then (replicate 256 0)[6 := 0x0102, 7 := 1, 8 := 1, 18 := 1, 22 := 2, 33 := 0x29]
      else if n = 102 then
        [0x6241, 0x6900, 0x6E00, 0, 0xFF00, 0x0FFF, 0] @ replicate 6 0xFFFF @ [0, 0xFFFF, 0xFFFF,
         0x4942, 0x204E, 0x2020, 0x2020, 0x2020, 0x1020, 0, 0, 0, 0, 0, 0, 0, 5, 0, 0] @ replicate 224 0
      else if n = 105 then
        [0x202E, 0x2020, 0x2020, 0x2020, 0x2020, 0x1020, 0, 0, 0, 0, 0, 0, 0, 5, 0, 0,
         0x2E2E, 0x2020, 0x2020, 0x2020, 0x2020, 0x1020, 0, 0, 0, 0, 0, 0, 0, 0, 0, 0,
         0x6941, 0x6E00, 0x6900, 0x7400, 0x2E00, 0x0F00, 0, 0x62, 0x69, 0x6E, 0, 0xFFFF, 0xFFFF, 0, 0xFFFF, 0xFFFF,
         0x4E49, 0x5449, 0x2020, 0x2020, 0x4942, 0x204E, 0, 0, 0, 0, 0, 0, 0, 3, 600, 0] @ replicate 192 0
      else fat_disk n)"

lemma boot_disk_length: "length (boot_disk n) = 256"
  by (simp add: boot_disk_def fat_disk_length mbr_disk_def)

definition boot_ports :: "ata_regs ports" where
  "boot_ports = (drive_ports 0x1F0 boot_disk)\<lparr>
     port_inb := \<lambda>p r. if p = STAT_REG 0x1F0 then (if 0 < ar_busy r then STAT_BSY else 0x40, r\<lparr>ar_busy := ar_busy r - 1\<rparr>)
       else if p = CYL_LOW_REG 0x1F0 then (fst (ar_mid r), r)
       else if p = CYL_HIGH_REG 0x1F0 then (fst (ar_high r), r)
       else if p = PS2_STATUS then (1, r)
       else port_inb (drive_ports 0x1F0 boot_disk) p r,
     port_outb := \<lambda>p v r. if p = CMD_REG 0x1F0 \<and> v = CMD_IDENTIFY then r\<lparr>ar_busy := 3, ar_data := boot_id\<rparr>
       else port_outb (drive_ports 0x1F0 boot_disk) p v r\<rparr>"

lemmas boot_regs = DATA_REG_def DRIVE_HEAD_REG_def SEC_CNT_REG_def SEC_NUM_REG_def CYL_LOW_REG_def CYL_HIGH_REG_def CMD_REG_def
  ALT_STAT_REG_def STAT_REG_def ERROR_REG_def DEV_CTRL_REG_def PS2_STATUS_def PS2_DATA_def PIC1_DATA_def PIC2_DATA_def PRIMARY_BASE_def
  CMD_IDENTIFY_def CMD_READ_SECTORS_EXT_def

lemma boot_ports_sda: "sda_present boot_ports boot_id boot_disk (\<lambda>r. r)"
proof -
  have w: "ata_writes boot_ports 0x1F0 (\<lambda>r. r)"
    by (simp add: ata_writes_def boot_ports_def drive_ports_def boot_regs)
  have c: "ata_commands boot_ports 0x1F0 0 boot_disk (\<lambda>r. r)"
    by (auto simp: ata_commands_def boot_ports_def drive_ports_def boot_regs intro!: exI [of _ 9])
  have r: "ata_reads boot_ports 0x1F0 (\<lambda>r. r)"
    by (auto simp: ata_reads_def boot_ports_def drive_ports_def boot_regs STAT_BSY_def STAT_DRQ_def STAT_ERR_def)
  have a: "ata_answers boot_ports 0x1F0 0 boot_id (\<lambda>r. r)"
    by (auto simp: ata_answers_def boot_ports_def drive_ports_def boot_regs STAT_BSY_def STAT_ERR_def FLOATING_BUS_def boot_id_def
        intro!: exI [of _ 3])
  have "sectors_of boot_id = 1000" by (simp add: sectors_of_def boot_id_def)
  with w c r a show ?thesis
    by (simp add: sda_present_def ata_drive_def sda_drive_def drive_of_def PRIMARY_BASE_def boot_disk_length) (simp add: boot_id_def)
qed

lemma boot_partition: "first_partition boot_id boot_disk sda0"
proof -
  have "sectors_of boot_id = 1000" by (simp add: sectors_of_def boot_id_def)
  moreover have "boot_disk 0 = mbr_disk 0" by (simp add: boot_disk_def)
  ultimately show ?thesis
    by (simp add: first_partition_def mbr_entry partition_of_def sda_drive_def drive_of_def FAT32_LBA_TYPE_def sda0_def sda_name_def PRIMARY_BASE_def)
qed

lemma boot_keyboard: "ps2_answers boot_ports (\<lambda>_. 0)" "kbd_quiet boot_ports (\<lambda>r. r)"
  by (simp_all add: ps2_answers_def kbd_quiet_def boot_ports_def drive_ports_def boot_regs)

definition boot_fat :: fat32 where
  "boot_fat = fat32_of (part_sector sda0 boot_disk 0)"

lemma boot_fat_val: "boot_fat = (sb_fat32 fat_vol)\<lparr>fat_label := replicate 11 0\<rparr>"
proof -
  have "part_sector sda0 boot_disk 0 = bytes_of (boot_disk 100)" by (simp add: part_sector_def sda0_def)
  then have "boot_fat = fat32_of (bytes_of (boot_disk 100))" by (simp add: boot_fat_def)
  also have "\<dots> = (sb_fat32 fat_vol)\<lparr>fat_label := replicate 11 0\<rparr>" by code_simp
  finally show ?thesis .
qed

definition boot_root_items :: "dir_item list" where
  "boot_root_items = [long_item [98, 105, 110] (short_item ([66, 73, 78] @ replicate 8 32) FAT_ATTR_DIRECTORY 5 0)]"

definition boot_bin_items :: "dir_item list" where
  "boot_bin_items = dot_items 5 @
     [long_item [105, 110, 105, 116, 46, 98, 105, 110] (short_item [73, 78, 73, 84, 32, 32, 32, 32, 66, 73, 78] 32 3 600)]"

definition boot_dirs :: "u64 \<Rightarrow> dir_item list" where
  "boot_dirs n = (if n = 2 then boot_root_items else if n = 5 then boot_bin_items else [])"

lemma boot_sectors:
  "part_sector sda0 boot_disk (cluster_sector boot_fat 2) = bytes_of (boot_disk 102)"
  "part_sector sda0 boot_disk (cluster_sector boot_fat 5) = bytes_of (boot_disk 105)"
  by (simp_all add: part_sector_def sda0_def cluster_sector_def data_start_def boot_fat_val fat_vol_def)

lemma boot_holds: "dir_holds (part_sector sda0 boot_disk) boot_fat [2] boot_root_items" "dir_holds (part_sector sda0 boot_disk) boot_fat [5] boot_bin_items"
proof -
  have "chunks 16 (bytes_of (boot_disk 102)) = concat (map item_chunks boot_root_items) @ replicate 14 (replicate 32 0)" by code_simp
  moreover have "chunks 16 (bytes_of (boot_disk 105)) = concat (map item_chunks boot_bin_items) @ replicate 12 (replicate 32 0)" by code_simp
  moreover have "list_all item_ok boot_root_items" "list_all item_ok boot_bin_items" by code_simp+
  ultimately show "dir_holds (part_sector sda0 boot_disk) boot_fat [2] boot_root_items" "dir_holds (part_sector sda0 boot_disk) boot_fat [5] boot_bin_items"
    by (auto simp: dir_holds_def boot_sectors list_all_iff)
qed

lemma boot_next: "unat c < 128 \<Longrightarrow> next_cluster (part_sector sda0 boot_disk) boot_fat c = next_cluster (part_sector sda0 fat_disk) (sb_fat32 fat_vol) c"
  by (simp add: next_cluster_def boot_fat_val fat_vol_def part_sector_def sda0_def boot_disk_def)

lemma boot_chains: "chain_ok (part_sector sda0 boot_disk) 50 boot_fat 3 [3, 4]" "chain_ok (part_sector sda0 boot_disk) 50 boot_fat 2 [2]"
  "chain_ok (part_sector sda0 boot_disk) 50 boot_fat 5 [5]"
  by (simp_all add: chain_ok_def boot_next fat_table TABLE_VAL_MAX_def cluster_ok_def cluster_sector_def data_start_def)
    (simp_all add: boot_fat_val fat_vol_def word_less_nat_alt)

lemma boot_entries:
  "entries (boot_dirs 2) = [([98, 105, 110], fat_sub)]"
  "entries (boot_dirs 5) = [([105, 110, 105, 116, 46, 98, 105, 110], \<lparr>st_ino = 3, st_mode = 0, st_size = 600\<rparr>)]"
  "list_all (\<lambda>n. clear_of n (boot_dirs 2) \<and> clear_of n (boot_dirs 5)) init_items"
  by code_simp+

lemma boot_tree: "path_tree (part_sector sda0 boot_disk) (ucast (num_sectors sda0)) boot_fat boot_dirs {sb_root (fat32_sb boot_fat), fat_sub} (set init_items)"
proof -
  have n: "ucast (num_sectors sda0) = (50 :: u64)" by (simp add: sda0_def)
  have m: "S_IFDIR \<noteq> 0" by (simp add: S_IFDIR_def)
  have h: "dir_holds (part_sector sda0 boot_disk) boot_fat [2] (boot_dirs 2)" "dir_holds (part_sector sda0 boot_disk) boot_fat [5] (boot_dirs 5)"
    using boot_holds by (simp_all add: boot_dirs_def)
  have r: "st_ino (sb_root (fat32_sb boot_fat)) = 2" "st_mode (sb_root (fat32_sb boot_fat)) = S_IFDIR" by (simp_all add: fat32_sb_def boot_fat_val fat_vol_def)
  have "dir_at (part_sector sda0 boot_disk) 50 boot_fat boot_dirs (sb_root (fat32_sb boot_fat))"
    "dir_at (part_sector sda0 boot_disk) 50 boot_fat boot_dirs fat_sub"
    unfolding dir_at_def using boot_chains(2,3) h r m
    by (simp, intro exI [of _ "2 :: u32"] exI [of _ "[2 :: u32]"] exI [of _ "5 :: u32"] exI [of _ "[5 :: u32]"]; simp)+
  then show ?thesis unfolding path_tree_def n using boot_entries(3) by (simp add: r m entry_def boot_entries(1,2) list_all_iff)
qed

lemma boot_file: "file_holds (part_sector sda0 boot_disk) (ucast (num_sectors sda0)) boot_fat \<lparr>st_ino = 3, st_mode = 0, st_size = 600\<rparr> elf_example_bytes"
proof -
  have n: "ucast (num_sectors sda0) = (50 :: u64)" by (simp add: sda0_def)
  have d: "chain_data (part_sector sda0 boot_disk) boot_fat [3, 4] = bytes_of prog_block @ bytes_of (replicate 256 104)"
    by (simp add: chain_data_def cluster_sector_def data_start_def boot_fat_val fat_vol_def part_sector_def sda0_def boot_disk_def fat_disk_def)
  show ?thesis unfolding file_holds_def n using boot_chains(1) d
    by (intro exI [of _ "3 :: u32"] exI [of _ "[3, 4 :: u32]"]) (simp add: elf_example_bytes_def)
qed

lemma boot_volume:
  "layout_ok (sb_fat32 (fat32_sb boot_fat))" "sb_fat32 (fat32_sb boot_fat) = boot_fat" "signature boot_fat = 0x29"
  "resolve boot_dirs (sb_root (fat32_sb boot_fat)) init_items = Some \<lparr>st_ino = 3, st_mode = 0, st_size = 600\<rparr>"
proof -
  show s: "sb_fat32 (fat32_sb boot_fat) = boot_fat" by (simp add: fat32_sb_def)
  show "layout_ok (sb_fat32 (fat32_sb boot_fat))" unfolding s by (simp add: layout_ok_def data_start_def boot_fat_val fat_vol_def)
  show "signature boot_fat = 0x29" by (simp add: boot_fat_val fat_vol_def)
  have "sb_root (fat32_sb boot_fat) = \<lparr>st_ino = 2, st_mode = S_IFDIR, st_size = 0\<rparr>" by (simp add: fat32_sb_def boot_fat_val fat_vol_def)
  moreover have "resolve boot_dirs \<lparr>st_ino = 2, st_mode = S_IFDIR, st_size = 0\<rparr> init_items = Some \<lparr>st_ino = 3, st_mode = 0, st_size = 600\<rparr>" by code_simp
  ultimately show "resolve boot_dirs (sb_root (fat32_sb boot_fat)) init_items = Some \<lparr>st_ino = 3, st_mode = 0, st_size = 600\<rparr>" by simp
qed

definition boot_irq :: "ata_regs kbd_state" where
  "boot_irq = dev_state.extend ((blk_example idle_regs)\<lparr>pr_orig := KERNEL_STACKS_START, pr_curr := KERNEL_STACKS_START\<rparr>)
     \<lparr>idt = [], irq_handler_table = [], kernel_text_offset = 0, idt_loaded = True, sys_calls = [],
      ser_buff = \<lparr>buff = replicate 1024 0, read_head = 0, write_head = 0\<rparr>, ser_status = IDLE, ser_blocked = 128,
      kb_blocked = 256, kb_buff = \<lparr>buff = replicate 1024 0, read_head = 0, write_head = 0\<rparr>,
      kb_mod_state = 0, kb_key_state = 0, kb_release = False\<rparr>"

lemma boot_irq_inv: "proc_inv boot_irq [] (\<lambda>_. [])" "pr_orig boot_irq \<ge> KERNEL_STACKS_START"
  by (simp_all add: proc_inv_def sched_inv_def queue_repr_def boot_irq_def blk_example_def dev_state.defs KERNEL_STACKS_START_def)


end
