(* ===== verification/Kernel_Start.thy ===== *)
theory Kernel_Start
  imports Kernel_Main
begin

text \<open>
  The start of the kernel (\<^verbatim>\<open>kmain\<close> in \<^verbatim>\<open>kernel.c\<close>): it brings up the descriptor tables, the interrupts, the screen, the
  memory with its address space, and the threads, and then runs the first thread from its loop. The machine's state joins the
  states of all parts it calls.
\<close>

section \<open>Starting the kernel\<close>

text \<open>The kernel's state with the processor's control registers, the boot loader's top table and the screen.\<close>

record ('d, 'b) machine = "('d, 'b) kernel" +
  m_old_pml4 :: ptr
  m_cr3 :: u64
  m_no_execute :: bool
  m_vga :: vga_state

text \<open>The part of it that \<^verbatim>\<open>setup_pml4\<close> works on.\<close>

definition kmap_of :: "('d, 'b, 'a) machine_scheme \<Rightarrow> ('d, 'b) kmap_state" where
  "kmap_of s = \<lparr>pf_mem = pf_mem s, pf_map = pf_map s, pf_free_pool = pf_free_pool s, pf_current = pf_current s,
     pf_region = pf_region s, mu_pml4 = mu_pml4 s, old_pml4 = m_old_pml4 s, cr3 = m_cr3 s,
     no_execute_enabled = m_no_execute s, ks_irq = k_irq s, ks_vga = m_vga s\<rparr>"

definition with_kmap :: "('d, 'b) kmap_state \<Rightarrow> ('d, 'b, 'a) machine_scheme \<Rightarrow> ('d, 'b, 'a) machine_scheme" where
  "with_kmap t s = s\<lparr>pf_mem := pf_mem t, pf_map := pf_map t, pf_free_pool := pf_free_pool t, pf_current := pf_current t,
     pf_region := pf_region t, mu_pml4 := mu_pml4 t, m_old_pml4 := old_pml4 t, m_cr3 := cr3 t,
     m_no_execute := no_execute_enabled t, k_irq := ks_irq t, m_vga := ks_vga t\<rparr>"

text \<open>
  \<^verbatim>\<open>kmain\<close> up to its loop, and a round of the loop. The addresses are those of the functions that are registered;
  \<open>stubs\<close> gives the interrupt handlers, \<open>ist1\<close> to \<open>ist3\<close> the static stacks, and \<open>info\<close> the memory in
  which the boot loader left its tags at \<open>tags\<close>. \<open>thread\<close> is the address of \<^verbatim>\<open>kmain_thread\<close>.
\<close>

record boot_addresses =
  ba_page_fault :: ptr
  ba_putc :: ptr
  ba_yield :: ptr
  ba_kexit :: ptr
  ba_wrapper :: ptr
  ba_thread :: ptr

definition kmain_init ::
    "'d ports \<Rightarrow> (nat \<Rightarrow> ptr) \<Rightarrow> u64 \<Rightarrow> u64 \<Rightarrow> u64 \<Rightarrow> bmem \<Rightarrow> ptr \<Rightarrow> boot_addresses \<Rightarrow>
     ('d, 'b, 'a) machine_scheme \<Rightarrow> ('d, 'b, 'a) machine_scheme res option" where
  "kmain_init P stubs ist1 ist2 ist3 info tags a s =
     (let s = s\<lparr>k_gdt := GDT_remap boot_gdt (k_gdt s)\<rparr>;
          s = s\<lparr>k_gdt := TSS_init ist1 ist2 ist3 (k_gdt s)\<rparr>;
          s = s\<lparr>k_irq := IRQ_init P stubs (k_irq s)\<rparr>;
          s = s\<lparr>m_vga := VGA_clear (m_vga s)\<rparr>
      in Option.bind (parse_multiboot_tags info tags (pf_map s)) (\<lambda>M.
         let s = s\<lparr>pf_map := M\<rparr>
         in bind_ro (Some (MMU_init_pf_alloc s)) (\<lambda>s.
            bind_ro (setup_pml4 info (ba_page_fault a) (kmap_of s)) (\<lambda>t.
            let s = with_kmap t s
            in bind_ro (free_multiboot_sections info s) (\<lambda>s.
               let s = s\<lparr>k_irq := init_sys_calls (ba_putc a) (k_irq s)\<rparr>
               in bind_ro (Some (PROC_init (ba_yield a) (ba_kexit a) s)) (\<lambda>s.
                  bind_ro (Some (PROC_create_kthread (ba_wrapper a) (ba_thread a) NULL s)) (\<lambda>(_, s). Some (Inr s))))))))"

definition kmain_round :: "('d, 'b, 'a) machine_scheme \<Rightarrow> ('d, 'b, 'a) machine_scheme" where
  "kmain_round s = s\<lparr>k_irq := PROC_run (CLI (k_irq s))\<rparr>"

section \<open>What the parts of the start keep\<close>

text \<open>Only the interrupt tables and the devices, nothing of the scheduler.\<close>

definition sched_same :: "('d, 'b) irq_state_scheme \<Rightarrow> ('d, 'b) irq_state_scheme \<Rightarrow> bool" where
  "sched_same i j \<longleftrightarrow> sc_procs j = sc_procs i \<and> sc_queue j = sc_queue i \<and> sc_current j = sc_current i \<and> pr_waitq j = pr_waitq i \<and>
     pr_orig j = pr_orig i"

lemma sched_same_queues: "sched_same i j \<Longrightarrow> queues_inv j R W = queues_inv i R W"
  by (simp add: sched_same_def queues_inv_def sched_inv_def)

lemma sched_same_trans: "sched_same i j \<Longrightarrow> sched_same j k \<Longrightarrow> sched_same i k"
  by (simp add: sched_same_def)

lemma sched_same_tables [simp]:
  "sched_same i (IRQ_set_handler n h a i)" "sched_same i (set_sys_call m f i)" "sched_same i (init_sys_calls f i)"
  by (simp_all add: sched_same_def IRQ_set_handler_def set_sys_call_def init_sys_calls_def)

lemma sched_same_dev: "dev_only i j \<Longrightarrow> sched_same i j"
  by (auto simp: sched_same_def dev_only_def)

lemma sched_same_init: "sched_same i (IRQ_init P stubs i)"
proof -
  have e: "sched_same j (init_entries w k n j)" for w k n and j :: "('a, 'b) irq_state_scheme"
  proof (induction n arbitrary: k j)
    case (Suc n)
    have "sched_same j (set_idt_entry w (of_nat k) j)" by (simp add: set_idt_entry_def sched_same_def Let_def)
    with Suc [of "set_idt_entry w (of_nat k) j" "Suc k"] show ?case using sched_same_trans by auto
  qed (simp add: sched_same_def)
  have "sched_same i (IRQ_init P stubs i)"
    using e [of i "isr_wrapper_table stubs" 0 NUM_IDT_ENTRIES]
    by (simp add: IRQ_init_def Let_def sched_same_def set_gate_def PIC_remap_def split_beta port_only outb_def io_wait_def IRQ_clear_mask_def)
  then show ?thesis .
qed


lemma tss_start: "length (tss_ist (gd_tss (TSS_init a b c (GDT_remap w g)))) = length (tss_ist (gd_tss g))"
  by (simp add: TSS_init_def GDT_remap_def Let_def)

lemma setup_pml4_keeps:
  assumes r: "setup_pml4 info handler s = Some (Inr s')" and wf: "bump_wf s" and e: "unat (memory_end (pf_map s)) \<le> 2 ^ 39"
    and tag: "tag_at info (mm_elf_tag (pf_map s)) (Elf_Tag (mm_elf_tag (pf_map s)) hs)"
  shows "bump_wf s' \<and> pf_map s' = pf_map s \<and> ks_irq s' = IRQ_set_handler PAGE_FAULT_IRQ handler NULL (ks_irq s) \<and> cr3 s' = GET_PHYS_ADDR (mu_pml4 s')"
proof -
  let ?s = "s\<lparr>ks_irq := IRQ_set_handler PAGE_FAULT_IRQ handler NULL (ks_irq s), no_execute_enabled := True\<rparr>"
  have wf0: "bump_wf ?s" using wf by (simp add: bump_wf_def)
  from r obtain f s1 u s3 where a: "MMU_pf_alloc ?s = Inr (f, s1)"
    and m: "map_physical_memory f (memset_allow_null f PAGE_SIZE s1) = Some (Inr u)"
    and l: "remap_elf_sections info (u\<lparr>ks_vga := VGA_remap (ks_vga u), mu_pml4 := GET_VIRT_ADDR f\<rparr>) = Some (Inr s3)" and s': "s' = s3\<lparr>cr3 := f\<rparr>"
    unfolding setup_pml4_def Let_def by (auto simp: bind_ro_Inr split: sum.splits prod.splits)
  from MMU_pf_alloc_frame [OF wf0 a] obtain c' r' p' where s1: "s1 = ?s\<lparr>pf_current := c', pf_region := r', pf_free_pool := p'\<rparr>" by blast
  let ?c = "memset_allow_null f PAGE_SIZE s1"
  have wf1: "bump_wf ?c" using MMU_pf_alloc_wf [OF wf0 a] by (simp add: memset_allow_null_def)
  have "unat (memory_end (pf_map ?c)) \<le> 2 ^ 39" using e by (simp add: memset_allow_null_def s1)
  from m [unfolded map_physical_memory_eq [OF wf1 this]] obtain g s2 m' where b: "MMU_pf_alloc ?c = Inr (g, s2)" and u: "u = s2\<lparr>pf_mem := m'\<rparr>"
    by (auto simp: res_iff)
  from MMU_pf_alloc_frame [OF wf1 b] obtain c2 r2 p2 where s2: "s2 = ?c\<lparr>pf_current := c2, pf_region := r2, pf_free_pool := p2\<rparr>" by blast
  let ?t = "u\<lparr>ks_vga := VGA_remap (ks_vga u), mu_pml4 := GET_VIRT_ADDR f\<rparr>"
  have t: "bump_wf ?t" "pf_map ?t = pf_map s" "ks_irq ?t = ks_irq ?s"
    using MMU_pf_alloc_wf [OF wf1 b] by (simp_all add: u bump_wf_def) (simp_all add: s2 s1 memset_allow_null_def)
  have "remap_elf_sections info ?t = Some (map_sections hs ?t)" by (rule remap_elf_sections_eq) (simp only: t(2) tag)
  with l have ms: "map_sections hs ?t = Inr s3" by simp
  from map_sections_only [OF ms t(1)] map_sections_wf [OF ms t(1)] t(2,3) show ?thesis
    by (auto simp: s' pf_only_def bump_wf_def)
qed

section \<open>Giving the boot code back\<close>

text \<open>Giving frames back changes the free pool and the links in the frames.\<close>

definition pool_only :: "'a pf_state_scheme \<Rightarrow> 'a pf_state_scheme \<Rightarrow> bool" where
  "pool_only s s' \<longleftrightarrow> (\<exists>m p. s' = s\<lparr>pf_mem := m, pf_free_pool := p\<rparr>)"

lemma pool_only_refl [simp]: "pool_only s s"
  unfolding pool_only_def by (rule exI [of _ "pf_mem s"], rule exI [of _ "pf_free_pool s"]) simp

lemma pool_only_trans: "pool_only s t \<Longrightarrow> pool_only t u \<Longrightarrow> pool_only s u"
  unfolding pool_only_def by (elim exE, hypsubst) (intro exI, simp)

lemma pool_only_free [simp]: "pool_only s (MMU_pf_free f s)"
  unfolding pool_only_def
  by (rule exI [of _ "pf_mem (MMU_pf_free f s)"], rule exI [of _ "pf_free_pool (MMU_pf_free f s)"])
    (simp add: MMU_pf_free_def push_free_pf_def dm_write_def Let_def)

lemma pool_only_write [simp]: "pool_only s (dm_write p x s)"
  unfolding pool_only_def by (rule exI [of _ "pf_mem (dm_write p x s)"], rule exI [of _ "pf_free_pool s"]) (simp add: dm_write_def)

lemma pool_only_keeps:
  assumes "pool_only s s'"
  shows "pf_only s s'" "bump_wf s' = bump_wf s" "pf_map s' = pf_map s"
proof -
  from assms obtain m p where s': "s' = s\<lparr>pf_mem := m, pf_free_pool := p\<rparr>" by (auto simp: pool_only_def)
  show "pf_only s s'" by (rule pf_onlyI [where m = m and c = "pf_current s" and r = "pf_region s" and p = p]) (simp add: s')
  show "bump_wf s' = bump_wf s" "pf_map s' = pf_map s" by (simp_all add: s' bump_wf_def)
qed

lemma pool_only_room: "pool_only s s' \<Longrightarrow> room n s' = room n s"
  by (auto simp: pool_only_def room_def bump_core_def)

text \<open>
  A section that only the boot code needs. The loop over its pages goes on in what lies 4096 headers further; when that
  reads as a section that ends before the page, only this page is given back and the outer loop is over as well.
\<close>

definition boot_section :: "elf_section_header \<Rightarrow> bool" where
  "boot_section h \<longleftrightarrow> segment_size h \<noteq> 0 \<and> segment_address h < KERNEL_TEXT_START"

definition freeing_ends :: "bmem \<Rightarrow> ptr \<Rightarrow> elf_section_header list \<Rightarrow> bool" where
  "freeing_ends info b hs \<longleftrightarrow> length hs \<le> 4096 \<and> unat b + 0x100000 < 2 ^ 64 \<and>
     (\<forall>k < length hs. boot_section (hs ! k) \<longrightarrow>
        (let h = section_at info (b + 20 + of_nat (64 * (k + 4096)))
         in segment_address h + segment_size h \<le> segment_address (hs ! k)))"

lemma free_sections_ends:
  assumes e: "freeing_ends info b hs" and h: "\<forall>k < length hs. section_at info (b + 20 + of_nat (64 * k)) = hs ! k"
  shows "k \<le> length hs \<Longrightarrow> \<exists>s'. free_sections_loop info (b + 20 + of_nat (64 * k)) (b + of_nat (20 + 64 * length hs)) s = Some s' \<and> pool_only s s'"
proof (induction "length hs - k" arbitrary: k s)
  case 0
  then have k: "k = length hs" by simp
  have "b + 20 + of_nat (64 * k) = b + of_nat (20 + 64 * length hs)" by (simp add: k)
  then show ?case by (subst free_sections_loop.simps) (simp only: less_irrefl if_False, simp)
next
  case (Suc n)
  then have k: "k < length hs" by simp
  have l: "length hs \<le> 4096" "unat b + 0x100000 < 2 ^ 64" using e by (simp_all add: freeing_ends_def)
  let ?c = "b + 20 + of_nat (64 * k)" and ?stop = "b + of_nat (20 + 64 * length hs)"
  have eq: "b + 20 + of_nat (64 * j) = b + of_nat (20 + 64 * j)" for j by simp
  have u: "unat (b + of_nat (20 + 64 * j)) = unat b + (20 + 64 * j)" if "j \<le> 8193" for j
    by (rule record_addr [OF _ refl]) (use l(2) that in simp)
  have lt: "?c < ?stop"
    unfolding eq word_less_nat_alt using u [of k] u [of "length hs"] k l(1) by simp
  have nx: "?c + 64 = b + 20 + of_nat (64 * Suc k)" by simp
  have hk: "section_at info ?c = hs ! k" using h k by blast
  have ih: "\<exists>s'. free_sections_loop info (b + 20 + of_nat (64 * Suc k)) ?stop s = Some s' \<and> pool_only s s'" for s :: "'a pf_state_scheme"
    by (rule Suc.hyps(1)) (use Suc.hyps(2) k in simp_all)
  show ?case
  proof (cases "boot_section (hs ! k)")
    case False
    then have "free_sections_loop info ?c ?stop s = free_sections_loop info (b + 20 + of_nat (64 * Suc k)) ?stop s"
      unfolding free_sections_loop.simps [of info ?c] hk nx using lt by (auto simp: boot_section_def Let_def)
    with ih show ?thesis by metis
  next
    case True
    let ?far = "b + 20 + of_nat (64 * (k + 4096))"
    have far: "?c + PAGE_SIZE * 64 = ?far" by (simp add: PAGE_SIZE_def algebra_simps)
    have "segment_address (section_at info ?far) + segment_size (section_at info ?far) \<le> segment_address (hs ! k)"
      using e k True by (simp add: freeing_ends_def Let_def)
    then have stop2: "free_pages_loop info ?far (segment_address (hs ! k)) t = Some (?far, t)" for t :: "'a pf_state_scheme"
      by (subst free_pages_loop.simps) (simp only: not_less [symmetric] if_False simp_thms)
    have over: "\<not> ?far + 64 < ?stop"
    proof -
      have f: "?far + 64 = b + of_nat (20 + 64 * (k + 4097))" by simp
      have "20 + 64 * length hs \<le> 20 + 64 * (k + 4097)" "k + 4097 \<le> 8193" "length hs \<le> 8193" using k l(1) by simp_all
      then show ?thesis unfolding not_less word_le_nat_alt f by (simp only: u add_le_cancel_left)
    qed
    have done2: "free_sections_loop info (?far + 64) ?stop t = Some t" for t :: "'a pf_state_scheme"
      by (subst free_sections_loop.simps) (simp only: over if_False)
    have over1: "free_sections_loop info (b + 20 + of_nat (64 * Suc k)) ?stop t = free_sections_loop info (?c + 64) ?stop t" for t :: "'a pf_state_scheme"
      unfolding nx ..
    show ?thesis
    proof (cases "segment_address (hs ! k) < segment_address (hs ! k) + segment_size (hs ! k)")
      case True
      have "free_pages_loop info ?c (segment_address (hs ! k)) s = Some (?far, MMU_pf_free (segment_address (hs ! k)) s)"
        unfolding free_pages_loop.simps [of info ?c] hk far stop2 using True by simp
      then have "free_sections_loop info ?c ?stop s = Some (MMU_pf_free (segment_address (hs ! k)) s)"
        unfolding free_sections_loop.simps [of info ?c] hk using lt \<open>boot_section (hs ! k)\<close> done2 by (simp add: boot_section_def Let_def)
      then show ?thesis by simp
    next
      case False
      then have "free_pages_loop info ?c (segment_address (hs ! k)) s = Some (?c, s)"
        unfolding free_pages_loop.simps [of info ?c] hk by simp
      then have "free_sections_loop info ?c ?stop s = free_sections_loop info (b + 20 + of_nat (64 * Suc k)) ?stop s"
        unfolding free_sections_loop.simps [of info ?c] hk using lt \<open>boot_section (hs ! k)\<close> over1 by (simp add: boot_section_def Let_def)
      with ih show ?thesis by metis
    qed
  qed
qed

lemma free_multiboot_sections_ends:
  assumes wf: "bump_wf s" and b: "mm_elf_tag (pf_map s) = b" and tag: "tag_at info b (Elf_Tag b hs)" and e: "freeing_ends info b hs"
  shows "free_multiboot_sections info s = Some (Inl OutOfMemory) \<or>
    (\<exists>s'. free_multiboot_sections info s = Some (Inr s') \<and> pf_only s s' \<and> bump_wf s')"
    and "room (Suc n) s \<Longrightarrow> \<exists>s'. free_multiboot_sections info s = Some (Inr s') \<and> room n s'"
proof -
  have h: "\<forall>k < length hs. section_at info (b + 20 + of_nat (64 * k)) = hs ! k" and sz: "unat (tag_size info b) = 20 + 64 * length hs"
    using tag by (simp_all add: tag_at_def)
  have st: "ucast (tag_size info b) = (of_nat (20 + 64 * length hs) :: u64)" using sz ucast_is_of_nat by metis
  have loop: "\<exists>t. free_sections_loop info (b + 20) (b + ucast (tag_size info b)) u = Some t \<and> pool_only u t" for u :: "'a mmu_state_scheme"
    using free_sections_ends [OF e h, of 0 u] by (simp add: st)
  have run: "\<exists>s'. free_multiboot_sections info s = Some (Inr s') \<and> pool_only s1 s'"
    if a: "allocate_table s = Inr (p, s1)" and m: "pf_map s1 = pf_map s" for p s1
  proof -
    let ?e0 = "entry_ptr (mu_pml4 s1) 0"
    let ?s2 = "dm_write ?e0 (set_bit 0 (pte_set_base_addr (drop_bit 12 p) (dm_read ?e0 s1))) s1"
    let ?e1 = "entry_ptr (entry_to_table (mu_pml4 ?s2) 0 ?s2) 0"
    let ?s3 = "dm_write ?e1 (set_bit 63 (set_bit 7 (set_bit 0 (pte_set_base_addr 0 (dm_read ?e1 ?s2))))) ?s2"
    have m3: "mm_elf_tag (pf_map ?s3) = b" "mu_pml4 ?s2 = mu_pml4 s1" using m b by (simp_all add: dm_write_def)
    obtain t where t: "free_sections_loop info (b + 20) (b + ucast (tag_size info b)) ?s3 = Some t" "pool_only ?s3 t" using loop by blast
    have "free_multiboot_sections info s = Some (Inr (MMU_pf_free p (dm_write ?e0 (unset_bit 0 (dm_read ?e0 t)) t)))"
      using a t(1) m3 by (simp add: free_multiboot_sections_def Let_def)
    moreover have "pool_only s1 ?s3" using pool_only_trans [OF pool_only_write pool_only_write] .
    ultimately show ?thesis
      using pool_only_trans [OF pool_only_trans [OF _ t(2)] pool_only_trans [OF pool_only_write pool_only_free]] by blast
  qed
  show "free_multiboot_sections info s = Some (Inl OutOfMemory) \<or>
    (\<exists>s'. free_multiboot_sections info s = Some (Inr s') \<and> pf_only s s' \<and> bump_wf s')"
  proof (cases "MMU_pf_alloc s")
    case (Inl x)
    with MMU_pf_alloc_halt [OF wf Inl] show ?thesis by (simp add: free_multiboot_sections_def allocate_table_def)
  next
    case (Inr y)
    then obtain p s0 where a: "MMU_pf_alloc s = Inr (p, s0)" by (cases y) auto
    let ?s1 = "memset_table (GET_VIRT_ADDR p) s0"
    have al: "allocate_table s = Inr (p, ?s1)" by (simp add: allocate_table_def a)
    have w: "bump_wf ?s1" "pf_map ?s1 = pf_map s" "pf_only s ?s1"
      using MMU_pf_alloc_wf [OF wf a] MMU_pf_alloc_frame [OF wf a] pf_only_trans [OF pf_only_alloc [OF wf a] pf_only_write(2)]
      by (auto simp: memset_table_def bump_wf_def)
    from run [OF al w(2)] pool_only_keeps w pf_only_trans show ?thesis by blast
  qed
  assume "room (Suc n) s"
  then obtain p s0 where a: "MMU_pf_alloc s = Inr (p, s0)" "room n s0" using room_alloc by blast
  let ?s1 = "memset_table (GET_VIRT_ADDR p) s0"
  have al: "allocate_table s = Inr (p, ?s1)" by (simp add: allocate_table_def a)
  have "pf_map ?s1 = pf_map s" "room n ?s1" using MMU_pf_alloc_frame [OF wf a(1)] a(2) by (auto simp: memset_table_def)
  with run [OF al] pool_only_room show "\<exists>s'. free_multiboot_sections info s = Some (Inr s') \<and> room n s'" by metis
qed

section \<open>The start\<close>

text \<open>What the boot loader leaves: usable memory, the sections of the kernel, and freeing the boot code's sections ends.\<close>

definition boot_info :: "bmem \<Rightarrow> ptr \<Rightarrow> ptr \<Rightarrow> mmap_entry list \<Rightarrow> elf_section_header list \<Rightarrow> bool" where
  "boot_info info tags b es hs \<longleftrightarrow>
     (\<exists>o1 o2 o3. tags_at info (tags + 8) (o1 @ [Mmap_Tag es] @ o2 @ [Elf_Tag b hs] @ o3) \<and> (\<forall>t \<in> set (o1 @ o2 @ o3). t = Other_Tag)) \<and>
     region_wf \<lparr>rg_start = tags, rg_end = tags + ucast (rd32 info tags)\<rparr> \<and>
     entries_ok es \<and> unat (rg_end (last (free_regions es))) \<le> 2 ^ 39 \<and>
     (\<forall>h \<in> set hs. segment_size h \<noteq> 0 \<longrightarrow> section_below (2 ^ 46) h) \<and> (\<exists>h \<in> set hs. segment_size h \<noteq> 0) \<and>
     (\<forall>h \<in> set hs. kernel_section h \<longrightarrow> unat (segment_address h) + unat (segment_size h) + 4096 \<le> 2 ^ 64) \<and>
     freeing_ends info b hs"

lemma tags_at_elf: "tags_at m a (ts1 @ [Elf_Tag b hs] @ ts2) \<Longrightarrow> tag_at m b (Elf_Tag b hs)"
proof (induction ts1 arbitrary: a)
  case Nil
  then have "tag_at m a (Elf_Tag b hs)" by simp
  moreover from this have "b = a" by (simp add: tag_at_def)
  ultimately show ?case by simp
qed auto

lemma boot_memory:
  assumes bi: "boot_info info tags b es hs" and z: "mm_regions (pf_map s) = replicate MAX_REGIONS \<lparr>rg_start = 0, rg_end = 0\<rparr>"
  shows "\<exists>M. parse_multiboot_tags info tags (pf_map s) = Some M \<and> map_wf M \<and> mm_elf_tag M = b \<and> unat (memory_end M) \<le> 2 ^ 39 \<and>
     take (unat (mm_num_regions M)) (mm_regions M) = free_regions es \<and> mm_multiboot M = \<lparr>rg_start = tags, rg_end = tags + ucast (rd32 info tags)\<rparr>"
proof -
  from bi obtain o1 o2 o3 where t: "tags_at info (tags + 8) (o1 @ [Mmap_Tag es] @ o2 @ [Elf_Tag b hs] @ o3)" "\<forall>t \<in> set (o1 @ o2 @ o3). t = Other_Tag"
    by (auto simp: boot_info_def)
  note d = bi [unfolded boot_info_def]
  let ?M = "(pf_map s)\<lparr>mm_multiboot := \<lparr>rg_start = tags, rg_end = tags + ucast (rd32 info tags)\<rparr>\<rparr>"
  let ?N = "apply_tag (Elf_Tag b hs) (apply_tag (Mmap_Tag es) ?M)"
  have p: "parse_multiboot_tags info tags (pf_map s) = Some ?N"
    using tag_loop_eq [OF t(1), of ?M] z unfolding boot_map_eq [OF t(2)] by (simp add: parse_multiboot_tags_def)
  have r: "mm_regions ?M = replicate MAX_REGIONS \<lparr>rg_start = 0, rg_end = 0\<rparr>" "region_wf (mm_multiboot ?M)" using z d by simp_all
  have w: "map_wf ?N" "take (unat (mm_num_regions ?N)) (mm_regions ?N) = free_regions es"
    using boot_map_wf [OF _ r, of es hs b] d by blast+
  have "mm_elf_tag ?N = b" "mm_multiboot ?N = mm_multiboot ?M" by (simp_all add: fold_add_section_keeps Let_def)
  moreover have "rg_end (last (free_regions es)) = memory_end ?N"
  proof -
    have n: "0 < unat (mm_num_regions ?N)" "unat (mm_num_regions ?N) \<le> length (mm_regions ?N)" using map_wfD(1-3) [OF w(1)] by simp_all
    then have "last (take (unat (mm_num_regions ?N)) (mm_regions ?N)) = mm_regions ?N ! (unat (mm_num_regions ?N) - 1)"
      by (subst last_conv_nth) auto
    then show ?thesis unfolding w(2) memory_end_def by (simp only:)
  qed
  ultimately show ?thesis using p w d by (auto simp del: apply_tag.simps)
qed

text \<open>
  The static variables of the kernel before it starts, with \<open>pr_orig\<close> the address of a static structure. Those of the heap, the
  stacks and the scheduler are untouched until they are used.
\<close>

definition kernel_static :: "('d, 'b, 'a) machine_scheme \<Rightarrow> bool" where
  "kernel_static s \<longleftrightarrow>
     hp_brk s = KERNEL_HEAP_START \<and> km_pools s = initial_pools \<and> km_base s \<noteq> NULL \<and> unat (km_base s) + 112 < 2 ^ 64 \<and>
     thread_stack_brk s = KERNEL_STACKS_START \<and> free_thread_stacks_head s = NULL \<and>
     sc_queue (k_irq s) = \<lparr>q_head = NULL, q_tail = NULL\<rparr> \<and> sc_current (k_irq s) = NULL \<and>
     (\<forall>q. pr_waitq (k_irq s) q = \<lparr>q_head = NULL, q_tail = NULL\<rparr>) \<and> pr_orig (k_irq s) \<ge> KERNEL_STACKS_START \<and>
     length (tss_ist (gd_tss (k_gdt s))) = 7"

definition machine_static :: "('d, 'b, 'a) machine_scheme \<Rightarrow> bool" where
  "machine_static s \<longleftrightarrow> mm_regions (pf_map s) = replicate MAX_REGIONS \<lparr>rg_start = 0, rg_end = 0\<rparr> \<and> kernel_static s"

lemma heap_start:
  assumes "bump_wf s" and "hp_brk s = KERNEL_HEAP_START" and "km_pools s = initial_pools" and "km_base s \<noteq> NULL" and "unat (km_base s) + 112 < 2 ^ 64"
  shows "km_live s {}"
proof -
  have "pools_ok s (\<lambda>_. [])"
    unfolding pools_ok_def
  proof (intro conjI allI impI)
    fix i assume "i < NUM_POOLS"
    from pool_cases [OF this] show "free_chain (km_mem s) (kp_head (km_pools s ! i)) []"
      "kp_avail (km_pools s ! i) = int (length ([] :: ptr list))" "distinct ([] :: ptr list)"
      by (auto simp: assms(3) initial_pools_def pool_sizes_def)
  qed (simp add: assms(3) initial_pools_def comp_def)
  with assms have "km_inv s (\<lambda>_. []) (\<lambda>_. None)"
    by (simp add: km_inv_def blocks_def brk_ok_def page_aligned_def PAGE_SIZE_def KERNEL_HEAP_START_def KERNEL_STACKS_START_def)
  then show ?thesis by (force simp: km_live_def user_live_def)
qed

lemma queues_start:
  assumes "sc_queue i = \<lparr>q_head = NULL, q_tail = NULL\<rparr>" and "sc_current i = NULL" and "\<forall>q. pr_waitq i q = \<lparr>q_head = NULL, q_tail = NULL\<rparr>"
    and "pr_orig i \<ge> KERNEL_STACKS_START"
  shows "queues_inv i [] (\<lambda>_. [])"
  using assms by (auto simp: queues_inv_def sched_inv_def queue_repr_def KERNEL_STACKS_START_def)

lemma kernel_static_queues: "kernel_static s \<Longrightarrow> bump_wf s \<Longrightarrow> kernel_queues s {} {} [] 0 [] (\<lambda>_. [])"
  using stk_inv_start [OF heap_start [of s]] queues_start [of "k_irq s"]
  by (simp add: kernel_static_def kernel_queues_def threads_def thread_blocks_def)

lemma kernel_static_keeps:
  "sched_same (k_irq s) i \<Longrightarrow> kernel_static (s\<lparr>k_irq := i\<rparr>) = kernel_static s"
  "length (tss_ist (gd_tss g)) = length (tss_ist (gd_tss (k_gdt s))) \<Longrightarrow> kernel_static (s\<lparr>k_gdt := g\<rparr>) = kernel_static s"
  "kernel_static (s\<lparr>m_vga := v\<rparr>) = kernel_static s" "kernel_static (s\<lparr>pf_map := M\<rparr>) = kernel_static s"
  "pf_only s s' \<Longrightarrow> kernel_static s' = kernel_static s"
  "sched_same (k_irq s) (ks_irq t) \<Longrightarrow> kernel_static (with_kmap t s) = kernel_static s"
  by (auto simp: kernel_static_def sched_same_def pf_only_def with_kmap_def)

text \<open>The memory management comes up or the kernel halts.\<close>

lemma memory_up:
  assumes bi: "boot_info info tags b es hs" and st: "machine_static s"
    and p: "parse_multiboot_tags info tags (pf_map s) = Some M"
  shows "\<exists>s1. MMU_init_pf_alloc (s\<lparr>pf_map := M\<rparr>) = Inr s1 \<and>
    (setup_pml4 info handler (kmap_of s1) = Some (Inl OutOfMemory) \<or>
     (\<exists>t. setup_pml4 info handler (kmap_of s1) = Some (Inr t) \<and>
       (free_multiboot_sections info (with_kmap t s1) = Some (Inl OutOfMemory) \<or>
        (\<exists>s2. free_multiboot_sections info (with_kmap t s1) = Some (Inr s2) \<and> bump_wf s2 \<and> kernel_static s2 \<and>
          k_irq s2 = IRQ_set_handler PAGE_FAULT_IRQ handler NULL (k_irq s)))))"
proof -
  note d = bi [unfolded boot_info_def] and z = st [unfolded machine_static_def]
  from d obtain o1 o2 o3 where t: "tags_at info (tags + 8) ((o1 @ [Mmap_Tag es] @ o2) @ [Elf_Tag b hs] @ o3)" by auto
  note tag = tags_at_elf [OF t]
  from boot_memory [OF bi, of s] z p have m: "map_wf M" "mm_elf_tag M = b" "unat (memory_end M) \<le> 2 ^ 39" by auto
  obtain s1 where 1: "MMU_init_pf_alloc (s\<lparr>pf_map := M\<rparr>) = Inr s1" using MMU_init_inv [of "s\<lparr>pf_map := M\<rparr>"] m(1) by auto
  have w: "bump_wf s1" "pf_map s1 = M" using MMU_init_inv [of "s\<lparr>pf_map := M\<rparr>"] m(1) 1 by (auto simp: pf_inv_def)
  from 1 obtain c where c: "s1 = s\<lparr>pf_map := M, pf_current := c, pf_free_pool := NULL, pf_region := 0\<rparr>"
    by (auto simp: MMU_init_pf_alloc_def res_iff)
  have po: "pf_only (s\<lparr>pf_map := M\<rparr>) s1"
    by (rule pf_onlyI [where m = "pf_mem s" and c = c and r = 0 and p = NULL]) (simp add: c)
  have ks: "kernel_static s1" using kernel_static_keeps(4,5) po z by blast
  have k: "bump_wf (kmap_of s1)" "unat (memory_end (pf_map (kmap_of s1))) \<le> 2 ^ 39"
    "tag_at info (mm_elf_tag (pf_map (kmap_of s1))) (Elf_Tag (mm_elf_tag (pf_map (kmap_of s1))) hs)"
    using w m tag by (simp_all add: kmap_of_def bump_wf_def)
  have hs: "\<forall>h \<in> set hs. kernel_section h \<longrightarrow> unat (segment_address h) + unat (segment_size h) + 4096 \<le> 2 ^ 64" using d by blast
  have rest: "free_multiboot_sections info (with_kmap t s1) = Some (Inl OutOfMemory) \<or>
        (\<exists>s2. free_multiboot_sections info (with_kmap t s1) = Some (Inr s2) \<and> bump_wf s2 \<and> kernel_static s2 \<and>
          k_irq s2 = IRQ_set_handler PAGE_FAULT_IRQ handler NULL (k_irq s))"
    if r: "setup_pml4 info handler (kmap_of s1) = Some (Inr t)" for t
  proof -
    from setup_pml4_keeps [OF r k] have t: "bump_wf t" "pf_map t = M" "sched_same (k_irq s1) (ks_irq t)"
      and ki: "ks_irq t = IRQ_set_handler PAGE_FAULT_IRQ handler NULL (k_irq s)" using w(2) c by (simp_all add: kmap_of_def)
    have b: "bump_wf (with_kmap t s1)" "mm_elf_tag (pf_map (with_kmap t s1)) = b" using t m(2) by (simp_all add: with_kmap_def bump_wf_def)
    have "kernel_static (with_kmap t s1)" using kernel_static_keeps(6) t(3) ks by blast
    moreover have "k_irq (with_kmap t s1) = IRQ_set_handler PAGE_FAULT_IRQ handler NULL (k_irq s)" by (simp add: with_kmap_def ki)
    moreover have "k_irq s2 = k_irq u" if "pf_only u s2" for u s2 :: "('a, 'b, 'c) machine_scheme" using that by (auto simp: pf_only_def)
    ultimately show ?thesis using free_multiboot_sections_ends(1) [OF b tag] d kernel_static_keeps(5) by metis
  qed
  from setup_pml4_total [OF k hs] rest 1 show ?thesis by blast
qed

lemma kernel_queues_irq:
  assumes "sched_same (k_irq s) i" and "sc_procs i = sc_procs (k_irq s)"
  shows "kernel_queues (s\<lparr>k_irq := i\<rparr>) C S xs n R W = kernel_queues s C S xs n R W"
proof -
  have "stack_of (s\<lparr>k_irq := i\<rparr>) = stack_of s" by (rule ext) (simp add: stack_of_def assms(2))
  with assms(1) show ?thesis
    unfolding kernel_queues_def by (simp add: sched_same_queues) (simp add: sched_same_def)
qed

text \<open>The stack of the interrupt that ends a thread.\<close>

lemma PROC_init_queues:
  assumes inv: "kernel_queues s C S xs n R W" and left: "xs = [] \<longrightarrow> n < MAX_STACKS" and g: "length (tss_ist (gd_tss (k_gdt s))) = 7"
  shows "PROC_init y e s = Inl OutOfMemory \<or>
    (\<exists>s' t. PROC_init y e s = Inr s' \<and> t \<notin> S \<union> stack_of s ` threads R W \<and>
       kernel_queues s' C (insert t S) (tl xs) (if xs = [] then Suc n else n) R W \<and> tss_ist (gd_tss (k_gdt s')) ! 3 = t \<and> 
       hp_brk s' = hp_brk s \<and> k_irq s' = IRQ_set_handler (of_nat KEXIT_IRQ) e NULL (set_sys_call YIELD_SYS_CALL y (k_irq s)))"
    and "MMU_alloc_stack s = Inr (t, u) \<Longrightarrow> \<exists>i g. PROC_init y e s = Inr (u\<lparr>k_irq := i, k_gdt := g\<rparr>)"
proof -
  have i: "stk_inv s (C \<union> thread_blocks (threads R W)) (S \<union> stack_of s ` threads R W) xs n" using inv by (simp add: kernel_queues_def)
  let ?i = "\<lambda>u. IRQ_set_handler (of_nat KEXIT_IRQ) e NULL (set_sys_call YIELD_SYS_CALL y (k_irq u))"
  let ?g = "\<lambda>u t. (k_gdt u)\<lparr>gd_tss := (gd_tss (k_gdt u))\<lparr>tss_ist := (tss_ist (gd_tss (k_gdt u)))[3 := t]\<rparr>\<rparr>"
  have run: "PROC_init y e s = Inr (u\<lparr>k_irq := ?i u, k_gdt := ?g u t\<rparr>)" if r: "MMU_alloc_stack s = Inr (t, u)" for t u
    using g r kernel_queues_stack(5) [OF inv left r] by (simp add: PROC_init_def Let_def TSS_set_ist_def KEXIT_IST_def)
  show "MMU_alloc_stack s = Inr (t, u) \<Longrightarrow> \<exists>i g. PROC_init y e s = Inr (u\<lparr>k_irq := i, k_gdt := g\<rparr>)" using run by blast
  from MMU_alloc_stack_halt [OF i left] show "PROC_init y e s = Inl OutOfMemory \<or>
    (\<exists>s' t. PROC_init y e s = Inr s' \<and> t \<notin> S \<union> stack_of s ` threads R W \<and>
       kernel_queues s' C (insert t S) (tl xs) (if xs = [] then Suc n else n) R W \<and> tss_ist (gd_tss (k_gdt s')) ! 3 = t \<and> 
       hp_brk s' = hp_brk s \<and> k_irq s' = IRQ_set_handler (of_nat KEXIT_IRQ) e NULL (set_sys_call YIELD_SYS_CALL y (k_irq s)))"
  proof (elim disjE exE)
    assume "MMU_alloc_stack s = Inl OutOfMemory"
    then show ?thesis by (simp add: PROC_init_def)
  next
    fix t u assume r: "MMU_alloc_stack s = Inr (t, u)"
    note k = kernel_queues_stack [OF inv left r]
    have sm: "sched_same (k_irq u) (?i u)" "sc_procs (?i u) = sc_procs (k_irq u)"
      by (simp_all add: sched_same_def IRQ_set_handler_def set_sys_call_def)
    have "kernel_queues (u\<lparr>k_irq := ?i u, k_gdt := ?g u t\<rparr>) C (insert t S) (tl xs) (if xs = [] then Suc n else n) R W"
      using k(2) kernel_queues_irq [OF sm] by (simp only: kernel_queues_gdt)
    with run [OF r] k(1,4,5,6) g show ?thesis by (intro disjI2 exI [of _ "u\<lparr>k_irq := ?i u, k_gdt := ?g u t\<rparr>"] exI [of _ t]) simp
  qed
qed

text \<open>The loop's first round runs the only thread.\<close>

lemma PROC_run_single:
  assumes inv: "queues_inv i [p] W"
  shows "pr_curr (PROC_run i) = p" "p_stack_top (sc_procs (PROC_run i) q) = p_stack_top (sc_procs i q)" "pr_orig (PROC_run i) = pr_orig i"
    "p \<noteq> pr_orig i \<Longrightarrow> pr_cpu (PROC_run i) = (p_regfile (sc_procs i p))\<lparr>rf_rbp := rf_rbp (pr_cpu i)\<rparr>"
proof -
  have q: "p \<noteq> NULL" "q_head (sc_queue i) = p" "q_tail (sc_queue i) = p" "sc_current i = NULL \<or> sc_current i = p"
    using inv by (auto simp: queues_inv_def sched_inv_def queue_repr_def)
  then show "pr_curr (PROC_run i) = p"
    by (auto simp: PROC_run_def are_procs_scheduled_def yield_def yield_sys_call_def PROC_reschedule_def rr_next_def Let_def)
  show "p_stack_top (sc_procs (PROC_run i) q) = p_stack_top (sc_procs i q)" "pr_orig (PROC_run i) = pr_orig i"
    by (simp_all add: PROC_run_def yield_def yield_sys_call_def CONTEXT_SWITCH_def PROC_reschedule_def rr_next_def Let_def)
  assume "p \<noteq> pr_orig i"
  with q show "pr_cpu (PROC_run i) = (p_regfile (sc_procs i p))\<lparr>rf_rbp := rf_rbp (pr_cpu i)\<rparr>"
    by (auto simp: PROC_run_def are_procs_scheduled_def yield_def yield_sys_call_def CONTEXT_SWITCH_def PROC_reschedule_def rr_next_def Let_def)
qed

lemma round_runs:
  assumes inv: "kernel_queues s C S xs n [p] W"
  shows "kernel_inv (kmain_round s) C S xs n [p] W" "pr_curr (k_irq (kmain_round s)) = p" "stack_of (kmain_round s) = stack_of s"
    "pr_cpu (k_irq (kmain_round s)) = (p_regfile (sc_procs (k_irq s) p))\<lparr>rf_rbp := rf_rbp (pr_cpu (k_irq s))\<rparr>"
proof -
  have c: "sched_same (k_irq s) (CLI (k_irq s))" "sc_procs (CLI (k_irq s)) = sc_procs (k_irq s)" by (simp_all add: sched_same_def CLI_def)
  note d = inv [unfolded kernel_queues_def]
  have q: "queues_inv (CLI (k_irq s)) [p] W" using d by (simp add: sched_same_queues [OF c(1)])
  note r = PROC_run_single [OF q]
  show so: "stack_of (kmain_round s) = stack_of s" by (rule ext) (simp add: stack_of_def kmain_round_def r(2) c(2))
  show "pr_curr (k_irq (kmain_round s)) = p" by (simp add: kmain_round_def r(1))
  have pi: "proc_inv (PROC_run (CLI (k_irq s))) [p] W" by (rule PROC_run_inv [OF q])
  have po: "p \<noteq> pr_orig (CLI (k_irq s))" using pi r(3) by (auto simp: proc_inv_def)
  show "pr_cpu (k_irq (kmain_round s)) = (p_regfile (sc_procs (k_irq s) p))\<lparr>rf_rbp := rf_rbp (pr_cpu (k_irq s))\<rparr>"
    using r(4) [OF po] by (simp add: kmain_round_def c(2)) (simp add: CLI_def)
  have "pr_orig (CLI (k_irq s)) = pr_orig (k_irq s)" by (simp add: CLI_def)
  then show "kernel_inv (kmain_round s) C S xs n [p] W"
    using d pi unfolding kernel_inv_def so by (simp add: kmain_round_def r(3))
qed

text \<open>The tables of the interrupts, which scheduling leaves alone.\<close>

definition irq_tables :: "('d, 'b) irq_state_scheme \<Rightarrow> idt_entry list \<times> bool \<times> irq_entry list \<times> ptr list" where
  "irq_tables i = (idt i, idt_loaded i, irq_handler_table i, sys_calls i)"

lemma irq_tables_sched [simp]:
  "irq_tables (setup_kthread w p t e a i) = irq_tables i" "irq_tables (PROC_run i) = irq_tables i" "irq_tables (CLI i) = irq_tables i"
  by (simp_all add: irq_tables_def setup_kthread_def sched_admit_def PROC_run_def CLI_def yield_def yield_sys_call_def CONTEXT_SWITCH_def
      PROC_reschedule_def rr_next_def Let_def split_def)

lemma create_keeps:
  assumes inv: "kernel_queues s C S xs n R W" and ft: "fits PROCESS_SIZE s" and left: "xs = [] \<longrightarrow> n < MAX_STACKS"
    and r: "PROC_create_kthread w e a s = Inr (p, s')"
  shows "k_gdt s' = k_gdt s" "irq_tables (k_irq s') = irq_tables (k_irq s)"
proof -
  have i0: "stk_inv s (C \<union> thread_blocks (threads R W)) (S \<union> stack_of s ` threads R W) xs n" using inv by (simp add: kernel_queues_def)
  from r obtain s1 t s2 where a: "kcalloc 1 PROCESS_SIZE s = Inr (p, s1)" and b: "MMU_alloc_stack s1 = Inr (t, s2)"
    and s': "s' = s2\<lparr>k_irq := setup_kthread w p t e a (k_irq s2)\<rparr>"
    by (auto simp: PROC_create_kthread_def res_iff)
  note ka = kcalloc_process [OF i0 ft a]
  then have i1: "stk_inv s1 (insert (p, 240) (C \<union> thread_blocks (threads R W))) (S \<union> stack_of s ` threads R W) xs n" by blast
  have "stack_state.more s2 = stack_state.more s" using ka MMU_alloc_stack_inv [OF i1 left b] by simp
  from stack_more_fields [OF this] show "k_gdt s' = k_gdt s" "irq_tables (k_irq s') = irq_tables (k_irq s)" by (simp_all add: s')
qed

text \<open>\<^verbatim>\<open>kmain\<close> from the memory management on.\<close>

definition kmain_threads :: "boot_addresses \<Rightarrow> ('d, 'b, 'a) machine_scheme \<Rightarrow> ('d, 'b, 'a) machine_scheme res" where
  "kmain_threads a s =
     bind_res (PROC_init (ba_yield a) (ba_kexit a) (s\<lparr>k_irq := init_sys_calls (ba_putc a) (k_irq s)\<rparr>)) (\<lambda>s.
     bind_res (PROC_create_kthread (ba_wrapper a) (ba_thread a) NULL s) (\<lambda>(_, s). Inr s))"

definition tables_ready :: "boot_addresses \<Rightarrow> ('d, 'b) irq_state_scheme \<Rightarrow> ('d, 'c) irq_state_scheme \<Rightarrow> bool" where
  "tables_ready a i j \<longleftrightarrow> idt j = idt i \<and> idt_loaded j = idt_loaded i \<and>
     irq_handler_table j = (irq_handler_table i)
       [unat PAGE_FAULT_IRQ := \<lparr>ih_arg = NULL, ih_handler = ba_page_fault a + kernel_text_offset i\<rparr>,
        KEXIT_IRQ := \<lparr>ih_arg = NULL, ih_handler = ba_kexit a + kernel_text_offset i\<rparr>] \<and>
     sys_calls j = (sys_calls i)[unat PUTC_SYS_CALL := ba_putc a, unat YIELD_SYS_CALL := ba_yield a]"

definition first_thread_runs :: "boot_addresses \<Rightarrow> ('d, 'b, 'a) kernel_scheme \<Rightarrow> bool" where
  "first_thread_runs a s \<longleftrightarrow> (\<exists>p t. kernel_inv s {} {t} [] 2 [p] (\<lambda>_. []) \<and> tss_ist (gd_tss (k_gdt s)) ! 3 = t \<and> pr_curr (k_irq s) = p \<and>
     rf_rip (pr_cpu (k_irq s)) = ba_wrapper a \<and> rf_rdi (pr_cpu (k_irq s)) = ba_thread a \<and> rf_rsi (pr_cpu (k_irq s)) = NULL \<and>
     rf_rsp (pr_cpu (k_irq s)) = stack_of s p \<and> rf_rflags (pr_cpu (k_irq s)) = IE_FLAG OR RES_FLAG)"

lemma kmain_threads_ok:
  assumes st: "kernel_static s" and wf: "bump_wf s" and i: "k_irq s = IRQ_set_handler PAGE_FAULT_IRQ (ba_page_fault a) NULL i"
  shows "kmain_threads a s = Inl OutOfMemory \<or>
    (\<exists>s'. kmain_threads a s = Inr s' \<and> first_thread_runs a (kmain_round s') \<and> tables_ready a i (k_irq (kmain_round s')))"
proof -
  let ?s = "s\<lparr>k_irq := init_sys_calls (ba_putc a) (k_irq s)\<rparr>"
  have st': "kernel_static ?s" using st by (simp add: kernel_static_keeps(1))
  have wf': "bump_wf ?s" using wf by (simp add: bump_wf_def)
  note q = kernel_static_queues [OF st' wf']
  have l0: "[] = [] \<longrightarrow> 0 < MAX_STACKS" and l1: "[] = [] \<longrightarrow> Suc 0 < MAX_STACKS" by (simp_all add: MAX_STACKS_def)
  have g: "length (tss_ist (gd_tss (k_gdt ?s))) = 7" using st by (simp add: kernel_static_def)
  from PROC_init_queues(1) [OF q l0 g, of "ba_yield a" "ba_kexit a"] show ?thesis
  proof (elim disjE exE conjE)
    assume "PROC_init (ba_yield a) (ba_kexit a) ?s = Inl OutOfMemory"
    then show ?thesis by (simp add: kmain_threads_def)
  next
    fix s1 t
    assume r: "PROC_init (ba_yield a) (ba_kexit a) ?s = Inr s1"
      and q1': "kernel_queues s1 {} (insert t {}) (tl []) (if [] = [] then Suc 0 else 0) [] (\<lambda>_. [])"
      and t: "tss_ist (gd_tss (k_gdt s1)) ! 3 = t" and b: "hp_brk s1 = hp_brk ?s"
      and k: "k_irq s1 = IRQ_set_handler (of_nat KEXIT_IRQ) (ba_kexit a) NULL (set_sys_call YIELD_SYS_CALL (ba_yield a) (k_irq ?s))"
    have q1: "kernel_queues s1 {} {t} [] (Suc 0) [] (\<lambda>_. [])" using q1' by simp
    have ft: "fits PROCESS_SIZE s1"
      using b st by (simp add: fits_def PROCESS_SIZE_def kernel_static_def KERNEL_HEAP_START_def KERNEL_STACKS_START_def)
    have tr: "tables_ready a i (k_irq s1)"
      unfolding tables_ready_def k
      by (simp add: i init_sys_calls_def set_sys_call_def IRQ_set_handler_def KEXIT_IRQ_def)
    show ?thesis
    proof (cases "PROC_create_kthread (ba_wrapper a) (ba_thread a) NULL s1 = Inl OutOfMemory")
      case True
      with r show ?thesis by (simp add: kmain_threads_def)
    next
      case False
      with PROC_create_kthread_halt [OF q1 ft l1] obtain p s2 where c: "PROC_create_kthread (ba_wrapper a) (ba_thread a) NULL s1 = Inr (p, s2)" by blast
      note cq = PROC_create_kthread_queues [OF q1 ft l1 c] and ck = create_keeps [OF q1 ft l1 c]
      have q2: "kernel_queues s2 {} {t} [] 2 [p] (\<lambda>_. [])" using cq by (simp add: numeral_2_eq_2)
      note rr = round_runs [OF q2]
      have "k_gdt (kmain_round s2) = k_gdt s1" by (simp add: kmain_round_def ck(1))
      then have "first_thread_runs a (kmain_round s2)"
        unfolding first_thread_runs_def using rr t cq by (intro exI [of _ p] exI [of _ t]) simp
      moreover have "irq_tables (k_irq (kmain_round s2)) = irq_tables (k_irq s1)" using ck(2) by (simp add: kmain_round_def)
      then have "tables_ready a i (k_irq (kmain_round s2))" using tr by (simp add: irq_tables_def tables_ready_def)
      ultimately show ?thesis using r c by (auto simp: kmain_threads_def)
    qed
  qed
qed

lemma kmain_init_split:
  "kmain_init P stubs ist1 ist2 ist3 info tags a s =
     (let s = s\<lparr>k_gdt := TSS_init ist1 ist2 ist3 (GDT_remap boot_gdt (k_gdt s)), k_irq := IRQ_init P stubs (k_irq s), m_vga := VGA_clear (m_vga s)\<rparr>
      in Option.bind (parse_multiboot_tags info tags (pf_map s)) (\<lambda>M.
         bind_ro (Some (MMU_init_pf_alloc (s\<lparr>pf_map := M\<rparr>))) (\<lambda>s.
         bind_ro (setup_pml4 info (ba_page_fault a) (kmap_of s)) (\<lambda>t.
         bind_ro (free_multiboot_sections info (with_kmap t s)) (\<lambda>s. Some (kmain_threads a s))))))"
proof -
  have c: "bind_ro (Some x) (\<lambda>s. bind_ro (Some (g s)) (\<lambda>(_, s). Some (Inr s))) = Some (bind_res x (\<lambda>s. bind_res (g s) (\<lambda>(_, s). Inr s)))"
    for x :: "'x res" and g :: "'x \<Rightarrow> ('y \<times> 'z) res"
    by (cases x) (auto simp: bind_res_def split: sum.splits)
  show ?thesis unfolding kmain_init_def kmain_threads_def Let_def c by simp
qed

text \<open>The threads come up where memory is left.\<close>

lemma kmain_threads_run:
  assumes st: "kernel_static s" and wf: "bump_wf s" and rm: "room 15 s"
  shows "\<exists>s'. kmain_threads a s = Inr s'"
proof -
  let ?s = "s\<lparr>k_irq := init_sys_calls (ba_putc a) (k_irq s)\<rparr>"
  have st': "kernel_static ?s" using st by (simp add: kernel_static_keeps(1))
  have wf': "bump_wf ?s" using wf by (simp add: bump_wf_def)
  note q = kernel_static_queues [OF st' wf']
  have l0: "[] = [] \<longrightarrow> 0 < MAX_STACKS" and l1: "[] = [] \<longrightarrow> Suc 0 < MAX_STACKS" by (simp_all add: MAX_STACKS_def)
  have g: "length (tss_ist (gd_tss (k_gdt ?s))) = 7" using st by (simp add: kernel_static_def)
  have "stk_inv ?s {} {} [] 0" using q by (simp add: kernel_queues_def threads_def thread_blocks_def)
  from stack_progress [OF this l0, of 9] obtain t u where 1: "MMU_alloc_stack ?s = Inr (t, u)" "room 9 u" using rm by (auto simp: room_def bump_core_def)
  from PROC_init_queues(2) [OF q l0 g 1(1)] obtain i g' where 2: "PROC_init (ba_yield a) (ba_kexit a) ?s = Inr (u\<lparr>k_irq := i, k_gdt := g'\<rparr>)" by blast
  let ?u = "u\<lparr>k_irq := i, k_gdt := g'\<rparr>"
  from PROC_init_queues(1) [OF q l0 g, of "ba_yield a" "ba_kexit a"] 2 obtain t' where
    q1: "kernel_queues ?u {} {t'} [] (Suc 0) [] (\<lambda>_. [])" and b: "hp_brk ?u = hp_brk ?s" by auto
  have ft: "fits PROCESS_SIZE ?u"
    using b st by (simp add: fits_def PROCESS_SIZE_def kernel_static_def KERNEL_HEAP_START_def KERNEL_STACKS_START_def)
  have "room 9 ?u" using 1(2) by (simp add: room_def bump_core_def)
  with create_progress [OF q1 ft l1, of 0 "ba_wrapper a" "ba_thread a" NULL] obtain p s' where
    "PROC_create_kthread (ba_wrapper a) (ba_thread a) NULL ?u = Inr (p, s')" by (auto simp: eval_nat_numeral)
  with 2 show ?thesis by (simp add: kmain_threads_def)
qed

lemma tables_static:
  assumes "machine_static s"
  shows "machine_static (s\<lparr>k_gdt := TSS_init ist1 ist2 ist3 (GDT_remap boot_gdt (k_gdt s)), k_irq := IRQ_init P stubs (k_irq s), m_vga := VGA_clear (m_vga s)\<rparr>)"
proof -
  have z: "mm_regions (pf_map s) = replicate MAX_REGIONS \<lparr>rg_start = 0, rg_end = 0\<rparr>" and ks: "kernel_static s"
    using assms by (simp_all add: machine_static_def)
  let ?g = "s\<lparr>k_gdt := TSS_init ist1 ist2 ist3 (GDT_remap boot_gdt (k_gdt s))\<rparr>"
  have "kernel_static ?g" using ks by (subst kernel_static_keeps(2)) (simp_all add: tss_start)
  then have "kernel_static (?g\<lparr>k_irq := IRQ_init P stubs (k_irq ?g)\<rparr>)" using kernel_static_keeps(1) [OF sched_same_init] by blast
  with z show ?thesis by (simp add: machine_static_def kernel_static_keeps(3))
qed

lemma IRQ_init_tables:
  "sys_calls (IRQ_init P stubs i) = sys_calls i" "irq_handler_table (IRQ_init P stubs i) = irq_handler_table i"
  "kernel_text_offset (IRQ_init P stubs i) = kernel_text_offset i"
proof -
  have e: "sys_calls (init_entries w k n j) = sys_calls j \<and> irq_handler_table (init_entries w k n j) = irq_handler_table j \<and>
      kernel_text_offset (init_entries w k n j) = kernel_text_offset j" for w k n and j :: "('a, 'b) irq_state_scheme"
    by (induction n arbitrary: k j) (simp_all add: set_idt_entry_def Let_def)
  show "sys_calls (IRQ_init P stubs i) = sys_calls i" "irq_handler_table (IRQ_init P stubs i) = irq_handler_table i"
    "kernel_text_offset (IRQ_init P stubs i) = kernel_text_offset i"
    using e [of "isr_wrapper_table stubs" 0 NUM_IDT_ENTRIES i]
    by (simp_all add: IRQ_init_def Let_def STI_def set_gate_def PIC_remap_def split_beta outb_def io_wait_def inb_def IRQ_clear_mask_def)
qed

section \<open>Properties\<close>


section \<open>An example\<close>

text \<open>The boot information at \<open>0x9000\<close>: one megabyte of memory behind the first one, with the kernel at its start.\<close>

definition machine_example :: "(unit, unit) machine" where
  "machine_example = kernel.extend ((mem_example (irq_example\<lparr>pr_orig := KERNEL_TEXT_START, irq_handler_table := replicate 256 \<lparr>ih_arg = NULL, ih_handler = NULL\<rparr>,
       sys_calls := replicate 256 0\<rparr>))\<lparr>pf_map := mb_start\<rparr>)
     \<lparr>m_old_pml4 = 0x101000, m_cr3 = 0x101000, m_no_execute = False, m_vga = ks_vga kmap_example\<rparr>"

lemma machine_example_static: "machine_static machine_example"
  by (simp add: machine_static_def kernel_static_def machine_example_def kernel.defs mem_example_def stack_state.defs stk_example_def
      km_state.defs km_example_def mb_start_def irq_example_def KERNEL_STACKS_START_def KERNEL_TEXT_START_def)

lemma boot_info_example: "boot_info mb_mem 0x9000 0x9030 mb_entries mb_sections"
proof -
  have "freeing_ends mb_mem 0x9030 mb_sections"
    by (simp add: freeing_ends_def mb_sections_def boot_section_def KERNEL_TEXT_START_def)
  moreover have "\<forall>h \<in> set mb_sections. kernel_section h \<longrightarrow> unat (segment_address h) + unat (segment_size h) + 4096 \<le> 2 ^ 64"
    by (simp add: mb_sections_def)
  moreover have "unat (rg_end (last (free_regions mb_entries))) \<le> 2 ^ 39" by (simp add: mb_info(2))
  moreover have "\<exists>o1 o2 o3. tags_at mb_mem (0x9000 + 8) (o1 @ [Mmap_Tag mb_entries] @ o2 @ [Elf_Tag 0x9030 mb_sections] @ o3) \<and>
      (\<forall>t \<in> set (o1 @ o2 @ o3). t = Other_Tag)"
    using mb_tags by (intro exI [of _ "[]"]) simp
  ultimately show ?thesis using mb_info unfolding boot_info_def by blast
qed

lemma first_frame:
  assumes o: "one_range (pf_map s)" and k: "mm_kernel (pf_map s) = \<lparr>rg_start = 0x100000, rg_end = 0x102000\<rparr>"
    and i: "mm_multiboot (pf_map s) = \<lparr>rg_start = 0x9000, rg_end = 0x9090\<rparr>"
    and c: "pf_free_pool s = NULL" "pf_current s = 0x100000" "pf_region s = 0"
  shows "\<exists>s1. MMU_pf_alloc s = Inr (0x102000, s1) \<and> room 250 s1"
proof -
  have M: "length (mm_regions (pf_map s)) = 64" "mm_regions (pf_map s) ! 0 = \<lparr>rg_start = 0x100000, rg_end = 0x200000\<rparr>" "mm_num_regions (pf_map s) = 1"
    using o by (auto simp: one_range_def dest: map_wfD(1))
  let ?s = "s\<lparr>pf_current := 0x102000\<rparr>"
  have "check_addr ?s = Some (Inr (0x102000, s\<lparr>pf_current := 0x103000\<rparr>))"
    by (subst check_addr.simps) (simp add: enter_region_def region_at_def in_region_def range_contains_addr_def M k i c PAGE_SIZE_def)
  then have "check_addr s = Some (Inr (0x102000, s\<lparr>pf_current := 0x103000\<rparr>))"
    by (subst check_addr.simps) (simp add: enter_region_def region_at_def in_region_def range_contains_addr_def M k i c align_page_def PAGE_SIZE_def)
  then have "MMU_pf_alloc s = Inr (0x102000, s\<lparr>pf_current := 0x103000\<rparr>)" by (simp add: MMU_pf_alloc_def pop_free_pf_def c)
  moreover have "room 250 (s\<lparr>pf_current := 0x103000\<rparr>)"
    by (rule room_range) (simp_all add: o k i c page_aligned_def PAGE_SIZE_def)
  ultimately show ?thesis by blast
qed

lemma mb_parsed:
  "\<exists>M. parse_multiboot_tags mb_mem 0x9000 mb_start = Some M \<and> one_range M \<and> mm_elf_tag M = 0x9030 \<and> unat (memory_end M) \<le> 2 ^ 39 \<and>
     mm_kernel M = \<lparr>rg_start = 0x100000, rg_end = 0x102000\<rparr> \<and> mm_multiboot M = \<lparr>rg_start = 0x9000, rg_end = 0x9090\<rparr>"
proof -
  let ?s = "(pf_example 0)\<lparr>pf_map := mb_start\<rparr>"
  have z: "mm_regions (pf_map ?s) = replicate MAX_REGIONS \<lparr>rg_start = 0, rg_end = 0\<rparr>" by (simp add: mb_info(7))
  from boot_memory [OF boot_info_example z] obtain M where
    M: "parse_multiboot_tags mb_mem 0x9000 mb_start = Some M" "map_wf M" "mm_elf_tag M = 0x9030" "unat (memory_end M) \<le> 2 ^ 39"
      "take (unat (mm_num_regions M)) (mm_regions M) = [\<lparr>rg_start = 0x100000, rg_end = 0x200000\<rparr>]"
      "mm_multiboot M = \<lparr>rg_start = 0x9000, rg_end = 0x9090\<rparr>" by (auto simp: mb_info(2,6))
  have l: "length (mm_regions mb_start) = MAX_REGIONS" by (simp add: mb_start_def)
  have p: "parse_multiboot_tags mb_mem 0x9000 mb_start =
     Some (fold apply_tag ([] @ [Mmap_Tag mb_entries] @ [] @ [Elf_Tag 0x9030 mb_sections] @ [])
       (mb_start\<lparr>mm_multiboot := \<lparr>rg_start = 0x9000, rg_end = 0x9000 + ucast (rd32 mb_mem 0x9000)\<rparr>\<rparr>))"
    using tag_loop_eq [OF mb_tags] l by (simp add: parse_multiboot_tags_def)
  with M(1) have k: "mm_kernel M = \<lparr>rg_start = 0x100000, rg_end = 0x102000\<rparr>" "mm_num_regions M = 1"
    using mb_tags_map by (metis option.inject)+
  have "mm_regions M ! 0 = \<lparr>rg_start = 0x100000, rg_end = 0x200000\<rparr>" using M(5) k(2) by (cases "mm_regions M") simp_all
  then have "one_range M" using M(2) k(2) by (simp add: one_range_def)
  with M k show ?thesis by blast
qed

lemma mb_tag: "tag_at mb_mem 0x9030 (Elf_Tag 0x9030 mb_sections)"
proof -
  have "tags_at mb_mem (0x9000 + 8) ([Mmap_Tag mb_entries] @ [Elf_Tag 0x9030 mb_sections] @ [])" using mb_tags by simp
  then show ?thesis by (rule tags_at_elf)
qed

lemma machine_example_runs:
  "\<exists>s'. kmain_init null_ports stubs ist1 ist2 ist3 mb_mem 0x9000 a machine_example = Some (Inr s')"
proof -
  let ?i = "IRQ_init null_ports stubs (k_irq machine_example)"
  let ?s = "machine_example\<lparr>k_gdt := TSS_init ist1 ist2 ist3 (GDT_remap boot_gdt (k_gdt machine_example)), k_irq := ?i, m_vga := VGA_clear (m_vga machine_example)\<rparr>"
  have pm: "pf_map machine_example = mb_start" by (simp add: machine_example_def kernel.defs)
  obtain M where M: "parse_multiboot_tags mb_mem 0x9000 mb_start = Some M" "one_range M" "mm_elf_tag M = 0x9030" "unat (memory_end M) \<le> 2 ^ 39"
      "mm_kernel M = \<lparr>rg_start = 0x100000, rg_end = 0x102000\<rparr>" "mm_multiboot M = \<lparr>rg_start = 0x9000, rg_end = 0x9090\<rparr>"
    using mb_parsed by blast
  have wf: "map_wf M" and r0: "mm_regions M ! 0 = \<lparr>rg_start = 0x100000, rg_end = 0x200000\<rparr>" and l: "length (mm_regions M) = 64"
    using M(2) by (auto simp: one_range_def dest: map_wfD(1))
  let ?s1 = "?s\<lparr>pf_map := M, pf_current := 0x100000, pf_free_pool := NULL, pf_region := 0\<rparr>"
  have 1: "MMU_init_pf_alloc (?s\<lparr>pf_map := M\<rparr>) = Inr ?s1"
    using l by (simp add: MMU_init_pf_alloc_def region_at_def r0 align_page_def PAGE_SIZE_def)
  let ?k = "(kmap_of ?s1)\<lparr>ks_irq := IRQ_set_handler PAGE_FAULT_IRQ (ba_page_fault a) NULL (ks_irq (kmap_of ?s1)), no_execute_enabled := True\<rparr>"
  obtain f s2 where 2: "MMU_pf_alloc ?k = Inr (f, s2)" "room 250 s2"
    using first_frame [of ?k] M by (auto simp: kmap_of_def)
  have w1: "bump_wf (kmap_of ?s1)" "unat (memory_end (pf_map (kmap_of ?s1))) \<le> 2 ^ 39"
    using wf M(4) by (simp_all add: bump_wf_def kmap_of_def page_aligned_def PAGE_SIZE_def one_range_def M(2))
  have tag: "tag_at mb_mem 0x9030 (Elf_Tag 0x9030 mb_sections)" by (rule mb_tag)
  then have t1: "tag_at mb_mem (mm_elf_tag (pf_map (kmap_of ?s1))) (Elf_Tag (mm_elf_tag (pf_map (kmap_of ?s1))) mb_sections)"
    by (simp add: kmap_of_def M(3))
  have "room (Suc (6 + 243)) s2" using 2(2) by simp
  from setup_pml4_run [OF 2(1) this w1 t1] obtain t where 3: "setup_pml4 mb_mem (ba_page_fault a) (kmap_of ?s1) = Some (Inr t)" "room 243 t" by blast
  have kt: "bump_wf t" "pf_map t = M" "ks_irq t = IRQ_set_handler PAGE_FAULT_IRQ (ba_page_fault a) NULL ?i"
    using setup_pml4_keeps [OF 3(1) w1 t1] by (simp_all add: kmap_of_def)
  let ?u = "with_kmap t ?s1"
  have u: "bump_wf ?u" "mm_elf_tag (pf_map ?u) = 0x9030" "room (Suc 242) ?u"
    using kt 3(2) M(3) by (simp_all add: with_kmap_def bump_wf_def room_def bump_core_def)
  have fe: "freeing_ends mb_mem 0x9030 mb_sections" using boot_info_example by (simp add: boot_info_def)
  from free_multiboot_sections_ends(2) [OF u(1,2) tag fe u(3)] obtain s3 where 4: "free_multiboot_sections mb_mem ?u = Some (Inr s3)" "room 242 s3" by blast
  have p: "parse_multiboot_tags mb_mem 0x9000 (pf_map ?s) = Some M" using M(1) by (simp add: pm)
  from memory_up [OF boot_info_example tables_static [OF machine_example_static] p, of "ba_page_fault a"] 1 3(1) 4(1)
  have 5: "bump_wf s3" "kernel_static s3" by auto
  have "room 15 s3" by (rule room_le [OF 4(2)]) simp
  from kmain_threads_run [OF 5(2,1) this, of a] obtain s' where "kmain_threads a s3 = Inr s'" by blast
  then show ?thesis using 1 3(1) 4(1) M(1) by (simp add: kmain_init_split pm Let_def)
qed

definition addresses_example :: boot_addresses where
  "addresses_example = \<lparr>ba_page_fault = 0xffffffff80103000, ba_putc = 0xffffffff80103010, ba_yield = 0xffffffff80103020,
     ba_kexit = 0xffffffff80103030, ba_wrapper = 0xffffffff80103040, ba_thread = 0xffffffff80103050\<rparr>"


end
