(* ===== verification/Spec2Isabelle.thy ===== *)
theory Spec2Isabelle
  imports Printk Kernel_Start
begin

text \<open>
  HaydenOS, a 64 bit kernel in C: a model of its core in HOL, with the properties that make the
  parts correct. All sources are under \<^verbatim>\<open>src/src/kernel\<close>.

  \<^bold>\<open>The program.\<close> \<^verbatim>\<open>kmain\<close> sets up descriptor tables, interrupts, the screen and memory, then runs
  kernel threads in a loop. Page frames come from the memory map of the boot loader
  (\<^verbatim>\<open>mem/multiboot.c\<close>, \<^verbatim>\<open>mem/pf_alloc.c\<close>); page tables (\<^verbatim>\<open>mem/page_table.c\<close>) take frames for tables and, on
  page faults, for pages that were only reserved; the heap (\<^verbatim>\<open>mem/heap_alloc.c\<close>, \<^verbatim>\<open>lib/kmalloc.c\<close>) reserves
  pages and cuts them into blocks; stacks (\<^verbatim>\<open>mem/stack_alloc.c\<close>) are reserved above it. Threads (\<^verbatim>\<open>proc\<close>) own a
  heap block and a stack and live in intrusive queues: the ready queue, which the round robin scheduler goes
  around, and the wait queues of the drivers. The serial port and the keyboard exchange characters with their
  interrupt handlers through ring buffers (\<^verbatim>\<open>lib/circ_buff.c\<close>). The disk driver gives a block device, the
  partitions give block devices on top of it, FAT32 reads files and directories from one, and the virtual
  file system looks up paths. The first thread finds a program on the disk, loads it (\<^verbatim>\<open>elf.c\<close>) and enters
  user mode in it.

  \<^bold>\<open>Theories.\<close> Each component has its own, in the order of the calls:
  \<^item> \<open>Kernel_Prelude\<close>: C integers as words, results that can be a halt (no memory left, an error of the disk, the
    endless loop of a handler), an access out of bounds or a divergence, the sequencing of such operations, list ends, word lemmas.
  \<^item> \<open>Proc_Queue\<close>, \<open>Scheduler\<close>, \<open>Proc\<close>: \<^verbatim>\<open>proc/proc_queue.c\<close>, \<^verbatim>\<open>scheduler.c\<close>, \<^verbatim>\<open>proc.c\<close> and the context switch
    of \<^verbatim>\<open>irq/isr_wrapper.asm\<close>. The processes are a store from addresses to records with next and prev
    pointers; \<open>queue_repr\<close> ties a queue to a list of addresses.
  \<^item> \<open>Memdef\<close>, \<open>Pf_Alloc\<close>, \<open>Page_Table\<close>, \<open>Heap_Alloc\<close>, \<open>KMalloc\<close>, \<open>Stack_Alloc\<close>: memory management. Physical
    memory is a map from addresses to 64 bit cells, seen through the direct map; the memory of the heap is a
    map from addresses to bytes, in which the free lists and the list of free stacks are linked.
  \<^item> \<open>Multiboot\<close>, \<open>Kernel_Map\<close>: the boot loader's tags (\<^verbatim>\<open>mem/multiboot.c\<close>), read from a byte memory into the
    memory map of the allocator, and the address space the kernel makes for itself from it.
  \<^item> \<open>Gdt\<close>: \<^verbatim>\<open>gdt.c\<close>, the segment descriptors and the task state segment, as records and as the words that the
    processor reads.
  \<^item> \<open>Threads\<close>: creating and ending threads over the heap, the stacks, the scheduler, the interrupt table and
    the task state segment; one record \<open>kernel\<close> carries them all.
  \<^item> \<open>CString\<close>, \<open>VGA\<close>, \<open>Printk\<close>: the string library over a byte memory, the text screen in it, and
    formatted printing.
  \<^item> \<open>Port_IO\<close>, \<open>Irq\<close>: port input and output, interrupt gates, handlers, masks and system calls.
  \<^item> \<open>Circ_Buff\<close>, \<open>Serial\<close>, \<open>Keyboard\<close>: the ring buffer and the two character drivers.
  \<^item> \<open>Block_Dev\<close>, \<open>Partition\<close>, \<open>Fat\<close>, \<open>Fat_Dir\<close>, \<open>Vfs\<close>: the disk driver and the list of block devices,
    partitions, FAT32 files, FAT32 directories, paths.
  \<^item> \<open>Elf\<close>, \<open>User_Mode\<close>, \<open>Kernel_Main\<close>: loading a program (\<^verbatim>\<open>elf.c\<close>), entering user mode (\<^verbatim>\<open>kernel.c\<close>,
    \<^verbatim>\<open>arch/x64.asm\<close>), and the first thread, which calls the disk driver, the partitions, the file system, the
    keyboard and the loader one after the other.
  \<^item> \<open>Kernel_Start\<close>: \<^verbatim>\<open>kmain\<close> itself, over the record \<open>machine\<close>, which adds the control registers and the screen
    to \<open>kernel\<close>; \<open>kmain_init\<close> is the sequence of its calls, \<open>kmain_round\<close> its loop up to the switch to a thread.

  \<^bold>\<open>State.\<close> The static variables of a file are the fields of a record; a component that works on the state
  of another extends its record, so that one state carries all layers (\<open>pf_state\<close> under \<open>mmu_state\<close>
  under the states of the heap and the stacks under \<open>kernel\<close>; \<open>sched\<close> under \<open>proc_state\<close> under the device and
  driver states, which \<open>kernel\<close> holds in a field). Operations take the state and return it updated, under
  \<open>res\<close> when they can stop the kernel. A loop that may not end is a partial function whose value is then
  \<open>None\<close>; the properties show that it ends.

  \<^bold>\<open>Interfaces.\<close> Locales state what a client relies on; each is interpreted on the functions of the model that
  provide it: \<open>bounded_fifo\<close> (the ring buffer, for the drivers), \<open>block_store\<close> (ATA drives and partitions;
  reading files, directories, paths and programs is proved once inside it), \<open>frame_source\<close> (page frames, for
  the page tables), \<open>memory_allocator\<close> and \<open>node_heap\<close> (the heap, for its clients and for the list of stacks),
  and \<open>linked_queue\<close> (the queues of threads).

  \<^bold>\<open>Lemmas.\<close> Every data structure has an invariant that its operations keep (\<open>queue_repr\<close>, \<open>proc_inv\<close>,
  \<open>pf_inv\<close>, \<open>mmu_inv\<close>, \<open>km_inv\<close>, \<open>stk_inv\<close>, \<open>fat_ok\<close>), and each operation a lemma for what it does on
  every branch; \<open>kernel_inv\<close> puts those of threads, heap and stacks together: every thread owns its block and
  its stack. Above them stand the properties: allocations never overlap and frames are never handed out
  twice; a mapping changes one page and nothing else; faults give reserved pages a fresh frame; the boot
  loader's information suits the allocator and the kernel's sections are mapped with their rights; the
  scheduler is fair and the thread system stays well formed in every reachable state; a thread that ends gives
  back what it owned; the ring buffer refines a bounded queue and the drivers keep the order of characters;
  the screen refines a terminal and \<^verbatim>\<open>printk\<close> shows what its format denotes; reads of the disk, of partitions,
  of files and of directories return what the layout on the medium encodes, and paths follow the tree of
  directories; a program is loaded as its headers say and runs in user mode on memory of its own; and from
  what the boot loader leaves, the kernel's start ends in its first thread with all these invariants in place.

  \<^bold>\<open>Bounds and assumptions.\<close> The ring buffer holds 1023 characters. Physical addresses are below 2 to the
  46, so that the direct map is injective. The heap's pages are written as if they were mapped; that the
  first access maps them is a property of the page fault handler, through which the loader's stores go.
  \<open>hw_loop\<close> and the other counted loops recurse on the C bound; \<open>readfs_cb\<close> takes the nesting of the
  directories as fuel, which the property assumes to be enough. The bump allocator hands out frame 0 once when its
  last region is used up; statements about what it hands out are for states in which it is still inside the
  map (\<open>has_region\<close>), or start from \<open>room n\<close>, which says that \<open>n\<close> frames are left and so that nothing halts. What the hardware
  does is a parameter: the ports answer through \<open>P\<close>, and named predicates (\<open>uart\<close> for a 16550 with its queue of 16 characters,
  \<open>ps2\<close>, \<open>ps2_answers\<close>, \<open>mask_registers\<close>, \<open>ata_drive\<close>, \<open>ata_answers\<close>) state what a driver relies on; each has an instance in a
  witness. What lies in the directories of a volume is a list of items for each of them (\<open>dir_holds\<close>), with dotted and
  deleted entries and labels; \<open>path_tree\<close> and \<open>dir_tree\<close> ask this of the directories that a lookup or a listing
  reaches. Other threads that run while one is blocked are the parameter \<open>resume\<close>, and interrupts taken between the operations of
  the blocking write are the parameter \<open>intr\<close>. The file system's structures, which the code takes from the
  heap, are passed by value. \<open>boot_info\<close> is what the start needs of the boot loader: usable free memory, the
  kernel's sections, and that the loop which frees the boot code's sections meets their end where it looks for it.

  \<^bold>\<open>Not modelled.\<close> Assembly apart from the context switch, \<^verbatim>\<open>call_user\<close> and the exit of a thread: the boot code
  runs before the kernel, and the stubs of the interrupts and system calls place registers and jump. The
  messages a component prints, and the page that \<^verbatim>\<open>panic\<close> shows before it halts: the result is then \<open>Inl OutOfMemory\<close> or
  \<open>Inl DeviceError\<close>, while \<open>Inl HaltLoop\<close> is the halt of a handler. The
  snakes demonstration, the tests and the user program. The kernel is modelled in the build without
  \<^verbatim>\<open>SERIAL_OUT\<close>. The steps of the thread system are whole operations, which run with
  interrupts off; interrupts between the operations of the drivers are modelled, and interrupts in the middle of an operation that
  runs with them on are not.
\<close>

end
